(* ===== verification/Prelude.thy ===== *)
theory Prelude
  imports Main "HOL-Library.Word"
begin

text \<open>
  What every component of the development shares: the type of bytes, Pike strings as the
  runtime stores them (an 8-bit string has size shift 0, a wide one 1 or 2), the values a
  built-in function may receive, the errors it may raise, and the lemmas about lists and bit
  operations that carry the component proofs.
\<close>

unbundle bit_operations_syntax

section \<open>Bytes, strings and arguments\<close>

type_synonym byte = "8 word"

text \<open>
  A \<open>struct pike_string\<close>: \<open>Str0\<close> is a string whose \<open>size_shift\<close> is 0 (one byte for each
  character), \<open>StrW\<close> one whose \<open>size_shift\<close> is 1 or 2 (the built-ins modelled here only test
  that it is not 0).
\<close>

datatype pike_string = Str0 "byte list" | StrW "32 word list"

text \<open>
  The values a built-in finds on the stack. An integer carries its subtype: \<open>True\<close> stands for
  \<open>NUMBER_UNDEFINED\<close>, the only non-zero subtype of an integer. \<open>AOther\<close> is a value of any
  other type (float, mapping, object and so on), which the built-ins modelled here reject.
\<close>

datatype arg = AInt int bool | AStr pike_string | AArr "arg list" | AOther

text \<open>The errors: what a call of \<open>Pike_error\<close> or \<open>Pike_fatal\<close> reports; an access outside of an object,
  and a signed number that leaves its C type, which the language leaves undefined.\<close>

datatype error =
    Wrong_Number_Of_Args
  | Wrong_Type_Of_Arg
  | Char_Out_Of_Range
  | Invalid_Header_Char
  | Illegal_Domain_Literal
  | Unknown_Label
  | Index_Out_Of_Range int
  | Index_Empty int
  | Bad_Index_Type
  | Division_By_Zero
  | Size_Too_Big
  | Invalid_Continuation
  | Truncated_Sequence
  | Expected_Continuation
  | Non_Shortest_Form
  | Surrogate_Character
  | Low_Surrogate_Required
  | Outside_Utf8_Range
  | Odd_Length
  | Not_A_Unicode_Character
  | Bad_Memory_Access
  | Int_Overflow
  | Fatal

type_synonym 'a result = "error + 'a"

text \<open>A step that may fail before the next one, and a loop of such steps.\<close>

definition bind_result :: "'a result \<Rightarrow> ('a \<Rightarrow> 'b result) \<Rightarrow> 'b result" where
  "bind_result r f = (case r of Inl e \<Rightarrow> Inl e | Inr x \<Rightarrow> f x)"

lemma bind_result_simps [simp]: "bind_result (Inr x) f = f x" "bind_result (Inl e) f = Inl e"
  by (simp_all add: bind_result_def)

lemma bind_result_cong [fundef_cong]:
  "r = r' \<Longrightarrow> (\<And>x. r' = Inr x \<Longrightarrow> f x = g x) \<Longrightarrow> bind_result r f = bind_result r' g"
  by (cases r') simp_all

fun fold_result :: "('a \<Rightarrow> 's \<Rightarrow> 's result) \<Rightarrow> 'a list \<Rightarrow> 's \<Rightarrow> 's result" where
  "fold_result f [] s = Inr s"
| "fold_result f (x # xs) s = bind_result (f x s) (fold_result f xs)"

lemma fold_result_append: "fold_result f (xs @ ys) s = bind_result (fold_result f xs s) (fold_result f ys)"
  by (induction xs arbitrary: s) (simp_all add: bind_result_def split: sum.splits)

text \<open>The number of the most significant bit (\<open>src/src/pike_cpulib.c\<close>).\<close>

fun my_log2 :: "nat \<Rightarrow> nat" where
  "my_log2 x = (if x < 2 then 0 else Suc (my_log2 (x div 2)))"

declare my_log2.simps [simp del]

named_theorems bits_simps \<open>bit operations on integers as arithmetic\<close>

section \<open>Bit operations on integers\<close>

lemma push_or_add:
  fixes d v :: int
  assumes "0 \<le> v" "v < 2 ^ n"
  shows "push_bit n d OR v = d * 2 ^ n + v"
proof -
  have tv: "take_bit n v = v"
    using assms by (simp add: take_bit_int_eq_self)
  have "push_bit n d OR v = concat_bit n v d"
    by (simp add: concat_bit_def tv or.commute)
  also have "\<dots> = take_bit n v + push_bit n d"
    by (simp add: concat_bit_eq)
  finally show ?thesis
    by (simp add: tv push_bit_eq_mult algebra_simps)
qed

lemma and_mask_mod [bits_simps]:
  fixes x :: int
  shows "x AND 31 = x mod 32" "x AND 63 = x mod 64" "x AND 255 = x mod 256"
    "x AND 15 = x mod 16"
proof -
  have m: "x AND mask n = x mod 2 ^ n" for n
    by (simp add: take_bit_eq_mask [symmetric] take_bit_eq_mod)
  show "x AND 31 = x mod 32" using m [of 5] by (simp add: mask_eq_exp_minus_1)
  show "x AND 63 = x mod 64" using m [of 6] by (simp add: mask_eq_exp_minus_1)
  show "x AND 255 = x mod 256" using m [of 8] by (simp add: mask_eq_exp_minus_1)
  show "x AND 15 = x mod 16" using m [of 4] by (simp add: mask_eq_exp_minus_1)
qed

text \<open>A test of the bits \<open>n\<close> to \<open>n + k - 1\<close>.\<close>

lemma and_push_mask:
  fixes d :: int
  shows "d AND push_bit n (mask k) = push_bit n (d div 2 ^ n mod 2 ^ k)"
proof -
  have "d AND push_bit n (mask k) = push_bit n (drop_bit n d AND mask k)"
    by (rule bit_eqI) (auto simp: bit_simps)
  then show ?thesis
    by (simp add: take_bit_eq_mask [symmetric] take_bit_eq_mod drop_bit_eq_div)
qed

lemma test_bits:
  fixes d :: int
  assumes "m = push_bit n (mask k)"
  shows "d AND m = 0 \<longleftrightarrow> d div 2 ^ n mod 2 ^ k = 0"
  unfolding assms and_push_mask by (simp add: push_bit_eq_mult)

lemma and_push_zero:
  fixes d :: int
  assumes "m = push_bit n m'" "0 \<le> d" "d < 2 ^ n"
  shows "d AND m = 0"
proof -
  have "d AND m = push_bit n (drop_bit n d AND m')"
    unfolding assms(1) by (rule bit_eqI) (auto simp: bit_simps)
  then show ?thesis
    using assms(2,3) by (simp add: drop_bit_eq_div)
qed

lemma drop_bit_div [bits_simps]:
  fixes x :: int
  shows "drop_bit n x = x div 2 ^ n"
  by (simp add: drop_bit_eq_div)

lemma uint_byte_bounds [simp, intro]: "0 \<le> uint (b :: byte)" "uint (b :: byte) < 256"
  using uint_lt2p [of b] by simp_all

lemma word_of_uint_byte [simp]: "word_of_int (uint (b :: byte)) = b"
  by simp

lemma word_byte_mod [simp]: "(word_of_int (x mod 256) :: byte) = word_of_int x"
  by (rule word_uint_eqI) (simp add: uint_word_of_int)

lemma byte_add_256: "(word_of_int (x + 256 * k) :: byte) = word_of_int x"
proof -
  have "(x + 256 * k) mod 256 = x mod 256"
    by simp
  then show ?thesis
    by (metis word_byte_mod)
qed

lemma int_div_less:
  fixes d m n :: int
  assumes "0 < m" "d < n * m"
  shows "d div m < n"
proof (rule ccontr)
  assume "\<not> d div m < n"
  then have "n * m \<le> d div m * m"
    using assms(1) by (intro mult_right_mono) auto
  also have "\<dots> \<le> d"
    using div_mult_mod_eq [of d m] pos_mod_sign [OF assms(1), of d] by linarith
  finally show False
    using assms(2) by simp
qed

lemma div_add_byte: "(x * 256 + uint (b :: byte)) div 256 = x"
  using uint_byte_bounds [of b] by (intro int_div_pos_eq [where r = "uint b"]) (simp_all only: mult.commute)

section \<open>Lists\<close>

text \<open>Reading a table at a C index: the entry, when the index is inside the table.\<close>

definition tab_at :: "'a list \<Rightarrow> int \<Rightarrow> 'a option" where
  "tab_at t i = (if 0 \<le> i \<and> i < int (length t) then Some (t ! nat i) else None)"

end
