(* ===== verification/Mime_Base64.thy ===== *)
theory Mime_Base64
  imports Prelude
begin

text \<open>
  The \<open>base64\<close> family of \<open>src/src/modules/MIME/mime.c\<close>: the alphabets and the reverse tables
  that the module initialiser builds from them, \<open>decode_base64\<close>, \<open>do_b64_encode\<close>,
  \<open>encode_base64\<close> and the Pike level functions over them. The interface \<open>alphabet\<close> is what a
  decoder relies on of a pair of tables; it is interpreted here for both base64 alphabets and
  in the other codec theories for theirs.
\<close>

section \<open>Tables\<close>

definition base64tab :: "byte list" where
  "base64tab = map of_char ''ABCDEFGHIJKLMNOPQRSTUVWXYZabcdefghijklmnopqrstuvwxyz0123456789+/''"

definition base64urltab :: "byte list" where
  "base64urltab =
     map of_char ''ABCDEFGHIJKLMNOPQRSTUVWXYZabcdefghijklmnopqrstuvwxyz0123456789-_''"

text \<open>
  \<open>memset(rtab, -1, sizeof rtab)\<close> and then \<open>rtab[tab[i] - ' '] = i\<close> for every index \<open>i\<close>; the
  reverse tables have \<open>(1 << 7) - ' '\<close> entries.
\<close>

definition init_rtab :: "byte list \<Rightarrow> int list" where
  "init_rtab tab = foldl (\<lambda>r i. r[nat (uint (tab ! i) - 32) := int i])
     (replicate (128 - 32) (- 1)) [0..<length tab]"

definition base64rtab :: "int list" where
  "base64rtab = init_rtab base64tab"

definition base64urlrtab :: "int list" where
  "base64urlrtab = init_rtab base64urltab"

text \<open>
  The test every decoder makes of a character: \<open>*src >= ' ' && tab[*src - ' '] >= 0\<close>, with
  \<open>*src\<close> a signed \<open>char\<close>.
\<close>

definition rtab_has :: "int list \<Rightarrow> byte \<Rightarrow> bool" where
  "rtab_has rtab c \<longleftrightarrow> sint c \<ge> 32 \<and> rtab ! nat (sint c - 32) \<ge> 0"

definition rtab_get :: "int list \<Rightarrow> byte \<Rightarrow> int" where
  "rtab_get rtab c = rtab ! nat (sint c - 32)"

section \<open>Decoding\<close>

fun decode_base64_loop :: "int list \<Rightarrow> byte list \<Rightarrow> int \<Rightarrow> byte list \<Rightarrow> int \<times> byte list" where
  "decode_base64_loop tab [] d buf = (d, buf)"
| "decode_base64_loop tab (c # src) d buf =
     (if rtab_has tab c then
        (let d' = push_bit 6 d OR rtab_get tab c in
         if d' \<ge> 0x1000000 then
           decode_base64_loop tab src 1
             (buf @ [word_of_int (drop_bit 16 d' AND 0xff), word_of_int (drop_bit 8 d' AND 0xff),
                     word_of_int (d' AND 0xff)])
         else decode_base64_loop tab src d' buf)
      else if c = 61 then (d, buf)
      else decode_base64_loop tab src d buf)"

text \<open>What is left in \<open>d\<close> after the loop: the switch over \<open>pads\<close>.\<close>

definition decode_base64_rest :: "int \<Rightarrow> byte list" where
  "decode_base64_rest d =
     (let (pads, d) =
        (if d AND 0x3f000000 \<noteq> 0 then (0 :: nat, d)
         else if d AND 0xfc0000 \<noteq> 0 then (1, drop_bit 2 d)
         else if d AND 0x3f000 \<noteq> 0 then (2, drop_bit 4 d)
         else (3, d))
      in (if pads \<le> 0 then [word_of_int (drop_bit 16 d AND 0xff)] else [])
       @ (if pads \<le> 1 then [word_of_int (drop_bit 8 d AND 0xff)] else [])
       @ (if pads \<le> 2 then [word_of_int (d AND 0xff)] else []))"

definition decode_base64 :: "int list \<Rightarrow> arg list \<Rightarrow> arg result" where
  "decode_base64 tab args =
     (case args of
        [AStr (Str0 s)] \<Rightarrow>
          (let (d, buf) = decode_base64_loop tab s 1 []
           in Inr (AStr (Str0 (buf @ decode_base64_rest d))))
      | [AStr (StrW s)] \<Rightarrow> Inl Char_Out_Of_Range
      | [x] \<Rightarrow> Inl Wrong_Type_Of_Arg
      | _ \<Rightarrow> Inl Wrong_Number_Of_Args)"

definition f_decode_base64 :: "arg list \<Rightarrow> arg result" where
  "f_decode_base64 args = decode_base64 base64rtab args"

definition f_decode_base64url :: "arg list \<Rightarrow> arg result" where
  "f_decode_base64url args = decode_base64 base64urlrtab args"

section \<open>Encoding\<close>

text \<open>
  \<open>do_b64_encode\<close>: the source bytes left, the destination written so far and the group counter
  \<open>g\<close> of the line. Reading past the source is \<open>None\<close>.
\<close>

fun do_b64_encode ::
  "nat \<Rightarrow> byte list \<Rightarrow> byte list \<Rightarrow> nat \<Rightarrow> bool \<Rightarrow> byte list \<Rightarrow> (byte list \<times> byte list) option" where
  "do_b64_encode 0 src dest g insert_crlf tab = Some (src, dest)"
| "do_b64_encode (Suc groups) src dest g insert_crlf tab =
     (case src of
        b0 # b1 # b2 # src' \<Rightarrow>
          (let d = push_bit 8 (uint b0);
               d = push_bit 8 (uint b1 OR d);
               d = d OR uint b2;
               dest = dest @ [tab ! nat (drop_bit 18 d), tab ! nat (drop_bit 12 d AND 63),
                              tab ! nat (drop_bit 6 d AND 63), tab ! nat (d AND 63)]
           in if insert_crlf \<and> g + 1 = 19
              then do_b64_encode groups src' (dest @ [13, 10]) 0 insert_crlf tab
              else do_b64_encode groups src' dest (if insert_crlf then g + 1 else g)
                     insert_crlf tab)
      | _ \<Rightarrow> None)"

text \<open>\<open>*--dest = '='\<close>, \<open>k\<close> times: the last \<open>k\<close> characters written become pads.\<close>

definition pad_back :: "nat \<Rightarrow> byte list \<Rightarrow> byte list" where
  "pad_back k dest = take (length dest - k) dest @ replicate k 61"

text \<open>
  The body of \<open>encode_base64\<close> for a non-empty string: \<open>len\<close> is the size of the string that
  \<open>begin_shared_string\<close> allocates, and writing anything but exactly that many characters is a
  memory error.
\<close>

definition encode_base64_body ::
  "byte list \<Rightarrow> bool \<Rightarrow> byte list \<Rightarrow> bool \<Rightarrow> byte list result" where
  "encode_base64_body str insert_crlf tab pad =
     (let groups = (length str + 2) div 3;
          last = (length str + 2) mod 3 + 1;
          len = groups * 4 + (if insert_crlf then ((groups - 1) div 19) * 2 else 0)
      in case do_b64_encode (groups - 1) str [] 0 insert_crlf tab of
           None \<Rightarrow> Inl Bad_Memory_Access
         | Some (src, dest) \<Rightarrow>
             if length src < last then Inl Bad_Memory_Access else
             (case do_b64_encode 1 (take last src @ replicate (3 - last) 0) dest 0 False tab of
                None \<Rightarrow> Inl Bad_Memory_Access
              | Some (_, dest) \<Rightarrow>
                  (let dest = (if last = 1 then pad_back 2 dest
                               else if last = 2 then pad_back 1 dest else dest)
                   in if length dest \<noteq> len then Inl Bad_Memory_Access
                      else if pad then Inr dest
                      else Inr (take (len - (3 - last)) dest))))"

text \<open>The optional arguments: \<open>insert_crlf\<close> and the override of \<open>pad\<close>.\<close>

definition arg_insert_crlf :: "arg list \<Rightarrow> bool" where
  "arg_insert_crlf args =
     (\<not> (length args \<ge> 2 \<and> (case args ! 1 of AInt v u \<Rightarrow> v \<noteq> 0 | _ \<Rightarrow> False)))"

definition arg_pad :: "arg list \<Rightarrow> bool \<Rightarrow> bool" where
  "arg_pad args pad =
     (if length args = 3 then
        (case args ! 2 of AInt v undef \<Rightarrow> if v \<noteq> 0 \<or> \<not> undef then v = 0 else pad | _ \<Rightarrow> pad)
      else pad)"

definition encode_base64 :: "byte list \<Rightarrow> bool \<Rightarrow> arg list \<Rightarrow> arg result" where
  "encode_base64 tab pad args =
     (if length args \<noteq> 1 \<and> length args \<noteq> 2 \<and> length args \<noteq> 3 then Inl Wrong_Number_Of_Args
      else case hd args of
        AStr (Str0 str) \<Rightarrow>
          (if length str = 0 then Inr (AStr (Str0 str))
           else case encode_base64_body str (arg_insert_crlf args) tab (arg_pad args pad) of
                  Inl e \<Rightarrow> Inl e
                | Inr r \<Rightarrow> Inr (AStr (Str0 r)))
      | AStr (StrW w) \<Rightarrow> Inl Char_Out_Of_Range
      | _ \<Rightarrow> Inl Wrong_Type_Of_Arg)"

definition f_encode_base64 :: "arg list \<Rightarrow> arg result" where
  "f_encode_base64 args = encode_base64 base64tab True args"

definition f_encode_base64url :: "arg list \<Rightarrow> arg result" where
  "f_encode_base64url args =
     (let args = (if length args = 1 then args @ [AInt 1 False] else args)
      in encode_base64 base64urltab False args)"


section \<open>The alphabet interface\<close>

text \<open>
  What the decoders rely on of an alphabet and its reverse table: every code is printable and
  is mapped back to its index, and no character outside the 7-bit range, no line break and no
  pad character decodes.
\<close>

locale alphabet =
  fixes tab :: "byte list" and rtab :: "int list" and bits :: nat
  assumes len_tab: "length tab = 2 ^ bits"
    and rtab_tab: "i < 2 ^ bits \<Longrightarrow> rtab_has rtab (tab ! i) \<and> rtab_get rtab (tab ! i) = int i"
    and skip [simp]: "\<not> rtab_has rtab 13" "\<not> rtab_has rtab 10" "\<not> rtab_has rtab 61"
begin

lemma code_has: "0 \<le> x \<Longrightarrow> x < 2 ^ bits \<Longrightarrow> rtab_has rtab (tab ! nat x)"
  using rtab_tab [of "nat x"] by (simp add: nat_less_iff)

lemma code_get: "0 \<le> x \<Longrightarrow> x < 2 ^ bits \<Longrightarrow> rtab_get rtab (tab ! nat x) = x"
  using rtab_tab [of "nat x"] by (simp add: nat_less_iff)

end


text \<open>The base64 decoder over an alphabet of six-bit codes.\<close>

locale sextets = alphabet tab rtab 6 for tab :: "byte list" and rtab :: "int list"
begin

lemma skip_crlf [simp]:
  "decode_base64_loop rtab (13 # 10 # src) d buf = decode_base64_loop rtab src d buf"
  using skip by simp

lemma pads [simp]: "decode_base64_loop rtab (replicate k 61) d buf = (d, buf)"
  using skip by (cases k) simp_all

text \<open>One code character: six more bits.\<close>

lemma code:
  assumes "0 \<le> x" "x < 64"
  shows "decode_base64_loop rtab (tab ! nat x # src) d buf =
    (if d * 64 + x \<ge> 0x1000000 then
       decode_base64_loop rtab src 1
         (buf @ [word_of_int ((d * 64 + x) div 65536), word_of_int ((d * 64 + x) div 256),
                 word_of_int (d * 64 + x)])
     else decode_base64_loop rtab src (d * 64 + x) buf)"
proof -
  have "push_bit 6 d OR x = d * 64 + x"
    using assms push_or_add [of x 6 d] by simp
  then show ?thesis
    using assms by (simp add: code_has code_get Let_def bits_simps)
qed

text \<open>The four codes of a group of 24 bits, and what decoding them yields.\<close>

definition codes :: "int \<Rightarrow> byte list" where
  "codes d = [tab ! nat (d div 262144), tab ! nat (d div 4096 mod 64),
              tab ! nat (d div 64 mod 64), tab ! nat (d mod 64)]"

lemma length_codes [simp]: "length (codes d) = 4"
  by (simp add: codes_def)

lemma decode_four:
  assumes "0 \<le> x1 \<and> x1 < 64" "0 \<le> x2 \<and> x2 < 64" "0 \<le> x3 \<and> x3 < 64" "0 \<le> x4 \<and> x4 < 64"
  defines "D \<equiv> (((64 + x1) * 64 + x2) * 64 + x3) * 64 + x4"
  shows "decode_base64_loop rtab (tab ! nat x1 # tab ! nat x2 # tab ! nat x3 # tab ! nat x4 # src) 1 buf
    = decode_base64_loop rtab src 1
        (buf @ [word_of_int (D div 65536), word_of_int (D div 256), word_of_int D])"
proof -
  have "\<not> 16777216 \<le> 1 * 64 + x1" "\<not> 16777216 \<le> (1 * 64 + x1) * 64 + x2"
    "\<not> 16777216 \<le> ((1 * 64 + x1) * 64 + x2) * 64 + x3"
    "16777216 \<le> (((1 * 64 + x1) * 64 + x2) * 64 + x3) * 64 + x4"
    using assms(1-4) by auto
  moreover have "D = (((1 * 64 + x1) * 64 + x2) * 64 + x3) * 64 + x4"
    by (simp add: D_def)
  ultimately show ?thesis
    using assms(1-4) by (simp only: code if_False if_True)
qed

lemma decode_three:
  assumes "0 \<le> x1 \<and> x1 < 64" "0 \<le> x2 \<and> x2 < 64" "0 \<le> x3 \<and> x3 < 64"
  shows "decode_base64_loop rtab (tab ! nat x1 # tab ! nat x2 # src) 1 buf
      = decode_base64_loop rtab src ((64 + x1) * 64 + x2) buf"
    and "decode_base64_loop rtab (tab ! nat x1 # tab ! nat x2 # tab ! nat x3 # src) 1 buf
      = decode_base64_loop rtab src (((64 + x1) * 64 + x2) * 64 + x3) buf"
proof -
  have "\<not> 16777216 \<le> 1 * 64 + x1" "\<not> 16777216 \<le> (1 * 64 + x1) * 64 + x2"
    "\<not> 16777216 \<le> ((1 * 64 + x1) * 64 + x2) * 64 + x3"
    using assms by auto
  then show "decode_base64_loop rtab (tab ! nat x1 # tab ! nat x2 # src) 1 buf
      = decode_base64_loop rtab src ((64 + x1) * 64 + x2) buf"
    and "decode_base64_loop rtab (tab ! nat x1 # tab ! nat x2 # tab ! nat x3 # src) 1 buf
      = decode_base64_loop rtab src (((64 + x1) * 64 + x2) * 64 + x3) buf"
    using assms by (simp_all only: code if_False mult_1)
qed

lemma sextets_of:
  fixes d :: int
  shows "(((64 + d div 262144) * 64 + d div 4096 mod 64) * 64 + d div 64 mod 64) * 64 + d mod 64
    = d + 256 * 65536"
proof -
  have dd: "d div 4096 = d div 64 div 64" "d div 262144 = d div 64 div 64 div 64"
    by (simp_all add: zdiv_zmult2_eq [symmetric])
  show ?thesis
    using div_mult_mod_eq [of "d div 64 div 64" 64] div_mult_mod_eq [of "d div 64" 64]
      div_mult_mod_eq [of d 64]
    unfolding dd by (simp add: algebra_simps)
qed

lemma top_byte_drop:
  "(word_of_int ((d + 256 * 65536) div 65536) :: byte) = word_of_int (d div 65536)"
  "(word_of_int ((d + 256 * 65536) div 256) :: byte) = word_of_int (d div 256)"
  "(word_of_int (d + 256 * 65536) :: byte) = word_of_int d"
proof -
  have "(d + 256 * 65536) div 65536 = d div 65536 + 256 * 1"
    "(d + 256 * 65536) div 256 = d div 256 + 256 * 256"
    using div_mult_self1 [of 65536 d 256] div_mult_self1 [of 256 d 65536] by simp_all
  then show "(word_of_int ((d + 256 * 65536) div 65536) :: byte) = word_of_int (d div 65536)"
    "(word_of_int ((d + 256 * 65536) div 256) :: byte) = word_of_int (d div 256)"
    "(word_of_int (d + 256 * 65536) :: byte) = word_of_int d"
    by (simp_all only: byte_add_256)
qed

lemma decode_codes:
  assumes "0 \<le> d \<and> d < 16777216"
  shows "decode_base64_loop rtab (codes d @ src) 1 buf =
    decode_base64_loop rtab src 1
      (buf @ [word_of_int (d div 65536), word_of_int (d div 256), word_of_int d])"
proof -
  have "0 \<le> d div 262144 \<and> d div 262144 < 64"
    using assms by auto
  moreover have "0 \<le> x mod 64 \<and> x mod 64 < 64" for x :: int
    by simp
  ultimately show ?thesis
    unfolding codes_def append.simps
    by (simp only: decode_four sextets_of top_byte_drop)
qed

text \<open>The 24-bit group of three bytes, as \<open>do_b64_encode\<close> builds it.\<close>

definition group :: "byte \<Rightarrow> byte \<Rightarrow> byte \<Rightarrow> int" where
  "group a b c = (uint a * 256 + uint b) * 256 + uint c"

lemma group_bounds: "0 \<le> group a b c \<and> group a b c < 16777216"
proof -
  have "0 \<le> x \<and> x < 256 \<and> 0 \<le> y \<and> y < 256 \<and> 0 \<le> z \<and> z < 256 \<Longrightarrow>
    0 \<le> (x * 256 + y) * 256 + z \<and> (x * 256 + y) * 256 + z < 16777216" for x y z :: int
    by auto
  then show ?thesis
    unfolding group_def by blast
qed

lemma group_bits: "push_bit 8 (uint b OR push_bit 8 (uint a)) OR uint c = group a b c"
  using push_or_add [of "uint b" 8 "uint a"] push_or_add [of "uint c" 8]
  by (simp add: group_def or.commute)

lemma group_bytes:
  "word_of_int (group a b c div 65536) = a" "word_of_int (group a b c div 256) = b"
  "word_of_int (group a b c) = c"
proof -
  have 1: "group a b c div 256 = uint a * 256 + uint b"
    unfolding group_def by (subst div_add_byte) auto
  have 2: "group a b c div 65536 = uint a"
    using arg_cong [OF 1, of "\<lambda>x. x div 256"]
    by (simp add: zdiv_zmult2_eq [symmetric] div_add_byte)
  show "word_of_int (group a b c div 65536) = a"
    by (simp add: 2)
  show "word_of_int (group a b c div 256) = b"
    using byte_add_256 [of "uint b" "uint a"] by (simp add: 1 algebra_simps)
  show "word_of_int (group a b c) = c"
    using byte_add_256 [of "uint c" "uint a * 256 + uint b"]
    by (simp add: group_def algebra_simps)
qed

lemma encode_step:
  "do_b64_encode (Suc n) (a # b # c # src) dest g crlf tab =
    (if crlf \<and> g + 1 = 19
     then do_b64_encode n src (dest @ codes (group a b c) @ [13, 10]) 0 crlf tab
     else do_b64_encode n src (dest @ codes (group a b c)) (if crlf then g + 1 else g) crlf tab)"
  using group_bits [of b a c]
  by (simp add: codes_def bits_simps Let_def)


text \<open>A run of whole groups: what is left of the source, how much is written, and what it
  decodes to.\<close>

lemma encode_groups:
  assumes "3 * n \<le> length src" "crlf \<Longrightarrow> g < 19"
  shows "\<exists>out. do_b64_encode n src dest g crlf tab = Some (drop (3 * n) src, dest @ out) \<and>
    length out = 4 * n + (if crlf then 2 * ((g + n) div 19) else 0) \<and>
    (\<forall>rest buf. decode_base64_loop rtab (out @ rest) 1 buf
      = decode_base64_loop rtab rest 1 (buf @ take (3 * n) src))"
  using assms
proof (induction n arbitrary: src dest g)
  case 0
  then show ?case by auto
next
  case (Suc n)
  from Suc.prems(1) obtain a b c src' where src: "src = a # b # c # src'"
    by (cases src; cases "tl src"; cases "tl (tl src)") auto
  let ?o = "codes (group a b c)"
  let ?nl = "crlf \<and> g + 1 = 19"
  let ?g = "if ?nl then 0 else if crlf then g + 1 else g"
  let ?e = "if ?nl then [13, 10] else []"
  have step: "do_b64_encode (Suc n) src dest g crlf tab
    = do_b64_encode n src' (dest @ ?o @ ?e) ?g crlf tab"
    unfolding src encode_step by simp
  have "3 * n \<le> length src'" "crlf \<Longrightarrow> ?g < 19"
    using Suc.prems by (auto simp: src)
  from Suc.IH [OF this, of "dest @ ?o @ ?e"] obtain out where
    out: "do_b64_encode n src' (dest @ ?o @ ?e) ?g crlf tab
        = Some (drop (3 * n) src', (dest @ ?o @ ?e) @ out)"
    and len: "length out = 4 * n + (if crlf then 2 * ((?g + n) div 19) else 0)"
    and dec: "\<And>rest buf. decode_base64_loop rtab (out @ rest) 1 buf
      = decode_base64_loop rtab rest 1 (buf @ take (3 * n) src')"
    by blast
  have skip_e: "decode_base64_loop rtab (?e @ out @ rest) 1 buf
      = decode_base64_loop rtab (out @ rest) 1 buf" for rest buf
    by auto
  have three: "3 * Suc n = Suc (Suc (Suc (3 * n)))"
    by simp
  have t: "take (3 * Suc n) src = [a, b, c] @ take (3 * n) src'"
    unfolding src three by simp
  have dr: "drop (3 * Suc n) src = drop (3 * n) src'"
    unfolding src three by simp
  have "decode_base64_loop rtab ((?o @ ?e @ out) @ rest) 1 buf
      = decode_base64_loop rtab rest 1 (buf @ take (3 * Suc n) src)" for rest buf
  proof -
    have "decode_base64_loop rtab ((?o @ ?e @ out) @ rest) 1 buf
        = decode_base64_loop rtab (?e @ out @ rest) 1 (buf @ [a, b, c])"
      using decode_codes [OF group_bounds, of a b c "?e @ out @ rest" buf]
      by (simp only: group_bytes append_assoc)
    also have "\<dots> = decode_base64_loop rtab (out @ rest) 1 (buf @ [a, b, c])"
      by (rule skip_e)
    also have "\<dots> = decode_base64_loop rtab rest 1 (buf @ take (3 * Suc n) src)"
      unfolding dec t by simp
    finally show ?thesis .
  qed
  moreover have "length (?o @ ?e @ out) = 4 * Suc n + (if crlf then 2 * ((g + Suc n) div 19) else 0)"
  proof -
    have "(18 + Suc n) div 19 = Suc (n div 19)"
      using div_add_self1 [of 19 n] by simp
    then show ?thesis
      using len by (cases "g = 18") auto
  qed
  ultimately show ?case
    unfolding step out dr by (intro exI [of _ "?o @ ?e @ out"]) (simp del: mult_Suc_right)
qed


text \<open>The last group: \<open>last\<close> bytes are present, the missing ones are 0.\<close>

lemma rest_two:
  fixes a b :: byte
  shows "decode_base64_rest (262144 + (uint a * 256 + uint b) * 4) = [a, b]"
proof -
  define x where "x = uint a * 256 + uint b"
  have x: "0 \<le> x" "x < 65536"
    using uint_byte_bounds(1) [of a] uint_byte_bounds(2) [of a]
      uint_byte_bounds(1) [of b] uint_byte_bounds(2) [of b] unfolding x_def by linarith+
  let ?d = "262144 + x * 4"
  have m: "?d AND 0x3f000000 = 0" "?d AND 0xfc0000 \<noteq> 0"
    using x by (simp_all add: test_bits [of _ 24 6] test_bits [of _ 18 6] mask_eq_exp_minus_1
      push_bit_eq_mult)
  have "drop_bit 2 ?d = 65536 + x"
    by (simp add: drop_bit_eq_div)
  moreover have "(word_of_int ((65536 + x) div 256) :: byte) = a"
    "(word_of_int (65536 + x) :: byte) = b"
    using byte_add_256 [of "uint a" 1] byte_add_256 [of "uint b" "256 + uint a"]
      div_add_byte [of "256 + uint a" b]
    by (simp_all add: x_def algebra_simps)
  ultimately show ?thesis
    using m by (simp add: decode_base64_rest_def bits_simps flip: x_def)
qed

lemma rest_one:
  fixes a :: byte
  shows "decode_base64_rest (4096 + uint a * 16) = [a]"
proof -
  define x where "x = uint a"
  have x: "0 \<le> x" "x < 256"
    unfolding x_def by simp_all
  let ?d = "4096 + x * 16"
  have m: "?d AND 0x3f000000 = 0" "?d AND 0xfc0000 = 0" "?d AND 0x3f000 \<noteq> 0"
    using x by (simp_all add: test_bits [of _ 24 6] test_bits [of _ 18 6] test_bits [of _ 12 6]
      mask_eq_exp_minus_1 push_bit_eq_mult)
  have "drop_bit 4 ?d = 256 + x"
    by (simp add: drop_bit_eq_div)
  moreover have "(word_of_int (256 + x) :: byte) = a"
    using byte_add_256 [of x 1] by (simp add: add.commute x_def)
  ultimately show ?thesis
    using m by (simp add: decode_base64_rest_def bits_simps flip: x_def)
qed


text \<open>Decoding the two or three codes that a last group of one or two bytes keeps.\<close>

lemma decode_two_codes:
  "decode_base64_loop rtab (take 2 (codes (group a 0 0)) @ replicate k 61) 1 buf
    = (4096 + uint a * 16, buf)"
proof -
  define x where "x = uint a"
  have x: "0 \<le> x \<and> x < 256"
    unfolding x_def by simp
  have g: "group a 0 0 = x * 65536"
    by (simp add: group_def x_def)
  have i: "group a 0 0 div 262144 = x div 4" "group a 0 0 div 4096 mod 64 = x mod 4 * 16"
    using div_mult_mult2 [of 65536 x 4] nonzero_mult_div_cancel_right [of 4096 "x * 16"]
      mod_mult_mult2 [of x 16 4] unfolding g
    by (simp_all add: mult.commute)
  have "0 \<le> x div 4 \<and> x div 4 < 64" "0 \<le> x mod 4 * 16 \<and> x mod 4 * 16 < 64"
    using x by auto
  moreover have "(64 + x div 4) * 64 + x mod 4 * 16 = 4096 + x * 16"
  proof -
    have "q * 4 + r = x \<Longrightarrow> (64 + q) * 64 + r * 16 = 4096 + x * 16" for q r :: int
      by auto
    then show ?thesis
      using div_mult_mod_eq [of x 4] by blast
  qed
  ultimately show ?thesis
    using decode_three(1) [of "x div 4" "x mod 4 * 16" 0 "replicate k 61" buf]
    by (simp add: codes_def i numeral_2_eq_2 del: decode_base64_loop.simps flip: x_def)
qed

lemma decode_three_codes:
  "decode_base64_loop rtab (take 3 (codes (group a b 0)) @ replicate k 61) 1 buf
    = (262144 + (uint a * 256 + uint b) * 4, buf)"
proof -
  define x where "x = uint a * 256 + uint b"
  have x: "0 \<le> x \<and> x < 65536"
    using uint_byte_bounds(1) [of a] uint_byte_bounds(2) [of a]
      uint_byte_bounds(1) [of b] uint_byte_bounds(2) [of b] unfolding x_def by linarith
  have g: "group a b 0 = x * 256"
    by (simp add: group_def x_def)
  have i: "group a b 0 div 262144 = x div 1024" "group a b 0 div 4096 mod 64 = x div 16 mod 64"
    "group a b 0 div 64 mod 64 = x mod 16 * 4"
    using div_mult_mult2 [of 256 x 1024] div_mult_mult2 [of 256 x 16]
      nonzero_mult_div_cancel_right [of 64 "x * 4"] mod_mult_mult2 [of x 4 16]
    unfolding g by (simp_all add: mult.commute)
  have "0 \<le> x div 1024 \<and> x div 1024 < 64" "0 \<le> x mod 16 * 4 \<and> x mod 16 * 4 < 64"
    "0 \<le> x div 16 mod 64 \<and> x div 16 mod 64 < 64"
    using x by auto
  moreover have "((64 + x div 1024) * 64 + x div 16 mod 64) * 64 + x mod 16 * 4 = 262144 + x * 4"
  proof -
    have "p * 64 + m = q \<Longrightarrow> q * 16 + r = x \<Longrightarrow>
      ((64 + p) * 64 + m) * 64 + r * 4 = 262144 + x * 4" for p m q r :: int
      by auto
    moreover have "x div 1024 * 64 + x div 16 mod 64 = x div 16"
      using div_mult_mod_eq [of "x div 16" 64] by (simp add: zdiv_zmult2_eq [symmetric])
    ultimately show ?thesis
      using div_mult_mod_eq [of x 16] by blast
  qed
  ultimately show ?thesis
    using decode_three(2) [of "x div 1024" "x div 16 mod 64" "x mod 16 * 4" "replicate k 61" buf]
    by (simp add: codes_def i numeral_3_eq_3 del: decode_base64_loop.simps flip: x_def)
qed


definition enc_last :: "byte list \<Rightarrow> byte list" where
  "enc_last L = (case L of [a] \<Rightarrow> take 2 (codes (group a 0 0))
     | [a, b] \<Rightarrow> take 3 (codes (group a b 0)) | a # b # c # _ \<Rightarrow> codes (group a b c) | [] \<Rightarrow> [])"

lemma one_to_three:
  assumes "L \<noteq> []" "length L \<le> 3"
  obtains a where "L = [a]" | a b where "L = [a, b]" | a b c where "L = [a, b, c]"
  using assms by (cases L; cases "tl L"; cases "tl (tl L)") auto

lemma length_enc_last:
  assumes "L \<noteq> []" "length L \<le> 3"
  shows "length (enc_last L) = Suc (length L)"
  using assms by (cases rule: one_to_three) (simp_all add: enc_last_def)

lemma decode_enc_last:
  assumes "L \<noteq> []" "length L \<le> 3"
  shows "(case decode_base64_loop rtab (enc_last L @ replicate k 61) 1 buf of
    (d, buf') \<Rightarrow> buf' @ decode_base64_rest d) = buf @ L"
  using assms
proof (cases rule: one_to_three)
  case (1 a)
  then show ?thesis
    by (simp add: enc_last_def decode_two_codes rest_one)
next
  case (2 a b)
  then show ?thesis
    using rest_two [of a b] by (simp add: enc_last_def decode_three_codes)
next
  case (3 a b c)
  have "decode_base64_rest 1 = []"
    by (simp add: decode_base64_rest_def)
  then show ?thesis
    using 3 decode_codes [OF group_bounds, of a b c "replicate k 61" buf]
    by (simp add: enc_last_def group_bytes)
qed

lemma encode_last:
  assumes "L \<noteq> []" "length L \<le> 3"
  shows "\<exists>s d. do_b64_encode 1 (L @ replicate (3 - length L) 0) dest 0 False tab = Some (s, dest @ d)
    \<and> length d = 4 \<and> (length L = 1 \<longrightarrow> pad_back 2 (dest @ d) = dest @ enc_last L @ [61, 61])
    \<and> (length L = 2 \<longrightarrow> pad_back 1 (dest @ d) = dest @ enc_last L @ [61])
    \<and> (length L = 3 \<longrightarrow> d = enc_last L)"
  using assms
  by (cases rule: one_to_three)
    (simp_all add: encode_step enc_last_def pad_back_def numeral_2_eq_2 One_nat_def del: do_b64_encode.simps(2))


text \<open>The encoder never leaves its buffers, fills the string it allocated exactly, and is
  inverted by the decoder, whatever the flags are.\<close>

lemma encode_body:
  assumes "str \<noteq> []"
  defines "groups \<equiv> (length str + 2) div 3"
  shows "\<exists>out. encode_base64_body str crlf tab pad = Inr out \<and>
    decode_base64 rtab [AStr (Str0 out)] = Inr (AStr (Str0 str)) \<and>
    length out = groups * 4 + (if crlf then (groups - 1) div 19 * 2 else 0)
      - (if pad then 0 else 2 - (length str + 2) mod 3)"
proof -
  define q where "q = groups - 1"
  define L where "L = drop (3 * q) str"
  define last where "last = (length str + 2) mod 3 + 1"
  have n: "length str = 3 * q + last" "1 \<le> last" "last \<le> 3" "groups = Suc q"
  proof -
    obtain m where m: "length str = Suc m"
      using assms(1) by (cases str) auto
    then have "groups = Suc (m div 3)" "last = m mod 3 + 1"
      using div_add_self1 [of 3 m] mod_add_self1 [of 3 m] unfolding groups_def last_def
      by (simp_all add: add.commute)
    then show "length str = 3 * q + last" "1 \<le> last" "last \<le> 3" "groups = Suc q"
      using m div_mult_mod_eq [of m 3] mod_less_divisor [of 3 m] unfolding q_def
      by auto
  qed
  have L: "L \<noteq> []" "length L \<le> 3" "length L = last"
    using n unfolding L_def by auto
  obtain out where out: "do_b64_encode q str [] 0 crlf tab = Some (L, out)"
    and len: "length out = 4 * q + (if crlf then 2 * (q div 19) else 0)"
    and dec: "\<And>rest buf. decode_base64_loop rtab (out @ rest) 1 buf
      = decode_base64_loop rtab rest 1 (buf @ take (3 * q) str)"
    using encode_groups [of q str crlf 0 "[]"] n(1) unfolding L_def by auto
  obtain s d where d: "do_b64_encode 1 (L @ replicate (3 - last) 0) out 0 False tab = Some (s, out @ d)"
    "length d = 4" "last = 1 \<longrightarrow> pad_back 2 (out @ d) = out @ enc_last L @ [61, 61]"
    "last = 2 \<longrightarrow> pad_back 1 (out @ d) = out @ enc_last L @ [61]" "last = 3 \<longrightarrow> d = enc_last L"
    using encode_last [OF L(1,2), of out] L(3) by metis
  let ?r = "out @ enc_last L @ (if pad then replicate (3 - last) 61 else [])"
  have l3: "last = 1 \<or> last = 2 \<or> last = 3"
    using n(2,3) by arith
  have len_e: "length (enc_last L) = Suc last"
    using length_enc_last [OF L(1,2)] L(3) by simp
  have dropL: "take last L = L"
    using L(3) by simp
  have padded: "(if last = 1 then pad_back 2 (out @ d) else if last = 2 then pad_back 1 (out @ d)
      else out @ d) = out @ enc_last L @ replicate (3 - last) 61"
    using d(3-5) l3 by (auto simp: numeral_2_eq_2)
  have "encode_base64_body str crlf tab pad = Inr ?r"
    unfolding encode_base64_body_def Let_def groups_def [symmetric] last_def [symmetric]
      q_def [symmetric] out option.case prod.case dropL d(1) padded
    using l3 len len_e L(3) n(4) by auto
  moreover have "decode_base64 rtab [AStr (Str0 ?r)] = Inr (AStr (Str0 str))"
  proof -
    obtain k where k: "?r = out @ enc_last L @ replicate k 61"
      by (cases pad) (auto intro: that [of 0])
    have "take (3 * q) str @ L = str"
      by (simp add: L_def)
    then show ?thesis
      using decode_enc_last [OF L(1,2), of k "take (3 * q) str"]
        dec [of "enc_last L @ replicate k 61" "[]"]
      unfolding k decode_base64_def by (simp split: prod.splits)
  qed
  moreover have "length ?r = groups * 4 + (if crlf then (groups - 1) div 19 * 2 else 0)
      - (if pad then 0 else 2 - (length str + 2) mod 3)"
    using len len_e n(2-4) last_def by auto
  ultimately show ?thesis
    by blast
qed

end


section \<open>Both alphabets\<close>

text \<open>Checking a pair of tables entry by entry.\<close>

definition tables_agree :: "byte list \<Rightarrow> int list \<Rightarrow> bool" where
  "tables_agree tab rtab \<longleftrightarrow>
     list_all (\<lambda>i. rtab_has rtab (tab ! i) \<and> rtab_get rtab (tab ! i) = int i) [0..<length tab]
     \<and> \<not> rtab_has rtab 13 \<and> \<not> rtab_has rtab 10 \<and> \<not> rtab_has rtab 61"

lemma alphabet_by_tables:
  assumes "tables_agree tab rtab" "length tab = 2 ^ bits"
  shows "alphabet tab rtab bits"
  using assms by unfold_locales (auto simp: tables_agree_def list_all_iff)

lemma base64_tables: "tables_agree base64tab base64rtab" "tables_agree base64urltab base64urlrtab"
  by code_simp+

interpretation b64: sextets base64tab base64rtab
  unfolding sextets_def
  by (rule alphabet_by_tables [OF base64_tables(1)]) (simp add: base64tab_def)

interpretation b64url: sextets base64urltab base64urlrtab
  unfolding sextets_def
  by (rule alphabet_by_tables [OF base64_tables(2)]) (simp add: base64urltab_def)

section \<open>Properties\<close>

lemma encode_base64_total:
  assumes "length opts \<le> 2" "sextets tab rtab"
  shows "\<exists>out. encode_base64 tab pad (AStr (Str0 s) # opts) = Inr (AStr (Str0 out)) \<and>
    decode_base64 rtab [AStr (Str0 out)] = Inr (AStr (Str0 s)) \<and>
    length out = (length s + 2) div 3 * 4
      + (if arg_insert_crlf (AStr (Str0 s) # opts) then ((length s + 2) div 3 - 1) div 19 * 2 else 0)
      - (if arg_pad (AStr (Str0 s) # opts) pad then 0 else 2 - (length s + 2) mod 3)"
proof -
  have n: "\<not> (length (AStr (Str0 s) # opts) \<noteq> 1 \<and> length (AStr (Str0 s) # opts) \<noteq> 2 \<and>
      length (AStr (Str0 s) # opts) \<noteq> 3)"
    using assms(1) by (auto simp: le_Suc_eq numeral_2_eq_2)
  show ?thesis
  proof (cases "s = []")
    case True
    then show ?thesis
      unfolding encode_base64_def decode_base64_def using n
      by (auto simp: decode_base64_rest_def)
  next
    case False
    show ?thesis
      unfolding encode_base64_def using n False sextets.encode_body [OF assms(2) False,
        of "arg_insert_crlf (AStr (Str0 s) # opts)" "arg_pad (AStr (Str0 s) # opts) pad"]
      by auto
  qed
qed

text \<open>C26: Decoding what \<open>encode_base64\<close> returns gives the encoded string back, for every
  8-bit string and whatever the optional arguments (no line breaks, no padding) are; no call
  with one to three arguments of which the first is an 8-bit string fails.\<close>

theorem base64_roundtrip:
  assumes "length opts \<le> 2"
  shows "\<exists>out. f_encode_base64 (AStr (Str0 s) # opts) = Inr (AStr (Str0 out)) \<and>
    f_decode_base64 [AStr (Str0 out)] = Inr (AStr (Str0 s))"
  using encode_base64_total [OF assms b64.sextets_axioms, of True s]
  unfolding f_encode_base64_def f_decode_base64_def by blast

theorem base64_roundtrip_witness:
  "\<exists>out. f_encode_base64 [AStr (Str0 [0, 255, 16, 7]), AInt 1 False] = Inr (AStr (Str0 out)) \<and>
    f_decode_base64 [AStr (Str0 out)] = Inr (AStr (Str0 [0, 255, 16, 7]))"
  using base64_roundtrip [of "[AInt 1 False]" "[0, 255, 16, 7]"] by simp

text \<open>The URL-safe alphabet round-trips as well, with the defaults of that function (no
  line breaks and no padding when only the string is given).\<close>

theorem base64url_roundtrip:
  assumes "length opts \<le> 2"
  shows "\<exists>out. f_encode_base64url (AStr (Str0 s) # opts) = Inr (AStr (Str0 out)) \<and>
    f_decode_base64url [AStr (Str0 out)] = Inr (AStr (Str0 s))"
proof -
  define opts' where "opts' = (if opts = [] then [AInt 1 False] else opts)"
  have "length opts' \<le> 2" "f_encode_base64url (AStr (Str0 s) # opts) =
      encode_base64 base64urltab False (AStr (Str0 s) # opts')"
    using assms by (auto simp: opts'_def f_encode_base64url_def)
  then show ?thesis
    using encode_base64_total [OF _ b64url.sextets_axioms, of opts' False s]
    unfolding f_decode_base64url_def by auto
qed

theorem base64url_roundtrip_witness:
  "\<exists>out. f_encode_base64url [AStr (Str0 [250, 251, 252, 253])] = Inr (AStr (Str0 out)) \<and>
    f_decode_base64url [AStr (Str0 out)] = Inr (AStr (Str0 [250, 251, 252, 253]))"
  using base64url_roundtrip [of "[]" "[250, 251, 252, 253]"] by simp

text \<open>The exact length of the encoding: four characters for each group of three bytes, a
  line break after every 19 groups but not after the last, and without padding one character
  less for each byte missing in the last group.\<close>

theorem base64_length:
  assumes "length opts \<le> 2" "args = AStr (Str0 s) # opts"
    "f_encode_base64 args = Inr (AStr (Str0 out))"
  shows "length out = (length s + 2) div 3 * 4
      + (if arg_insert_crlf args then ((length s + 2) div 3 - 1) div 19 * 2 else 0)
      - (if arg_pad args True then 0 else 2 - (length s + 2) mod 3)"
  using encode_base64_total [OF assms(1) b64.sextets_axioms, of True s] assms(2,3)
  unfolding f_encode_base64_def by auto

theorem base64_length_witness:
  "\<exists>out. f_encode_base64 [AStr (Str0 [1, 2, 3, 4])] = Inr (AStr (Str0 out)) \<and> length out = 8"
proof -
  obtain out where out: "f_encode_base64 [AStr (Str0 [1, 2, 3, 4])] = Inr (AStr (Str0 out))"
    using encode_base64_total [of "[]", OF _ b64.sextets_axioms, of True "[1, 2, 3, 4]"]
    unfolding f_encode_base64_def by auto
  show ?thesis
    using base64_length [OF _ refl out] out by (simp add: arg_pad_def arg_insert_crlf_def)
qed

text \<open>The accumulator is a 32-bit signed integer in the code; every shifted value fits.\<close>

lemma rtab_get_bounds:
  assumes "list_all (\<lambda>v. v < 64) rtab" "rtab_has rtab c" "length rtab = 96"
  shows "0 \<le> rtab_get rtab c \<and> rtab_get rtab c < 64"
proof -
  have "sint c < 128"
    using sint_lt [of c] by simp
  then have "rtab ! nat (sint c - 32) \<in> set rtab"
    using assms(2,3) by (intro nth_mem) (auto simp: rtab_has_def)
  then show ?thesis
    using assms(1,2) by (auto simp: rtab_has_def rtab_get_def list_all_iff)
qed

lemma push_or_bounds:
  assumes "1 \<le> d \<and> d < (0x1000000 :: int)" "0 \<le> v \<and> v < 64"
  shows "1 \<le> push_bit 6 d OR v \<and> push_bit 6 d OR v < 2 ^ 30"
  using assms push_or_add [of v 6 d] by auto

lemma decode_base64_acc:
  assumes "list_all (\<lambda>v. v < 64) rtab" "length rtab = 96" "1 \<le> d \<and> d < 0x1000000"
  shows "1 \<le> fst (decode_base64_loop rtab s d buf) \<and> fst (decode_base64_loop rtab s d buf) < 0x1000000"
  using assms(3)
proof (induction s arbitrary: d buf)
  case (Cons c s)
  have "1 \<le> push_bit 6 d OR rtab_get rtab c" if "rtab_has rtab c"
    using push_or_bounds [OF Cons.prems] rtab_get_bounds [OF assms(1) that assms(2)] by blast
  then show ?case
    using Cons by (auto simp: Let_def)
qed simp

lemma base64_table_facts: "list_all (\<lambda>v. v < 64) base64rtab" "length base64rtab = 96"
  by code_simp+

text \<open>Whatever characters it is given, the base64 decoder keeps its accumulator between 1
  and \<open>0xffffff\<close>, so the shift by six bits of the next character never overflows the 32-bit
  signed integer it is kept in.\<close>

theorem decode_base64_no_overflow:
  assumes "decode_base64_loop base64rtab s 1 [] = (d, buf)" "rtab_has base64rtab c"
  shows "1 \<le> d \<and> d < 0x1000000 \<and> push_bit 6 d OR rtab_get base64rtab c < 2 ^ 31"
proof -
  have d: "1 \<le> d \<and> d < 0x1000000"
    using decode_base64_acc [OF base64_table_facts, of 1 s "[]"] assms(1) by simp
  then show ?thesis
    using push_or_bounds [OF d rtab_get_bounds [OF base64_table_facts(1) assms(2)
      base64_table_facts(2)]] by simp
qed

theorem decode_base64_no_overflow_witness:
  "fst (decode_base64_loop base64rtab [90, 109] 1 []) < 0x1000000"
proof -
  have "rtab_has base64rtab 65"
    by code_simp
  then show ?thesis
    using decode_base64_no_overflow [of "[90, 109]"] by (metis prod.collapse)
qed

text \<open>Characters outside the alphabet and not the pad character are ignored by the
  decoder: removing them does not change the result.\<close>

theorem decode_base64_ignores:
  "f_decode_base64 [AStr (Str0 (filter (\<lambda>c. rtab_has base64rtab c \<or> c = 61) s))]
   = f_decode_base64 [AStr (Str0 s)]"
proof -
  have "decode_base64_loop base64rtab (filter (\<lambda>c. rtab_has base64rtab c \<or> c = 61) s) d buf
      = decode_base64_loop base64rtab s d buf" for d buf
    by (induction s arbitrary: d buf) (auto simp: Let_def)
  then show ?thesis
    by (simp add: f_decode_base64_def decode_base64_def)
qed

end
