(* ===== verification/Mime_Base32.thy ===== *)
theory Mime_Base32
  imports Mime_Base64
begin

text \<open>
  The \<open>base32\<close> family of \<open>src/src/modules/MIME/mime.c\<close>: \<open>decode_base32\<close>, \<open>do_b32_encode\<close>,
  \<open>encode_base32\<close> and the Pike level functions, over the \<open>alphabet\<close> interface with five-bit
  codes. A group is five bytes, eight codes.
\<close>

section \<open>Tables\<close>

definition base32tab :: "byte list" where
  "base32tab = map of_char ''ABCDEFGHIJKLMNOPQRSTUVWXYZ234567''"

definition base32hextab :: "byte list" where
  "base32hextab = map of_char ''0123456789ABCDEFGHIJKLMNOPQRSTUV''"

text \<open>The reverse tables of base32 also map the lower-case letters.\<close>

definition init_rtab_nocase :: "byte list \<Rightarrow> int list" where
  "init_rtab_nocase tab = foldl (\<lambda>r i.
       let r = r[nat (uint (tab ! i) - 32) := int i]
       in if uint (tab ! i) \<ge> 65 then r[nat (uint (tab ! i) - 32 + (97 - 65)) := int i] else r)
     (replicate (128 - 32) (- 1)) [0..<length tab]"

definition base32rtab :: "int list" where
  "base32rtab = init_rtab_nocase base32tab"

definition base32hexrtab :: "int list" where
  "base32hexrtab = init_rtab_nocase base32hextab"

section \<open>Decoding\<close>

fun decode_base32_loop :: "int list \<Rightarrow> byte list \<Rightarrow> int \<Rightarrow> byte list \<Rightarrow> int \<times> byte list" where
  "decode_base32_loop tab [] d buf = (d, buf)"
| "decode_base32_loop tab (c # src) d buf =
     (if rtab_has tab c then
        (let d' = push_bit 5 d OR rtab_get tab c in
         if d' \<ge> 0x10000000000 then
           decode_base32_loop tab src 1
             (buf @ [word_of_int (drop_bit 32 d' AND 0xff), word_of_int (drop_bit 24 d' AND 0xff),
                     word_of_int (drop_bit 16 d' AND 0xff), word_of_int (drop_bit 8 d' AND 0xff),
                     word_of_int (d' AND 0xff)])
         else decode_base32_loop tab src d' buf)
      else if c = 61 then (d, buf)
      else decode_base32_loop tab src d buf)"

text \<open>What is left in \<open>d\<close>: the chain of masks and the switch over \<open>pads\<close>.\<close>

definition decode_base32_rest :: "int \<Rightarrow> byte list" where
  "decode_base32_rest d =
     (let (pads, d) =
        (if d AND 0x1f0000000000 \<noteq> 0 then (0 :: nat, d)
         else if d AND 0xf800000000 \<noteq> 0 then (1, drop_bit 3 d)
         else if d AND 0xec0000000 \<noteq> 0 then (2, drop_bit 6 d)
         else if d AND 0x3e000000 \<noteq> 0 then (2, drop_bit 1 d)
         else if d AND 0x1f00000 \<noteq> 0 then (3, drop_bit 4 d)
         else if d AND 0xf8000 \<noteq> 0 then (4, drop_bit 7 d)
         else if d AND 0x7c00 \<noteq> 0 then (4, drop_bit 2 d)
         else (5, d))
      in (if pads \<le> 0 then [word_of_int (drop_bit 32 d AND 0xff)] else [])
       @ (if pads \<le> 1 then [word_of_int (drop_bit 24 d AND 0xff)] else [])
       @ (if pads \<le> 2 then [word_of_int (drop_bit 16 d AND 0xff)] else [])
       @ (if pads \<le> 3 then [word_of_int (drop_bit 8 d AND 0xff)] else [])
       @ (if pads \<le> 4 then [word_of_int (d AND 0xff)] else []))"

definition decode_base32 :: "int list \<Rightarrow> arg list \<Rightarrow> arg result" where
  "decode_base32 tab args =
     (case args of
        [AStr (Str0 s)] \<Rightarrow>
          (let (d, buf) = decode_base32_loop tab s 1 []
           in Inr (AStr (Str0 (buf @ decode_base32_rest d))))
      | [AStr (StrW s)] \<Rightarrow> Inl Char_Out_Of_Range
      | [x] \<Rightarrow> Inl Wrong_Type_Of_Arg
      | _ \<Rightarrow> Inl Wrong_Number_Of_Args)"

definition f_decode_base32 :: "arg list \<Rightarrow> arg result" where
  "f_decode_base32 args = decode_base32 base32rtab args"

definition f_decode_base32hex :: "arg list \<Rightarrow> arg result" where
  "f_decode_base32hex args = decode_base32 base32hexrtab args"

section \<open>Encoding\<close>

fun do_b32_encode ::
  "nat \<Rightarrow> byte list \<Rightarrow> byte list \<Rightarrow> nat \<Rightarrow> bool \<Rightarrow> byte list \<Rightarrow> (byte list \<times> byte list) option" where
  "do_b32_encode 0 src dest g insert_crlf tab = Some (src, dest)"
| "do_b32_encode (Suc groups) src dest g insert_crlf tab =
     (case src of
        b0 # b1 # b2 # b3 # b4 # src' \<Rightarrow>
          (let d = push_bit 8 (uint b0);
               d = push_bit 8 (uint b1 OR d);
               d = push_bit 8 (uint b2 OR d);
               d = push_bit 8 (uint b3 OR d);
               d = d OR uint b4;
               dest = dest @
                 [tab ! nat (drop_bit 35 d), tab ! nat (drop_bit 30 d AND 31),
                  tab ! nat (drop_bit 25 d AND 31), tab ! nat (drop_bit 20 d AND 31),
                  tab ! nat (drop_bit 15 d AND 31), tab ! nat (drop_bit 10 d AND 31),
                  tab ! nat (drop_bit 5 d AND 31), tab ! nat (d AND 31)]
           in if insert_crlf \<and> g + 1 = 8
              then do_b32_encode groups src' (dest @ [13, 10]) 0 insert_crlf tab
              else do_b32_encode groups src' dest (if insert_crlf then g + 1 else g)
                     insert_crlf tab)
      | _ \<Rightarrow> None)"

definition encode_base32_body ::
  "byte list \<Rightarrow> bool \<Rightarrow> byte list \<Rightarrow> bool \<Rightarrow> byte list result" where
  "encode_base32_body str insert_crlf tab pad =
     (let groups = (length str + 4) div 5;
          last = (length str - 1) mod 5 + 1;
          len = groups * 8 + (if insert_crlf then ((groups - 1) div 8) * 2 else 0)
      in case do_b32_encode (groups - 1) str [] 0 insert_crlf tab of
           None \<Rightarrow> Inl Bad_Memory_Access
         | Some (src, dest) \<Rightarrow>
             if length src < last then Inl Bad_Memory_Access else
             (case do_b32_encode 1 (take last src @ replicate (5 - last) 0) dest 0 False tab of
                None \<Rightarrow> Inl Bad_Memory_Access
              | Some (_, dest) \<Rightarrow>
                  (let dest = (if last = 1 then pad_back 6 dest
                               else if last = 2 then pad_back 4 dest
                               else if last = 3 then pad_back 3 dest
                               else if last = 4 then pad_back 1 dest else dest)
                   in if length dest \<noteq> len then Inl Bad_Memory_Access
                      else if pad then Inr dest
                      else let last = last + last div 2 in Inr (take (len - (7 - last)) dest))))"

definition encode_base32 :: "byte list \<Rightarrow> bool \<Rightarrow> arg list \<Rightarrow> arg result" where
  "encode_base32 tab pad args =
     (if length args \<noteq> 1 \<and> length args \<noteq> 2 \<and> length args \<noteq> 3 then Inl Wrong_Number_Of_Args
      else case hd args of
        AStr (Str0 str) \<Rightarrow>
          (if length str = 0 then Inr (AStr (Str0 str))
           else case encode_base32_body str (arg_insert_crlf args) tab (arg_pad args pad) of
                  Inl e \<Rightarrow> Inl e
                | Inr r \<Rightarrow> Inr (AStr (Str0 r)))
      | AStr (StrW w) \<Rightarrow> Inl Char_Out_Of_Range
      | _ \<Rightarrow> Inl Wrong_Type_Of_Arg)"

definition f_encode_base32 :: "arg list \<Rightarrow> arg result" where
  "f_encode_base32 args = encode_base32 base32tab True args"

definition f_encode_base32hex :: "arg list \<Rightarrow> arg result" where
  "f_encode_base32hex args = encode_base32 base32hextab True args"

section \<open>Digits of a group\<close>

text \<open>The \<open>k\<close> lowest base-32 digits of a number, most significant first.\<close>

primrec digits :: "nat \<Rightarrow> int \<Rightarrow> int list" where
  "digits 0 d = []"
| "digits (Suc k) d = digits k (d div 32) @ [d mod 32]"

lemma digits_range: "x \<in> set (digits k d) \<Longrightarrow> 0 \<le> x \<and> x < 32"
  by (induction k arbitrary: d) auto

lemma length_digits [simp]: "length (digits k d) = k"
  by (induction k arbitrary: d) auto

lemma foldl_digits:
  assumes "0 \<le> d" "d < 32 ^ k"
  shows "foldl (\<lambda>a x. a * 32 + x) a (digits k d) = a * 32 ^ k + d"
  using assms
proof (induction k arbitrary: d)
  case (Suc k)
  have "d div 32 < 32 ^ k"
    using Suc.prems by (simp add: int_div_less)
  then have "foldl (\<lambda>a x. a * 32 + x) a (digits k (d div 32)) = a * 32 ^ k + d div 32"
    using Suc by simp
  then show ?case
    using div_mult_mod_eq [of d 32] by (simp add: algebra_simps)
qed simp

lemma take_digits: "take k (digits (k + j) d) = digits k (d div 32 ^ j)"
proof (induction j arbitrary: d)
  case (Suc j)
  show ?case
    using Suc [of "d div 32"] by (simp add: zdiv_zmult2_eq)
qed simp


text \<open>The value of a run of bytes, most significant first.\<close>

definition be_value :: "byte list \<Rightarrow> int" where
  "be_value bs = foldl (\<lambda>v b. v * 256 + uint b) 0 bs"

lemma be_value_simps [simp]:
  "be_value [] = 0" "be_value (bs @ [b]) = be_value bs * 256 + uint b"
  by (simp_all add: be_value_def)

lemma be_value_range: "0 \<le> be_value bs \<and> be_value bs < 256 ^ length bs"
proof (induction bs rule: rev_induct)
  case (snoc b bs)
  then have "be_value bs + 1 \<le> 256 ^ length bs"
    by simp
  then have "(be_value bs + 1) * 256 \<le> 256 ^ length bs * 256"
    by (rule mult_right_mono) simp
  then have "be_value bs * 256 + 256 \<le> 256 ^ length bs * 256"
    by (simp only: distrib_right mult_1)
  then have "be_value bs * 256 + uint b < 256 ^ length bs * 256"
    using uint_byte_bounds(2) [of b] by linarith
  then show ?case
    using snoc uint_byte_bounds(1) [of b] by (simp add: mult.commute)
qed simp

lemma be_value_byte:
  assumes "k < length bs"
  shows "(word_of_int (t * 256 ^ length bs + be_value bs) :: byte) = last bs"
    and "(word_of_int ((t * 256 ^ length bs + be_value bs) div 256 ^ k) :: byte)
      = rev bs ! k"
proof -
  have *: "(word_of_int ((t * 256 ^ length cs + be_value cs) div 256 ^ k) :: byte) = rev cs ! k"
    if "k < length cs" for cs k
    using that
  proof (induction cs arbitrary: k rule: rev_induct)
    case (snoc b cs)
    have e: "t * 256 ^ length (cs @ [b]) + be_value (cs @ [b])
        = (t * 256 ^ length cs + be_value cs) * 256 + uint b"
      by (simp add: algebra_simps)
    show ?case
    proof (cases k)
      case 0
      then show ?thesis
        unfolding e using byte_add_256 [of "uint b" "t * 256 ^ length cs + be_value cs"]
        by (simp add: algebra_simps)
    next
      case (Suc k')
      have "(X * 256 + uint b) div (256 * 256 ^ k') = X div 256 ^ k'" for X
        by (simp add: zdiv_zmult2_eq div_add_byte)
      then have "((t * 256 ^ length cs + be_value cs) * 256 + uint b) div 256 ^ k
          = (t * 256 ^ length cs + be_value cs) div 256 ^ k'"
        unfolding Suc power_Suc by blast
      then show ?thesis
        unfolding e using snoc Suc by simp
    qed
  qed simp
  show "(word_of_int ((t * 256 ^ length bs + be_value bs) div 256 ^ k) :: byte) = rev bs ! k"
    by (rule * [OF assms])
  show "(word_of_int (t * 256 ^ length bs + be_value bs) :: byte) = last bs"
    using * [of 0 bs] assms by (cases bs rule: rev_cases) auto
qed

section \<open>The decoder over an alphabet of five-bit codes\<close>

locale quintets = alphabet tab rtab 5 for tab :: "byte list" and rtab :: "int list"
begin

lemma skip_crlf [simp]:
  "decode_base32_loop rtab (13 # 10 # src) d buf = decode_base32_loop rtab src d buf"
  by simp

lemma pads [simp]: "decode_base32_loop rtab (replicate k 61) d buf = (d, buf)"
  by (cases k) simp_all

lemma code:
  assumes "0 \<le> x \<and> x < 32"
  shows "decode_base32_loop rtab (tab ! nat x # src) d buf =
    (if d * 32 + x \<ge> 0x10000000000 then
       decode_base32_loop rtab src 1
         (buf @ [word_of_int ((d * 32 + x) div 256 ^ 4), word_of_int ((d * 32 + x) div 256 ^ 3),
                 word_of_int ((d * 32 + x) div 256 ^ 2), word_of_int ((d * 32 + x) div 256 ^ 1),
                 word_of_int (d * 32 + x)])
     else decode_base32_loop rtab src (d * 32 + x) buf)"
proof -
  have "push_bit 5 d OR x = d * 32 + x"
    using assms push_or_add [of x 5 d] by simp
  then show ?thesis
    using assms by (simp add: code_has code_get Let_def bits_simps)
qed

text \<open>A run of codes that does not fill the accumulator.\<close>

lemma accumulate:
  assumes "\<And>x. x \<in> set xs \<Longrightarrow> 0 \<le> x \<and> x < 32" "0 \<le> d"
    "foldl (\<lambda>a x. a * 32 + x) d xs < 0x10000000000"
  shows "decode_base32_loop rtab (map (\<lambda>x. tab ! nat x) xs @ src) d buf
    = decode_base32_loop rtab src (foldl (\<lambda>a x. a * 32 + x) d xs) buf"
  using assms
proof (induction xs arbitrary: d)
  case (Cons x xs)
  have ge: "d \<le> foldl (\<lambda>a x. a * 32 + x) d xs" if "0 \<le> d" "\<And>x. x \<in> set xs \<Longrightarrow> 0 \<le> x"
    for d :: int and xs
    using that
  proof (induction xs arbitrary: d)
    case (Cons y ys)
    have "d * 32 + y \<le> foldl (\<lambda>a x. a * 32 + x) (d * 32 + y) ys"
      using Cons.prems by (intro Cons.IH) auto
    then show ?case
      using Cons.prems(1) Cons.prems(2) [of y] by simp
  qed simp
  have x: "0 \<le> x \<and> x < 32"
    using Cons.prems(1) by simp
  have "d * 32 + x \<le> foldl (\<lambda>a x. a * 32 + x) (d * 32 + x) xs"
    using Cons.prems(1) [of x] Cons.prems(1) Cons.prems(2) by (intro ge) auto
  then have "\<not> 0x10000000000 \<le> d * 32 + x"
    using Cons.prems(3) by simp
  then show ?case
    using Cons.IH [of "d * 32 + x"] Cons.prems x
    by (simp add: code del: decode_base32_loop.simps)
qed simp

text \<open>The eight codes of a group of 40 bits.\<close>

definition codes :: "int \<Rightarrow> byte list" where
  "codes d = map (\<lambda>x. tab ! nat x) (digits 8 d)"

lemma length_codes [simp]: "length (codes d) = 8"
  by (simp add: codes_def)

lemma decode_first_codes:
  assumes "0 \<le> d" "d < 32 ^ 8" "k < 8"
  shows "decode_base32_loop rtab (take k (codes d) @ src) 1 buf
    = decode_base32_loop rtab src (32 ^ k + d div 32 ^ (8 - k)) buf"
proof -
  let ?e = "d div 32 ^ (8 - k)"
  have t: "take k (codes d) = map (\<lambda>x. tab ! nat x) (digits k ?e)"
    using take_digits [of k "8 - k" d] assms(3) by (simp add: codes_def take_map)
  have "(32 :: int) ^ 8 = 32 ^ k * 32 ^ (8 - k)"
    using assms(3) by (simp flip: power_add)
  then have e: "0 \<le> ?e" "?e < 32 ^ k"
    using assms int_div_less [of "32 ^ (8 - k)" d "32 ^ k"]
    by (simp_all add: pos_imp_zdiv_nonneg_iff)
  have f: "foldl (\<lambda>a x. a * 32 + x) 1 (digits k ?e) = 32 ^ k + ?e"
    using foldl_digits [OF e, of 1] by simp
  have "(32 :: int) ^ k \<le> 32 ^ 7"
    using assms(3) by (intro power_increasing) auto
  then have "32 ^ k + ?e < 0x10000000000"
    using e(2) by simp
  then show ?thesis
    unfolding t using accumulate [of "digits k ?e" 1 src buf] f digits_range by auto
qed


lemma be_group: "be_value [b0, b1, b2, b3, b4] =
    (((uint b0 * 256 + uint b1) * 256 + uint b2) * 256 + uint b3) * 256 + uint b4"
  by (simp add: be_value_def)

lemma group_bits:
  "push_bit 8 (uint b3 OR push_bit 8 (uint b2 OR push_bit 8 (uint b1 OR push_bit 8 (uint b0)))) OR uint b4
    = be_value [b0, b1, b2, b3, b4]"
  using push_or_add [of "uint b1" 8] push_or_add [of "uint b2" 8] push_or_add [of "uint b3" 8]
    push_or_add [of "uint b4" 8]
  by (simp add: be_group or.commute)

lemma codes_eq:
  "codes d = [tab ! nat (d div 32 ^ 7 mod 32), tab ! nat (d div 32 ^ 6 mod 32),
     tab ! nat (d div 32 ^ 5 mod 32), tab ! nat (d div 32 ^ 4 mod 32), tab ! nat (d div 32 ^ 3 mod 32),
     tab ! nat (d div 32 ^ 2 mod 32), tab ! nat (d div 32 mod 32), tab ! nat (d mod 32)]"
proof -
  have "digits 8 d = digits (Suc (Suc (Suc (Suc (Suc (Suc (Suc (Suc 0)))))))) d"
    by (simp only: numeral_eq_Suc pred_numeral_simps BitM.simps)
  then show ?thesis
    by (simp add: codes_def zdiv_zmult2_eq [symmetric] del: digits.simps)
      (simp add: zdiv_zmult2_eq [symmetric])
qed

lemma encode_step:
  "do_b32_encode (Suc n) (b0 # b1 # b2 # b3 # b4 # src) dest g crlf tab =
    (let c = codes (be_value [b0, b1, b2, b3, b4])
     in if crlf \<and> g + 1 = 8 then do_b32_encode n src (dest @ c @ [13, 10]) 0 crlf tab
        else do_b32_encode n src (dest @ c) (if crlf then g + 1 else g) crlf tab)"
proof -
  let ?d = "be_value [b0, b1, b2, b3, b4]"
  have "?d < 32 * 32 ^ 7" "0 \<le> ?d"
    using be_value_range [of "[b0, b1, b2, b3, b4]"] by simp_all
  then have top: "?d div 32 ^ 7 mod 32 = ?d div 32 ^ 7"
    by (intro mod_pos_pos_trivial int_div_less) (simp_all add: pos_imp_zdiv_nonneg_iff)
  show ?thesis
    unfolding Let_def codes_eq top
    using group_bits [of b3 b2 b1 b0 b4] by (simp add: bits_simps Let_def)
qed

lemma decode_codes:
  "decode_base32_loop rtab (codes (be_value [b0, b1, b2, b3, b4]) @ src) 1 buf
    = decode_base32_loop rtab src 1 (buf @ [b0, b1, b2, b3, b4])"
proof -
  let ?bs = "[b0, b1, b2, b3, b4]"
  let ?d = "be_value ?bs"
  have d: "0 \<le> ?d" "?d < 32 ^ 8"
    using be_value_range [of ?bs] by simp_all
  have split: "codes ?d = take 7 (codes ?d) @ [tab ! nat (?d mod 32)]"
    unfolding codes_eq by simp
  have D: "(32 ^ 7 + ?d div 32) * 32 + ?d mod 32 = 1 * 256 ^ length ?bs + ?d"
    using div_mult_mod_eq [of ?d 32] by simp
  have b: "word_of_int ((1 * 256 ^ length ?bs + ?d) div 256 ^ k) = rev ?bs ! k" if "k < 5" for k
    using be_value_byte(2) [of k ?bs 1] that by simp
  have l: "word_of_int (1 * 256 ^ length ?bs + ?d) = last ?bs"
    using be_value_byte(1) [of 0 ?bs 1] by simp
  have ge: "0x10000000000 \<le> 1 * 256 ^ length ?bs + ?d"
    using d by simp
  have "decode_base32_loop rtab (codes ?d @ src) 1 buf
      = decode_base32_loop rtab (tab ! nat (?d mod 32) # src) (32 ^ 7 + ?d div 32) buf"
    using decode_first_codes [OF d, of 7 "[tab ! nat (?d mod 32)] @ src" buf]
    by (subst split) simp
  also have "\<dots> = decode_base32_loop rtab src 1 (buf @ [rev ?bs ! 4, rev ?bs ! 3, rev ?bs ! 2, rev ?bs ! 1, last ?bs])"
    using b [of 4] b [of 3] b [of 2] b [of 1] l ge
    by (subst code) (simp_all only: D if_True, simp_all)
  finally show ?thesis
    by (simp add: numeral_eq_Suc)
qed


lemma encode_groups:
  assumes "5 * n \<le> length src" "crlf \<Longrightarrow> g < 8"
  shows "\<exists>out. do_b32_encode n src dest g crlf tab = Some (drop (5 * n) src, dest @ out) \<and>
    length out = 8 * n + (if crlf then 2 * ((g + n) div 8) else 0) \<and>
    (\<forall>rest buf. decode_base32_loop rtab (out @ rest) 1 buf
      = decode_base32_loop rtab rest 1 (buf @ take (5 * n) src))"
  using assms
proof (induction n arbitrary: src dest g)
  case 0
  then show ?case by auto
next
  case (Suc n)
  have five: "5 * Suc n = Suc (Suc (Suc (Suc (Suc (5 * n)))))"
    by simp
  obtain b0 b1 b2 b3 b4 src' where src: "src = b0 # b1 # b2 # b3 # b4 # src'"
    using Suc.prems(1) unfolding five by (auto simp: Suc_le_length_iff)
  let ?o = "codes (be_value [b0, b1, b2, b3, b4])"
  let ?nl = "crlf \<and> g + 1 = 8"
  let ?g = "if ?nl then 0 else if crlf then g + 1 else g"
  let ?e = "if ?nl then [13, 10] else []"
  have step: "do_b32_encode (Suc n) src dest g crlf tab
    = do_b32_encode n src' (dest @ ?o @ ?e) ?g crlf tab"
    unfolding src encode_step Let_def by simp
  have "5 * n \<le> length src'" "crlf \<Longrightarrow> ?g < 8"
    using Suc.prems by (auto simp: src)
  from Suc.IH [OF this, of "dest @ ?o @ ?e"] obtain out where
    out: "do_b32_encode n src' (dest @ ?o @ ?e) ?g crlf tab
        = Some (drop (5 * n) src', (dest @ ?o @ ?e) @ out)"
    and len: "length out = 8 * n + (if crlf then 2 * ((?g + n) div 8) else 0)"
    and dec: "\<And>rest buf. decode_base32_loop rtab (out @ rest) 1 buf
      = decode_base32_loop rtab rest 1 (buf @ take (5 * n) src')"
    by blast
  have skip_e: "decode_base32_loop rtab (?e @ out @ rest) 1 buf
      = decode_base32_loop rtab (out @ rest) 1 buf" for rest buf
    by auto
  have t: "take (5 * Suc n) src = [b0, b1, b2, b3, b4] @ take (5 * n) src'"
    unfolding src five by simp
  have dr: "drop (5 * Suc n) src = drop (5 * n) src'"
    unfolding src five by simp
  have "decode_base32_loop rtab ((?o @ ?e @ out) @ rest) 1 buf
      = decode_base32_loop rtab rest 1 (buf @ take (5 * Suc n) src)" for rest buf
  proof -
    have "decode_base32_loop rtab ((?o @ ?e @ out) @ rest) 1 buf
        = decode_base32_loop rtab (?e @ out @ rest) 1 (buf @ [b0, b1, b2, b3, b4])"
      by (simp only: append_assoc decode_codes)
    also have "\<dots> = decode_base32_loop rtab (out @ rest) 1 (buf @ [b0, b1, b2, b3, b4])"
      by (rule skip_e)
    also have "\<dots> = decode_base32_loop rtab rest 1 (buf @ take (5 * Suc n) src)"
      unfolding dec t by simp
    finally show ?thesis .
  qed
  moreover have "length (?o @ ?e @ out) = 8 * Suc n + (if crlf then 2 * ((g + Suc n) div 8) else 0)"
  proof -
    have "(7 + Suc n) div 8 = Suc (n div 8)"
      using div_add_self1 [of 8 n] by simp
    then show ?thesis
      using len by (cases "g = 7") auto
  qed
  ultimately show ?case
    unfolding step out dr by (intro exI [of _ "?o @ ?e @ out"]) (simp del: mult_Suc_right)
qed

text \<open>The last group of one to five bytes.\<close>

definition enc_last :: "byte list \<Rightarrow> byte list" where
  "enc_last L = take ((8 * length L + 4) div 5) (codes (be_value (L @ replicate (5 - length L) 0)))"

lemma be_value_zeros: "be_value (L @ replicate j 0) = be_value L * 256 ^ j"
proof (induction j)
  case (Suc j)
  then show ?case
    using be_value_simps(2) [of "L @ replicate j 0" 0]
    by (simp add: replicate_append_same [symmetric] del: be_value_simps)
qed simp

lemma one_to_five:
  assumes "L \<noteq> []" "length L \<le> 5"
  obtains a where "L = [a]" | a b where "L = [a, b]" | a b c where "L = [a, b, c]"
    | a b c d where "L = [a, b, c, d]" | a b c d e where "L = [a, b, c, d, e]"
proof -
  consider "length L = 1" | "length L = 2" | "length L = 3" | "length L = 4" | "length L = 5"
    using assms(2) length_greater_0_conv [THEN iffD2, OF assms(1)] by linarith
  then show ?thesis
    by cases (auto simp: length_Suc_conv numeral_eq_Suc intro: that)
qed


lemma masks:
  "(0x1f0000000000 :: int) = push_bit 40 (mask 5)" "(0xf800000000 :: int) = push_bit 35 (mask 5)"
  "(0xec0000000 :: int) = push_bit 30 59" "(0x3e000000 :: int) = push_bit 25 (mask 5)"
  "(0x1f00000 :: int) = push_bit 20 (mask 5)" "(0xf8000 :: int) = push_bit 15 (mask 5)"
  "(0x7c00 :: int) = push_bit 10 (mask 5)"
  by (simp_all add: push_bit_eq_mult mask_eq_exp_minus_1)

lemma rest_one:
  fixes V :: int
  assumes "0 \<le> V" "V < 256"
  shows "decode_base32_rest (1024 + V * 4) = [word_of_int (256 + V)]"
proof -
  let ?d = "1024 + V * 4"
  have z: "?d AND 0x1f0000000000 = 0" "?d AND 0xf800000000 = 0" "?d AND 0xec0000000 = 0"
    "?d AND 0x3e000000 = 0" "?d AND 0x1f00000 = 0" "?d AND 0xf8000 = 0"
    using assms by (auto intro!: masks [THEN and_push_zero])
  have nz: "?d AND 0x7c00 \<noteq> 0"
    using assms by (simp add: test_bits [OF masks(7)])
  have "drop_bit 2 ?d = 256 + V"
    by (simp add: drop_bit_eq_div)
  then show ?thesis
    using z nz by (simp add: decode_base32_rest_def bits_simps)
qed

lemma rest_two:
  fixes V :: int
  assumes "0 \<le> V" "V < 65536"
  shows "decode_base32_rest (1048576 + V * 16)
      = [word_of_int ((65536 + V) div 256), word_of_int (65536 + V)]"
proof -
  let ?d = "1048576 + V * 16"
  have z: "?d AND 0x1f0000000000 = 0" "?d AND 0xf800000000 = 0" "?d AND 0xec0000000 = 0"
    "?d AND 0x3e000000 = 0"
    using assms by (auto intro!: masks [THEN and_push_zero])
  have nz: "?d AND 0x1f00000 \<noteq> 0"
    using assms by (simp add: test_bits [OF masks(5)])
  have "drop_bit 4 ?d = 65536 + V"
    by (simp add: drop_bit_eq_div)
  then show ?thesis
    using z nz by (simp add: decode_base32_rest_def bits_simps)
qed

lemma rest_three:
  fixes V :: int
  assumes "0 \<le> V" "V < 16777216"
  shows "decode_base32_rest (33554432 + V * 2)
      = [word_of_int ((16777216 + V) div 65536), word_of_int ((16777216 + V) div 256),
         word_of_int (16777216 + V)]"
proof -
  let ?d = "33554432 + V * 2"
  have z: "?d AND 0x1f0000000000 = 0" "?d AND 0xf800000000 = 0" "?d AND 0xec0000000 = 0"
    using assms by (auto intro!: masks [THEN and_push_zero])
  have nz: "?d AND 0x3e000000 \<noteq> 0"
    using assms by (simp add: test_bits [OF masks(4)])
  have "drop_bit 1 ?d = 16777216 + V"
    by (simp add: drop_bit_eq_div)
  then show ?thesis
    using z nz by (simp add: decode_base32_rest_def bits_simps)
qed

lemma rest_four:
  fixes V :: int
  assumes "0 \<le> V" "V < 4294967296"
  shows "decode_base32_rest (34359738368 + V * 8)
      = [word_of_int ((4294967296 + V) div 16777216), word_of_int ((4294967296 + V) div 65536),
         word_of_int ((4294967296 + V) div 256), word_of_int (4294967296 + V)]"
proof -
  let ?d = "34359738368 + V * 8"
  have z: "?d AND 0x1f0000000000 = 0"
    using assms by (auto intro!: masks [THEN and_push_zero])
  have nz: "?d AND 0xf800000000 \<noteq> 0"
    using assms by (simp add: test_bits [OF masks(2)])
  have "drop_bit 3 ?d = 4294967296 + V"
    by (simp add: drop_bit_eq_div)
  then show ?thesis
    using z nz by (simp add: decode_base32_rest_def bits_simps)
qed


text \<open>What the codes kept of a short last group leave in the accumulator.\<close>

lemma decode_short:
  assumes "L \<noteq> []" "length L < 5"
  defines "k \<equiv> (8 * length L + 4) div 5"
  shows "decode_base32_loop rtab (enc_last L @ replicate j 61) 1 buf
    = (32 ^ k + be_value L * 2 ^ (5 * k - 8 * length L), buf)"
proof -
  let ?D = "be_value (L @ replicate (5 - length L) 0)"
  have k: "k < 8" "8 * length L \<le> 5 * k"
    using assms(2) unfolding k_def by auto
  have d: "0 \<le> ?D" "?D < 32 ^ 8"
    using be_value_range [of "L @ replicate (5 - length L) 0"] assms(2) by simp_all
  have p: "(256 :: int) ^ (5 - length L) = 2 ^ (5 * k - 8 * length L) * 32 ^ (8 - k)"
  proof -
    have "(256 :: int) ^ (5 - length L) = 2 ^ (8 * (5 - length L))"
      using power_mult [of "2 :: int" 8 "5 - length L"] by simp
    also have "8 * (5 - length L) = 5 * k - 8 * length L + 5 * (8 - k)"
      using k assms(2) by (simp add: diff_mult_distrib2)
    also have "(2 :: int) ^ \<dots> = 2 ^ (5 * k - 8 * length L) * 32 ^ (8 - k)"
      using power_mult [of "2 :: int" 5 "8 - k"] by (simp add: power_add)
    finally show ?thesis .
  qed
  have "?D div 32 ^ (8 - k) = be_value L * 2 ^ (5 * k - 8 * length L)"
    unfolding be_value_zeros p by (simp flip: mult.assoc)
  then show ?thesis
    using decode_first_codes [OF d k(1), of "replicate j 61" buf]
    by (simp add: enc_last_def k_def)
qed

lemma decode_enc_last:
  assumes "L \<noteq> []" "length L \<le> 5"
  shows "(case decode_base32_loop rtab (enc_last L @ replicate j 61) 1 buf of
    (d, buf') \<Rightarrow> buf' @ decode_base32_rest d) = buf @ L"
  using assms
proof (cases rule: one_to_five)
  case (1 a)
  then show ?thesis
    using decode_short [OF assms(1), of j buf] rest_one [of "be_value L"]
      be_value_range [of L] be_value_byte(1) [of 0 L 1] by simp
next
  case (2 a b)
  then show ?thesis
    using decode_short [OF assms(1), of j buf] rest_two [of "be_value L"]
      be_value_range [of L] be_value_byte [of 0 L 1] be_value_byte(2) [of 1 L 1] by simp
next
  case (3 a b c)
  then show ?thesis
    using decode_short [OF assms(1), of j buf] rest_three [of "be_value L"]
      be_value_range [of L] be_value_byte [of 0 L 1] be_value_byte(2) [of 1 L 1]
      be_value_byte(2) [of 2 L 1] by simp
next
  case (4 a b c d)
  then show ?thesis
    using decode_short [OF assms(1), of j buf] rest_four [of "be_value L"]
      be_value_range [of L] be_value_byte [of 0 L 1] be_value_byte(2) [of 1 L 1]
      be_value_byte(2) [of 2 L 1] be_value_byte(2) [of 3 L 1] by simp
next
  case (5 a b c d e)
  have "decode_base32_rest 1 = []"
    by (simp add: decode_base32_rest_def)
  then show ?thesis
    using 5 decode_codes [of a b c d e "replicate j 61" buf] by (simp add: enc_last_def)
qed

lemma length_enc_last:
  assumes "L \<noteq> []" "length L \<le> 5"
  shows "length (enc_last L) = (8 * length L + 4) div 5"
  using assms by (auto simp: enc_last_def)

lemma encode_last:
  assumes "L \<noteq> []" "length L \<le> 5"
  shows "\<exists>s d. do_b32_encode 1 (L @ replicate (5 - length L) 0) dest 0 False tab = Some (s, dest @ d)
    \<and> length d = 8 \<and> enc_last L = take ((8 * length L + 4) div 5) d"
proof -
  define M where "M = L @ replicate (5 - length L) 0"
  have "length M = 5"
    using assms(2) by (simp add: M_def)
  then obtain b0 b1 b2 b3 b4 where "M = [b0, b1, b2, b3, b4]"
    using one_to_five [of M] by fastforce
  then have "do_b32_encode 1 M dest 0 False tab = Some ([], dest @ codes (be_value M))"
    using encode_step [of 0 b0 b1 b2 b3 b4 "[]" dest 0 False]
    by (simp add: Let_def del: do_b32_encode.simps(2))
  then show ?thesis
    by (simp add: enc_last_def M_def)
qed

text \<open>The encoder fills its string exactly and the decoder inverts it.\<close>

lemma encode_body:
  assumes "str \<noteq> []"
  defines "groups \<equiv> (length str + 4) div 5"
  defines "lst \<equiv> (length str - 1) mod 5 + 1"
  shows "\<exists>out. encode_base32_body str crlf tab pad = Inr out \<and>
    decode_base32 rtab [AStr (Str0 out)] = Inr (AStr (Str0 str)) \<and>
    length out = groups * 8 + (if crlf then (groups - 1) div 8 * 2 else 0)
      - (if pad then 0 else 8 - (8 * lst + 4) div 5)"
proof -
  define q where "q = groups - 1"
  define L where "L = drop (5 * q) str"
  have n: "length str = 5 * q + lst" "1 \<le> lst" "lst \<le> 5" "groups = Suc q"
  proof -
    obtain m where m: "length str = Suc m"
      using assms(1) by (cases str) auto
    then have "groups = Suc (m div 5)" "lst = m mod 5 + 1"
      using div_add_self1 [of 5 m] unfolding groups_def lst_def by (simp_all add: add.commute)
    then show "length str = 5 * q + lst" "1 \<le> lst" "lst \<le> 5" "groups = Suc q"
      using m div_mult_mod_eq [of m 5] mod_less_divisor [of 5 m] unfolding q_def by auto
  qed
  have L: "L \<noteq> []" "length L \<le> 5" "length L = lst"
    using n unfolding L_def by auto
  obtain out where out: "do_b32_encode q str [] 0 crlf tab = Some (L, out)"
    and len: "length out = 8 * q + (if crlf then 2 * (q div 8) else 0)"
    and dec: "\<And>rest buf. decode_base32_loop rtab (out @ rest) 1 buf
      = decode_base32_loop rtab rest 1 (buf @ take (5 * q) str)"
    using encode_groups [of q str crlf 0 "[]"] n(1) unfolding L_def by auto
  obtain s d where d: "do_b32_encode 1 (L @ replicate (5 - lst) 0) out 0 False tab = Some (s, out @ d)"
    "length d = 8" "enc_last L = take ((8 * lst + 4) div 5) d"
    using encode_last [OF L(1,2), of out] L(3) by metis
  let ?p = "8 - (8 * lst + 4) div 5"
  let ?r = "out @ enc_last L @ (if pad then replicate ?p 61 else [])"
  have l5: "lst = 1 \<or> lst = 2 \<or> lst = 3 \<or> lst = 4 \<or> lst = 5"
    using n(2,3) by arith
  have len_e: "length (enc_last L) = (8 * lst + 4) div 5"
    using length_enc_last [OF L(1,2)] L(3) by simp
  have dropL: "take lst L = L"
    using L(3) by simp
  have padded: "(if lst = 1 then pad_back 6 (out @ d) else if lst = 2 then pad_back 4 (out @ d)
      else if lst = 3 then pad_back 3 (out @ d) else if lst = 4 then pad_back 1 (out @ d)
      else out @ d) = out @ enc_last L @ replicate ?p 61"
    unfolding d(3) using d(2) l5 by (auto simp: pad_back_def)
  have "encode_base32_body str crlf tab pad = Inr ?r"
    unfolding encode_base32_body_def Let_def groups_def [symmetric] lst_def [symmetric]
      q_def [symmetric] out option.case prod.case dropL d(1) padded
    using l5 len len_e L(3) n(4) by auto
  moreover have "decode_base32 rtab [AStr (Str0 ?r)] = Inr (AStr (Str0 str))"
  proof -
    obtain k where k: "?r = out @ enc_last L @ replicate k 61"
      by (cases pad) (auto intro: that [of 0])
    have "take (5 * q) str @ L = str"
      by (simp add: L_def)
    then show ?thesis
      using decode_enc_last [OF L(1,2), of k "take (5 * q) str"]
        dec [of "enc_last L @ replicate k 61" "[]"]
      unfolding k decode_base32_def by (simp split: prod.splits)
  qed
  moreover have "length ?r = groups * 8 + (if crlf then (groups - 1) div 8 * 2 else 0)
      - (if pad then 0 else ?p)"
    using len len_e n(4) l5 by auto
  ultimately show ?thesis
    by blast
qed

end

section \<open>Both alphabets\<close>

lemma base32_tables: "tables_agree base32tab base32rtab" "tables_agree base32hextab base32hexrtab"
  by code_simp+

interpretation b32: quintets base32tab base32rtab
  unfolding quintets_def
  by (rule alphabet_by_tables [OF base32_tables(1)]) (simp add: base32tab_def)

interpretation b32hex: quintets base32hextab base32hexrtab
  unfolding quintets_def
  by (rule alphabet_by_tables [OF base32_tables(2)]) (simp add: base32hextab_def)

section \<open>Properties\<close>

lemma encode_base32_total:
  assumes "length opts \<le> 2" "quintets tab rtab"
  shows "\<exists>out. encode_base32 tab pad (AStr (Str0 s) # opts) = Inr (AStr (Str0 out)) \<and>
    decode_base32 rtab [AStr (Str0 out)] = Inr (AStr (Str0 s)) \<and>
    (s \<noteq> [] \<longrightarrow> length out = (length s + 4) div 5 * 8
      + (if arg_insert_crlf (AStr (Str0 s) # opts) then ((length s + 4) div 5 - 1) div 8 * 2 else 0)
      - (if arg_pad (AStr (Str0 s) # opts) pad then 0
         else 8 - (8 * ((length s - 1) mod 5 + 1) + 4) div 5))"
proof -
  have n: "\<not> (length (AStr (Str0 s) # opts) \<noteq> 1 \<and> length (AStr (Str0 s) # opts) \<noteq> 2 \<and>
      length (AStr (Str0 s) # opts) \<noteq> 3)"
    using assms(1) by (auto simp: le_Suc_eq numeral_2_eq_2)
  show ?thesis
  proof (cases "s = []")
    case True
    then show ?thesis
      unfolding encode_base32_def decode_base32_def using n
      by (auto simp: decode_base32_rest_def)
  next
    case False
    show ?thesis
      unfolding encode_base32_def using n False quintets.encode_body [OF assms(2) False,
        of "arg_insert_crlf (AStr (Str0 s) # opts)" "arg_pad (AStr (Str0 s) # opts) pad"]
      by auto
  qed
qed

text \<open>C27: Decoding what \<open>encode_base32\<close> returns gives the encoded string back, for every
  8-bit string and whatever the optional arguments are.\<close>

theorem base32_roundtrip:
  assumes "length opts \<le> 2"
  shows "\<exists>out. f_encode_base32 (AStr (Str0 s) # opts) = Inr (AStr (Str0 out)) \<and>
    f_decode_base32 [AStr (Str0 out)] = Inr (AStr (Str0 s))"
  using encode_base32_total [OF assms b32.quintets_axioms, of True s]
  unfolding f_encode_base32_def f_decode_base32_def by blast

theorem base32_roundtrip_witness:
  "\<exists>out. f_encode_base32 [AStr (Str0 [0, 255, 16, 7, 9, 8, 200])] = Inr (AStr (Str0 out)) \<and>
    f_decode_base32 [AStr (Str0 out)] = Inr (AStr (Str0 [0, 255, 16, 7, 9, 8, 200]))"
  using base32_roundtrip [of "[]" "[0, 255, 16, 7, 9, 8, 200]"] by simp

text \<open>The round trip of the hexadecimal variant of base32.\<close>

theorem base32hex_roundtrip:
  assumes "length opts \<le> 2"
  shows "\<exists>out. f_encode_base32hex (AStr (Str0 s) # opts) = Inr (AStr (Str0 out)) \<and>
    f_decode_base32hex [AStr (Str0 out)] = Inr (AStr (Str0 s))"
  using encode_base32_total [OF assms b32hex.quintets_axioms, of True s]
  unfolding f_encode_base32hex_def f_decode_base32hex_def by blast

theorem base32hex_roundtrip_witness:
  "\<exists>out. f_encode_base32hex [AStr (Str0 [1, 2, 3]), AInt 1 False, AInt 1 False] = Inr (AStr (Str0 out)) \<and>
    f_decode_base32hex [AStr (Str0 out)] = Inr (AStr (Str0 [1, 2, 3]))"
  using base32hex_roundtrip [of "[AInt 1 False, AInt 1 False]" "[1, 2, 3]"] by simp

text \<open>The exact length of the base32 encoding of a non-empty string.\<close>

theorem base32_length:
  assumes "length opts \<le> 2" "args = AStr (Str0 s) # opts" "s \<noteq> []"
    "f_encode_base32 args = Inr (AStr (Str0 out))"
  shows "length out = (length s + 4) div 5 * 8
      + (if arg_insert_crlf args then ((length s + 4) div 5 - 1) div 8 * 2 else 0)
      - (if arg_pad args True then 0 else 8 - (8 * ((length s - 1) mod 5 + 1) + 4) div 5)"
  using encode_base32_total [OF assms(1) b32.quintets_axioms, of True s] assms(2-4)
  unfolding f_encode_base32_def by auto

theorem base32_length_witness:
  "\<exists>out. f_encode_base32 [AStr (Str0 [1, 2, 3, 4, 5, 6])] = Inr (AStr (Str0 out)) \<and> length out = 16"
proof -
  obtain out where out: "f_encode_base32 [AStr (Str0 [1, 2, 3, 4, 5, 6])] = Inr (AStr (Str0 out))"
    using encode_base32_total [of "[]", OF _ b32.quintets_axioms, of True "[1, 2, 3, 4, 5, 6]"]
    unfolding f_encode_base32_def by auto
  show ?thesis
    using base32_length [OF _ refl _ out] out by (simp add: arg_pad_def arg_insert_crlf_def)
qed

end
