(* ===== verification/Mime_Crypt64.thy ===== *)
theory Mime_Crypt64
  imports Mime_Base64
begin

text \<open>
  The \<open>crypt64\<close> encoding of \<open>src/src/modules/MIME/mime.c\<close>: \<open>f_encode_crypt64\<close> and
  \<open>f_decode_crypt64\<close>, which pack bytes least significant bit first. The decoder reads its
  input as \<open>unsigned char\<close>, so a byte above 127 indexes past its reverse table; the model makes
  that read an error value.
\<close>

definition crypt64tab :: "byte list" where
  "crypt64tab =
     map of_char ''./0123456789ABCDEFGHIJKLMNOPQRSTUVWXYZabcdefghijklmnopqrstuvwxyz''"

definition crypt64rtab :: "int list" where
  "crypt64rtab = init_rtab crypt64tab"

section \<open>Decoding\<close>

fun decode_crypt64_loop :: "byte list \<Rightarrow> int \<Rightarrow> nat \<Rightarrow> byte list \<Rightarrow> byte list result" where
  "decode_crypt64_loop [] bitbuf bits s = Inr s"
| "decode_crypt64_loop (b # src) bitbuf bits s =
     (if uint b < 32 then decode_crypt64_loop src bitbuf bits s
      else case tab_at crypt64rtab (uint b - 32) of
        None \<Rightarrow> Inl Bad_Memory_Access
      | Some c \<Rightarrow>
          if c < 0 then decode_crypt64_loop src bitbuf bits s
          else (let bitbuf = bitbuf OR push_bit bits c; bits = bits + 6
                in if bits \<ge> 8
                   then decode_crypt64_loop src (drop_bit 8 bitbuf) (bits - 8)
                          (s @ [word_of_int (bitbuf AND 0xff)])
                   else decode_crypt64_loop src bitbuf bits s))"

definition f_decode_crypt64 :: "arg list \<Rightarrow> arg result" where
  "f_decode_crypt64 args =
     (case args of
        [AStr (Str0 s)] \<Rightarrow>
          (case decode_crypt64_loop s 0 0 [] of Inl e \<Rightarrow> Inl e | Inr r \<Rightarrow> Inr (AStr (Str0 r)))
      | [AStr (StrW s)] \<Rightarrow> Inl Char_Out_Of_Range
      | [x] \<Rightarrow> Inl Wrong_Type_Of_Arg
      | _ \<Rightarrow> Inl Wrong_Number_Of_Args)"

section \<open>Encoding\<close>

text \<open>One turn of the loop writes one code; it reads a byte only when fewer than six bits are
  pending. The last turn of the function flushes the pending bits.\<close>

function encode_crypt64_loop :: "byte list \<Rightarrow> int \<Rightarrow> nat \<Rightarrow> byte list \<Rightarrow> byte list" where
  "encode_crypt64_loop src bitbuf bits out =
     (case src of
        [] \<Rightarrow> if bits \<noteq> 0 then out @ [crypt64tab ! nat (bitbuf AND 0x3f)] else out
      | b # src' \<Rightarrow>
          if bits < 6 then
            (let bitbuf = bitbuf OR push_bit bits (uint b); bits = bits + 8
             in encode_crypt64_loop src' (drop_bit 6 bitbuf) (bits - 6)
                  (out @ [crypt64tab ! nat (bitbuf AND 0x3f)]))
          else encode_crypt64_loop src (drop_bit 6 bitbuf) (bits - 6)
                 (out @ [crypt64tab ! nat (bitbuf AND 0x3f)]))"
  by pat_completeness auto
termination
  by (relation "measure (\<lambda>(src, bitbuf, bits, out). 3 * length src + bits)") auto

declare encode_crypt64_loop.simps [simp del]

text \<open>The result string is allocated with \<open>len + (len + 2) / 3\<close> characters.\<close>

definition f_encode_crypt64 :: "arg list \<Rightarrow> arg result" where
  "f_encode_crypt64 args =
     (case args of
        [AStr (Str0 s)] \<Rightarrow>
          (let out = encode_crypt64_loop s 0 0 []
           in if length out \<noteq> length s + (length s + 2) div 3 then Inl Bad_Memory_Access
              else Inr (AStr (Str0 out)))
      | [AStr (StrW s)] \<Rightarrow> Inl Char_Out_Of_Range
      | [x] \<Rightarrow> Inl Wrong_Type_Of_Arg
      | _ \<Rightarrow> Inl Wrong_Number_Of_Args)"

section \<open>The round trip\<close>

lemma crypt64_tables: "tables_agree crypt64tab crypt64rtab"
  by code_simp

interpretation c64: alphabet crypt64tab crypt64rtab 6
  by (rule alphabet_by_tables [OF crypt64_tables]) (simp add: crypt64tab_def)

text \<open>A code character is in the table of the decoder, at its unsigned index.\<close>

definition reads_back :: "byte list \<Rightarrow> int list \<Rightarrow> bool" where
  "reads_back tab rtab \<longleftrightarrow> list_all (\<lambda>i. 32 \<le> uint (tab ! i) \<and>
     tab_at rtab (uint (tab ! i) - 32) = Some (int i)) [0..<64]"

lemma code_table: "reads_back crypt64tab crypt64rtab"
  by code_simp

lemma code_lookup:
  assumes "0 \<le> x \<and> x < 64"
  shows "\<not> uint (crypt64tab ! nat x) < 32"
    "tab_at crypt64rtab (uint (crypt64tab ! nat x) - 32) = Some x"
proof -
  have "nat x \<in> set [0..<64]"
    using assms by auto
  then show "\<not> uint (crypt64tab ! nat x) < 32"
    "tab_at crypt64rtab (uint (crypt64tab ! nat x) - 32) = Some x"
    using code_table [unfolded reads_back_def list_all_iff] assms by (auto simp del: set_upt)
qed

lemma decode_code:
  assumes "0 \<le> x \<and> x < 64" "0 \<le> db \<and> db < 2 ^ n"
  shows "decode_crypt64_loop (crypt64tab ! nat x # src) db n s =
    (if n + 6 \<ge> 8 then decode_crypt64_loop src ((db + x * 2 ^ n) div 256) (n - 2)
       (s @ [word_of_int (db + x * 2 ^ n)])
     else decode_crypt64_loop src (db + x * 2 ^ n) (n + 6) s)"
proof -
  have "db OR push_bit n x = db + x * 2 ^ n"
    using push_or_add [of db n x] assms by (simp add: or.commute add.commute)
  then show ?thesis
    using assms by (simp add: code_lookup Let_def bits_simps)
qed

text \<open>The code written when a byte \<open>c\<close> is read, and the encoder's next state.\<close>

lemma encode_read:
  assumes "0 \<le> eb \<and> eb < 2 ^ n" "n < 6"
  shows "encode_crypt64_loop (c # src) eb n out =
    encode_crypt64_loop src ((eb + uint c * 2 ^ n) div 64) (n + 2)
      (out @ [crypt64tab ! nat ((eb + uint c * 2 ^ n) mod 64)])"
proof -
  have e: "eb OR push_bit n (uint c) = eb + uint c * 2 ^ n"
    using push_or_add [of eb n "uint c"] assms by (simp add: or.commute add.commute)
  show ?thesis
    using assms by (subst encode_crypt64_loop.simps) (simp add: e Let_def bits_simps)
qed

lemma encode_flush:
  "encode_crypt64_loop [] eb n out =
    (if n \<noteq> 0 then out @ [crypt64tab ! nat (eb mod 64)] else out)"
  by (subst encode_crypt64_loop.simps) (simp add: bits_simps)

lemma encode_no_read:
  assumes "\<not> n < 6"
  shows "encode_crypt64_loop (c # src) eb n out =
    encode_crypt64_loop (c # src) (eb div 64) (n - 6) (out @ [crypt64tab ! nat (eb mod 64)])"
  using assms by (subst encode_crypt64_loop.simps) (simp add: bits_simps)

lemma encode_crypt64_loop_app:
  "encode_crypt64_loop src eb n (p @ out) = p @ encode_crypt64_loop src eb n out"
proof (induction src eb n out rule: encode_crypt64_loop.induct)
  case (1 src eb n out)
  show ?case
  proof (cases src)
    case Nil
    then show ?thesis
      by (simp add: encode_flush)
  next
    case (Cons c src')
    show ?thesis
      using 1 Cons encode_crypt64_loop.simps [of src eb n out]
        encode_crypt64_loop.simps [of src eb n "p @ out"]
      by (auto simp: Let_def)
  qed
qed

lemma encode_crypt64_loop_first:
  "encode_crypt64_loop src eb n [x] = x # encode_crypt64_loop src eb n []"
  using encode_crypt64_loop_app [of src eb n "[x]" "[]"] by simp

text \<open>
  Encoder and decoder in step: either nothing is pending, or the encoder holds the \<open>n\<close> high
  bits of a byte whose low bits the decoder has.
\<close>

definition in_step :: "byte list \<Rightarrow> nat \<Rightarrow> bool" where
  "in_step src n \<longleftrightarrow> (\<forall>b s. decode_crypt64_loop
     (encode_crypt64_loop src (uint (b :: byte) div 2 ^ (8 - n)) n [])
     (uint b mod 2 ^ (8 - n)) (8 - n) s = Inr (s @ b # src))"

lemma div_bounds: "0 \<le> uint (b :: byte) div m \<and> uint b div m < 256" if "0 < m"
  using that uint_byte_bounds [of b] by (smt (verit) div_by_1 pos_imp_zdiv_nonneg_iff zdiv_mono2)

lemma flush_step:
  assumes "n \<in> {2, 4, 6}"
  shows "decode_crypt64_loop (crypt64tab ! nat (uint (b :: byte) div 2 ^ (8 - n) mod 64) # src)
     (uint b mod 2 ^ (8 - n)) (8 - n) s = decode_crypt64_loop src 0 (6 - n) (s @ [b])"
proof -
  have q: "uint b div 2 ^ (8 - n) < 2 ^ n"
    using assms by (intro int_div_less) (auto simp: uint_byte_bounds)
  have l: "uint b div 2 ^ (8 - n) mod 64 = uint b div 2 ^ (8 - n)"
    using q assms by (intro mod_pos_pos_trivial) (auto simp: pos_imp_zdiv_nonneg_iff)
  have s: "uint b mod 2 ^ (8 - n) + uint b div 2 ^ (8 - n) * 2 ^ (8 - n) = uint b"
    by (rule mod_div_mult_eq)
  have q64: "0 \<le> uint b div 2 ^ (8 - n) \<and> uint b div 2 ^ (8 - n) < 64"
    using q assms by (auto simp: pos_imp_zdiv_nonneg_iff)
  show ?thesis
    unfolding l using assms
    by (subst decode_code [OF q64]) (auto simp: s)
qed

text \<open>The code that joins the pending bits \<open>q\<close> with a byte \<open>c\<close>.\<close>

lemma join_bits:
  fixes q c :: int
  assumes "n \<in> {0, 2, 4}" "0 \<le> q \<and> q < 2 ^ n"
  shows "(q + c * 2 ^ n) mod 64 = q + c mod 2 ^ (6 - n) * 2 ^ n"
    and "(q + c * 2 ^ n) div 64 = c div 2 ^ (6 - n)"
proof -
  have j: "(q + c * 2 ^ n) mod 64 = q + c mod 2 ^ (6 - n) * 2 ^ n \<and>
    (q + c * 2 ^ n) div 64 = c div 2 ^ (6 - n)"
    if "c = h * 2 ^ (6 - n) + r" "0 \<le> r \<and> r < 2 ^ (6 - n)" for h r
  proof -
    have e: "q + c * 2 ^ n = 64 * h + (q + r * 2 ^ n)"
      using that(1) assms(1) by auto
    have b: "0 \<le> q + r * 2 ^ n \<and> q + r * 2 ^ n < 64"
      using that(2) assms by auto
    have "c mod 2 ^ (6 - n) = r \<and> c div 2 ^ (6 - n) = h"
      using that by auto
    moreover have "(64 * h + x) mod 64 = x \<and> (64 * h + x) div 64 = h" if "0 \<le> x \<and> x < 64" for x :: int
      using that by auto
    ultimately show ?thesis
      unfolding e using b by blast
  qed
  then show "(q + c * 2 ^ n) mod 64 = q + c mod 2 ^ (6 - n) * 2 ^ n"
    and "(q + c * 2 ^ n) div 64 = c div 2 ^ (6 - n)"
    using j [of "c div 2 ^ (6 - n)" "c mod 2 ^ (6 - n)"]
    by (simp_all only: div_mult_mod_eq pos_mod_sign pos_mod_bound zero_less_power zero_less_numeral
        simp_thms if_True)
qed

lemma pending_bits:
  assumes "n \<in> {2, 4, 6}"
  shows "0 \<le> uint (b :: byte) div 2 ^ (8 - n) \<and> uint b div 2 ^ (8 - n) < 2 ^ n"
  using assms by (auto simp: pos_imp_zdiv_nonneg_iff intro!: int_div_less)

lemma join_step:
  assumes "n \<in> {2, 4}"
  shows "decode_crypt64_loop
      (crypt64tab ! nat ((uint (b :: byte) div 2 ^ (8 - n) + uint (c :: byte) * 2 ^ n) mod 64) # src)
      (uint b mod 2 ^ (8 - n)) (8 - n) s
    = decode_crypt64_loop src (uint c mod 2 ^ (6 - n)) (6 - n) (s @ [b])"
proof -
  let ?q = "uint b div 2 ^ (8 - n)" and ?r = "uint c mod 2 ^ (6 - n)"
  have j: "(?q + uint c * 2 ^ n) mod 64 = ?q + ?r * 2 ^ n"
    using assms pending_bits [of n b] by (intro join_bits) auto
  have "uint b mod 2 ^ (8 - n) + ?q * 2 ^ (8 - n) = uint b"
    by (rule mod_div_mult_eq)
  then have t: "uint b mod 2 ^ (8 - n) + (?q + ?r * 2 ^ n) * 2 ^ (8 - n) = uint b + 256 * ?r"
    using assms by (auto simp: algebra_simps)
  have q64: "0 \<le> ?q + ?r * 2 ^ n \<and> ?q + ?r * 2 ^ n < 64"
    unfolding j [symmetric] by simp
  have d: "(uint b + 256 * ?r) div 256 = ?r"
    by (simp add: div_add1_eq)
  show ?thesis
    unfolding j using assms
    by (subst decode_code [OF q64])
      (auto simp: t d byte_add_256 simp del: of_int_add of_int_mult word_of_int_minus)
qed

text \<open>The round trip from every state; a turn that reads nothing empties the buffer.\<close>

lemma round_steps:
  "(\<forall>s. decode_crypt64_loop (encode_crypt64_loop src 0 0 []) 0 0 s = Inr (s @ src)) \<and>
   (\<forall>n \<in> {2, 4, 6}. in_step src n)"
proof (induction src)
  case Nil
  have "in_step [] n" if "n \<in> {2, 4, 6}" for n
    using that flush_step [OF that, of _ "[]"]
    by (auto simp: in_step_def encode_flush)
  then show ?case
    by (simp add: encode_flush)
next
  case (Cons c src)
  have z: "decode_crypt64_loop (encode_crypt64_loop (c # src) 0 0 []) 0 0 s = Inr (s @ c # src)" for s
  proof -
    have "decode_crypt64_loop (encode_crypt64_loop src (uint c div 64) 2 []) (uint c mod 64) 6 s
        = Inr (s @ c # src)"
      using Cons.IH by (auto simp: in_step_def)
    then show ?thesis
      by (simp add: encode_read encode_crypt64_loop_first decode_code
          del: decode_crypt64_loop.simps add_2_eq_Suc add_2_eq_Suc')
  qed
  have j: "in_step (c # src) n" if n: "n \<in> {2, 4}" for n
  proof -
    have "in_step src (n + 2)"
      using Cons.IH n by auto
    moreover have "(uint (b :: byte) div 2 ^ (8 - n) + uint (x :: byte) * 2 ^ n) div 64 =
        uint x div 2 ^ (6 - n)" for b x
      using n pending_bits [of n b] by (intro join_bits) auto
    ultimately show ?thesis
      using n pending_bits [of n] join_step [OF n]
      by (auto simp: in_step_def encode_read encode_crypt64_loop_first
          simp del: decode_crypt64_loop.simps)
  qed
  have "uint b div 4 div 64 = 0" for b :: byte
    using uint_byte_bounds [of b] by (subst zdiv_zmult2_eq [symmetric]) (auto simp: div_pos_pos_trivial)
  then have "in_step (c # src) 6"
    using z flush_step [of 6]
    by (auto simp: in_step_def encode_no_read encode_crypt64_loop_first
        simp del: decode_crypt64_loop.simps)
  then show ?case
    using z j by auto
qed

text \<open>The number of codes: the pending and unread bits, six in each code.\<close>

lemma length_encode_crypt64_loop:
  assumes "n \<in> {0, 2, 4, 6}"
  shows "length (encode_crypt64_loop src eb n out) =
    length out + (8 * length src + n + 5) div 6"
  using assms
proof (induction src eb n out rule: encode_crypt64_loop.induct)
  case (1 src eb n out)
  show ?case
    using 1 by (subst encode_crypt64_loop.simps) (auto simp: Let_def split: list.splits
        simp del: add_2_eq_Suc add_2_eq_Suc')
qed

section \<open>Properties\<close>

text \<open>C31: The \<open>crypt64\<close> encoder fills exactly the string it allocates, and the decoder gives
  the encoded bytes back.\<close>

theorem crypt64_roundtrip:
  "\<exists>out. f_encode_crypt64 [AStr (Str0 s)] = Inr (AStr (Str0 out)) \<and>
    f_decode_crypt64 [AStr (Str0 out)] = Inr (AStr (Str0 s))"
proof -
  have "length (encode_crypt64_loop s 0 0 []) = length s + (length s + 2) div 3"
    by (simp add: length_encode_crypt64_loop)
  then show ?thesis
    using round_steps [of s] by (simp add: f_encode_crypt64_def f_decode_crypt64_def)
qed

lemma length_crypt64rtab: "length crypt64rtab = 96"
  by code_simp

lemma decode_crypt64_inside:
  "(\<forall>c \<in> set s. uint c < 128) \<longrightarrow> (\<exists>r. decode_crypt64_loop s d n buf = Inr r)"
proof (induction s arbitrary: d n buf)
  case (Cons c s)
  show ?case
    using Cons length_crypt64rtab by (auto simp: Let_def tab_at_def)
qed simp

lemma decode_crypt64_outside:
  assumes "c \<in> set s" "uint c \<ge> 128"
  shows "decode_crypt64_loop s d n buf = Inl Bad_Memory_Access"
  using assms(1)
proof (induction s arbitrary: d n buf)
  case (Cons b s)
  show ?case
  proof (cases "b = c")
    case True
    then show ?thesis
      using assms(2) length_crypt64rtab by (auto simp: tab_at_def)
  next
    case False
    then show ?thesis
      using Cons by (auto simp: Let_def tab_at_def)
  qed
qed simp

text \<open>The decoder reads outside its reverse table exactly when the string holds a byte
  above 127: the bytes are read as \<open>unsigned char\<close> and only the lower end of the table is
  checked.\<close>

theorem decode_crypt64_out_of_bounds:
  "f_decode_crypt64 [AStr (Str0 s)] = Inl Bad_Memory_Access \<longleftrightarrow> (\<exists>c \<in> set s. uint c \<ge> 128)"
proof (cases "\<exists>c \<in> set s. uint c \<ge> 128")
  case True
  then show ?thesis
    using decode_crypt64_outside by (auto simp: f_decode_crypt64_def)
next
  case False
  then show ?thesis
    using decode_crypt64_inside [of s 0 0 "[]"]
    by (auto simp: f_decode_crypt64_def not_le)
qed

end
