(* ===== verification/Mime_QP.thy ===== *)
theory Mime_QP
  imports Prelude
begin

text \<open>
  The quoted-printable encoding of \<open>src/src/modules/MIME/mime.c\<close>: \<open>f_decode_qp\<close> and
  \<open>f_encode_qp\<close>, the round trip of the two, and the bound on the length of the lines.
\<close>

section \<open>The table\<close>

definition qptab :: "byte list" where
  "qptab = map of_char ''0123456789ABCDEF''"

text \<open>\<open>qprtab\<close> has an entry for each 7-bit character from \<open>'0'\<close> on.\<close>

definition qprtab :: "int list" where
  "qprtab =
     foldl (\<lambda>r i. r[nat (uint (qptab ! i) - (48 + 65 - 97)) := int i])
       (foldl (\<lambda>r i. r[nat (uint (qptab ! i) - 48) := int i]) (replicate (128 - 48) (- 1)) [0..<16])
       [10..<16]"

text \<open>The value of the hexadecimal digit \<open>c\<close>, read as a signed character; negative when there
  is none.\<close>

definition qp_digit :: "byte \<Rightarrow> int" where
  "qp_digit c = (if sint c \<ge> 48 then qprtab ! nat (sint c - 48) else - 1)"

section \<open>Decoding\<close>

text \<open>What a \<open>'='\<close> before a line break skips: a carriage return, then a line feed.\<close>

definition skip_break :: "byte list \<Rightarrow> byte list" where
  "skip_break src =
     (let src = (if src \<noteq> [] \<and> hd src = 13 then tl src else src)
      in if src \<noteq> [] \<and> hd src = 10 then tl src else src)"

function decode_qp_loop :: "byte list \<Rightarrow> byte list \<Rightarrow> byte list" where
  "decode_qp_loop src buf =
     (case src of
        [] \<Rightarrow> buf
      | c # src \<Rightarrow>
          if c = 61 then
            (if src \<noteq> [] \<and> (hd src = 10 \<or> hd src = 13) then decode_qp_loop (skip_break src) buf
             else if length src \<ge> 2 \<and> qp_digit (src ! 0) \<ge> 0 \<and> qp_digit (src ! 1) \<ge> 0
             then decode_qp_loop (drop 2 src)
                    (buf @ [word_of_int (push_bit 4 (qp_digit (src ! 0)) OR qp_digit (src ! 1))])
             else decode_qp_loop src buf)
          else decode_qp_loop src (buf @ [c]))"
  by pat_completeness auto
termination
  by (relation "measure (\<lambda>(src, buf). length src)") (auto simp: skip_break_def Let_def)

declare decode_qp_loop.simps [simp del]

definition f_decode_qp :: "arg list \<Rightarrow> arg result" where
  "f_decode_qp args =
     (case args of
        [AStr (Str0 s)] \<Rightarrow> Inr (AStr (Str0 (decode_qp_loop s [])))
      | [AStr (StrW s)] \<Rightarrow> Inl Char_Out_Of_Range
      | [x] \<Rightarrow> Inl Wrong_Type_Of_Arg
      | _ \<Rightarrow> Inl Wrong_Number_Of_Args)"

section \<open>Encoding\<close>

text \<open>The characters written for a byte.\<close>

definition qp_char :: "byte \<Rightarrow> byte list" where
  "qp_char c =
     (if (33 \<le> c \<and> c \<le> 60) \<or> (62 \<le> c \<and> c \<le> 126) then [c]
      else [61, qptab ! nat (drop_bit 4 (uint c)), qptab ! nat (uint c AND 15)])"

fun encode_qp_loop :: "byte list \<Rightarrow> nat \<Rightarrow> bool \<Rightarrow> byte list \<Rightarrow> byte list" where
  "encode_qp_loop [] col insert_crlf buf = buf"
| "encode_qp_loop (c # src) col insert_crlf buf =
     (let p = qp_char c;
          buf = buf @ p;
          col = col + (if length p = 1 then 0 else 2) + 1
      in if col \<ge> 73 \<and> insert_crlf then encode_qp_loop src 0 insert_crlf (buf @ [61, 13, 10])
         else encode_qp_loop src col insert_crlf buf)"

definition f_encode_qp :: "arg list \<Rightarrow> arg result" where
  "f_encode_qp args =
     (if length args \<noteq> 1 \<and> length args \<noteq> 2 then Inl Wrong_Number_Of_Args
      else case hd args of
        AStr (Str0 s) \<Rightarrow>
          (let insert_crlf = (\<not> (length args = 2 \<and>
                 (case args ! 1 of AInt v u \<Rightarrow> v \<noteq> 0 | _ \<Rightarrow> False)))
           in Inr (AStr (Str0 (encode_qp_loop s 0 insert_crlf []))))
      | AStr (StrW w) \<Rightarrow> Inl Char_Out_Of_Range
      | _ \<Rightarrow> Inl Wrong_Type_Of_Arg)"

section \<open>The round trip\<close>

definition digit_ok :: "int list \<Rightarrow> byte list \<Rightarrow> bool" where
  "digit_ok rtab tab \<longleftrightarrow> list_all (\<lambda>i. 48 \<le> sint (tab ! i) \<and> sint (tab ! i) < 128 \<and>
     rtab ! nat (sint (tab ! i) - 48) = int i \<and> 33 \<le> tab ! i \<and> tab ! i \<le> 126) [0..<16]"

lemma qp_tables: "digit_ok qprtab qptab"
  by code_simp

lemma qptab_facts:
  assumes "0 \<le> x \<and> x < 16"
  shows "qp_digit (qptab ! nat x) = x" "33 \<le> qptab ! nat x" "qptab ! nat x \<le> 126"
proof -
  have "nat x \<in> set [0..<16]"
    using assms by auto
  then show "qp_digit (qptab ! nat x) = x" "33 \<le> qptab ! nat x" "qptab ! nat x \<le> 126"
    using qp_tables [unfolded digit_ok_def list_all_iff] assms
    by (auto simp: qp_digit_def simp del: set_upt)
qed

lemma not_breaks:
  assumes "33 \<le> (c :: byte)"
  shows "c \<noteq> 10" "c \<noteq> 13"
  using assms by auto

lemma decode_plain: "c \<noteq> 61 \<Longrightarrow> decode_qp_loop (c # src) buf = decode_qp_loop src (buf @ [c])"
  by (subst decode_qp_loop.simps) simp

lemma decode_break: "decode_qp_loop (61 # 13 # 10 # src) buf = decode_qp_loop src buf"
  by (subst decode_qp_loop.simps) (simp add: skip_break_def)

lemma nibbles:
  "push_bit 4 (uint (c :: byte) div 16) OR uint c mod 16 = uint c"
  using push_or_add [of "uint c mod 16" 4 "uint c div 16"] by simp

lemma nibble_bounds:
  "0 \<le> uint (c :: byte) div 16 \<and> uint c div 16 < 16" "0 \<le> uint c mod 16 \<and> uint c mod 16 < 16"
  by (auto simp: pos_imp_zdiv_nonneg_iff intro!: int_div_less)

lemma decode_hex:
  "decode_qp_loop (61 # qptab ! nat (uint c div 16) # qptab ! nat (uint c mod 16) # src) buf
   = decode_qp_loop src (buf @ [c])"
  using qptab_facts [OF nibble_bounds(1) [of c]] qptab_facts [OF nibble_bounds(2) [of c]]
    not_breaks nibble_bounds [of c]
  by (subst decode_qp_loop.simps) (simp add: nibbles)

lemma decode_qp_char: "decode_qp_loop (qp_char c @ src) buf = decode_qp_loop src (buf @ [c])"
  using decode_hex [of 61 src buf]
  by (cases "c = 61") (auto simp: qp_char_def decode_plain decode_hex bits_simps)

lemma encode_qp_loop_app:
  "encode_qp_loop src col crlf (p @ buf) = p @ encode_qp_loop src col crlf buf"
  by (induction src arbitrary: col buf) (auto simp: Let_def)

lemma encode_qp_loop_first:
  "encode_qp_loop src col crlf p = p @ encode_qp_loop src col crlf []"
  using encode_qp_loop_app [of src col crlf p "[]"] by simp

text \<open>One turn of the encoder, without its buffer.\<close>

lemma encode_qp_cons:
  "encode_qp_loop (c # src) col crlf [] =
     (let col' = col + length (qp_char c) in
      qp_char c @ (if col' \<ge> 73 \<and> crlf then [61, 13, 10] @ encode_qp_loop src 0 crlf []
        else encode_qp_loop src col' crlf []))"
proof -
  have e: "col + (if length (qp_char c) = 1 then 0 else 2) + 1 = col + length (qp_char c)"
    by (simp add: qp_char_def)
  show ?thesis
    unfolding encode_qp_loop.simps Let_def e
    using encode_qp_loop_first [of src 0 crlf "qp_char c @ [61, 13, 10]"]
      encode_qp_loop_first [of src "col + length (qp_char c)" crlf "qp_char c"]
    by (cases crlf) (simp_all del: encode_qp_loop.simps)
qed

lemma decode_encode_qp:
  "decode_qp_loop (encode_qp_loop src col crlf []) buf = buf @ src"
proof (induction src arbitrary: col buf)
  case (Cons c src)
  then show ?case
    by (cases crlf)
      (simp_all add: encode_qp_cons Let_def decode_qp_char decode_break del: encode_qp_loop.simps)
next
  case Nil
  then show ?case
    by (simp add: decode_qp_loop.simps)
qed

section \<open>The form of the encoding\<close>

text \<open>Every run of characters between line breaks has at most \<open>m\<close> of them, the first run
  together with \<open>k\<close> characters before it.\<close>

fun lines_fit :: "nat \<Rightarrow> nat \<Rightarrow> byte list \<Rightarrow> bool" where
  "lines_fit m k [] \<longleftrightarrow> True"
| "lines_fit m k (c # cs) \<longleftrightarrow>
     (if c = 13 \<or> c = 10 then lines_fit m 0 cs else k < m \<and> lines_fit m (k + 1) cs)"

lemma qp_char_printable: "x \<in> set (qp_char c) \<Longrightarrow> 33 \<le> x \<and> x \<le> 126"
  using qptab_facts [OF nibble_bounds(1) [of c]] qptab_facts [OF nibble_bounds(2) [of c]]
    order_trans [of c 60 126] order_trans [of 33 62 c]
  by (auto simp: qp_char_def bits_simps split: if_splits)

lemma qp_char_fits:
  assumes "k + length (qp_char c) \<le> m"
  shows "lines_fit m k (qp_char c @ rest) \<longleftrightarrow> lines_fit m (k + length (qp_char c)) rest"
proof -
  have "lines_fit m k (p @ rest) \<longleftrightarrow> lines_fit m (k + length p) rest"
    if "\<forall>x \<in> set p. 33 \<le> x" "k + length p \<le> m" for p k
    using that
  proof (induction p arbitrary: k)
    case (Cons x p)
    then show ?case
      using not_breaks [of x] by (auto simp: add.commute)
  qed simp
  then show ?thesis
    using assms qp_char_printable by blast
qed

lemma encode_qp_lines:
  "col \<le> 72 \<Longrightarrow> lines_fit 76 col (encode_qp_loop src col True [])"
proof (induction src arbitrary: col)
  case (Cons c src)
  have "length (qp_char c) \<le> 3"
    by (simp add: qp_char_def)
  then show ?case
    using Cons by (auto simp: encode_qp_cons Let_def qp_char_fits simp del: encode_qp_loop.simps)
qed simp

lemma encode_qp_chars:
  "x \<in> set (encode_qp_loop src col crlf []) \<Longrightarrow> 33 \<le> x \<and> x \<le> 126 \<or> crlf \<and> x \<in> {13, 10}"
proof (induction src arbitrary: col)
  case (Cons c src)
  show ?case
    using Cons qp_char_printable [of x c]
    by (auto simp: encode_qp_cons Let_def simp del: encode_qp_loop.simps split: if_splits)
qed simp

section \<open>Properties\<close>

text \<open>C30: Decoding what \<open>encode_qp\<close> returns gives the encoded string back, with and without
  line breaks.\<close>

theorem qp_roundtrip:
  assumes "length opts \<le> 1"
  shows "\<exists>out. f_encode_qp (AStr (Str0 s) # opts) = Inr (AStr (Str0 out)) \<and>
    f_decode_qp [AStr (Str0 out)] = Inr (AStr (Str0 s))"
  using assms by (simp add: f_encode_qp_def f_decode_qp_def decode_encode_qp le_Suc_eq Let_def)

theorem qp_roundtrip_witness:
  "\<exists>out. f_encode_qp [AStr (Str0 [61, 32, 200, 65])] = Inr (AStr (Str0 out)) \<and>
    f_decode_qp [AStr (Str0 out)] = Inr (AStr (Str0 [61, 32, 200, 65]))"
  using qp_roundtrip [of "[]" "[61, 32, 200, 65]"] by simp

text \<open>With the default arguments no line of the encoding has more than 76 characters, and
  apart from the line breaks it holds only printable 7-bit characters.\<close>

theorem qp_lines:
  assumes "f_encode_qp [AStr (Str0 s)] = Inr (AStr (Str0 out))"
  shows "lines_fit 76 0 out \<and> set out \<subseteq> {33..126} \<union> {13, 10}"
  using assms encode_qp_lines [of 0 s] encode_qp_chars [of _ s 0 True]
  by (fastforce simp: f_encode_qp_def Let_def)

theorem qp_lines_witness: "lines_fit 76 0 (encode_qp_loop (replicate 40 0) 0 True [])"
  using qp_lines [of "replicate 40 0" "encode_qp_loop (replicate 40 0) 0 True []"]
  by (simp add: f_encode_qp_def del: encode_qp_loop.simps)

end
