(* ===== verification/Mime_UUE.thy ===== *)
theory Mime_UUE
  imports Prelude
begin

text \<open>
  The uuencoding of \<open>src/src/modules/MIME/mime.c\<close>: \<open>f_decode_uue\<close>, \<open>do_uue_encode\<close> and
  \<open>f_encode_uue\<close>. The decoder returns 0 when it finds no complete \<open>begin\<close> line; the encoder
  fills a string whose size it computes beforehand.
\<close>

section \<open>Decoding\<close>

text \<open>The search for \<open>begin\<close>: what follows its first character, or \<open>None\<close> when the
  counter goes below 0.\<close>

fun find_begin :: "byte list \<Rightarrow> byte list option" where
  "find_begin [] = None"
| "find_begin (c # src) =
     (if c = 98 \<and> length src > 5 \<and> take 5 src = map of_char ''egin '' then Some src
      else find_begin src)"

fun skip_eol :: "byte list \<Rightarrow> byte list option" where
  "skip_eol [] = None"
| "skip_eol (c # src) = (if c = 10 then Some src else skip_eol src)"

definition uue_value :: "byte \<Rightarrow> int" where
  "uue_value c = (uint c - 32) AND 63"

text \<open>The 24 bits of four characters, and the three bytes written for them.\<close>

definition uue_join :: "byte \<Rightarrow> byte \<Rightarrow> byte \<Rightarrow> byte \<Rightarrow> int" where
  "uue_join c0 c1 c2 c3 =
     (let d = push_bit 18 (uue_value c0);
          d = d OR push_bit 12 (uue_value c1);
          d = d OR push_bit 6 (uue_value c2)
      in d OR uue_value c3)"

definition uue_bytes :: "int \<Rightarrow> byte list" where
  "uue_bytes d = [word_of_int (drop_bit 16 d AND 0xff), word_of_int (drop_bit 8 d AND 0xff),
     word_of_int (d AND 0xff)]"

text \<open>Reading \<open>g\<close> groups; the caller has checked that the characters are there.\<close>

fun decode_uue_groups :: "nat \<Rightarrow> byte list \<Rightarrow> byte list \<Rightarrow> (byte list \<times> byte list) option" where
  "decode_uue_groups 0 src buf = Some (src, buf)"
| "decode_uue_groups (Suc g) src buf =
     (case src of
        c0 # c1 # c2 # c3 # src \<Rightarrow>
          decode_uue_groups g src (buf @ uue_bytes (uue_join c0 c1 c2 c3))
      | _ \<Rightarrow> None)"

text \<open>The main loop, one line in each turn; running out of input ends it.\<close>

lemma decode_uue_groups_length:
  "decode_uue_groups g src buf = Some (src', buf') \<Longrightarrow> length src' \<le> length src"
  by (induction g src buf rule: decode_uue_groups.induct) (fastforce split: list.splits)+

lemma skip_eol_length: "skip_eol src = Some src' \<Longrightarrow> length src' < length src"
  by (induction src) (auto split: if_splits)

function decode_uue_lines :: "byte list \<Rightarrow> byte list \<Rightarrow> byte list result" where
  "decode_uue_lines src buf =
     (case src of
        [] \<Rightarrow> Inr buf
      | c # src \<Rightarrow>
          if c = 101 then Inr buf
          else let l = nat (uue_value c); g = (l + 2) div 3 in
            if length src < g * 4 then Inr buf
            else case decode_uue_groups g src buf of
              None \<Rightarrow> Inl Bad_Memory_Access
            | Some (src, buf) \<Rightarrow>
                (let buf = take (length buf - (g * 3 - l)) buf
                 in case skip_eol src of None \<Rightarrow> Inr buf | Some src \<Rightarrow> decode_uue_lines src buf))"
  by pat_completeness auto
termination
  by (relation "measure (\<lambda>(src, buf). length src)")
    (auto dest!: decode_uue_groups_length skip_eol_length)

declare decode_uue_lines.simps [simp del]

definition f_decode_uue :: "arg list \<Rightarrow> arg result" where
  "f_decode_uue args =
     (case args of
        [AStr (Str0 s)] \<Rightarrow>
          (case Option.bind (find_begin s) skip_eol of
             None \<Rightarrow> Inr (AInt 0 False)
           | Some src \<Rightarrow>
               (case decode_uue_lines src [] of Inl e \<Rightarrow> Inl e | Inr r \<Rightarrow> Inr (AStr (Str0 r))))
      | [AStr (StrW s)] \<Rightarrow> Inl Char_Out_Of_Range
      | [x] \<Rightarrow> Inl Wrong_Type_Of_Arg
      | _ \<Rightarrow> Inl Wrong_Number_Of_Args)"

section \<open>Encoding\<close>

text \<open>A 6-bit value as a character: a space becomes a backquote.\<close>

definition uue_code :: "int \<Rightarrow> byte" where
  "uue_code v = (if word_of_int (32 + v) = (32 :: byte) then 96 else word_of_int (32 + v))"

definition uue_read :: "byte \<Rightarrow> byte \<Rightarrow> byte \<Rightarrow> int" where
  "uue_read b0 b1 b2 =
     (let d = push_bit 8 (uint b0);
          d = push_bit 8 (uint b1 OR d)
      in d OR uint b2)"

definition uue_codes :: "int \<Rightarrow> byte list" where
  "uue_codes d = [uue_code (drop_bit 18 d), uue_code (drop_bit 12 d AND 63),
     uue_code (drop_bit 6 d AND 63), uue_code (d AND 63)]"

fun uue_write_groups :: "nat \<Rightarrow> byte list \<Rightarrow> byte list \<Rightarrow> (byte list \<times> byte list) option" where
  "uue_write_groups 0 src dest = Some (src, dest)"
| "uue_write_groups (Suc g) src dest =
     (case src of
        b0 # b1 # b2 # src \<Rightarrow> uue_write_groups g src (dest @ uue_codes (uue_read b0 b1 b2))
      | _ \<Rightarrow> None)"

text \<open>\<open>do_uue_encode\<close>: one line in each turn; the length byte of a line that is not filled
  counts the \<open>last\<close> bytes the caller will add.\<close>

function do_uue_encode ::
  "nat \<Rightarrow> byte list \<Rightarrow> byte list \<Rightarrow> nat \<Rightarrow> (byte list \<times> byte list) option" where
  "do_uue_encode groups src dest lst =
     (if groups = 0 \<and> lst = 0 then Some (src, dest)
      else let g = (if groups \<ge> 15 then 15 else groups);
               n = (if g < 15 then 3 * g + lst else 3 * g);
               lst = (if g < 15 then 0 else lst)
           in case uue_write_groups g src (dest @ [word_of_nat (32 + n)]) of
                None \<Rightarrow> None
              | Some (src, dest) \<Rightarrow>
                  do_uue_encode (groups - g) src
                    (if groups - g \<noteq> 0 \<or> lst \<noteq> 0 then dest @ [13, 10] else dest) lst)"
  by pat_completeness auto
termination
  by (relation "measure (\<lambda>(groups, src, dest, lst). groups + lst)") auto

declare do_uue_encode.simps [simp del]

text \<open>
  The encoded data lines. The second call of \<open>do_uue_encode\<close> writes a length byte over the last
  character written, which is put back afterwards.
\<close>

definition uue_body :: "byte list \<Rightarrow> byte list \<Rightarrow> byte list result" where
  "uue_body str dest =
     (let groups = (length str + 2) div 3;
          last = (length str - 1) mod 3 + 1
      in if groups = 0 then Inr dest else
      case do_uue_encode (groups - 1) str dest last of
        None \<Rightarrow> Inl Bad_Memory_Access
      | Some (src, dest) \<Rightarrow>
          if length src < last then Inl Bad_Memory_Access else
          (let tmp = take last src @ replicate (3 - last) 0;
               kp = length dest - 1;
               k = dest ! kp
           in case do_uue_encode 1 tmp (take kp dest) 0 of
                None \<Rightarrow> Inl Bad_Memory_Access
              | Some (_, dest) \<Rightarrow>
                  (let dest = dest[kp := k];
                       dest = (if last = 1 then dest[length dest - 2 := 96] else dest);
                       dest = (if last = 1 \<or> last = 2 then dest[length dest - 1 := 96] else dest)
                   in Inr (dest @ [13, 10]))))"

text \<open>The \<open>filename\<close> argument is read as a C string, up to its first null byte.\<close>

definition uue_filename :: "arg list \<Rightarrow> byte list" where
  "uue_filename args =
     (case args of
        [_, AStr (Str0 f)] \<Rightarrow> takeWhile (\<lambda>c. c \<noteq> 0) f
      | _ \<Rightarrow> map of_char ''attachment'')"

definition f_encode_uue :: "arg list \<Rightarrow> arg result" where
  "f_encode_uue args =
     (if length args \<noteq> 1 \<and> length args \<noteq> 2 then Inl Wrong_Number_Of_Args
      else if \<not> (case hd args of AStr _ \<Rightarrow> True | _ \<Rightarrow> False)
        \<or> length args = 2 \<and> \<not> (case args ! 1 of AStr _ \<Rightarrow> True | AInt _ _ \<Rightarrow> True | _ \<Rightarrow> False)
      then Inl Wrong_Type_Of_Arg
      else case hd args of
        AStr (Str0 str) \<Rightarrow>
          if length args = 2 \<and> (case args ! 1 of AStr (StrW _) \<Rightarrow> True | _ \<Rightarrow> False)
          then Inl Char_Out_Of_Range
          else (let filename = uue_filename args;
                    groups = (length str + 2) div 3;
                    len = groups * 4 + ((groups + 14) div 15) * 3 + length filename + 20
                in case uue_body str (map of_char ''begin 644 '' @ filename @ [13, 10]) of
                     Inl e \<Rightarrow> Inl e
                   | Inr dest \<Rightarrow>
                       (let dest = dest @ [96, 13, 10, 101, 110, 100, 13, 10]
                        in if length dest \<noteq> len then Inl Bad_Memory_Access
                           else Inr (AStr (Str0 dest))))
      | _ \<Rightarrow> Inl Char_Out_Of_Range)"

section \<open>One group\<close>

definition values_ok :: "bool" where
  "values_ok \<longleftrightarrow> list_all (\<lambda>i. uue_value (uue_code (int i)) = int i) [0..<64]"

lemma values_ok: values_ok
  by code_simp

lemma uue_value_code:
  assumes "0 \<le> v \<and> v < 64"
  shows "uue_value (uue_code v) = v"
proof -
  have "nat v \<in> set [0..<64]"
    using assms by auto
  then show ?thesis
    using values_ok [unfolded values_ok_def list_all_iff] assms by (auto simp del: set_upt)
qed

lemma uue_read_value: "uue_read a b c = (uint a * 256 + uint b) * 256 + uint c"
proof -
  have a: "uint b OR push_bit 8 (uint a) = uint a * 256 + uint b"
    using push_or_add [of "uint b" 8 "uint a"] by (simp add: or.commute)
  show ?thesis
    unfolding uue_read_def Let_def a using push_or_add [of "uint c" 8 "uint a * 256 + uint b"]
    by simp
qed

lemma push_or_nested:
  assumes "0 \<le> v \<and> v < (64 :: int)"
  shows "push_bit (n + 6) u OR push_bit n v = push_bit n (u * 64 + v)"
proof -
  have "push_bit (n + 6) u OR push_bit n v = push_bit n (push_bit 6 u OR v)"
    by (rule bit_eqI) (auto simp: bit_simps)
  then show ?thesis
    using push_or_add [of v 6 u] assms by simp
qed

lemma uue_join_codes:
  assumes "0 \<le> d \<and> d < 16777216"
  shows "uue_join (uue_code (drop_bit 18 d)) (uue_code (drop_bit 12 d AND 63))
    (uue_code (drop_bit 6 d AND 63)) (uue_code (d AND 63)) = d"
proof -
  define u where "u = d div 64"
  define t where "t = u div 64"
  have q: "d div 4096 = t" "d div 262144 = t div 64"
    unfolding t_def u_def by (simp_all flip: zdiv_zmult2_eq)
  have t: "0 \<le> t div 64 \<and> t div 64 < 64"
    unfolding q(2) [symmetric] using assms by (auto simp: pos_imp_zdiv_nonneg_iff intro: int_div_less)
  have "push_bit 18 (t div 64) OR push_bit 12 (t mod 64) = push_bit 12 t"
    using push_or_nested [of "t mod 64" 12 "t div 64"] by simp
  moreover have "push_bit 12 t OR push_bit 6 (u mod 64) = push_bit 6 u"
    using push_or_nested [of "u mod 64" 6 t] by (simp add: t_def)
  moreover have "push_bit 6 u OR d mod 64 = d"
    using push_or_add [of "d mod 64" 6 u] by (simp add: u_def)
  ultimately show ?thesis
    using t by (simp add: uue_join_def Let_def uue_value_code bits_simps q u_def)
qed

lemma uue_bytes_read: "uue_bytes (uue_read a b c) = [a, b, c]"
proof -
  define x where "x = uint a * 256 + uint b"
  have w: "word_of_int (y * 256 + uint z) = z" for y and z :: byte
    using byte_add_256 [of "uint z" y] by (simp only: mult.commute add.commute word_of_uint_byte)
  have "(x * 256 + uint c) div (256 * 256) = (x * 256 + uint c) div 256 div 256"
    by (rule zdiv_zmult2_eq) simp
  then have "(x * 256 + uint c) div (256 * 256) = uint a"
    by (simp only: div_add_byte) (simp only: x_def div_add_byte)
  then have "(x * 256 + uint c) div 65536 = uint a"
    by simp
  then show ?thesis
    using w [of x c] w [of "uint a" b]
    by (simp add: uue_bytes_def uue_read_value bits_simps div_add_byte flip: x_def
        del: of_int_add of_int_mult)
qed

lemma uue_read_bounds: "0 \<le> uue_read a b c \<and> uue_read a b c < 16777216"
  using uint_byte_bounds [of a] uint_byte_bounds [of b] uint_byte_bounds [of c]
  by (simp add: uue_read_value del: uint_byte_bounds; linarith)

lemma length_uue_codes [simp]: "length (uue_codes d) = 4"
  by (simp add: uue_codes_def)

declare decode_uue_groups.simps(2) [simp del]

lemma decode_uue_codes [simp]:
  "decode_uue_groups (Suc g) (uue_codes (uue_read a b c) @ src) buf =
   decode_uue_groups g src (buf @ [a, b, c])"
  by (simp add: decode_uue_groups.simps(2) uue_codes_def uue_join_codes [OF uue_read_bounds]
      uue_bytes_read)

section \<open>Runs of groups\<close>

lemma take_three: "length src \<ge> 3 * Suc n \<Longrightarrow> \<exists>a b c r. src = a # b # c # r \<and> length r \<ge> 3 * n"
  by (auto simp: numeral_3_eq_3 Suc_le_length_iff)

text \<open>Writing groups never fails while there are bytes, and reading them back restores the bytes.\<close>

lemma write_groups:
  assumes "length src \<ge> 3 * g"
  shows "\<exists>e. uue_write_groups g src dest = Some (drop (3 * g) src, dest @ e) \<and> length e = 4 * g \<and>
    (\<forall>h rest buf. decode_uue_groups (g + h) (e @ rest) buf =
       decode_uue_groups h rest (buf @ take (3 * g) src))"
  using assms
proof (induction g arbitrary: src dest)
  case (Suc g)
  obtain a b c r where r: "src = a # b # c # r" "length r \<ge> 3 * g"
    using take_three [OF Suc.prems] by blast
  have three: "3 * Suc g = Suc (Suc (Suc (3 * g)))"
    by simp
  let ?c = "uue_codes (uue_read a b c)"
  obtain e where "uue_write_groups g r (dest @ ?c) = Some (drop (3 * g) r, dest @ ?c @ e)"
    "length e = 4 * g" "\<forall>h rest buf. decode_uue_groups (g + h) (e @ rest) buf =
       decode_uue_groups h rest (buf @ take (3 * g) r)"
    using Suc.IH [OF r(2), of "dest @ ?c"] by auto
  then show ?case
    unfolding r(1) three
    by (intro exI [of _ "?c @ e"]) simp
qed simp

section \<open>One line\<close>

text \<open>A complete line is read back, whatever follows its line break.\<close>

lemma length_byte:
  assumes "n \<le> 45"
  shows "nat (uue_value (word_of_nat (32 + n))) = n" "(word_of_nat (32 + n) :: byte) \<noteq> 101"
proof -
  have "unat (word_of_nat (32 + n) :: byte) = 32 + n"
    using assms by (simp add: unat_of_nat del: of_nat_add of_nat_numeral)
  then have "uint (word_of_nat (32 + n) :: byte) = 32 + int n"
    by (metis of_nat_add of_nat_numeral uint_nat)
  then show "nat (uue_value (word_of_nat (32 + n))) = n" "(word_of_nat (32 + n) :: byte) \<noteq> 101"
    using assms by (auto simp: uue_value_def bits_simps)
qed

lemma decode_line:
  assumes "n \<le> 45" "length e = 4 * ((n + 2) div 3)"
    "decode_uue_groups ((n + 2) div 3) (e @ 13 # 10 # rest) buf = Some (13 # 10 # rest, buf @ t)"
    "length t = 3 * ((n + 2) div 3)"
  shows "decode_uue_lines (word_of_nat (32 + n) # e @ 13 # 10 # rest) buf =
    decode_uue_lines rest (buf @ take n t)"
proof -
  define k where "k = (n + 2) div 3"
  have "n \<le> 3 * k"
    unfolding k_def by simp
  then have "length (buf @ t) - (k * 3 - n) = length buf + n"
    using assms(4) unfolding k_def [symmetric] by simp
  then show ?thesis
    using assms(2,3) length_byte [OF assms(1)] unfolding k_def [symmetric]
    by (subst decode_uue_lines.simps)
      (simp add: Let_def del: of_nat_add of_nat_numeral flip: k_def add_2_eq_Suc')
qed

section \<open>The encoded lines\<close>

lemma do_uue_encode_short:
  assumes "groups < 15" "\<not> (groups = 0 \<and> lst = 0)"
    "uue_write_groups groups src (dest @ [word_of_nat (32 + (3 * groups + lst))]) = Some (r, out)"
  shows "do_uue_encode groups src dest lst = Some (r, out)"
proof -
  have "do_uue_encode 0 r out 0 = Some (r, out)"
    by (subst do_uue_encode.simps) simp
  then show ?thesis
    using assms by (subst do_uue_encode.simps) (auto simp: Let_def simp del: of_nat_add of_nat_numeral)
qed

lemma do_uue_encode_long:
  assumes "groups \<ge> 15" "lst \<noteq> 0"
    "uue_write_groups 15 src (dest @ [word_of_nat (32 + 45)]) = Some (r, out)"
  shows "do_uue_encode groups src dest lst = do_uue_encode (groups - 15) r (out @ [13, 10]) lst"
  using assms by (subst do_uue_encode.simps) (simp add: Let_def del: of_nat_add of_nat_numeral)

text \<open>
  The characters \<open>E\<close> the encoder writes before the last group leave a line open; they are read
  back together with any four characters \<open>q\<close> that decode to three bytes \<open>t\<close>.
\<close>

definition completes :: "byte list \<Rightarrow> byte list \<Rightarrow> bool" where
  "completes q t \<longleftrightarrow> length q = 4 \<and> length t = 3 \<and>
     (\<forall>r buf. decode_uue_groups 1 (q @ r) buf = Some (r, buf @ t))"

definition reads_back :: "byte list \<Rightarrow> byte list \<Rightarrow> nat \<Rightarrow> bool" where
  "reads_back E s lst \<longleftrightarrow> (\<forall>q t buf rest. completes q t \<longrightarrow>
     decode_uue_lines (E @ q @ 13 # 10 # rest) buf = decode_uue_lines rest (buf @ s @ take lst t))"

lemma reads_back_short:
  assumes "groups < 15" "1 \<le> lst" "lst \<le> 3" "length s = 3 * groups" "length e = 4 * groups"
    "\<forall>h rest buf. decode_uue_groups (groups + h) (e @ rest) buf = decode_uue_groups h rest (buf @ s)"
  shows "reads_back (word_of_nat (32 + (3 * groups + lst)) # e) s lst"
  unfolding reads_back_def
proof (intro allI impI)
  fix q t buf rest
  assume q: "completes q t"
  have n: "(3 * groups + lst + 2) div 3 = groups + 1"
    using assms(2,3) by simp
  have "decode_uue_groups (groups + 1) ((e @ q) @ 13 # 10 # rest) buf =
      Some (13 # 10 # rest, buf @ s @ t)"
    using assms(6) [rule_format, of 1] q by (simp add: completes_def)
  then have "decode_uue_lines (word_of_nat (32 + (3 * groups + lst)) # (e @ q) @ 13 # 10 # rest) buf
      = decode_uue_lines rest (buf @ take (3 * groups + lst) (s @ t))"
    using assms q by (intro decode_line) (simp_all only: n, simp_all add: completes_def)
  then show "decode_uue_lines ((word_of_nat (32 + (3 * groups + lst)) # e) @ q @ 13 # 10 # rest) buf
      = decode_uue_lines rest (buf @ s @ take lst t)"
    using assms(4) by (simp del: of_nat_add of_nat_numeral)
qed

lemma reads_back_long:
  assumes "length s = 45" "length e = 60"
    "\<forall>h rest buf. decode_uue_groups (15 + h) (e @ rest) buf = decode_uue_groups h rest (buf @ s)"
    "reads_back E s' lst"
  shows "reads_back (word_of_nat (32 + 45) # e @ 13 # 10 # E) (s @ s') lst"
  unfolding reads_back_def
proof (intro allI impI)
  fix q t buf rest
  assume q: "completes q t"
  have "decode_uue_groups 15 (e @ r) buf = Some (r, buf @ s)" for r
    using assms(3) [rule_format, of 0 r buf] by simp
  then have "decode_uue_lines (word_of_nat (32 + 45) # e @ 13 # 10 # E @ q @ 13 # 10 # rest) buf
      = decode_uue_lines (E @ q @ 13 # 10 # rest) (buf @ take 45 s)"
    using assms(1,2) by (intro decode_line) auto
  then show "decode_uue_lines ((word_of_nat (32 + 45) # e @ 13 # 10 # E) @ q @ 13 # 10 # rest) buf
      = decode_uue_lines rest (buf @ (s @ s') @ take lst t)"
    using assms(1,4) q by (simp add: reads_back_def)
qed

lemma encode_lines:
  assumes "1 \<le> lst" "lst \<le> 3" "length src \<ge> 3 * groups"
  shows "\<exists>E. do_uue_encode groups src dest lst = Some (drop (3 * groups) src, dest @ E) \<and> E \<noteq> [] \<and>
    length E = 1 + 4 * groups + 3 * (groups div 15) \<and> reads_back E (take (3 * groups) src) lst"
  using assms(3)
proof (induction groups arbitrary: src dest rule: less_induct)
  case (less groups)
  show ?case
  proof (cases "groups < 15")
    case True
    obtain e where e: "uue_write_groups groups src (dest @ [word_of_nat (32 + (3 * groups + lst))]) =
        Some (drop (3 * groups) src, (dest @ [word_of_nat (32 + (3 * groups + lst))]) @ e)"
      "length e = 4 * groups" "\<forall>h rest buf. decode_uue_groups (groups + h) (e @ rest) buf =
         decode_uue_groups h rest (buf @ take (3 * groups) src)"
      using write_groups [OF less.prems] by blast
    show ?thesis
      using do_uue_encode_short [OF True _ e(1)] assms e(2) less.prems
        reads_back_short [OF True assms(1,2) _ e(2,3)]
      by (intro exI [of _ "word_of_nat (32 + (3 * groups + lst)) # e"])
        (simp add: True del: of_nat_add of_nat_numeral)
  next
    case False
    obtain e where e: "uue_write_groups 15 src (dest @ [word_of_nat (32 + 45)]) =
        Some (drop 45 src, (dest @ [word_of_nat (32 + 45)]) @ e)"
      "length e = 60" "\<forall>h rest buf. decode_uue_groups (15 + h) (e @ rest) buf =
         decode_uue_groups h rest (buf @ take 45 src)"
      using write_groups [of 15 src "dest @ [word_of_nat (32 + 45)]"] less.prems False
      by (simp del: of_nat_add of_nat_numeral append_assoc) blast
    let ?d = "dest @ word_of_nat (32 + 45) # e @ [13, 10]"
    obtain E where E: "do_uue_encode (groups - 15) (drop 45 src) ?d lst =
        Some (drop (3 * (groups - 15)) (drop 45 src), ?d @ E)"
      "length E = 1 + 4 * (groups - 15) + 3 * ((groups - 15) div 15)"
      "reads_back E (take (3 * (groups - 15)) (drop 45 src)) lst"
    proof -
      have "groups - 15 < groups" "3 * (groups - 15) \<le> length (drop 45 src)"
        using less.prems False by auto
      then show thesis
        using less.IH [of "groups - 15" "drop 45 src" ?d] that by blast
    qed
    have m: "3 * groups = 3 * (groups - 15) + 45" "groups div 15 = Suc ((groups - 15) div 15)"
      using False by (simp_all add: le_div_geq)
    have "reads_back (word_of_nat (32 + 45) # e @ 13 # 10 # E)
        (take 45 src @ take (3 * (groups - 15)) (drop 45 src)) lst"
      using less.prems False e(2,3) E(3) by (intro reads_back_long) auto
    moreover have "take 45 src @ take (3 * (groups - 15)) (drop 45 src) = take (3 * groups) src"
      unfolding m(1) by (simp add: take_add add.commute [of _ 45])
    moreover have "do_uue_encode groups src dest lst =
        Some (drop (3 * groups) src, dest @ word_of_nat (32 + 45) # e @ 13 # 10 # E)"
      using do_uue_encode_long [OF _ _ e(1)] E(1) False assms(1) unfolding m(1)
      by (simp add: add.commute)
    moreover have "length (word_of_nat (32 + 45) # e @ 13 # 10 # E) =
        1 + 4 * groups + 3 * (groups div 15)"
      using E(2) e(2) m(2) False by simp
    ultimately show ?thesis
      by (metis list.distinct(1))
  qed
qed

section \<open>The last group\<close>

lemma restore_last:
  "D \<noteq> [] \<Longrightarrow> (take (length D - 1) D @ x # c)[length D - 1 := D ! (length D - 1)] = D @ c"
  by (cases D rule: rev_cases) (auto simp: list_update_append nth_append)

lemma encode_one:
  "do_uue_encode 1 [a, b, c] dest 0 = Some ([], dest @ word_of_nat (32 + 3) # uue_codes (uue_read a b c))"
  using do_uue_encode_short [of 1 0 "[a, b, c]" dest "[]"] by simp

lemma three_elems: "length xs = 3 \<Longrightarrow> \<exists>a b c. xs = [a, b, c]"
  by (auto simp: numeral_3_eq_3 length_Suc_conv)

text \<open>The codes of the bytes missing in the last group are backquotes already.\<close>

lemma null_codes:
  "uue_codes (uue_read a 0 0) ! 2 = 96" "uue_codes (uue_read a b 0) ! 3 = 96"
proof -
  have "uint a * 1024 = uint a * 16 * 64" "uint a * 65536 + uint b * 256 = (uint a * 1024 + uint b * 4) * 64"
    by simp_all
  then have "uint a * 1024 mod 64 = 0" "(uint a * 65536 + uint b * 256) mod 64 = 0"
    by (simp_all only: mod_mult_self2_is_0)
  then show "uue_codes (uue_read a 0 0) ! 2 = 96" "uue_codes (uue_read a b 0) ! 3 = 96"
    by (simp_all add: uue_codes_def uue_read_value bits_simps uue_code_def)
qed

lemma completes_codes: "completes (uue_codes (uue_read a b c)) [a, b, c]"
  by (simp add: completes_def)

text \<open>The body of the encoding of a non-empty string is read back, and its length is the one the
  size of the allocated string accounts for.\<close>

lemma uue_body_ok:
  assumes "str \<noteq> []"
  defines "groups \<equiv> (length str + 2) div 3"
  shows "\<exists>B. uue_body str dest = Inr (dest @ B) \<and>
    length B = groups * 4 + (groups + 14) div 15 * 3 \<and>
    (\<forall>rest buf. decode_uue_lines (B @ rest) buf = decode_uue_lines rest (buf @ str))"
proof -
  define lst where "lst = (length str - 1) mod 3 + 1"
  define m where "m = groups - 1"
  obtain k where k: "length str = Suc k"
    using assms(1) by (cases str) auto
  have g: "groups = Suc m" "length str = 3 * m + lst" "1 \<le> lst" "lst \<le> 3"
  proof -
    have "groups = Suc (k div 3)" "lst = k mod 3 + 1"
      using k div_add_self1 [of 3 k] unfolding groups_def lst_def by (simp_all add: add.commute)
    then show "groups = Suc m" "length str = 3 * m + lst" "1 \<le> lst" "lst \<le> 3"
      using k div_mult_mod_eq [of k 3] mod_less_divisor [of 3 k] unfolding m_def by auto
  qed
  obtain E where E: "do_uue_encode m str dest lst = Some (drop (3 * m) str, dest @ E)" "E \<noteq> []"
    "length E = 1 + 4 * m + 3 * (m div 15)" "reads_back E (take (3 * m) str) lst"
    using encode_lines [OF g(3,4), of m str dest] g(2) by auto
  define L where "L = drop (3 * m) str"
  have L: "length L = lst" "str = take (3 * m) str @ L"
    using g(2) by (simp_all add: L_def)
  obtain a b c where abc: "take lst L @ replicate (3 - lst) 0 = [a, b, c]" "take lst [a, b, c] = L"
    "lst = 1 \<Longrightarrow> b = 0 \<and> c = 0" "lst = 2 \<Longrightarrow> c = 0"
  proof -
    have "length (L @ replicate (3 - lst) 0) = 3"
      using L(1) g(4) by simp
    then obtain a b c where x: "L @ replicate (3 - lst) 0 = [a, b, c]"
      using three_elems by blast
    moreover have "take lst [a, b, c] = L" "drop lst [a, b, c] = replicate (3 - lst) 0"
      using L(1) by (simp_all flip: x)
    moreover have "lst = 1 \<or> lst = 2 \<or> lst = 3"
      using g(3,4) by arith
    ultimately show thesis
      using L(1) by (intro that [of a b c]) (auto simp: numeral_2_eq_2)
  qed
  define q where "q = uue_codes (uue_read a b c)"
  have pads: "lst = 1 \<Longrightarrow> q ! 2 = 96 \<and> q ! 3 = 96" "lst = 2 \<Longrightarrow> q ! 3 = 96" "length q = 4"
    using abc(3,4) null_codes unfolding q_def by auto
  define D where "D = dest @ E"
  have D: "D \<noteq> []"
    using E(2) by (simp add: D_def)
  have p: "(let d = (if lst = 1 then (D @ q)[length (D @ q) - 2 := 96] else D @ q)
      in if lst = 1 \<or> lst = 2 then d[length d - 1 := 96] else d) = D @ q"
    using pads by (auto simp: Let_def list_update_append) (metis list_update_id)+
  have "uue_body str dest = Inr ((D @ q) @ [13, 10])"
    unfolding uue_body_def Let_def groups_def [symmetric] lst_def [symmetric] m_def [symmetric] E(1)
      L_def [symmetric] option.case prod.case D_def [symmetric] abc(1) encode_one q_def [symmetric]
      restore_last [OF D] p [unfolded Let_def]
    using g(1) L(1) by simp
  moreover have "decode_uue_lines ((E @ q @ [13, 10]) @ rest) buf = decode_uue_lines rest (buf @ str)"
    for rest buf
    using E(4) [unfolded reads_back_def] completes_codes [of a b c] abc(2) L(2)
    unfolding q_def by simp
  moreover have "length (E @ q @ [13, 10]) = groups * 4 + (groups + 14) div 15 * 3"
  proof -
    have "(groups + 14) div 15 = Suc (m div 15)"
      unfolding g(1) by simp
    then show ?thesis
      using E(3) pads(3) g(1) by simp
  qed
  ultimately show ?thesis
    unfolding D_def by (metis append_assoc)
qed

section \<open>Properties\<close>

lemma skip_eol_prefix: "10 \<notin> set p \<Longrightarrow> skip_eol (p @ 10 # src) = Some src"
  by (induction p) auto

lemma find_begin_first:
  "length src > 0 \<Longrightarrow> find_begin (98 # 101 # 103 # 105 # 110 # 32 # src) =
     Some (101 # 103 # 105 # 110 # 32 # src)"
  by simp

text \<open>The line that ends the data and the \<open>end\<close> line.\<close>

lemma decode_end: "decode_uue_lines [96, 13, 10, 101, 110, 100, 13, 10] buf = Inr buf"
  by (simp add: decode_uue_lines.simps uue_value_def bits_simps)

definition uue_opts_ok :: "arg list \<Rightarrow> bool" where
  "uue_opts_ok opts \<longleftrightarrow>
     (case opts of [] \<Rightarrow> True | [AInt i u] \<Rightarrow> True
      | [AStr (Str0 f)] \<Rightarrow> 10 \<notin> set (takeWhile (\<lambda>c. c \<noteq> 0) f) | _ \<Rightarrow> False)"

lemma uue_opts_cases:
  assumes "uue_opts_ok opts"
  shows "10 \<notin> set (uue_filename (AStr (Str0 s) # opts))" "length opts \<le> 1"
  using assms by (auto simp: uue_opts_ok_def uue_filename_def split: list.splits arg.splits pike_string.splits)

text \<open>C28: Decoding what \<open>encode_uue\<close> returns gives the encoded string back, and the encoder
  fills exactly the string it allocates, provided the filename, as far as it is used, holds no
  line feed.\<close>

theorem uue_roundtrip:
  assumes "uue_opts_ok opts"
  shows "\<exists>out. f_encode_uue (AStr (Str0 s) # opts) = Inr (AStr (Str0 out)) \<and>
    f_decode_uue [AStr (Str0 out)] = Inr (AStr (Str0 s))"
proof -
  define f where "f = uue_filename (AStr (Str0 s) # opts)"
  define h where "h = map of_char ''begin 644 '' @ f @ [13, 10 :: byte]"
  define tl8 where "tl8 = [96, 13, 10, 101, 110, 100, 13, 10 :: byte]"
  obtain B where B: "uue_body s h = Inr (h @ B)"
    "length B = (length s + 2) div 3 * 4 + ((length s + 2) div 3 + 14) div 15 * 3"
    "\<forall>rest buf. decode_uue_lines (B @ rest) buf = decode_uue_lines rest (buf @ s)"
  proof (cases "s = []")
    case True
    then show thesis
      by (intro that [of "[]"]) (simp_all add: uue_body_def)
  next
    case False
    then show thesis
      using uue_body_ok [OF False, of h] that by blast
  qed
  have len: "length h = length f + 12"
    by (simp add: h_def)
  have opts: "length opts = 0 \<or> length opts = 1"
    using uue_opts_cases(2) [OF assms] by arith
  have arg: "length opts = 1 \<Longrightarrow> (\<exists>x. opts = [AStr (Str0 x)]) \<or> (\<exists>i u. opts = [AInt i u])"
    using assms by (auto simp: uue_opts_ok_def split: list.splits arg.splits pike_string.splits)
  have "f_encode_uue (AStr (Str0 s) # opts) =
      (case uue_body s h of Inl e \<Rightarrow> Inl e
       | Inr d \<Rightarrow> if length (d @ tl8) \<noteq> (length s + 2) div 3 * 4 +
             ((length s + 2) div 3 + 14) div 15 * 3 + length f + 20
           then Inl Bad_Memory_Access else Inr (AStr (Str0 (d @ tl8))))"
    using opts arg
    by (auto simp: f_encode_uue_def Let_def h_def tl8_def f_def split: sum.splits)
  then have "f_encode_uue (AStr (Str0 s) # opts) = Inr (AStr (Str0 (h @ B @ tl8)))"
    using B(1,2) len by (simp add: tl8_def)
  moreover have "f_decode_uue [AStr (Str0 (h @ B @ tl8))] = Inr (AStr (Str0 s))"
  proof -
    have "find_begin (h @ B @ tl8) = Some ((map of_char ''egin 644 '' @ f @ [13]) @ 10 # B @ tl8)"
      by (simp add: h_def)
    moreover have "10 \<notin> set (map of_char ''egin 644 '' @ f @ [13 :: byte])"
      using uue_opts_cases(1) [OF assms, of s] by (simp add: f_def)
    ultimately have "Option.bind (find_begin (h @ B @ tl8)) skip_eol = Some (B @ tl8)"
      by (metis Option.bind.simps(2) skip_eol_prefix)
    then show ?thesis
      using B(3) by (simp add: f_decode_uue_def tl8_def decode_end)
  qed
  ultimately show ?thesis
    by blast
qed

theorem uue_roundtrip_witness:
  "\<exists>out. f_encode_uue [AStr (Str0 [1, 2, 3, 4]), AStr (Str0 [97, 46, 99])] = Inr (AStr (Str0 out)) \<and>
    f_decode_uue [AStr (Str0 out)] = Inr (AStr (Str0 [1, 2, 3, 4]))"
  using uue_roundtrip [of "[AStr (Str0 [97, 46, 99])]" "[1, 2, 3, 4]"]
  by (simp add: uue_opts_ok_def)

lemma decode_groups_total:
  "length src \<ge> 4 * g \<Longrightarrow> \<exists>r b. decode_uue_groups g src buf = Some (r, b)"
proof (induction g arbitrary: src buf)
  case (Suc g)
  then obtain c0 c1 c2 c3 r where "src = c0 # c1 # c2 # c3 # r" "length r \<ge> 4 * g"
    by (auto simp: Suc_le_length_iff eval_nat_numeral)
  then show ?case
    using Suc.IH by (simp add: decode_uue_groups.simps(2))
qed simp

lemma decode_lines_total: "\<exists>r. decode_uue_lines src buf = Inr r"
proof (induction src buf rule: decode_uue_lines.induct)
  case (1 src buf)
  show ?case
  proof (cases src)
    case Nil
    then show ?thesis
      by (simp add: decode_uue_lines.simps)
  next
    case (Cons c r)
    define g where "g = (nat (uue_value c) + 2) div 3"
    show ?thesis
    proof (cases "c = 101 \<or> length r < g * 4")
      case True
      then show ?thesis
        using Cons by (subst decode_uue_lines.simps) (auto simp: Let_def g_def)
    next
      case False
      then obtain r' b where "decode_uue_groups g r buf = Some (r', b)"
        using decode_groups_total [of g r buf] by auto
      then show ?thesis
        using 1 Cons False
        by (subst decode_uue_lines.simps) (auto simp: Let_def g_def split: option.splits)
    qed
  qed
qed

text \<open>C29: The decoder never reads outside its input: it returns a string or 0 for every 8-bit
  string, whatever length bytes its lines have.\<close>

theorem decode_uue_safe:
  "f_decode_uue [AStr (Str0 s)] = Inr (AInt 0 False) \<or>
    (\<exists>r. f_decode_uue [AStr (Str0 s)] = Inr (AStr (Str0 r)))"
proof (cases "Option.bind (find_begin s) skip_eol")
  case (Some src)
  then show ?thesis
    using decode_lines_total [of src "[]"] by (auto simp: f_decode_uue_def)
qed (simp add: f_decode_uue_def)

end
