(* ===== verification/Mime_Tokenize.thy ===== *)
theory Mime_Tokenize
  imports Prelude
begin

text \<open>
  The lexical analysis of header fields in \<open>src/src/modules/MIME/mime.c\<close>: the character classes
  \<open>rfc822ctype\<close>, \<open>low_tokenize\<close> with its two entry points \<open>f_tokenize\<close> and
  \<open>f_tokenize_labled\<close>.
\<close>

section \<open>Character classes\<close>

datatype ctype = CT_CTL | CT_WHITE | CT_ATOM | CT_SPECIAL | CT_EQUAL | CT_LPAR | CT_RPAR
  | CT_LBRACK | CT_RBRACK | CT_QUOTE

text \<open>The table is indexed by \<open>unsigned char\<close>: a function of the byte, built by the updates the
  module initialisation makes.\<close>

definition rfc822ctype :: "byte \<Rightarrow> ctype" where
  "rfc822ctype =
     (\<lambda>c. if c < 32 then CT_CTL else CT_ATOM)
       (127 := CT_CTL, 32 := CT_WHITE, 9 := CT_WHITE, 40 := CT_LPAR, 41 := CT_RPAR,
        91 := CT_LBRACK, 93 := CT_RBRACK, 34 := CT_QUOTE, 61 := CT_EQUAL,
        60 := CT_SPECIAL, 62 := CT_SPECIAL, 64 := CT_SPECIAL, 44 := CT_SPECIAL, 59 := CT_SPECIAL,
        58 := CT_SPECIAL, 92 := CT_SPECIAL, 47 := CT_SPECIAL, 63 := CT_SPECIAL)"

text \<open>\<open>rfc822ctype[c] <= CT_WHITE\<close>.\<close>

definition ctl_or_white :: "byte \<Rightarrow> bool" where
  "ctl_or_white c \<longleftrightarrow> rfc822ctype c = CT_CTL \<or> rfc822ctype c = CT_WHITE"

section \<open>Scanning\<close>

text \<open>Reading the string. The scans read its characters only; the copies may also read the null
  character that follows them. Reading anything else is a memory error.\<close>

definition read_char :: "byte list \<Rightarrow> nat \<Rightarrow> byte result" where
  "read_char src i = (if i < length src then Inr (src ! i) else Inl Bad_Memory_Access)"

definition read_chars :: "byte list \<Rightarrow> nat \<Rightarrow> nat \<Rightarrow> byte list result" where
  "read_chars src i n = (if i + n \<le> length src then Inr (take n (drop i src)) else Inl Bad_Memory_Access)"

definition read_src :: "byte list \<Rightarrow> nat \<Rightarrow> byte option" where
  "read_src src i = (if i < length src then Some (src ! i) else if i = length src then Some 0 else None)"

text \<open>The indices and counters \<open>l\<close>, \<open>e\<close> and \<open>d\<close> are of type \<open>INT32\<close>, while the number of
  characters left is a \<open>ptrdiff_t\<close>: an increment may overflow.\<close>

definition next_index :: "nat \<Rightarrow> nat result" where
  "next_index l = (if int l + 1 \<ge> 2 ^ 31 then Inl Int_Overflow else Inr (l + 1))"

lemma next_index_inr: "next_index l = Inr x \<Longrightarrow> x = l + 1"
  by (simp add: next_index_def split: if_splits)

text \<open>The search for the third question mark of an encoded word: the index it stops at, and the
  number of question marks found.\<close>

function scan_encoded :: "byte list \<Rightarrow> nat \<Rightarrow> nat \<Rightarrow> (nat \<times> nat) result" where
  "scan_encoded src l nq =
     (if l < length src \<and> nq < 3 then
        bind_result (read_char src l) (\<lambda>c.
          if c = 63 then bind_result (next_index l) (\<lambda>l. scan_encoded src l (nq + 1))
          else if ctl_or_white c then Inr (l, nq)
          else bind_result (next_index l) (\<lambda>l. scan_encoded src l nq))
      else Inr (l, nq))"
  by pat_completeness auto
termination
  by (relation "measure (\<lambda>(src, l, nq). length src - l)") (auto dest!: next_index_inr)

text \<open>The length of the encoded word at the start of \<open>src\<close>, 0 when there is none.\<close>

definition encoded_word_len :: "byte list \<Rightarrow> nat result" where
  "encoded_word_len src =
     (if length src > 5 then
        bind_result (read_char src 1) (\<lambda>c.
          if c = 63 then
            bind_result (scan_encoded src 2 0) (\<lambda>(l, nq).
              if nq = 3 \<and> l < length src then
                bind_result (read_char src l) (\<lambda>c. if c = 61 then next_index l else Inr 0)
              else Inr 0)
          else Inr 0)
      else Inr 0)"

function scan_atom :: "byte list \<Rightarrow> nat \<Rightarrow> nat result" where
  "scan_atom src l =
     (if l < length src then
        bind_result (read_char src l) (\<lambda>c.
          if rfc822ctype c \<noteq> CT_ATOM then Inr l
          else bind_result (next_index l) (\<lambda>l. scan_atom src l))
      else Inr l)"
  by pat_completeness auto
termination
  by (relation "measure (\<lambda>(src, l). length src - l)") (auto dest!: next_index_inr)

text \<open>The scan of a quoted string or domain literal: the index of the character \<open>stop\<close>, and the
  number of backslashes passed. A backslash at the end takes the index one past the length.\<close>

function scan_quoted :: "byte list \<Rightarrow> byte \<Rightarrow> bool \<Rightarrow> nat \<Rightarrow> nat \<Rightarrow> (nat \<times> nat) result" where
  "scan_quoted src stop keep l e =
     (if l < length src then
        bind_result (read_char src l) (\<lambda>c.
          if c = stop then Inr (l, e)
          else if c = 92 \<and> \<not> keep then
            bind_result (next_index e) (\<lambda>e. bind_result (next_index l) (\<lambda>l.
              bind_result (next_index l) (\<lambda>l. scan_quoted src stop keep l e)))
          else bind_result (next_index l) (\<lambda>l. scan_quoted src stop keep l e))
      else Inr (l, e))"
  by pat_completeness auto
termination
  by (relation "measure (\<lambda>(src, stop, keep, l, e). length src - l)") (auto dest!: next_index_inr)

text \<open>The scan of a comment, \<open>d\<close> levels deep.\<close>

function scan_comment :: "byte list \<Rightarrow> nat \<Rightarrow> nat \<Rightarrow> nat \<Rightarrow> (nat \<times> nat) result" where
  "scan_comment src d l e =
     (if l < length src then
        bind_result (read_char src l) (\<lambda>c.
          if c = 40 then
            bind_result (next_index d) (\<lambda>d. bind_result (next_index l) (\<lambda>l. scan_comment src d l e))
          else if c = 41 then
            (if d - 1 = 0 then Inr (l, e)
             else bind_result (next_index l) (\<lambda>l. scan_comment src (d - 1) l e))
          else if c = 92 then
            bind_result (next_index e) (\<lambda>e. bind_result (next_index l) (\<lambda>l.
              bind_result (next_index l) (\<lambda>l. scan_comment src d l e)))
          else bind_result (next_index l) (\<lambda>l. scan_comment src d l e))
      else Inr (l, e))"
  by pat_completeness auto
termination
  by (relation "measure (\<lambda>(src, d, l, e). length src - l)") (auto dest!: next_index_inr)

declare scan_encoded.simps [simp del] scan_atom.simps [simp del] scan_quoted.simps [simp del]
  scan_comment.simps [simp del]

text \<open>The copy without backslashes of the characters from \<open>e\<close> to \<open>l - 1\<close>. Its index does not pass
  \<open>l + 1\<close>, which is computed after the copy in any case.\<close>

function copy_unescaped :: "byte list \<Rightarrow> nat \<Rightarrow> nat \<Rightarrow> byte list option" where
  "copy_unescaped src e l =
     (if e < l then
        (case read_src src e of
           None \<Rightarrow> None
         | Some c \<Rightarrow>
             if c = 92 then
               (case (read_src src (e + 1), copy_unescaped src (e + 2) l) of
                  (Some c, Some s) \<Rightarrow> Some (c # s) | _ \<Rightarrow> None)
             else map_option ((#) c) (copy_unescaped src (e + 1) l))
      else Some [])"
  by pat_completeness auto
termination
  by (relation "measure (\<lambda>(src, e, l). l - e)") auto

declare copy_unescaped.simps [simp del]

text \<open>The copy into a string of \<open>n\<close> characters: writing more or fewer is a memory error.\<close>

definition copy_token :: "byte list \<Rightarrow> nat \<Rightarrow> nat \<Rightarrow> nat \<Rightarrow> byte list result" where
  "copy_token src e l n =
     (case copy_unescaped src e l of
        Some s \<Rightarrow> if length s = n then Inr s else Inl Bad_Memory_Access
      | None \<Rightarrow> Inl Bad_Memory_Access)"

section \<open>The tokenizer\<close>

text \<open>A token: \<open>mode\<close> wraps it in an array with its label.\<close>

definition str_lit :: "string \<Rightarrow> arg" where
  "str_lit s = AStr (Str0 (map of_char s))"

definition push_token :: "bool \<Rightarrow> string \<Rightarrow> arg \<Rightarrow> arg" where
  "push_token mode label tok = (if mode then AArr [str_lit label, tok] else tok)"

definition special_token :: "bool \<Rightarrow> byte \<Rightarrow> arg list \<times> nat" where
  "special_token mode c = ([push_token mode ''special'' (AInt (uint c) False)], 1)"

text \<open>The cases of the switch that scan: the tokens pushed and the number of characters consumed.\<close>

definition atom_token :: "bool \<Rightarrow> byte list \<Rightarrow> (arg list \<times> nat) result" where
  "atom_token mode src =
     bind_result (scan_atom src 1) (\<lambda>l.
     bind_result (read_chars src 0 l) (\<lambda>s. Inr ([push_token mode ''word'' (AStr (Str0 s))], l)))"

definition quoted_token :: "bool \<Rightarrow> bool \<Rightarrow> byte list \<Rightarrow> (arg list \<times> nat) result" where
  "quoted_token mode keep src =
     bind_result (scan_quoted src 34 keep 1 0) (\<lambda>(l, e).
     bind_result (if e \<noteq> 0 then copy_token src 1 l (l - e - 1) else read_chars src 1 (l - 1)) (\<lambda>s.
     bind_result (next_index l) (\<lambda>k. Inr ([push_token mode ''word'' (AStr (Str0 s))], k))))"

definition domain_token :: "bool \<Rightarrow> byte list \<Rightarrow> (arg list \<times> nat) result" where
  "domain_token mode src =
     bind_result (scan_quoted src 93 False 1 0) (\<lambda>(l, e).
       if l \<ge> length src then Inr (special_token mode (hd src))
       else
         bind_result (copy_token src 0 (l + 1) (l - e + 1)) (\<lambda>s.
         bind_result (next_index l) (\<lambda>k.
           Inr ([push_token mode ''domain-literal'' (AStr (Str0 s))], k))))"

definition comment_token :: "bool \<Rightarrow> byte list \<Rightarrow> (arg list \<times> nat) result" where
  "comment_token mode src =
     bind_result (scan_comment src 1 1 0) (\<lambda>(l, e).
     bind_result
       (if mode then
          bind_result (copy_token src 1 l (l - e - 1)) (\<lambda>s.
            Inr [push_token mode ''comment'' (AStr (Str0 s))])
        else Inr []) (\<lambda>ts.
     bind_result (next_index l) (\<lambda>k. Inr (ts, k))))"

text \<open>One turn of the loop at a non-empty rest of the string.\<close>

definition token_step :: "bool \<Rightarrow> bool \<Rightarrow> byte list \<Rightarrow> (arg list \<times> nat) result" where
  "token_step mode keep src =
     (case rfc822ctype (hd src) of
        CT_EQUAL \<Rightarrow>
          bind_result (encoded_word_len src) (\<lambda>l.
            if l > 0 then
              bind_result (read_chars src 0 l) (\<lambda>s.
                Inr ([push_token mode ''encoded-word'' (AStr (Str0 s))], l))
            else Inr (special_token mode (hd src)))
      | CT_SPECIAL \<Rightarrow> Inr (special_token mode (hd src))
      | CT_RBRACK \<Rightarrow> Inr (special_token mode (hd src))
      | CT_RPAR \<Rightarrow> Inr (special_token mode (hd src))
      | CT_ATOM \<Rightarrow> atom_token mode src
      | CT_QUOTE \<Rightarrow> quoted_token mode keep src
      | CT_LBRACK \<Rightarrow> domain_token mode src
      | CT_LPAR \<Rightarrow> comment_token mode src
      | CT_WHITE \<Rightarrow> Inr ([], 1)
      | CT_CTL \<Rightarrow>
          if hd src = 0 then Inr ([], length src) else Inl Invalid_Header_Char)"

lemma scan_atom_le: "scan_atom src l = Inr k \<Longrightarrow> l \<le> k"
proof (induction src l rule: scan_atom.induct)
  case (1 src l)
  then show ?case
    by (subst (asm) scan_atom.simps)
      (fastforce simp: bind_result_def read_char_def next_index_def split: if_splits sum.splits)
qed

lemma token_step_pos:
  assumes "src \<noteq> []" "token_step mode keep src = Inr (ts, k)"
  shows "0 < k"
  using assms
  by (auto simp: token_step_def special_token_def atom_token_def quoted_token_def domain_token_def
      comment_token_def bind_result_def next_index_def Let_def dest: scan_atom_le
      split: ctype.splits if_splits prod.splits sum.splits)

function tokenize_loop :: "bool \<Rightarrow> bool \<Rightarrow> byte list \<Rightarrow> arg list \<Rightarrow> arg list result" where
  "tokenize_loop mode keep src acc =
     (if src = [] then Inr acc
      else case token_step mode keep src of
        Inl err \<Rightarrow> Inl err
      | Inr (ts, k) \<Rightarrow> tokenize_loop mode keep (drop k src) (acc @ ts))"
  by pat_completeness auto
termination
  by (relation "measure (\<lambda>(mode, keep, src, acc). length src)") (auto dest: token_step_pos intro!: diff_less)

declare tokenize_loop.simps [simp del]

text \<open>The arguments, read with \<open>get_all_args\<close> as \<open>"%n.%d"\<close>; an undefined flag is as none.\<close>

definition tokenize_args :: "arg list \<Rightarrow> (byte list \<times> int) result" where
  "tokenize_args args =
     (case args of
        [] \<Rightarrow> Inl Wrong_Number_Of_Args
      | AStr (Str0 s) # rest \<Rightarrow>
          (case rest of
             [] \<Rightarrow> Inr (s, 0)
           | AInt v undef # _ \<Rightarrow> Inr (s, if undef then 0 else v)
           | _ \<Rightarrow> Inl Wrong_Type_Of_Arg)
      | _ \<Rightarrow> Inl Wrong_Type_Of_Arg)"

definition low_tokenize :: "arg list \<Rightarrow> bool \<Rightarrow> arg result" where
  "low_tokenize args mode =
     (case tokenize_args args of
        Inl e \<Rightarrow> Inl e
      | Inr (s, flags) \<Rightarrow>
          (case tokenize_loop mode (flags AND 1 \<noteq> 0) s [] of
             Inl e \<Rightarrow> Inl e
           | Inr ts \<Rightarrow> Inr (AArr ts)))"

definition f_tokenize :: "arg list \<Rightarrow> arg result" where
  "f_tokenize args = low_tokenize args False"

definition f_tokenize_labled :: "arg list \<Rightarrow> arg result" where
  "f_tokenize_labled args = low_tokenize args True"

section \<open>What the scans find\<close>

text \<open>The scans as functions of the characters that follow the index. Short enough strings cause no
  overflow.\<close>

fun encoded_end :: "byte list \<Rightarrow> nat \<Rightarrow> nat \<Rightarrow> nat \<times> nat" where
  "encoded_end [] l nq = (l, nq)"
| "encoded_end (c # cs) l nq =
     (if \<not> nq < 3 then (l, nq)
      else if c = 63 then encoded_end cs (l + 1) (nq + 1)
      else if ctl_or_white c then (l, nq)
      else encoded_end cs (l + 1) nq)"

fun atom_end :: "byte list \<Rightarrow> nat \<Rightarrow> nat" where
  "atom_end [] l = l"
| "atom_end (c # cs) l = (if rfc822ctype c \<noteq> CT_ATOM then l else atom_end cs (l + 1))"

fun quoted_end :: "byte \<Rightarrow> bool \<Rightarrow> byte list \<Rightarrow> nat \<Rightarrow> nat \<Rightarrow> nat \<times> nat" where
  "quoted_end stop keep [] l e = (l, e)"
| "quoted_end stop keep (c # cs) l e =
     (if c = stop then (l, e)
      else if c = 92 \<and> \<not> keep then
        (case cs of [] \<Rightarrow> (l + 2, e + 1) | _ # cs \<Rightarrow> quoted_end stop keep cs (l + 2) (e + 1))
      else quoted_end stop keep cs (l + 1) e)"

fun comment_end :: "byte list \<Rightarrow> nat \<Rightarrow> nat \<Rightarrow> nat \<Rightarrow> nat \<times> nat" where
  "comment_end [] d l e = (l, e)"
| "comment_end (c # cs) d l e =
     (if c = 40 then comment_end cs (d + 1) (l + 1) e
      else if c = 41 then
        (if d - 1 = 0 then (l, e) else comment_end cs (d - 1) (l + 1) e)
      else if c = 92 then
        (case cs of [] \<Rightarrow> (l + 2, e + 1) | _ # cs \<Rightarrow> comment_end cs d (l + 2) (e + 1))
      else comment_end cs d (l + 1) e)"

abbreviation short :: "byte list \<Rightarrow> bool" where
  "short src \<equiv> length src + 2 < 2 ^ 31"

lemma next_index_ok: "short src \<Longrightarrow> l \<le> length src + 1 \<Longrightarrow> next_index l = Inr (l + 1)"
  by (simp add: next_index_def)

lemma drop_here: "l < length src \<Longrightarrow> drop l src = src ! l # drop (l + 1) src"
  by (simp add: Cons_nth_drop_Suc)

lemma scan_encoded_end:
  "short src \<Longrightarrow> scan_encoded src l nq = Inr (encoded_end (drop l src) l nq)"
proof (induction src l nq rule: scan_encoded.induct)
  case (1 src l nq)
  show ?case
  proof (cases "l < length src")
    case True
    have r: "read_char src l = Inr (src ! l)" "next_index l = Inr (l + 1)"
      using True next_index_ok [OF 1(3)] by (simp_all add: read_char_def)
    show ?thesis
      using 1 True r by (subst scan_encoded.simps) (simp add: drop_here [OF True])
  qed (subst scan_encoded.simps; simp)
qed

lemma scan_atom_end: "short src \<Longrightarrow> scan_atom src l = Inr (atom_end (drop l src) l)"
proof (induction src l rule: scan_atom.induct)
  case (1 src l)
  show ?case
  proof (cases "l < length src")
    case True
    have r: "read_char src l = Inr (src ! l)" "next_index l = Inr (l + 1)"
      using True next_index_ok [OF 1(2)] by (simp_all add: read_char_def)
    show ?thesis
      using 1 True r by (subst scan_atom.simps) (simp add: drop_here [OF True])
  qed (subst scan_atom.simps; simp)
qed

lemma quoted_end_two:
  "(case cs of [] \<Rightarrow> (l, e) | _ # cs \<Rightarrow> quoted_end stop keep cs l e) = quoted_end stop keep (tl cs) l e"
  "(case cs of [] \<Rightarrow> (l, e) | _ # cs \<Rightarrow> comment_end cs d l e) = comment_end (tl cs) d l e"
  by (cases cs; simp)+

lemma scan_quoted_end:
  "short src \<Longrightarrow> e \<le> l \<Longrightarrow> scan_quoted src stop keep l e = Inr (quoted_end stop keep (drop l src) l e)"
proof (induction src stop keep l e rule: scan_quoted.induct)
  case (1 src stop keep l e)
  show ?case
  proof (cases "l < length src")
    case True
    have r: "read_char src l = Inr (src ! l)" "next_index l = Inr (l + 1)" "next_index (l + 1) = Inr (l + 2)"
      "next_index e = Inr (e + 1)"
      using True 1(4) next_index_ok [OF 1(3)] by (simp_all add: read_char_def)
    have t: "tl (drop (l + 1) src) = drop (l + 2) src"
      by (simp add: drop_Suc tl_drop)
    show ?thesis
      using 1 True r t by (subst scan_quoted.simps) (simp add: drop_here [OF True] quoted_end_two)
  qed (subst scan_quoted.simps; simp)
qed

lemma scan_comment_end:
  "short src \<Longrightarrow> e \<le> l \<Longrightarrow> d \<le> l \<Longrightarrow> scan_comment src d l e = Inr (comment_end (drop l src) d l e)"
proof (induction src d l e rule: scan_comment.induct)
  case (1 src d l e)
  show ?case
  proof (cases "l < length src")
    case True
    have r: "read_char src l = Inr (src ! l)" "next_index l = Inr (l + 1)" "next_index (l + 1) = Inr (l + 2)"
      "next_index e = Inr (e + 1)" "next_index d = Inr (d + 1)"
      using True 1(6,7) next_index_ok [OF 1(5)] by (simp_all add: read_char_def)
    have t: "tl (drop (l + 1) src) = drop (l + 2) src"
      by (simp add: drop_Suc tl_drop)
    show ?thesis
      using 1 True r t by (subst scan_comment.simps) (simp add: drop_here [OF True] quoted_end_two)
  qed (subst scan_comment.simps; simp)
qed

section \<open>The scans and the copies agree\<close>

text \<open>A run of plain and escaped characters from index \<open>l\<close> to \<open>l'\<close>, with the count of escapes.\<close>

inductive span :: "byte list \<Rightarrow> nat \<Rightarrow> nat \<Rightarrow> nat \<Rightarrow> nat \<Rightarrow> bool" for src where
  here: "span src l e l e"
| plain: "l < length src \<Longrightarrow> src ! l \<noteq> 92 \<Longrightarrow> span src (l + 1) e l' e' \<Longrightarrow> span src l e l' e'"
| escaped: "l < length src \<Longrightarrow> src ! l = 92 \<Longrightarrow> span src (l + 2) (e + 1) l' e' \<Longrightarrow> span src l e l' e'"

lemma drop_step:
  assumes "drop l src = c # cs"
  shows "l < length src" "src ! l = c" "drop (l + 1) src = cs"
proof -
  show l: "l < length src"
    using assms by (cases "l < length src") auto
  show "src ! l = c" "drop (l + 1) src = cs"
    using assms Cons_nth_drop_Suc [OF l] by auto
qed

lemma quoted_end_span:
  "quoted_end stop False cs l e = (l', e') \<Longrightarrow> drop l src = cs \<Longrightarrow> span src l e l' e'"
proof (induction stop "False" cs l e rule: quoted_end.induct)
  case (2 stop c cs l e)
  note d = drop_step [OF 2(4)]
  show ?case
  proof (cases "c = stop")
    case True
    then show ?thesis
      using 2(3) by (auto intro: span.here)
  next
    case False
    show ?thesis
    proof (cases "c = 92")
      case c: True
      have "span src (l + 2) (e + 1) l' e'"
      proof (cases cs)
        case Nil
        then show ?thesis
          using 2(3) False c by (auto intro: span.here)
      next
        case (Cons x xs)
        then have "drop (l + 2) src = xs"
          using drop_step(3) [of "l + 1" src x xs] d(3) by (simp add: add.assoc)
        then show ?thesis
          using 2(1) [OF False _ Cons] 2(3) False c Cons by simp
      qed
      then show ?thesis
        using d c span.escaped [of l src e l' e'] by blast
    next
      case c: False
      then show ?thesis
        using 2(2) [OF False] 2(3) False d span.plain [of l src e l' e'] by auto
    qed
  qed
qed (simp add: span.here)

lemma comment_end_span:
  "comment_end cs d l e = (l', e') \<Longrightarrow> drop l src = cs \<Longrightarrow> span src l e l' e'"
proof (induction cs d l e rule: comment_end.induct)
  case (2 c cs d l e)
  note dr = drop_step [OF 2(6)]
  consider "c = 92" | "c = 40" | "c = 41" | "c \<noteq> 92" "c \<noteq> 40" "c \<noteq> 41"
    by blast
  then show ?case
  proof cases
    case 1
    have "span src (l + 2) (e + 1) l' e'"
    proof (cases cs)
      case Nil
      then show ?thesis
        using 2(5) 1 by (auto intro: span.here)
    next
      case (Cons x xs)
      then have "drop (l + 2) src = xs"
        using drop_step(3) [of "l + 1" src x xs] dr(3) by (simp add: add.assoc)
      then show ?thesis
        using 2(3) 2(5) 1 Cons by simp
    qed
    then show ?thesis
      using dr 1 span.escaped [of l src e l' e'] by blast
  next
    case 2
    then show ?thesis
      using "2.IH"(1) "2.prems"(1) dr span.plain [of l src e l' e'] by auto
  next
    case 3
    then show ?thesis
      using "2.IH"(2) "2.prems"(1) dr span.plain [of l src e l' e']
      by (cases "d - 1 = 0") (auto intro: span.here)
  next
    case 4
    then show ?thesis
      using "2.IH"(4) "2.prems"(1) dr span.plain [of l src e l' e'] by auto
  qed
qed (simp add: span.here)

lemma copy_span:
  assumes "span src l e l' e'"
  shows "l \<le> l' \<and> e \<le> e' \<and>
    (\<exists>s. copy_unescaped src l l' = Some s \<and> length s + e' + l = l' + e)"
  using assms
proof induction
  case (here l e)
  then show ?case
    by (simp add: copy_unescaped.simps)
next
  case (plain l e l' e')
  then show ?case
    by (subst copy_unescaped.simps) (auto simp: read_src_def)
next
  case (escaped l e l' e')
  then show ?case
    by (subst copy_unescaped.simps) (auto simp: read_src_def)
qed

text \<open>Copying up to and including a stop character that is not a backslash.\<close>

lemma copy_span_stop:
  assumes "span src l e l' e'" "l' < length src" "src ! l' \<noteq> 92"
  shows "l \<le> l' \<and> e \<le> e' \<and>
    (\<exists>s. copy_unescaped src l (l' + 1) = Some s \<and> length s + e' + l = l' + e + 1)"
  using assms
proof induction
  case (here l e)
  then show ?case
    by (subst copy_unescaped.simps) (simp add: copy_unescaped.simps read_src_def)
next
  case (plain l e l' e')
  then show ?case
    by (subst copy_unescaped.simps) (auto simp: read_src_def)
next
  case (escaped l e l' e')
  then show ?case
    by (subst copy_unescaped.simps) (auto simp: read_src_def)
qed

lemma quoted_end_stop:
  "quoted_end stop keep cs l e = (l', e') \<Longrightarrow> drop l src = cs \<Longrightarrow> l' < length src \<Longrightarrow> src ! l' = stop"
proof (induction stop keep cs l e rule: quoted_end.induct)
  case (2 stop keep c cs l e)
  note d = drop_step [OF 2(4)]
  consider "c = stop" | "c \<noteq> stop" "c = 92 \<and> \<not> keep" | "c \<noteq> stop" "\<not> (c = 92 \<and> \<not> keep)"
    by blast
  then show ?case
  proof cases
    case 1
    then show ?thesis
      using "2.prems" d by simp
  next
    case 2
    show ?thesis
    proof (cases cs)
      case Nil
      then show ?thesis
        using "2.prems" 2 d by simp
    next
      case (Cons x xs)
      then have "drop (l + 2) src = xs"
        using drop_step(3) [of "l + 1" src x xs] d(3) by (simp add: add.assoc)
      then show ?thesis
        using "2.IH"(1) [OF 2 Cons] "2.prems" 2 Cons by simp
    qed
  next
    case 3
    then show ?thesis
      using "2.IH"(2) [OF 3] "2.prems" d by (auto split: if_splits)
  qed
qed simp

section \<open>The copies fit\<close>

lemma drop_one: "drop 1 src = tl src"
  by (simp add: drop_Suc)

lemma quoted_end_bounds:
  "quoted_end stop keep cs l e = (l', e') \<Longrightarrow>
    l \<le> l' \<and> l' \<le> l + length cs + 1 \<and> e \<le> e' \<and> (e' = e \<longrightarrow> l' \<le> l + length cs)"
  by (induction stop keep cs l e rule: quoted_end.induct) (fastforce split: if_splits list.splits)+

lemma comment_end_bounds: "comment_end cs d l e = (l', e') \<Longrightarrow> l \<le> l' \<and> l' \<le> l + length cs + 1"
  by (induction cs d l e rule: comment_end.induct) (fastforce split: if_splits list.splits)+

lemma quoted_token_ok:
  assumes "short src" "src \<noteq> []"
  shows "\<exists>s k. quoted_token mode keep src = Inr ([push_token mode ''word'' (AStr (Str0 s))], k)"
proof -
  obtain l e where s: "quoted_end 34 keep (tl src) 1 0 = (l, e)"
    by fastforce
  have sc: "scan_quoted src 34 keep 1 0 = Inr (l, e)"
    using scan_quoted_end [OF assms(1), of 0 1] s by (simp add: drop_Suc)
  note b = quoted_end_bounds [OF s]
  have n: "next_index l = Inr (l + 1)"
    using next_index_ok [OF assms(1)] b assms(2) by simp
  have keep: "quoted_end stop True cs l e = (l', e') \<Longrightarrow> e' = e" for stop cs l e l' e'
    by (induction stop True cs l e rule: quoted_end.induct) (auto split: if_splits)
  show ?thesis
  proof (cases "e = 0")
    case True
    have "0 < length src"
      using assms(2) by simp
    then have "read_chars src 1 (l - 1) = Inr (take (l - 1) (drop 1 src))"
      using b True by (simp add: read_chars_def)
    then show ?thesis
      using True sc n by (auto simp: quoted_token_def)
  next
    case False
    then have "keep = False"
      using s keep [of 34 "tl src" 1 0 l e] by (cases keep) auto
    then have "span src 1 0 l e"
      using s quoted_end_span [OF _ drop_one] by blast
    from copy_span [OF this] obtain t where "copy_unescaped src 1 l = Some t" "length t = l - e - 1"
      by auto
    then show ?thesis
      using sc n False by (auto simp: quoted_token_def copy_token_def)
  qed
qed

lemma comment_token_ok:
  assumes "short src" "src \<noteq> []"
  shows "\<exists>s k. comment_token mode src =
    Inr (if mode then [push_token mode ''comment'' (AStr (Str0 s))] else [], k)"
    "comment_token False src = (case comment_token True src of Inl e \<Rightarrow> Inl e | Inr (ts, k) \<Rightarrow> Inr ([], k))"
proof -
  obtain l e where s: "comment_end (tl src) 1 1 0 = (l, e)"
    by fastforce
  have sc: "scan_comment src 1 1 0 = Inr (l, e)"
    using scan_comment_end [OF assms(1), of 0 1 1] s by (simp add: drop_Suc)
  have n: "next_index l = Inr (l + 1)"
    using next_index_ok [OF assms(1)] comment_end_bounds [OF s] assms(2) by simp
  from copy_span [OF comment_end_span [OF s drop_one]] obtain t where
    "copy_unescaped src 1 l = Some t" "length t = l - e - 1"
    by auto
  then have "comment_token mode src =
      Inr (if mode then [push_token mode ''comment'' (AStr (Str0 t))] else [], l + 1)" for mode
    using sc n by (simp add: comment_token_def copy_token_def)
  then show "\<exists>s k. comment_token mode src =
      Inr (if mode then [push_token mode ''comment'' (AStr (Str0 s))] else [], k)"
    "comment_token False src = (case comment_token True src of Inl e \<Rightarrow> Inl e | Inr (ts, k) \<Rightarrow> Inr ([], k))"
    by auto
qed

lemma domain_token_ok:
  assumes "short src" "src \<noteq> []" "hd src = 91"
  shows "domain_token mode src = Inr (special_token mode (hd src)) \<or>
    (\<exists>s k. domain_token mode src = Inr ([push_token mode ''domain-literal'' (AStr (Str0 s))], k))"
proof -
  obtain l e where s: "quoted_end 93 False (tl src) 1 0 = (l, e)"
    by fastforce
  have sc: "scan_quoted src 93 False 1 0 = Inr (l, e)"
    using scan_quoted_end [OF assms(1), of 0 1] s by (simp add: drop_Suc)
  show ?thesis
  proof (cases "l < length src")
    case True
    then have n: "next_index l = Inr (l + 1)"
      using next_index_ok [OF assms(1)] by simp
    have "src ! l \<noteq> 92"
      using quoted_end_stop [OF s drop_one True] by simp
    from copy_span_stop [OF quoted_end_span [OF s drop_one] True this] obtain t where
      t: "copy_unescaped src 1 (l + 1) = Some t" "length t + 1 = l - e + 1"
      by auto
    have "copy_unescaped src 0 (l + 1) = Some (91 # t)"
      using t(1) assms(2,3) by (subst copy_unescaped.simps) (simp add: read_src_def hd_conv_nth)
    then show ?thesis
      using sc n t True by (auto simp: domain_token_def copy_token_def)
  qed (use sc in \<open>simp add: domain_token_def\<close>)
qed

lemma atom_end_bounds: "atom_end cs l \<le> l + length cs"
  by (induction cs l rule: atom_end.induct) auto

lemma atom_token_ok:
  assumes "short src" "src \<noteq> []"
  shows "\<exists>s k. atom_token mode src = Inr ([push_token mode ''word'' (AStr (Str0 s))], k)"
proof -
  have "0 < length src"
    using assms(2) by simp
  then have "atom_end (drop 1 src) 1 \<le> length src"
    using atom_end_bounds [of "drop 1 src" 1] by simp
  then show ?thesis
    using scan_atom_end [OF assms(1), of 1] by (auto simp: atom_token_def read_chars_def)
qed

lemma encoded_end_bounds: "encoded_end cs l nq = (l', nq') \<Longrightarrow> l \<le> l' \<and> l' \<le> l + length cs"
  by (induction cs l nq rule: encoded_end.induct) (fastforce split: if_splits)+

lemma encoded_word_len_ok:
  assumes "short src"
  shows "\<exists>l \<le> length src. encoded_word_len src = Inr l"
proof (cases "length src > 5 \<and> src ! 1 = 63")
  case True
  obtain l nq where e: "encoded_end (drop 2 src) 2 0 = (l, nq)"
    by fastforce
  have "read_char src l = Inr (src ! l)" "next_index l = Inr (l + 1)" if "l < length src"
    using that next_index_ok [OF assms] by (simp_all add: read_char_def)
  then show ?thesis
    using True scan_encoded_end [OF assms, of 2 0] e
    by (auto simp: encoded_word_len_def read_char_def)
qed (auto simp: encoded_word_len_def read_char_def)

lemma ctype_bracket: "rfc822ctype c = CT_LBRACK \<longleftrightarrow> c = 91"
  by (auto simp: rfc822ctype_def split: if_splits)

text \<open>The errors that remain are those the code reports.\<close>

lemma token_step_safe:
  assumes "short src" "src \<noteq> []" "token_step mode keep src = Inl err"
  shows "err = Invalid_Header_Char"
proof -
  obtain l where "l \<le> length src" "encoded_word_len src = Inr l"
    using encoded_word_len_ok [OF assms(1)] by blast
  then show ?thesis
    using quoted_token_ok [OF assms(1,2), of mode keep] comment_token_ok(1) [OF assms(1,2), of mode]
      domain_token_ok [OF assms(1,2), of mode] atom_token_ok [OF assms(1,2), of mode] assms(3)
    by (auto simp: token_step_def Let_def ctype_bracket read_chars_def split: ctype.splits if_splits)
qed

lemma tokenize_loop_safe:
  "short src \<Longrightarrow> tokenize_loop mode keep src acc = Inl err \<Longrightarrow> err = Invalid_Header_Char"
proof (induction mode keep src acc rule: tokenize_loop.induct)
  case (1 mode keep src acc)
  show ?case
  proof (cases "token_step mode keep src")
    case (Inl e)
    then show ?thesis
      using 1(2,3) token_step_safe [OF 1(2) _ Inl] by (subst (asm) tokenize_loop.simps) (auto split: if_splits)
  next
    case (Inr r)
    obtain ts k where r: "r = (ts, k)"
      by (cases r)
    have "short (drop k src)"
      using 1(2) by simp
    then show ?thesis
      using 1(1) [OF _ Inr r [symmetric]] 1(3) Inr r by (subst (asm) (2) tokenize_loop.simps) (auto split: if_splits)
  qed
qed

section \<open>Labels\<close>

text \<open>The tokens of \<open>tokenize\<close> from those of \<open>tokenize_labled\<close>: no comments and no labels.\<close>

fun unlabel :: "arg list \<Rightarrow> arg list" where
  "unlabel [] = []"
| "unlabel (AArr [label, tok] # ts) =
     (if label = str_lit ''comment'' then unlabel ts else tok # unlabel ts)"
| "unlabel (t # ts) = unlabel ts"

lemma unlabel_append: "unlabel (ts @ us) = unlabel ts @ unlabel us"
  by (induction ts rule: unlabel.induct) auto

lemma unlabel_token [simp]:
  "unlabel [push_token True label tok] = (if str_lit label = str_lit ''comment'' then [] else [tok])"
  by (simp add: push_token_def)

lemma str_lit_simps [simp]:
  "str_lit ''special'' \<noteq> str_lit ''comment''" "str_lit ''word'' \<noteq> str_lit ''comment''"
  "str_lit ''encoded-word'' \<noteq> str_lit ''comment''" "str_lit ''domain-literal'' \<noteq> str_lit ''comment''"
  by (simp_all add: str_lit_def)

lemma push_token_plain [simp]: "push_token False label tok = tok"
  by (simp add: push_token_def)

lemma token_step_labels:
  assumes "short src" "src \<noteq> []"
  shows "token_step False keep src =
    (case token_step True keep src of Inl e \<Rightarrow> Inl e | Inr (ts, k) \<Rightarrow> Inr (unlabel ts, k))"
proof -
  have "quoted_token False keep src =
    (case quoted_token True keep src of Inl e \<Rightarrow> Inl e | Inr (ts, k) \<Rightarrow> Inr (unlabel ts, k))"
    by (auto simp: quoted_token_def bind_result_def split: prod.splits sum.splits)
  moreover have "domain_token False src =
    (case domain_token True src of Inl e \<Rightarrow> Inl e | Inr (ts, k) \<Rightarrow> Inr (unlabel ts, k))"
    by (auto simp: domain_token_def special_token_def bind_result_def split: prod.splits sum.splits)
  moreover have "atom_token False src =
    (case atom_token True src of Inl e \<Rightarrow> Inl e | Inr (ts, k) \<Rightarrow> Inr (unlabel ts, k))"
    by (auto simp: atom_token_def bind_result_def split: sum.splits)
  moreover have "comment_token False src =
    (case comment_token True src of Inl e \<Rightarrow> Inl e | Inr (ts, k) \<Rightarrow> Inr (unlabel ts, k))"
    using comment_token_ok(1) [OF assms, of True] comment_token_ok(2) [OF assms]
    by (auto split: prod.splits sum.splits)
  ultimately show ?thesis
    by (simp add: token_step_def special_token_def Let_def bind_result_def split: ctype.splits sum.splits)
qed

lemma tokenize_loop_labels:
  "short src \<Longrightarrow> tokenize_loop False keep src (unlabel acc) =
    map_sum id unlabel (tokenize_loop True keep src acc)"
proof (induction True keep src acc rule: tokenize_loop.induct)
  case (1 keep src acc)
  show ?case
  proof (cases "src = []")
    case True
    then show ?thesis
      by (simp add: tokenize_loop.simps)
  next
    case False
    then show ?thesis
      using 1 token_step_labels [OF 1(2) False, of keep]
      by (subst (1 2) tokenize_loop.simps) (auto simp: unlabel_append split: sum.splits prod.splits)
  qed
qed

section \<open>Properties\<close>

text \<open>C25: For headers of fewer than \<open>2 ^ 31 - 2\<close> characters the tokenizer never reads or writes outside
  its strings and no index overflows, whatever the header holds and whatever the flags are:
  unterminated quotes and comments and a final backslash included. The scans read characters of the
  header only; only a copy may read the null character after it. (For longer headers the \<open>INT32\<close>
  indices can overflow.)\<close>

theorem tokenize_safe:
  assumes "\<forall>s rest. args = AStr (Str0 s) # rest \<longrightarrow> short s"
  shows "low_tokenize args mode \<notin> {Inl Bad_Memory_Access, Inl Int_Overflow}"
  using tokenize_loop_safe [of _ mode] assms
  by (fastforce simp: low_tokenize_def tokenize_args_def split: list.splits arg.splits pike_string.splits sum.splits)

theorem tokenize_safe_witness:
  "low_tokenize [AStr (Str0 [34, 97, 92])] True \<notin> {Inl Bad_Memory_Access, Inl Int_Overflow}"
  by (rule tokenize_safe) simp

text \<open>\<open>tokenize\<close> gives exactly the tokens of \<open>tokenize_labled\<close> without their labels and
  without the comments, and fails exactly when that function fails.\<close>

theorem tokenize_drops_labels:
  assumes "\<forall>s rest. args = AStr (Str0 s) # rest \<longrightarrow> short s"
  shows "f_tokenize args =
    (case f_tokenize_labled args of
       Inl e \<Rightarrow> Inl e
     | Inr a \<Rightarrow> Inr (AArr (case a of AArr ts \<Rightarrow> unlabel ts | _ \<Rightarrow> [])))"
proof -
  have "short s" if "tokenize_args args = Inr (s, flags)" for s flags
    using that assms by (auto simp: tokenize_args_def split: list.splits arg.splits pike_string.splits)
  then show ?thesis
    using tokenize_loop_labels [of _ _ "[]"]
    by (auto simp: f_tokenize_def f_tokenize_labled_def low_tokenize_def split: sum.splits)
qed

text \<open>A quoted string that ends in a backslash gives a token with a null character that is
  not in the header: the terminator after the string is copied.\<close>

theorem tokenize_final_backslash:
  assumes "list_all (\<lambda>c. c \<noteq> 34 \<and> c \<noteq> 92) w" "short (34 # w @ [92])"
  shows "f_tokenize [AStr (Str0 (34 # w @ [92]))] = Inr (AArr [AStr (Str0 (w @ [0]))])"
proof -
  have sc: "quoted_end 34 False (w @ [92]) l e = (l + length w + 2, e + 1)" for l e
    using assms(1) by (induction w arbitrary: l) auto
  have cp: "copy_unescaped (p @ w @ [92]) (length p) (length p + length w + 2) = Some (w @ [0])" for p
    using assms(1)
  proof (induction w arbitrary: p)
    case Nil
    then show ?case
      by (simp add: copy_unescaped.simps read_src_def nth_append)
  next
    case (Cons c w)
    then show ?case
      using Cons.IH [of "p @ [c]"] by (subst copy_unescaped.simps) (simp add: read_src_def nth_append)
  qed
  let ?src = "34 # w @ [92]"
  have "token_step False False ?src = Inr ([AStr (Str0 (w @ [0]))], length w + 4)"
  proof -
    have q: "scan_quoted ?src 34 False 1 0 = Inr (length w + 3, 1)"
      using scan_quoted_end [OF assms(2), of 0 1 34 False] sc [of 1 0] by simp
    have k: "next_index (length w + 3) = Inr (length w + 4)"
      using next_index_ok [OF assms(2), of "length w + 3"] by simp
    have "copy_token ?src 1 (length w + 3) (length w + 3 - 1 - 1) = Inr (w @ [0])"
      using cp [of "[34]"] by (simp add: copy_token_def eval_nat_numeral)
    then show ?thesis
      unfolding token_step_def quoted_token_def using q k by (simp add: rfc822ctype_def)
  qed
  then have "tokenize_loop False False ?src [] = Inr [AStr (Str0 (w @ [0]))]"
    by (simp add: tokenize_loop.simps)
  then show ?thesis
    by (simp add: f_tokenize_def low_tokenize_def tokenize_args_def)
qed

theorem tokenize_final_backslash_witness:
  "f_tokenize [AStr (Str0 [34, 97, 92])] = Inr (AArr [AStr (Str0 [97, 0])])"
  using tokenize_final_backslash [of "[97]"] by simp

end
