(* ===== verification/Mime_Quote.thy ===== *)
theory Mime_Quote
  imports Mime_Tokenize
begin

text \<open>
  The construction of header fields in \<open>src/src/modules/MIME/mime.c\<close>: \<open>check_atom_chars\<close>,
  \<open>check_encword\<close>, \<open>f_quote\<close> and \<open>f_quote_labled\<close>, and the round trips with the tokenizer.
\<close>

section \<open>Atoms and encoded words\<close>

definition check_atom_chars :: "byte list \<Rightarrow> bool" where
  "check_atom_chars str \<longleftrightarrow>
     \<not> length str < 1 \<and> list_all (\<lambda>c. \<not> (c \<ge> 0x80 \<or> rfc822ctype c \<noteq> CT_ATOM)) str"

text \<open>The count of question marks, which gives up above two.\<close>

fun count_q :: "byte list \<Rightarrow> nat \<Rightarrow> nat option" where
  "count_q [] q = Some q"
| "count_q (c # cs) q =
     (if c = 63 then (if q + 1 > 2 then None else count_q cs (q + 1)) else count_q cs q)"

definition check_encword :: "byte list \<Rightarrow> bool" where
  "check_encword str \<longleftrightarrow>
     (if length str < 6 \<or> str ! 0 \<noteq> 61 \<or> str ! 1 \<noteq> 63 \<or>
         str ! (length str - 2) \<noteq> 63 \<or> str ! (length str - 1) \<noteq> 61 then False
      else count_q (take (length str - 4) (drop 2 str)) 0 = Some 2)"

section \<open>The string builder\<close>

text \<open>A builder holds 32-bit characters; the finished string is narrow when all of them fit.\<close>

type_synonym builder = "32 word list"

definition putchar :: "builder \<Rightarrow> int \<Rightarrow> builder" where
  "putchar buf ch = buf @ [word_of_int ch]"

definition strcat :: "builder \<Rightarrow> byte list \<Rightarrow> builder" where
  "strcat buf s = buf @ map ucast s"

definition finish_builder :: "builder \<Rightarrow> pike_string" where
  "finish_builder buf =
     (if list_all (\<lambda>c. c < 256) buf then Str0 (map ucast buf) else StrW buf)"

section \<open>Quoting\<close>

text \<open>The escaping loops: a backslash before each character of \<open>special\<close>.\<close>

fun escape :: "byte list \<Rightarrow> byte list \<Rightarrow> byte list" where
  "escape special [] = []"
| "escape special (c # cs) = (if c \<in> set special then [92, c] else [c]) @ escape special cs"

definition word_text :: "byte list \<Rightarrow> byte list" where
  "word_text str =
     (if (length str > 5 \<and> str ! 0 = 61 \<and> str ! 1 = 63 \<and> check_encword str) \<or> check_atom_chars str
      then str
      else [34] @ escape [34, 92, 13] str @ [34])"

fun quote_loop :: "arg list \<Rightarrow> bool \<Rightarrow> builder \<Rightarrow> builder result" where
  "quote_loop [] prev_atom buf = Inr buf"
| "quote_loop (item # items) prev_atom buf =
     (case item of
        AInt i u \<Rightarrow> quote_loop items False (putchar buf i)
      | AStr (StrW w) \<Rightarrow> Inl Char_Out_Of_Range
      | AStr (Str0 str) \<Rightarrow>
          quote_loop items True
            (strcat (if prev_atom then putchar buf 32 else buf) (word_text str))
      | _ \<Rightarrow> Inl Wrong_Type_Of_Arg)"

definition f_quote :: "arg list \<Rightarrow> arg result" where
  "f_quote args =
     (case args of
        [AArr items] \<Rightarrow>
          (case quote_loop items False [] of
             Inl e \<Rightarrow> Inl e
           | Inr buf \<Rightarrow> Inr (AStr (finish_builder buf)))
      | [x] \<Rightarrow> Inl Wrong_Type_Of_Arg
      | _ \<Rightarrow> Inl Wrong_Number_Of_Args)"

text \<open>One labelled item with a narrow string: what is appended, and the next \<open>prev_atom\<close>.\<close>

definition quote_label :: "arg \<Rightarrow> byte list \<Rightarrow> bool \<Rightarrow> builder \<Rightarrow> (builder \<times> bool) result" where
  "quote_label label str prev_atom buf =
     (if label = str_lit ''word'' then
        Inr (strcat (if prev_atom then putchar buf 32 else buf) (word_text str), True)
      else if label = str_lit ''encoded-word'' then Inr (strcat buf str, True)
      else if label = str_lit ''comment'' then
        Inr (strcat buf ([40] @ escape [40, 41, 92, 13] str @ [41]), False)
      else if label = str_lit ''domain-literal'' then
        (if length str < 2 \<or> str ! 0 \<noteq> 91 \<or> str ! (length str - 1) \<noteq> 93
         then Inl Illegal_Domain_Literal
         else Inr (strcat buf ([91] @ escape [91, 93, 92, 13] (take (length str - 2) (drop 1 str)) @ [93]),
                False))
      else Inl Unknown_Label)"

fun quote_labled_loop :: "arg list \<Rightarrow> bool \<Rightarrow> builder \<Rightarrow> builder result" where
  "quote_labled_loop [] prev_atom buf = Inr buf"
| "quote_labled_loop (item # items) prev_atom buf =
     (case item of
        AArr (AStr label # val # _) \<Rightarrow>
          if AStr label = str_lit ''special'' then
            (case val of
               AInt i u \<Rightarrow> quote_labled_loop items False (putchar buf i)
             | _ \<Rightarrow> Inl Wrong_Type_Of_Arg)
          else
            (case val of
               AStr (Str0 str) \<Rightarrow>
                 (case quote_label (AStr label) str prev_atom buf of
                    Inl e \<Rightarrow> Inl e
                  | Inr (buf, prev_atom) \<Rightarrow> quote_labled_loop items prev_atom buf)
             | AStr (StrW w) \<Rightarrow> Inl Char_Out_Of_Range
             | _ \<Rightarrow> Inl Wrong_Type_Of_Arg)
      | _ \<Rightarrow> Inl Wrong_Type_Of_Arg)"

definition f_quote_labled :: "arg list \<Rightarrow> arg result" where
  "f_quote_labled args =
     (case args of
        [AArr items] \<Rightarrow>
          (case quote_labled_loop items False [] of
             Inl e \<Rightarrow> Inl e
           | Inr buf \<Rightarrow> Inr (AStr (finish_builder buf)))
      | [x] \<Rightarrow> Inl Wrong_Type_Of_Arg
      | _ \<Rightarrow> Inl Wrong_Number_Of_Args)"

section \<open>Narrow builders\<close>

lemma finish_narrow [simp]: "finish_builder (map ucast (s :: byte list)) = Str0 s"
proof -
  have u: "(ucast c :: 32 word) < 256" for c :: byte
    using uint_byte_bounds [of c] by (simp add: word_less_def uint_up_ucast is_up)
  have "map ucast (map ucast s :: 32 word list) = s"
    by (simp add: o_def ucast_up_ucast_id is_up)
  then show ?thesis
    by (simp add: finish_builder_def list_all_iff u)
qed

lemma putchar_narrow:
  "0 \<le> v \<and> v < 256 \<Longrightarrow> putchar (map ucast s) v = map ucast (s @ [word_of_int v :: byte])"
  by (simp add: putchar_def) (rule word_uint_eqI, simp add: uint_up_ucast is_up uint_word_of_int)

lemma strcat_narrow: "strcat (map ucast s) t = map ucast (s @ t)"
  by (simp add: strcat_def)

section \<open>Escaping and scanning\<close>

lemma length_escape: "length w \<le> length (escape S w)"
  by (induction w) auto

lemma escape_none: "length (escape S w) = length w \<Longrightarrow> escape S w = w"
proof (induction w)
  case (Cons c w)
  then show ?case
    using length_escape [of w S] by (auto split: if_splits)
qed simp

lemma scan_escape:
  assumes "stop \<in> set S" "92 \<in> set S" "stop \<noteq> 92"
  shows "quoted_end stop False (escape S w @ stop # rest) l e =
    (l + length (escape S w), e + (length (escape S w) - length w))"
proof (induction w arbitrary: l e)
  case (Cons c w)
  then show ?case
    using assms length_escape [of w S] by auto
qed simp

lemma comment_escape_end:
  assumes "40 \<in> set S" "41 \<in> set S" "92 \<in> set S"
  shows "comment_end (escape S w @ 41 # rest) 1 l e =
    (l + length (escape S w), e + (length (escape S w) - length w))"
proof (induction w arbitrary: l e)
  case (Cons c w)
  then show ?case
    using assms length_escape [of w S] by auto
qed simp

lemma copy_here: "copy_unescaped src l l = Some []"
  by (simp add: copy_unescaped.simps)

lemma copy_plain:
  "c \<noteq> 92 \<Longrightarrow> copy_unescaped (p @ c # q) (length p) (length p + Suc n) =
    map_option ((#) c) (copy_unescaped (p @ c # q) (Suc (length p)) (Suc (length p) + n))"
  by (subst copy_unescaped.simps) (simp add: read_src_def nth_append)

lemma copy_esc:
  "copy_unescaped (p @ 92 # c # q) (length p) (length p + Suc (Suc n)) =
    map_option ((#) c) (copy_unescaped (p @ 92 # c # q) (Suc (Suc (length p))) (Suc (Suc (length p)) + n))"
  by (subst copy_unescaped.simps) (auto simp: read_src_def nth_append split: option.splits)

lemma copy_escape:
  assumes "92 \<in> set S"
  shows "copy_unescaped (p @ escape S w @ q) (length p) (length p + length (escape S w)) = Some w"
proof (induction w arbitrary: p)
  case (Cons c w)
  show ?case
  proof (cases "c \<in> set S")
    case True
    then show ?thesis
      using Cons [of "p @ [92, c]"] copy_esc [of p c "escape S w @ q" "length (escape S w)"] by simp
  next
    case False
    then have "c \<noteq> 92"
      using assms by auto
    then show ?thesis
      using Cons [of "p @ [c]"] False copy_plain [of c p "escape S w @ q" "length (escape S w)"] by simp
  qed
qed (simp add: copy_here)

lemma copy_escape_stop:
  assumes "92 \<in> set S" "x \<noteq> 92"
  shows "copy_unescaped (p @ escape S w @ x # q) (length p) (length p + length (escape S w) + 1) =
    Some (w @ [x])"
proof (induction w arbitrary: p)
  case Nil
  then show ?case
    using copy_plain [OF assms(2), of p q 0] by (simp add: copy_here)
next
  case (Cons c w)
  show ?case
  proof (cases "c \<in> set S")
    case True
    then show ?thesis
      using Cons [of "p @ [92, c]"] copy_esc [of p c "escape S w @ x # q" "Suc (length (escape S w))"]
      by simp
  next
    case False
    then have "c \<noteq> 92"
      using assms by auto
    then show ?thesis
      using Cons [of "p @ [c]"] False copy_plain [of c p "escape S w @ x # q" "Suc (length (escape S w))"]
      by simp
  qed
qed

lemma copy_bracketed:
  assumes "92 \<in> set S" "x \<noteq> 92" "y \<noteq> 92"
  shows "copy_unescaped (y # escape S w @ x # q) 0 (length (escape S w) + 2) = Some (y # w @ [x])"
  using copy_escape_stop [OF assms(1,2), of "[y]" w q]
    copy_plain [OF assms(3), of "[]" "escape S w @ x # q" "length (escape S w) + 1"]
  by simp

section \<open>Tokens and their text\<close>

datatype token = Special byte | Word "byte list" | Encoded "byte list" | Comment "byte list"
  | Domain "byte list"

primrec labelled :: "token \<Rightarrow> arg" where
  "labelled (Special c) = push_token True ''special'' (AInt (uint c) False)"
| "labelled (Word w) = push_token True ''word'' (AStr (Str0 w))"
| "labelled (Encoded w) = push_token True ''encoded-word'' (AStr (Str0 w))"
| "labelled (Comment w) = push_token True ''comment'' (AStr (Str0 w))"
| "labelled (Domain w) = push_token True ''domain-literal'' (AStr (Str0 ([91] @ w @ [93])))"

primrec token_text :: "token \<Rightarrow> byte list" where
  "token_text (Special c) = [c]"
| "token_text (Word w) = word_text w"
| "token_text (Encoded w) = w"
| "token_text (Comment w) = [40] @ escape [40, 41, 92, 13] w @ [41]"
| "token_text (Domain w) = [91] @ escape [91, 93, 92, 13] w @ [93]"

text \<open>The tokens that can come back: a special character that does not open a longer token, a
  word that is not an encoded word, an encoded word without white space.\<close>

primrec token_ok :: "token \<Rightarrow> bool" where
  "token_ok (Special c) \<longleftrightarrow> rfc822ctype c \<in> {CT_SPECIAL, CT_RBRACK, CT_RPAR, CT_EQUAL}"
| "token_ok (Word w) \<longleftrightarrow> \<not> check_encword w"
| "token_ok (Encoded w) \<longleftrightarrow> check_encword w \<and> list_all (\<lambda>c. \<not> ctl_or_white c) w"
| "token_ok (Comment w) \<longleftrightarrow> True"
| "token_ok (Domain w) \<longleftrightarrow> True"

text \<open>What may follow a token directly.\<close>

definition follows :: "token \<Rightarrow> byte list \<Rightarrow> bool" where
  "follows t rest \<longleftrightarrow> rest = [] \<or>
     (case t of
        Special c \<Rightarrow> c = 61 \<longrightarrow> hd rest \<noteq> 63
      | Word w \<Rightarrow> rfc822ctype (hd rest) \<noteq> CT_ATOM
      | _ \<Rightarrow> True)"

lemma check_encword_parts:
  assumes "check_encword w"
  obtains m where "w = 61 # 63 # m @ [63, 61]" "count_q m 0 = Some 2" "length m \<ge> 2"
proof -
  have l: "\<not> length w < 6" "w ! 0 = 61" "w ! 1 = 63" "w ! (length w - 2) = 63"
    "w ! (length w - 1) = 61" "count_q (take (length w - 4) (drop 2 w)) 0 = Some 2"
    using assms unfolding check_encword_def by (auto split: if_splits)
  obtain a b v where v: "w = a # b # v" "length v \<ge> 4"
    using l(1) by (cases w rule: remdups_adj.cases) auto
  obtain u d where "v = u @ [d]"
    using v(2) by (cases v rule: rev_cases) auto
  moreover from this obtain m c where "u = m @ [c]"
    using v(2) by (cases u rule: rev_cases) auto
  ultimately have m: "w = a # b # m @ [c, d]" "length m \<ge> 2"
    using v by auto
  then have "a = 61 \<and> b = 63 \<and> c = 63 \<and> d = 61" "count_q m 0 = Some 2"
    using l(2-6) by (auto simp: nth_append nth_Cons')
  then show ?thesis
    using that m by auto
qed

lemma scan_encoded_count:
  assumes "count_q m q = Some 2" "list_all (\<lambda>c. \<not> ctl_or_white c) m" "q \<le> 2"
  shows "encoded_end (m @ 63 # r) l q = (l + length m + 1, 3)"
  using assms
proof (induction m arbitrary: q l)
  case Nil
  then show ?case
    by (cases r) auto
next
  case (Cons c m)
  then show ?case
    by (auto split: if_splits)
qed

lemma encoded_step:
  assumes "check_encword w" "list_all (\<lambda>c. \<not> ctl_or_white c) w"
  shows "short (w @ rest) \<Longrightarrow> encoded_word_len (w @ rest) = Inr (length w)" "hd w = 61" "w \<noteq> []"
proof -
  obtain m where m: "w = 61 # 63 # m @ [63, 61]" "count_q m 0 = Some 2" "length m \<ge> 2"
    using check_encword_parts [OF assms(1)] .
  show "hd w = 61" "w \<noteq> []"
    using m by auto
  assume sh: "short (w @ rest)"
  let ?l = "length m + 3"
  have "scan_encoded (w @ rest) 2 0 = Inr (?l, 3)"
    using scan_encoded_end [OF sh, of 2 0] scan_encoded_count [OF m(2), of "61 # rest" 2] assms(2) m(1) by simp
  moreover have "length (w @ rest) > 5" "?l < length (w @ rest)" "read_char (w @ rest) 1 = Inr 63"
    "read_char (w @ rest) ?l = Inr 61" "length w = ?l + 1"
    using m(1,3) by (auto simp: read_char_def nth_append)
  moreover have "next_index ?l = Inr (?l + 1)"
    using next_index_ok [OF sh, of ?l] m(1) by simp
  ultimately show "encoded_word_len (w @ rest) = Inr (length w)"
    by (simp add: encoded_word_len_def)
qed

lemma scan_atom_text:
  assumes "list_all (\<lambda>c. rfc822ctype c = CT_ATOM) w" "rest = [] \<or> rfc822ctype (hd rest) \<noteq> CT_ATOM"
  shows "atom_end (w @ rest) l = l + length w"
  using assms
proof (induction w arbitrary: l)
  case Nil
  then show ?case
    by (cases rest) auto
qed auto

lemma ctypes [simp]:
  "rfc822ctype 61 = CT_EQUAL" "rfc822ctype 34 = CT_QUOTE" "rfc822ctype 40 = CT_LPAR"
  "rfc822ctype 91 = CT_LBRACK" "rfc822ctype 32 = CT_WHITE"
  by (simp_all add: rfc822ctype_def)

lemma word_step:
  assumes "\<not> check_encword w" "rest = [] \<or> rfc822ctype (hd rest) \<noteq> CT_ATOM" "short (word_text w @ rest)"
  shows "token_step True False (word_text w @ rest) = Inr ([labelled (Word w)], length (word_text w))"
proof (cases "check_atom_chars w")
  case True
  then have a: "list_all (\<lambda>c. rfc822ctype c = CT_ATOM) w" "w \<noteq> []"
    by (auto simp: check_atom_chars_def list_all_iff)
  then obtain c v where w: "w = c # v"
    by (cases w) auto
  have t: "word_text w = w"
    using True by (simp add: word_text_def)
  have "atom_end (v @ rest) 1 = length w"
    using scan_atom_text [of v rest 1] a(1) assms(2) w by simp
  then have "scan_atom (w @ rest) 1 = Inr (length w)"
    using scan_atom_end [of "w @ rest" 1] assms(3) w t by simp
  then show ?thesis
    using a True w unfolding t by (simp add: token_step_def atom_token_def read_chars_def)
next
  case False
  let ?e = "escape [34, 92, 13] w"
  have t: "word_text w = [34] @ ?e @ [34]"
    using False assms(1) by (auto simp: word_text_def)
  let ?src = "34 # ?e @ 34 # rest"
  have sh: "short ?src"
    using assms(3) t by simp
  have "scan_quoted ?src 34 False 1 0 = Inr (1 + length ?e, length ?e - length w)"
    using scan_quoted_end [OF sh, of 0 1] scan_escape [of 34 "[34, 92, 13]" w rest 1 0] by simp
  moreover have "next_index (1 + length ?e) = Inr (2 + length ?e)"
    using next_index_ok [OF sh, of "1 + length ?e"] by simp
  moreover note t
  moreover have "copy_unescaped ([34] @ ?e @ 34 # rest) 1 (1 + length ?e) = Some w"
    using copy_escape [of "[34, 92, 13]" "[34]" w "34 # rest"] by simp
  moreover have "length ?e - length w = 0 \<Longrightarrow> ?e = w"
    using escape_none [of "[34, 92, 13]" w] length_escape [of w "[34, 92, 13]"] by simp
  moreover have "length w = 1 + length ?e - (length ?e - length w) - 1"
    using length_escape [of w "[34, 92, 13]"] by simp
  ultimately show ?thesis
    by (cases "length ?e \<le> length w") (simp_all add: token_step_def quoted_token_def copy_token_def read_chars_def)
qed

lemma special_step:
  assumes "rfc822ctype c \<in> {CT_SPECIAL, CT_RBRACK, CT_RPAR, CT_EQUAL}"
    "c = 61 \<Longrightarrow> rest = [] \<or> hd rest \<noteq> 63"
  shows "token_step True False (c # rest) = Inr ([labelled (Special c)], 1)"
proof -
  have "rfc822ctype c = CT_EQUAL \<Longrightarrow> c = 61"
    by (auto simp: rfc822ctype_def split: if_splits)
  then have "rfc822ctype c = CT_EQUAL \<Longrightarrow> encoded_word_len (c # rest) = Inr 0"
    using assms(2) by (cases rest) (auto simp: encoded_word_len_def read_char_def)
  then show ?thesis
    using assms(1) by (auto simp: token_step_def special_token_def)
qed

lemma comment_step:
  assumes "short (token_text (Comment w) @ rest)"
  shows "token_step True False (token_text (Comment w) @ rest) =
    Inr ([labelled (Comment w)], length (token_text (Comment w)))"
proof -
  let ?e = "escape [40, 41, 92, 13] w"
  let ?src = "40 # ?e @ 41 # rest"
  have sh: "short ?src"
    using assms by simp
  have "scan_comment ?src 1 1 0 = Inr (1 + length ?e, length ?e - length w)"
    using scan_comment_end [OF sh, of 0 1 1] comment_escape_end [of "[40, 41, 92, 13]" w rest 1 0] by simp
  moreover have "next_index (1 + length ?e) = Inr (2 + length ?e)"
    using next_index_ok [OF sh, of "1 + length ?e"] by simp
  moreover have "copy_unescaped ([40] @ ?e @ 41 # rest) 1 (1 + length ?e) = Some w"
    using copy_escape [of "[40, 41, 92, 13]" "[40]" w "41 # rest"] by simp
  moreover have "length w = 1 + length ?e - (length ?e - length w) - 1"
    using length_escape [of w "[40, 41, 92, 13]"] by simp
  ultimately show ?thesis
    by (simp add: token_step_def comment_token_def copy_token_def)
qed

lemma domain_step:
  assumes "short (token_text (Domain w) @ rest)"
  shows "token_step True False (token_text (Domain w) @ rest) =
    Inr ([labelled (Domain w)], length (token_text (Domain w)))"
proof -
  let ?e = "escape [91, 93, 92, 13] w"
  let ?src = "91 # ?e @ 93 # rest"
  have sh: "short ?src"
    using assms by simp
  have "scan_quoted ?src 93 False 1 0 = Inr (1 + length ?e, length ?e - length w)"
    using scan_quoted_end [OF sh, of 0 1] scan_escape [of 93 "[91, 93, 92, 13]" w rest 1 0] by simp
  moreover have "next_index (1 + length ?e) = Inr (2 + length ?e)"
    using next_index_ok [OF sh, of "1 + length ?e"] by simp
  moreover have "copy_unescaped (91 # ?e @ 93 # rest) 0 (length ?e + 2) = Some (91 # w @ [93])"
    by (rule copy_bracketed) simp_all
  moreover have "length w \<le> length ?e"
    by (rule length_escape)
  ultimately show ?thesis
    by (simp add: token_step_def domain_token_def copy_token_def)
qed

lemma token_text_step:
  assumes "token_ok t" "follows t rest" "short (token_text t @ rest)"
  shows "token_step True False (token_text t @ rest) = Inr ([labelled t], length (token_text t))"
proof (cases t)
  case (Special c)
  then show ?thesis
    using special_step [of c rest] assms by (auto simp: follows_def)
next
  case (Word w)
  then show ?thesis
    using word_step [of w rest] assms by (auto simp: follows_def)
next
  case (Encoded w)
  then show ?thesis
    using encoded_step(1) [of w rest] encoded_step(2,3) [of w] assms by (auto simp: token_step_def read_chars_def)
next
  case (Comment w)
  then show ?thesis
    using comment_step [of w rest] assms(3) by (simp del: token_text.simps)
next
  case (Domain w)
  then show ?thesis
    using domain_step [of w rest] assms(3) by (simp del: token_text.simps)
qed

section \<open>The text of a list of tokens\<close>

text \<open>The text the quoting functions build: \<open>sp t\<close> tells whether \<open>t\<close> is separated from a word
  before it.\<close>

primrec word_like :: "token \<Rightarrow> bool" where
  "word_like (Special c) \<longleftrightarrow> False"
| "word_like (Word w) \<longleftrightarrow> True"
| "word_like (Encoded w) \<longleftrightarrow> True"
| "word_like (Comment w) \<longleftrightarrow> False"
| "word_like (Domain w) \<longleftrightarrow> False"

fun tokens_text :: "(token \<Rightarrow> bool) \<Rightarrow> bool \<Rightarrow> token list \<Rightarrow> byte list" where
  "tokens_text sp prev [] = []"
| "tokens_text sp prev (t # ts) =
     (if prev \<and> sp t then [32] else []) @ token_text t @ tokens_text sp (word_like t) ts"

text \<open>The lists that come back: an equals sign is not followed by a question mark, which could
  open an encoded word.\<close>

fun tokens_ok :: "token list \<Rightarrow> bool" where
  "tokens_ok [] \<longleftrightarrow> True"
| "tokens_ok (t # ts) \<longleftrightarrow> token_ok t \<and> tokens_ok ts \<and>
     (t = Special 61 \<longrightarrow> ts = [] \<or> hd ts \<noteq> Special 63)"

lemma token_text_hd:
  assumes "token_ok t"
  shows "token_text t \<noteq> []" "t \<noteq> Special 63 \<Longrightarrow> hd (token_text t) \<noteq> 63"
    "\<not> (\<exists>w. t = Word w) \<Longrightarrow> rfc822ctype (hd (token_text t)) \<noteq> CT_ATOM"
proof -
  have q: "rfc822ctype 63 = CT_SPECIAL"
    by (simp add: rfc822ctype_def)
  show "token_text t \<noteq> []"
    using assms encoded_step by (cases t) (auto simp: word_text_def check_atom_chars_def)
  show "t \<noteq> Special 63 \<Longrightarrow> hd (token_text t) \<noteq> 63"
    using assms encoded_step(2) q
    by (cases t) (auto simp: word_text_def check_atom_chars_def list_all_iff dest: hd_in_set)
  show "\<not> (\<exists>w. t = Word w) \<Longrightarrow> rfc822ctype (hd (token_text t)) \<noteq> CT_ATOM"
    using assms encoded_step(2) by (cases t) auto
qed

lemma tokens_text_follows:
  assumes "tokens_ok (t # ts)" "\<forall>w. sp (Word w)"
  shows "follows t (tokens_text sp (word_like t) ts)"
proof (cases ts)
  case Nil
  then show ?thesis
    by (simp add: follows_def)
next
  case (Cons u us)
  have u: "token_ok u" "t = Special 61 \<Longrightarrow> u \<noteq> Special 63"
    using assms(1) Cons by auto
  show ?thesis
  proof (cases "word_like t \<and> sp u")
    case True
    then show ?thesis
      using Cons by (auto simp: follows_def split: token.splits)
  next
    case False
    then show ?thesis
      using token_text_hd [OF u(1)] u(2) assms(2) Cons
      by (auto simp: follows_def split: token.splits)
  qed
qed

lemma tokenize_tokens_text:
  assumes "tokens_ok ts" "\<forall>w. sp (Word w)" "short (tokens_text sp prev ts)"
  shows "tokenize_loop True False (tokens_text sp prev ts) acc = Inr (acc @ map labelled ts)"
  using assms(1,3)
proof (induction ts arbitrary: prev acc)
  case Nil
  then show ?case
    by (simp add: tokenize_loop.simps)
next
  case (Cons t ts)
  let ?r = "tokens_text sp (word_like t) ts"
  have sh: "short (token_text t @ ?r)" "short ?r"
    using Cons.prems(2) by (auto split: if_splits)
  have "tokenize_loop True False (token_text t @ ?r) acc = Inr (acc @ map labelled (t # ts))" for acc
    using token_text_step [OF _ tokens_text_follows [OF Cons.prems(1) assms(2)] sh(1)]
      token_text_hd(1) [of t] Cons.IH [OF _ sh(2)] Cons.prems(1)
    by (subst tokenize_loop.simps) simp
  moreover have "tokenize_loop True False (32 # r) acc = tokenize_loop True False r acc" for r acc
    by (subst tokenize_loop.simps) (simp add: token_step_def)
  ultimately show ?case
    by simp
qed

section \<open>What the quoting functions build\<close>

lemma quote_labled_text:
  assumes "tokens_ok ts"
  shows "quote_labled_loop (map labelled ts) prev (map ucast s) =
    Inr (map ucast (s @ tokens_text (\<lambda>t. case t of Word _ \<Rightarrow> True | _ \<Rightarrow> False) prev ts))"
  using assms
proof (induction ts arbitrary: prev s)
  case (Cons t ts)
  have lits: "str_lit ''word'' \<noteq> str_lit ''special''" "str_lit ''encoded-word'' \<noteq> str_lit ''special''"
    "str_lit ''comment'' \<noteq> str_lit ''special''" "str_lit ''domain-literal'' \<noteq> str_lit ''special''"
    "str_lit ''word'' \<noteq> str_lit ''encoded-word''" "str_lit ''comment'' \<noteq> str_lit ''word''"
    "str_lit ''comment'' \<noteq> str_lit ''encoded-word''" "str_lit ''domain-literal'' \<noteq> str_lit ''word''"
    "str_lit ''domain-literal'' \<noteq> str_lit ''encoded-word''" "str_lit ''domain-literal'' \<noteq> str_lit ''comment''"
    by (simp_all add: str_lit_def)
  have lab: "\<exists>l. str_lit x = AStr l" for x
    by (simp add: str_lit_def)
  have p32: "putchar (map ucast s) 32 = map ucast (s @ [32 :: byte])" for s
    using putchar_narrow [of 32 s] by simp
  show ?case
  proof (cases t)
    case (Special c)
    then show ?thesis
      using Cons putchar_narrow [of "uint c" s] lab [of "''special''"]
      by (auto simp: push_token_def simp del: map_append)
  next
    case (Word w)
    then show ?thesis
      using Cons lab [of "''word''"] lits
      by (auto simp: push_token_def quote_label_def p32 strcat_narrow simp del: map_append)
  next
    case (Encoded w)
    then show ?thesis
      using Cons lab [of "''encoded-word''"] lits
      by (auto simp: push_token_def quote_label_def strcat_narrow simp del: map_append)
  next
    case (Comment w)
    then show ?thesis
      using Cons lab [of "''comment''"] lits
      by (auto simp: push_token_def quote_label_def strcat_narrow simp del: map_append)
  next
    case (Domain w)
    then show ?thesis
      using Cons lab [of "''domain-literal''"] lits
      by (auto simp: push_token_def quote_label_def strcat_narrow nth_append simp del: map_append)
  qed
qed simp

text \<open>The tokens \<open>quote\<close> knows, without their labels.\<close>

primrec plain :: "token \<Rightarrow> arg" where
  "plain (Special c) = AInt (uint c) False"
| "plain (Word w) = AStr (Str0 w)"
| "plain (Encoded w) = AStr (Str0 w)"
| "plain (Comment w) = AOther"
| "plain (Domain w) = AOther"

primrec quotable :: "token \<Rightarrow> bool" where
  "quotable (Special c) \<longleftrightarrow> True"
| "quotable (Word w) \<longleftrightarrow> True"
| "quotable (Encoded w) \<longleftrightarrow> True"
| "quotable (Comment w) \<longleftrightarrow> False"
| "quotable (Domain w) \<longleftrightarrow> False"

lemma quote_text:
  assumes "tokens_ok ts" "list_all quotable ts"
  shows "quote_loop (map plain ts) prev (map ucast s) = Inr (map ucast (s @ tokens_text word_like prev ts))"
  using assms
proof (induction ts arbitrary: prev s)
  case (Cons t ts)
  have p32: "putchar (map ucast s) 32 = map ucast (s @ [32 :: byte])" for s
    using putchar_narrow [of 32 s] by simp
  show ?case
  proof (cases t)
    case (Special c)
    then show ?thesis
      using Cons putchar_narrow [of "uint c" s] by (auto simp del: map_append)
  next
    case (Word w)
    then show ?thesis
      using Cons by (auto simp: p32 strcat_narrow simp del: map_append)
  next
    case (Encoded w)
    have "word_text w = w"
      using Cons.prems Encoded by (auto simp: word_text_def elim!: check_encword_parts)
    then show ?thesis
      using Cons Encoded by (auto simp: p32 strcat_narrow simp del: map_append)
  qed (use Cons in auto)
qed simp

lemma unlabel_labelled: "list_all quotable ts \<Longrightarrow> unlabel (map labelled ts) = map plain ts"
proof (induction ts)
  case (Cons t ts)
  then show ?case
    by (cases t) (simp_all add: push_token_def)
qed simp

section \<open>Properties\<close>

text \<open>C24: Tokenizing what \<open>quote_labled\<close> builds gives the tokens back, comments and domain literals
  with any characters included, for the lists of tokens that satisfy \<open>tokens_ok\<close> and make a text of
  fewer than \<open>2 ^ 31 - 2\<close> characters. \<open>tokens_ok\<close> excludes what does not come back: a special character
  that opens a longer token or is no special character, a word of the form of an encoded word
  (which comes back as one), an encoded word with white space or control characters or not of the
  form of an encoded word, and a question mark after an equals sign.\<close>

theorem quote_labled_roundtrip:
  assumes "tokens_ok ts" "short (tokens_text (\<lambda>t. case t of Word _ \<Rightarrow> True | _ \<Rightarrow> False) False ts)"
  shows "\<exists>s. f_quote_labled [AArr (map labelled ts)] = Inr (AStr (Str0 s)) \<and>
    f_tokenize_labled [AStr (Str0 s)] = Inr (AArr (map labelled ts))"
  using quote_labled_text [OF assms(1), of False "[]"]
    tokenize_tokens_text [OF assms(1) _ assms(2), of "[]"]
  by (simp add: f_quote_labled_def f_tokenize_labled_def low_tokenize_def tokenize_args_def)

theorem quote_labled_roundtrip_witness:
  "\<exists>s. f_quote_labled [AArr (map labelled [Word [97, 32], Comment [40, 92], Special 61, Domain [93]])]
      = Inr (AStr (Str0 s)) \<and>
    f_tokenize_labled [AStr (Str0 s)]
      = Inr (AArr (map labelled [Word [97, 32], Comment [40, 92], Special 61, Domain [93]]))"
  by (rule quote_labled_roundtrip) (simp_all add: check_encword_def word_text_def check_atom_chars_def)

text \<open>Tokenizing what \<open>quote\<close> builds from special characters, words and encoded words gives
  them back, for the lists that satisfy \<open>tokens_ok\<close> (above is what it excludes) and make a text of
  fewer than \<open>2 ^ 31 - 2\<close> characters. That the function is no inverse of \<open>tokenize\<close> for all lists, as
  its documentation has it, is shown by \<open>quote_encoded_word_space\<close> below.\<close>

theorem quote_roundtrip:
  assumes "tokens_ok ts" "list_all quotable ts" "short (tokens_text word_like False ts)"
  shows "\<exists>s. f_quote [AArr (map plain ts)] = Inr (AStr (Str0 s)) \<and>
    f_tokenize [AStr (Str0 s)] = Inr (AArr (map plain ts))"
proof -
  let ?s = "tokens_text word_like False ts"
  have "f_tokenize_labled [AStr (Str0 ?s)] = Inr (AArr (map labelled ts))"
    using tokenize_tokens_text [OF assms(1) _ assms(3), of "[]"]
    by (simp add: f_tokenize_labled_def low_tokenize_def tokenize_args_def)
  then have "f_tokenize [AStr (Str0 ?s)] = Inr (AArr (map plain ts))"
    using tokenize_loop_labels [OF assms(3), of False "[]"] unlabel_labelled [OF assms(2)]
    by (auto simp: f_tokenize_def f_tokenize_labled_def low_tokenize_def tokenize_args_def
        split: sum.splits)
  then show ?thesis
    using quote_text [OF assms(1,2), of False "[]"] by (simp add: f_quote_def)
qed

theorem quote_roundtrip_witness:
  "\<exists>s. f_quote [AArr (map plain [Word [97], Word [], Special 64, Word [34, 92]])] = Inr (AStr (Str0 s)) \<and>
    f_tokenize [AStr (Str0 s)] = Inr (AArr (map plain [Word [97], Word [], Special 64, Word [34, 92]]))"
  by (rule quote_roundtrip) (simp_all add: check_encword_def rfc822ctype_def word_text_def check_atom_chars_def)

text \<open>A string of the form of an encoded word is written as it is even when it holds a space,
  so that \<open>tokenize\<close> does not give it back: quoting \<open>=?a?b?c d?=\<close> and tokenizing the result
  gives ten tokens.\<close>

theorem quote_encoded_word_space:
  "f_quote [AArr [AStr (Str0 (map of_char ''=?a?b?c d?=''))]]
     = Inr (AStr (Str0 (map of_char ''=?a?b?c d?=''))) \<and>
   f_tokenize [AStr (Str0 (map of_char ''=?a?b?c d?=''))] =
     Inr (AArr [AInt 61 False, AInt 63 False, AStr (Str0 (map of_char ''a'')), AInt 63 False,
       AStr (Str0 (map of_char ''b'')), AInt 63 False, AStr (Str0 (map of_char ''c'')),
       AStr (Str0 (map of_char ''d'')), AInt 63 False, AInt 61 False])"
  by code_simp

end
