(* ===== verification/Svalue.thy ===== *)
theory Svalue
  imports Main "HOL-Library.Word"
begin

text \<open>
  Pike values (\<open>src/src/svalue.h\<close>, \<open>src/src/svalue.c\<close>): the tagged union \<open>struct svalue\<close>, the
  tests for truth, destructedness, identity and equality, and the hash function of mappings.
  What the runtime finds behind a pointer (the program of an object, the operators a program
  overloads, the contents of a trampoline) is a \<open>world\<close>.
\<close>

unbundle bit_operations_syntax

section \<open>Values\<close>

type_synonym addr = "64 word"

text \<open>An integer has a subtype (\<open>NUMBER_NUMBER\<close> 0, \<open>NUMBER_UNDEFINED\<close> 1, \<open>NUMBER_DESTRUCTED\<close> 2),
  a float is its 64-bit pattern, every other value a pointer; objects and functions carry the
  index of an inherit or an identifier.\<close>

datatype svalue =
    VInt "64 word" nat
  | VFloat "64 word"
  | VArray addr
  | VMapping addr
  | VMultiset addr
  | VObject addr nat
  | VFunction addr nat
  | VProgram addr
  | VString addr
  | VType addr

text \<open>\<open>enum PIKE_TYPE\<close>: the types that occur in arrays and mappings.\<close>

primrec typeof :: "svalue \<Rightarrow> nat" where
  "typeof (VInt i s) = 0"
| "typeof (VFloat f) = 1"
| "typeof (VArray a) = 8"
| "typeof (VMapping a) = 9"
| "typeof (VMultiset a) = 10"
| "typeof (VObject a s) = 11"
| "typeof (VFunction a s) = 12"
| "typeof (VProgram a) = 13"
| "typeof (VString a) = 14"
| "typeof (VType a) = 15"

definition function_builtin :: nat where
  "function_builtin = 65535"

text \<open>The reference counted types have bit 3 set.\<close>

definition refcounted :: "svalue \<Rightarrow> bool" where
  "refcounted v \<longleftrightarrow> typeof v AND 8 = 8"

abbreviation is_object :: "svalue \<Rightarrow> bool" where
  "is_object v \<equiv> typeof v = 11"

section \<open>The world behind the pointers\<close>

text \<open>
  \<open>prog_of\<close>: the program of an object, \<open>None\<close> when it is destructed. \<open>lfun_eq\<close>, \<open>lfun_hash\<close>,
  \<open>lfun_not\<close>: the operators \<open>`==\<close>, \<open>__hash\<close> and \<open>`!\<close> that the program of an inherit of an object
  defines, as functions to the value they return. \<open>trampoline\<close>: the function and frame that a
  trampoline object holds, with \<open>tramp_object\<close> the object of that frame.
\<close>

record world =
  prog_of :: "addr \<Rightarrow> addr option"
  lfun_eq :: "addr \<Rightarrow> nat \<Rightarrow> (svalue \<Rightarrow> svalue) option"
  lfun_hash :: "addr \<Rightarrow> nat \<Rightarrow> svalue option"
  lfun_not :: "addr \<Rightarrow> nat \<Rightarrow> svalue option"
  trampoline_program :: addr
  trampoline :: "addr \<Rightarrow> (64 word \<times> addr) option"
  tramp_object :: "addr \<Rightarrow> addr"
  lfun_call :: nat
  is_prototype :: "addr \<Rightarrow> nat \<Rightarrow> bool"
  program_from_function :: "addr \<Rightarrow> nat \<Rightarrow> addr option"
  is_bignum :: "addr \<Rightarrow> bool"

text \<open>\<open>IS_DESTRUCTED\<close> and \<open>safe_check_destructed\<close>.\<close>

definition tramp_dead :: "world \<Rightarrow> addr \<Rightarrow> bool" where
  "tramp_dead w p \<longleftrightarrow> (case trampoline w p of None \<Rightarrow> False
     | Some (func, frame) \<Rightarrow> prog_of w (tramp_object w frame) = None)"

definition is_destructed :: "world \<Rightarrow> svalue \<Rightarrow> bool" where
  "is_destructed w v \<longleftrightarrow>
     (case v of
        VObject p s \<Rightarrow> prog_of w p = None
      | VFunction p s \<Rightarrow> s \<noteq> function_builtin \<and>
          (prog_of w p = None \<or>
           prog_of w p = Some (trampoline_program w) \<and> tramp_dead w p \<and> s = lfun_call w)
      | _ \<Rightarrow> False)"

definition safe_check_destructed :: "world \<Rightarrow> svalue \<Rightarrow> svalue" where
  "safe_check_destructed w v = (if is_destructed w v then VInt 0 0 else v)"

text \<open>\<open>check_destructed\<close> replaces the value itself, by the zero that tells of a destructed object
  (\<open>NUMBER_DESTRUCTED\<close>).\<close>

definition check_destructed :: "world \<Rightarrow> svalue \<Rightarrow> svalue" where
  "check_destructed w v = (if is_destructed w v then VInt 0 2 else v)"

text \<open>\<open>complex_svalue_is_true\<close> and \<open>UNSAFE_IS_ZERO\<close>.\<close>

definition svalue_is_true :: "world \<Rightarrow> svalue \<Rightarrow> bool" where
  "svalue_is_true w v =
     (case v of
        VFunction p s \<Rightarrow>
          if s = function_builtin then True
          else (case prog_of w p of
                  None \<Rightarrow> False
                | Some pr \<Rightarrow>
                    if pr = trampoline_program w \<and> (trampoline w p = None \<or> tramp_dead w p) then False
                    else \<not> is_prototype w p s)
      | VObject p s \<Rightarrow>
          (case prog_of w p of
             None \<Rightarrow> False
           | Some pr \<Rightarrow>
               (case lfun_not w p s of
                  None \<Rightarrow> True
                | Some (VInt i t) \<Rightarrow> i = 0
                | Some _ \<Rightarrow> False))
      | VInt i s \<Rightarrow> i \<noteq> 0
      | _ \<Rightarrow> True)"

definition is_zero :: "world \<Rightarrow> svalue \<Rightarrow> bool" where
  "is_zero w v =
     (case v of
        VInt i s \<Rightarrow> i = 0
      | VObject p s \<Rightarrow> \<not> svalue_is_true w v
      | VFunction p s \<Rightarrow> \<not> svalue_is_true w v
      | _ \<Rightarrow> False)"

section \<open>Floats\<close>

text \<open>IEEE comparison of two doubles given as bit patterns.\<close>

definition is_nan :: "64 word \<Rightarrow> bool" where
  "is_nan f \<longleftrightarrow> f AND 0x7fffffffffffffff > 0x7ff0000000000000"

definition float_is_zero :: "64 word \<Rightarrow> bool" where
  "float_is_zero f \<longleftrightarrow> f AND 0x7fffffffffffffff = 0"

definition float_eq :: "64 word \<Rightarrow> 64 word \<Rightarrow> bool" where
  "float_eq f g \<longleftrightarrow> \<not> is_nan f \<and> \<not> is_nan g \<and> (f = g \<or> float_is_zero f \<and> float_is_zero g)"

section \<open>Identity\<close>

definition is_identical :: "svalue \<Rightarrow> svalue \<Rightarrow> bool" where
  "is_identical a b =
     (case (a, b) of
        (VObject p s, VObject q t) \<Rightarrow> p = q \<and> s = t
      | (VType p, VType q) \<Rightarrow> p = q
      | (VString p, VString q) \<Rightarrow> p = q
      | (VMultiset p, VMultiset q) \<Rightarrow> p = q
      | (VProgram p, VProgram q) \<Rightarrow> p = q
      | (VArray p, VArray q) \<Rightarrow> p = q
      | (VMapping p, VMapping q) \<Rightarrow> p = q
      | (VInt i s, VInt j t) \<Rightarrow> i = j
      | (VFunction p s, VFunction q t) \<Rightarrow> s = t \<and> p = q
      | (VFloat f, VFloat g) \<Rightarrow> float_eq f g
      | _ \<Rightarrow> False)"

section \<open>Equality\<close>

text \<open>The operator \<open>`==\<close> of an object, when its program has one, called with the other value.\<close>

definition call_eq :: "world \<Rightarrow> svalue \<Rightarrow> svalue \<Rightarrow> bool option" where
  "call_eq w obj other =
     (case obj of
        VObject p s \<Rightarrow>
          if prog_of w p = None then None
          else map_option (\<lambda>f. \<not> is_zero w (f other)) (lfun_eq w p s)
      | _ \<Rightarrow> None)"

text \<open>The labels \<open>b_is_obj\<close> and \<open>a_is_obj\<close>.\<close>

definition b_is_obj :: "world \<Rightarrow> svalue \<Rightarrow> svalue \<Rightarrow> bool" where
  "b_is_obj w a b = (case call_eq w b a of Some r \<Rightarrow> r | None \<Rightarrow> False)"

definition a_is_obj :: "world \<Rightarrow> svalue \<Rightarrow> svalue \<Rightarrow> bool" where
  "a_is_obj w a b =
     (case call_eq w a b of
        Some r \<Rightarrow> r
      | None \<Rightarrow> if \<not> is_object b then False else b_is_obj w a b)"

text \<open>Two functions with the same identifier: equal objects, or trampolines of the same function
  and frame.\<close>

definition function_eq :: "world \<Rightarrow> addr \<Rightarrow> nat \<Rightarrow> addr \<Rightarrow> nat \<Rightarrow> bool" where
  "function_eq w p s q t =
     (if s \<noteq> t then False
      else if p = q then True
      else if s \<noteq> function_builtin \<and> prog_of w p = Some (trampoline_program w) \<and>
        prog_of w q = Some (trampoline_program w)
      then (case (trampoline w p, trampoline w q) of
              (None, None) \<Rightarrow> True
            | (Some (f, fr), Some (g, gr)) \<Rightarrow> f = g \<and> fr = gr
            | _ \<Rightarrow> False)
      else False)"

definition is_eq :: "world \<Rightarrow> svalue \<Rightarrow> svalue \<Rightarrow> bool" where
  "is_eq w a0 b0 =
     (let a = safe_check_destructed w a0; b = safe_check_destructed w b0 in
      if typeof a \<noteq> typeof b then
        (case (a, b) of
           (VFunction p s, VProgram q) \<Rightarrow> program_from_function w p s = Some q
         | (VProgram q, VFunction p s) \<Rightarrow> program_from_function w p s = Some q
         | (VObject p s, VType q) \<Rightarrow> False
         | (VObject p s, _) \<Rightarrow> a_is_obj w a b
         | (VType q, VObject p s) \<Rightarrow> False
         | (_, VObject p s) \<Rightarrow> b_is_obj w a b
         | _ \<Rightarrow> False)
      else
        (case (a, b) of
           (VObject p s, VObject q t) \<Rightarrow>
             if p = q \<and> s = t then True
             else if prog_of w p \<noteq> None \<and> lfun_eq w p s \<noteq> None then a_is_obj w a b
             else if prog_of w q \<noteq> None \<and> lfun_eq w q t \<noteq> None then b_is_obj w a b
             else False
         | (VMultiset p, VMultiset q) \<Rightarrow> p = q
         | (VProgram p, VProgram q) \<Rightarrow> p = q
         | (VArray p, VArray q) \<Rightarrow> p = q
         | (VMapping p, VMapping q) \<Rightarrow> p = q
         | (VInt i s, VInt j t) \<Rightarrow> i = j
         | (VString p, VString q) \<Rightarrow> p = q
         | (VType p, VType q) \<Rightarrow> p = q
         | (VFunction p s, VFunction q t) \<Rightarrow> function_eq w p s q t
         | (VFloat f, VFloat g) \<Rightarrow> float_eq f g
         | _ \<Rightarrow> False))"

section \<open>Hashing\<close>

text \<open>The mixing step.\<close>

definition mix_hash :: "64 word \<Rightarrow> 64 word" where
  "mix_hash q =
     (let q = q XOR (drop_bit 20 q XOR drop_bit 12 q)
      in q XOR drop_bit 7 q XOR drop_bit 4 q)"

definition hash_svalue :: "world \<Rightarrow> svalue \<Rightarrow> 64 word" where
  "hash_svalue w v =
     (case v of
        VObject p s \<Rightarrow>
          (if prog_of w p = None then mix_hash 0
           else case lfun_hash w p s of
                  Some r \<Rightarrow> (case r of VInt i t \<Rightarrow> i | _ \<Rightarrow> 0)
                | None \<Rightarrow> mix_hash p)
      | VFloat f \<Rightarrow> mix_hash (if float_is_zero f then 0 else f)
      | VInt i s \<Rightarrow> mix_hash i
      | VFunction p s \<Rightarrow>
          mix_hash
            (if s \<noteq> function_builtin \<and> prog_of w p = Some (trampoline_program w) then
               (case trampoline w p of
                  Some (f, fr) \<Rightarrow> f XOR fr
                | None \<Rightarrow> p + word_of_nat s)
             else p + word_of_nat s)
      | VArray p \<Rightarrow> mix_hash p
      | VMapping p \<Rightarrow> mix_hash p
      | VMultiset p \<Rightarrow> mix_hash p
      | VProgram p \<Rightarrow> mix_hash p
      | VString p \<Rightarrow> mix_hash p
      | VType p \<Rightarrow> mix_hash p)"

section \<open>Equality on values without operators\<close>

text \<open>The values whose equality is decided without user code: no destructed functions, no objects
  with \<open>`==\<close>, no functions that are programs, no empty trampolines.\<close>

definition plain_value :: "world \<Rightarrow> svalue \<Rightarrow> bool" where
  "plain_value w v =
     (case v of
        VObject p s \<Rightarrow> prog_of w p \<noteq> None \<and> lfun_eq w p s = None
      | VFunction p s \<Rightarrow> \<not> is_destructed w v \<and> program_from_function w p s = None \<and>
          (prog_of w p = Some (trampoline_program w) \<longrightarrow> trampoline w p \<noteq> None)
      | VFloat f \<Rightarrow> \<not> is_nan f
      | _ \<Rightarrow> True)"

lemma plain_checked: "plain_value w v \<Longrightarrow> safe_check_destructed w v = v"
  by (auto simp: plain_value_def safe_check_destructed_def is_destructed_def split: svalue.splits)

lemma plain_call: "plain_value w v \<Longrightarrow> call_eq w v x = None"
  by (auto simp: plain_value_def call_eq_def split: svalue.splits)

lemma float_eq_refl: "float_eq f f \<longleftrightarrow> \<not> is_nan f"
  by (simp add: float_eq_def)

lemma float_eq_sym: "float_eq f g \<longleftrightarrow> float_eq g f"
  by (auto simp: float_eq_def)

lemma float_eq_trans: "float_eq f g \<Longrightarrow> float_eq g h \<Longrightarrow> float_eq f h"
  by (auto simp: float_eq_def)

lemma function_eq_sym: "function_eq w p s q t \<longleftrightarrow> function_eq w q t p s"
  by (cases "trampoline w p"; cases "trampoline w q") (auto simp: function_eq_def)

lemma function_eq_trans:
  "function_eq w p s q t \<Longrightarrow> function_eq w q t r u \<Longrightarrow> function_eq w p s r u"
  by (cases "trampoline w p"; cases "trampoline w q"; cases "trampoline w r")
    (auto simp: function_eq_def split: if_splits)

text \<open>On plain values equality is decided by the constructors.\<close>

lemma is_eq_plain:
  assumes "plain_value w a" "plain_value w b"
  shows "is_eq w a b \<longleftrightarrow>
    (case (a, b) of
       (VObject p s, VObject q t) \<Rightarrow> p = q \<and> s = t
     | (VInt i s, VInt j t) \<Rightarrow> i = j
     | (VFloat f, VFloat g) \<Rightarrow> float_eq f g
     | (VFunction p s, VFunction q t) \<Rightarrow> function_eq w p s q t
     | _ \<Rightarrow> a = b)"
  using assms unfolding is_eq_def Let_def plain_checked [OF assms(1)] plain_checked [OF assms(2)]
  by (cases a; cases b) (auto simp: plain_value_def a_is_obj_def b_is_obj_def call_eq_def)

lemma plain_refl: "plain_value w a \<Longrightarrow> is_eq w a a"
  by (cases a) (auto simp: is_eq_plain plain_value_def float_eq_refl function_eq_def)

lemma plain_sym:
  assumes "plain_value w a" "plain_value w b"
  shows "is_eq w a b \<longleftrightarrow> is_eq w b a"
  unfolding is_eq_plain [OF assms] is_eq_plain [OF assms(2,1)]
  by (cases a; cases b) (auto simp: float_eq_sym function_eq_sym)

lemma plain_trans:
  assumes "plain_value w a" "plain_value w b" "plain_value w c" "is_eq w a b" "is_eq w b c"
  shows "is_eq w a c"
  using assms(4,5) unfolding is_eq_plain [OF assms(1,2)] is_eq_plain [OF assms(2,3)]
    is_eq_plain [OF assms(1,3)]
  by (cases a; cases b; simp; cases c) (auto intro: float_eq_trans function_eq_trans)

text \<open>Equal plain values have equal hash values.\<close>

lemma plain_hash:
  assumes "plain_value w a" "plain_value w b" "is_eq w a b"
  shows "hash_svalue w a = hash_svalue w b"
  using assms(3) unfolding is_eq_plain [OF assms(1,2)]
proof (cases a; cases b)
  fix f g
  assume "a = VFloat f" "b = VFloat g"
  then show ?thesis
    using assms(3) unfolding is_eq_plain [OF assms(1,2)]
    by (auto simp: hash_svalue_def float_eq_def)
next
  fix p s q t
  assume ab: "a = VFunction p s" "b = VFunction q t"
  have "function_eq w p s q t"
    using assms(3) ab unfolding is_eq_plain [OF assms(1,2)] by simp
  then show ?thesis
    using assms(1,2) ab
    by (cases "trampoline w p"; cases "trampoline w q")
      (auto simp: hash_svalue_def function_eq_def plain_value_def split: if_splits)
qed (auto simp: hash_svalue_def)

section \<open>Properties\<close>

text \<open>A world without operators in which every object is of program 1 and the functions of
  object 5 are programs.\<close>

definition small_world :: world where
  "small_world = \<lparr>prog_of = (\<lambda>p. Some 1), lfun_eq = (\<lambda>p s. None), lfun_hash = (\<lambda>p s. None),
     lfun_not = (\<lambda>p s. None), trampoline_program = 2, trampoline = (\<lambda>p. None),
     tramp_object = (\<lambda>p. p), lfun_call = 0, is_prototype = (\<lambda>p s. False),
     program_from_function = (\<lambda>p s. if p = 5 then Some 9 else None), is_bignum = (\<lambda>p. False)\<rparr>"

text \<open>C32: On values whose equality is not decided by user code \<open>is_eq\<close> is an equivalence, and the
  hash function respects it: this is what the mappings rely on.\<close>

theorem is_eq_equivalence_hash:
  assumes "plain_value w a" "plain_value w b" "plain_value w c"
  shows "is_eq w a a \<and> (is_eq w a b \<longrightarrow> is_eq w b a \<and> hash_svalue w a = hash_svalue w b) \<and>
    (is_eq w a b \<and> is_eq w b c \<longrightarrow> is_eq w a c)"
  using plain_refl [OF assms(1)] plain_sym [OF assms(1,2)] plain_hash [OF assms(1,2)]
    plain_trans [OF assms(1-3)] by blast

theorem is_eq_equivalence_hash_witness:
  "is_eq small_world (VFloat 0) (VFloat 0x8000000000000000) \<and>
   hash_svalue small_world (VFloat 0) = hash_svalue small_world (VFloat 0x8000000000000000)"
proof -
  have "plain_value small_world (VFloat 0)" "plain_value small_world (VFloat 0x8000000000000000)"
    by (simp_all add: plain_value_def is_nan_def)
  moreover have "is_eq small_world (VFloat 0) (VFloat 0x8000000000000000)"
    by (simp add: is_eq_def safe_check_destructed_def is_destructed_def float_eq_def is_nan_def float_is_zero_def)
  ultimately show ?thesis
    using is_eq_equivalence_hash by blast
qed

text \<open>Identical values are equal, whatever operators the objects overload.\<close>

theorem is_identical_eq:
  assumes "is_identical a b"
  shows "is_eq w a b"
  using assms
  by (cases a; cases b)
    (auto simp: is_identical_def is_eq_def Let_def safe_check_destructed_def is_destructed_def function_eq_def)

theorem is_identical_eq_witness: "is_eq small_world (VObject 3 0) (VObject 3 0)"
  by (rule is_identical_eq) (simp add: is_identical_def)

text \<open>A function that is a program equals that program, but the two have different hash
  values: a mapping does not find one under the other.\<close>

theorem function_program_hash:
  "is_eq small_world (VFunction 5 3) (VProgram 9) \<and>
   hash_svalue small_world (VFunction 5 3) \<noteq> hash_svalue small_world (VProgram 9)"
proof -
  have "is_eq small_world (VFunction 5 3) (VProgram 9)"
    by (simp add: is_eq_def safe_check_destructed_def is_destructed_def small_world_def)
  moreover have "hash_svalue small_world (VFunction 5 3) \<noteq> hash_svalue small_world (VProgram 9)"
    by (simp add: hash_svalue_def small_world_def function_builtin_def mix_hash_def)
  ultimately show ?thesis ..
qed

end
