(* ===== verification/Array_Block.thy ===== *)
theory Array_Block
  imports Prelude Svalue
begin

text \<open>
  The representation of Pike arrays and the operations that work on one block
  (\<open>src/src/array.c\<close>): allocation, insertion, removal, shrinking and resizing, slices and copies,
  indexing. A block has \<open>malloced_size\<close> cells of which the array uses \<open>size\<close>, from \<open>item\<close> on.
\<close>

section \<open>Blocks\<close>

text \<open>
  A \<open>struct array\<close>: \<open>mem\<close> holds the cells from \<open>u.real_item\<close> on, so its length is
  \<open>malloced_size\<close>; \<open>item\<close> is the offset \<open>item - u.real_item\<close>. \<open>shared\<close> marks the two static arrays
  \<open>empty_array\<close> and \<open>weak_empty_array\<close>.
\<close>

record parr =
  mem :: "svalue list"
  item :: nat
  asize :: nat
  refs :: nat
  aflags :: "16 word"
  type_field :: "16 word"
  shared :: bool

abbreviation malloced_size :: "parr \<Rightarrow> nat" where
  "malloced_size v \<equiv> length (mem v)"

text \<open>The elements: \<open>ITEM(v)[0]\<close> to \<open>ITEM(v)[v->size-1]\<close>.\<close>

definition items :: "parr \<Rightarrow> svalue list" where
  "items v = take (asize v) (drop (item v) (mem v))"

definition empty_array :: parr where
  "empty_array = \<lparr>mem = [], item = 0, asize = 0, refs = 1, aflags = 0, type_field = 0, shared = True\<rparr>"

definition weak_empty_array :: parr where
  "weak_empty_array = empty_array\<lparr>aflags := 1\<rparr>"

definition array_weak_flag :: "16 word" where "array_weak_flag = 1"
definition array_lvalue :: "16 word" where "array_lvalue = 4"

definition bit_int :: "16 word" where "bit_int = 1"
definition bit_mixed_unfinished :: "16 word" where "bit_mixed_unfinished = 0xffff"
definition bit_object :: "16 word" where "bit_object = push_bit 11 1"
definition bit_function :: "16 word" where "bit_function = push_bit 12 1"

definition bitof :: "svalue \<Rightarrow> 16 word" where
  "bitof v = push_bit (typeof v) 1"

text \<open>\<open>mem_copy\<close>: \<open>memcpy\<close> or \<open>memmove\<close> of \<open>n\<close> cells from index \<open>j\<close> of \<open>src\<close> to index \<open>i\<close> of \<open>dst\<close>, with
  indices that may be negative; leaving either block is an error.\<close>

definition mem_copy :: "svalue list \<Rightarrow> int \<Rightarrow> svalue list \<Rightarrow> int \<Rightarrow> nat \<Rightarrow> svalue list result" where
  "mem_copy dst i src j n =
     (if n = 0 then Inr dst
      else if i < 0 \<or> j < 0 \<or> i + int n > int (length dst) \<or> j + int n > int (length src)
      then Inl Bad_Memory_Access
      else Inr (take (nat i) dst @ take n (drop (nat j) src) @ drop (nat i + n) dst))"

text \<open>One cell: \<open>*(real_item + i) = s\<close>.\<close>

definition mem_set :: "svalue list \<Rightarrow> int \<Rightarrow> svalue \<Rightarrow> svalue list result" where
  "mem_set dst i s =
     (if i < 0 \<or> i \<ge> int (length dst) then Inl Bad_Memory_Access else Inr (dst[nat i := s]))"

section \<open>Allocation\<close>

definition real_allocate_array :: "nat \<Rightarrow> nat \<Rightarrow> parr result" where
  "real_allocate_array n extra_space =
     (let len = n + extra_space in
      if len = 0 then Inr empty_array
      else if len > 2 ^ 29 then Inl Size_Too_Big
      else Inr \<lparr>mem = replicate len (VInt 0 0), item = 0, asize = n, refs = 1, aflags = 0,
                type_field = bit_mixed_unfinished, shared = False\<rparr>)"

text \<open>Flags of an empty array select one of the static arrays.\<close>

definition array_set_flags :: "parr \<Rightarrow> 16 word \<Rightarrow> parr" where
  "array_set_flags a flags =
     (if asize a \<noteq> 0 then a\<lparr>aflags := flags\<rparr>
      else if flags AND array_weak_flag \<noteq> 0 then weak_empty_array else empty_array)"

text \<open>The macro also replaces the value of the caller, which is the second part of the result.\<close>

definition array_set_index_no_free :: "world \<Rightarrow> parr \<Rightarrow> nat \<Rightarrow> svalue \<Rightarrow> (parr \<times> svalue) result" where
  "array_set_index_no_free w v index s =
     (let s = check_destructed w s in
      bind_result (mem_set (mem v) (int (item v + index)) s) (\<lambda>m.
        Inr (v\<lparr>mem := m, type_field := type_field v OR bitof s\<rparr>, s)))"

section \<open>Insertion\<close>

text \<open>The array returned and what becomes of \<open>v\<close> itself when a new block is allocated: one
  reference less, and no elements when they were taken over; and the value of the caller.\<close>

definition array_insert :: "world \<Rightarrow> parr \<Rightarrow> svalue \<Rightarrow> nat \<Rightarrow> (parr \<times> parr option \<times> svalue) result" where
  "array_insert w v s index =
     (if refs v \<le> 1 \<and> malloced_size v > asize v then
        bind_result
          (if item v \<noteq> 0 \<and> (index * 2 < asize v \<or> item v + asize v = malloced_size v) then
             bind_result (mem_copy (mem v) (int (item v) - 1) (mem v) (int (item v)) index) (\<lambda>m.
               Inr (v\<lparr>mem := m, item := item v - 1\<rparr>))
           else
             bind_result (mem_copy (mem v) (int (item v + index + 1)) (mem v) (int (item v + index))
                 (asize v - index)) (\<lambda>m.
               Inr (v\<lparr>mem := m\<rparr>)))
          (\<lambda>v. bind_result (array_set_index_no_free w (v\<lparr>asize := asize v + 1\<rparr>) index s) (\<lambda>(v, s).
             Inr (v, None, s)))
      else
        bind_result (real_allocate_array (asize v + 1) (asize v + 1)) (\<lambda>ret.
        let ret = (array_set_flags ret (aflags v))\<lparr>type_field := type_field v\<rparr> in
        bind_result (mem_copy (mem ret) (int (item ret)) (mem v) (int (item v)) index) (\<lambda>m.
        bind_result (mem_copy m (int (item ret + index + 1)) (mem v) (int (item v + index))
            (asize v - index)) (\<lambda>m.
        bind_result (array_set_index_no_free w (ret\<lparr>mem := m\<rparr>) index s) (\<lambda>(ret, s).
        Inr (ret, Some (v\<lparr>refs := refs v - 1, asize := (if refs v = 1 then 0 else asize v)\<rparr>), s))))))"

section \<open>Shrinking, resizing and removal\<close>

definition array_shrink :: "parr \<Rightarrow> nat \<Rightarrow> parr result" where
  "array_shrink v n =
     (if n = 0 then
        Inr (if aflags v AND array_weak_flag \<noteq> 0 then weak_empty_array else empty_array)
      else if n = asize v then Inr v
      else
        let v = v\<lparr>asize := n\<rparr> in
        if n * 4 < malloced_size v + 4 then
          bind_result (real_allocate_array n 0) (\<lambda>a.
          let a = array_set_flags a (aflags v);
              a = (if asize a \<noteq> 0 then a\<lparr>type_field := type_field v\<rparr> else a) in
          bind_result (mem_copy (mem a) (int (item a)) (mem v) (int (item v)) n) (\<lambda>m.
          Inr (a\<lparr>mem := m\<rparr>)))
        else Inr v)"

text \<open>The zeroes appended when the block has room.\<close>

fun grow_zero :: "nat \<Rightarrow> parr \<Rightarrow> parr result" where
  "grow_zero 0 a = Inr a"
| "grow_zero (Suc k) a =
     bind_result (mem_set (mem a) (int (item a + asize a)) (VInt 0 0)) (\<lambda>m.
       grow_zero k (a\<lparr>mem := m, asize := asize a + 1\<rparr>))"

definition resize_array :: "parr \<Rightarrow> nat \<Rightarrow> parr result" where
  "resize_array a n =
     (if n = 0 \<and> malloced_size a \<noteq> 0 then array_shrink a n
      else if asize a = n then Inr a
      else if n > asize a then
        (if malloced_size a \<ge> n \<and> item a + n \<le> malloced_size a then
           bind_result (grow_zero (n - asize a) a) (\<lambda>a.
             Inr (a\<lparr>type_field := type_field a OR bit_int\<rparr>))
         else
           bind_result (real_allocate_array n (n + 1)) (\<lambda>ret.
           let ret = array_set_flags ret (aflags a) in
           bind_result (mem_copy (mem ret) (int (item ret)) (mem a) (int (item a)) (asize a)) (\<lambda>m.
           Inr (ret\<lparr>mem := m, type_field := type_field a OR bit_int\<rparr>))))
      else array_shrink a n)"

definition append_array :: "world \<Rightarrow> parr \<Rightarrow> svalue \<Rightarrow> (parr \<times> svalue) result" where
  "append_array w a s =
     bind_result (resize_array a (asize a + 1)) (\<lambda>r. array_set_index_no_free w r (asize a) s)"

definition array_remove :: "parr \<Rightarrow> nat \<Rightarrow> parr result" where
  "array_remove v index =
     (if asize v = 1 then Inr (array_set_flags (v\<lparr>asize := 0\<rparr>) (aflags v))
      else if asize v * 4 + 4 < malloced_size v then
        bind_result (real_allocate_array (asize v - 1) 0) (\<lambda>a.
        let a = (array_set_flags a (aflags v))\<lparr>type_field := type_field v\<rparr> in
        bind_result
          (if index > 0 then mem_copy (mem a) (int (item a)) (mem v) (int (item v)) index
           else Inr (mem a)) (\<lambda>m.
        bind_result
          (if int (asize v) - int index > 1
           then mem_copy m (int (item a + index)) (mem v) (int (item v + index + 1)) (asize v - index - 1)
           else Inr m) (\<lambda>m.
        Inr (a\<lparr>mem := m\<rparr>))))
      else
        bind_result
          (if int (asize v) - int index > 1
           then mem_copy (mem v) (int (item v + index)) (mem v) (int (item v + index + 1))
                  (asize v - index - 1)
           else Inr (mem v)) (\<lambda>m.
        Inr (v\<lparr>mem := m, asize := asize v - 1\<rparr>)))"

section \<open>Slices and copies\<close>

text \<open>A slice reuses the block of an array with one reference when it is not much too large.\<close>

definition slice_array :: "parr \<Rightarrow> nat \<Rightarrow> nat \<Rightarrow> parr result" where
  "slice_array v start stop =
     (if refs v = 1 \<and> (stop - start) * 4 > malloced_size v then
        Inr (v\<lparr>refs := refs v + 1, item := item v + start, asize := stop - start\<rparr>)
      else
        bind_result (real_allocate_array (stop - start) 0) (\<lambda>a.
        if stop - start \<noteq> 0 then
          bind_result (mem_copy (mem a) (int (item a)) (mem v) (int (item v + start)) (stop - start)) (\<lambda>m.
          Inr (a\<lparr>mem := m, type_field := type_field v\<rparr>))
        else Inr a))"

text \<open>\<open>friendly_slice_array\<close> sets the type field of the new array without a test for its size.\<close>

definition friendly_slice_array :: "parr \<Rightarrow> nat \<Rightarrow> nat \<Rightarrow> parr result" where
  "friendly_slice_array v start stop =
     bind_result (real_allocate_array (stop - start) 0) (\<lambda>a.
     let a = a\<lparr>type_field := type_field v\<rparr> in
     bind_result (mem_copy (mem a) (int (item a)) (mem v) (int (item v + start)) (stop - start)) (\<lambda>m.
     Inr (a\<lparr>mem := m\<rparr>)))"

definition copy_array :: "parr \<Rightarrow> parr result" where
  "copy_array v =
     (if asize v = 0 then Inr empty_array
      else
        bind_result (real_allocate_array (asize v) 0) (\<lambda>a.
        bind_result (mem_copy (mem a) (int (item a)) (mem v) (int (item v)) (asize v)) (\<lambda>m.
        Inr (a\<lparr>mem := m, type_field := type_field v\<rparr>))))"

definition clear_array :: "parr \<Rightarrow> parr" where
  "clear_array a =
     (if asize a = 0 then a
      else a\<lparr>mem := take (item a) (mem a) @ replicate (asize a) (VInt 0 0) @
               drop (item a + asize a) (mem a),
             type_field := bit_int\<rparr>)"

section \<open>Indexing\<close>

text \<open>The index of an element from a Pike integer, which may count from the end.\<close>

definition array_pos :: "parr \<Rightarrow> int \<Rightarrow> nat result" where
  "array_pos a p =
     (let i = (if p < 0 then p + int (asize a) else p) in
      if i < 0 \<or> i \<ge> int (asize a) then
        (if asize a \<noteq> 0 then Inl (Index_Out_Of_Range p) else Inl (Index_Empty p))
      else Inr (nat i))"

definition accumulate_type_field :: "world \<Rightarrow> svalue \<Rightarrow> 16 word \<Rightarrow> 16 word" where
  "accumulate_type_field w s acc =
     (let acc = acc OR bitof s in
      if acc AND bit_int = 0 \<and> bitof s AND bit_object \<noteq> 0 \<and>
         (case s of VObject p t \<Rightarrow> is_bignum w p | _ \<Rightarrow> False)
      then acc OR bit_int else acc)"

text \<open>\<open>array_column\<close>, not destructive: \<open>index_no_free\<close>, which indexes an element, is a parameter.\<close>

definition array_column ::
  "world \<Rightarrow> (svalue \<Rightarrow> svalue \<Rightarrow> svalue) \<Rightarrow> parr \<Rightarrow> svalue \<Rightarrow> parr result" where
  "array_column w index_no_free data index =
     bind_result (real_allocate_array (asize data) 0) (\<lambda>a.
     let vals = map (\<lambda>v. index_no_free v index) (items data) in
     Inr (a\<lparr>mem := vals, type_field := fold (accumulate_type_field w) vals 0\<rparr>))"

datatype indexed = Element svalue | Column parr

definition simple_array_index ::
  "world \<Rightarrow> (svalue \<Rightarrow> svalue \<Rightarrow> svalue) \<Rightarrow> parr \<Rightarrow> svalue \<Rightarrow> indexed result" where
  "simple_array_index w index_no_free a ind =
     (case ind of
        VInt p s \<Rightarrow> bind_result (array_pos a (sint p)) (\<lambda>i. Inr (Element (mem a ! (item a + i))))
      | VString s \<Rightarrow> bind_result (array_column w index_no_free a ind) (\<lambda>c. Inr (Column c))
      | _ \<Rightarrow> Inl Bad_Index_Type)"

text \<open>Assigning through a string index changes what the elements point to, not the array.\<close>

definition simple_set_index :: "world \<Rightarrow> parr \<Rightarrow> svalue \<Rightarrow> svalue \<Rightarrow> (parr \<times> svalue) result" where
  "simple_set_index w a ind s =
     (case ind of
        VInt p t \<Rightarrow> bind_result (array_pos a (sint p)) (\<lambda>i. array_set_index_no_free w a i s)
      | VString p \<Rightarrow> Inr (a, s)
      | _ \<Rightarrow> Inl Bad_Index_Type)"

text \<open>The swap, which returns the old value and leaves the type field as it is.\<close>

definition array_atomic_get_set :: "parr \<Rightarrow> int \<Rightarrow> svalue \<Rightarrow> (parr \<times> svalue) result" where
  "array_atomic_get_set a i from_to =
     bind_result (array_pos a i) (\<lambda>i.
       Inr (a\<lparr>mem := (mem a)[item a + i := from_to]\<rparr>, mem a ! (item a + i)))"

section \<open>The invariant\<close>

text \<open>The elements lie inside the block.\<close>

definition block_ok :: "parr \<Rightarrow> bool" where
  "block_ok v \<longleftrightarrow> item v + asize v \<le> malloced_size v"

text \<open>The type field has a bit for the type of every element (it may have others).\<close>

definition covers :: "16 word \<Rightarrow> svalue list \<Rightarrow> bool" where
  "covers tf xs \<longleftrightarrow> (\<forall>x \<in> set xs. bit tf (typeof x))"

definition types_ok :: "parr \<Rightarrow> bool" where
  "types_ok v \<longleftrightarrow> covers (type_field v) (items v)"

text \<open>The static arrays stay empty, and without types.\<close>

definition shared_ok :: "parr \<Rightarrow> bool" where
  "shared_ok v \<longleftrightarrow> (shared v \<longrightarrow> mem v = [] \<and> item v = 0 \<and> asize v = 0 \<and> type_field v = 0)"

definition array_ok :: "parr \<Rightarrow> bool" where
  "array_ok v \<longleftrightarrow> block_ok v \<and> types_ok v \<and> shared_ok v"

lemma typeof_less: "typeof v < 16"
  by (cases v) auto

lemma bit_bitof: "bit (bitof v) n \<longleftrightarrow> n = typeof v"
  using typeof_less [of v] by (auto simp: bitof_def bit_simps)

lemma bit_or_bitof: "bit (tf OR bitof s) n \<longleftrightarrow> bit tf n \<or> n = typeof s"
  by (simp add: bit_or_iff bit_bitof)

lemma covers_simps [simp]:
  "covers tf []" "covers tf (x # xs) \<longleftrightarrow> bit tf (typeof x) \<and> covers tf xs"
  "covers tf (xs @ ys) \<longleftrightarrow> covers tf xs \<and> covers tf ys"
  by (auto simp: covers_def)

lemma covers_or: "covers tf xs \<Longrightarrow> covers (tf OR tg) xs" "covers tg xs \<Longrightarrow> covers (tf OR tg) xs"
  by (auto simp: covers_def bit_or_iff)

lemma covers_subset: "covers tf xs \<Longrightarrow> set ys \<subseteq> set xs \<Longrightarrow> covers tf ys"
  by (auto simp: covers_def)

lemma covers_all: "covers bit_mixed_unfinished xs"
proof -
  have "bit (0xffff :: 16 word) n \<longleftrightarrow> n < 16" for n
    using bit_mask_iff [of 16 n, where 'a = "16 word"] by (simp add: mask_eq_exp_minus_1)
  then show ?thesis
    using typeof_less by (metis covers_def bit_mixed_unfinished_def)
qed

lemma typeof_check: "check_destructed w s = s \<or> check_destructed w s = VInt 0 2"
  by (simp add: check_destructed_def)

section \<open>Blocks as lists\<close>

lemma length_items: "block_ok v \<Longrightarrow> length (items v) = asize v"
  by (simp add: block_ok_def items_def)

text \<open>The parts of a block: the cells before the elements, the elements, the cells after them.\<close>

lemma block_parts:
  assumes "block_ok v"
  obtains pre post where "mem v = pre @ items v @ post" "length pre = item v"
    "length (items v) = asize v"
proof
  show "mem v = take (item v) (mem v) @ items v @ drop (item v + asize v) (mem v)"
    by (simp add: items_def add.commute flip: drop_drop)
  show "length (take (item v) (mem v)) = item v" "length (items v) = asize v"
    using assms by (simp_all add: block_ok_def items_def)
qed

lemma items_of_parts:
  assumes "mem v = pre @ xs @ post" "item v = length pre" "asize v = length xs"
  shows "items v = xs" "block_ok v"
  using assms by (simp_all add: items_def block_ok_def)

lemma mem_copy_parts:
  assumes "n = length e" "length b = n" "i = int (length a)" "j = int (length d)"
  shows "mem_copy (a @ b @ c) i (d @ e @ f) j n = Inr (a @ e @ c)"
  using assms by (auto simp: mem_copy_def)

lemma mem_copy_end:
  assumes "n = length e" "length b = n" "i = int (length a)" "j = int (length d)"
  shows "mem_copy (a @ b) i (d @ e) j n = Inr (a @ e)"
  using mem_copy_parts [OF assms, of "[]" "[]"] by simp

lemma mem_copy_none [simp]: "mem_copy dst i src j 0 = Inr dst"
  by (simp add: mem_copy_def)

lemma mem_set_parts:
  assumes "i = int (length a)"
  shows "mem_set (a @ x # b) i s = Inr (a @ s # b)"
  using assms by (simp add: mem_set_def list_update_append)

text \<open>Setting an element: the cell must exist, it may be the one after the last element.\<close>

lemma set_index_parts:
  assumes "mem v = pre @ xs @ y # post" "item v = length pre" "index = length xs"
  shows "array_set_index_no_free w v index s =
    Inr (v\<lparr>mem := pre @ xs @ check_destructed w s # post,
           type_field := type_field v OR bitof (check_destructed w s)\<rparr>, check_destructed w s)"
  using assms mem_set_parts [of "int (item v + index)" "pre @ xs" y post]
  by (simp add: array_set_index_no_free_def Let_def)

section \<open>Insertion\<close>

lemma allocate_ok:
  assumes "real_allocate_array n extra = Inr a" "n > 0"
  shows "mem a = replicate (n + extra) (VInt 0 0)" "item a = 0" "asize a = n" "\<not> shared a" "refs a = 1"
    "aflags a = 0" "type_field a = bit_mixed_unfinished"
  using assms by (auto simp: real_allocate_array_def Let_def split: if_splits)

lemma allocate_result:
  "real_allocate_array n extra =
    (if n + extra = 0 then Inr empty_array
     else if n + extra > 2 ^ 29 then Inl Size_Too_Big
     else Inr \<lparr>mem = replicate (n + extra) (VInt 0 0), item = 0, asize = n, refs = 1, aflags = 0,
                type_field = bit_mixed_unfinished, shared = False\<rparr>)"
  by (simp add: real_allocate_array_def Let_def)

text \<open>Insertion in place.\<close>

lemma array_insert_in_place:
  assumes "block_ok v" "index \<le> asize v" "refs v \<le> 1" "asize v < malloced_size v"
  shows "\<exists>r. array_insert w v s index = Inr (r, None, check_destructed w s) \<and> block_ok r \<and>
    items r = take index (items v) @ check_destructed w s # drop index (items v) \<and>
    type_field r = type_field v OR bitof (check_destructed w s) \<and> shared r = shared v \<and>
    mem r \<noteq> [] \<and> aflags r = aflags v"
proof -
  obtain pre post where p: "mem v = pre @ items v @ post" "length pre = item v"
    "length (items v) = asize v"
    using block_parts [OF assms(1)] .
  define x1 x2 where "x1 = take index (items v)" and "x2 = drop index (items v)"
  have x: "items v = x1 @ x2" "length x1 = index" "length x2 = asize v - index"
    using assms(2) p(3) by (simp_all add: x1_def x2_def)
  define c where "c \<longleftrightarrow> item v \<noteq> 0 \<and> (index * 2 < asize v \<or> item v + asize v = malloced_size v)"
  have room: "pre \<noteq> [] \<or> post \<noteq> []"
    using assms(4) p by auto
  define m where "m = check_destructed w s"
  show ?thesis
  proof (cases c)
    case True
    then have "pre \<noteq> []"
      using p(2) by (auto simp: c_def)
    then obtain pre' y where pre: "pre = pre' @ [y]"
      by (cases pre rule: rev_cases) auto
    have mv: "mem v = pre' @ (y # x1) @ x2 @ post"
      using p(1) x(1) pre by simp
    obtain z x1' where z: "y # x1 = x1' @ [z]"
      by (cases "y # x1" rule: rev_cases) auto
    have "mem_copy (mem v) (int (item v) - 1) (mem v) (int (item v)) index
        = Inr (pre' @ x1 @ z # x2 @ post)"
    proof -
      have "mem_copy (pre' @ x1' @ z # x2 @ post) (int (length pre')) ((pre' @ [y]) @ x1 @ x2 @ post)
          (int (length (pre' @ [y]))) index = Inr (pre' @ x1 @ z # x2 @ post)"
        using x(2) arg_cong [OF z, of length] by (intro mem_copy_parts) auto
      moreover have "mem v = pre' @ x1' @ z # x2 @ post" "mem v = (pre' @ [y]) @ x1 @ x2 @ post"
        using mv arg_cong [OF z, of "\<lambda>t. t @ x2 @ post"] by simp_all
      moreover have "int (item v) - 1 = int (length pre')" "int (item v) = int (length (pre' @ [y]))"
        using p(2) pre by simp_all
      ultimately show ?thesis
        by metis
    qed
    moreover have iv: "item v - Suc 0 = length pre'"
      using p(2) pre by simp
    moreover have "array_set_index_no_free w
        (v\<lparr>mem := pre' @ x1 @ z # x2 @ post, item := length pre', asize := asize v + 1\<rparr>) index s
      = Inr (v\<lparr>mem := pre' @ x1 @ m # x2 @ post, item := length pre', asize := asize v + 1,
               type_field := type_field v OR bitof m\<rparr>, m)"
      using set_index_parts [of "v\<lparr>mem := pre' @ x1 @ z # x2 @ post, item := length pre',
        asize := asize v + 1\<rparr>" pre' x1 z "x2 @ post" index w s] p(2) pre x(2) by (simp add: m_def)
    ultimately have r: "array_insert w v s index =
        Inr (v\<lparr>mem := pre' @ x1 @ m # x2 @ post, item := length pre', asize := asize v + 1,
               type_field := type_field v OR bitof m\<rparr>, None, m)"
      using assms(3,4) True by (simp add: array_insert_def c_def)
    show ?thesis
      using items_of_parts [of "v\<lparr>mem := pre' @ x1 @ m # x2 @ post, item := length pre',
          asize := asize v + 1, type_field := type_field v OR bitof m\<rparr>" pre' "x1 @ m # x2" post]
        p(2,3) pre x unfolding r m_def x1_def x2_def by auto
  next
    case False
    then have "post \<noteq> []"
      using room p by (auto simp: c_def)
    then obtain y post' where post: "post = y # post'"
      by (cases post) auto
    obtain z x2' where z: "x2 @ [y] = z # x2'"
      by (cases "x2 @ [y]") auto
    have mv: "mem v = (pre @ x1) @ x2 @ y # post'" "mem v = (pre @ x1 @ [z]) @ x2' @ post'"
      using p(1) x(1) post arg_cong [OF z, of "\<lambda>t. t @ post'"] by simp_all
    have "mem_copy (mem v) (int (item v + index + 1)) (mem v) (int (item v + index)) (asize v - index)
        = Inr ((pre @ x1 @ [z]) @ x2 @ post')"
    proof -
      have "mem_copy ((pre @ x1 @ [z]) @ x2' @ post') (int (item v + index + 1)) ((pre @ x1) @ x2 @ y # post')
          (int (item v + index)) (asize v - index) = Inr ((pre @ x1 @ [z]) @ x2 @ post')"
        using x(2,3) p(2) arg_cong [OF z, of length] by (intro mem_copy_parts) auto
      then show ?thesis
        using mv by metis
    qed
    moreover have "array_set_index_no_free w
        (v\<lparr>mem := pre @ x1 @ z # x2 @ post', asize := asize v + 1\<rparr>) index s
      = Inr (v\<lparr>mem := pre @ x1 @ m # x2 @ post', asize := asize v + 1,
               type_field := type_field v OR bitof m\<rparr>, m)"
      using set_index_parts [of "v\<lparr>mem := pre @ x1 @ z # x2 @ post', asize := asize v + 1\<rparr>" pre x1 z
        "x2 @ post'" index w s] p(2) x(2) by (simp add: m_def)
    ultimately have r: "array_insert w v s index =
        Inr (v\<lparr>mem := pre @ x1 @ m # x2 @ post', asize := asize v + 1,
               type_field := type_field v OR bitof m\<rparr>, None, m)"
      using assms(3,4) False by (auto simp: array_insert_def c_def)
    show ?thesis
      using items_of_parts [of "v\<lparr>mem := pre @ x1 @ m # x2 @ post', asize := asize v + 1,
          type_field := type_field v OR bitof m\<rparr>" pre "x1 @ m # x2" post'] p(2,3) x
      unfolding r m_def x1_def x2_def by auto
  qed
qed

text \<open>Insertion into a new block.\<close>

lemma array_insert_fresh:
  assumes "block_ok v" "index \<le> asize v" "\<not> (refs v \<le> 1 \<and> asize v < malloced_size v)"
    "2 * asize v + 2 \<le> 2 ^ 29"
  shows "\<exists>r. array_insert w v s index =
      Inr (r, Some (v\<lparr>refs := refs v - 1, asize := (if refs v = 1 then 0 else asize v)\<rparr>), check_destructed w s) \<and> block_ok r \<and>
    items r = take index (items v) @ check_destructed w s # drop index (items v) \<and>
    type_field r = type_field v OR bitof (check_destructed w s) \<and> \<not> shared r \<and> refs r = 1 \<and>
    aflags r = aflags v"
proof -
  obtain pre post where p: "mem v = pre @ items v @ post" "length pre = item v"
    "length (items v) = asize v"
    using block_parts [OF assms(1)] .
  define n where "n = asize v"
  define x1 x2 where "x1 = take index (items v)" and "x2 = drop index (items v)"
  have x: "items v = x1 @ x2" "length x1 = index" "length x2 = n - index"
    using assms(2) p(3) by (simp_all add: x1_def x2_def n_def)
  define Z where "Z = VInt 0 0"
  define a where "a = \<lparr>mem = replicate (n + 1 + (n + 1)) Z, item = 0, asize = n + 1, refs = 1,
    aflags = 0, type_field = bit_mixed_unfinished, shared = False\<rparr>"
  have al: "real_allocate_array (n + 1) (n + 1) = Inr a"
    using assms(4) by (simp add: allocate_result a_def Z_def n_def)
  define b where "b = (array_set_flags a (aflags v))\<lparr>type_field := type_field v\<rparr>"
  have b: "b = a\<lparr>aflags := aflags v, type_field := type_field v\<rparr>"
    by (simp add: b_def array_set_flags_def a_def)
  have "n + 1 + (n + 1) = index + (1 + ((n - index) + (n + 1)))"
    using assms(2) by (simp add: n_def)
  then have rep: "mem b = replicate index Z @ Z # replicate (n - index) Z @ replicate (n + 1) Z"
    by (simp only: b a_def parr.simps parr.update_convs replicate_add) simp
  have mv: "mem v = pre @ x1 @ x2 @ post" "mem v = (pre @ x1) @ x2 @ post"
    using p(1) x(1) by simp_all
  have c1: "mem_copy (mem b) 0 (mem v) (int (item v)) index =
      Inr (x1 @ Z # replicate (n - index) Z @ replicate (n + 1) Z)"
    using mem_copy_parts [of index x1 "replicate index Z" 0 "[]" "int (item v)" pre
      "Z # replicate (n - index) Z @ replicate (n + 1) Z" "x2 @ post"] x(2) p(2)
    unfolding rep mv(1) by simp
  have c2: "mem_copy (x1 @ Z # replicate (n - index) Z @ replicate (n + 1) Z) (int (index + 1)) (mem v)
      (int (item v + index)) (n - index) = Inr ((x1 @ [Z]) @ x2 @ replicate (n + 1) Z)"
    using mem_copy_parts [of "n - index" x2 "replicate (n - index) Z" "int (index + 1)" "x1 @ [Z]"
      "int (item v + index)" "pre @ x1" "replicate (n + 1) Z" post] x(2,3) p(2)
    unfolding mv(2) by simp
  let ?c = "check_destructed w s"
  have c3: "array_set_index_no_free w (b\<lparr>mem := (x1 @ [Z]) @ x2 @ replicate (n + 1) Z\<rparr>) index s =
      Inr (b\<lparr>mem := x1 @ ?c # x2 @ replicate (n + 1) Z, type_field := type_field v OR bitof ?c\<rparr>, ?c)"
    using set_index_parts [of "b\<lparr>mem := (x1 @ [Z]) @ x2 @ replicate (n + 1) Z\<rparr>" "[]" x1 Z
      "x2 @ replicate (n + 1) Z" index w s] x(2) by (simp add: b a_def)
  have it: "item b = 0"
    by (simp add: b a_def)
  have r: "array_insert w v s index =
      Inr (b\<lparr>mem := x1 @ ?c # x2 @ replicate (n + 1) Z, type_field := type_field v OR bitof ?c\<rparr>,
        Some (v\<lparr>refs := refs v - 1, asize := (if refs v = 1 then 0 else asize v)\<rparr>), ?c)"
    unfolding array_insert_def if_not_P [OF assms(3)]
    unfolding n_def [symmetric] al bind_result_simps Let_def
    unfolding b_def [symmetric]
    using c1 c2 c3 by (simp add: it)
  show ?thesis
    using items_of_parts [of "b\<lparr>mem := x1 @ ?c # x2 @ replicate (n + 1) Z,
        type_field := type_field v OR bitof ?c\<rparr>" "[]" "x1 @ ?c # x2" "replicate (n + 1) Z"]
      x assms(2) unfolding r x1_def x2_def by (simp add: b a_def n_def p(3))
qed

text \<open>What the callers rely on: the elements, the block, the types; and an array with other
  references is not changed.\<close>

lemma array_insert_ok:
  assumes "array_ok v" "index \<le> asize v" "2 * asize v + 2 \<le> 2 ^ 29"
  shows "\<exists>r old. array_insert w v s index = Inr (r, old, check_destructed w s) \<and> array_ok r \<and>
    items r = take index (items v) @ check_destructed w s # drop index (items v) \<and>
    aflags r = aflags v \<and> \<not> shared r \<and>
    (refs v > 1 \<longrightarrow> old = Some (v\<lparr>refs := refs v - 1\<rparr>))"
proof -
  have ok: "block_ok v" "types_ok v" "shared_ok v"
    using assms(1) by (simp_all add: array_ok_def)
  have types: "covers (type_field v OR bitof (check_destructed w s))
      (take index (items v) @ check_destructed w s # drop index (items v))"
    using ok(2) covers_or(1) [of "type_field v" "items v"] bit_or_bitof
    by (auto simp: types_ok_def intro: covers_subset dest: in_set_takeD in_set_dropD)
  show ?thesis
  proof (cases "refs v \<le> 1 \<and> asize v < malloced_size v")
    case True
    then show ?thesis
      using array_insert_in_place [OF ok(1) assms(2), of w s] ok(3) types
      by (auto simp: array_ok_def types_ok_def shared_ok_def)
  next
    case False
    then show ?thesis
      using array_insert_fresh [OF ok(1) assms(2) False assms(3), of w s] types
      by (auto simp: array_ok_def types_ok_def shared_ok_def)
  qed
qed

section \<open>Copying ranges of elements\<close>

lemma range_of_items:
  assumes "block_ok v" "k + n \<le> asize v"
  shows "take n (drop (item v + k) (mem v)) = take n (drop k (items v))"
  using assms by (simp add: items_def block_ok_def drop_take min_def add.commute)

text \<open>Copying a range of elements to the start of a new block of that size.\<close>

lemma copy_to_new:
  assumes "block_ok v" "k + n \<le> asize v"
  shows "mem_copy (replicate n Z) 0 (mem v) (int (item v + k)) n = Inr (take n (drop k (items v)))"
  using assms range_of_items [OF assms]
  by (auto simp: mem_copy_def block_ok_def nat_add_distrib)

lemma items_new [simp]: "asize v = length (mem v) \<Longrightarrow> item v = 0 \<Longrightarrow> items v = mem v"
  by (simp add: items_def)

lemma static_ok: "array_ok empty_array" "array_ok weak_empty_array" "items empty_array = []"
    "items weak_empty_array = []"
  by (simp_all add: array_ok_def block_ok_def types_ok_def shared_ok_def empty_array_def
      weak_empty_array_def items_def)

lemma covers_part:
  assumes "types_ok v" "set xs \<subseteq> set (items v)"
  shows "covers (type_field v) xs"
  using assms covers_subset unfolding types_ok_def by blast

section \<open>Shrinking\<close>

lemma shrink_in_place:
  assumes "array_ok v" "n \<le> asize v"
  shows "array_ok (v\<lparr>asize := n\<rparr>)" "items (v\<lparr>asize := n\<rparr>) = take n (items v)"
proof -
  show i: "items (v\<lparr>asize := n\<rparr>) = take n (items v)"
    using assms(2) by (simp add: items_def min_def)
  show "array_ok (v\<lparr>asize := n\<rparr>)"
    using assms covers_part [of v "take n (items v)"] set_take_subset [of n "items v"]
    unfolding array_ok_def types_ok_def i
    by (auto simp: block_ok_def shared_ok_def types_ok_def)
qed

lemma array_shrink_ok:
  assumes "array_ok v" "n \<le> asize v" "asize v \<le> 2 ^ 29"
  shows "\<exists>r. array_shrink v n = Inr r \<and> array_ok r \<and> items r = take n (items v)"
proof (cases "n = 0 \<or> n = asize v \<or> \<not> n * 4 < malloced_size v + 4")
  case True
  then show ?thesis
    using assms static_ok shrink_in_place [OF assms(1,2)] length_items [of v]
    by (auto simp: array_shrink_def array_ok_def Let_def)
next
  case False
  define a where "a = \<lparr>mem = replicate n (VInt 0 0), item = 0, asize = n, refs = 1,
    aflags = aflags v, type_field = type_field v, shared = False\<rparr>"
  have "mem_copy (replicate n (VInt 0 0)) 0 (mem v) (int (item v)) n = Inr (take n (items v))"
    using copy_to_new [of v 0 n] assms by (simp add: array_ok_def)
  then have "array_shrink v n = Inr (a\<lparr>mem := take n (items v)\<rparr>)"
    using False assms(2,3)
    by (simp add: array_shrink_def Let_def allocate_result array_set_flags_def a_def)
  moreover have "covers (type_field v) (take n (items v))"
    using assms(1) covers_part set_take_subset by (metis array_ok_def)
  ultimately show ?thesis
    using assms length_items [of v]
    by (simp add: a_def array_ok_def types_ok_def shared_ok_def block_ok_def min_def)
qed

section \<open>Resizing\<close>

lemma grow_zero_parts:
  "mem a = pre @ xs @ post \<Longrightarrow> item a = length pre \<Longrightarrow> asize a = length xs \<Longrightarrow> k \<le> length post \<Longrightarrow>
    grow_zero k a = Inr (a\<lparr>mem := pre @ (xs @ replicate k (VInt 0 0)) @ drop k post, asize := asize a + k\<rparr>)"
proof (induction k arbitrary: a xs post)
  case (Suc k)
  then obtain y post' where post: "post = y # post'"
    by (cases post) auto
  have "mem_set (mem a) (int (item a + asize a)) (VInt 0 0) = Inr (pre @ (xs @ [VInt 0 0]) @ post')"
    using mem_set_parts [of _ "pre @ xs" y post'] Suc.prems post by simp
  then show ?case
    using Suc.IH [of "a\<lparr>mem := pre @ (xs @ [VInt 0 0]) @ post', asize := asize a + 1\<rparr>" "xs @ [VInt 0 0]" post']
      Suc.prems post by simp
qed simp

lemma bit_int_bit: "bit (tf OR bit_int) 0"
  by (simp add: bit_int_def bit_or_iff)

lemma covers_grown:
  assumes "covers tf xs"
  shows "covers (tf OR bit_int) (xs @ replicate k (VInt 0 0))"
  using covers_or(1) [OF assms, of bit_int] bit_int_bit [of tf] by (auto simp: covers_def)

lemma resize_array_ok:
  assumes "array_ok v" "2 * n + 1 \<le> 2 ^ 29" "asize v \<le> 2 ^ 29"
  shows "\<exists>r. resize_array v n = Inr r \<and> array_ok r \<and>
    items r = take n (items v) @ replicate (n - asize v) (VInt 0 0)"
proof -
  have ok: "block_ok v" "types_ok v" "shared_ok v"
    using assms(1) by (simp_all add: array_ok_def)
  consider "n \<le> asize v" | "n > asize v" "item v + n \<le> malloced_size v" |
    "n > asize v" "\<not> item v + n \<le> malloced_size v"
    by linarith
  then show ?thesis
  proof cases
    case 1
    then show ?thesis
      using array_shrink_ok [OF assms(1) 1 assms(3)] length_items [OF ok(1)] assms(1)
      by (auto simp: resize_array_def)
  next
    case 2
    obtain pre post where p: "mem v = pre @ items v @ post" "length pre = item v"
      "length (items v) = asize v"
      using block_parts [OF ok(1)] .
    define k where "k = n - asize v"
    have k: "k \<le> length post" "n = asize v + k"
      using 2 p arg_cong [OF p(1), of length] by (auto simp: k_def)
    define r where "r = v\<lparr>mem := pre @ (items v @ replicate k (VInt 0 0)) @ drop k post, asize := asize v + k,
      type_field := type_field v OR bit_int\<rparr>"
    have "resize_array v n = Inr r"
      using 2 grow_zero_parts [OF p(1) _ _ k(1)] p(2,3) by (simp add: resize_array_def k_def r_def)
    moreover have "items r = items v @ replicate k (VInt 0 0)" "block_ok r"
      using items_of_parts [of r pre "items v @ replicate k (VInt 0 0)" "drop k post"] p(2,3)
      by (simp_all add: r_def)
    moreover have "shared_ok r"
      using ok(3) 2 by (auto simp: shared_ok_def r_def)
    ultimately show ?thesis
      using ok(2) covers_grown [of "type_field v" "items v" k] p(3) k(2)
      by (auto simp: array_ok_def types_ok_def r_def)
  next
    case 3
    define Z where "Z = VInt 0 0"
    define a where "a = \<lparr>mem = replicate (n + (n + 1)) Z, item = 0, asize = n, refs = 1,
      aflags = aflags v, type_field = type_field v OR bit_int, shared = False\<rparr>"
    have "n + (n + 1) = asize v + ((n - asize v) + (n + 1))"
      using 3(1) by simp
    then have rep: "replicate (n + (n + 1)) Z =
        replicate (asize v) Z @ replicate (n - asize v) Z @ replicate (n + 1) Z"
      by (simp only: replicate_add)
    obtain pre post where p: "mem v = pre @ items v @ post" "length pre = item v"
      "length (items v) = asize v"
      using block_parts [OF ok(1)] .
    have "mem_copy (replicate (n + (n + 1)) Z) 0 (mem v) (int (item v)) (asize v) =
        Inr (items v @ replicate (n - asize v) Z @ replicate (n + 1) Z)"
      using mem_copy_parts [of "asize v" "items v" "replicate (asize v) Z" 0 "[]" "int (item v)" pre
        "replicate (n - asize v) Z @ replicate (n + 1) Z" post] p
      unfolding rep by simp
    then have "resize_array v n = Inr (a\<lparr>mem := items v @ replicate (n - asize v) Z @ replicate (n + 1) Z\<rparr>)"
      using 3 assms(2)
      by (simp add: resize_array_def Let_def allocate_result array_set_flags_def a_def Z_def mult_2
          del: replicate_Suc)
    moreover have "items (a\<lparr>mem := items v @ replicate (n - asize v) Z @ replicate (n + 1) Z\<rparr>) =
        items v @ replicate (n - asize v) Z"
      using items_of_parts(1) [of "a\<lparr>mem := items v @ replicate (n - asize v) Z @ replicate (n + 1) Z\<rparr>" "[]"
        "items v @ replicate (n - asize v) Z" "replicate (n + 1) Z"] 3(1) p(3) by (simp add: a_def)
    ultimately show ?thesis
      using ok(2) covers_grown [of "type_field v" "items v" "n - asize v"] p(3) 3(1)
      by (auto simp: array_ok_def types_ok_def shared_ok_def block_ok_def a_def Z_def)
  qed
qed

section \<open>Removal\<close>

lemma remove_in_place:
  assumes "array_ok v" "index < asize v"
  defines "m \<equiv> (if int (asize v) - int index > 1
     then mem_copy (mem v) (int (item v + index)) (mem v) (int (item v + index + 1)) (asize v - index - 1)
     else Inr (mem v))"
  shows "\<exists>c. m = Inr c \<and> array_ok (v\<lparr>mem := c, asize := asize v - 1\<rparr>) \<and>
    items (v\<lparr>mem := c, asize := asize v - 1\<rparr>) = take index (items v) @ drop (Suc index) (items v)"
proof -
  have ok: "block_ok v" "types_ok v" "shared_ok v"
    using assms(1) by (simp_all add: array_ok_def)
  obtain pre post where p: "mem v = pre @ items v @ post" "length pre = item v"
    "length (items v) = asize v"
    using block_parts [OF ok(1)] .
  define x1 x2 y where "x1 = take index (items v)" and "x2 = drop (Suc index) (items v)"
    and "y = items v ! index"
  have x: "items v = x1 @ y # x2" "length x1 = index" "length x2 = asize v - index - 1"
    using assms(2) p(3) by (simp_all add: x1_def x2_def y_def id_take_nth_drop)
  obtain x2' z where z: "y # x2 = x2' @ [z]" "length x2' = length x2"
    by (cases "y # x2" rule: rev_cases) (auto dest: arg_cong [of _ _ length])
  have mv: "mem v = (pre @ x1) @ x2' @ z # post" "mem v = (pre @ x1 @ [y]) @ x2 @ post"
    using p(1) x(1) arg_cong [OF z(1), of "\<lambda>t. t @ post"] by simp_all
  have "m = Inr (pre @ x1 @ x2 @ z # post)"
  proof (cases "x2 = []")
    case True
    then show ?thesis
      using x assms(2) z mv(1) p(3) arg_cong [OF x(1), of length] by (simp add: m_def)
  next
    case False
    have "mem_copy ((pre @ x1) @ x2' @ z # post) (int (item v + index)) ((pre @ x1 @ [y]) @ x2 @ post)
        (int (item v + index + 1)) (asize v - index - 1) = Inr ((pre @ x1) @ x2 @ z # post)"
      using x(2,3) p(2) z(2) by (intro mem_copy_parts) auto
    then have "mem_copy (mem v) (int (item v + index)) (mem v) (int (item v + index + 1))
        (asize v - index - 1) = Inr (pre @ x1 @ x2 @ z # post)"
      using mv by (metis append_assoc)
    moreover have "int (asize v) - int index > 1"
      using False x(3) by (cases x2) auto
    ultimately show ?thesis
      by (simp add: m_def)
  qed
  moreover have "items (v\<lparr>mem := pre @ x1 @ x2 @ z # post, asize := asize v - 1\<rparr>) = x1 @ x2"
    "block_ok (v\<lparr>mem := pre @ x1 @ x2 @ z # post, asize := asize v - 1\<rparr>)"
    using items_of_parts [of "v\<lparr>mem := pre @ x1 @ x2 @ z # post, asize := asize v - 1\<rparr>" pre "x1 @ x2"
      "z # post"] p(2) x(2,3) assms(2) by simp_all
  moreover have "covers (type_field v) (x1 @ x2)"
    using covers_part [OF ok(2), of "x1 @ x2"] x(1) by auto
  ultimately show ?thesis
    using ok(3) assms(2) x1_def x2_def by (auto simp: array_ok_def types_ok_def shared_ok_def)
qed

lemma array_remove_ok:
  assumes "array_ok v" "index < asize v" "asize v \<le> 2 ^ 29"
  shows "\<exists>r. array_remove v index = Inr r \<and> array_ok r \<and>
    items r = take index (items v) @ drop (Suc index) (items v)"
proof -
  have len: "length (items v) = asize v"
    using assms(1) by (simp add: array_ok_def length_items)
  consider "asize v = 1" | "asize v \<noteq> 1" "asize v * 4 + 4 < malloced_size v"
    | "asize v \<noteq> 1" "\<not> asize v * 4 + 4 < malloced_size v"
    by blast
  then show ?thesis
  proof cases
    case 1
    then show ?thesis
      using static_ok len assms(2) by (simp add: array_remove_def array_set_flags_def)
  next
    case 2
    define x1 x2 where "x1 = take index (items v)" and "x2 = drop (Suc index) (items v)"
    have x: "length x1 = index" "length x2 = asize v - index - 1"
      using assms(2) len by (simp_all add: x1_def x2_def)
    have bl: "block_ok v"
      using assms(1) by (simp add: array_ok_def)
    define Z where "Z = VInt 0 0"
    define a where "a = \<lparr>mem = replicate (asize v - 1) Z, item = 0, asize = asize v - 1, refs = 1,
      aflags = aflags v, type_field = type_field v, shared = False\<rparr>"
    have "asize v - 1 = index + (asize v - index - 1)"
      using assms(2) by simp
    then have rep: "replicate (asize v - 1) Z = replicate index Z @ replicate (asize v - index - 1) Z"
      by (metis replicate_add)
    have c1: "(if index > 0 then mem_copy (replicate (asize v - 1) Z) 0 (mem v) (int (item v)) index
        else Inr (replicate (asize v - 1) Z)) = Inr (x1 @ replicate (asize v - index - 1) Z)"
    proof -
      obtain pre post where p: "mem v = pre @ items v @ post" "length pre = item v"
        using block_parts [OF bl] by blast
      have mv: "mem v = pre @ x1 @ drop index (items v) @ post"
        using p(1) by (simp add: x1_def)
      have "mem_copy ([] @ replicate index Z @ replicate (asize v - index - 1) Z) 0
          (pre @ x1 @ drop index (items v) @ post) (int (item v)) index
          = Inr ([] @ x1 @ replicate (asize v - index - 1) Z)"
        by (rule mem_copy_parts) (simp_all add: x(1) p(2))
      then have "mem_copy (replicate (asize v - 1) Z) 0 (mem v) (int (item v)) index
          = Inr (x1 @ replicate (asize v - index - 1) Z)"
        unfolding rep mv by simp
      moreover have "x1 = []" if "index = 0"
        using x(1) that by simp
      ultimately show ?thesis
        unfolding rep by (cases "index = 0") simp_all
    qed
    have c2: "(if int (asize v) - int index > 1
        then mem_copy (x1 @ replicate (asize v - index - 1) Z) (int index) (mem v)
               (int (item v + index + 1)) (asize v - index - 1)
        else Inr (x1 @ replicate (asize v - index - 1) Z)) = Inr (x1 @ x2)"
    proof -
      obtain pre post where p: "mem v = pre @ items v @ post" "length pre = item v"
        using block_parts [OF bl] by blast
      have mv: "mem v = (pre @ take (Suc index) (items v)) @ x2 @ post"
        using p(1) by (simp add: x2_def)
      have "mem_copy (x1 @ replicate (asize v - index - 1) Z @ []) (int index)
          ((pre @ take (Suc index) (items v)) @ x2 @ post) (int (item v + index + 1)) (asize v - index - 1)
          = Inr (x1 @ x2 @ [])"
        by (rule mem_copy_parts) (use x p(2) len assms(2) in \<open>simp_all add: min_def\<close>)
      then have "mem_copy (x1 @ replicate (asize v - index - 1) Z) (int index) (mem v)
          (int (item v + index + 1)) (asize v - index - 1) = Inr (x1 @ x2)"
        unfolding mv by simp
      moreover have "asize v - index - 1 = 0" if "\<not> int (asize v) - int index > 1"
        using that by simp
      moreover have "x2 = []" if "asize v - index - 1 = 0"
        using x(2) that by simp
      ultimately show ?thesis
        by (cases "int (asize v) - int index > 1") simp_all
    qed
    define a0 where "a0 = a\<lparr>aflags := 0, type_field := bit_mixed_unfinished\<rparr>"
    have al: "real_allocate_array (asize v - 1) 0 = Inr a0"
      using assms(2,3) 2 by (simp add: allocate_result a_def a0_def Z_def)
    have sf: "(array_set_flags a0 (aflags v))\<lparr>type_field := type_field v\<rparr> = a"
      using assms(2) 2(1) by (simp add: array_set_flags_def a0_def a_def)
    have ma: "mem a = replicate (asize v - 1) Z" "int (item a) = 0" "item a + index = index"
      by (simp_all add: a_def)
    have "array_remove v index = Inr (a\<lparr>mem := x1 @ x2\<rparr>)"
      unfolding array_remove_def if_not_P [OF 2(1)] if_P [OF 2(2)] al bind_result_simps Let_def sf ma c1 c2 ..
    moreover have "covers (type_field v) (x1 @ x2)"
      using covers_part [of v "x1 @ x2"] assms(1) set_take_subset set_drop_subset
      unfolding array_ok_def x1_def x2_def by (metis Un_least set_append)
    ultimately show ?thesis
      using x assms(2)
      by (simp add: array_ok_def types_ok_def block_ok_def shared_ok_def a_def x1_def x2_def)
  next
    case 3
    then show ?thesis
      using remove_in_place [OF assms(1,2)] by (auto simp: array_remove_def)
  qed
qed

section \<open>Slices, copies and the swap\<close>

lemma slice_array_ok:
  assumes "array_ok v" "start \<le> stop" "stop \<le> asize v" "asize v \<le> 2 ^ 29"
  shows "\<exists>r. slice_array v start stop = Inr r \<and> array_ok r \<and>
    items r = take (stop - start) (drop start (items v))"
proof -
  have sub: "covers (type_field v) (take (stop - start) (drop start (items v)))"
    using covers_part [of v] assms(1) set_take_subset set_drop_subset unfolding array_ok_def
    by (metis order_trans)
  have bl: "block_ok v"
    using assms(1) by (simp add: array_ok_def)
  show ?thesis
  proof (cases "refs v = 1 \<and> (stop - start) * 4 > malloced_size v")
    case True
    have "items (v\<lparr>refs := refs v + 1, item := item v + start, asize := stop - start\<rparr>) =
        take (stop - start) (drop start (items v))"
      using range_of_items [OF bl, of start "stop - start"] assms(2,3)
      by (simp add: items_def)
    then show ?thesis
      using True sub assms by (auto simp: slice_array_def array_ok_def types_ok_def block_ok_def shared_ok_def)
  next
    case False
    show ?thesis
    proof (cases "start = stop")
      case True
      then show ?thesis
        using False static_ok by (simp add: slice_array_def allocate_result)
    next
      case ne: False
      have "mem_copy (replicate (stop - start) (VInt 0 0)) 0 (mem v) (int (item v + start)) (stop - start)
          = Inr (take (stop - start) (drop start (items v)))"
        using copy_to_new [OF bl, of start "stop - start"] assms(2,3) by simp
      then show ?thesis
        using False ne assms sub length_items [OF bl]
        by (auto simp: slice_array_def allocate_result array_ok_def types_ok_def block_ok_def shared_ok_def)
    qed
  qed
qed

lemma copy_array_ok:
  assumes "array_ok v" "asize v \<le> 2 ^ 29"
  shows "\<exists>r. copy_array v = Inr r \<and> array_ok r \<and> items r = items v"
proof (cases "asize v = 0")
  case True
  then show ?thesis
    using static_ok by (simp add: copy_array_def items_def)
next
  case False
  have bl: "block_ok v"
    using assms(1) by (simp add: array_ok_def)
  have "mem_copy (replicate (asize v) (VInt 0 0)) 0 (mem v) (int (item v)) (asize v) = Inr (items v)"
    using copy_to_new [OF bl, of 0 "asize v"] length_items [OF bl] by simp
  then show ?thesis
    using False assms length_items [OF bl]
    by (auto simp: copy_array_def allocate_result array_ok_def types_ok_def block_ok_def shared_ok_def)
qed

section \<open>Properties\<close>

text \<open>C33: Inserting an element: it is put at the index and the later elements move up, in place or in
  a new block; the cells written lie in the block, the type field covers the new element, and
  an array that others refer to is left unchanged. A destructed object is stored as the
  zero that tells so, in the array and in the caller's value.\<close>

theorem array_insert_spec:
  assumes "array_ok v" "index \<le> asize v" "asize v < 2 ^ 28"
  shows "\<exists>r old. array_insert w v s index = Inr (r, old, check_destructed w s) \<and> array_ok r \<and>
    items r = take index (items v) @ check_destructed w s # drop index (items v) \<and>
    (refs v > 1 \<longrightarrow> old = Some (v\<lparr>refs := refs v - 1\<rparr>))"
  using array_insert_ok [OF assms(1,2), of w s] assms(3) by auto

definition demo_array :: parr where
  "demo_array = \<lparr>mem = [VInt 1 0, VInt 2 0, VInt 3 0, VInt 4 0], item = 1, asize = 2, refs = 1, aflags = 0,
     type_field = bit_int, shared = False\<rparr>"

lemma demo_array_ok: "array_ok demo_array" "items demo_array = [VInt 2 0, VInt 3 0]"
  by (simp_all add: array_ok_def block_ok_def types_ok_def shared_ok_def demo_array_def items_def bit_int_def)

theorem array_insert_spec_witness:
  "\<exists>r old. array_insert small_world demo_array (VString 7) 1 = Inr (r, old, VString 7) \<and> array_ok r \<and>
    items r = [VInt 2 0, VString 7, VInt 3 0]"
  using array_insert_spec [OF demo_array_ok(1), of 1 small_world "VString 7"] demo_array_ok(2)
  by (auto simp: demo_array_def check_destructed_def is_destructed_def)

text \<open>C34: Removing an element gives the elements before and after it, in place, in a smaller block or
  as the shared empty array.\<close>

theorem array_remove_spec:
  assumes "array_ok v" "index < asize v" "asize v \<le> 2 ^ 29"
  shows "\<exists>r. array_remove v index = Inr r \<and> array_ok r \<and>
    items r = take index (items v) @ drop (Suc index) (items v)"
  by (rule array_remove_ok [OF assms])

theorem array_remove_spec_witness:
  "\<exists>r. array_remove demo_array 0 = Inr r \<and> array_ok r \<and> items r = [VInt 3 0]"
  using array_remove_spec [OF demo_array_ok(1), of 0] demo_array_ok(2) by (auto simp: demo_array_def)

text \<open>C35: Resizing keeps the leading elements and fills with zeroes.\<close>

theorem resize_array_spec:
  assumes "array_ok v" "n < 2 ^ 28" "asize v \<le> 2 ^ 29"
  shows "\<exists>r. resize_array v n = Inr r \<and> array_ok r \<and>
    items r = take n (items v) @ replicate (n - asize v) (VInt 0 0)"
  using resize_array_ok [OF assms(1) _ assms(3), of n] assms(2) by auto

theorem resize_array_spec_witness:
  "\<exists>r. resize_array demo_array 4 = Inr r \<and> array_ok r \<and>
    items r = [VInt 2 0, VInt 3 0, VInt 0 0, VInt 0 0]"
proof -
  have "replicate 2 (VInt 0 0) = [VInt 0 0, VInt 0 0]" "asize demo_array = 2"
    by (simp_all add: numeral_2_eq_2 demo_array_def)
  then show ?thesis
    using resize_array_spec [OF demo_array_ok(1), of 4] demo_array_ok(2) by simp
qed

text \<open>A slice has the elements of its range, whether it reuses the block or not.\<close>

theorem slice_array_spec:
  assumes "array_ok v" "start \<le> stop" "stop \<le> asize v" "asize v \<le> 2 ^ 29"
  shows "\<exists>r. slice_array v start stop = Inr r \<and> array_ok r \<and>
    items r = take (stop - start) (drop start (items v))"
  by (rule slice_array_ok [OF assms])

theorem slice_array_spec_witness:
  "\<exists>r. slice_array demo_array 1 2 = Inr r \<and> array_ok r \<and> items r = [VInt 3 0]"
  using slice_array_spec [OF demo_array_ok(1), of 1 2] demo_array_ok(2) by (auto simp: demo_array_def)

text \<open>An empty slice made by \<open>friendly_slice_array\<close> is the shared empty array with the type field
  of the sliced array written into it.\<close>

theorem friendly_slice_marks_empty_array:
  assumes "type_field v \<noteq> 0"
  shows "\<exists>r. friendly_slice_array v k k = Inr r \<and> shared r \<and> \<not> shared_ok r"
  using assms by (simp add: friendly_slice_array_def allocate_result empty_array_def shared_ok_def Let_def)

theorem friendly_slice_marks_empty_array_witness:
  "\<exists>r. friendly_slice_array demo_array 1 1 = Inr r \<and> shared r \<and> \<not> shared_ok r"
  by (rule friendly_slice_marks_empty_array) (simp add: demo_array_def bit_int_def)

end
