(* ===== verification/Array_Ops.thy ===== *)
theory Array_Ops
  imports Array_Block
begin

text \<open>
  Operations on arrays that search and change elements (\<open>src/src/array.c\<close>): the search with its test
  of the type field, replacement, destructed elements, the collection of weak arrays, subtraction of
  a value, reversal, and the binary search in sorted arrays.
\<close>

section \<open>Searching\<close>

definition fast_array_search :: "world \<Rightarrow> parr \<Rightarrow> svalue \<Rightarrow> nat \<Rightarrow> nat option" where
  "fast_array_search w v s start =
     find (\<lambda>e. is_eq w (items v ! e) s) [start..<asize v]"

text \<open>The result -1 is \<open>None\<close>. The type field tells when the value cannot be there.\<close>

definition array_search :: "world \<Rightarrow> parr \<Rightarrow> svalue \<Rightarrow> nat \<Rightarrow> nat option" where
  "array_search w v s0 start =
     (let s = safe_check_destructed w s0 in
      if type_field v AND bitof s \<noteq> 0 \<or>
         is_zero w s \<and> type_field v AND (bit_function OR bit_object) \<noteq> 0 \<or>
         (type_field v OR bitof s) AND bit_object \<noteq> 0
      then fast_array_search w v s start
      else None)"

section \<open>Destructed elements and type fields\<close>

text \<open>The test the loops make: an object or a function of an object without a program.\<close>

definition elem_destructed :: "world \<Rightarrow> svalue \<Rightarrow> bool" where
  "elem_destructed w v =
     (case v of
        VObject p s \<Rightarrow> prog_of w p = None
      | VFunction p s \<Rightarrow> s \<noteq> function_builtin \<and> prog_of w p = None
      | _ \<Rightarrow> False)"

fun clean_items :: "world \<Rightarrow> svalue list \<Rightarrow> 16 word \<Rightarrow> svalue list \<times> 16 word" where
  "clean_items w [] types = ([], types)"
| "clean_items w (x # xs) types =
     (if elem_destructed w x then
        (let (ys, t) = clean_items w xs (types OR bit_int) in (VInt 0 2 # ys, t))
      else
        (let (ys, t) = clean_items w xs (accumulate_type_field w x types) in (x # ys, t)))"

definition set_items :: "parr \<Rightarrow> svalue list \<Rightarrow> parr" where
  "set_items v xs = v\<lparr>mem := take (item v) (mem v) @ xs @ drop (item v + asize v) (mem v)\<rparr>"

definition check_array_for_destruct :: "world \<Rightarrow> parr \<Rightarrow> parr" where
  "check_array_for_destruct w v =
     (if type_field v AND (bit_object OR bit_function) \<noteq> 0 then
        (let (xs, t) = clean_items w (items v) 0 in (set_items v xs)\<lparr>type_field := t\<rparr>)
      else v)"

text \<open>The index found, and the type field that is only stored when there is none.\<close>

fun find_destructed :: "world \<Rightarrow> svalue list \<Rightarrow> nat \<Rightarrow> 16 word \<Rightarrow> nat option \<times> 16 word" where
  "find_destructed w [] e types = (None, types)"
| "find_destructed w (x # xs) e types =
     (if elem_destructed w x then (Some e, types)
      else find_destructed w xs (e + 1) (accumulate_type_field w x types))"

definition array_find_destructed_object :: "world \<Rightarrow> parr \<Rightarrow> nat option \<times> parr" where
  "array_find_destructed_object w v =
     (if type_field v AND (bit_object OR bit_function) \<noteq> 0 then
        (case find_destructed w (items v) 0 0 of
           (Some e, t) \<Rightarrow> (Some e, v)
         | (None, t) \<Rightarrow> (None, v\<lparr>type_field := t\<rparr>))
      else (None, v))"

definition array_fix_type_field :: "world \<Rightarrow> parr \<Rightarrow> parr" where
  "array_fix_type_field w v =
     (if aflags v AND array_lvalue \<noteq> 0 then v\<lparr>type_field := bit_mixed_unfinished\<rparr>
      else v\<lparr>type_field := fold (\<lambda>x t.
          let t = t OR bitof x in
          if t AND bit_int = 0 \<and>
             (case x of
                VObject p s \<Rightarrow> prog_of w p = None \<or> is_bignum w p
              | VFunction p s \<Rightarrow> s \<noteq> function_builtin \<and> prog_of w p = None
              | _ \<Rightarrow> False)
          then t OR bit_int else t) (items v) 0\<rparr>)"

text \<open>\<open>array_replace\<close>: every element equal to \<open>from\<close>, searched from left to right; \<open>n\<close> bounds the
  number of turns, one for each element.\<close>

fun replace_loop :: "world \<Rightarrow> nat \<Rightarrow> parr \<Rightarrow> svalue \<Rightarrow> svalue \<Rightarrow> nat \<Rightarrow> parr result" where
  "replace_loop w 0 a from to start = Inr a"
| "replace_loop w (Suc n) a from to start =
     (case fast_array_search w a from start of
        None \<Rightarrow> Inr a
      | Some i \<Rightarrow>
          bind_result (array_set_index_no_free w a i to) (\<lambda>(a, to). replace_loop w n a from to (i + 1)))"

definition array_replace :: "world \<Rightarrow> parr \<Rightarrow> svalue \<Rightarrow> svalue \<Rightarrow> parr result" where
  "array_replace w a from to =
     (let a = check_array_for_destruct w a in replace_loop w (asize a + 1) a from to 0)"

text \<open>The garbage collection of a weak array: \<open>only_ref p\<close> tells whether the array holds the only
  reference.\<close>

definition do_gc_weak_array :: "(svalue \<Rightarrow> bool) \<Rightarrow> parr \<Rightarrow> parr \<times> nat" where
  "do_gc_weak_array only_ref a =
     (if aflags a AND array_weak_flag = 0 then (a, 0)
      else let dead = (\<lambda>s. refcounted s \<and> only_ref s)
           in (set_items a (map (\<lambda>s. if dead s then VInt 0 2 else s) (items a)),
               length (filter dead (items a))))"

section \<open>Subtracting a value\<close>

text \<open>The loop over the elements left: \<open>keep\<close> selects the elements written to \<open>dp\<close>, cell \<open>to\<close> of the
  block \<open>m\<close>; \<open>types\<close> accumulates their types.\<close>

fun match_copy ::
  "world \<Rightarrow> (svalue \<Rightarrow> bool) \<Rightarrow> svalue list \<Rightarrow> svalue list \<Rightarrow> nat \<Rightarrow> 16 word \<Rightarrow>
   (svalue list \<times> nat \<times> 16 word) result" where
  "match_copy w keep [] m to types = Inr (m, to, types)"
| "match_copy w keep (x # xs) m to types =
     (if keep x then
        bind_result (mem_set m (int to) x) (\<lambda>m.
          match_copy w keep xs m (to + 1) (accumulate_type_field w x types))
      else match_copy w keep xs m to types)"

text \<open>The end of the function: nothing is stored when no element was removed in place.\<close>

definition subtract_finish ::
  "world \<Rightarrow> bool \<Rightarrow> parr \<Rightarrow> (svalue \<Rightarrow> bool) \<Rightarrow> svalue list \<Rightarrow> nat \<Rightarrow> 16 word \<Rightarrow> parr result" where
  "subtract_finish w destructive r keep xs from types =
     bind_result (match_copy w keep xs (mem r) (item r + from) types) (\<lambda>(m, to, types).
       let r = (if destructive \<and> to = item r + from + length xs then r\<lparr>mem := m\<rparr>
                else r\<lparr>mem := m, asize := to - item r, type_field := types\<rparr>)
       in Inr (if asize r \<noteq> 0 then r else empty_array))"

text \<open>The choice of the loop, with the test of the type field.\<close>

definition subtract_loop ::
  "world \<Rightarrow> svalue \<Rightarrow> bool \<Rightarrow> parr \<Rightarrow> svalue list \<Rightarrow> nat \<Rightarrow> 16 word \<Rightarrow> parr result" where
  "subtract_loop w b destructive r xs from types =
     (if is_zero w b then subtract_finish w destructive r (\<lambda>x. \<not> is_zero w x) xs from types
      else if type_field r AND bitof b \<noteq> 0 \<or> (type_field r OR bitof b) AND bit_object \<noteq> 0
      then subtract_finish w destructive r (\<lambda>x. \<not> is_eq w x b) xs from types
      else Inr r)"

definition subtract_array_svalue :: "world \<Rightarrow> parr \<Rightarrow> svalue \<Rightarrow> parr result" where
  "subtract_array_svalue w a b =
     (if asize a = 0 then copy_array a
      else if refs a > 1 then
        (case fast_array_search w a b 0 of
           None \<Rightarrow> copy_array a
         | Some off \<Rightarrow>
             bind_result (real_allocate_array (asize a - 1) 0) (\<lambda>r.
             bind_result (mem_copy (mem r) (int (item r)) (mem a) (int (item a)) off) (\<lambda>m.
             subtract_loop w b False (r\<lparr>mem := m, asize := off, type_field := type_field a\<rparr>)
               (drop off (items a)) off (fold (accumulate_type_field w) (take off (items a)) 0))))
      else subtract_loop w b True a (items a) 0 0)"

section \<open>Reversal\<close>

text \<open>The swaps in place, between the cells \<open>i\<close> and \<open>j\<close>.\<close>

function swap_loop :: "svalue list \<Rightarrow> nat \<Rightarrow> nat \<Rightarrow> svalue list" where
  "swap_loop m i j =
     (if i < j then swap_loop (m[i := m ! (j - 1), j - 1 := m ! i]) (i + 1) (j - 1) else m)"
  by pat_completeness auto
termination
  by (relation "measure (\<lambda>(m, i, j). j - i)") auto

declare swap_loop.simps [simp del]

text \<open>Reading \<open>ITEM(a)[k]\<close> for a computed index.\<close>

definition read_item :: "parr \<Rightarrow> int \<Rightarrow> svalue result" where
  "read_item a k =
     (if int (item a) + k < 0 \<or> int (item a) + k \<ge> int (malloced_size a) then Inl Bad_Memory_Access
      else Inr (mem a ! nat (int (item a) + k)))"

fun read_items :: "parr \<Rightarrow> int list \<Rightarrow> svalue list result" where
  "read_items a [] = Inr []"
| "read_items a (k # ks) =
     bind_result (read_item a k) (\<lambda>x. bind_result (read_items a ks) (\<lambda>xs. Inr (x # xs)))"

text \<open>\<open>end\<close> is the index of the last element to reverse; in the copying branch element \<open>e\<close> is read
  from \<open>end+~e-start\<close>.\<close>

definition reverse_array :: "parr \<Rightarrow> int \<Rightarrow> int \<Rightarrow> parr result" where
  "reverse_array a start stop =
     (if stop \<le> start \<or> start \<ge> int (asize a) then Inr a
      else
        let stop = (if stop \<ge> int (asize a) then int (asize a) else stop + 1) in
        if refs a = 1 then
          if int (item a) + start < 0 then Inl Bad_Memory_Access else
          Inr (a\<lparr>mem := swap_loop (mem a) (nat (int (item a) + start)) (nat (int (item a) + stop))\<rparr>)
        else
          bind_result (real_allocate_array (asize a) 0) (\<lambda>ret.
          bind_result (read_items a ([0..start - 1] @
              map (\<lambda>e. stop + (- e - 1) - start) [max 0 start..stop - 1] @
              [stop..int (asize a) - 1])) (\<lambda>xs.
          Inr (ret\<lparr>mem := xs, type_field := type_field a\<rparr>))))"

section \<open>Binary search\<close>

function lookup_loop :: "(svalue \<Rightarrow> int) \<Rightarrow> svalue list \<Rightarrow> nat \<Rightarrow> nat \<Rightarrow> int" where
  "lookup_loop cmp xs a b =
     (if b > a then
        (let c = (a + b) div 2; q = cmp (xs ! c) in
         if q < 0 then lookup_loop cmp xs (c + 1) b
         else if q > 0 then lookup_loop cmp xs a c
         else int c)
      else
        (let a = (if a < length xs \<and> cmp (xs ! a) < 0 then a + 1 else a) in - int a - 1))"
  by pat_completeness auto
termination
  by (relation "measure (\<lambda>(cmp, xs, a, b). b - a)") auto

declare lookup_loop.simps [simp del]

definition low_lookup :: "(svalue \<Rightarrow> svalue \<Rightarrow> int) \<Rightarrow> parr \<Rightarrow> svalue \<Rightarrow> int" where
  "low_lookup fn v s = lookup_loop (\<lambda>x. fn x s) (items v) 0 (asize v)"

text \<open>\<open>BIT_MIXED << TYPEOF(*s)\<close> and \<open>(2 << TYPEOF(*s)) - 1\<close> are computed as \<open>int\<close>.\<close>

definition no_larger_types :: "16 word \<Rightarrow> svalue \<Rightarrow> bool" where
  "no_larger_types tf s \<longleftrightarrow> push_bit (typeof s) 0xff7f AND 0xff7f AND uint tf = 0"

definition no_smaller_types :: "16 word \<Rightarrow> svalue \<Rightarrow> bool" where
  "no_smaller_types tf s \<longleftrightarrow> (push_bit (typeof s) 2 - 1) AND uint tf = 0"

definition set_lookup :: "(svalue \<Rightarrow> svalue \<Rightarrow> int) \<Rightarrow> parr \<Rightarrow> svalue \<Rightarrow> int" where
  "set_lookup cmp a s =
     (if \<not> is_object s \<and> type_field a AND bit_object = 0 then
        (if no_smaller_types (type_field a) s then - 1
         else if no_larger_types (type_field a) s then - int (asize a) - 1
         else low_lookup cmp a s)
      else low_lookup cmp a s)"

section \<open>The search is complete\<close>

lemma bitof_and: "tf AND bitof x \<noteq> 0 \<longleftrightarrow> bit tf (typeof x)"
proof
  assume "tf AND bitof x \<noteq> 0"
  then obtain n where "bit (tf AND bitof x) n"
    by (metis bit_eqI bit_0_eq bot_apply bot_bool_def)
  then show "bit tf (typeof x)"
    by (auto simp: bit_and_iff bit_bitof)
next
  assume "bit tf (typeof x)"
  then have "bit (tf AND bitof x) (typeof x)"
    by (simp add: bit_and_iff bit_bitof)
  then show "tf AND bitof x \<noteq> 0"
    by auto
qed

lemma bit_object_is: "bit_object = bitof (VObject p s)" "bit_function = bitof (VFunction p s)"
  by (simp_all add: bit_object_def bit_function_def bitof_def)

lemma and_bit_object: "tf AND bit_object \<noteq> 0 \<longleftrightarrow> bit tf 11"
  using bitof_and [of tf "VObject 0 0"] bit_object_is(1) [of 0 0] by simp

lemma and_two_bits:
  "tf AND (bit_function OR bit_object) \<noteq> 0 \<longleftrightarrow> bit tf 11 \<or> bit tf 12"
proof -
  have "tf AND (bit_function OR bit_object) = (tf AND bit_function) OR (tf AND bit_object)"
    by (rule bit_eqI) (auto simp: bit_simps)
  moreover have "tf AND bit_function \<noteq> 0 \<longleftrightarrow> bit tf 12"
    using bitof_and [of tf "VFunction 0 0"] bit_object_is(2) [of 0 0] by simp
  ultimately show ?thesis
    using and_bit_object [of tf] by (auto simp: or_eq_0_iff)
qed

lemma check_idem [simp]: "safe_check_destructed w (safe_check_destructed w v) = safe_check_destructed w v"
  by (auto simp: safe_check_destructed_def is_destructed_def)

lemma is_eq_check [simp]: "is_eq w x (safe_check_destructed w s) = is_eq w x s"
  by (simp add: is_eq_def)

lemma eq_types:
  assumes "is_eq w x s" "safe_check_destructed w s = s"
    "\<forall>p. s \<noteq> VProgram p" "\<forall>p t. s = VFunction p t \<longrightarrow> program_from_function w p t = None"
  shows "typeof x = typeof s \<or> typeof x = 11 \<or> typeof s = 11 \<or> typeof x = 12 \<and> is_zero w s"
proof (cases "is_destructed w x")
  case True
  then show ?thesis
    using assms(1,2)
    by (cases x; cases s) (auto simp: is_destructed_def is_eq_def safe_check_destructed_def is_zero_def
        b_is_obj_def call_eq_def Let_def split: if_splits)
next
  case False
  then have "safe_check_destructed w x = x"
    by (simp add: safe_check_destructed_def)
  then show ?thesis
    using assms by (cases x; cases s) (auto simp: is_eq_def Let_def)
qed

lemma array_search_complete:
  assumes "types_ok v" "block_ok v" "\<forall>p. s \<noteq> VProgram p"
    "\<forall>p t. s = VFunction p t \<longrightarrow> program_from_function w p t = None"
  shows "array_search w v s start = fast_array_search w v s start"
proof (cases "fast_array_search w v s start")
  case None
  then show ?thesis
    by (simp add: array_search_def Let_def fast_array_search_def)
next
  case (Some e)
  define s' where "s' = safe_check_destructed w s"
  have e: "e < asize v" "is_eq w (items v ! e) s'"
    using Some by (auto simp: fast_array_search_def find_Some_iff s'_def)
  have s': "safe_check_destructed w s' = s'" "\<forall>p. s' \<noteq> VProgram p"
    "\<forall>p t. s' = VFunction p t \<longrightarrow> program_from_function w p t = None"
    using assms(3,4) by (auto simp: s'_def safe_check_destructed_def)
  have "bit (type_field v) (typeof (items v ! e))"
    using assms(1) e(1) length_items [OF assms(2)] by (simp add: types_ok_def covers_def)
  moreover have "bit (bitof s') 11" if "typeof s' = 11"
    using that by (simp add: bit_bitof)
  ultimately have "type_field v AND bitof s' \<noteq> 0 \<or>
      is_zero w s' \<and> type_field v AND (bit_function OR bit_object) \<noteq> 0 \<or>
      (type_field v OR bitof s') AND bit_object \<noteq> 0"
    using eq_types [OF e(2) s'] unfolding bitof_and and_two_bits and_bit_object bit_or_iff by auto
  then show ?thesis
    by (simp add: array_search_def Let_def fast_array_search_def flip: s'_def) (simp add: s'_def)
qed

section \<open>Reversal in place\<close>

lemma swap_loop_rev:
  "i + length xs = j \<Longrightarrow> length pre = i \<Longrightarrow> swap_loop (pre @ xs @ post) i j = pre @ rev xs @ post"
proof (induction "length xs" arbitrary: xs pre post i j rule: less_induct)
  case less
  show ?case
  proof (cases "length xs < 2")
    case True
    then consider "xs = []" | x where "xs = [x]"
      by (cases xs) auto
    then show ?thesis
    proof cases
      case 1
      then show ?thesis
        using less.prems by (simp add: swap_loop.simps)
    next
      case (2 x)
      then show ?thesis
        using less.prems by (auto simp: swap_loop.simps nth_append list_update_append)
    qed
  next
    case False
    then obtain x ys y where xs: "xs = x # ys @ [y]"
      by (cases xs; cases "tl xs" rule: rev_cases) auto
    have "swap_loop (pre @ xs @ post) i j = swap_loop ((pre @ [y]) @ ys @ (x # post)) (i + 1) (j - 1)"
      using less.prems xs
      by (subst swap_loop.simps) (auto simp: nth_append list_update_append nth_Cons')
    also have "\<dots> = (pre @ [y]) @ rev ys @ (x # post)"
      using less.prems xs by (intro less.hyps) auto
    finally show ?thesis
      by (simp add: xs)
  qed
qed

lemma reverse_in_place:
  assumes "array_ok a" "refs a = 1" "0 \<le> start" "start < stop" "stop < int (asize a)"
  defines "b \<equiv> nat start" and "e \<equiv> nat stop + 1"
  shows "\<exists>r. reverse_array a start stop = Inr r \<and> array_ok r \<and>
    items r = take b (items a) @ rev (drop b (take e (items a))) @ drop e (items a)"
proof -
  have ok: "block_ok a" "types_ok a" "shared_ok a"
    using assms(1) by (simp_all add: array_ok_def)
  obtain pre post where p: "mem a = pre @ items a @ post" "length pre = item a"
    "length (items a) = asize a"
    using block_parts [OF ok(1)] .
  have be: "b < e" "e \<le> asize a"
    using assms by auto
  define x1 x2 x3 where "x1 = take b (items a)" and "x2 = drop b (take e (items a))"
    and "x3 = drop e (items a)"
  have x: "items a = x1 @ x2 @ x3" "length x1 = b" "length x2 = e - b"
    using be p(3) unfolding x1_def x2_def x3_def
    by (simp_all add: min_def) (metis append_assoc append_take_drop_id less_imp_le_nat min.absorb_iff1 take_take)
  have mv: "mem a = (pre @ x1) @ x2 @ (x3 @ post)"
    using p(1) x(1) by simp
  have "swap_loop (mem a) (item a + b) (item a + e) = (pre @ x1) @ rev x2 @ (x3 @ post)"
    unfolding mv using x p(2) be by (intro swap_loop_rev) auto
  moreover have "nat (int (item a) + start) = item a + b" "nat (int (item a) + (stop + 1)) = item a + e"
    using assms by (simp_all add: nat_add_distrib)
  ultimately have r: "reverse_array a start stop = Inr (a\<lparr>mem := pre @ (x1 @ rev x2 @ x3) @ post\<rparr>)"
    using assms(2-5) by (simp add: reverse_array_def Let_def)
  have i: "items (a\<lparr>mem := pre @ (x1 @ rev x2 @ x3) @ post\<rparr>) = x1 @ rev x2 @ x3"
    "block_ok (a\<lparr>mem := pre @ (x1 @ rev x2 @ x3) @ post\<rparr>)"
    using items_of_parts [of "a\<lparr>mem := pre @ (x1 @ rev x2 @ x3) @ post\<rparr>" pre "x1 @ rev x2 @ x3" post]
      p(2,3) x arg_cong [OF x(1), of length] by simp_all
  have "covers (type_field a) (x1 @ rev x2 @ x3)"
    using covers_part [OF ok(2), of "x1 @ rev x2 @ x3"] x(1) by auto
  moreover have "shared_ok (a\<lparr>mem := pre @ (x1 @ rev x2 @ x3) @ post\<rparr>)"
    using ok(3) be by (auto simp: shared_ok_def)
  ultimately show ?thesis
    unfolding r using i by (auto simp: array_ok_def types_ok_def x1_def x2_def x3_def)
qed

text \<open>The copying branch reads \<open>ITEM(a)[-start]\<close> for the last element of the range.\<close>

lemma read_items_bad: "k \<in> set ks \<Longrightarrow> int (item a) + k < 0 \<Longrightarrow> read_items a ks = Inl Bad_Memory_Access"
proof (induction ks)
  case (Cons k' ks)
  have "read_item a k = Inl Bad_Memory_Access" if "int (item a) + k < 0" for k
    using that by (simp add: read_item_def)
  moreover have "read_item a k' = Inl Bad_Memory_Access \<or> (\<exists>x. read_item a k' = Inr x)"
    by (simp add: read_item_def)
  ultimately show ?case
    using Cons by auto
qed simp

lemma reverse_copy_bad:
  assumes "refs a \<noteq> 1" "item a = 0" "0 < start" "start < stop" "stop < int (asize a)" "asize a \<le> 2 ^ 29"
  shows "reverse_array a start stop = Inl Bad_Memory_Access"
proof -
  have "\<not> (stop \<le> start \<or> start \<ge> int (asize a))" "\<not> stop \<ge> int (asize a)"
    using assms by auto
  moreover have "- start \<in> (\<lambda>e. stop + 1 + (- e - 1) - start) ` set [max 0 start..stop + 1 - 1]"
    using assms by (auto intro!: image_eqI [of _ _ stop])
  then have "read_items a ([0..start - 1] @ map (\<lambda>e. stop + 1 + (- e - 1) - start) [max 0 start..stop + 1 - 1] @
      [stop + 1..int (asize a) - 1]) = Inl Bad_Memory_Access"
    using assms(2,3) by (intro read_items_bad [of "- start"]) auto
  ultimately show ?thesis
    using assms by (simp add: reverse_array_def Let_def allocate_result)
qed

section \<open>The binary search\<close>

text \<open>A list sorted for the lookup of a value: the signs of the comparisons ascend.\<close>

definition lookup_sorted :: "(svalue \<Rightarrow> int) \<Rightarrow> svalue list \<Rightarrow> bool" where
  "lookup_sorted cmp xs \<longleftrightarrow> sorted (map (\<lambda>x. sgn (cmp x)) xs)"

lemma lookup_sorted_nth:
  "lookup_sorted cmp xs \<Longrightarrow> i \<le> j \<Longrightarrow> j < length xs \<Longrightarrow> sgn (cmp (xs ! i)) \<le> sgn (cmp (xs ! j))"
  unfolding lookup_sorted_def using sorted_nth_mono [of "map (\<lambda>x. sgn (cmp x)) xs" i j] by simp

lemma lookup_loop_correct:
  assumes "lookup_sorted cmp xs" "b \<le> length xs" "a \<le> b"
    "\<forall>i < a. cmp (xs ! i) < 0" "\<forall>i. b \<le> i \<and> i < length xs \<longrightarrow> cmp (xs ! i) > 0"
  shows "(\<exists>i < length xs. lookup_loop cmp xs a b = int i \<and> cmp (xs ! i) = 0) \<or>
    (\<exists>k \<le> length xs. lookup_loop cmp xs a b = - int k - 1 \<and> (\<forall>i < k. cmp (xs ! i) < 0) \<and>
      (\<forall>i. k \<le> i \<and> i < length xs \<longrightarrow> cmp (xs ! i) > 0))"
  using assms
proof (induction cmp xs a b rule: lookup_loop.induct)
  case (1 cmp xs a b)
  define c where "c = (a + b) div 2"
  show ?case
  proof (cases "b > a")
    case True
    then have c: "a \<le> c" "c < b" "c < length xs"
      using "1.prems"(2) by (auto simp: c_def)
    have below: "cmp (xs ! i) < 0" if "cmp (xs ! c) < 0" "i < c + 1" for i
      using lookup_sorted_nth [OF "1.prems"(1), of i c] that c by (auto simp: sgn_if split: if_splits)
    have above: "cmp (xs ! i) > 0" if "cmp (xs ! c) > 0" "c \<le> i" "i < length xs" for i
      using lookup_sorted_nth [OF "1.prems"(1), of c i] that c by (auto simp: sgn_if split: if_splits)
    consider "cmp (xs ! c) < 0" | "cmp (xs ! c) > 0" | "cmp (xs ! c) = 0"
      by linarith
    then show ?thesis
    proof cases
      case 1
      have "lookup_loop cmp xs a b = lookup_loop cmp xs (c + 1) b"
        using True 1 by (subst lookup_loop.simps) (simp add: Let_def c_def)
      then show ?thesis
        using "1.IH"(1) [OF True c_def refl 1 "1.prems"(1,2)] c below [OF 1] "1.prems"(5) by auto
    next
      case 2
      have "lookup_loop cmp xs a b = lookup_loop cmp xs a c"
        using True 2 by (subst lookup_loop.simps) (simp add: Let_def c_def)
      then show ?thesis
        using "1.IH"(2) [OF True c_def refl _ 2 "1.prems"(1)] 2 c above [OF 2] "1.prems"(4) by auto
    next
      case 3
      then have "lookup_loop cmp xs a b = int c"
        using True by (subst lookup_loop.simps) (simp add: Let_def c_def)
      then show ?thesis
        using 3 c by blast
    qed
  next
    case False
    then have ab: "a = b"
      using "1.prems"(3) by simp
    have "\<not> (a < length xs \<and> cmp (xs ! a) < 0)"
      using "1.prems"(5) ab by auto
    then have "lookup_loop cmp xs a b = - int a - 1"
      using ab by (subst lookup_loop.simps) auto
    then show ?thesis
      using "1.prems"(2,4,5) ab by blast
  qed
qed

section \<open>Subtraction\<close>

lemma match_copy_parts:
  "length (filter keep xs) \<le> length ys \<Longrightarrow>
    match_copy w keep xs (pre @ ys) (length pre) types =
    Inr (pre @ filter keep xs @ drop (length (filter keep xs)) ys, length pre + length (filter keep xs),
      fold (accumulate_type_field w) (filter keep xs) types)"
proof (induction xs arbitrary: pre ys types)
  case (Cons x xs)
  show ?case
  proof (cases "keep x")
    case True
    then obtain y ys' where ys: "ys = y # ys'"
      using Cons.prems by (cases ys) auto
    have "match_copy w keep xs ((pre @ [x]) @ ys') (length (pre @ [x])) (accumulate_type_field w x types) =
        Inr ((pre @ [x]) @ filter keep xs @ drop (length (filter keep xs)) ys',
          length (pre @ [x]) + length (filter keep xs),
          fold (accumulate_type_field w) (filter keep xs) (accumulate_type_field w x types))"
      using Cons.prems True ys by (intro Cons.IH) simp
    then show ?thesis
      using True ys mem_set_parts [of "int (length pre)" pre y ys' x] by simp
  next
    case False
    then show ?thesis
      using Cons by simp
  qed
qed simp

lemma accumulate_bits:
  "bit t n \<Longrightarrow> bit (accumulate_type_field w x t) n" "bit (accumulate_type_field w x t) (typeof x)"
  by (auto simp: accumulate_type_field_def Let_def bit_or_iff bit_bitof)

lemma fold_accumulate:
  "bit t n \<Longrightarrow> bit (fold (accumulate_type_field w) xs t) n"
  "covers (fold (accumulate_type_field w) xs t) xs"
proof -
  have mono: "bit t n \<Longrightarrow> bit (fold (accumulate_type_field w) xs t) n" for t n xs
    by (induction xs arbitrary: t) (auto intro: accumulate_bits)
  show "bit t n \<Longrightarrow> bit (fold (accumulate_type_field w) xs t) n"
    by (rule mono)
  show "covers (fold (accumulate_type_field w) xs t) xs"
    by (induction xs arbitrary: t) (auto intro: mono accumulate_bits)
qed

text \<open>When the type test fails no element is equal to the value.\<close>

lemma type_test_complete:
  assumes "covers tf xs" "x \<in> set xs" "is_eq w x s" "\<not> is_zero w s" "\<forall>p. s \<noteq> VProgram p"
    "\<forall>p t. s = VFunction p t \<longrightarrow> program_from_function w p t = None"
  shows "tf AND bitof s \<noteq> 0 \<or> (tf OR bitof s) AND bit_object \<noteq> 0"
proof -
  have "safe_check_destructed w s = s"
    using assms(4) by (cases s)
      (auto simp: safe_check_destructed_def is_destructed_def is_zero_def svalue_is_true_def
        split: if_splits option.splits)
  then have "typeof x = typeof s \<or> typeof x = 11 \<or> typeof s = 11"
    using eq_types [OF assms(3) _ assms(5,6)] assms(4) by blast
  moreover have "bit tf (typeof x)"
    using assms(1,2) by (simp add: covers_def)
  ultimately show ?thesis
    unfolding bitof_and and_bit_object bit_or_bitof by auto
qed

text \<open>The value may be removed by the test for zero only when that agrees with equality.\<close>

definition zero_agrees :: "world \<Rightarrow> svalue list \<Rightarrow> svalue \<Rightarrow> bool" where
  "zero_agrees w xs b \<longleftrightarrow> (is_zero w b \<longrightarrow> (\<forall>x \<in> set xs. is_zero w x \<longleftrightarrow> is_eq w x b))"

lemma empty_result: "array_ok empty_array" "items empty_array = []"
  using static_ok by auto

lemma subtract_in_place:
  assumes "array_ok a" "asize a \<noteq> 0"
  shows "\<exists>r. subtract_finish w True a keep (items a) 0 0 = Inr r \<and> array_ok r \<and>
    items r = filter keep (items a)"
proof -
  have ok: "block_ok a" "types_ok a" "shared_ok a"
    using assms(1) by (simp_all add: array_ok_def)
  obtain pre post where p: "mem a = pre @ items a @ post" "length pre = item a"
    "length (items a) = asize a"
    using block_parts [OF ok(1)] .
  define f where "f = filter keep (items a)"
  define t where "t = fold (accumulate_type_field w) f 0"
  define rest where "rest = drop (length f) (items a @ post)"
  have lf: "length f \<le> length (items a)"
    by (simp add: f_def)
  have mc: "match_copy w keep (items a) (mem a) (item a + 0) 0 = Inr (pre @ f @ rest, item a + length f, t)"
    using match_copy_parts [of keep "items a" "items a @ post" w pre 0] p(1,2)
      trans_le_add1 [OF length_filter_le, of keep "items a" "length post"]
    by (simp add: f_def t_def rest_def)
  have ns: "\<not> shared a"
    using ok(3) assms(2) by (auto simp: shared_ok_def)
  show ?thesis
  proof (cases "length f = asize a")
    case True
    then have "f = items a"
      using p(3) unfolding f_def by (metis filter_id_conv length_filter_less order_less_irrefl)
    then have "pre @ f @ rest = mem a"
      using p(1,3) by (simp add: rest_def)
    then have "subtract_finish w True a keep (items a) 0 0 = Inr (a\<lparr>mem := mem a\<rparr>)"
      using mc True p(3) assms(2) by (simp add: subtract_finish_def)
    then show ?thesis
      using assms(1) \<open>f = items a\<close> by (simp add: f_def)
  next
    case False
    define r where "r = a\<lparr>mem := pre @ f @ rest, asize := length f, type_field := t\<rparr>"
    have "subtract_finish w True a keep (items a) 0 0 = Inr (if length f \<noteq> 0 then r else empty_array)"
      using mc False p(3) by (simp add: subtract_finish_def r_def)
    moreover have "items r = f" "block_ok r"
      using items_of_parts [of r pre f rest] p(2) by (simp_all add: r_def)
    moreover have "covers t f"
      unfolding t_def by (rule fold_accumulate)
    ultimately show ?thesis
      using empty_result ns
      by (auto simp: array_ok_def types_ok_def shared_ok_def r_def simp flip: f_def)
  qed
qed

lemma subtract_copy:
  assumes "array_ok a" "off < asize a" "asize a \<le> 2 ^ 29" "list_all keep (take off (items a))"
    "\<not> keep (items a ! off)"
  shows "\<exists>r. bind_result (real_allocate_array (asize a - 1) 0) (\<lambda>r.
      bind_result (mem_copy (mem r) (int (item r)) (mem a) (int (item a)) off) (\<lambda>m.
      subtract_finish w False (r\<lparr>mem := m, asize := off, type_field := type_field a\<rparr>) keep
        (drop off (items a)) off (fold (accumulate_type_field w) (take off (items a)) 0))) = Inr r \<and>
    array_ok r \<and> items r = filter keep (items a)"
proof -
  have ok: "block_ok a"
    using assms(1) by (simp add: array_ok_def)
  obtain pre post where p: "mem a = pre @ items a @ post" "length pre = item a"
    "length (items a) = asize a"
    using block_parts [OF ok] .
  define x1 x2 where "x1 = take off (items a)" and "x2 = drop off (items a)"
  have x: "items a = x1 @ x2" "length x1 = off" "length x2 = asize a - off"
    using assms(2) p(3) by (simp_all add: x1_def x2_def)
  have x2: "x2 = items a ! off # drop (Suc off) (items a)"
    unfolding x2_def using assms(2) p(3) by (simp add: Cons_nth_drop_Suc)
  have "filter keep x1 = x1"
    using assms(4) by (simp add: x1_def list_all_iff filter_id_conv)
  then have fk1: "filter keep (items a) = x1 @ filter keep x2"
    by (simp add: x(1))
  have "filter keep x2 = filter keep (drop (Suc off) (items a))"
    unfolding x2 using assms(5) by simp
  then have fk2: "length (filter keep x2) \<le> asize a - off - 1"
    using length_filter_le [of keep "drop (Suc off) (items a)"] p(3) by simp
  note fk = fk1 fk2
  define t where "t = fold (accumulate_type_field w) (filter keep x2) (fold (accumulate_type_field w) x1 0)"
  have tf: "t = fold (accumulate_type_field w) (x1 @ filter keep x2) 0"
    by (simp add: t_def)
  show ?thesis
  proof (cases "asize a = 1")
    case True
    then have off: "off = 0" "filter keep x2 = []" "x1 = []"
      using assms(2) fk(2) x(2) by auto
    then have "match_copy w keep x2 [] 0 0 = Inr ([], 0, 0)"
      using match_copy_parts [of keep x2 "[]" w "[]" 0] by simp
    then have fin: "subtract_finish w False (empty_array\<lparr>mem := [], asize := 0, type_field := type_field a\<rparr>) keep
        x2 0 (fold (accumulate_type_field w) x1 0) = Inr empty_array"
      using off(3) by (simp add: subtract_finish_def empty_array_def)
    have al: "real_allocate_array (asize a - 1) 0 = Inr empty_array"
      using True by (simp add: allocate_result)
    have c: "mem_copy (mem empty_array) (int (item empty_array)) (mem a) (int (item a)) 0 = Inr []"
      by (simp add: mem_copy_def empty_array_def)
    have "filter keep (items a) = []"
      using fk(1) off(2,3) by simp
    then show ?thesis
      unfolding x1_def [symmetric] x2_def [symmetric] al bind_result_simps unfolding off(1) c bind_result_simps fin
      using empty_result by simp
  next
    case False
    define Z where "Z = VInt 0 0"
    define r0 where "r0 = \<lparr>mem = replicate (asize a - 1) Z, item = 0, asize = asize a - 1, refs = 1, aflags = 0,
      type_field = bit_mixed_unfinished, shared = False\<rparr>"
    have al: "real_allocate_array (asize a - 1) 0 = Inr r0"
      using assms(2,3) False by (simp add: allocate_result r0_def Z_def)
    define k where "k = asize a - 1 - off"
    have "asize a - 1 = off + k"
      using assms(2) by (simp add: k_def)
    then have rep: "mem r0 = replicate off Z @ replicate k Z" "item r0 = 0"
      by (simp_all add: r0_def replicate_add)
    have mv: "mem a = pre @ x1 @ (x2 @ post)"
      using p(1) x(1) by simp
    have c: "mem_copy (mem r0) (int (item r0)) (mem a) (int (item a)) off = Inr (x1 @ replicate k Z)"
      using mem_copy_parts [of off x1 "replicate off Z" 0 "[]" "int (item a)" pre "replicate k Z" "x2 @ post"]
        x(2) p(2) unfolding rep mv by simp
    define rest where "rest = drop (length (filter keep x2)) (replicate k Z)"
    have mc: "match_copy w keep x2 (x1 @ replicate k Z) off (fold (accumulate_type_field w) x1 0) =
        Inr (x1 @ filter keep x2 @ rest, off + length (filter keep x2), t)"
      using match_copy_parts [of keep x2 "replicate k Z" w x1] fk(2) x(2)
      by (simp add: k_def t_def rest_def)
    define r where "r = r0\<lparr>mem := x1 @ filter keep x2 @ rest, asize := off + length (filter keep x2),
      type_field := t\<rparr>"
    have fin: "subtract_finish w False (r0\<lparr>mem := x1 @ replicate k Z, asize := off, type_field := type_field a\<rparr>)
        keep x2 off (fold (accumulate_type_field w) x1 0) =
        Inr (if off + length (filter keep x2) \<noteq> 0 then r else empty_array)"
      using mc by (simp add: subtract_finish_def rep r_def)
    have "items r = x1 @ filter keep x2" "block_ok r"
      using items_of_parts [of r "[]" "x1 @ filter keep x2" rest] x(2) by (simp_all add: r_def r0_def)
    moreover have "covers t (x1 @ filter keep x2)"
      unfolding tf by (rule fold_accumulate)
    ultimately have "array_ok r" "items r = filter keep (items a)"
      by (simp_all add: array_ok_def types_ok_def shared_ok_def r_def r0_def fk(1))
    then show ?thesis
      unfolding al bind_result_simps c x1_def [symmetric] x2_def [symmetric] fin
      using empty_result fk(1) x(2) by auto
  qed
qed

lemma fast_search_splits:
  assumes "block_ok a" "fast_array_search w a b 0 = Some off"
  shows "off < asize a" "is_eq w (items a ! off) b" "\<forall>x \<in> set (take off (items a)). \<not> is_eq w x b"
proof -
  have f: "off < asize a" "is_eq w (items a ! off) b" "\<forall>j < off. \<not> is_eq w (items a ! j) b"
    using assms(2) by (auto simp: fast_array_search_def find_Some_iff)
  then show "off < asize a" "is_eq w (items a ! off) b"
    by simp_all
  show "\<forall>x \<in> set (take off (items a)). \<not> is_eq w x b"
    using f length_items [OF assms(1)] by (auto simp: in_set_conv_nth)
qed

lemma fast_search_none:
  assumes "block_ok a" "fast_array_search w a b 0 = None"
  shows "filter (\<lambda>x. \<not> is_eq w x b) (items a) = items a"
  using assms(2) length_items [OF assms(1)]
  by (auto simp: fast_array_search_def find_None_iff in_set_conv_nth intro!: filter_True)

text \<open>With \<open>zero_agrees\<close> the two loops keep the same elements.\<close>

lemma subtract_keep:
  assumes "zero_agrees w xs b" "is_zero w b" "set ys \<subseteq> set xs"
  shows "filter (\<lambda>x. \<not> is_zero w x) ys = filter (\<lambda>x. \<not> is_eq w x b) ys"
    "x \<in> set xs \<Longrightarrow> is_zero w x = is_eq w x b"
  using assms by (auto simp: zero_agrees_def intro!: filter_cong)

lemma subtract_shared:
  assumes "array_ok a" "asize a \<le> 2 ^ 29" "fast_array_search w a b 0 = Some off"
    "zero_agrees w (items a) b" "\<forall>p. b \<noteq> VProgram p"
    "\<forall>p t. b = VFunction p t \<longrightarrow> program_from_function w p t = None"
  shows "\<exists>r. bind_result (real_allocate_array (asize a - 1) 0) (\<lambda>r.
      bind_result (mem_copy (mem r) (int (item r)) (mem a) (int (item a)) off) (\<lambda>m.
      subtract_loop w b False (r\<lparr>mem := m, asize := off, type_field := type_field a\<rparr>)
        (drop off (items a)) off (fold (accumulate_type_field w) (take off (items a)) 0))) = Inr r \<and>
    array_ok r \<and> items r = filter (\<lambda>x. \<not> is_eq w x b) (items a)"
proof -
  have ok: "block_ok a" "types_ok a"
    using assms(1) by (simp_all add: array_ok_def)
  have f: "off < asize a" "is_eq w (items a ! off) b"
      "\<forall>x \<in> set (take off (items a)). \<not> is_eq w x b"
    using fast_search_splits [OF ok(1) assms(3)] .
  have mem: "items a ! off \<in> set (items a)"
    using f(1) length_items [OF ok(1)] by simp
  show ?thesis
  proof (cases "is_zero w b")
    case True
    have z: "is_zero w x = is_eq w x b" if "x \<in> set (items a)" for x
      using subtract_keep(2) [OF assms(4) True order_refl that] .
    have "list_all (\<lambda>x. \<not> is_zero w x) (take off (items a))" "\<not> \<not> is_zero w (items a ! off)"
      using f z mem in_set_takeD unfolding list_all_iff by (metis (no_types, lifting))+
    from subtract_copy [OF assms(1) f(1) assms(2) this, of w] show ?thesis
      using True subtract_keep(1) [OF assms(4) True, of "items a"] by (simp add: subtract_loop_def)
  next
    case False
    have "type_field a AND bitof b \<noteq> 0 \<or> (type_field a OR bitof b) AND bit_object \<noteq> 0"
      using type_test_complete [OF _ mem f(2) False assms(5,6)] ok(2) unfolding types_ok_def by blast
    moreover have "list_all (\<lambda>x. \<not> is_eq w x b) (take off (items a))" "\<not> \<not> is_eq w (items a ! off) b"
      using f by (simp_all add: list_all_iff)
    ultimately show ?thesis
      using False subtract_copy [OF assms(1) f(1) assms(2), of "\<lambda>x. \<not> is_eq w x b" w]
      by (simp add: subtract_loop_def)
  qed
qed

lemma subtract_array_svalue_ok:
  assumes "array_ok a" "asize a \<le> 2 ^ 29" "zero_agrees w (items a) b" "\<forall>p. b \<noteq> VProgram p"
    "\<forall>p t. b = VFunction p t \<longrightarrow> program_from_function w p t = None"
  shows "\<exists>r. subtract_array_svalue w a b = Inr r \<and> array_ok r \<and>
    items r = filter (\<lambda>x. \<not> is_eq w x b) (items a)"
proof -
  have ok: "block_ok a" "types_ok a"
    using assms(1) by (simp_all add: array_ok_def)
  consider "asize a = 0" | "asize a \<noteq> 0" "refs a > 1" "fast_array_search w a b 0 = None"
    | off where "asize a \<noteq> 0" "refs a > 1" "fast_array_search w a b 0 = Some off"
    | "asize a \<noteq> 0" "\<not> refs a > 1"
    by fastforce
  then show ?thesis
  proof cases
    case 1
    then show ?thesis
      using copy_array_ok [OF assms(1,2)] by (simp add: subtract_array_svalue_def items_def)
  next
    case 2
    then show ?thesis
      using copy_array_ok [OF assms(1,2)] fast_search_none [OF ok(1) 2(3)]
      by (simp add: subtract_array_svalue_def)
  next
    case 3
    then show ?thesis
      using subtract_shared [OF assms(1,2) 3(3) assms(3-5)] by (simp add: subtract_array_svalue_def)
  next
    case 4
    consider "is_zero w b"
      | "\<not> is_zero w b" "type_field a AND bitof b \<noteq> 0 \<or> (type_field a OR bitof b) AND bit_object \<noteq> 0"
      | "\<not> is_zero w b" "\<not> (type_field a AND bitof b \<noteq> 0 \<or> (type_field a OR bitof b) AND bit_object \<noteq> 0)"
      by blast
    then show ?thesis
    proof cases
      case 1
      then show ?thesis
        using 4 subtract_in_place [OF assms(1) 4(1), where keep = "\<lambda>x. \<not> is_zero w x" and w = w]
          subtract_keep(1) [OF assms(3) 1, of "items a"]
        by (simp add: subtract_array_svalue_def subtract_loop_def)
    next
      case 2
      then show ?thesis
        using 4 subtract_in_place [OF assms(1) 4(1), where keep = "\<lambda>x. \<not> is_eq w x b" and w = w]
        by (auto simp: subtract_array_svalue_def subtract_loop_def)
    next
      case 3
      have "filter (\<lambda>x. \<not> is_eq w x b) (items a) = items a"
        using type_test_complete [OF _ _ _ 3(1) assms(4,5)] 3(2) ok(2) unfolding types_ok_def
        by (intro filter_True) blast
      then show ?thesis
        using 3 4 assms(1) by (auto simp: subtract_array_svalue_def subtract_loop_def)
    qed
  qed
qed

text \<open>The values that are removed as the operator \<open>==\<close> says: a zero only from an array whose zeroes are the
  elements equal to it, and no program or function of a program, which the type test does not
  know to be equal to each other.\<close>

definition removable :: "world \<Rightarrow> svalue list \<Rightarrow> svalue \<Rightarrow> bool" where
  "removable w xs b \<longleftrightarrow> zero_agrees w xs b \<and> (\<forall>p. b \<noteq> VProgram p) \<and>
     (\<forall>p t. b = VFunction p t \<longrightarrow> program_from_function w p t = None)"

text \<open>The condition on zeroes holds for plain values.\<close>

lemma zero_agrees_plain:
  assumes "\<forall>x \<in> set xs. (case x of VObject p s \<Rightarrow> False | VFunction p s \<Rightarrow> False | _ \<Rightarrow> True)" "b = VInt 0 t"
  shows "zero_agrees w xs b"
  using assms unfolding zero_agrees_def
  by (auto simp: is_zero_def is_eq_def safe_check_destructed_def is_destructed_def split: svalue.splits)

section \<open>Properties\<close>

text \<open>C36: The search skips an array whose type field has no bit that an equal element could have:
  unless a program is searched for (which a function may equal), it finds what the plain search
  over the elements finds.\<close>

theorem array_search_spec:
  assumes "array_ok v" "\<forall>p. s \<noteq> VProgram p"
    "\<forall>p t. s = VFunction p t \<longrightarrow> program_from_function w p t = None"
  shows "array_search w v s start = find (\<lambda>e. is_eq w (items v ! e) s) [start..<asize v]"
  using array_search_complete [OF _ _ assms(2,3), of v] assms(1)
  by (simp add: array_ok_def fast_array_search_def)

theorem array_search_spec_witness:
  "array_search small_world demo_array (VInt 3 0) 0 = Some 1"
  using array_search_spec [OF demo_array_ok(1), of "VInt 3 0" small_world 0] demo_array_ok(2)
  by (simp add: demo_array_def is_eq_def safe_check_destructed_def is_destructed_def upt_rec Let_def)

text \<open>C37: Removing a value from an array gives the elements that are not equal to it by the operator \<open>==\<close>, in
  a new array when the array is shared and in place otherwise, and the type field of the result
  covers them. This is for a value that is not a program nor a function of a program (see
  \<open>program_missed\<close> below), and, when the value is a zero, for an array in which the elements that
  count as zero are those equal to it: there the code tests for zero instead.\<close>

theorem subtract_array_svalue_spec:
  assumes "array_ok a" "asize a \<le> 2 ^ 29" "removable w (items a) b"
  shows "\<exists>r. subtract_array_svalue w a b = Inr r \<and> array_ok r \<and>
    items r = filter (\<lambda>x. \<not> is_eq w x b) (items a)"
  using subtract_array_svalue_ok [OF assms(1,2)] assms(3) unfolding removable_def by blast

theorem subtract_array_svalue_spec_witness:
  "\<exists>r. subtract_array_svalue small_world demo_array (VInt 2 0) = Inr r \<and> array_ok r \<and> items r = [VInt 3 0]"
proof -
  have "removable small_world (items demo_array) (VInt 2 0)"
    by (simp add: removable_def zero_agrees_def is_zero_def svalue_is_true_def)
  then show ?thesis
    using subtract_array_svalue_spec [OF demo_array_ok(1), of small_world "VInt 2 0"] demo_array_ok(2)
    by (simp add: demo_array_def is_eq_def safe_check_destructed_def is_destructed_def Let_def)
qed

definition program_array :: parr where
  "program_array = \<lparr>mem = [VInt 1 0, VFunction 5 3, VInt 2 0], item = 0, asize = 3, refs = 2, aflags = 0,
     type_field = bit_int OR bit_function, shared = False\<rparr>"

text \<open>The type test of the search and of the subtraction does not know that a function may equal a
  program. The search misses the element, and the subtraction from a shared array, which has
  found it, returns the elements before it only.\<close>

theorem program_missed:
  "array_ok program_array \<and> fast_array_search small_world program_array (VProgram 9) 0 = Some 1 \<and>
   array_search small_world program_array (VProgram 9) 0 = None \<and>
   (\<exists>r. subtract_array_svalue small_world program_array (VProgram 9) = Inr r \<and> items r = [VInt 1 0])"
proof -
  have i: "items program_array = [VInt 1 0, VFunction 5 3, VInt 2 0]"
    by (simp add: items_def program_array_def)
  have e: "\<not> is_eq small_world (VInt 1 0) (VProgram 9)" "is_eq small_world (VFunction 5 3) (VProgram 9)"
    by (simp_all add: is_eq_def safe_check_destructed_def is_destructed_def small_world_def Let_def)
  have f: "fast_array_search small_world program_array (VProgram 9) 0 = Some 1"
    unfolding fast_array_search_def i using e by (simp add: program_array_def upt_rec)
  have ok: "array_ok program_array"
    by (simp add: array_ok_def block_ok_def types_ok_def shared_ok_def i)
      (simp add: program_array_def bit_int_def bit_function_def bit_or_iff bit_simps covers_def)
  have t: "\<not> is_zero small_world (VProgram 9)" "type_field program_array AND bitof (VProgram 9) = 0"
    "(type_field program_array OR bitof (VProgram 9)) AND bit_object = 0"
    "safe_check_destructed small_world (VProgram 9) = VProgram 9"
    by (simp_all add: is_zero_def program_array_def bit_int_def bit_function_def bitof_def bit_object_def
        safe_check_destructed_def is_destructed_def)
  have "array_search small_world program_array (VProgram 9) 0 = None"
    using t by (simp add: array_search_def)
  moreover have "\<exists>r. subtract_array_svalue small_world program_array (VProgram 9) = Inr r \<and> items r = [VInt 1 0]"
    using f t i by (simp add: subtract_array_svalue_def allocate_result subtract_loop_def)
      (simp add: program_array_def mem_copy_def items_def numeral_2_eq_2)
  ultimately show ?thesis
    using f ok by blast
qed

text \<open>Reversing a range of an unshared array reverses exactly that range in place.\<close>

theorem reverse_array_spec:
  assumes "array_ok a" "refs a = 1" "0 \<le> start" "start < stop" "stop < int (asize a)"
  shows "\<exists>r. reverse_array a start stop = Inr r \<and> array_ok r \<and>
    items r = take (nat start) (items a) @ rev (drop (nat start) (take (nat stop + 1) (items a))) @
      drop (nat stop + 1) (items a)"
  using reverse_in_place [OF assms] .

theorem reverse_array_spec_witness:
  "\<exists>r. reverse_array demo_array 0 1 = Inr r \<and> array_ok r \<and> items r = [VInt 3 0, VInt 2 0]"
  using reverse_array_spec [OF demo_array_ok(1), of 0 1] demo_array_ok(2) by (simp add: demo_array_def)

text \<open>The copying branch, taken for a shared array, computes the mirrored index as
  \<open>end - 1 - e - start\<close>: for every range that does not begin at 0 the last read is before the
  first element of the array.\<close>

theorem reverse_shared_reads_outside:
  assumes "refs a \<noteq> 1" "item a = 0" "0 < start" "start < stop" "stop < int (asize a)" "asize a \<le> 2 ^ 29"
  shows "reverse_array a start stop = Inl Bad_Memory_Access"
  by (rule reverse_copy_bad [OF assms])

theorem reverse_shared_reads_outside_witness: "reverse_array program_array 1 2 = Inl Bad_Memory_Access"
  by (rule reverse_shared_reads_outside) (simp_all add: program_array_def)

text \<open>C38: The binary search in a sorted array returns an index of an equal element or, as a negative
  number, the place where the value belongs.\<close>

theorem low_lookup_spec:
  assumes "array_ok v" "lookup_sorted (\<lambda>x. fn x s) (items v)"
  shows "(\<exists>i < asize v. low_lookup fn v s = int i \<and> fn (items v ! i) s = 0) \<or>
    (\<exists>k \<le> asize v. low_lookup fn v s = - int k - 1 \<and> (\<forall>i < k. fn (items v ! i) s < 0) \<and>
      (\<forall>i. k \<le> i \<and> i < asize v \<longrightarrow> fn (items v ! i) s > 0))"
  using lookup_loop_correct [OF assms(2), of "asize v" 0] length_items [of v] assms(1)
  by (simp add: array_ok_def low_lookup_def)

theorem low_lookup_spec_witness:
  "low_lookup (\<lambda>x y. int (typeof x) - int (typeof y)) demo_array (VString 1) = - 3"
proof -
  have sz: "asize demo_array = Suc (Suc 0)"
    by (simp add: demo_array_def)
  have "lookup_sorted (\<lambda>x. int (typeof x) - int (typeof (VString 1))) (items demo_array)"
    by (simp add: lookup_sorted_def demo_array_ok(2))
  from low_lookup_spec [where fn = "\<lambda>x y. int (typeof x) - int (typeof y)", OF demo_array_ok(1) this] show ?thesis
    using sz by (auto simp: demo_array_ok(2) less_Suc_eq le_Suc_eq nth_Cons' split: if_splits)
qed

text \<open>The atomic exchange of an element stores the new value without adding its type to the type
  field: the search then does not see it.\<close>

theorem atomic_get_set_type_field:
  "\<exists>r. array_atomic_get_set demo_array 0 (VString 7) = Inr (r, VInt 2 0) \<and> \<not> types_ok r \<and>
     items r = [VString 7, VInt 3 0] \<and> array_search small_world r (VString 7) 0 = None"
proof -
  define r where "r = demo_array\<lparr>mem := [VInt 1 0, VString 7, VInt 3 0, VInt 4 0]\<rparr>"
  have "array_atomic_get_set demo_array 0 (VString 7) = Inr (r, VInt 2 0)"
    by (simp add: array_atomic_get_set_def array_pos_def demo_array_def r_def)
  moreover have i: "items r = [VString 7, VInt 3 0]"
    by (simp add: r_def demo_array_def items_def)
  moreover have "\<not> types_ok r"
    unfolding types_ok_def i by (simp add: r_def demo_array_def bit_int_def covers_def)
  moreover have "array_search small_world r (VString 7) 0 = None"
    by (simp add: array_search_def r_def demo_array_def bit_int_def bitof_def bit_object_def
        safe_check_destructed_def is_destructed_def is_zero_def)
  ultimately show ?thesis
    by blast
qed

definition weak_array :: parr where
  "weak_array = \<lparr>mem = [VArray 3, VArray 4], item = 0, asize = 2, refs = 1, aflags = array_weak_flag,
     type_field = bitof (VArray 3), shared = False\<rparr>"

text \<open>Collecting the garbage of a weak array replaces dead elements by zeroes without adding the
  type of integers to the type field: the search does not see the zeroes.\<close>

theorem gc_weak_array_type_field:
  "array_ok weak_array \<and>
   (\<exists>r. do_gc_weak_array (\<lambda>s. s = VArray 3) weak_array = (r, 1) \<and>
     items r = [VInt 0 2, VArray 4] \<and> \<not> types_ok r \<and>
     fast_array_search small_world r (VInt 0 0) 0 = Some 0 \<and>
     array_search small_world r (VInt 0 0) 0 = None)"
proof -
  define r where "r = weak_array\<lparr>mem := [VInt 0 2, VArray 4]\<rparr>"
  have i: "items weak_array = [VArray 3, VArray 4]" "items r = [VInt 0 2, VArray 4]"
    by (simp_all add: items_def weak_array_def r_def)
  have "array_ok weak_array"
    by (simp add: array_ok_def block_ok_def types_ok_def shared_ok_def i)
      (simp add: weak_array_def bit_bitof covers_def)
  moreover have "do_gc_weak_array (\<lambda>s. s = VArray 3) weak_array = (r, 1)"
    by (simp add: do_gc_weak_array_def i set_items_def)
      (simp add: weak_array_def array_weak_flag_def r_def refcounted_def)
  moreover have "\<not> types_ok r"
    by (simp add: types_ok_def i) (simp add: r_def weak_array_def covers_def bit_bitof)
  moreover have "fast_array_search small_world r (VInt 0 0) 0 = Some 0"
    unfolding fast_array_search_def i
    by (simp add: r_def weak_array_def upt_rec is_eq_def safe_check_destructed_def is_destructed_def)
  moreover have "array_search small_world r (VInt 0 0) 0 = None"
    by (simp add: array_search_def r_def weak_array_def bit_function_def bitof_def bit_object_def
        safe_check_destructed_def is_destructed_def)
  ultimately show ?thesis
    using i(2) by blast
qed

end
