(* ===== verification/Mapping_Data.thy ===== *)
theory Mapping_Data
  imports Array_Ops
begin

text \<open>
  The hash tables behind mappings (\<open>src/src/mapping.c\<close>, \<open>src/src/mapping.h\<close>): key pairs in chains,
  one for each slot, the search in a chain, linking and unlinking a pair and the rehashing of a
  table into another. The sharing of tables between mappings is in \<open>Mapping_Heap\<close>.
\<close>

section \<open>Tables\<close>

text \<open>The link \<open>next\<close> of a pair is its place in the list.\<close>

record keypair =
  hval :: "64 word"
  ind :: svalue
  val :: svalue

text \<open>The hash size is the length of \<open>hash\<close>; the free list is represented by its length.\<close>

record mapping_data =
  md_refs :: nat
  valrefs :: nat
  hardlinks :: nat
  md_size :: nat
  num_keypairs :: nat
  ind_types :: "16 word"
  val_types :: "16 word"
  md_flags :: "16 word"
  free_list :: nat
  hash :: "keypair list list"

abbreviation hashsize :: "mapping_data \<Rightarrow> nat" where
  "hashsize md \<equiv> length (hash md)"

definition mapping_weak_indices :: "16 word" where "mapping_weak_indices = 2"
definition mapping_weak_values :: "16 word" where "mapping_weak_values = 4"
definition mapping_weak :: "16 word" where "mapping_weak = 6"
definition mapping_flag_no_shrink :: "16 word" where "mapping_flag_no_shrink = 0x1000"

definition avg_link_length :: nat where "avg_link_length = 4"

definition map_slots :: "nat \<Rightarrow> nat" where
  "map_slots x = (if x \<noteq> 0 then x + drop_bit 4 x + 8 else 0)"

definition md_fullp :: "mapping_data \<Rightarrow> bool" where
  "md_fullp md \<longleftrightarrow> free_list md = 0"

definition check_type_contains :: "16 word \<Rightarrow> svalue \<Rightarrow> bool" where
  "check_type_contains types s \<longleftrightarrow> is_object s \<or> types AND (bit_object OR bitof s) \<noteq> 0"

text \<open>The masks: \<open>h2 & (md->hashsize - 1)\<close> in the searches, and the same after the hash value was
  stored in an \<open>unsigned INT32\<close> in the rehashing.\<close>

definition slot :: "64 word \<Rightarrow> nat \<Rightarrow> nat" where
  "slot h n = unat (h AND word_of_int (int n - 1))"

definition slot32 :: "64 word \<Rightarrow> nat \<Rightarrow> nat" where
  "slot32 h n = unat ((ucast h :: 32 word) AND word_of_int (int n - 1))"

definition find_next_power :: "nat \<Rightarrow> nat" where
  "find_next_power x = (if x \<le> 1 then 1 else 2 ^ (my_log2 (x - 1) + 1))"

text \<open>\<open>hashsize & (hashsize - 1)\<close> tells whether the size must be rounded up.\<close>

definition round_hashsize :: "nat \<Rightarrow> nat" where
  "round_hashsize n = (if n AND (n - 1) \<noteq> 0 then find_next_power n else n)"

text \<open>The table \<open>init_mapping\<close> allocates for a hash size other than 0. The number of its pairs is
  computed as an \<open>INT32\<close>.\<close>

definition new_table :: "nat \<Rightarrow> 16 word \<Rightarrow> mapping_data" where
  "new_table n flags =
     (let size = n * avg_link_length in
      \<lparr>md_refs = 1, valrefs = 0, hardlinks = 0, md_size = 0, num_keypairs = size, ind_types = 0,
       val_types = 0, md_flags = flags, free_list = size, hash = replicate n []\<rparr>)"

definition init_data :: "nat \<Rightarrow> 16 word \<Rightarrow> mapping_data result" where
  "init_data n flags =
     (let n = round_hashsize n in
      if int n * int avg_link_length \<ge> 2 ^ 31 then Inl Int_Overflow else Inr (new_table n flags))"

text \<open>The static tables of the empty mappings. Their values are locked for ever.\<close>

definition empty_data :: "16 word \<Rightarrow> mapping_data" where
  "empty_data flags =
     \<lparr>md_refs = 1, valrefs = 1, hardlinks = 0, md_size = 0, num_keypairs = 0, ind_types = 0,
      val_types = 0, md_flags = flags, free_list = 0, hash = []\<rparr>"

section \<open>Searching\<close>

text \<open>\<open>LOW_FIND\<close>: the slot and the position in its chain. The operators of objects do not change
  the mapping (they are functions of the world), so the data is the same after the search.\<close>

fun chain_find :: "(svalue \<Rightarrow> bool) \<Rightarrow> 64 word \<Rightarrow> keypair list \<Rightarrow> nat option" where
  "chain_find eq h2 [] = None"
| "chain_find eq h2 (k # ks) =
     (if h2 = hval k \<and> eq (ind k) then Some 0 else map_option Suc (chain_find eq h2 ks))"

definition low_find :: "world \<Rightarrow> mapping_data \<Rightarrow> svalue \<Rightarrow> (nat \<times> nat) option" where
  "low_find w md key =
     (if hashsize md \<noteq> 0 then
        (let h2 = hash_svalue w key; h = slot h2 (hashsize md) in
         if check_type_contains (ind_types md) key
         then map_option (Pair h) (chain_find (\<lambda>i. is_eq w i key) h2 (hash md ! h))
         else None)
      else None)"

definition keypair_at :: "mapping_data \<Rightarrow> nat \<times> nat \<Rightarrow> keypair" where
  "keypair_at md p = hash md ! fst p ! snd p"

definition update_pair :: "nat \<times> nat \<Rightarrow> (keypair \<Rightarrow> keypair) \<Rightarrow> mapping_data \<Rightarrow> mapping_data" where
  "update_pair p f md =
     md\<lparr>hash := (hash md)[fst p := (hash md ! fst p)[snd p := f (hash md ! fst p ! snd p)]]\<rparr>"

section \<open>Linking and unlinking\<close>

text \<open>Taking a pair from an empty free list would dereference a null pointer.\<close>

definition link_pair :: "world \<Rightarrow> nat \<Rightarrow> keypair \<Rightarrow> mapping_data \<Rightarrow> mapping_data result" where
  "link_pair w h k md =
     (if free_list md = 0 then Inl Bad_Memory_Access
      else Inr (md\<lparr>free_list := free_list md - 1, hash := (hash md)[h := k # hash md ! h],
        ind_types := accumulate_type_field w (ind k) (ind_types md),
        val_types := accumulate_type_field w (val k) (val_types md),
        md_size := md_size md + 1\<rparr>))"

definition remove_nth :: "nat \<Rightarrow> 'a list \<Rightarrow> 'a list" where
  "remove_nth i xs = take i xs @ drop (Suc i) xs"

text \<open>\<open>*prev = k->next\<close> and \<open>FREE_KEYPAIR\<close>.\<close>

definition unlink_pair :: "nat \<times> nat \<Rightarrow> mapping_data \<Rightarrow> mapping_data" where
  "unlink_pair p md =
     md\<lparr>hash := (hash md)[fst p := remove_nth (snd p) (hash md ! fst p)],
        free_list := free_list md + 1, md_size := md_size md - 1\<rparr>"

section \<open>Rehashing\<close>

text \<open>Whether a pair of a weak mapping is kept. \<open>multi\<close> tells which values have more than one
  reference. The two functions differ in the treatment of values without reference counts.\<close>

definition keep_evil :: "(svalue \<Rightarrow> bool) \<Rightarrow> 16 word \<Rightarrow> keypair \<Rightarrow> bool" where
  "keep_evil multi flags k =
     (let f = flags AND mapping_weak in
      if f = 0 then True
      else if f = mapping_weak_indices then \<not> refcounted (ind k) \<or> multi (ind k)
      else if f = mapping_weak_values then \<not> refcounted (val k) \<or> multi (val k)
      else (\<not> refcounted (ind k) \<or> multi (ind k)) \<and> (\<not> refcounted (val k) \<or> multi (val k)))"

definition keep_good :: "(svalue \<Rightarrow> bool) \<Rightarrow> 16 word \<Rightarrow> keypair \<Rightarrow> bool" where
  "keep_good multi flags k =
     (let f = flags AND mapping_weak in
      if f = 0 then True
      else if f = mapping_weak_indices then refcounted (ind k) \<and> multi (ind k)
      else if f = mapping_weak_values then refcounted (val k) \<and> multi (val k)
      else (\<not> refcounted (ind k) \<or> multi (ind k)) \<and> (\<not> refcounted (val k) \<or> multi (val k)))"

text \<open>A chain is moved from its last pair to its first, so that the pairs keep their order.\<close>

fun rehash_chain ::
  "world \<Rightarrow> (16 word \<Rightarrow> keypair \<Rightarrow> bool) \<Rightarrow> keypair list \<Rightarrow> mapping_data \<Rightarrow> mapping_data result" where
  "rehash_chain w keep [] md = Inr md"
| "rehash_chain w keep (k # ks) md =
     bind_result (rehash_chain w keep ks md) (\<lambda>md.
       if keep (md_flags md) k then link_pair w (slot32 (hval k) (hashsize md)) k md else Inr md)"

fun rehash_chains ::
  "world \<Rightarrow> (16 word \<Rightarrow> keypair \<Rightarrow> bool) \<Rightarrow> keypair list list \<Rightarrow> mapping_data \<Rightarrow>
   mapping_data result" where
  "rehash_chains w keep [] md = Inr md"
| "rehash_chains w keep (c # cs) md =
     bind_result (rehash_chain w keep c md) (\<lambda>md. rehash_chains w keep cs md)"

section \<open>Weak mappings and type fields\<close>

text \<open>The quick collection of a weak mapping keeps the pairs that the copying rehash keeps.\<close>

definition do_gc_weak_mapping :: "(svalue \<Rightarrow> bool) \<Rightarrow> mapping_data \<Rightarrow> mapping_data \<times> nat" where
  "do_gc_weak_mapping multi md =
     (if md_flags md AND mapping_weak = 0 \<or> md_refs md \<noteq> 1 then (md, 0)
      else
        (let h = map (filter (keep_good multi (md_flags md))) (hash md);
             n = length (concat (hash md)) - length (concat h)
         in (md\<lparr>hash := h, free_list := free_list md + n, md_size := md_size md - n\<rparr>, n)))"

definition all_pairs :: "mapping_data \<Rightarrow> keypair list" where
  "all_pairs md = concat (hash md)"

definition mapping_fix_type_field :: "world \<Rightarrow> mapping_data \<Rightarrow> mapping_data" where
  "mapping_fix_type_field w md =
     md\<lparr>val_types := fold (accumulate_type_field w) (map val (all_pairs md)) 0,
        ind_types := fold (accumulate_type_field w) (map ind (all_pairs md)) 0\<rparr>"

section \<open>The invariant\<close>

text \<open>Every pair is in the slot of its hash value, which is the one of its key; no two keys are
  equal; the keys are plain; the counters agree with the chains.\<close>

definition chains_ok :: "world \<Rightarrow> keypair list list \<Rightarrow> bool" where
  "chains_ok w cs \<longleftrightarrow>
     (\<forall>i < length cs. \<forall>k \<in> set (cs ! i). slot (hval k) (length cs) = i) \<and>
     (\<forall>k \<in> set (concat cs). hval k = hash_svalue w (ind k) \<and> plain_value w (ind k)) \<and>
     sorted_wrt (\<lambda>k k'. \<not> is_eq w (ind k) (ind k')) (concat cs)"

definition power_size :: "nat \<Rightarrow> bool" where
  "power_size n \<longleftrightarrow> (\<exists>e \<le> 28. n = 2 ^ e)"

definition md_ok :: "world \<Rightarrow> mapping_data \<Rightarrow> bool" where
  "md_ok w md \<longleftrightarrow>
     (hash md = [] \<or> power_size (hashsize md)) \<and> chains_ok w (hash md) \<and>
     md_size md = length (all_pairs md) \<and>
     md_size md + free_list md = avg_link_length * hashsize md \<and>
     num_keypairs md = avg_link_length * hashsize md \<and>
     covers (ind_types md) (map ind (all_pairs md)) \<and> covers (val_types md) (map val (all_pairs md))"

text \<open>The value a table holds for a key.\<close>

definition md_lookup :: "world \<Rightarrow> mapping_data \<Rightarrow> svalue \<Rightarrow> svalue option" where
  "md_lookup w md key = map_option val (find (\<lambda>k. is_eq w (ind k) key) (all_pairs md))"

section \<open>Keys with an equality and a hash function\<close>

text \<open>What a hash table relies on: on the valid keys the equality is an equivalence and equal keys
  have the same hash value. \<open>key\<close> is the key of an entry of the table.\<close>

locale hashed_keys =
  fixes eq :: "'k \<Rightarrow> 'k \<Rightarrow> bool" and hashf :: "'k \<Rightarrow> 64 word" and valid :: "'k \<Rightarrow> bool"
  assumes eq_refl: "valid a \<Longrightarrow> eq a a"
    and eq_sym: "valid a \<Longrightarrow> valid b \<Longrightarrow> eq a b = eq b a"
    and eq_trans: "valid a \<Longrightarrow> valid b \<Longrightarrow> valid c \<Longrightarrow> eq a b \<Longrightarrow> eq b c \<Longrightarrow> eq a c"
    and eq_hash: "valid a \<Longrightarrow> valid b \<Longrightarrow> eq a b \<Longrightarrow> hashf a = hashf b"
begin

lemma distinct_middle:
  assumes "\<forall>x \<in> set (as @ p # bs). valid (key x)"
  shows "sorted_wrt (\<lambda>x y. \<not> eq (key x) (key y)) (as @ p # bs) \<longleftrightarrow>
    (\<forall>x \<in> set (as @ bs). \<not> eq (key x) (key p)) \<and> sorted_wrt (\<lambda>x y. \<not> eq (key x) (key y)) (as @ bs)"
  using assms eq_sym by (auto simp: sorted_wrt_append ball_Un)

lemma find_distinct:
  assumes "\<forall>x \<in> set ps. valid (key x)" "valid q"
    "sorted_wrt (\<lambda>x y. \<not> eq (key x) (key y)) ps"
  shows "find (\<lambda>p. eq (key p) q) ps = Some p \<longleftrightarrow> p \<in> set ps \<and> eq (key p) q"
  using assms
proof (induction ps)
  case (Cons x xs)
  have "\<not> eq (key p) q" if "eq (key x) q" "p \<in> set xs"
    using that Cons.prems eq_trans [of "key x" q "key p"] eq_sym [of q "key p"] by auto
  then show ?case
    using Cons by auto
qed simp

lemma find_same_set:
  assumes "\<forall>x \<in> set ps. valid (key x)" "valid q" "set ps = set ps'"
    "sorted_wrt (\<lambda>x y. \<not> eq (key x) (key y)) ps" "sorted_wrt (\<lambda>x y. \<not> eq (key x) (key y)) ps'"
  shows "find (\<lambda>p. eq (key p) q) ps = find (\<lambda>p. eq (key p) q) ps'"
proof (cases "find (\<lambda>p. eq (key p) q) ps'")
  case None
  then have "find (\<lambda>p. eq (key p) q) ps = None"
    using assms(3) by (simp add: find_None_iff)
  then show ?thesis
    using None by simp
next
  case (Some p)
  then show ?thesis
    using find_distinct [OF assms(1,2,4)] find_distinct [OF _ assms(2,5)] assms(1,3) by metis
qed

end

interpretation keys: hashed_keys "is_eq w" "hash_svalue w" "plain_value w" for w
  by unfold_locales (auto intro: plain_refl plain_hash plain_trans simp: plain_sym)

abbreviation distinct_keys :: "world \<Rightarrow> keypair list \<Rightarrow> bool" where
  "distinct_keys w \<equiv> sorted_wrt (\<lambda>k k'. \<not> is_eq w (ind k) (ind k'))"

section \<open>Slots\<close>

lemma slot_mod:
  assumes "power_size n"
  shows "slot h n = unat h mod n" "slot32 h n = unat h mod n" "slot h n < n"
proof -
  obtain e where e: "n = 2 ^ e" "e \<le> 28"
    using assms by (auto simp: power_size_def)
  have m: "(word_of_int (int n - 1) :: 64 word) = mask e" "(word_of_int (int n - 1) :: 32 word) = mask e"
    by (simp_all add: e(1) mask_eq_exp_minus_1)
  have "slot h n = unat (take_bit e h)"
    unfolding slot_def m by (simp add: take_bit_eq_mask)
  then show s: "slot h n = unat h mod n"
    unfolding unsigned_take_bit_eq by (simp add: e(1) take_bit_eq_mod)
  have "slot32 h n = unat (take_bit e (ucast h :: 32 word))"
    unfolding slot32_def m by (simp add: take_bit_eq_mask)
  also have "\<dots> = take_bit e (take_bit 32 (unat h))"
    by (simp add: unsigned_take_bit_eq unsigned_ucast_eq)
  also have "\<dots> = unat h mod n"
    using e by (simp add: take_bit_take_bit min_def) (simp add: take_bit_eq_mod)
  finally show "slot32 h n = unat h mod n" .
  show "slot h n < n"
    unfolding s by (simp add: e(1))
qed

lemma my_log2_bounds: "0 < x \<Longrightarrow> 2 ^ my_log2 x \<le> x \<and> x < 2 ^ (my_log2 x + 1)"
proof (induction x rule: my_log2.induct)
  case (1 x)
  show ?case
  proof (cases "x < 2")
    case True
    then show ?thesis
      using "1.prems" by (simp add: my_log2.simps)
  next
    case False
    then have "2 ^ my_log2 (x div 2) \<le> x div 2 \<and> x div 2 < 2 ^ (my_log2 (x div 2) + 1)"
      using 1 by simp
    then show ?thesis
      using False by (subst (1 2) my_log2.simps) auto
  qed
qed

text \<open>The bit test recognises the powers of two.\<close>

lemma and_pred_zero:
  fixes n :: nat
  assumes "0 < n"
  shows "n AND (n - 1) = 0 \<longleftrightarrow> (\<exists>e. n = 2 ^ e)"
proof
  assume z: "n AND (n - 1) = 0"
  define e where "e = my_log2 n"
  have b: "2 ^ e \<le> n" "n < 2 * 2 ^ e"
    using my_log2_bounds [OF assms] by (simp_all add: e_def)
  have bit_e: "bit m e" if "2 ^ e \<le> m" "m < 2 * 2 ^ e" for m :: nat
  proof -
    have "m div 2 ^ e = 1"
      using that by (intro div_nat_eqI) auto
    then show ?thesis
      by (simp add: bit_iff_odd)
  qed
  show "\<exists>e. n = 2 ^ e"
  proof (rule ccontr)
    assume "\<nexists>e. n = 2 ^ e"
    then have "n \<noteq> 2 ^ e"
      by blast
    then have "bit (n AND (n - 1)) e"
      using b bit_e [of n] bit_e [of "n - 1"] by (simp add: bit_and_iff)
    then show False
      using z by simp
  qed
next
  assume "\<exists>e. n = 2 ^ e"
  then obtain e where "n = 2 ^ e"
    by blast
  then have "n AND (n - 1) = take_bit e n"
    by (simp add: take_bit_eq_mask mask_eq_exp_minus_1)
  then show "n AND (n - 1) = 0"
    using \<open>n = 2 ^ e\<close> by simp
qed

lemma round_power: "power_size n \<Longrightarrow> round_hashsize n = n"
  using and_pred_zero [of n] by (auto simp: round_hashsize_def power_size_def)

lemma round_hashsize_ok:
  assumes "0 < n" "n \<le> 2 ^ 28"
  shows "power_size (round_hashsize n)" "n \<le> round_hashsize n"
proof -
  have "power_size (round_hashsize n) \<and> n \<le> round_hashsize n"
  proof (cases "n AND (n - 1) = 0")
    case True
    then obtain e where "n = 2 ^ e"
      using and_pred_zero [OF assms(1)] by blast
    moreover have "e \<le> 28"
      using assms(2) \<open>n = 2 ^ e\<close> power_le_imp_le_exp [of "2 :: nat" e 28] by simp
    ultimately show ?thesis
      using True by (auto simp: round_hashsize_def power_size_def)
  next
    case False
    then have "n \<noteq> 1"
      by auto
    then have "0 < n - 1" "1 < n"
      using assms(1) by auto
    then have l: "2 ^ my_log2 (n - 1) \<le> n - 1" "n - 1 < 2 ^ (my_log2 (n - 1) + 1)"
      using my_log2_bounds [of "n - 1"] by auto
    have "(2 :: nat) ^ my_log2 (n - 1) < 2 ^ 28"
      using l(1) assms by linarith
    then have "my_log2 (n - 1) < 28"
      by (rule power_less_imp_less_exp [rotated]) simp
    moreover have "round_hashsize n = 2 ^ (my_log2 (n - 1) + 1)"
      using False \<open>1 < n\<close> by (simp add: round_hashsize_def find_next_power_def)
    ultimately show ?thesis
      using l(2) unfolding power_size_def by (intro conjI exI [of _ "my_log2 (n - 1) + 1"]) auto
  qed
  then show "power_size (round_hashsize n)" "n \<le> round_hashsize n"
    by simp_all
qed

section \<open>Changing one chain\<close>

lemma concat_update:
  assumes "h < length cs"
  shows "concat (cs[h := c]) = concat (take h cs) @ c @ concat (drop (Suc h) cs)"
    "concat cs = concat (take h cs) @ cs ! h @ concat (drop (Suc h) cs)"
proof -
  show *: "concat (cs[h := c]) = concat (take h cs) @ c @ concat (drop (Suc h) cs)" for c
    using assms by (simp add: upd_conv_take_nth_drop)
  show "concat cs = concat (take h cs) @ cs ! h @ concat (drop (Suc h) cs)"
    using * [of "cs ! h"] by simp
qed

definition entry_ok :: "world \<Rightarrow> keypair \<Rightarrow> bool" where
  "entry_ok w k \<longleftrightarrow> hval k = hash_svalue w (ind k) \<and> plain_value w (ind k)"

lemma chains_ok_iff:
  "chains_ok w cs \<longleftrightarrow>
     (\<forall>i < length cs. \<forall>k \<in> set (cs ! i). slot (hval k) (length cs) = i) \<and>
     (\<forall>k \<in> set (concat cs). entry_ok w k) \<and> distinct_keys w (concat cs)"
  by (simp add: chains_ok_def entry_ok_def)

lemma chains_entries: "chains_ok w cs \<Longrightarrow> \<forall>k \<in> set (concat cs). entry_ok w k"
  by (simp add: chains_ok_iff)

lemma entries_plain: "\<forall>k \<in> set ks. entry_ok w k \<Longrightarrow> \<forall>k \<in> set ks. plain_value w (ind k)"
  by (simp add: entry_ok_def)

text \<open>A new first pair.\<close>

lemma chains_ok_link:
  assumes "chains_ok w cs" "h = slot (hval k) (length cs)" "h < length cs" "entry_ok w k"
    "\<forall>k' \<in> set (concat cs). \<not> is_eq w (ind k') (ind k)"
  shows "chains_ok w (cs[h := k # cs ! h])" "set (concat (cs[h := k # cs ! h])) = insert k (set (concat cs))"
    "length (concat (cs[h := k # cs ! h])) = length (concat cs) + 1"
proof -
  define as bs where "as = concat (take h cs)" and "bs = cs ! h @ concat (drop (Suc h) cs)"
  have c: "concat (cs[h := k # cs ! h]) = as @ k # bs" "concat cs = as @ bs"
    using concat_update [OF assms(3)] by (simp_all add: as_def bs_def)
  show "set (concat (cs[h := k # cs ! h])) = insert k (set (concat cs))"
    "length (concat (cs[h := k # cs ! h])) = length (concat cs) + 1"
    unfolding c by auto
  have e: "\<forall>x \<in> set (as @ k # bs). entry_ok w x"
    using chains_entries [OF assms(1)] assms(4) unfolding c by auto
  have "distinct_keys w (as @ k # bs)"
    using keys.distinct_middle [OF entries_plain [OF e]] assms(1,5) unfolding chains_ok_iff c by blast
  then show "chains_ok w (cs[h := k # cs ! h])"
    using assms(1-3) e unfolding chains_ok_iff c by (auto simp: nth_list_update)
qed

text \<open>A pair less.\<close>

lemma chains_ok_unlink:
  assumes "chains_ok w cs" "h < length cs" "j < length (cs ! h)"
  defines "k \<equiv> cs ! h ! j" and "cs' \<equiv> cs[h := remove_nth j (cs ! h)]"
  shows "chains_ok w cs'" "set (concat cs) = insert k (set (concat cs'))"
    "\<forall>k' \<in> set (concat cs'). \<not> is_eq w (ind k') (ind k)" "length (concat cs) = length (concat cs') + 1"
proof -
  define as bs where "as = concat (take h cs) @ take j (cs ! h)"
    and "bs = drop (Suc j) (cs ! h) @ concat (drop (Suc h) cs)"
  have "cs ! h = take j (cs ! h) @ k # drop (Suc j) (cs ! h)"
    unfolding k_def by (rule id_take_nth_drop [OF assms(3)])
  then have c: "concat cs = as @ k # bs" "concat cs' = as @ bs"
    using concat_update [OF assms(2)] unfolding as_def bs_def cs'_def remove_nth_def
    by (metis append.assoc append_Cons)+
  show "set (concat cs) = insert k (set (concat cs'))" "length (concat cs) = length (concat cs') + 1"
    unfolding c by auto
  have d: "(\<forall>k' \<in> set (as @ bs). \<not> is_eq w (ind k') (ind k)) \<and> distinct_keys w (as @ bs)"
    using keys.distinct_middle [OF entries_plain] assms(1) unfolding chains_ok_iff c by blast
  then show "\<forall>k' \<in> set (concat cs'). \<not> is_eq w (ind k') (ind k)"
    unfolding c by blast
  have "set (cs' ! i) \<subseteq> set (cs ! i)" if "i < length cs" for i
    using that assms(2) set_take_subset [of j "cs ! h"] set_drop_subset [of "Suc j" "cs ! h"]
    by (auto simp: cs'_def nth_list_update remove_nth_def)
  then show "chains_ok w cs'"
    using assms(1) d unfolding chains_ok_iff c by (fastforce simp: cs'_def)
qed

text \<open>A pair with the same key and another value.\<close>

lemma chains_ok_update:
  assumes "chains_ok w cs" "h < length cs" "j < length (cs ! h)"
    "ind k' = ind (cs ! h ! j)" "hval k' = hval (cs ! h ! j)"
  defines "cs' \<equiv> cs[h := (cs ! h)[j := k']]" and "rest \<equiv> concat (cs[h := remove_nth j (cs ! h)])"
  shows "chains_ok w cs'" "set (concat cs') = insert k' (set rest)" "length (concat cs') = length (concat cs)"
proof -
  define k where "k = cs ! h ! j"
  define as bs where "as = concat (take h cs) @ take j (cs ! h)"
    and "bs = drop (Suc j) (cs ! h) @ concat (drop (Suc h) cs)"
  have "cs ! h = take j (cs ! h) @ k # drop (Suc j) (cs ! h)"
    unfolding k_def by (rule id_take_nth_drop [OF assms(3)])
  moreover have "(cs ! h)[j := k'] = take j (cs ! h) @ k' # drop (Suc j) (cs ! h)"
    by (rule upd_conv_take_nth_drop [OF assms(3)])
  ultimately have c: "concat cs = as @ k # bs" "concat cs' = as @ k' # bs" "rest = as @ bs"
    using concat_update [OF assms(2)] unfolding as_def bs_def cs'_def rest_def remove_nth_def
    by (metis append.assoc append_Cons)+
  show "set (concat cs') = insert k' (set rest)" "length (concat cs') = length (concat cs)"
    unfolding c by auto
  have e: "entry_ok w k'"
    using chains_entries [OF assms(1)] assms(4,5) unfolding c by (auto simp: entry_ok_def k_def)
  have i: "\<forall>k \<in> set (cs' ! i). slot (hval k) (length cs) = i" if "i < length cs" for i
  proof
    fix x
    assume "x \<in> set (cs' ! i)"
    then have "x \<in> set (cs ! i) \<or> x = k' \<and> i = h"
      using that assms(2) set_update_subset_insert [of "cs ! h" j k']
      by (auto simp: cs'_def nth_list_update split: if_splits)
    then show "slot (hval x) (length cs) = i"
      using assms(1,2,3,5) that unfolding chains_ok_iff by auto
  qed
  have "distinct_keys w (as @ k' # bs)"
    using assms(1) assms(4) unfolding chains_ok_iff c by (simp add: sorted_wrt_append k_def)
  then show "chains_ok w cs'"
    using assms(1) e i unfolding chains_ok_iff c by (simp add: cs'_def)
qed

text \<open>The search finds the pair with an equal key.\<close>

lemma chain_find_some:
  "chain_find eq h2 ks = Some j \<Longrightarrow> j < length ks \<and> hval (ks ! j) = h2 \<and> eq (ind (ks ! j))"
  by (induction ks arbitrary: j) (auto split: if_splits simp: nth_Cons split: nat.splits)

lemma chain_find_none: "chain_find eq h2 ks = None \<longleftrightarrow> (\<forall>k \<in> set ks. \<not> (hval k = h2 \<and> eq (ind k)))"
  by (induction ks) auto

lemma check_type_contains_iff: "check_type_contains tf s \<longleftrightarrow> is_object s \<or> bit tf 11 \<or> bit tf (typeof s)"
proof -
  have b: "bit (bit_object OR bitof s) n \<longleftrightarrow> n = 11 \<or> n = typeof s" for n
    using bit_bitof [of "VObject 0 0" n] bit_object_is(1) [of 0 0] by (auto simp: bit_or_iff bit_bitof)
  have "tf AND (bit_object OR bitof s) = 0 \<longleftrightarrow> \<not> (bit tf 11 \<or> bit tf (typeof s))"
  proof
    assume z: "tf AND (bit_object OR bitof s) = 0"
    show "\<not> (bit tf 11 \<or> bit tf (typeof s))"
      using b arg_cong [OF z, of "\<lambda>x. bit x 11"] arg_cong [OF z, of "\<lambda>x. bit x (typeof s)"]
      by (simp add: bit_and_iff)
  next
    assume "\<not> (bit tf 11 \<or> bit tf (typeof s))"
    then show "tf AND (bit_object OR bitof s) = 0"
      using b by (intro bit_eqI) (auto simp: bit_and_iff)
  qed
  then show ?thesis
    by (auto simp: check_type_contains_def)
qed

lemma plain_eq_types:
  assumes "plain_value w a" "plain_value w b" "is_eq w a b"
  shows "typeof a = typeof b"
  using assms(3) unfolding is_eq_plain [OF assms(1,2)] by (cases a; cases b) auto

lemma in_concat_slot:
  assumes "chains_ok w cs" "k \<in> set (concat cs)"
  shows "slot (hval k) (length cs) < length cs" "k \<in> set (cs ! slot (hval k) (length cs))"
proof -
  obtain c where "c \<in> set cs" "k \<in> set c"
    using assms(2) by auto
  then obtain i where "i < length cs" "k \<in> set (cs ! i)"
    by (auto simp: in_set_conv_nth [of c])
  then show "slot (hval k) (length cs) < length cs" "k \<in> set (cs ! slot (hval k) (length cs))"
    using assms(1) by (auto simp: chains_ok_iff)
qed

lemma low_find_some:
  assumes "md_ok w md" "low_find w md key = Some (h, j)"
  shows "h < hashsize md" "j < length (hash md ! h)" "is_eq w (ind (hash md ! h ! j)) key"
    "h = slot (hash_svalue w key) (hashsize md)"
    "hash md ! h ! j \<in> set (all_pairs md)"
proof -
  have f: "hash md \<noteq> []" "h = slot (hash_svalue w key) (hashsize md)"
    "chain_find (\<lambda>i. is_eq w i key) (hash_svalue w key) (hash md ! h) = Some j"
    using assms(2) by (auto simp: low_find_def Let_def split: if_splits)
  then show "h < hashsize md"
    using slot_mod(3) assms(1) by (simp add: md_ok_def)
  show "j < length (hash md ! h)" "is_eq w (ind (hash md ! h ! j)) key"
    using chain_find_some [OF f(3)] by simp_all
  then show "hash md ! h ! j \<in> set (all_pairs md)"
    using \<open>h < hashsize md\<close> unfolding all_pairs_def set_concat by (intro UN_I [of "hash md ! h"]) auto
  show "h = slot (hash_svalue w key) (hashsize md)"
    by (rule f(2))
qed

lemma low_find_none:
  assumes "md_ok w md" "low_find w md key = None" "plain_value w key" "k \<in> set (all_pairs md)"
  shows "\<not> is_eq w (ind k) key"
proof
  assume eq: "is_eq w (ind k) key"
  have ok: "chains_ok w (hash md)" "covers (ind_types md) (map ind (all_pairs md))"
    using assms(1) by (simp_all add: md_ok_def)
  have e: "hval k = hash_svalue w (ind k)" "plain_value w (ind k)"
    using chains_entries [OF ok(1)] assms(4) by (auto simp: all_pairs_def entry_ok_def)
  have h: "hval k = hash_svalue w key"
    using plain_hash [OF e(2) assms(3) eq] e(1) by simp
  have m: "k \<in> set (hash md ! slot (hash_svalue w key) (hashsize md))"
    using in_concat_slot(2) [OF ok(1), of k] assms(4) unfolding all_pairs_def by (simp add: h)
  have "bit (ind_types md) (typeof key)"
    using ok(2) assms(4) plain_eq_types [OF e(2) assms(3) eq] by (auto simp: covers_def)
  then have "check_type_contains (ind_types md) key"
    by (simp add: check_type_contains_iff)
  moreover have "hash md \<noteq> []"
    using assms(4) by (auto simp: all_pairs_def)
  ultimately have "chain_find (\<lambda>i. is_eq w i key) (hash_svalue w key)
      (hash md ! slot (hash_svalue w key) (hashsize md)) = None"
    using assms(2) by (simp add: low_find_def Let_def)
  then show False
    using m h eq unfolding chain_find_none by blast
qed

section \<open>Linking and rehashing keep the invariant\<close>

text \<open>What linking leaves alone.\<close>

definition same_frame :: "mapping_data \<Rightarrow> mapping_data \<Rightarrow> bool" where
  "same_frame md md' \<longleftrightarrow> md_refs md' = md_refs md \<and> valrefs md' = valrefs md \<and>
     hardlinks md' = hardlinks md \<and> md_flags md' = md_flags md \<and> hashsize md' = hashsize md"

lemma same_frameD:
  assumes "same_frame md md'"
  shows "md_flags md' = md_flags md" "hashsize md' = hashsize md" "hash md' = [] \<longleftrightarrow> hash md = []"
proof -
  show l: "md_flags md' = md_flags md" "hashsize md' = hashsize md"
    using assms by (simp_all add: same_frame_def)
  show "hash md' = [] \<longleftrightarrow> hash md = []"
    using arg_cong [OF l(2), of "\<lambda>n. n = 0"] by simp
qed

lemma same_frame_trans: "same_frame a b \<Longrightarrow> same_frame b c \<Longrightarrow> same_frame a c"
  by (simp add: same_frame_def)

lemma covers_accumulate:
  assumes "covers t xs" "set ys = insert x (set xs)"
  shows "covers (accumulate_type_field w x t) ys"
  using assms accumulate_bits(1) [of t _ w x] accumulate_bits(2) [of w x t] by (auto simp: covers_def)

lemma link_pair_ok:
  assumes "md_ok w md" "hash md \<noteq> []" "free_list md \<noteq> 0" "entry_ok w k"
    "h = slot (hval k) (hashsize md)" "\<forall>k' \<in> set (all_pairs md). \<not> is_eq w (ind k') (ind k)"
  shows "\<exists>md'. link_pair w h k md = Inr md' \<and> md_ok w md' \<and> same_frame md md' \<and>
    set (all_pairs md') = insert k (set (all_pairs md)) \<and> free_list md' = free_list md - 1"
proof -
  define md' where "md' = md\<lparr>free_list := free_list md - 1, hash := (hash md)[h := k # hash md ! h],
    ind_types := accumulate_type_field w (ind k) (ind_types md),
    val_types := accumulate_type_field w (val k) (val_types md), md_size := md_size md + 1\<rparr>"
  have ok: "power_size (hashsize md)" "chains_ok w (hash md)"
    using assms(1,2) by (simp_all add: md_ok_def)
  have h: "h < hashsize md"
    unfolding assms(5) by (rule slot_mod(3) [OF ok(1)])
  note link = chains_ok_link [OF ok(2) assms(5) h assms(4) assms(6) [unfolded all_pairs_def]]
  have p: "set (all_pairs md') = insert k (set (all_pairs md))"
    "length (all_pairs md') = length (all_pairs md) + 1"
    using link(2,3) by (simp_all add: all_pairs_def md'_def)
  have "covers (ind_types md') (map ind (all_pairs md'))" "covers (val_types md') (map val (all_pairs md'))"
    using assms(1) p(1) by (auto simp: md_ok_def md'_def intro!: covers_accumulate)
  then have "md_ok w md'"
    using assms(1-3) link(1) p(2) unfolding md_ok_def by (simp add: md'_def)
  then show ?thesis
    using assms(3) p(1) by (simp add: link_pair_def same_frame_def md'_def)
qed

lemma rehash_chain_ok:
  assumes "md_ok w md" "hash md \<noteq> []" "length ks \<le> free_list md" "\<forall>k \<in> set ks. entry_ok w k"
    "distinct_keys w ks" "\<forall>k \<in> set ks. \<forall>k' \<in> set (all_pairs md). \<not> is_eq w (ind k') (ind k)"
  shows "\<exists>md'. rehash_chain w keep ks md = Inr md' \<and> md_ok w md' \<and> same_frame md md' \<and>
    set (all_pairs md') = set (filter (keep (md_flags md)) ks) \<union> set (all_pairs md) \<and>
    free_list md \<le> free_list md' + length ks \<and>
    (list_all (keep (md_flags md)) ks \<longrightarrow> free_list md' + length ks = free_list md)"
  using assms(3-6)
proof (induction ks)
  case Nil
  then show ?case
    using assms(1) by (simp add: same_frame_def)
next
  case (Cons k ks)
  obtain md1 where md1: "rehash_chain w keep ks md = Inr md1" "md_ok w md1" "same_frame md md1"
    "set (all_pairs md1) = set (filter (keep (md_flags md)) ks) \<union> set (all_pairs md)"
    "free_list md \<le> free_list md1 + length ks"
    "list_all (keep (md_flags md)) ks \<longrightarrow> free_list md1 + length ks = free_list md"
    using Cons by auto
  have fr: "md_flags md1 = md_flags md" "hashsize md1 = hashsize md" "hash md1 \<noteq> []" "free_list md1 \<noteq> 0"
    using same_frameD [OF md1(3)] md1(5) assms(2) Cons.prems(1) by auto
  show ?case
  proof (cases "keep (md_flags md) k")
    case False
    then show ?thesis
      using md1 fr by auto
  next
    case True
    have pw: "power_size (hashsize md1)"
      using md1(2) fr(3) by (simp add: md_ok_def)
    have s: "slot32 (hval k) (hashsize md1) = slot (hval k) (hashsize md1)"
      using slot_mod [OF pw] by simp
    have "\<not> is_eq w (ind k') (ind k)" if "k' \<in> set ks" for k'
      using that Cons.prems(2,3) plain_sym [of w "ind k" "ind k'"] by (auto simp: entry_ok_def)
    then have ne: "\<forall>k' \<in> set (all_pairs md1). \<not> is_eq w (ind k') (ind k)"
      using md1(4) Cons.prems(4) by auto
    obtain md2 where md2: "link_pair w (slot32 (hval k) (hashsize md1)) k md1 = Inr md2"
      "md_ok w md2" "same_frame md1 md2" "set (all_pairs md2) = insert k (set (all_pairs md1))"
      "free_list md2 = free_list md1 - 1"
      using link_pair_ok [OF md1(2) fr(3,4) _ s ne] Cons.prems(2) by auto
    have "rehash_chain w keep (k # ks) md = Inr md2"
      using md1(1) md2(1) True fr(1) by simp
    moreover have "set (all_pairs md2) = set (filter (keep (md_flags md)) (k # ks)) \<union> set (all_pairs md)"
      using md1(4) md2(4) True by simp
    moreover have "free_list md2 + 1 = free_list md1"
      using md2(5) fr(4) by simp
    ultimately show ?thesis
      using md2(2) same_frame_trans [OF md1(3) md2(3)] md1(5,6) by (intro exI [of _ md2]) auto
  qed
qed

lemma rehash_chains_ok:
  assumes "md_ok w md" "hash md \<noteq> []" "length (concat cs) \<le> free_list md"
    "\<forall>k \<in> set (concat cs). entry_ok w k" "distinct_keys w (concat cs)"
    "\<forall>k \<in> set (concat cs). \<forall>k' \<in> set (all_pairs md). \<not> is_eq w (ind k') (ind k)"
  shows "\<exists>md'. rehash_chains w keep cs md = Inr md' \<and> md_ok w md' \<and> same_frame md md' \<and>
    set (all_pairs md') = set (filter (keep (md_flags md)) (concat cs)) \<union> set (all_pairs md) \<and>
    free_list md \<le> free_list md' + length (concat cs) \<and>
    (list_all (keep (md_flags md)) (concat cs) \<longrightarrow> free_list md' + length (concat cs) = free_list md)"
  using assms
proof (induction cs arbitrary: md)
  case Nil
  then show ?case
    by (simp add: same_frame_def)
next
  case (Cons c cs)
  obtain md1 where md1: "rehash_chain w keep c md = Inr md1" "md_ok w md1" "same_frame md md1"
    "set (all_pairs md1) = set (filter (keep (md_flags md)) c) \<union> set (all_pairs md)"
    "free_list md \<le> free_list md1 + length c"
    "list_all (keep (md_flags md)) c \<longrightarrow> free_list md1 + length c = free_list md"
    using rehash_chain_ok [OF Cons.prems(1,2), of c keep] Cons.prems(3-6) by (auto simp: sorted_wrt_append)
  have fr: "md_flags md1 = md_flags md" "hash md1 \<noteq> []"
    using same_frameD [OF md1(3)] Cons.prems(2) by auto
  have le: "length (concat cs) \<le> free_list md1"
    using md1(5) Cons.prems(3) by simp
  have "\<not> is_eq w (ind k') (ind k)" if "k \<in> set (concat cs)" "k' \<in> set (all_pairs md1)" for k k'
    using that md1(4) Cons.prems(5,6) by (auto simp: sorted_wrt_append)
  then obtain md2 where md2: "rehash_chains w keep cs md1 = Inr md2" "md_ok w md2" "same_frame md1 md2"
    "set (all_pairs md2) = set (filter (keep (md_flags md1)) (concat cs)) \<union> set (all_pairs md1)"
    "free_list md1 \<le> free_list md2 + length (concat cs)"
    "list_all (keep (md_flags md1)) (concat cs) \<longrightarrow> free_list md2 + length (concat cs) = free_list md1"
    using Cons.IH [OF md1(2) fr(2) le] Cons.prems(4,5) by (auto simp: sorted_wrt_append)
  have "rehash_chains w keep (c # cs) md = Inr md2"
    using md1(1) md2(1) by simp
  moreover have "set (all_pairs md2) = set (filter (keep (md_flags md)) (concat (c # cs))) \<union> set (all_pairs md)"
    using md1(4) md2(4) fr(1) by auto
  ultimately show ?case
    using md2(2,5,6) same_frame_trans [OF md1(3) md2(3)] md1(5,6) fr(1) by (intro exI [of _ md2]) auto
qed

end
