(* ===== verification/Mapping_Heap.thy ===== *)
theory Mapping_Heap
  imports Mapping_Data
begin

text \<open>
  Mappings and the sharing of their tables (\<open>src/src/mapping.c\<close>): a copy of a mapping shares the
  table until one of the two is changed. The tables live in a heap with their counters (\<open>refs\<close>,
  \<open>valrefs\<close>, \<open>hardlinks\<close>); a table that was freed cannot be read (\<open>Bad_Memory_Access\<close>).
\<close>

section \<open>The heap\<close>

text \<open>\<open>maps\<close>: the table of each mapping. The tables 0 to 3 are the static empty ones.\<close>

record mheap =
  mds :: "nat \<Rightarrow> mapping_data option"
  next_md :: nat
  maps :: "addr \<Rightarrow> nat option"

definition static_md :: "16 word \<Rightarrow> nat" where
  "static_md flags =
     (let f = flags AND mapping_weak in
      if f = 0 then 0 else if f = mapping_weak_indices then 1
      else if f = mapping_weak_values then 2 else 3)"

definition first_heap :: mheap where
  "first_heap = \<lparr>mds = [0 \<mapsto> empty_data 0, 1 \<mapsto> empty_data mapping_weak_indices,
       2 \<mapsto> empty_data mapping_weak_values, 3 \<mapsto> empty_data mapping_weak],
     next_md = 4, maps = Map.empty\<rparr>"

definition data_of :: "mheap \<Rightarrow> addr \<Rightarrow> nat result" where
  "data_of H m = (case maps H m of None \<Rightarrow> Inl Bad_Memory_Access | Some d \<Rightarrow> Inr d)"

definition get_md :: "mheap \<Rightarrow> nat \<Rightarrow> mapping_data result" where
  "get_md H d = (case mds H d of None \<Rightarrow> Inl Bad_Memory_Access | Some md \<Rightarrow> Inr md)"

definition put_md :: "nat \<Rightarrow> mapping_data \<Rightarrow> mheap \<Rightarrow> mheap" where
  "put_md d md H = H\<lparr>mds := (mds H)(d \<mapsto> md)\<rparr>"

definition free_md :: "nat \<Rightarrow> mheap \<Rightarrow> mheap" where
  "free_md d H = H\<lparr>mds := (mds H)(d := None)\<rparr>"

definition set_data :: "addr \<Rightarrow> nat \<Rightarrow> mheap \<Rightarrow> mheap" where
  "set_data m d H = H\<lparr>maps := (maps H)(m \<mapsto> d)\<rparr>"

definition new_md :: "mapping_data \<Rightarrow> mheap \<Rightarrow> mheap \<times> nat" where
  "new_md md H = ((put_md (next_md H) md H)\<lparr>next_md := next_md H + 1\<rparr>, next_md H)"

text \<open>\<open>m->data\<close> and what it points to.\<close>

definition with_md :: "mheap \<Rightarrow> addr \<Rightarrow> (nat \<Rightarrow> mapping_data \<Rightarrow> 'a result) \<Rightarrow> 'a result" where
  "with_md H m f = bind_result (data_of H m) (\<lambda>d. bind_result (get_md H d) (\<lambda>md. f d md))"

section \<open>Allocation and sharing\<close>

definition init_mapping :: "mheap \<Rightarrow> addr \<Rightarrow> nat \<Rightarrow> 16 word \<Rightarrow> mheap result" where
  "init_mapping H m n flags =
     (if n \<noteq> 0 then
        bind_result (init_data n flags) (\<lambda>md. let (H, d) = new_md md H in Inr (set_data m d H))
      else
        (let d = static_md flags in
         bind_result (get_md H d) (\<lambda>md.
           Inr (set_data m d (put_md d (md\<lparr>md_refs := md_refs md + 1\<rparr>) H)))))"

text \<open>The address of the new mapping is chosen by the block allocator. The sum is an \<open>int\<close>.\<close>

definition allocate_mapping :: "mheap \<Rightarrow> addr \<Rightarrow> nat \<Rightarrow> mheap result" where
  "allocate_mapping H m n =
     (if int n + int avg_link_length - 1 \<ge> 2 ^ 31 then Inl Int_Overflow
      else init_mapping H m ((n + avg_link_length - 1) div avg_link_length) 0)"

text \<open>A mapping gives up its link: a hard link also locks the values. A counter that would get
  negative, which the code does not test, is an error.\<close>

definition dropped :: "mapping_data \<Rightarrow> mapping_data" where
  "dropped md =
     (let md = (if hardlinks md \<noteq> 0 then md\<lparr>hardlinks := hardlinks md - 1, valrefs := valrefs md - 1\<rparr> else md)
      in md\<lparr>md_refs := md_refs md - 1\<rparr>)"

definition drop_link :: "mapping_data \<Rightarrow> mapping_data result" where
  "drop_link md =
     (if md_refs md = 0 \<or> hardlinks md \<noteq> 0 \<and> valrefs md = 0 then Inl Int_Overflow
      else Inr (dropped md))"

definition unlink_mapping_data :: "mheap \<Rightarrow> nat \<Rightarrow> mheap result" where
  "unlink_mapping_data H d =
     bind_result (get_md H d) (\<lambda>md.
     bind_result (drop_link md) (\<lambda>md.
       Inr (if md_refs md = 0 then free_md d H else put_md d md H)))"

definition really_free_mapping :: "mheap \<Rightarrow> addr \<Rightarrow> mheap result" where
  "really_free_mapping H m =
     bind_result (data_of H m) (\<lambda>d. bind_result (unlink_mapping_data H d) (\<lambda>H.
       Inr (H\<lparr>maps := (maps H)(m := None)\<rparr>)))"

definition copy_mapping :: "mheap \<Rightarrow> addr \<Rightarrow> addr \<Rightarrow> mheap result" where
  "copy_mapping H m n =
     with_md H m (\<lambda>d md.
       Inr (set_data n d (put_md d
         (md\<lparr>md_refs := md_refs md + 1, valrefs := valrefs md + 1, hardlinks := hardlinks md + 1\<rparr>) H)))"

definition copy_mapping_data :: "mheap \<Rightarrow> nat \<Rightarrow> (mheap \<times> nat) result" where
  "copy_mapping_data H d =
     bind_result (get_md H d) (\<lambda>md.
       let (H, nd) = new_md (md\<lparr>md_refs := 1, valrefs := 0, hardlinks := 0\<rparr>) H
       in bind_result (drop_link md) (\<lambda>md. Inr (put_md d md H, nd)))"

text \<open>\<open>COPYMAP2\<close>: the position of a pair stays the same.\<close>

definition copymap :: "mheap \<Rightarrow> addr \<Rightarrow> mheap result" where
  "copymap H m =
     bind_result (data_of H m) (\<lambda>d. bind_result (copy_mapping_data H d) (\<lambda>(H, nd).
       Inr (set_data m nd H)))"

definition rehash :: "world \<Rightarrow> (svalue \<Rightarrow> bool) \<Rightarrow> mheap \<Rightarrow> addr \<Rightarrow> nat \<Rightarrow> mheap result" where
  "rehash w multi H m n =
     with_md H m (\<lambda>d md.
       if hashsize md = round_hashsize n \<and> md_refs md = 1 \<and> \<not> md_fullp md then Inr H
       else bind_result (init_mapping H m (round_hashsize n) (md_flags md)) (\<lambda>H.
         bind_result (get_md H d) (\<lambda>md.
         with_md H m (\<lambda>nd nmd.
           if md_refs md > 1 then
             bind_result (rehash_chains w (keep_good multi) (hash md) nmd) (\<lambda>nmd.
               unlink_mapping_data (put_md nd nmd H) d)
           else
             bind_result (rehash_chains w (keep_evil multi) (hash md) nmd) (\<lambda>nmd.
               Inr (free_md d (put_md nd nmd H)))))))"

definition mapping_set_flags :: "mheap \<Rightarrow> addr \<Rightarrow> 16 word \<Rightarrow> mheap result" where
  "mapping_set_flags H m flags =
     with_md H m (\<lambda>d md.
       bind_result (if md_flags md \<noteq> flags \<and> md_refs md > 1 then copymap H m else Inr H) (\<lambda>H.
       with_md H m (\<lambda>d md. Inr (put_md d (md\<lparr>md_flags := flags\<rparr>) H))))"

text \<open>The table of an empty mapping is the static one of its weak flags.\<close>

definition clear_mapping :: "mheap \<Rightarrow> addr \<Rightarrow> mheap result" where
  "clear_mapping H m =
     with_md H m (\<lambda>d md.
       if md_size md = 0 then Inr H
       else bind_result (unlink_mapping_data H d) (\<lambda>H.
         let e = static_md (md_flags md) in
         bind_result (get_md H e) (\<lambda>md.
           Inr (set_data m e (put_md e (md\<lparr>md_refs := md_refs md + 1\<rparr>) H)))))"

section \<open>Lookup, insertion and deletion\<close>

definition low_mapping_lookup :: "world \<Rightarrow> mheap \<Rightarrow> addr \<Rightarrow> svalue \<Rightarrow> svalue option result" where
  "low_mapping_lookup w H m key =
     with_md H m (\<lambda>d md. Inr (map_option (\<lambda>p. val (keypair_at md p)) (low_find w md key)))"

text \<open>A new pair: the table is rehashed when it is full or when it is shared.\<close>

definition insert_new ::
  "world \<Rightarrow> (svalue \<Rightarrow> bool) \<Rightarrow> mheap \<Rightarrow> addr \<Rightarrow> svalue \<Rightarrow> svalue \<Rightarrow> mheap result" where
  "insert_new w multi H m key v =
     with_md H m (\<lambda>d md.
       let grow_md = md_fullp md in
       bind_result
         (if grow_md \<or> md_refs md > 1 then
            rehash w multi H m
              (if hashsize md \<noteq> 0 then push_bit (of_bool grow_md) (hashsize md) else avg_link_length)
          else Inr H) (\<lambda>H.
       with_md H m (\<lambda>d md.
         let h2 = hash_svalue w key in
         bind_result (link_pair w (slot h2 (hashsize md)) \<lparr>hval = h2, ind = key, val = v\<rparr> md) (\<lambda>md.
           Inr (put_md d md H)))))"

text \<open>\<open>PREPARE_FOR_DATA_CHANGE2\<close> and the change of the value (and of the key).\<close>

definition set_value ::
  "mheap \<Rightarrow> addr \<Rightarrow> nat \<times> nat \<Rightarrow> (keypair \<Rightarrow> keypair) \<Rightarrow> svalue \<Rightarrow> mheap result" where
  "set_value H m p f v =
     with_md H m (\<lambda>d md.
       bind_result (if valrefs md \<noteq> 0 then copymap H m else Inr H) (\<lambda>H.
       with_md H m (\<lambda>d md.
         Inr (put_md d (update_pair p f (md\<lparr>val_types := val_types md OR bitof v\<rparr>)) H))))"

definition low_mapping_insert ::
  "world \<Rightarrow> (svalue \<Rightarrow> bool) \<Rightarrow> mheap \<Rightarrow> addr \<Rightarrow> svalue \<Rightarrow> svalue \<Rightarrow> nat \<Rightarrow> mheap result" where
  "low_mapping_insert w multi H m key v overwrite =
     with_md H m (\<lambda>d md.
       case low_find w md key of
         Some p \<Rightarrow>
           if overwrite = 0 then Inr H
           else set_value H m p (\<lambda>k. k\<lparr>val := v,
             ind := (if overwrite = 2 \<and> is_object key then key else ind k)\<rparr>) v
       | None \<Rightarrow> insert_new w multi H m key v)"

definition mapping_insert ::
  "world \<Rightarrow> (svalue \<Rightarrow> bool) \<Rightarrow> mheap \<Rightarrow> addr \<Rightarrow> svalue \<Rightarrow> svalue \<Rightarrow> mheap result" where
  "mapping_insert w multi H m key v = low_mapping_insert w multi H m key v 1"

text \<open>The pair is taken out of a table of its own; a sparse table is rehashed to half the size.\<close>

definition remove_value ::
  "world \<Rightarrow> (svalue \<Rightarrow> bool) \<Rightarrow> mheap \<Rightarrow> addr \<Rightarrow> nat \<times> nat \<Rightarrow> mheap result" where
  "remove_value w multi H m p =
     with_md H m (\<lambda>d md.
       bind_result (if md_refs md > 1 then copymap H m else Inr H) (\<lambda>H.
       with_md H m (\<lambda>d md.
         let md = unlink_pair p md;
             md = (if md_size md = 0 then md\<lparr>ind_types := 0, val_types := 0\<rparr> else md);
             H = put_md d md H
         in if md_flags md AND mapping_flag_no_shrink = 0 \<and>
              md_size md * 2 < hashsize md \<and> hashsize md > avg_link_length
            then rehash w multi H m (hashsize md div 2) else Inr H)))"

definition map_delete_no_free ::
  "world \<Rightarrow> (svalue \<Rightarrow> bool) \<Rightarrow> mheap \<Rightarrow> addr \<Rightarrow> svalue \<Rightarrow> (mheap \<times> svalue) result" where
  "map_delete_no_free w multi H m key =
     with_md H m (\<lambda>d md.
       case low_find w md key of
         None \<Rightarrow> Inr (H, VInt 0 1)
       | Some p \<Rightarrow> bind_result (remove_value w multi H m p) (\<lambda>H. Inr (H, val (keypair_at md p))))"

text \<open>The exchange of a value: storing UNDEFINED deletes, a value that was not there is UNDEFINED.\<close>

definition is_undefined :: "svalue \<Rightarrow> bool" where
  "is_undefined v \<longleftrightarrow> (case v of VInt i t \<Rightarrow> t = 1 | _ \<Rightarrow> False)"

definition map_atomic_get_set ::
  "world \<Rightarrow> (svalue \<Rightarrow> bool) \<Rightarrow> mheap \<Rightarrow> addr \<Rightarrow> svalue \<Rightarrow> svalue \<Rightarrow> (mheap \<times> svalue) result" where
  "map_atomic_get_set w multi H m key from_to =
     (if is_undefined from_to then map_delete_no_free w multi H m key
      else with_md H m (\<lambda>d md.
        case low_find w md key of
          Some p \<Rightarrow> bind_result (set_value H m p (\<lambda>k. k\<lparr>val := from_to\<rparr>) from_to) (\<lambda>H.
            Inr (H, val (keypair_at md p)))
        | None \<Rightarrow> bind_result (insert_new w multi H m key from_to) (\<lambda>H. Inr (H, VInt 0 1))))"

text \<open>An entry that exists never reads as UNDEFINED.\<close>

definition mapping_index :: "world \<Rightarrow> mheap \<Rightarrow> addr \<Rightarrow> svalue \<Rightarrow> svalue result" where
  "mapping_index w H m key =
     (if is_destructed w key then Inr (VInt 0 1)
      else bind_result (low_mapping_lookup w H m key) (\<lambda>r.
        Inr (case r of None \<Rightarrow> VInt 0 1 | Some (VInt i t) \<Rightarrow> VInt i 0 | Some v \<Rightarrow> v)))"

section \<open>The invariant\<close>

definition owners :: "mheap \<Rightarrow> nat \<Rightarrow> addr set" where
  "owners H d = {m. maps H m = Some d}"

text \<open>The counters: \<open>refs\<close> counts the mappings and what else holds the table; every mapping but the
  first is a hard link; \<open>valrefs\<close> counts the hard links and other locks of the values. The static
  tables have a reference and a lock of their own, and the weak flags of the mappings they stand for.\<close>

definition counts_ok :: "mheap \<Rightarrow> nat \<Rightarrow> mapping_data \<Rightarrow> bool" where
  "counts_ok H d md \<longleftrightarrow>
     hardlinks md \<le> valrefs md \<and> d < next_md H \<and>
     (if d < 4 then hash md = [] \<and> md_flags md AND mapping_weak = word_of_nat (2 * d) \<and>
        hardlinks md \<le> card (owners H d) - 1 \<and> hardlinks md < valrefs md \<and>
        card (owners H d) + valrefs md \<le> md_refs md + hardlinks md
      else hardlinks md = card (owners H d) - 1 \<and> 0 < md_refs md \<and>
        card (owners H d) + valrefs md \<le> md_refs md + hardlinks md)"

definition heap_ok :: "world \<Rightarrow> mheap \<Rightarrow> bool" where
  "heap_ok w H \<longleftrightarrow>
     finite (dom (maps H)) \<and> 4 \<le> next_md H \<and> (\<forall>d < 4. mds H d \<noteq> None) \<and>
     (\<forall>m d. maps H m = Some d \<longrightarrow> mds H d \<noteq> None) \<and>
     (\<forall>d md. mds H d = Some md \<longrightarrow> md_ok w md \<and> counts_ok H d md)"

text \<open>What a program sees of a mapping.\<close>

definition seen :: "mapping_data \<Rightarrow> 16 word \<times> keypair list" where
  "seen md = (md_flags md AND mapping_weak, all_pairs md)"

definition contents :: "mheap \<Rightarrow> addr \<Rightarrow> (16 word \<times> keypair list) option" where
  "contents H m = (case maps H m of None \<Rightarrow> None | Some d \<Rightarrow> map_option seen (mds H d))"

definition map_get :: "world \<Rightarrow> mheap \<Rightarrow> addr \<Rightarrow> svalue \<Rightarrow> svalue option" where
  "map_get w H m key =
     (case contents H m of None \<Rightarrow> None
      | Some (flags, ks) \<Rightarrow> map_option val (find (\<lambda>k. is_eq w (ind k) key) ks))"

section \<open>Lookups by the set of pairs\<close>

lemma pairs_ok:
  assumes "md_ok w md"
  shows "\<forall>k \<in> set (all_pairs md). entry_ok w k" "\<forall>k \<in> set (all_pairs md). plain_value w (ind k)"
    "distinct_keys w (all_pairs md)"
  using assms by (auto simp: md_ok_def chains_ok_iff all_pairs_def entry_ok_def)

lemma lookup_iff:
  assumes "md_ok w md" "plain_value w q"
  shows "md_lookup w md q = Some v \<longleftrightarrow> (\<exists>k \<in> set (all_pairs md). is_eq w (ind k) q \<and> val k = v)"
  using keys.find_distinct [OF pairs_ok(2) [OF assms(1)] assms(2) pairs_ok(3) [OF assms(1)]]
  by (auto simp: md_lookup_def)

lemma lookup_cong:
  assumes "md_ok w md" "md_ok w md'" "plain_value w q" "set (all_pairs md') = set (all_pairs md)"
  shows "md_lookup w md' q = md_lookup w md q"
  using lookup_iff [OF assms(1,3)] lookup_iff [OF assms(2,3)] assms(4) by (metis not_Some_eq)

text \<open>The pair \<open>k'\<close> replaces the pairs with an equal key, \<open>S\<close> are the others.\<close>

lemma lookup_insert:
  assumes "md_ok w md" "md_ok w md'" "plain_value w q" "plain_value w key"
    "set (all_pairs md') = insert k' S" "set (all_pairs md) = S \<or> (\<exists>k. set (all_pairs md) = insert k S \<and> is_eq w (ind k) key)"
    "\<forall>k \<in> S. \<not> is_eq w (ind k) key" "is_eq w (ind k') key"
  shows "md_lookup w md' q = (if is_eq w key q then Some (val k') else md_lookup w md q)"
proof -
  have pl: "\<forall>k \<in> S. plain_value w (ind k)" "plain_value w (ind k')"
    using pairs_ok(2) [OF assms(2)] assms(5) by auto
  have other: "\<not> is_eq w key q" if "k \<in> S" "is_eq w (ind k) q" for k
    using that assms(3,4,7) pl(1) plain_trans [of w "ind k" q key] plain_sym [of w key q] by blast
  have key: "is_eq w (ind k) q = is_eq w key q" if "plain_value w (ind k)" "is_eq w (ind k) key" for k
    using that assms(3,4) plain_trans [of w "ind k" key q] plain_trans [of w key "ind k" q]
      plain_sym [of w key "ind k"] by blast
  show ?thesis
  proof (cases "is_eq w key q")
    case True
    then have "md_lookup w md' q = Some (val k')"
      using lookup_iff [OF assms(2,3)] assms(5,8) key [OF pl(2)] by auto
    then show ?thesis
      using True by simp
  next
    case False
    have "md_lookup w md' q = Some v \<longleftrightarrow> md_lookup w md q = Some v" for v
      unfolding lookup_iff [OF assms(1,3)] lookup_iff [OF assms(2,3)] assms(5)
      using False assms(6,8) key pl(2) pairs_ok(2) [OF assms(1)] by auto
    then show ?thesis
      using False by (metis not_Some_eq)
  qed
qed

lemma lookup_delete:
  assumes "md_ok w md" "md_ok w md'" "plain_value w q" "plain_value w key"
    "set (all_pairs md) = insert k (set (all_pairs md'))" "is_eq w (ind k) key"
    "\<forall>k' \<in> set (all_pairs md'). \<not> is_eq w (ind k') (ind k)"
  shows "md_lookup w md' q = (if is_eq w key q then None else md_lookup w md q)"
proof -
  have k: "plain_value w (ind k)"
    using pairs_ok(2) [OF assms(1)] assms(5) by auto
  have key: "is_eq w (ind k) q = is_eq w key q"
    using k assms(3,4,6) plain_trans [of w "ind k" key q] plain_trans [of w key "ind k" q]
      plain_sym [of w key "ind k"] by blast
  have other: "\<not> is_eq w (ind k) q" if "k' \<in> set (all_pairs md')" "is_eq w (ind k') q" for k'
    using that assms(3,7) k pairs_ok(2) [OF assms(2)] plain_trans [of w "ind k'" q "ind k"]
      plain_sym [of w "ind k" q] by blast
  show ?thesis
  proof (cases "is_eq w key q")
    case True
    then have "md_lookup w md' q \<noteq> Some v" for v
      using lookup_iff [OF assms(2,3)] other key by auto
    then show ?thesis
      using True by auto
  next
    case False
    have "md_lookup w md' q = Some v \<longleftrightarrow> md_lookup w md q = Some v" for v
      unfolding lookup_iff [OF assms(1,3)] lookup_iff [OF assms(2,3)] assms(5)
      using False key by auto
    then show ?thesis
      using False by (metis not_Some_eq)
  qed
qed

section \<open>Two kinds of change\<close>

abbreviation has_md :: "mheap \<Rightarrow> addr \<Rightarrow> nat \<Rightarrow> mapping_data \<Rightarrow> bool" where
  "has_md H m d md \<equiv> maps H m = Some d \<and> mds H d = Some md"

lemma has_md_simps:
  assumes "has_md H m d md"
  shows "data_of H m = Inr d" "get_md H d = Inr md" "with_md H m f = f d md"
    "contents H m = Some (seen md)" "map_get w H m key = md_lookup w md key"
  using assms by (simp_all add: data_of_def get_md_def with_md_def contents_def map_get_def md_lookup_def seen_def)

lemma heap_okD:
  assumes "heap_ok w H" "mds H d = Some md"
  shows "md_ok w md" "counts_ok H d md" "finite (dom (maps H))" "finite (owners H e)" "d < next_md H"
proof -
  show "md_ok w md" "counts_ok H d md" "finite (dom (maps H))"
    using assms unfolding heap_ok_def by blast+
  then show "d < next_md H"
    by (simp add: counts_ok_def)
  show "finite (owners H e)"
    using \<open>finite (dom (maps H))\<close> by (rule_tac finite_subset [of _ "dom (maps H)"]) (auto simp: owners_def)
qed

lemma counts_cong:
  "counts_ok H d md \<Longrightarrow> owners H' d = owners H d \<Longrightarrow> next_md H \<le> next_md H' \<Longrightarrow> counts_ok H' d md"
  unfolding counts_ok_def by (auto split: if_splits)

lemma owners_live:
  assumes "heap_ok w H" "has_md H m d md"
  shows "m \<in> owners H d" "0 < card (owners H d)"
  using assms heap_okD(4) [OF assms(1), of d md d] by (auto simp: owners_def card_gt_0_iff)

text \<open>A table with one reference, or without locks, has no other mapping.\<close>

lemma private_owner:
  assumes "heap_ok w H" "has_md H m d md" "md_refs md = 1 \<or> valrefs md = 0 \<and> hash md \<noteq> []"
  shows "owners H d = {m}" "4 \<le> d"
proof -
  have c: "counts_ok H d md" "finite (owners H d)"
    using heap_okD [OF assms(1)] assms(2) by auto
  note o = owners_live [OF assms(1,2)]
  show d: "4 \<le> d"
    using c(1) assms(3) o(2) by (auto simp: counts_ok_def split: if_splits)
  have "card (owners H d) = 1"
    using c(1) d assms(3) o(2) by (auto simp: counts_ok_def)
  then show "owners H d = {m}"
    using o(1) by (auto simp: card_1_singleton_iff)
qed

lemma static_refs:
  assumes "heap_ok w H" "has_md H m d md" "d < 4"
  shows "1 < md_refs md"
  using heap_okD(2) [OF assms(1), of d md] assms(2,3) owners_live(2) [OF assms(1,2)]
  by (auto simp: counts_ok_def)

lemma heap_ok_put:
  assumes "heap_ok w H" "has_md H m d md" "owners H d = {m}" "md_ok w md'" "4 \<le> d"
    "md_refs md' = md_refs md" "valrefs md' = valrefs md" "hardlinks md' = hardlinks md"
  shows "heap_ok w (put_md d md' H)" "has_md (put_md d md' H) m d md'"
    "m' \<noteq> m \<Longrightarrow> contents (put_md d md' H) m' = contents H m'"
proof -
  have o: "owners (put_md d md' H) e = owners H e" for e
    by (simp add: owners_def put_md_def)
  have "counts_ok H d md"
    using heap_okD(2) [OF assms(1)] assms(2) by blast
  then have "counts_ok (put_md d md' H) d md"
    using o by (rule counts_cong) (simp add: put_md_def)
  then have "counts_ok (put_md d md' H) d md'"
    using assms(5-8) by (auto simp: counts_ok_def)
  moreover have "counts_ok (put_md d md' H) e me" if "counts_ok H e me" for e me
    using that o by (rule counts_cong) (simp add: put_md_def)
  ultimately show "heap_ok w (put_md d md' H)"
    using assms(1,4) unfolding heap_ok_def by (auto simp: put_md_def)
  show "has_md (put_md d md' H) m d md'"
    using assms(2) by (simp add: put_md_def)
  assume "m' \<noteq> m"
  then have "maps H m' \<noteq> Some d"
    using assms(3) by (auto simp: owners_def)
  then show "contents (put_md d md' H) m' = contents H m'"
    by (auto simp: contents_def put_md_def split: option.splits)
qed

lemma dropped_simps [simp]:
  "hash (dropped md) = hash md" "all_pairs (dropped md) = all_pairs md"
  "md_ok w (dropped md) = md_ok w md" "md_refs (dropped md) = md_refs md - 1"
  "valrefs (dropped md) = (if hardlinks md \<noteq> 0 then valrefs md - 1 else valrefs md)"
  "hardlinks (dropped md) = hardlinks md - 1" "md_flags (dropped md) = md_flags md"
  "seen (dropped md) = seen md"
  by (simp_all add: dropped_def Let_def md_ok_def all_pairs_def seen_def)

text \<open>The counters of a table in use can be decremented.\<close>

lemma drop_link_ok:
  assumes "heap_ok w H" "has_md H m d md"
  shows "drop_link md = Inr (dropped md)"
proof -
  have "counts_ok H d md"
    using heap_okD(2) [OF assms(1)] assms(2) by blast
  then show ?thesis
    by (auto simp: drop_link_def counts_ok_def split: if_splits)
qed

text \<open>The mapping gets a new table of its own and gives up the old one.\<close>

definition move_to :: "addr \<Rightarrow> nat \<Rightarrow> mapping_data \<Rightarrow> mapping_data \<Rightarrow> mheap \<Rightarrow> mheap" where
  "move_to m d md nmd H =
     H\<lparr>mds := (mds H)(next_md H \<mapsto> nmd, d := (if 1 < md_refs md then Some (dropped md) else None)),
       next_md := next_md H + 1, maps := (maps H)(m \<mapsto> next_md H)\<rparr>"

lemma counts_drop:
  assumes "counts_ok H d md" "m \<in> owners H d" "finite (owners H d)" "1 < md_refs md"
    "owners H' d = owners H d - {m}" "next_md H \<le> next_md H'"
  shows "counts_ok H' d (dropped md)"
proof -
  have "0 < card (owners H d)" "card (owners H' d) = card (owners H d) - 1"
    using assms(2,3,5) by (auto simp: card_gt_0_iff)
  then show ?thesis
    using assms(1,4,6) by (auto simp: counts_ok_def)
qed

lemma heap_ok_move:
  assumes "heap_ok w H" "has_md H m d md" "md_ok w nmd" "md_refs nmd = 1" "valrefs nmd = 0" "hardlinks nmd = 0"
  shows "heap_ok w (move_to m d md nmd H)" "has_md (move_to m d md nmd H) m (next_md H) nmd"
    "m' \<noteq> m \<Longrightarrow> contents (move_to m d md nmd H) m' = contents H m'"
proof -
  define H' where "H' = move_to m d md nmd H"
  define n where "n = next_md H"
  note o = owners_live [OF assms(1,2)]
  have dn: "d < n" "4 \<le> n"
    using heap_okD(5) [OF assms(1)] assms(1,2) by (auto simp: n_def heap_ok_def)
  have used: "maps H x = Some e \<Longrightarrow> e < n" for x e
    using assms(1) heap_okD(5) [OF assms(1)] unfolding heap_ok_def n_def by blast
  have ow: "owners H' n = {m}" "owners H' d = owners H d - {m}"
    "e \<noteq> n \<Longrightarrow> e \<noteq> d \<Longrightarrow> owners H' e = owners H e" for e
    using used dn assms(2) by (auto simp: owners_def H'_def move_to_def n_def [symmetric])
  have md: "mds H' e = (if e = d then (if 1 < md_refs md then Some (dropped md) else None)
      else if e = n then Some nmd else mds H e)" for e
    using dn by (simp add: H'_def move_to_def n_def)
  have single: "owners H d = {m}" if "\<not> 1 < md_refs md"
    using private_owner [OF assms(1,2)] heap_okD(2) [OF assms(1), of d md] assms(2) that o(2)
    by (auto simp: counts_ok_def split: if_splits)
  have big: "4 \<le> d" if "\<not> 1 < md_refs md"
    using static_refs [OF assms(1,2)] that by linarith
  have live: "mds H' e \<noteq> None" if "maps H' x = Some e" for x e
  proof (cases "x = m")
    case True
    then have "e = n"
      using that by (simp add: H'_def move_to_def n_def)
    then show ?thesis
      using md dn by simp
  next
    case False
    then have "maps H x = Some e"
      using that by (simp add: H'_def move_to_def)
    then show ?thesis
      using md assms(1) single False by (auto simp: heap_ok_def owners_def)
  qed
  have counts: "md_ok w me \<and> counts_ok H' e me" if "mds H' e = Some me" for e me
  proof -
    have n': "next_md H' = n + 1"
      by (simp add: H'_def move_to_def n_def)
    consider "e = d" | "e = n" "e \<noteq> d" | "e \<noteq> d" "e \<noteq> n"
      by blast
    then show ?thesis
    proof cases
      case 1
      then have "1 < md_refs md" "me = dropped md"
        using that md by (auto split: if_splits)
      then show ?thesis
        using 1 counts_drop [OF _ o(1) _ _ ow(2)] heap_okD [OF assms(1)] assms(2) n' n_def by auto
    next
      case 2
      then show ?thesis
        using that md assms(3-6) ow(1) n' dn by (auto simp: counts_ok_def)
    next
      case 3
      then have "md_ok w me" "counts_ok H e me"
        using that md heap_okD [OF assms(1)] by auto
      then show ?thesis
        using 3 ow(3) n' by (auto simp: counts_ok_def n_def)
    qed
  qed
  have "mds H' e \<noteq> None" if "e < 4" for e
    using that md dn big assms(1) by (auto simp: heap_ok_def)
  moreover have "finite (dom (maps H'))"
    using assms(1) by (simp add: H'_def move_to_def heap_ok_def)
  ultimately show "heap_ok w (move_to m d md nmd H)"
    using live counts dn unfolding heap_ok_def H'_def [symmetric]
    by (auto simp: H'_def move_to_def n_def [symmetric])
  show "has_md (move_to m d md nmd H) m (next_md H) nmd"
    using md dn unfolding H'_def n_def by (simp add: move_to_def)
  assume "m' \<noteq> m"
  then have m': "maps H' m' = maps H m'"
    by (simp add: H'_def move_to_def)
  have "map_option seen (mds H' e) = map_option seen (mds H e)" if "maps H m' = Some e" for e
    using that single \<open>m' \<noteq> m\<close> used [OF that] md [of e] assms(2) by (auto simp: owners_def)
  then show "contents (move_to m d md nmd H) m' = contents H m'"
    unfolding H'_def [symmetric] by (simp add: contents_def m' split: option.splits)
qed

section \<open>Copying and rehashing\<close>

lemma copymap_ok:
  assumes "heap_ok w H" "has_md H m d md" "1 < md_refs md"
  defines "nmd \<equiv> md\<lparr>md_refs := 1, valrefs := 0, hardlinks := 0\<rparr>"
  shows "copymap H m = Inr (move_to m d md nmd H)" "md_ok w nmd" "all_pairs nmd = all_pairs md"
    "hash nmd = hash md"
proof -
  have "d \<noteq> next_md H"
    using heap_okD(5) [OF assms(1), of d md] assms(2) by simp
  then show "copymap H m = Inr (move_to m d md nmd H)"
    using has_md_simps [OF assms(2)] assms(3) drop_link_ok [OF assms(1,2)]
    by (simp add: copymap_def copy_mapping_data_def new_md_def Let_def put_md_def set_data_def
        move_to_def nmd_def fun_upd_twist)
  show "md_ok w nmd" "all_pairs nmd = all_pairs md" "hash nmd = hash md"
    using heap_okD(1) [OF assms(1), of d md] assms(2) by (simp_all add: nmd_def md_ok_def all_pairs_def)
qed

lemma power_size_bounds: "power_size n \<Longrightarrow> 0 < n" "power_size n \<Longrightarrow> n \<le> 2 ^ 28"
  using power_increasing [of _ 28 "2 :: nat"] by (auto simp: power_size_def)

lemma init_data_ok:
  fixes flags :: "16 word"
  assumes "0 < n" "n \<le> 2 ^ 28"
  defines "md \<equiv> new_table (round_hashsize n) flags"
  shows "init_data n flags = Inr md" "md_ok w md" "all_pairs md = []"
    "hashsize md = round_hashsize n" "free_list md = avg_link_length * round_hashsize n"
    "md_refs md = 1" "valrefs md = 0" "hardlinks md = 0" "md_flags md = flags" "md_size md = 0"
proof -
  have p: "power_size (round_hashsize n)"
    by (rule round_hashsize_ok(1) [OF assms(1,2)])
  then have "int (round_hashsize n) * int avg_link_length < 2 ^ 31"
    using power_size_bounds(2) [OF p] by (simp add: avg_link_length_def)
  then show "init_data n flags = Inr md"
    by (simp add: init_data_def md_def Let_def)
  show "md_ok w md" "all_pairs md = []"
    "hashsize md = round_hashsize n" "free_list md = avg_link_length * round_hashsize n"
    "md_refs md = 1" "valrefs md = 0" "hardlinks md = 0" "md_flags md = flags" "md_size md = 0"
    using p by (auto simp: md_def new_table_def Let_def md_ok_def chains_ok_def all_pairs_def in_set_replicate)
qed

lemma no_weak_keep:
  assumes "flags AND mapping_weak = 0"
  shows "keep_good multi flags k" "keep_evil multi flags k"
  using assms by (simp_all add: keep_good_def keep_evil_def)

lemma rehash_ok:
  assumes "heap_ok w H" "has_md H m d md" "md_flags md AND mapping_weak = 0" "0 < n" "n \<le> 2 ^ 28"
    "md_size md \<le> avg_link_length * round_hashsize n"
  shows "\<exists>H' d' md'. rehash w multi H m n = Inr H' \<and> heap_ok w H' \<and> has_md H' m d' md' \<and>
    set (all_pairs md') = set (all_pairs md) \<and> md_refs md' = 1 \<and> hashsize md' = round_hashsize n \<and>
    md_flags md' = md_flags md \<and> md_size md' = md_size md \<and> (\<forall>m'. m' \<noteq> m \<longrightarrow> contents H' m' = contents H m')"
proof (cases "hashsize md = round_hashsize n \<and> md_refs md = 1 \<and> \<not> md_fullp md")
  case True
  then have "rehash w multi H m n = Inr H"
    unfolding rehash_def has_md_simps(3) [OF assms(2)] by simp
  then show ?thesis
    using True assms(1,2) by auto
next
  case False
  define r where "r = round_hashsize n"
  have r: "power_size r" "0 < r" "r \<le> 2 ^ 28" "round_hashsize r = r"
    using round_hashsize_ok(1) [OF assms(4,5)] power_size_bounds round_power unfolding r_def by auto
  define nmd where "nmd = new_table r (md_flags md)"
  have init: "init_data r (md_flags md) = Inr nmd"
    and i: "md_ok w nmd" "all_pairs nmd = []" "hashsize nmd = r" "free_list nmd = avg_link_length * r"
    "md_refs nmd = 1" "valrefs nmd = 0" "hardlinks nmd = 0" "md_flags nmd = md_flags md"
    using init_data_ok [OF r(2,3)] by (simp_all add: nmd_def r(4))
  define keep where "keep = (if 1 < md_refs md then keep_good multi else keep_evil multi)"
  have ok: "md_ok w md"
    using heap_okD(1) [OF assms(1), of d md] assms(2) by simp
  have len: "length (concat (hash md)) \<le> free_list nmd"
    using ok assms(6) i(4) by (simp add: md_ok_def all_pairs_def r_def)
  have all: "list_all (keep (md_flags nmd)) (concat (hash md))"
    using no_weak_keep [OF assms(3)] i(8) by (simp add: keep_def list_all_iff)
  then have flt: "filter (keep (md_flags nmd)) (concat (hash md)) = concat (hash md)"
    by (simp add: list_all_iff)
  have ne: "hash nmd \<noteq> []"
    using i(3) r(2) by auto
  have e: "\<forall>k \<in> set (concat (hash md)). entry_ok w k" "distinct_keys w (concat (hash md))"
    using pairs_ok [OF ok] by (simp_all add: all_pairs_def)
  obtain md' where md': "rehash_chains w keep (hash md) nmd = Inr md'" "md_ok w md'" "same_frame nmd md'"
    "set (all_pairs md') = set (concat (hash md))" "free_list md' + length (concat (hash md)) = free_list nmd"
    using rehash_chains_ok [OF i(1) ne len e, of keep] i(2) all flt by auto
  have fr: "md_refs md' = 1" "valrefs md' = 0" "hardlinks md' = 0" "hashsize md' = r" "md_flags md' = md_flags md"
    using md'(3) i by (simp_all add: same_frame_def)
  have d: "d \<noteq> next_md H" "mds H d = Some md"
    using heap_okD(5) [OF assms(1), of d md] assms(2) by auto
  define H1 where "H1 = set_data m (next_md H) ((put_md (next_md H) nmd H)\<lparr>next_md := next_md H + 1\<rparr>)"
  have h1: "init_mapping H m r (md_flags md) = Inr H1"
    using r(2) init by (simp add: init_mapping_def new_md_def H1_def)
  have g1: "get_md H1 d = Inr md" "has_md H1 m (next_md H) nmd"
    using d by (simp_all add: H1_def get_md_def set_data_def put_md_def)
  have mv: "rehash w multi H m n = Inr (move_to m d md md' H)"
  proof (cases "1 < md_refs md")
    case True
    have "get_md (put_md (next_md H) md' H1) d = Inr md"
      using g1(1) d by (simp add: get_md_def put_md_def split: option.splits)
    moreover have "put_md d (dropped md) (put_md (next_md H) md' H1) = move_to m d md md' H"
      using d True by (simp add: put_md_def H1_def set_data_def move_to_def fun_upd_twist)
    ultimately have "unlink_mapping_data (put_md (next_md H) md' H1) d = Inr (move_to m d md md' H)"
      using True drop_link_ok [OF assms(1,2)] by (simp add: unlink_mapping_data_def)
    then show ?thesis
      using True md'(1) unfolding rehash_def has_md_simps(3) [OF assms(2)] if_not_P [OF False]
      by (simp add: r_def [symmetric] keep_def h1 g1(1) has_md_simps(3) [OF g1(2)])
  next
    case nt: False
    have "free_md d (put_md (next_md H) md' H1) = move_to m d md md' H"
      using d nt by (simp add: put_md_def H1_def set_data_def move_to_def free_md_def fun_upd_twist)
    then show ?thesis
      using nt md'(1) unfolding rehash_def has_md_simps(3) [OF assms(2)] if_not_P [OF False]
      by (simp add: r_def [symmetric] keep_def h1 g1(1) has_md_simps(3) [OF g1(2)])
  qed
  have sz: "md_size md' = md_size md"
    using md'(2,5) ok i(4) fr(4) by (simp add: md_ok_def all_pairs_def)
  note move = heap_ok_move [OF assms(1,2) md'(2) fr(1-3)]
  show ?thesis
    unfolding mv using move md'(4) fr sz
    by (intro exI [of _ "move_to m d md md' H"] exI [of _ "next_md H"] exI [of _ md'])
      (simp add: r_def all_pairs_def)
qed

section \<open>The operations refine a finite map\<close>

lemma insert_new_ok:
  assumes "heap_ok w H" "has_md H m d md" "md_flags md AND mapping_weak = 0" "md_size md < 2 ^ 30"
    "plain_value w key" "low_find w md key = None"
  shows "\<exists>H' d' md'. insert_new w multi H m key v = Inr H' \<and> heap_ok w H' \<and> has_md H' m d' md' \<and>
    set (all_pairs md') = insert \<lparr>hval = hash_svalue w key, ind = key, val = v\<rparr> (set (all_pairs md)) \<and>
    md_flags md' = md_flags md \<and> md_size md' = md_size md + 1 \<and>
    (\<forall>m'. m' \<noteq> m \<longrightarrow> contents H' m' = contents H m')"
proof -
  define n where "n = (if hashsize md \<noteq> 0 then push_bit (of_bool (md_fullp md)) (hashsize md) else avg_link_length)"
  define k where "k = \<lparr>hval = hash_svalue w key, ind = key, val = v\<rparr>"
  have ok: "md_ok w md" "counts_ok H d md"
    using heap_okD [OF assms(1), of d md] assms(2) by auto
  have none: "\<forall>k' \<in> set (all_pairs md). \<not> is_eq w (ind k') key"
    using low_find_none [OF ok(1) assms(6,5)] by blast
  have step: "\<exists>H1 d1 md1. (if md_fullp md \<or> md_refs md > 1 then rehash w multi H m n else Inr H) = Inr H1 \<and>
      heap_ok w H1 \<and> has_md H1 m d1 md1 \<and> set (all_pairs md1) = set (all_pairs md) \<and> md_refs md1 = 1 \<and>
      free_list md1 \<noteq> 0 \<and> hash md1 \<noteq> [] \<and> md_flags md1 = md_flags md \<and> md_size md1 = md_size md \<and>
      (\<forall>m'. m' \<noteq> m \<longrightarrow> contents H1 m' = contents H m')"
  proof (cases "md_fullp md \<or> md_refs md > 1")
    case True
    have pn: "power_size n \<and> md_size md < 4 * n"
    proof (cases "hash md = []")
      case True
      then have "n = 2 ^ 2" "md_size md = 0"
        using ok(1) by (simp_all add: n_def avg_link_length_def md_ok_def all_pairs_def)
      moreover have "power_size (2 ^ 2)"
        unfolding power_size_def by (intro exI [of _ 2]) simp
      ultimately show ?thesis
        by simp
    next
      case ne: False
      then obtain e where e: "hashsize md = 2 ^ e" "e \<le> 28"
        using ok(1) by (auto simp: md_ok_def power_size_def)
      have s: "md_size md + free_list md = 4 * 2 ^ e"
        using ok(1) e(1) by (simp add: md_ok_def avg_link_length_def)
      show ?thesis
      proof (cases "md_fullp md")
        case True
        then have "(4 :: nat) * 2 ^ e < 2 ^ 30"
          using s assms(4) by (simp add: md_fullp_def)
        then have "(2 :: nat) ^ (e + 2) < 2 ^ 30"
          by simp
        then have "e + 2 < 30"
          by (rule power_less_imp_less_exp [rotated]) simp
        moreover have "n = 2 ^ (e + 1)"
          using True ne e(1) by (simp add: n_def push_bit_eq_mult)
        ultimately show ?thesis
          using s True by (auto simp: power_size_def md_fullp_def intro!: exI [of _ "e + 1"])
      next
        case False
        then have "n = 2 ^ e"
          using ne e(1) by (simp add: n_def)
        then show ?thesis
          using s e(2) False by (auto simp: power_size_def md_fullp_def)
      qed
    qed
    then have "round_hashsize n = n" "0 < n" "n \<le> 2 ^ 28"
      using round_power [of n] power_size_bounds [of n] by auto
    then obtain H1 d1 md1 where 1: "rehash w multi H m n = Inr H1" "heap_ok w H1" "has_md H1 m d1 md1"
      "set (all_pairs md1) = set (all_pairs md)" "md_refs md1 = 1" "hashsize md1 = n"
      "md_flags md1 = md_flags md" "md_size md1 = md_size md" "\<forall>m'. m' \<noteq> m \<longrightarrow> contents H1 m' = contents H m'"
      using rehash_ok [OF assms(1-3), of n multi] pn by (auto simp: avg_link_length_def)
    have "md_ok w md1"
      using heap_okD(1) [OF 1(2), of d1 md1] 1(3) by simp
    then have "free_list md1 \<noteq> 0" "hash md1 \<noteq> []"
      using pn 1(6,8) \<open>0 < n\<close> by (auto simp: md_ok_def avg_link_length_def)
    then show ?thesis
      using 1 True by auto
  next
    case False
    then have "md_refs md = 1" "free_list md \<noteq> 0"
      using ok(2) by (auto simp: counts_ok_def md_fullp_def split: if_splits)
    moreover have "hash md \<noteq> []"
      using ok(1) \<open>free_list md \<noteq> 0\<close> by (auto simp: md_ok_def)
    ultimately show ?thesis
      using False assms(1,2) by auto
  qed
  then obtain H1 d1 md1 where 1: "(if md_fullp md \<or> md_refs md > 1 then rehash w multi H m n else Inr H) = Inr H1"
    "heap_ok w H1" "has_md H1 m d1 md1" "set (all_pairs md1) = set (all_pairs md)" "md_refs md1 = 1"
    "free_list md1 \<noteq> 0" "hash md1 \<noteq> []" "md_flags md1 = md_flags md" "md_size md1 = md_size md"
    "\<forall>m'. m' \<noteq> m \<longrightarrow> contents H1 m' = contents H m'"
    by blast
  have ok1: "md_ok w md1"
    using heap_okD(1) [OF 1(2), of d1 md1] 1(3) by simp
  have ne: "\<forall>k' \<in> set (all_pairs md1). \<not> is_eq w (ind k') (ind k)"
    using none 1(4) by (simp add: k_def)
  have ek: "entry_ok w k"
    using assms(5) by (simp add: entry_ok_def k_def)
  have sk: "slot (hash_svalue w key) (hashsize md1) = slot (hval k) (hashsize md1)"
    by (simp add: k_def)
  obtain md2 where md2: "link_pair w (slot (hash_svalue w key) (hashsize md1)) k md1 = Inr md2" "md_ok w md2"
    "same_frame md1 md2" "set (all_pairs md2) = insert k (set (all_pairs md1))" "free_list md2 = free_list md1 - 1"
    using link_pair_ok [OF ok1 1(7,6) ek sk ne] by auto
  have "md_size md1 + free_list md1 = avg_link_length * hashsize md1"
    "md_size md2 + free_list md2 = avg_link_length * hashsize md2"
    using ok1 md2(2) unfolding md_ok_def by blast+
  then have sz: "md_size md2 = md_size md1 + 1"
    using same_frameD(2) [OF md2(3)] md2(5) 1(6) by simp
  have pr: "owners H1 d1 = {m}" "4 \<le> d1"
    using private_owner [OF 1(2,3)] 1(5) by auto
  note put = heap_ok_put [OF 1(2,3) pr(1) md2(2) pr(2)]
  have fr: "md_refs md2 = md_refs md1" "valrefs md2 = valrefs md1" "hardlinks md2 = hardlinks md1"
    "md_flags md2 = md_flags md1"
    using md2(3) by (simp_all add: same_frame_def)
  have "insert_new w multi H m key v = Inr (put_md d1 md2 H1)"
    using md2(1)
    unfolding insert_new_def has_md_simps(3) [OF assms(2)] Let_def n_def [symmetric] k_def [symmetric] 1(1)
    by (simp add: has_md_simps(3) [OF 1(3)])
  then show ?thesis
    using put [OF fr(1-3)] md2(4) 1(4,8-10) fr(4) sz
    by (intro exI [of _ "put_md d1 md2 H1"] exI [of _ d1] exI [of _ md2]) (simp add: k_def)
qed

text \<open>A table that may be changed: a copy of its own when it is shared.\<close>

lemma own_copy:
  assumes "heap_ok w H" "has_md H m d md" "hash md \<noteq> []" "share \<Longrightarrow> 1 < md_refs md"
    "\<not> share \<Longrightarrow> md_refs md = 1 \<or> valrefs md = 0"
  shows "\<exists>H1 d1 md1. (if share then copymap H m else Inr H) = Inr H1 \<and> heap_ok w H1 \<and> has_md H1 m d1 md1 \<and>
    md_ok w md1 \<and> owners H1 d1 = {m} \<and> 4 \<le> d1 \<and> hash md1 = hash md \<and> md_flags md1 = md_flags md \<and>
    (\<forall>m'. m' \<noteq> m \<longrightarrow> contents H1 m' = contents H m')"
proof (cases share)
  case True
  define nmd where "nmd = md\<lparr>md_refs := 1, valrefs := 0, hardlinks := 0\<rparr>"
  note c = copymap_ok [OF assms(1,2) assms(4) [OF True], folded nmd_def]
  have fr: "md_refs nmd = 1" "valrefs nmd = 0" "hardlinks nmd = 0" "md_flags nmd = md_flags md"
    by (simp_all add: nmd_def)
  note move = heap_ok_move [OF assms(1,2) c(2) fr(1-3)]
  have "owners (move_to m d md nmd H) (next_md H) = {m}" "4 \<le> next_md H"
    using private_owner [OF move(1,2)] fr(1) by auto
  then show ?thesis
    using True c move fr(4)
    by (intro exI [of _ "move_to m d md nmd H"] exI [of _ "next_md H"] exI [of _ nmd]) simp
next
  case False
  then have "owners H d = {m}" "4 \<le> d"
    using private_owner [OF assms(1,2)] assms(3,5) by auto
  then show ?thesis
    using False assms(1,2) heap_okD(1) [OF assms(1), of d md] by auto
qed

lemma set_value_ok:
  assumes "heap_ok w H" "has_md H m d md" "low_find w md key = Some (h, j)"
    "ind (f (hash md ! h ! j)) = ind (hash md ! h ! j)" "hval (f (hash md ! h ! j)) = hval (hash md ! h ! j)"
    "val (f (hash md ! h ! j)) = v"
  shows "\<exists>H' d' md' S. set_value H m (h, j) f v = Inr H' \<and> heap_ok w H' \<and> has_md H' m d' md' \<and>
    set (all_pairs md') = insert (f (hash md ! h ! j)) S \<and>
    set (all_pairs md) = insert (hash md ! h ! j) S \<and>
    (\<forall>k \<in> S. \<not> is_eq w (ind k) (ind (hash md ! h ! j))) \<and>
    md_flags md' = md_flags md \<and> md_size md' = md_size md \<and> (\<forall>m'. m' \<noteq> m \<longrightarrow> contents H' m' = contents H m')"
proof -
  define k where "k = hash md ! h ! j"
  have ok: "md_ok w md" "counts_ok H d md"
    using heap_okD [OF assms(1), of d md] assms(2) by auto
  have hj: "h < hashsize md" "j < length (hash md ! h)"
    using low_find_some [OF ok(1) assms(3)] by auto
  then have ne: "hash md \<noteq> []"
    by auto
  have "1 < md_refs md" if "valrefs md \<noteq> 0"
    using ok(2) ne that owners_live(2) [OF assms(1,2)] by (auto simp: counts_ok_def split: if_splits)
  then obtain H1 d1 md1 where 1: "(if valrefs md \<noteq> 0 then copymap H m else Inr H) = Inr H1" "heap_ok w H1"
    "has_md H1 m d1 md1" "md_ok w md1" "owners H1 d1 = {m}" "4 \<le> d1" "hash md1 = hash md"
    "md_flags md1 = md_flags md" "\<forall>m'. m' \<noteq> m \<longrightarrow> contents H1 m' = contents H m'"
    using own_copy [OF assms(1,2) ne, of "valrefs md \<noteq> 0"] by blast
  have cs: "chains_ok w (hash md)"
    using ok(1) by (simp add: md_ok_def)
  define rest where "rest = concat ((hash md)[h := remove_nth j (hash md ! h)])"
  have upd: "chains_ok w ((hash md)[h := (hash md ! h)[j := f k]])"
    "set (concat ((hash md)[h := (hash md ! h)[j := f k]])) = insert (f k) (set rest)"
    "length (concat ((hash md)[h := (hash md ! h)[j := f k]])) = length (concat (hash md))"
    using chains_ok_update [OF cs hj, of "f k"] assms(4,5) by (simp_all add: rest_def k_def)
  have old: "set (concat (hash md)) = insert k (set rest)"
    "\<forall>k' \<in> set rest. \<not> is_eq w (ind k') (ind k)"
    using chains_ok_unlink [OF cs hj] by (simp_all add: rest_def k_def)
  define md2 where "md2 = update_pair (h, j) f (md1\<lparr>val_types := val_types md1 OR bitof v\<rparr>)"
  have h2: "hash md2 = (hash md)[h := (hash md ! h)[j := f k]]"
    by (simp add: md2_def update_pair_def 1(7) k_def)
  have p2: "set (all_pairs md2) = insert (f k) (set rest)" "length (all_pairs md2) = length (all_pairs md1)"
    using upd(2,3) 1(7) by (simp_all add: all_pairs_def h2)
  have t2: "ind_types md2 = ind_types md1" "val_types md2 = val_types md1 OR bitof v"
    "md_size md2 = md_size md1" "free_list md2 = free_list md1" "num_keypairs md2 = num_keypairs md1"
    "hashsize md2 = hashsize md1"
    by (simp_all add: md2_def update_pair_def)
  have p1: "set (all_pairs md1) = insert k (set rest)"
    using old(1) 1(7) by (simp add: all_pairs_def)
  have "covers (ind_types md2) (map ind (all_pairs md2))" "covers (val_types md2) (map val (all_pairs md2))"
    using 1(4) p1 p2(1) t2 assms(4,6)
    by (auto simp: md_ok_def covers_def bit_or_bitof k_def)
  then have ok2: "md_ok w md2"
    using 1(4) upd(1) p2(2) t2 unfolding md_ok_def h2 [symmetric]
    by (metis 1(7) ne length_0_conv)
  have "set_value H m (h, j) f v = Inr (put_md d1 md2 H1)"
    unfolding set_value_def has_md_simps(3) [OF assms(2)] 1(1)
    by (simp add: has_md_simps(3) [OF 1(3)] md2_def)
  moreover have "md_refs md2 = md_refs md1" "valrefs md2 = valrefs md1" "hardlinks md2 = hardlinks md1"
    "md_flags md2 = md_flags md1"
    by (simp_all add: md2_def update_pair_def)
  moreover have "md_size md2 = md_size md"
    using ok(1) 1(4,7) t2(3) by (simp add: md_ok_def all_pairs_def)
  ultimately show ?thesis
    using heap_ok_put [OF 1(2,3,5) ok2 1(6)] p2(1) old 1(8,9)
    by (intro exI [of _ "put_md d1 md2 H1"] exI [of _ d1] exI [of _ md2] exI [of _ "set rest"])
      (simp add: k_def all_pairs_def)
qed

text \<open>The lookups after a pair was added, or its value replaced.\<close>

lemma insert_new_get:
  assumes "heap_ok w H" "has_md H m d md" "md_flags md AND mapping_weak = 0" "md_size md < 2 ^ 30"
    "plain_value w key" "low_find w md key = None"
  shows "\<exists>H' d' md'. insert_new w multi H m key v = Inr H' \<and> heap_ok w H' \<and> has_md H' m d' md' \<and>
    md_flags md' = md_flags md \<and> md_size md' \<le> md_size md + 1 \<and>
    (\<forall>q. plain_value w q \<longrightarrow> map_get w H' m q = (if is_eq w key q then Some v else map_get w H m q)) \<and>
    (\<forall>m'. m' \<noteq> m \<longrightarrow> contents H' m' = contents H m')"
proof -
  obtain H' d' md' where 1: "insert_new w multi H m key v = Inr H'" "heap_ok w H'" "has_md H' m d' md'"
    "set (all_pairs md') = insert \<lparr>hval = hash_svalue w key, ind = key, val = v\<rparr> (set (all_pairs md))"
    "md_flags md' = md_flags md" "md_size md' = md_size md + 1" "\<forall>m'. m' \<noteq> m \<longrightarrow> contents H' m' = contents H m'"
    using insert_new_ok [OF assms, of multi v] by blast
  have ok: "md_ok w md" "md_ok w md'"
    using heap_okD(1) [OF assms(1), of d md] heap_okD(1) [OF 1(2), of d' md'] assms(2) 1(3) by auto
  have "map_get w H' m q = (if is_eq w key q then Some v else map_get w H m q)" if "plain_value w q" for q
    unfolding has_md_simps(5) [OF assms(2)] has_md_simps(5) [OF 1(3)]
    using lookup_insert [OF ok that assms(5) 1(4)] low_find_none [OF ok(1) assms(6,5)]
      plain_refl [OF assms(5)] by simp
  then show ?thesis
    using 1 by auto
qed

lemma set_value_get:
  assumes "heap_ok w H" "has_md H m d md" "low_find w md key = Some p" "plain_value w key"
    "\<And>k. is_eq w (ind k) key \<Longrightarrow> plain_value w (ind k) \<Longrightarrow> ind (f k) = ind k \<and> hval (f k) = hval k \<and> val (f k) = v"
  shows "\<exists>H' d' md'. set_value H m p f v = Inr H' \<and> heap_ok w H' \<and> has_md H' m d' md' \<and>
    md_flags md' = md_flags md \<and> md_size md' = md_size md \<and>
    (\<forall>q. plain_value w q \<longrightarrow> map_get w H' m q = (if is_eq w key q then Some v else map_get w H m q)) \<and>
    (\<forall>m'. m' \<noteq> m \<longrightarrow> contents H' m' = contents H m')"
proof -
  obtain h j where p: "p = (h, j)"
    by (cases p)
  define k where "k = hash md ! h ! j"
  have ok: "md_ok w md"
    using heap_okD(1) [OF assms(1), of d md] assms(2) by simp
  note fs = low_find_some [OF ok assms(3) [unfolded p]]
  have eq: "is_eq w (ind k) key" "plain_value w (ind k)"
    using fs(3,5) pairs_ok(2) [OF ok] by (simp_all add: k_def)
  have fk: "ind (f k) = ind k" "hval (f k) = hval k" "val (f k) = v"
    using assms(5) [OF eq] by simp_all
  obtain H' d' md' S where 1: "set_value H m (h, j) f v = Inr H'" "heap_ok w H'" "has_md H' m d' md'"
    "set (all_pairs md') = insert (f k) S" "set (all_pairs md) = insert k S"
    "\<forall>k' \<in> S. \<not> is_eq w (ind k') (ind k)" "md_flags md' = md_flags md" "md_size md' = md_size md"
    "\<forall>m'. m' \<noteq> m \<longrightarrow> contents H' m' = contents H m'"
    using set_value_ok [OF assms(1,2) assms(3) [unfolded p]] fk unfolding k_def by blast
  have ok': "md_ok w md'"
    using heap_okD(1) [OF 1(2), of d' md'] 1(3) by simp
  have S: "\<forall>k' \<in> S. \<not> is_eq w (ind k') key"
    using 1(5,6) eq assms(4) pairs_ok(2) [OF ok] plain_trans [of w _ key "ind k"] plain_sym [of w key "ind k"]
    by (metis insertCI)
  have old: "set (all_pairs md) = S \<or> (\<exists>k. set (all_pairs md) = insert k S \<and> is_eq w (ind k) key)"
    using 1(5) eq(1) by blast
  have "map_get w H' m q = (if is_eq w key q then Some v else map_get w H m q)" if "plain_value w q" for q
    unfolding has_md_simps(5) [OF assms(2)] has_md_simps(5) [OF 1(3)]
    using lookup_insert [OF ok ok' that assms(4) 1(4) old S] eq(1) fk by simp
  then show ?thesis
    using 1 p by auto
qed

lemma low_mapping_insert_ok:
  assumes "heap_ok w H" "has_md H m d md" "md_flags md AND mapping_weak = 0" "md_size md < 2 ^ 30"
    "plain_value w key" "overwrite \<noteq> 0"
  shows "\<exists>H' d' md'. low_mapping_insert w multi H m key v overwrite = Inr H' \<and> heap_ok w H' \<and>
    has_md H' m d' md' \<and> md_flags md' = md_flags md \<and> md_size md' \<le> md_size md + 1 \<and>
    (\<forall>q. plain_value w q \<longrightarrow> map_get w H' m q = (if is_eq w key q then Some v else map_get w H m q)) \<and>
    (\<forall>m'. m' \<noteq> m \<longrightarrow> contents H' m' = contents H m')"
proof (cases "low_find w md key")
  case None
  then have "low_mapping_insert w multi H m key v overwrite = insert_new w multi H m key v"
    unfolding low_mapping_insert_def has_md_simps(3) [OF assms(2)] by simp
  then show ?thesis
    using insert_new_get [OF assms(1-5) None, of multi v] by simp
next
  case (Some p)
  define f where "f = (\<lambda>k :: keypair. k\<lparr>val := v, ind := (if overwrite = 2 \<and> is_object key then key else ind k)\<rparr>)"
  have "ind (f k) = ind k \<and> hval (f k) = hval k \<and> val (f k) = v"
    if "is_eq w (ind k) key" "plain_value w (ind k)" for k
  proof -
    have "key = ind k" if "is_object key"
      using that \<open>is_eq w (ind k) key\<close> unfolding is_eq_plain [OF \<open>plain_value w (ind k)\<close> assms(5)]
      by (cases key; cases "ind k") auto
    then show ?thesis
      by (auto simp: f_def)
  qed
  from set_value_get [OF assms(1,2) Some assms(5), of f, OF this]
  obtain H' d' md' where "set_value H m p f v = Inr H'" "heap_ok w H'" "has_md H' m d' md'"
    "md_flags md' = md_flags md" "md_size md' = md_size md"
    "\<forall>q. plain_value w q \<longrightarrow> map_get w H' m q = (if is_eq w key q then Some v else map_get w H m q)"
    "\<forall>m'. m' \<noteq> m \<longrightarrow> contents H' m' = contents H m'"
    by blast
  moreover have "low_mapping_insert w multi H m key v overwrite = set_value H m p f v"
    unfolding low_mapping_insert_def has_md_simps(3) [OF assms(2)] using assms(6) Some by (simp add: f_def)
  ultimately show ?thesis
    by auto
qed

lemma remove_value_ok:
  assumes "heap_ok w H" "has_md H m d md" "md_flags md AND mapping_weak = 0" "low_find w md key = Some (h, j)"
  shows "\<exists>H' d' md'. remove_value w multi H m (h, j) = Inr H' \<and> heap_ok w H' \<and> has_md H' m d' md' \<and>
    set (all_pairs md) = insert (hash md ! h ! j) (set (all_pairs md')) \<and>
    (\<forall>k \<in> set (all_pairs md'). \<not> is_eq w (ind k) (ind (hash md ! h ! j))) \<and>
    md_flags md' = md_flags md \<and> md_size md' + 1 = md_size md \<and> hash md' \<noteq> [] \<and> (\<forall>m'. m' \<noteq> m \<longrightarrow> contents H' m' = contents H m')"
proof -
  define k where "k = hash md ! h ! j"
  have ok: "md_ok w md" "counts_ok H d md"
    using heap_okD [OF assms(1), of d md] assms(2) by auto
  have hj: "h < hashsize md" "j < length (hash md ! h)"
    using low_find_some [OF ok(1) assms(4)] by auto
  then have ne: "hash md \<noteq> []"
    by auto
  have "md_refs md = 1" if "\<not> md_refs md > 1"
    using ok(2) that by (auto simp: counts_ok_def split: if_splits)
  then obtain H1 d1 md1 where 1: "(if md_refs md > 1 then copymap H m else Inr H) = Inr H1" "heap_ok w H1"
    "has_md H1 m d1 md1" "md_ok w md1" "owners H1 d1 = {m}" "4 \<le> d1" "hash md1 = hash md"
    "md_flags md1 = md_flags md" "\<forall>m'. m' \<noteq> m \<longrightarrow> contents H1 m' = contents H m'"
    using own_copy [OF assms(1,2) ne, of "md_refs md > 1"] by blast
  have cs: "chains_ok w (hash md)"
    using ok(1) by (simp add: md_ok_def)
  define md2 where "md2 = unlink_pair (h, j) md1"
  define md3 where "md3 = (if md_size md2 = 0 then md2\<lparr>ind_types := 0, val_types := 0\<rparr> else md2)"
  have h3: "hash md3 = (hash md)[h := remove_nth j (hash md ! h)]"
    by (simp add: md3_def md2_def unlink_pair_def 1(7))
  have un: "chains_ok w (hash md3)" "set (all_pairs md) = insert k (set (all_pairs md3))"
    "\<forall>k' \<in> set (all_pairs md3). \<not> is_eq w (ind k') (ind k)" "length (all_pairs md) = length (all_pairs md3) + 1"
    using chains_ok_unlink [OF cs hj] unfolding h3 [symmetric] by (simp_all add: k_def all_pairs_def)
  have f3: "md_size md3 = md_size md1 - 1" "free_list md3 = free_list md1 + 1" "num_keypairs md3 = num_keypairs md1"
    "md_refs md3 = md_refs md1" "valrefs md3 = valrefs md1" "hardlinks md3 = hardlinks md1"
    "md_flags md3 = md_flags md1" "hashsize md3 = hashsize md1"
    by (simp_all add: md3_def md2_def unlink_pair_def)
  have "md_size md1 = length (all_pairs md1)" "all_pairs md1 = all_pairs md"
    using 1(4,7) by (simp_all add: md_ok_def all_pairs_def)
  then have s1: "md_size md1 = length (all_pairs md3) + 1" "md_size md1 + free_list md1 = avg_link_length * hashsize md1"
    using 1(4) un(4) unfolding md_ok_def by simp_all
  have a3: "all_pairs md3 = all_pairs md2"
    by (simp add: md3_def all_pairs_def)
  have sz2: "md_size md2 = length (all_pairs md3)"
    using s1(1) by (simp add: md2_def unlink_pair_def)
  have "set (all_pairs md3) \<subseteq> set (all_pairs md1)"
    using un(2) 1(7) by (auto simp: all_pairs_def)
  then have sub: "set (map ind (all_pairs md3)) \<subseteq> set (map ind (all_pairs md1))"
    "set (map val (all_pairs md3)) \<subseteq> set (map val (all_pairs md1))"
    by auto
  have cov: "covers (ind_types md3) (map ind (all_pairs md3)) \<and> covers (val_types md3) (map val (all_pairs md3))"
  proof (cases "md_size md2 = 0")
    case True
    then show ?thesis
      using sz2 by (simp add: covers_def)
  next
    case False
    then have "ind_types md3 = ind_types md1" "val_types md3 = val_types md1"
      by (simp_all add: md3_def md2_def unlink_pair_def)
    then show ?thesis
      using 1(4) covers_subset [OF _ sub(1)] covers_subset [OF _ sub(2)] unfolding md_ok_def by simp
  qed
  have "hash md3 = [] \<or> power_size (hashsize md3)" "num_keypairs md3 = avg_link_length * hashsize md3"
    using 1(4) f3(3,8) unfolding md_ok_def by (metis length_0_conv)+
  moreover have "md_size md3 = length (all_pairs md3)" "md_size md3 + free_list md3 = avg_link_length * hashsize md3"
    using s1 f3(1,2,8) by simp_all
  ultimately have ok3: "md_ok w md3"
    using un(1) cov unfolding md_ok_def by blast
  define H3 where "H3 = put_md d1 md3 H1"
  have h3ok: "heap_ok w H3" "has_md H3 m d1 md3" "\<forall>m'. m' \<noteq> m \<longrightarrow> contents H3 m' = contents H1 m'"
    using heap_ok_put [OF 1(2,3,5) ok3 1(6) f3(4-6)] by (simp_all add: H3_def)
  have sz: "md_size md3 + 1 = md_size md"
    using ok(1) un(4) s1(1) f3(1) by (simp add: md_ok_def)
  define shrink where "shrink \<longleftrightarrow> md_flags md3 AND mapping_flag_no_shrink = 0 \<and>
    md_size md3 * 2 < hashsize md3 \<and> hashsize md3 > avg_link_length"
  have rv: "remove_value w multi H m (h, j) = (if shrink then rehash w multi H3 m (hashsize md3 div 2) else Inr H3)"
    unfolding remove_value_def has_md_simps(3) [OF assms(2)] 1(1) bind_result_simps has_md_simps(3) [OF 1(3)] Let_def
      md2_def [symmetric] md3_def [symmetric] H3_def [symmetric] shrink_def ..
  show ?thesis
  proof (cases shrink)
    case False
    then show ?thesis
      using rv h3ok un(2,3) f3(7) 1(8,9) sz ne h3 unfolding k_def by auto
  next
    case True
    define n where "n = hashsize md3 div 2"
    have "power_size (hashsize md3)"
      using ok3 ne h3 by (auto simp: md_ok_def)
    then obtain e where e: "hashsize md3 = 2 ^ e" "e \<le> 28"
      by (auto simp: power_size_def)
    have "2 < e"
      using True e by (cases "e \<le> 2") (auto simp: shrink_def avg_link_length_def le_Suc_eq numeral_2_eq_2)
    then have "n = 2 ^ (e - 1)"
      unfolding n_def e(1) by (cases e) simp_all
    then have "power_size n"
      using e(2) by (auto simp: power_size_def intro!: exI [of _ "e - 1"])
    then have n: "0 < n" "n \<le> 2 ^ 28" "round_hashsize n = n"
      using power_size_bounds round_power by auto
    have "md_size md3 * 2 < hashsize md3"
      using True by (simp add: shrink_def)
    then have "md_size md3 \<le> avg_link_length * round_hashsize n"
      unfolding n(3) unfolding n_def avg_link_length_def by linarith
    moreover have "md_flags md3 AND mapping_weak = 0"
      using assms(3) 1(8) f3(7) by simp
    ultimately obtain H' d' md' where "rehash w multi H3 m n = Inr H'" "heap_ok w H'" "has_md H' m d' md'"
      "set (all_pairs md') = set (all_pairs md3)" "md_flags md' = md_flags md3" "md_size md' = md_size md3"
      "\<forall>m'. m' \<noteq> m \<longrightarrow> contents H' m' = contents H3 m'" "hashsize md' = n"
      using rehash_ok [OF h3ok(1,2) _ n(1,2), of multi] n(3) by auto
    moreover have "hash md' \<noteq> []"
      using \<open>hashsize md' = n\<close> n(1) by auto
    ultimately show ?thesis
      using True rv h3ok(3) un(2,3) f3(7) 1(8,9) sz unfolding k_def n_def by auto
  qed
qed

lemma map_delete_ok:
  assumes "heap_ok w H" "has_md H m d md" "md_flags md AND mapping_weak = 0" "plain_value w key"
  shows "\<exists>H' d' md'. map_delete_no_free w multi H m key =
      Inr (H', case map_get w H m key of None \<Rightarrow> VInt 0 1 | Some v \<Rightarrow> v) \<and>
    heap_ok w H' \<and> has_md H' m d' md' \<and> md_flags md' = md_flags md \<and> md_size md' \<le> md_size md \<and> (hash md \<noteq> [] \<longrightarrow> hash md' \<noteq> []) \<and>
    (\<forall>q. plain_value w q \<longrightarrow> map_get w H' m q = (if is_eq w key q then None else map_get w H m q)) \<and>
    (\<forall>m'. m' \<noteq> m \<longrightarrow> contents H' m' = contents H m')"
proof -
  have ok: "md_ok w md"
    using heap_okD(1) [OF assms(1), of d md] assms(2) by simp
  show ?thesis
  proof (cases "low_find w md key")
    case None
    have none: "\<forall>k \<in> set (all_pairs md). \<not> is_eq w (ind k) key"
      using low_find_none [OF ok None assms(4)] by blast
    then have g: "md_lookup w md key = None"
      using lookup_iff [OF ok assms(4)] by (metis not_Some_eq)
    have "md_lookup w md q = None" if "plain_value w q" "is_eq w key q" for q
      using lookup_iff [OF ok that(1)] none that assms(4) pairs_ok(2) [OF ok] plain_trans [of w _ q key]
        plain_sym [of w key q] by (metis not_Some_eq)
    moreover have "map_delete_no_free w multi H m key = Inr (H, VInt 0 1)"
      unfolding map_delete_no_free_def has_md_simps(3) [OF assms(2)] by (simp add: None)
    ultimately show ?thesis
      using assms(1,2) g unfolding has_md_simps(5) [OF assms(2)]
      by (intro exI [of _ H] exI [of _ d] exI [of _ md]) (simp add: has_md_simps(5) [OF assms(2)])
  next
    case (Some p)
    obtain h j where p: "p = (h, j)"
      by (cases p)
    define k where "k = hash md ! h ! j"
    note fs = low_find_some [OF ok Some [unfolded p]]
    have g: "md_lookup w md key = Some (val k)"
      using lookup_iff [OF ok assms(4)] fs(3,5) unfolding k_def by blast
    obtain H' d' md' where 1: "remove_value w multi H m (h, j) = Inr H'" "heap_ok w H'" "has_md H' m d' md'"
      "set (all_pairs md) = insert k (set (all_pairs md'))" "\<forall>k' \<in> set (all_pairs md'). \<not> is_eq w (ind k') (ind k)"
      "md_flags md' = md_flags md" "md_size md' + 1 = md_size md" "hash md' \<noteq> []" "\<forall>m'. m' \<noteq> m \<longrightarrow> contents H' m' = contents H m'"
      using remove_value_ok [OF assms(1-3) Some [unfolded p], of multi] unfolding k_def by blast
    have ok': "md_ok w md'"
      using heap_okD(1) [OF 1(2), of d' md'] 1(3) by simp
    have "map_get w H' m q = (if is_eq w key q then None else map_get w H m q)" if "plain_value w q" for q
      unfolding has_md_simps(5) [OF assms(2)] has_md_simps(5) [OF 1(3)]
      using lookup_delete [OF ok ok' that assms(4) 1(4) _ 1(5)] fs(3) by (simp add: k_def)
    moreover have "map_delete_no_free w multi H m key = Inr (H', val k)"
      unfolding map_delete_no_free_def has_md_simps(3) [OF assms(2)]
      by (simp add: Some p 1(1) keypair_at_def k_def)
    ultimately show ?thesis
      using 1 g unfolding has_md_simps(5) [OF assms(2)]
      by (intro exI [of _ H'] exI [of _ d'] exI [of _ md']) simp
  qed
qed

lemma map_get_set_ok:
  assumes "heap_ok w H" "has_md H m d md" "md_flags md AND mapping_weak = 0" "md_size md < 2 ^ 30"
    "plain_value w key"
  shows "\<exists>H' d' md'. map_atomic_get_set w multi H m key v =
      Inr (H', case map_get w H m key of None \<Rightarrow> VInt 0 1 | Some v \<Rightarrow> v) \<and>
    heap_ok w H' \<and> has_md H' m d' md' \<and> md_flags md' = md_flags md \<and> md_size md' \<le> md_size md + 1 \<and>
    (\<forall>q. plain_value w q \<longrightarrow> map_get w H' m q =
      (if is_eq w key q then (if is_undefined v then None else Some v) else map_get w H m q)) \<and>
    (\<forall>m'. m' \<noteq> m \<longrightarrow> contents H' m' = contents H m')"
proof -
  have ok: "md_ok w md"
    using heap_okD(1) [OF assms(1), of d md] assms(2) by simp
  consider "is_undefined v" | "\<not> is_undefined v" "low_find w md key = None"
    | p where "\<not> is_undefined v" "low_find w md key = Some p"
    by fastforce
  then show ?thesis
  proof cases
    case 1
    then show ?thesis
      using map_delete_ok [OF assms(1-3,5), of multi] by (auto simp: map_atomic_get_set_def)
  next
    case 2
    then have "md_lookup w md key = None"
      using lookup_iff [OF ok assms(5)] low_find_none [OF ok _ assms(5)] by (metis not_Some_eq)
    moreover have "map_atomic_get_set w multi H m key v =
        bind_result (insert_new w multi H m key v) (\<lambda>H. Inr (H, VInt 0 1))"
      unfolding map_atomic_get_set_def has_md_simps(3) [OF assms(2)] using 2 by simp
    ultimately show ?thesis
      using insert_new_get [OF assms 2(2), of multi v] 2(1) has_md_simps(5) [OF assms(2)] by auto
  next
    case (3 p)
    obtain h j where p: "p = (h, j)"
      by (cases p)
    have "md_lookup w md key = Some (val (keypair_at md p))"
      using lookup_iff [OF ok assms(5)] low_find_some(3,5) [OF ok 3(2) [unfolded p]]
      unfolding p keypair_at_def by auto
    moreover have "map_atomic_get_set w multi H m key v =
        bind_result (set_value H m p (\<lambda>k. k\<lparr>val := v\<rparr>) v) (\<lambda>H. Inr (H, val (keypair_at md p)))"
      unfolding map_atomic_get_set_def has_md_simps(3) [OF assms(2)] using 3 by simp
    ultimately show ?thesis
      using set_value_get [OF assms(1,2) 3(2) assms(5), of "\<lambda>k. k\<lparr>val := v\<rparr>" v] 3(1)
        has_md_simps(5) [OF assms(2)] by auto
  qed
qed

lemma low_mapping_lookup_ok:
  assumes "heap_ok w H" "has_md H m d md" "plain_value w key"
  shows "low_mapping_lookup w H m key = Inr (map_get w H m key)"
proof -
  have ok: "md_ok w md"
    using heap_okD(1) [OF assms(1), of d md] assms(2) by simp
  have "map_option (\<lambda>p. val (keypair_at md p)) (low_find w md key) = md_lookup w md key"
  proof (cases "low_find w md key")
    case None
    then have "md_lookup w md key = None"
      using lookup_iff [OF ok assms(3)] low_find_none [OF ok _ assms(3)] by (metis not_Some_eq)
    then show ?thesis
      using None by simp
  next
    case (Some p)
    obtain h j where p: "p = (h, j)"
      by (cases p)
    have "md_lookup w md key = Some (val (keypair_at md p))"
      using lookup_iff [OF ok assms(3)] low_find_some(3,5) [OF ok Some [unfolded p]]
      unfolding p keypair_at_def by auto
    then show ?thesis
      using Some by simp
  qed
  then show ?thesis
    unfolding low_mapping_lookup_def has_md_simps(3) [OF assms(2)] has_md_simps(5) [OF assms(2)] by simp
qed

section \<open>Sharing, freeing and clearing\<close>

text \<open>A mapping gives up its table.\<close>

definition leave :: "addr \<Rightarrow> nat \<Rightarrow> mapping_data \<Rightarrow> mheap \<Rightarrow> mheap" where
  "leave m d md H =
     H\<lparr>mds := (mds H)(d := (if 1 < md_refs md then Some (dropped md) else None)),
       maps := (maps H)(m := None)\<rparr>"

lemma heap_ok_leave:
  assumes "heap_ok w H" "has_md H m d md"
  shows "heap_ok w (leave m d md H)" "contents (leave m d md H) m = None"
    "m' \<noteq> m \<Longrightarrow> contents (leave m d md H) m' = contents H m'"
proof -
  define H' where "H' = leave m d md H"
  note o = owners_live [OF assms(1,2)]
  have ow: "owners H' d = owners H d - {m}" "e \<noteq> d \<Longrightarrow> owners H' e = owners H e" for e
    using assms(2) by (auto simp: owners_def H'_def leave_def)
  have md: "mds H' e = (if e = d then (if 1 < md_refs md then Some (dropped md) else None) else mds H e)" for e
    by (simp add: H'_def leave_def)
  have c: "counts_ok H d md"
    using heap_okD(2) [OF assms(1), of d md] assms(2) by simp
  have single: "owners H d = {m}" "4 \<le> d" if "\<not> 1 < md_refs md"
    using private_owner [OF assms(1,2)] c that o(2) static_refs [OF assms(1,2)]
    by (auto simp: counts_ok_def split: if_splits)
  have live: "mds H' e \<noteq> None" if "maps H' x = Some e" for x e
  proof -
    have "maps H x = Some e" "x \<noteq> m"
      using that by (auto simp: H'_def leave_def split: if_splits)
    then show ?thesis
      using assms(1) single by (auto simp: md heap_ok_def owners_def)
  qed
  have counts: "md_ok w me \<and> counts_ok H' e me" if "mds H' e = Some me" for e me
  proof (cases "e = d")
    case True
    then have "1 < md_refs md" "me = dropped md"
      using that md by (auto split: if_splits)
    then show ?thesis
      using True counts_drop [OF c o(1) _ _ ow(1)] heap_okD [OF assms(1), of d md] assms(2)
      by (simp add: H'_def leave_def)
  next
    case False
    then show ?thesis
      using that md heap_okD(1,2) [OF assms(1), of e me] ow(2) counts_cong [of H e me H']
      by (simp add: H'_def leave_def)
  qed
  have "mds H' e \<noteq> None" if "e < 4" for e
    using that md single assms(1) by (auto simp: heap_ok_def)
  moreover have "finite (dom (maps H'))" "next_md H' = next_md H"
    using assms(1) by (simp_all add: H'_def leave_def heap_ok_def)
  ultimately show "heap_ok w (leave m d md H)"
    using live counts assms(1) unfolding heap_ok_def H'_def [symmetric] by simp
  show "contents (leave m d md H) m = None"
    by (simp add: contents_def leave_def)
  assume m': "m' \<noteq> m"
  have "map_option seen (mds H' e) = map_option seen (mds H e)" if "maps H m' = Some e" for e
    using that single m' md [of e] assms(2) by (auto simp: owners_def)
  moreover have "maps H' m' = maps H m'"
    using m' by (simp add: H'_def leave_def)
  ultimately show "contents (leave m d md H) m' = contents H m'"
    unfolding H'_def [symmetric] by (simp add: contents_def split: option.splits)
qed

text \<open>A mapping that had no table gets one more link to a table.\<close>

definition join_link :: "addr \<Rightarrow> nat \<Rightarrow> mapping_data \<Rightarrow> nat \<Rightarrow> mheap \<Rightarrow> mheap" where
  "join_link m d md k H =
     set_data m d (put_md d
       (md\<lparr>md_refs := md_refs md + 1, valrefs := valrefs md + k, hardlinks := hardlinks md + k\<rparr>) H)"

lemma heap_ok_join:
  assumes "heap_ok w H" "maps H m = None" "mds H d = Some md" "d < 4 \<and> k = 0 \<or> k = 1 \<and> 0 < card (owners H d)"
  defines "md' \<equiv> md\<lparr>md_refs := md_refs md + 1, valrefs := valrefs md + k, hardlinks := hardlinks md + k\<rparr>"
  shows "heap_ok w (join_link m d md k H)" "has_md (join_link m d md k H) m d md'"
    "m' \<noteq> m \<Longrightarrow> contents (join_link m d md k H) m' = contents H m'" "all_pairs md' = all_pairs md" "seen md' = seen md"
proof -
  define H' where "H' = join_link m d md k H"
  have ow: "owners H' d = insert m (owners H d)" "e \<noteq> d \<Longrightarrow> owners H' e = owners H e" for e
    using assms(2) by (auto simp: owners_def H'_def join_link_def set_data_def put_md_def)
  have md: "mds H' e = (if e = d then Some md' else mds H e)" for e
    by (simp add: H'_def join_link_def set_data_def put_md_def md'_def)
  have c: "counts_ok H d md" "md_ok w md" "finite (owners H d)"
    using heap_okD [OF assms(1,3)] by auto
  have nx: "next_md H' = next_md H"
    by (simp add: H'_def join_link_def set_data_def put_md_def)
  have "m \<notin> owners H d"
    using assms(2) by (simp add: owners_def)
  then have "card (owners H' d) = card (owners H d) + 1"
    using ow(1) c(3) by simp
  then have cd: "counts_ok H' d md'"
    using c(1) assms(4) nx by (auto simp: counts_ok_def md'_def split: if_splits)
  show ap: "all_pairs md' = all_pairs md"
    by (simp add: md'_def all_pairs_def)
  show sn: "seen md' = seen md"
    unfolding seen_def ap by (simp add: md'_def)
  have okd: "md_ok w md'"
    using c(2) by (simp add: md_ok_def md'_def all_pairs_def)
  have counts: "md_ok w me \<and> counts_ok H' e me" if "mds H' e = Some me" for e me
    using that md cd okd heap_okD(1,2) [OF assms(1), of e me] ow(2) [of e] counts_cong [of H e me H'] nx
    by (cases "e = d") auto
  have "mds H' e \<noteq> None" if "maps H' x = Some e" for x e
    using that assms(1) by (auto simp: md heap_ok_def H'_def join_link_def set_data_def put_md_def split: if_splits)
  moreover have "finite (dom (maps H'))"
    using assms(1) by (simp add: H'_def join_link_def set_data_def put_md_def heap_ok_def)
  ultimately show "heap_ok w (join_link m d md k H)"
    using counts assms(1) unfolding heap_ok_def H'_def [symmetric] by (simp add: nx md)
  show "has_md (join_link m d md k H) m d md'"
    unfolding H'_def [symmetric] by (simp add: md) (simp add: H'_def join_link_def set_data_def)
  assume "m' \<noteq> m"
  then have "maps H' m' = maps H m'"
    by (simp add: H'_def join_link_def set_data_def put_md_def)
  then show "contents (join_link m d md k H) m' = contents H m'"
    unfolding H'_def [symmetric] using md sn assms(3) by (auto simp: contents_def split: option.splits)
qed

lemma copy_mapping_ok:
  assumes "heap_ok w H" "has_md H m d md" "maps H n = None"
  shows "\<exists>H' md'. copy_mapping H m n = Inr H' \<and> heap_ok w H' \<and> has_md H' n d md' \<and>
    md_flags md' = md_flags md \<and> md_size md' = md_size md \<and> contents H' n = contents H m \<and>
    (\<forall>m'. m' \<noteq> n \<longrightarrow> contents H' m' = contents H m')"
proof -
  have "copy_mapping H m n = Inr (join_link n d md 1 H)"
    unfolding copy_mapping_def has_md_simps(3) [OF assms(2)] by (simp add: join_link_def)
  moreover note j = heap_ok_join [OF assms(1,3), of d md 1]
  ultimately show ?thesis
    using assms(2) owners_live(2) [OF assms(1,2)] has_md_simps(4) [OF assms(2)] has_md_simps(4) [OF j(2)]
    by (intro exI [of _ "join_link n d md 1 H"] exI) auto
qed

lemma really_free_ok:
  assumes "heap_ok w H" "has_md H m d md"
  shows "really_free_mapping H m = Inr (leave m d md H)"
    "unlink_mapping_data H d = Inr (H\<lparr>mds := (mds H)(d := (if 1 < md_refs md then Some (dropped md) else None))\<rparr>)"
proof -
  have "0 < md_refs md"
    using heap_okD(2) [OF assms(1), of d md] assms(2) static_refs [OF assms(1,2)]
    by (auto simp: counts_ok_def split: if_splits)
  then show "unlink_mapping_data H d =
      Inr (H\<lparr>mds := (mds H)(d := (if 1 < md_refs md then Some (dropped md) else None))\<rparr>)"
    using has_md_simps(2) [OF assms(2)] drop_link_ok [OF assms]
    by (auto simp: unlink_mapping_data_def free_md_def put_md_def)
  then show "really_free_mapping H m = Inr (leave m d md H)"
    using has_md_simps(1) [OF assms(2)] by (simp add: really_free_mapping_def leave_def)
qed

lemma static_ok_md:
  assumes "heap_ok w H" "e < 4"
  obtains md where "mds H e = Some md" "all_pairs md = []" "md_size md = 0" "md_flags md AND mapping_weak = word_of_nat (2 * e)"
proof -
  obtain md where md: "mds H e = Some md"
    using assms by (auto simp: heap_ok_def)
  then have "hash md = []" "md_flags md AND mapping_weak = word_of_nat (2 * e)" "md_ok w md"
    using heap_okD(1,2) [OF assms(1) md] assms(2) by (auto simp: counts_ok_def)
  then show ?thesis
    using md that by (simp add: all_pairs_def md_ok_def)
qed

lemma static_md_less: "static_md flags < 4"
  by (simp add: static_md_def Let_def)

lemma clear_mapping_ok:
  assumes "heap_ok w H" "has_md H m d md"
  shows "\<exists>H' d' md'. clear_mapping H m = Inr H' \<and> heap_ok w H' \<and> has_md H' m d' md' \<and> all_pairs md' = [] \<and>
    md_size md' = 0 \<and> (md_flags md AND mapping_weak = 0 \<longrightarrow> md_flags md' AND mapping_weak = 0) \<and>
    (\<forall>m'. m' \<noteq> m \<longrightarrow> contents H' m' = contents H m')"
proof (cases "md_size md = 0")
  case True
  then have "clear_mapping H m = Inr H"
    unfolding clear_mapping_def has_md_simps(3) [OF assms(2)] by simp
  moreover have "all_pairs md = []"
    using True heap_okD(1) [OF assms(1), of d md] assms(2) by (simp add: md_ok_def)
  ultimately show ?thesis
    using True assms by auto
next
  case False
  define e where "e = static_md (md_flags md)"
  define H1 where "H1 = leave m d md H"
  note l = heap_ok_leave [OF assms, folded H1_def]
  have "maps H1 m = None"
    by (simp add: H1_def leave_def)
  moreover obtain smd where smd: "mds H1 e = Some smd" "all_pairs smd = []" "md_size smd = 0"
    "md_flags smd AND mapping_weak = word_of_nat (2 * e)"
    using static_ok_md [OF l(1)] static_md_less e_def by metis
  ultimately have j: "heap_ok w (join_link m e smd 0 H1)"
    "has_md (join_link m e smd 0 H1) m e (smd\<lparr>md_refs := md_refs smd + 1, valrefs := valrefs smd + 0,
      hardlinks := hardlinks smd + 0\<rparr>)"
    "\<And>m'. m' \<noteq> m \<Longrightarrow> contents (join_link m e smd 0 H1) m' = contents H1 m'"
    using heap_ok_join [OF l(1), of m e smd 0] static_md_less by (simp_all add: e_def)
  have "mds (H\<lparr>mds := (mds H)(d := (if 1 < md_refs md then Some (dropped md) else None))\<rparr>) e = Some smd"
    using smd(1) by (simp add: H1_def leave_def)
  then have "clear_mapping H m = Inr (join_link m e smd 0 H1)"
    unfolding clear_mapping_def has_md_simps(3) [OF assms(2)] really_free_ok(2) [OF assms] e_def [symmetric] Let_def
    using False by (simp add: get_md_def join_link_def H1_def leave_def set_data_def put_md_def)
  moreover have "md_flags md AND mapping_weak = 0 \<Longrightarrow> e = 0"
    by (simp add: e_def static_md_def)
  ultimately show ?thesis
    using j l(3) smd
    by (intro exI [of _ "join_link m e smd 0 H1"] exI [of _ e] exI) (auto simp: all_pairs_def)
qed

lemma allocate_mapping_ok:
  assumes "heap_ok w H" "maps H m = None" "n \<le> 2 ^ 28"
  shows "\<exists>H' d md. init_mapping H m n 0 = Inr H' \<and> heap_ok w H' \<and> has_md H' m d md \<and> all_pairs md = [] \<and>
    md_size md = 0 \<and> md_flags md AND mapping_weak = 0 \<and> (\<forall>m'. m' \<noteq> m \<longrightarrow> contents H' m' = contents H m')"
proof (cases "n = 0")
  case True
  obtain smd where smd: "mds H 0 = Some smd" "all_pairs smd = []" "md_size smd = 0" "md_flags smd AND mapping_weak = 0"
    using static_ok_md [OF assms(1), of 0] by auto
  have "init_mapping H m n 0 = Inr (join_link m 0 smd 0 H)"
    using True smd(1) by (simp add: init_mapping_def static_md_def get_md_def join_link_def)
  then show ?thesis
    using heap_ok_join [OF assms(1,2) smd(1), of 0] smd
    by (intro exI [of _ "join_link m 0 smd 0 H"] exI [of _ 0] exI) (auto simp: all_pairs_def)
next
  case False
  define nmd where "nmd = new_table (round_hashsize n) 0"
  define H' where "H' = set_data m (next_md H) ((put_md (next_md H) nmd H)\<lparr>next_md := next_md H + 1\<rparr>)"
  have init: "init_data n 0 = Inr nmd" "md_size nmd = 0"
    and i: "md_ok w nmd" "all_pairs nmd = []" "md_refs nmd = 1" "valrefs nmd = 0" "hardlinks nmd = 0" "md_flags nmd = 0"
    using init_data_ok [of n] False assms(3) by (simp_all add: nmd_def)
  have used: "maps H x = Some e \<Longrightarrow> e < next_md H" for x e
    using assms(1) heap_okD(5) [OF assms(1)] unfolding heap_ok_def by blast
  have ow: "owners H' (next_md H) = {m}" "e \<noteq> next_md H \<Longrightarrow> owners H' e = owners H e" for e
    using used assms(2) by (auto simp: owners_def H'_def set_data_def put_md_def)
  have md: "mds H' e = (if e = next_md H then Some nmd else mds H e)" for e
    by (simp add: H'_def set_data_def put_md_def)
  have nx: "next_md H' = next_md H + 1" "4 \<le> next_md H"
    using assms(1) by (simp_all add: H'_def set_data_def put_md_def heap_ok_def)
  have "md_ok w me \<and> counts_ok H' e me" if "mds H' e = Some me" for e me
    using that md i ow nx heap_okD(1,2) [OF assms(1), of e me] counts_cong [of H e me H']
    by (cases "e = next_md H") (auto simp: counts_ok_def)
  moreover have "mds H' e \<noteq> None" if "maps H' x = Some e" for x e
    using that assms(1) by (auto simp: md heap_ok_def H'_def set_data_def put_md_def split: if_splits)
  moreover have "finite (dom (maps H'))"
    using assms(1) by (simp add: H'_def set_data_def put_md_def heap_ok_def)
  ultimately have "heap_ok w H'"
    using assms(1) nx by (auto simp: heap_ok_def md)
  moreover have "has_md H' m (next_md H) nmd"
    using md by (simp add: H'_def set_data_def)
  moreover have "contents H' m' = contents H m'" if "m' \<noteq> m" for m'
    using that used [of m'] md by (auto simp: contents_def H'_def set_data_def put_md_def split: option.splits)
  moreover have "init_mapping H m n 0 = Inr H'"
    using False init(1) by (simp add: init_mapping_def new_md_def H'_def)
  ultimately show ?thesis
    using i init(2) by auto
qed

lemma first_heap_mds:
  "mds first_heap d = (if d < 4 then Some (empty_data (word_of_nat (2 * d))) else None)"
  by (auto simp: first_heap_def less_Suc_eq numeral_eq_Suc mapping_weak_indices_def
      mapping_weak_values_def mapping_weak_def)

lemma first_heap_ok: "heap_ok w first_heap"
proof -
  have c: "counts_ok first_heap d (empty_data (word_of_nat (2 * d)))" if "d < 4" for d
  proof -
    have "owners first_heap d = {}" "next_md first_heap = 4"
      by (simp_all add: owners_def first_heap_def)
    moreover have "(word_of_nat (2 * d) :: 16 word) AND mapping_weak = word_of_nat (2 * d)"
      using that by (auto simp: mapping_weak_def less_Suc_eq numeral_eq_Suc)
    ultimately show ?thesis
      using that by (simp add: counts_ok_def empty_data_def)
  qed
  have "md_ok w (empty_data f)" for f
    by (simp add: md_ok_def empty_data_def chains_ok_def all_pairs_def covers_def)
  then have "\<forall>d md. mds first_heap d = Some md \<longrightarrow> md_ok w md \<and> counts_ok first_heap d md"
    using c by (auto simp: first_heap_mds)
  then show ?thesis
    by (simp add: heap_ok_def first_heap_mds) (simp add: first_heap_def)
qed

end
