(* ===== verification/Mapping_Steps.thy ===== *)
theory Mapping_Steps
  imports Mapping_Heap
begin

text \<open>
  Programs over mappings: sequences of allocations, insertions, deletions, exchanges, copies,
  clearings and frees. They refine the same sequences over finite maps, in which a copy is a copy;
  no step reads a freed table or an empty free list, and the checks that the debug mode makes
  after every operation (\<open>check_mapping\<close>) never fail.
\<close>

section \<open>The checks of the debug mode\<close>

text \<open>The counters are of type \<open>INT32\<close>: one of \<open>2 ^ 31\<close> or more would read as a negative number.\<close>

definition negative :: "nat \<Rightarrow> bool" where
  "negative n \<longleftrightarrow> 2 ^ 31 \<le> n"

definition check_mapping :: "mapping_data \<Rightarrow> bool" where
  "check_mapping md \<longleftrightarrow>
     md_refs md \<noteq> 0 \<and> \<not> negative (valrefs md) \<and> \<not> negative (hardlinks md) \<and>
     \<not> (negative (md_refs md) \<or> md_refs md < valrefs md + 1) \<and> \<not> valrefs md < hardlinks md \<and>
     \<not> negative (hashsize md) \<and> \<not> negative (md_size md) \<and> \<not> negative (num_keypairs md) \<and>
     \<not> md_size md > num_keypairs md \<and> hashsize md AND (hashsize md - 1) = 0 \<and>
     \<not> hashsize md > num_keypairs md \<and>
     \<not> num_keypairs md > (hashsize md + avg_link_length - 1) * avg_link_length \<and>
     \<not> (md_size md > 0 \<and> (ind_types md = 0 \<or> val_types md = 0)) \<and>
     list_all (\<lambda>k. bitof (ind k) AND ind_types md \<noteq> 0 \<and> bitof (val k) AND val_types md \<noteq> 0) (all_pairs md) \<and>
     md_size md = length (all_pairs md)"

lemma check_mapping_ok:
  assumes "heap_ok w H" "has_md H m d md" "md_refs md < 2 ^ 31"
  shows "check_mapping md"
proof -
  have ok: "md_ok w md" "counts_ok H d md"
    using heap_okD [OF assms(1), of d md] assms(2) by auto
  have "0 < card (owners H d)"
    by (rule owners_live(2) [OF assms(1,2)])
  then have refs: "md_refs md \<noteq> 0 \<and> \<not> md_refs md < valrefs md + 1 \<and> \<not> valrefs md < hardlinks md"
    using ok(2) by (auto simp: counts_ok_def split: if_splits)
  have bits: "bitof x AND t \<noteq> 0" if "covers t xs" "x \<in> set xs" for t x xs
    using that bitof_and [of t x] by (simp add: covers_def and.commute)
  then have all: "list_all (\<lambda>k. bitof (ind k) AND ind_types md \<noteq> 0 \<and> bitof (val k) AND val_types md \<noteq> 0) (all_pairs md)"
    using ok(1) unfolding md_ok_def list_all_iff by (metis image_eqI list.set_map)
  then have types: "\<not> (md_size md > 0 \<and> (ind_types md = 0 \<or> val_types md = 0))"
    using ok(1) by (cases "all_pairs md") (auto simp: md_ok_def)
  have size: "md_size md + free_list md = avg_link_length * hashsize md"
    "num_keypairs md = avg_link_length * hashsize md" "md_size md = length (all_pairs md)"
    using ok(1) unfolding md_ok_def by blast+
  have hsize: "hashsize md AND (hashsize md - 1) = 0 \<and> hashsize md \<le> 2 ^ 28"
  proof (cases "hash md = []")
    case False
    then have "power_size (hashsize md)"
      using ok(1) by (simp add: md_ok_def)
    then show ?thesis
      using and_pred_zero [of "hashsize md"] power_size_bounds by (auto simp: power_size_def)
  qed simp
  have signs: "\<not> negative (md_refs md) \<and> \<not> negative (valrefs md) \<and> \<not> negative (hardlinks md) \<and>
      \<not> negative (hashsize md) \<and> \<not> negative (num_keypairs md) \<and> \<not> negative (md_size md)"
  proof -
    have p: "(2 :: nat) ^ 31 = 2147483648" "(2 :: nat) ^ 28 = 268435456"
      by simp_all
    show ?thesis
      using refs assms(3) hsize size(1,2) unfolding negative_def avg_link_length_def p
      by (intro conjI; linarith)
  qed
  show ?thesis
    unfolding check_mapping_def using refs all types size signs hsize by (simp add: avg_link_length_def)
qed

section \<open>Programs\<close>

datatype map_op =
    Allocate addr nat
  | Insert addr svalue svalue
  | Delete addr svalue
  | Get_Set addr svalue svalue
  | Copy addr addr
  | Clear addr
  | Free addr

fun run_op :: "world \<Rightarrow> (svalue \<Rightarrow> bool) \<Rightarrow> map_op \<Rightarrow> mheap \<Rightarrow> mheap result" where
  "run_op w multi (Allocate m n) H = allocate_mapping H m n"
| "run_op w multi (Insert m key v) H = mapping_insert w multi H m key v"
| "run_op w multi (Delete m key) H = bind_result (map_delete_no_free w multi H m key) (\<lambda>(H, v). Inr H)"
| "run_op w multi (Get_Set m key v) H = bind_result (map_atomic_get_set w multi H m key v) (\<lambda>(H, v). Inr H)"
| "run_op w multi (Copy m n) H = copy_mapping H m n"
| "run_op w multi (Clear m) H = clear_mapping H m"
| "run_op w multi (Free m) H = really_free_mapping H m"

fun run_ops :: "world \<Rightarrow> (svalue \<Rightarrow> bool) \<Rightarrow> map_op list \<Rightarrow> mheap \<Rightarrow> mheap result" where
  "run_ops w multi [] H = Inr H"
| "run_ops w multi (op # ops) H = bind_result (run_op w multi op H) (run_ops w multi ops)"

text \<open>The same over finite maps; what a map does on keys whose equality is user code is left open.\<close>

type_synonym fin_maps = "addr \<Rightarrow> (svalue \<Rightarrow> svalue option) option"

definition store :: "world \<Rightarrow> svalue \<Rightarrow> svalue option \<Rightarrow> (svalue \<Rightarrow> svalue option) \<Rightarrow> svalue \<Rightarrow> svalue option" where
  "store w key v f = (\<lambda>q. if is_eq w key q then v else f q)"

fun spec_op :: "world \<Rightarrow> map_op \<Rightarrow> fin_maps \<Rightarrow> fin_maps" where
  "spec_op w (Allocate m n) A = A(m := Some (\<lambda>q. None))"
| "spec_op w (Insert m key v) A = A(m := map_option (store w key (Some v)) (A m))"
| "spec_op w (Delete m key) A = A(m := map_option (store w key None) (A m))"
| "spec_op w (Get_Set m key v) A =
     A(m := map_option (store w key (if is_undefined v then None else Some v)) (A m))"
| "spec_op w (Copy m n) A = A(n := A m)"
| "spec_op w (Clear m) A = A(m := map_option (\<lambda>f q. None) (A m))"
| "spec_op w (Free m) A = A(m := None)"

definition live :: "fin_maps \<Rightarrow> addr \<Rightarrow> bool" where
  "live A m \<longleftrightarrow> A m \<noteq> None"

text \<open>The operations a program may make: on mappings that exist and with keys whose equality is
  decided without user code; the allocator hands out addresses that are not in use.\<close>

fun legal_op :: "world \<Rightarrow> map_op \<Rightarrow> fin_maps \<Rightarrow> bool" where
  "legal_op w (Allocate m n) A \<longleftrightarrow> \<not> live A m \<and> n \<le> 2 ^ 30"
| "legal_op w (Insert m key v) A \<longleftrightarrow> live A m \<and> plain_value w key"
| "legal_op w (Delete m key) A \<longleftrightarrow> live A m \<and> plain_value w key"
| "legal_op w (Get_Set m key v) A \<longleftrightarrow> live A m \<and> plain_value w key"
| "legal_op w (Copy m n) A \<longleftrightarrow> live A m \<and> \<not> live A n"
| "legal_op w (Clear m) A \<longleftrightarrow> live A m"
| "legal_op w (Free m) A \<longleftrightarrow> live A m"

fun legal_ops :: "world \<Rightarrow> map_op list \<Rightarrow> fin_maps \<Rightarrow> bool" where
  "legal_ops w [] A \<longleftrightarrow> True"
| "legal_ops w (op # ops) A \<longleftrightarrow> legal_op w op A \<and> legal_ops w ops (spec_op w op A)"

definition spec_ops :: "world \<Rightarrow> map_op list \<Rightarrow> fin_maps \<Rightarrow> fin_maps" where
  "spec_ops w = fold (spec_op w)"

section \<open>The simulation relation\<close>

text \<open>\<open>k\<close> bounds the sizes of the mappings.\<close>

definition simulates :: "world \<Rightarrow> nat \<Rightarrow> fin_maps \<Rightarrow> mheap \<Rightarrow> bool" where
  "simulates w k A H \<longleftrightarrow>
     heap_ok w H \<and>
     (\<forall>m d md. has_md H m d md \<longrightarrow> md_flags md AND mapping_weak = 0 \<and> md_size md \<le> k) \<and>
     (\<forall>m. A m = None \<longleftrightarrow> contents H m = None) \<and>
     (\<forall>m q f. A m = Some f \<and> plain_value w q \<longrightarrow> map_get w H m q = f q)"

lemma live_has_md:
  assumes "simulates w k A H" "live A m"
  obtains d md where "has_md H m d md" "md_flags md AND mapping_weak = 0" "md_size md \<le> k" "heap_ok w H"
proof -
  have "contents H m \<noteq> None"
    using assms by (simp add: simulates_def live_def)
  then obtain d md where "has_md H m d md"
    by (auto simp: contents_def split: option.splits)
  then show ?thesis
    using that assms(1) by (auto simp: simulates_def)
qed

lemma not_live_maps:
  assumes "simulates w k A H" "\<not> live A m"
  shows "maps H m = None"
proof (cases "maps H m")
  case (Some d)
  then have "mds H d \<noteq> None" "contents H m = None"
    using assms unfolding simulates_def live_def heap_ok_def by blast+
  then show ?thesis
    using Some by (auto simp: contents_def)
qed simp

lemma map_get_cong: "contents H' m = contents H m \<Longrightarrow> map_get w H' m q = map_get w H m q"
  by (simp add: map_get_def)

text \<open>A step that changes one mapping.\<close>

lemma simulates_step:
  assumes "simulates w k A H" "heap_ok w H'" "k \<le> k'"
    "\<forall>m'. m' \<noteq> m \<longrightarrow> contents H' m' = contents H m'"
    "contents H' m = None \<longleftrightarrow> r = None"
    "\<forall>d md. has_md H' m d md \<longrightarrow> md_flags md AND mapping_weak = 0 \<and> md_size md \<le> k'"
    "\<forall>q f. r = Some f \<and> plain_value w q \<longrightarrow> map_get w H' m q = f q"
  shows "simulates w k' (A(m := r)) H'"
proof -
  have other: "md_flags md AND mapping_weak = 0 \<and> md_size md \<le> k'" if "m' \<noteq> m" "has_md H' m' d md" for m' d md
  proof -
    have c: "contents H m' = Some (seen md)"
      using has_md_simps(4) [OF that(2)] assms(4) that(1) by simp
    then obtain d0 md0 where h: "has_md H m' d0 md0"
      by (auto simp: contents_def split: option.splits)
    then have "seen md0 = seen md"
      using c has_md_simps(4) [OF h] by simp
    moreover have "md_size md0 \<le> k" "md_flags md0 AND mapping_weak = 0" "md_ok w md0"
      using assms(1) h unfolding simulates_def heap_ok_def by blast+
    moreover have "md_ok w md"
      using heap_okD(1) [OF assms(2)] that(2) by blast
    ultimately show ?thesis
      using assms(3) by (simp add: seen_def md_ok_def)
  qed
  have "md_flags md AND mapping_weak = 0 \<and> md_size md \<le> k'" if "has_md H' m' d md" for m' d md
    using other [of m' d md] assms(6) that by (cases "m' = m") auto
  moreover have "(A(m := r)) m' = None \<longleftrightarrow> contents H' m' = None" for m'
    using assms(1,4,5) by (cases "m' = m") (auto simp: simulates_def)
  moreover have "map_get w H' m' q = f q" if "(A(m := r)) m' = Some f" "plain_value w q" for m' q f
    using that assms(1,4,7) map_get_cong [of H' m' H w q] by (cases "m' = m") (auto simp: simulates_def)
  ultimately show ?thesis
    using assms(2) unfolding simulates_def by blast
qed

section \<open>Every operation simulates its specification\<close>

text \<open>The conclusions of the lemmas on single operations, as a step of the simulation.\<close>

lemma simulates_has:
  assumes "simulates w k A H" "heap_ok w H'" "k \<le> k'" "has_md H' m d' md'" "md_flags md' AND mapping_weak = 0"
    "md_size md' \<le> k'" "\<forall>q. plain_value w q \<longrightarrow> map_get w H' m q = f q"
    "\<forall>m'. m' \<noteq> m \<longrightarrow> contents H' m' = contents H m'"
  shows "simulates w k' (A(m := Some f)) H'"
  using assms has_md_simps(4) [OF assms(4)] by (intro simulates_step [OF assms(1-3,8)]) auto

lemma run_op_simulates:
  assumes "simulates w k A H" "legal_op w op A" "k < 2 ^ 30"
  shows "\<exists>H'. run_op w multi op H = Inr H' \<and> simulates w (k + 1) (spec_op w op A) H'"
proof (cases op)
  case (Allocate m n)
  have H: "heap_ok w H" "maps H m = None"
    using assms(1,2) not_live_maps [OF assms(1)] Allocate by (simp_all add: simulates_def)
  have "n \<le> 2 ^ 30"
    using assms(2) Allocate by simp
  then have n: "(n + avg_link_length - 1) div avg_link_length \<le> 2 ^ 28" "\<not> int n + int avg_link_length - 1 \<ge> 2 ^ 31"
    unfolding avg_link_length_def by simp_all
  from allocate_mapping_ok [OF H n(1)] obtain H' d md where 1: "allocate_mapping H m n = Inr H'" "heap_ok w H'"
    "has_md H' m d md" "all_pairs md = []" "md_size md = 0" "md_flags md AND mapping_weak = 0"
    "\<forall>m'. m' \<noteq> m \<longrightarrow> contents H' m' = contents H m'"
    unfolding allocate_mapping_def if_not_P [OF n(2)] by blast
  have "map_get w H' m q = None" for q
    unfolding has_md_simps(5) [OF 1(3)] by (simp add: md_lookup_def 1(4))
  then show ?thesis
    using Allocate 1 simulates_has [OF assms(1) 1(2) _ 1(3,6), of "k + 1" "\<lambda>q. None"] by simp
next
  case (Insert m key v)
  then have l: "live A m" "plain_value w key"
    using assms(2) by simp_all
  obtain d md where h: "has_md H m d md" "md_flags md AND mapping_weak = 0" "md_size md \<le> k" "heap_ok w H"
    by (rule live_has_md [OF assms(1) l(1)])
  obtain H' d' md' where 1: "mapping_insert w multi H m key v = Inr H'" "heap_ok w H'" "has_md H' m d' md'"
    "md_flags md' = md_flags md" "md_size md' \<le> md_size md + 1"
    "\<forall>q. plain_value w q \<longrightarrow> map_get w H' m q = (if is_eq w key q then Some v else map_get w H m q)"
    "\<forall>m'. m' \<noteq> m \<longrightarrow> contents H' m' = contents H m'"
    using low_mapping_insert_ok [OF h(4,1,2) _ l(2), of 1 multi v] h(3) assms(3)
    unfolding mapping_insert_def by auto
  obtain f where f: "A m = Some f"
    using l(1) by (auto simp: live_def)
  have "\<forall>q. plain_value w q \<longrightarrow> map_get w H' m q = store w key (Some v) f q"
    using 1(6) f assms(1) by (simp add: store_def simulates_def)
  then show ?thesis
    using simulates_has [OF assms(1) 1(2) _ 1(3), of "k + 1" "store w key (Some v) f"] 1 h(2,3) f Insert by simp
next
  case (Delete m key)
  then have l: "live A m" "plain_value w key"
    using assms(2) by simp_all
  obtain d md where h: "has_md H m d md" "md_flags md AND mapping_weak = 0" "md_size md \<le> k" "heap_ok w H"
    by (rule live_has_md [OF assms(1) l(1)])
  obtain H' d' md' r where 1: "map_delete_no_free w multi H m key = Inr (H', r)" "heap_ok w H'" "has_md H' m d' md'"
    "md_flags md' = md_flags md" "md_size md' \<le> md_size md"
    "\<forall>q. plain_value w q \<longrightarrow> map_get w H' m q = (if is_eq w key q then None else map_get w H m q)"
    "\<forall>m'. m' \<noteq> m \<longrightarrow> contents H' m' = contents H m'"
    using map_delete_ok [OF h(4,1,2) l(2), of multi] by blast
  obtain f where f: "A m = Some f"
    using l(1) by (auto simp: live_def)
  have "\<forall>q. plain_value w q \<longrightarrow> map_get w H' m q = store w key None f q"
    using 1(6) f assms(1) by (simp add: store_def simulates_def)
  then show ?thesis
    using simulates_has [OF assms(1) 1(2) _ 1(3), of "k + 1" "store w key None f"] 1 h(2,3) f Delete by simp
next
  case (Get_Set m key v)
  then have l: "live A m" "plain_value w key"
    using assms(2) by simp_all
  obtain d md where h: "has_md H m d md" "md_flags md AND mapping_weak = 0" "md_size md \<le> k" "heap_ok w H"
    by (rule live_has_md [OF assms(1) l(1)])
  define x where "x = (if is_undefined v then None else Some v)"
  obtain H' d' md' r where 1: "map_atomic_get_set w multi H m key v = Inr (H', r)" "heap_ok w H'" "has_md H' m d' md'"
    "md_flags md' = md_flags md" "md_size md' \<le> md_size md + 1"
    "\<forall>q. plain_value w q \<longrightarrow> map_get w H' m q = (if is_eq w key q then x else map_get w H m q)"
    "\<forall>m'. m' \<noteq> m \<longrightarrow> contents H' m' = contents H m'"
    using map_get_set_ok [OF h(4,1,2) _ l(2), of multi v] h(3) assms(3) unfolding x_def by auto
  obtain f where f: "A m = Some f"
    using l(1) by (auto simp: live_def)
  have "\<forall>q. plain_value w q \<longrightarrow> map_get w H' m q = store w key x f q"
    using 1(6) f assms(1) by (simp add: store_def simulates_def)
  then show ?thesis
    using simulates_has [OF assms(1) 1(2) _ 1(3), of "k + 1" "store w key x f"] 1 h(2,3) f Get_Set
    by (simp add: x_def)
next
  case (Copy m n)
  then have l: "live A m" "maps H n = None"
    using assms(2) not_live_maps [OF assms(1)] by simp_all
  obtain d md where h: "has_md H m d md" "md_flags md AND mapping_weak = 0" "md_size md \<le> k" "heap_ok w H"
    by (rule live_has_md [OF assms(1) l(1)])
  obtain H' md' where 1: "copy_mapping H m n = Inr H'" "heap_ok w H'" "has_md H' n d md'"
    "md_flags md' = md_flags md" "md_size md' = md_size md" "contents H' n = contents H m"
    "\<forall>m'. m' \<noteq> n \<longrightarrow> contents H' m' = contents H m'"
    using copy_mapping_ok [OF h(4,1) l(2)] by blast
  obtain f where f: "A m = Some f"
    using l(1) by (auto simp: live_def)
  have "\<forall>q. plain_value w q \<longrightarrow> map_get w H' n q = f q"
    using 1(6) f assms(1) by (simp add: simulates_def map_get_def)
  then show ?thesis
    using simulates_has [OF assms(1) 1(2) _ 1(3), of "k + 1" f] 1 h(2,3) f Copy by simp
next
  case (Clear m)
  then have l: "live A m"
    using assms(2) by simp
  obtain d md where h: "has_md H m d md" "md_flags md AND mapping_weak = 0" "md_size md \<le> k" "heap_ok w H"
    by (rule live_has_md [OF assms(1) l])
  obtain H' d' md' where 1: "clear_mapping H m = Inr H'" "heap_ok w H'" "has_md H' m d' md'" "all_pairs md' = []"
    "md_size md' = 0" "md_flags md' AND mapping_weak = 0" "\<forall>m'. m' \<noteq> m \<longrightarrow> contents H' m' = contents H m'"
    using clear_mapping_ok [OF h(4,1)] h(2) by blast
  have "map_get w H' m q = None" for q
    unfolding has_md_simps(5) [OF 1(3)] by (simp add: md_lookup_def 1(4))
  moreover obtain f where "A m = Some f"
    using l by (auto simp: live_def)
  ultimately show ?thesis
    using Clear 1 simulates_has [OF assms(1) 1(2) _ 1(3,6), of "k + 1" "\<lambda>q. None"] by simp
next
  case (Free m)
  then have l: "live A m"
    using assms(2) by simp
  obtain d md where h: "has_md H m d md" "md_flags md AND mapping_weak = 0" "md_size md \<le> k" "heap_ok w H"
    by (rule live_has_md [OF assms(1) l])
  note lv = heap_ok_leave [OF h(4,1)]
  have "maps (leave m d md H) m = None"
    by (simp add: leave_def)
  then have "simulates w (k + 1) (A(m := None)) (leave m d md H)"
    using lv by (intro simulates_step [OF assms(1) lv(1)]) auto
  then show ?thesis
    using Free really_free_ok(1) [OF h(4,1)] by simp
qed

lemma run_ops_simulates:
  assumes "simulates w k A H" "legal_ops w ops A" "k + length ops \<le> 2 ^ 30"
  shows "\<exists>H'. run_ops w multi ops H = Inr H' \<and> simulates w (k + length ops) (spec_ops w ops A) H'"
  using assms
proof (induction ops arbitrary: k A H)
  case (Cons op ops)
  then obtain H1 where 1: "run_op w multi op H = Inr H1" "simulates w (k + 1) (spec_op w op A) H1"
    using run_op_simulates [of w k A H op multi] by auto
  then show ?case
    using Cons.IH [OF 1(2)] Cons.prems(2,3) by (simp add: spec_ops_def)
qed (simp add: spec_ops_def)

lemma first_simulates: "simulates w 0 Map.empty first_heap"
proof -
  have "maps first_heap = Map.empty"
    by (simp add: first_heap_def)
  then show ?thesis
    using first_heap_ok by (auto simp: simulates_def contents_def)
qed

section \<open>The references of a table\<close>

text \<open>An operation adds at most one reference to a table.\<close>

definition refs_le :: "nat \<Rightarrow> mheap \<Rightarrow> bool" where
  "refs_le k H \<longleftrightarrow> (\<forall>d md. mds H d = Some md \<longrightarrow> md_refs md \<le> k)"



lemma bind_inr: "bind_result r f = Inr y \<longleftrightarrow> (\<exists>x. r = Inr x \<and> f x = Inr y)"
  by (cases r) simp_all

lemma with_md_inr: "with_md H m f = Inr y \<longleftrightarrow> (\<exists>d md. has_md H m d md \<and> f d md = Inr y)"
  by (auto simp: with_md_def data_of_def get_md_def bind_inr split: option.splits)

lemma get_md_inr: "get_md H d = Inr md \<longleftrightarrow> mds H d = Some md"
  by (simp add: get_md_def split: option.splits)

lemma refs_le_mono: "refs_le k H \<Longrightarrow> k \<le> k' \<Longrightarrow> refs_le k' H"
  unfolding refs_le_def by (meson le_trans)

lemma refs_leD: "refs_le k H \<Longrightarrow> mds H d = Some md \<Longrightarrow> md_refs md \<le> k"
  by (simp add: refs_le_def)

lemma refs_le_updates:
  "refs_le k H \<Longrightarrow> md_refs md \<le> k \<Longrightarrow> refs_le k (put_md d md H)" "refs_le k H \<Longrightarrow> refs_le k (free_md d H)"
  "refs_le k (set_data m d H) = refs_le k H" "refs_le k (H\<lparr>maps := f\<rparr>) = refs_le k H"
  "refs_le k (H\<lparr>next_md := n\<rparr>) = refs_le k H"
  by (auto simp: refs_le_def put_md_def free_md_def set_data_def)

lemma drop_link_refs: "drop_link md = Inr md' \<Longrightarrow> md_refs md' \<le> md_refs md"
  by (auto simp: drop_link_def split: if_splits)

lemma unlink_refs:
  assumes "unlink_mapping_data H d = Inr H'" "refs_le k H"
  shows "refs_le k H'"
proof -
  obtain md md' where 1: "mds H d = Some md" "drop_link md = Inr md'"
    "H' = (if md_refs md' = 0 then free_md d H else put_md d md' H)"
    using assms(1) by (auto simp: unlink_mapping_data_def bind_inr get_md_inr)
  have "md_refs md' \<le> k"
    using drop_link_refs [OF 1(2)] refs_leD [OF assms(2) 1(1)] by linarith
  then show ?thesis
    using 1(3) assms(2) by (simp add: refs_le_updates)
qed

lemma copymap_refs:
  assumes "copymap H m = Inr H'" "refs_le k H" "0 < k"
  shows "refs_le k H'"
proof -
  obtain d md md' where 1: "mds H d = Some md" "drop_link md = Inr md'"
    "H' = set_data m (next_md H) (put_md d md' ((put_md (next_md H)
      (md\<lparr>md_refs := 1, valrefs := 0, hardlinks := 0\<rparr>) H)\<lparr>next_md := next_md H + 1\<rparr>))"
    using assms(1) by (auto simp: copymap_def copy_mapping_data_def new_md_def Let_def bind_inr get_md_inr)
  have "md_refs md' \<le> k"
    using drop_link_refs [OF 1(2)] refs_leD [OF assms(2) 1(1)] by linarith
  then show ?thesis
    using 1(3) assms(2,3) by (simp add: refs_le_updates)
qed

lemma init_mapping_refs:
  assumes "init_mapping H m n flags = Inr H'" "refs_le k H" "0 < k"
  shows "refs_le (k + 1) H'" "n \<noteq> 0 \<Longrightarrow> refs_le k H'"
proof -
  show r: "refs_le k H'" if n: "n \<noteq> 0"
  proof -
    obtain md where "init_data n flags = Inr md"
      "H' = set_data m (next_md H) ((put_md (next_md H) md H)\<lparr>next_md := next_md H + 1\<rparr>)"
      using assms(1) n by (auto simp: init_mapping_def new_md_def bind_inr)
    moreover have "md_refs md = 1"
      using calculation(1) by (auto simp: init_data_def new_table_def Let_def split: if_splits)
    ultimately show ?thesis
      using assms(2,3) by (simp add: refs_le_updates)
  qed
  show "refs_le (k + 1) H'"
  proof (cases "n = 0")
    case True
    then obtain md where 1: "mds H (static_md flags) = Some md"
      "H' = set_data m (static_md flags) (put_md (static_md flags) (md\<lparr>md_refs := md_refs md + 1\<rparr>) H)"
      using assms(1) by (auto simp: init_mapping_def Let_def bind_inr get_md_inr)
    then show ?thesis
      using refs_leD [OF assms(2) 1(1)] refs_le_mono [OF assms(2), of "k + 1"] by (simp add: refs_le_updates)
  qed (use r refs_le_mono [of k H' "k + 1"] in simp)
qed

lemma rehash_chain_refs: "rehash_chain w keep ks md = Inr md' \<Longrightarrow> md_refs md' = md_refs md"
proof (induction ks arbitrary: md')
  case (Cons k ks)
  obtain md1 where "rehash_chain w keep ks md = Inr md1"
    "(if keep (md_flags md1) k then link_pair w (slot32 (hval k) (hashsize md1)) k md1 else Inr md1) = Inr md'"
    using Cons.prems unfolding rehash_chain.simps bind_inr by blast
  moreover have "md_refs md1 = md_refs md"
    by (rule Cons.IH [OF calculation(1)])
  ultimately show ?case
    by (auto simp: link_pair_def split: if_splits)
qed simp

lemma rehash_chains_refs: "rehash_chains w keep cs md = Inr md' \<Longrightarrow> md_refs md' = md_refs md"
proof (induction cs arbitrary: md)
  case (Cons c cs)
  then obtain md1 where "rehash_chain w keep c md = Inr md1" "rehash_chains w keep cs md1 = Inr md'"
    by (auto simp: bind_inr)
  then show ?case
    using Cons.IH rehash_chain_refs by simp
qed simp

lemma rehash_refs:
  assumes "rehash w multi H m n = Inr H'" "refs_le k H" "0 < k"
  shows "refs_le (k + 1) H'"
proof -
  obtain d md where md: "has_md H m d md"
    and r: "(if hashsize md = round_hashsize n \<and> md_refs md = 1 \<and> \<not> md_fullp md then Inr H
       else bind_result (init_mapping H m (round_hashsize n) (md_flags md)) (\<lambda>H.
         bind_result (get_md H d) (\<lambda>md.
         with_md H m (\<lambda>nd nmd.
           if md_refs md > 1 then
             bind_result (rehash_chains w (keep_good multi) (hash md) nmd) (\<lambda>nmd.
               unlink_mapping_data (put_md nd nmd H) d)
           else
             bind_result (rehash_chains w (keep_evil multi) (hash md) nmd) (\<lambda>nmd.
               Inr (free_md d (put_md nd nmd H))))))) = Inr H'"
    using assms(1) unfolding rehash_def with_md_inr by blast
  show ?thesis
  proof (cases "hashsize md = round_hashsize n \<and> md_refs md = 1 \<and> \<not> md_fullp md")
    case True
    then show ?thesis
      using r refs_le_mono [OF assms(2)] by simp
  next
    case False
    then obtain H1 md1 nd nmd nmd' where 1: "init_mapping H m (round_hashsize n) (md_flags md) = Inr H1"
      "mds H1 nd = Some nmd" "md_refs nmd' = md_refs nmd"
      "unlink_mapping_data (put_md nd nmd' H1) d = Inr H' \<or> H' = free_md d (put_md nd nmd' H1)"
      using r by (auto simp: bind_inr with_md_inr split: if_splits dest: rehash_chains_refs)
    have le: "refs_le (k + 1) H1"
      by (rule init_mapping_refs(1) [OF 1(1) assms(2,3)])
    then have "refs_le (k + 1) (put_md nd nmd' H1)"
      using refs_leD [OF le 1(2)] 1(3) by (simp add: refs_le_updates)
    then show ?thesis
      using 1(4) unlink_refs refs_le_updates(2) by blast
  qed
qed

lemma insert_new_refs:
  assumes "insert_new w multi H m key v = Inr H'" "refs_le k H" "0 < k"
  shows "refs_le (k + 1) H'"
proof -
  obtain n c H1 d md md' where 1: "(if c then rehash w multi H m n else Inr H) = Inr H1"
    "mds H1 d = Some md" "link_pair w (slot (hash_svalue w key) (hashsize md))
      \<lparr>hval = hash_svalue w key, ind = key, val = v\<rparr> md = Inr md'" "H' = put_md d md' H1"
    using assms(1) unfolding insert_new_def Let_def with_md_inr bind_inr by blast
  have le: "refs_le (k + 1) H1"
    using 1(1) rehash_refs [OF _ assms(2,3)] refs_le_mono [OF assms(2), of "k + 1"] by (auto split: if_splits)
  moreover have "md_refs md' = md_refs md"
    using 1(3) by (auto simp: link_pair_def split: if_splits)
  ultimately show ?thesis
    using refs_leD [OF le 1(2)] 1(4) by (simp add: refs_le_updates)
qed

lemma copymap_if_refs:
  assumes "(if c then copymap H m else Inr H) = Inr H'" "refs_le k H" "0 < k"
  shows "refs_le k H'"
  using assms copymap_refs by (auto split: if_splits)

lemma set_value_refs:
  assumes "set_value H m p f v = Inr H'" "refs_le k H" "0 < k"
  shows "refs_le (k + 1) H'"
proof -
  obtain c H1 d md where 1: "(if c then copymap H m else Inr H) = Inr H1" "mds H1 d = Some md"
    "H' = put_md d (update_pair p f (md\<lparr>val_types := val_types md OR bitof v\<rparr>)) H1"
    using assms(1) unfolding set_value_def with_md_inr bind_inr by blast
  have le: "refs_le k H1"
    by (rule copymap_if_refs [OF 1(1) assms(2,3)])
  have "md_refs (update_pair p f (md\<lparr>val_types := val_types md OR bitof v\<rparr>)) \<le> k"
    using refs_leD [OF le 1(2)] by (simp add: update_pair_def)
  then show ?thesis
    using le 1(3) refs_le_mono [of k H' "k + 1"] by (simp add: refs_le_updates)
qed

lemma remove_value_refs:
  assumes "remove_value w multi H m p = Inr H'" "refs_le k H" "0 < k"
  shows "refs_le (k + 1) H'"
proof -
  obtain md0 :: mapping_data and H1 d md where h: "(if md_refs md0 > 1 then copymap H m else Inr H) = Inr H1" "has_md H1 m d md"
      "(let md = unlink_pair p md;
             md = (if md_size md = 0 then md\<lparr>ind_types := 0, val_types := 0\<rparr> else md);
             H = put_md d md H1
         in if md_flags md AND mapping_flag_no_shrink = 0 \<and>
              md_size md * 2 < hashsize md \<and> hashsize md > avg_link_length
            then rehash w multi H m (hashsize md div 2) else Inr H) = Inr H'"
    using assms(1) unfolding remove_value_def with_md_inr bind_inr by blast
  define md1 where "md1 = unlink_pair p md"
  define md' where "md' = (if md_size md1 = 0 then md1\<lparr>ind_types := 0, val_types := 0\<rparr> else md1)"
  define s where "s \<longleftrightarrow> md_flags md' AND mapping_flag_no_shrink = 0 \<and>
    md_size md' * 2 < hashsize md' \<and> hashsize md' > avg_link_length"
  define n where "n = hashsize md' div 2"
  have "md_refs md' = md_refs md"
    by (simp add: md'_def md1_def unlink_pair_def)
  moreover have "(if s then rehash w multi (put_md d md' H1) m n else Inr (put_md d md' H1)) = Inr H'"
    using h(3) unfolding Let_def md1_def [symmetric] md'_def [symmetric] s_def [symmetric] n_def [symmetric] .
  moreover have "mds H1 d = Some md"
    using h(2) by blast
  ultimately have 1: "(if md_refs md0 > 1 then copymap H m else Inr H) = Inr H1" "mds H1 d = Some md"
    "md_refs md' = md_refs md"
    "(if s then rehash w multi (put_md d md' H1) m n else Inr (put_md d md' H1)) = Inr H'"
    using h(1) by blast+
  have le: "refs_le k H1"
    by (rule copymap_if_refs [OF 1(1) assms(2,3)])
  then have "refs_le k (put_md d md' H1)"
    using refs_leD [OF le 1(2)] 1(3) by (simp add: refs_le_updates)
  then show ?thesis
    using 1(4) rehash_refs [OF _ _ assms(3)] refs_le_mono [of k _ "k + 1"] by (auto split: if_splits)
qed

lemma run_op_refs:
  assumes "run_op w multi op H = Inr H'" "refs_le k H" "0 < k"
  shows "refs_le (k + 1) H'"
proof -
  have same: "refs_le (k + 1) H"
    using refs_le_mono [OF assms(2)] by simp
  note ops = insert_new_refs [OF _ assms(2,3)] set_value_refs [OF _ assms(2,3)] remove_value_refs [OF _ assms(2,3)]
  show ?thesis
  proof (cases op)
    case (Allocate m n)
    then show ?thesis
      using assms(1) init_mapping_refs(1) [OF _ assms(2,3)] by (auto simp: allocate_mapping_def split: if_splits)
  next
    case (Insert m key v)
    then show ?thesis
      using assms(1) ops by (auto simp: mapping_insert_def low_mapping_insert_def with_md_inr split: option.splits)
  next
    case (Delete m key)
    then show ?thesis
      using assms(1) ops same by (auto simp: map_delete_no_free_def with_md_inr bind_inr split: option.splits)
  next
    case (Get_Set m key v)
    then show ?thesis
      using assms(1) ops same
      by (auto simp: map_atomic_get_set_def map_delete_no_free_def with_md_inr bind_inr split: option.splits if_splits)
  next
    case (Copy m n)
    then obtain d md where 1: "mds H d = Some md" "H' = set_data n d (put_md d
         (md\<lparr>md_refs := md_refs md + 1, valrefs := valrefs md + 1, hardlinks := hardlinks md + 1\<rparr>) H)"
      using assms(1) by (auto simp: copy_mapping_def with_md_inr)
    then show ?thesis
      using refs_leD [OF assms(2) 1(1)] same by (simp add: refs_le_updates)
  next
    case (Clear m)
    then obtain d md where "has_md H m d md"
      and c: "(if md_size md = 0 then Inr H
       else bind_result (unlink_mapping_data H d) (\<lambda>H.
         let e = static_md (md_flags md) in
         bind_result (get_md H e) (\<lambda>md.
           Inr (set_data m e (put_md e (md\<lparr>md_refs := md_refs md + 1\<rparr>) H))))) = Inr H'"
      using assms(1) by (auto simp: clear_mapping_def with_md_inr)
    show ?thesis
    proof (cases "md_size md = 0")
      case False
      then obtain H1 e smd where 1: "unlink_mapping_data H d = Inr H1" "mds H1 e = Some smd"
        "H' = set_data m e (put_md e (smd\<lparr>md_refs := md_refs smd + 1\<rparr>) H1)"
        using c by (auto simp: bind_inr Let_def get_md_inr)
      have le: "refs_le k H1"
        by (rule unlink_refs [OF 1(1) assms(2)])
      then show ?thesis
        using refs_leD [OF le 1(2)] refs_le_mono [OF le, of "k + 1"] 1(3) by (simp add: refs_le_updates)
    qed (use c same in simp)
  next
    case (Free m)
    then obtain d H1 where "unlink_mapping_data H d = Inr H1" "H' = H1\<lparr>maps := (maps H1)(m := None)\<rparr>"
      using assms(1) by (auto simp: really_free_mapping_def bind_inr)
    then show ?thesis
      using unlink_refs [OF _ same] by (simp add: refs_le_updates)
  qed
qed

section \<open>Reachable heaps\<close>

inductive reachable :: "world \<Rightarrow> (svalue \<Rightarrow> bool) \<Rightarrow> nat \<Rightarrow> fin_maps \<Rightarrow> mheap \<Rightarrow> bool"
  for w multi where
  start: "reachable w multi 0 Map.empty first_heap"
| step: "reachable w multi k A H \<Longrightarrow> legal_op w op A \<Longrightarrow> run_op w multi op H = Inr H' \<Longrightarrow> k < 2 ^ 30 \<Longrightarrow>
    reachable w multi (k + 1) (spec_op w op A) H'"

lemma reachable_simulates: "reachable w multi k A H \<Longrightarrow> simulates w k A H"
proof (induction rule: reachable.induct)
  case start
  then show ?case
    by (rule first_simulates)
next
  case (step k A H op H')
  then show ?case
    using run_op_simulates [of w k A H op multi] by auto
qed

text \<open>A table has at most one reference for each operation made, and its own.\<close>

lemma reachable_refs: "reachable w multi k A H \<Longrightarrow> k \<le> 2 ^ 30 \<and> refs_le (k + 1) H"
proof (induction rule: reachable.induct)
  case start
  then show ?case
    by (auto simp: refs_le_def first_heap_mds empty_data_def split: if_splits)
next
  case (step k A H op H')
  then show ?case
    using run_op_refs [of w multi op H H' "k + 1"] by auto
qed

section \<open>Properties\<close>

text \<open>C1: Programs of at most \<open>2 ^ 30\<close> operations that allocate (with room for at most \<open>2 ^ 30\<close> entries),
  fill, copy, clear and free mappings behave as over finite maps: every operation succeeds, no freed
  table and no empty free list is used, no \<open>INT32\<close> size overflows, and at the end each mapping
  holds what the finite map holds. In particular a change of a mapping is not seen in its copies,
  although they share their table until then.\<close>

theorem mappings_refine_finite_maps:
  assumes "legal_ops w ops Map.empty" "length ops \<le> 2 ^ 30" "spec_ops w ops Map.empty m = Some f" "plain_value w q"
  shows "\<exists>H. run_ops w multi ops first_heap = Inr H \<and> low_mapping_lookup w H m q = Inr (f q)"
proof -
  obtain H where H: "run_ops w multi ops first_heap = Inr H" "simulates w (0 + length ops) (spec_ops w ops Map.empty) H"
    using run_ops_simulates [OF first_simulates assms(1), of multi] assms(2) by auto
  have "live (spec_ops w ops Map.empty) m"
    using assms(3) by (simp add: live_def)
  then obtain d md where "has_md H m d md" "heap_ok w H"
    by (rule live_has_md [OF H(2)])
  then have "low_mapping_lookup w H m q = Inr (map_get w H m q)"
    using low_mapping_lookup_ok [OF _ _ assms(4)] by blast
  then show ?thesis
    using H assms(3,4) by (simp add: simulates_def)
qed

definition copy_program :: "map_op list" where
  "copy_program = [Allocate 100 0, Insert 100 (VInt 1 0) (VString 7), Copy 100 200,
     Insert 200 (VInt 1 0) (VString 8), Delete 100 (VInt 5 0)]"

theorem mappings_refine_finite_maps_witness:
  "\<exists>H. run_ops small_world (\<lambda>s. False) copy_program first_heap = Inr H \<and>
    low_mapping_lookup small_world H 100 (VInt 1 0) = Inr (Some (VString 7))"
proof -
  have p: "plain_value small_world (VInt i 0)" for i
    by (simp add: plain_value_def)
  have e: "is_eq small_world (VInt i 0) (VInt j 0) = (i = j)" for i j
    by (simp add: is_eq_plain [OF p p])
  have "legal_ops small_world copy_program Map.empty"
    by (simp add: copy_program_def live_def p)
  moreover have "length copy_program \<le> 2 ^ 30"
    by (simp add: copy_program_def)
  moreover have "spec_ops small_world copy_program Map.empty 100 = Some (store small_world (VInt 5 0) None
      (store small_world (VInt 1 0) (Some (VString 7)) (\<lambda>q. None)))"
    by (simp add: copy_program_def spec_ops_def)
  ultimately obtain H where "run_ops small_world (\<lambda>s. False) copy_program first_heap = Inr H"
    "low_mapping_lookup small_world H 100 (VInt 1 0) = Inr (store small_world (VInt 5 0) None
      (store small_world (VInt 1 0) (Some (VString 7)) (\<lambda>q. None)) (VInt 1 0))"
    using mappings_refine_finite_maps [OF _ _ _ p] by blast
  then show ?thesis
    by (simp add: store_def e)
qed

text \<open>C3: In every reachable state the table of every mapping passes the consistency checks of the
  debug mode: the counters of references, locks and hard links and their signs, the sizes, the power
  of two and the type fields. Reachable are the states after at most \<open>2 ^ 30\<close> operations.\<close>

theorem check_mapping_never_fails:
  assumes "reachable w multi k A H" "maps H m = Some d"
  shows "\<exists>md. mds H d = Some md \<and> check_mapping md"
proof -
  have h: "heap_ok w H"
    using reachable_simulates [OF assms(1)] by (simp add: simulates_def)
  then obtain md where md: "mds H d = Some md"
    using assms(2) unfolding heap_ok_def by blast
  have "md_refs md \<le> k + 1" "k \<le> 2 ^ 30"
    using reachable_refs [OF assms(1)] refs_leD [OF _ md] by blast+
  then have "check_mapping md"
    using check_mapping_ok [OF h, of m d md] assms(2) md by simp
  then show ?thesis
    using md by blast
qed

theorem check_mapping_never_fails_witness:
  "\<exists>H d md. run_op small_world (\<lambda>s. False) (Allocate 100 5) first_heap = Inr H \<and> maps H 100 = Some d \<and>
    mds H d = Some md \<and> check_mapping md"
proof -
  have "legal_op small_world (Allocate 100 5) Map.empty"
    by (simp add: live_def)
  moreover obtain H where H: "run_op small_world (\<lambda>s. False) (Allocate 100 5) first_heap = Inr H"
    "simulates small_world 1 (spec_op small_world (Allocate 100 5) Map.empty) H"
    using run_op_simulates [OF first_simulates calculation, of "\<lambda>s. False"] by auto
  ultimately have r: "reachable small_world (\<lambda>s. False) (0 + 1) (spec_op small_world (Allocate 100 5) Map.empty) H"
    by (intro reachable.step [OF reachable.start]) auto
  have "live (spec_op small_world (Allocate 100 5) Map.empty) 100"
    by (simp add: live_def)
  then obtain d where "maps H 100 = Some d"
    using live_has_md [OF H(2)] by metis
  then show ?thesis
    using check_mapping_never_fails [OF r] H(1) by blast
qed

text \<open>A mapping with weak indices and an integer key, which has no reference count, all other values
  being referenced elsewhere: \<open>share\<close> tells whether it is copied before the second insertion.\<close>

definition weak_program :: "bool \<Rightarrow> svalue option result" where
  "weak_program share =
     bind_result (allocate_mapping first_heap 100 5) (\<lambda>H.
     bind_result (mapping_set_flags H 100 mapping_weak_indices) (\<lambda>H.
     bind_result (mapping_insert small_world (\<lambda>s. True) H 100 (VInt 1 0) (VString 7)) (\<lambda>H.
     bind_result (if share then copy_mapping H 100 200 else Inr H) (\<lambda>H.
     bind_result (mapping_insert small_world (\<lambda>s. True) H 100 (VInt 2 0) (VString 8)) (\<lambda>H.
       low_mapping_lookup small_world H 100 (VInt 1 0))))))"

text \<open>Inserting into a weak mapping that shares its table loses the entries whose weak part has no
  reference count; inserting into the same mapping without a copy keeps them.\<close>

theorem weak_copy_loses_entries:
  "weak_program True = Inr None \<and> weak_program False = Inr (Some (VString 7))"
  by (intro conjI; code_simp)

end
