(* ===== verification/Mapping_Ops.thy ===== *)
theory Mapping_Ops
  imports Mapping_Steps
begin

text \<open>
  What is built on the insertion, deletion and lookup of mappings (\<open>src/src/mapping.c\<close>): making a
  mapping from two arrays or a list of arguments, and adding, joining, intersecting and subtracting
  mappings, in place where an operand has no other reference.
\<close>

section \<open>Loops over the pairs of a table\<close>

definition insert_pairs ::
  "world \<Rightarrow> (svalue \<Rightarrow> bool) \<Rightarrow> addr \<Rightarrow> nat \<Rightarrow> (svalue \<times> svalue) list \<Rightarrow> mheap \<Rightarrow> mheap result" where
  "insert_pairs w multi m overwrite =
     fold_result (\<lambda>(key, v) H. low_mapping_insert w multi H m key v overwrite)"

text \<open>The new mapping is at the address \<open>n\<close> that the allocator chose.\<close>

definition mkmapping ::
  "world \<Rightarrow> (svalue \<Rightarrow> bool) \<Rightarrow> mheap \<Rightarrow> addr \<Rightarrow> svalue list \<Rightarrow> svalue list \<Rightarrow> mheap result" where
  "mkmapping w multi H n is vs =
     bind_result (allocate_mapping H n (map_slots (length is)))
       (insert_pairs w multi n 2 (zip is vs))"

text \<open>The arguments of \<open>aggregate_mapping\<close>: keys and values in turn.\<close>

fun arg_pairs :: "svalue list \<Rightarrow> (svalue \<times> svalue) list" where
  "arg_pairs (k # v # xs) = (k, v) # arg_pairs xs"
| "arg_pairs xs = []"

definition f_aggregate_mapping ::
  "world \<Rightarrow> (svalue \<Rightarrow> bool) \<Rightarrow> mheap \<Rightarrow> addr \<Rightarrow> svalue list \<Rightarrow> mheap result" where
  "f_aggregate_mapping w multi H n args =
     (if odd (length args) then Inl Wrong_Number_Of_Args
      else bind_result (allocate_mapping H n (map_slots (length args div 2)))
        (insert_pairs w multi n 2 (arg_pairs args)))"

section \<open>Operators on mappings\<close>


definition entry :: "keypair \<Rightarrow> svalue \<times> svalue" where
  "entry k = (ind k, val k)"









text \<open>\<open>add_mappings\<close>: the sum of the sizes, an \<open>INT32\<close>, the mapping the entries are added to, and the
  arguments left.\<close>

definition sizes :: "mheap \<Rightarrow> addr list \<Rightarrow> nat" where
  "sizes H ms = sum_list (map (\<lambda>m. case maps H m of None \<Rightarrow> 0
     | Some d \<Rightarrow> (case mds H d of None \<Rightarrow> 0 | Some md \<Rightarrow> md_size md)) ms)"

fun add_start ::
  "mheap \<Rightarrow> (addr \<Rightarrow> nat) \<Rightarrow> nat \<Rightarrow> addr \<Rightarrow> addr list \<Rightarrow> (mheap \<times> addr \<times> addr list) result" where
  "add_start H mrefs e n [] = Inl Fatal"
| "add_start H mrefs e n (m # ms) =
     with_md H m (\<lambda>d md.
       if md_size md = 0 then add_start H mrefs e n ms
       else if md_flags md AND mapping_weak = 0 \<and> e = md_size md then
         bind_result (copy_mapping H m n) (\<lambda>H. Inr (H, n, []))
       else if md_flags md AND mapping_weak = 0 \<and> mrefs m = 1 \<and> hardlinks md = 0 then Inr (H, m, ms)
       else bind_result (allocate_mapping H n (map_slots e)) (\<lambda>H. Inr (H, n, m # ms)))"

definition add_table :: "world \<Rightarrow> (svalue \<Rightarrow> bool) \<Rightarrow> addr \<Rightarrow> addr \<Rightarrow> mheap \<Rightarrow> mheap result" where
  "add_table w multi r m H = with_md H m (\<lambda>d md. insert_pairs w multi r 2 (map entry (all_pairs md)) H)"

definition add_mappings ::
  "world \<Rightarrow> (svalue \<Rightarrow> bool) \<Rightarrow> mheap \<Rightarrow> (addr \<Rightarrow> nat) \<Rightarrow> addr list \<Rightarrow> addr \<Rightarrow> (mheap \<times> addr) result" where
  "add_mappings w multi H mrefs ms n =
     (let e = sizes H ms in
      if int e \<ge> 2 ^ 31 then Inl Int_Overflow
      else if e = 0 then bind_result (allocate_mapping H n 0) (\<lambda>H. Inr (H, n))
      else bind_result (add_start H mrefs e n ms) (\<lambda>(H, ret, rest).
        bind_result (fold_result (add_table w multi ret) rest H) (\<lambda>H. Inr (H, ret))))"



section \<open>Stores\<close>

text \<open>What the loops rely on: storing under a key changes the lookup of that key only and leaves
  everything in \<open>frame\<close> alone; \<open>inv n\<close> leaves room for \<open>n\<close> more keys.\<close>

locale map_store =
  fixes inv :: "nat \<Rightarrow> 's \<Rightarrow> bool" and get :: "'s \<Rightarrow> 'k \<Rightarrow> 'v option" and eq :: "'k \<Rightarrow> 'k \<Rightarrow> bool"
    and valid :: "'k \<Rightarrow> bool" and frame :: "'s \<Rightarrow> 's \<Rightarrow> bool" and put :: "'k \<Rightarrow> 'v \<Rightarrow> 's \<Rightarrow> 's result"
  assumes frame_refl: "frame s s"
    and frame_trans: "frame s t \<Longrightarrow> frame t u \<Longrightarrow> frame s u"
    and put: "inv (Suc n) s \<Longrightarrow> valid k \<Longrightarrow> \<exists>s'. put k v s = Inr s' \<and> inv n s' \<and> frame s s' \<and>
      (\<forall>q. valid q \<longrightarrow> get s' q = (if eq k q then Some v else get s q))"
begin

lemma put_all:
  assumes "inv (length ps + n) s" "\<forall>p \<in> set ps. valid (fst p)"
  shows "\<exists>s'. fold_result (\<lambda>(k, v). put k v) ps s = Inr s' \<and> inv n s' \<and> frame s s' \<and>
    (\<forall>q. valid q \<longrightarrow> get s' q = fold (\<lambda>(k, v) r. if eq k q then Some v else r) ps (get s q))"
  using assms
proof (induction ps arbitrary: s)
  case Nil
  then show ?case
    by (simp add: frame_refl)
next
  case (Cons p ps)
  obtain k v where p: "p = (k, v)"
    by (cases p)
  obtain s1 where 1: "put k v s = Inr s1" "inv (length ps + n) s1" "frame s s1"
    "\<forall>q. valid q \<longrightarrow> get s1 q = (if eq k q then Some v else get s q)"
    using put [of "length ps + n" s k v] Cons.prems p by auto
  obtain s2 where "fold_result (\<lambda>(k, v). put k v) ps s1 = Inr s2" "inv n s2" "frame s1 s2"
    "\<forall>q. valid q \<longrightarrow> get s2 q = fold (\<lambda>(k, v) r. if eq k q then Some v else r) ps (get s1 q)"
    using Cons.IH [OF 1(2)] Cons.prems(2) by auto
  then show ?case
    using 1 p frame_trans by auto
qed

end


definition room :: "world \<Rightarrow> addr \<Rightarrow> nat \<Rightarrow> mheap \<Rightarrow> bool" where
  "room w m n H \<longleftrightarrow> heap_ok w H \<and>
     (\<exists>d md. has_md H m d md \<and> md_flags md AND mapping_weak = 0 \<and> md_size md + n \<le> 2 ^ 30)"

definition others_same :: "addr \<Rightarrow> mheap \<Rightarrow> mheap \<Rightarrow> bool" where
  "others_same m H H' \<longleftrightarrow> (\<forall>x. x \<noteq> m \<longrightarrow> contents H' x = contents H x)"


lemma room_insert:
  assumes "room w m (Suc n) H" "plain_value w k" "overwrite \<noteq> 0"
  shows "\<exists>H'. low_mapping_insert w multi H m k v overwrite = Inr H' \<and> room w m n H' \<and> others_same m H H' \<and>
    (\<forall>q. plain_value w q \<longrightarrow> map_get w H' m q = (if is_eq w k q then Some v else map_get w H m q))"
proof -
  obtain d md where h: "heap_ok w H" "has_md H m d md" "md_flags md AND mapping_weak = 0" "md_size md + Suc n \<le> 2 ^ 30"
    using assms(1) by (auto simp: room_def)
  then have "md_size md < 2 ^ 30"
    by simp
  then obtain H' d' md' where "low_mapping_insert w multi H m k v overwrite = Inr H'" "heap_ok w H'" "has_md H' m d' md'"
    "md_flags md' = md_flags md" "md_size md' \<le> md_size md + 1"
    "\<forall>q. plain_value w q \<longrightarrow> map_get w H' m q = (if is_eq w k q then Some v else map_get w H m q)"
    "\<forall>m'. m' \<noteq> m \<longrightarrow> contents H' m' = contents H m'"
    using low_mapping_insert_ok [OF h(1-3) _ assms(2,3), of multi v] by blast
  then show ?thesis
    using h by (auto simp: room_def others_same_def)
qed



interpretation set_store2: map_store "room w m" "\<lambda>H. map_get w H m" "is_eq w" "plain_value w"
    "others_same m" "\<lambda>k v H. low_mapping_insert w multi H m k v 2"
  for w multi m
  by unfold_locales (use room_insert [of w m _ _ _ 2] in \<open>auto simp: others_same_def\<close>)

section \<open>The operators\<close>

text \<open>Entries stored one after the other, when those for a key have the same value.\<close>

lemma fold_entries:
  assumes "\<forall>k \<in> set ks. is_eq w (ind k) q \<longrightarrow> val k = v"
  shows "fold (\<lambda>(k, v) r. if is_eq w k q then Some v else r) (map entry ks) r =
    (if \<exists>k \<in> set ks. is_eq w (ind k) q then Some v else r)"
  using assms by (induction ks arbitrary: r) (auto simp: entry_def)

text \<open>The keys of a table and its lookup.\<close>

lemma lookup_none:
  assumes "md_ok w md" "plain_value w q"
  shows "md_lookup w md q = None \<longleftrightarrow> (\<forall>k \<in> set (all_pairs md). \<not> is_eq w (ind k) q)"
  using lookup_iff [OF assms] by (metis not_Some_eq)




lemma allocate_room:
  assumes "heap_ok w H" "maps H n = None" "k < 2 ^ 30" "j \<le> 2 ^ 30"
  shows "\<exists>H'. allocate_mapping H n k = Inr H' \<and> room w n j H' \<and> others_same n H H' \<and>
    (\<forall>q. map_get w H' n q = None)"
proof -
  have n: "(k + avg_link_length - 1) div avg_link_length \<le> 2 ^ 28"
    "\<not> int k + int avg_link_length - 1 \<ge> 2 ^ 31"
    using assms(3) by (simp_all add: avg_link_length_def)
  from allocate_mapping_ok [OF assms(1,2) n(1)] obtain H' d md where 1: "allocate_mapping H n k = Inr H'" "heap_ok w H'"
    "has_md H' n d md" "all_pairs md = []" "md_size md = 0" "md_flags md AND mapping_weak = 0"
    "\<forall>m'. m' \<noteq> n \<longrightarrow> contents H' m' = contents H m'"
    unfolding allocate_mapping_def if_not_P [OF n(2)] by blast
  then show ?thesis
    using has_md_simps(5) [OF 1(3)] assms(4)
    by (auto simp: room_def others_same_def md_lookup_def)
qed





text \<open>The operands of an operator, none of them weak, and room for both.\<close>

definition operands :: "world \<Rightarrow> mheap \<Rightarrow> addr \<Rightarrow> nat \<Rightarrow> mapping_data \<Rightarrow> addr \<Rightarrow> nat \<Rightarrow> mapping_data \<Rightarrow> addr \<Rightarrow> bool" where
  "operands w H a ad a_md b bd b_md n \<longleftrightarrow>
     heap_ok w H \<and> has_md H a ad a_md \<and> has_md H b bd b_md \<and> maps H n = None \<and>
     md_flags a_md AND mapping_weak = 0 \<and> md_flags b_md AND mapping_weak = 0 \<and>
     md_size a_md + md_size b_md < 2 ^ 30"


lemma empty_table: "md_ok w md \<Longrightarrow> md_size md = 0 \<Longrightarrow> md_lookup w md q = None"
  by (simp add: md_ok_def md_lookup_def)



















section \<open>Making and adding mappings\<close>

text \<open>Of the pairs with equal keys the last one counts.\<close>

definition last_value :: "world \<Rightarrow> (svalue \<times> svalue) list \<Rightarrow> svalue \<Rightarrow> svalue option" where
  "last_value w ps q = map_option snd (find (\<lambda>(k, v). is_eq w k q) (rev ps))"

lemma find_append: "find P (xs @ ys) = (case find P xs of None \<Rightarrow> find P ys | Some x \<Rightarrow> Some x)"
  by (induction xs) auto

lemma fold_last_value:
  "fold (\<lambda>(k, v) r. if is_eq w k q then Some v else r) ps r =
    (case last_value w ps q of None \<Rightarrow> r | Some v \<Rightarrow> Some v)"
  by (induction ps arbitrary: r) (auto simp: last_value_def find_append split: option.splits)

lemma insert_pairs_last:
  assumes "room w r (length ps + j) H" "\<forall>p \<in> set ps. plain_value w (fst p)"
  shows "\<exists>H'. insert_pairs w multi r 2 ps H = Inr H' \<and> room w r j H' \<and> others_same r H H' \<and>
    (\<forall>q. plain_value w q \<longrightarrow> map_get w H' r q =
      (case last_value w ps q of None \<Rightarrow> map_get w H r q | Some v \<Rightarrow> Some v))"
  using set_store2.put_all [OF assms, of multi] by (simp add: insert_pairs_def fold_last_value)

lemma slots_bound: "k \<le> 2 ^ 29 \<Longrightarrow> map_slots k < 2 ^ 30"
  using div_le_mono [of k "2 ^ 29" "2 ^ 4"] by (simp add: map_slots_def drop_bit_eq_div)

lemma make_pairs:
  assumes "heap_ok w H" "maps H n = None" "length ps \<le> 2 ^ 29" "length ps + j \<le> 2 ^ 30"
    "\<forall>p \<in> set ps. plain_value w (fst p)"
  shows "\<exists>H'. bind_result (allocate_mapping H n (map_slots (length ps))) (insert_pairs w multi n 2 ps) = Inr H' \<and>
    room w n j H' \<and> others_same n H H' \<and> (\<forall>q. plain_value w q \<longrightarrow> map_get w H' n q = last_value w ps q)"
proof -
  obtain H1 where 1: "allocate_mapping H n (map_slots (length ps)) = Inr H1" "room w n (length ps + j) H1"
    "others_same n H H1" "\<forall>q. map_get w H1 n q = None"
    using allocate_room [OF assms(1,2) slots_bound [OF assms(3)] assms(4)] by blast
  obtain H' where "insert_pairs w multi n 2 ps H1 = Inr H'" "room w n j H'" "others_same n H1 H'"
    "\<forall>q. plain_value w q \<longrightarrow> map_get w H' n q =
      (case last_value w ps q of None \<Rightarrow> map_get w H1 n q | Some v \<Rightarrow> Some v)"
    using insert_pairs_last [OF 1(2) assms(5)] by blast
  then show ?thesis
    using 1 by (auto simp: others_same_def split: option.splits)
qed

lemma arg_pairs_length: "even (length args) \<Longrightarrow> length args div 2 = length (arg_pairs args)"
  by (induction args rule: arg_pairs.induct) auto

lemma arg_pairs_keys: "p \<in> set (arg_pairs args) \<Longrightarrow> fst p \<in> set args"
  by (induction args rule: arg_pairs.induct) auto

text \<open>The loop of \<open>add_mappings\<close>.\<close>

definition strong :: "mheap \<Rightarrow> addr \<Rightarrow> bool" where
  "strong H m \<longleftrightarrow> (\<exists>d md. has_md H m d md \<and> md_flags md AND mapping_weak = 0)"

definition last_get :: "world \<Rightarrow> mheap \<Rightarrow> addr list \<Rightarrow> svalue \<Rightarrow> svalue option \<Rightarrow> svalue option" where
  "last_get w H ms q = fold (\<lambda>m x. case map_get w H m q of None \<Rightarrow> x | Some v \<Rightarrow> Some v) ms"

lemma last_value_entries:
  assumes "md_ok w md" "plain_value w q"
  shows "last_value w (map entry (all_pairs md)) q = md_lookup w md q"
proof (cases "md_lookup w md q")
  case None
  then show ?thesis
    using lookup_none [OF assms] by (auto simp: last_value_def find_None_iff entry_def)
next
  case (Some v)
  then have v: "\<forall>k \<in> set (all_pairs md). is_eq w (ind k) q \<longrightarrow> val k = v" "\<exists>k \<in> set (all_pairs md). is_eq w (ind k) q"
    using lookup_iff [OF assms, of v] lookup_iff [OF assms] by (metis option.inject, metis)
  then have "fold (\<lambda>(k, v) r. if is_eq w k q then Some v else r) (map entry (all_pairs md)) None = Some v"
    using fold_entries [OF v(1)] by simp
  then show ?thesis
    using Some by (auto simp: fold_last_value split: option.splits)
qed

lemma contents_md:
  assumes "has_md H m d md" "contents H' m = contents H m"
  shows "\<exists>d' md'. has_md H' m d' md' \<and> seen md' = seen md"
  using assms has_md_simps(4) [OF assms(1)] by (auto simp: contents_def split: option.splits)

lemma sizes_cong:
  assumes "heap_ok w H" "heap_ok w H'" "\<forall>m \<in> set ms. strong H m \<and> contents H' m = contents H m"
  shows "sizes H' ms = sizes H ms"
proof -
  have "(case maps H' m of None \<Rightarrow> 0 | Some d \<Rightarrow> (case mds H' d of None \<Rightarrow> 0 | Some md \<Rightarrow> md_size md)) =
      (case maps H m of None \<Rightarrow> 0 | Some d \<Rightarrow> (case mds H d of None \<Rightarrow> 0 | Some md \<Rightarrow> md_size md))"
    if "m \<in> set ms" for m
  proof -
    obtain d md where h: "has_md H m d md"
      using assms(3) \<open>m \<in> set ms\<close> by (auto simp: strong_def)
    then obtain d' md' where h': "has_md H' m d' md'" "seen md' = seen md"
      using contents_md [OF h] assms(3) \<open>m \<in> set ms\<close> by blast
    have "md_ok w md" "md_ok w md'"
      using heap_okD(1) [OF assms(1)] heap_okD(1) [OF assms(2)] h h'(1) by blast+
    then have "md_size md' = md_size md"
      using h'(2) by (simp add: md_ok_def seen_def)
    then show ?thesis
      using h h'(1) by simp
  qed
  then show ?thesis
    unfolding sizes_def by (metis (no_types, lifting) map_eq_conv)
qed

lemma add_loop:
  assumes "room w r (sizes H ms) H" "\<forall>m \<in> set ms. strong H m \<and> m \<noteq> r"
  shows "\<exists>H'. fold_result (add_table w multi r) ms H = Inr H' \<and> room w r 0 H' \<and> others_same r H H' \<and>
    (\<forall>q. plain_value w q \<longrightarrow> map_get w H' r q = last_get w H ms q (map_get w H r q))"
  using assms
proof (induction ms arbitrary: H)
  case Nil
  then show ?case
    by (simp add: others_same_def last_get_def sizes_def)
next
  case (Cons m ms)
  obtain d md where h: "has_md H m d md"
    using Cons.prems(2) by (auto simp: strong_def)
  have hok: "heap_ok w H"
    using Cons.prems(1) by (simp add: room_def)
  then have ok: "md_ok w md"
    using heap_okD(1) h by blast
  have r: "room w r (length (map entry (all_pairs md)) + sizes H ms) H"
    using Cons.prems(1) ok h by (simp add: sizes_def md_ok_def)
  have pl: "\<forall>p \<in> set (map entry (all_pairs md)). plain_value w (fst p)"
    using pairs_ok(2) [OF ok] by (auto simp: entry_def)
  obtain H1 where 1: "insert_pairs w multi r 2 (map entry (all_pairs md)) H = Inr H1" "room w r (sizes H ms) H1"
    "others_same r H H1" "\<forall>q. plain_value w q \<longrightarrow> map_get w H1 r q =
      (case last_value w (map entry (all_pairs md)) q of None \<Rightarrow> map_get w H r q | Some v \<Rightarrow> Some v)"
    using insert_pairs_last [OF r pl] by blast
  have st: "\<forall>m \<in> set ms. strong H m \<and> contents H1 m = contents H m \<and> m \<noteq> r"
    using Cons.prems(2) 1(3) by (auto simp: others_same_def)
  have "\<forall>m \<in> set ms. strong H1 m \<and> m \<noteq> r"
  proof
    fix m' assume "m' \<in> set ms"
    then obtain d md where h: "has_md H m' d md" "md_flags md AND mapping_weak = 0" "contents H1 m' = contents H m'" "m' \<noteq> r"
      using st by (auto simp: strong_def)
    then show "strong H1 m' \<and> m' \<noteq> r"
      using contents_md [OF h(1,3)] by (auto simp: strong_def seen_def)
  qed
  moreover have "sizes H1 ms = sizes H ms"
    using sizes_cong [OF hok] 1(2) st by (simp add: room_def)
  ultimately obtain H2 where 2: "fold_result (add_table w multi r) ms H1 = Inr H2" "room w r 0 H2" "others_same r H1 H2"
    "\<forall>q. plain_value w q \<longrightarrow> map_get w H2 r q = last_get w H1 ms q (map_get w H1 r q)"
    using Cons.IH [of H1] 1(2) by auto
  have same: "last_get w H1 ms q x = last_get w H ms q x" for q x
    unfolding last_get_def by (rule fold_cong) (use st in \<open>auto simp: map_get_def\<close>)
  have "map_get w H1 r q = (case map_get w H m q of None \<Rightarrow> map_get w H r q | Some v \<Rightarrow> Some v)"
    if "plain_value w q" for q
    using 1(4) last_value_entries [OF ok that] that has_md_simps(5) [OF h] by simp
  moreover have "add_table w multi r m H = Inr H1"
    by (simp add: add_table_def has_md_simps(3) [OF h] 1(1))
  moreover have "others_same r H H2"
    using 1(3) 2(3) by (simp add: others_same_def)
  moreover have "last_get w H (m # ms) q x = last_get w H ms q (case map_get w H m q of None \<Rightarrow> x | Some v \<Rightarrow> Some v)" for q x
    by (simp add: last_get_def)
  ultimately show ?case
    using 2(1,2,4) same by auto
qed

lemma sizes_Cons: "has_md H m d md \<Longrightarrow> sizes H (m # ms) = md_size md + sizes H ms"
  by (simp add: sizes_def)

lemma empty_args:
  assumes "heap_ok w H" "\<forall>m \<in> set ms. strong H m" "sizes H ms = 0"
  shows "last_get w H ms q x = x"
  using assms(2,3)
proof (induction ms arbitrary: x)
  case (Cons m ms)
  obtain d md where h: "has_md H m d md"
    using Cons.prems(1) by (auto simp: strong_def)
  then have "md_lookup w md q = None"
    using Cons.prems(2) sizes_Cons [OF h, of ms] heap_okD(1) [OF assms(1), of d md] empty_table by auto
  then have "map_get w H m q = None"
    using has_md_simps(5) [OF h] by simp
  then show ?case
    using Cons sizes_Cons [OF h, of ms] by (simp add: last_get_def)
qed (simp add: last_get_def)

text \<open>The first mapping with entries: the arguments before it do not count.\<close>

lemma add_start_ok:
  assumes "heap_ok w H" "\<forall>m \<in> set ms. strong H m" "\<forall>m. mrefs m = 1 \<longrightarrow> count_list ms m \<le> 1"
    "maps H n = None" "e = sizes H ms" "e \<noteq> 0" "e \<le> 2 ^ 29"
  shows "\<exists>H1 r rest. add_start H mrefs e n ms = Inr (H1, r, rest) \<and> room w r (sizes H rest) H1 \<and>
    (r = n \<or> r \<in> set ms \<and> mrefs r = 1) \<and> (\<forall>x. x \<noteq> r \<longrightarrow> contents H1 x = contents H x) \<and>
    set rest \<subseteq> set ms \<and> (\<forall>m \<in> set rest. m \<noteq> r) \<and>
    (\<forall>q. last_get w H rest q (map_get w H1 r q) = last_get w H ms q None)"
  using assms(2-7)
proof (induction ms)
  case Nil
  then show ?case
    by (simp add: sizes_def)
next
  case (Cons m ms)
  obtain d md where h: "has_md H m d md" "md_flags md AND mapping_weak = 0"
    using Cons.prems(1) by (auto simp: strong_def)
  have ok: "md_ok w md"
    using heap_okD(1) [OF assms(1)] h(1) by blast
  have e: "e = md_size md + sizes H ms"
    using sizes_Cons [OF h(1)] Cons.prems(4) by simp
  have get: "last_get w H (m # ms) q None = last_get w H ms q (map_get w H m q)" for q
    by (cases "map_get w H m q") (simp_all add: last_get_def)
  have ne: "x \<noteq> n" if "x \<in> set (m # ms)" for x
    using that Cons.prems(1,3) by (auto simp: strong_def)
  have sub: "\<forall>m \<in> set ms. strong H m"
    using Cons.prems(1) by simp
  consider "md_size md = 0" | "md_size md \<noteq> 0" "e = md_size md"
    | "md_size md \<noteq> 0" "e \<noteq> md_size md" "mrefs m = 1 \<and> hardlinks md = 0"
    | "md_size md \<noteq> 0" "e \<noteq> md_size md" "\<not> (mrefs m = 1 \<and> hardlinks md = 0)"
    by blast
  then show ?case
  proof cases
    case 1
    then have "map_get w H m q = None" for q
      using empty_table [OF ok] has_md_simps(5) [OF h(1)] by simp
    moreover have "\<forall>m. mrefs m = 1 \<longrightarrow> count_list ms m \<le> 1"
      using Cons.prems(2) by (metis count_list.simps(2) le_Suc_eq add.commute plus_1_eq_Suc le_SucI not_less_eq_eq)
    ultimately show ?thesis
      using Cons.IH sub Cons.prems(3,5,6) e 1 get by (auto simp: has_md_simps(3) [OF h(1)])
  next
    case 2
    obtain H1 md1 where c: "copy_mapping H m n = Inr H1" "heap_ok w H1" "has_md H1 n d md1"
      "md_flags md1 = md_flags md" "md_size md1 = md_size md" "contents H1 n = contents H m"
      "\<forall>m'. m' \<noteq> n \<longrightarrow> contents H1 m' = contents H m'"
      using copy_mapping_ok [OF assms(1) h(1) Cons.prems(3)] by blast
    have "last_get w H ms q x = x" for q x
      using empty_args [OF assms(1) sub] e 2(2) by simp
    moreover have "map_get w H1 n q = map_get w H m q" for q
      using c(6) by (simp add: map_get_def)
    moreover have "room w n (sizes H []) H1"
      using c(2-5) h(2) Cons.prems(6) 2(2) by (auto simp: room_def sizes_def)
    ultimately show ?thesis
      using 2 h(2) c(1,7) get by (auto simp: has_md_simps(3) [OF h(1)] last_get_def)
  next
    case 3
    have "count_list (m # ms) m \<le> 1"
      using Cons.prems(2) 3(3) by blast
    then have "m \<notin> set ms"
      by (simp add: count_list_0_iff)
    moreover have "room w m (sizes H ms) H"
      using assms(1) h e Cons.prems(6) by (auto simp: room_def)
    ultimately show ?thesis
      using 3 h(2) get by (auto simp: has_md_simps(3) [OF h(1)])
  next
    case 4
    have "e \<le> 2 ^ 30"
      using Cons.prems(6) by simp
    then obtain H1 where 1: "allocate_mapping H n (map_slots e) = Inr H1" "room w n e H1" "others_same n H H1"
      "\<forall>q. map_get w H1 n q = None"
      using allocate_room [OF assms(1) Cons.prems(3) slots_bound [OF Cons.prems(6)]] by blast
    moreover have "\<forall>x \<in> set (m # ms). x \<noteq> n"
      using ne by blast
    ultimately show ?thesis
      using 4 h(2) Cons.prems(4) by (auto simp: has_md_simps(3) [OF h(1)] others_same_def)
  qed
qed

lemma int_size_fits: "n \<le> 2 ^ 29 \<Longrightarrow> \<not> int n \<ge> 2 ^ 31"
  by simp

lemma add_mappings_ok:
  assumes "heap_ok w H" "\<forall>m \<in> set ms. strong H m" "\<forall>m. mrefs m = 1 \<longrightarrow> count_list ms m \<le> 1"
    "maps H n = None" "sizes H ms \<le> 2 ^ 29"
  shows "\<exists>H' r. add_mappings w multi H mrefs ms n = Inr (H', r) \<and> heap_ok w H' \<and>
    (r = n \<or> r \<in> set ms \<and> mrefs r = 1) \<and> (\<forall>x. x \<noteq> r \<longrightarrow> contents H' x = contents H x) \<and>
    (\<forall>q. plain_value w q \<longrightarrow> map_get w H' r q = last_get w H ms q None)"
proof (cases "sizes H ms = 0")
  case True
  obtain H' where "allocate_mapping H n 0 = Inr H'" "room w n 0 H'" "others_same n H H'" "\<forall>q. map_get w H' n q = None"
    using allocate_room [OF assms(1,4), of 0 0] by auto
  then show ?thesis
    using True empty_args [OF assms(1,2)] by (auto simp: add_mappings_def room_def others_same_def)
next
  case False
  obtain H1 r rest where 1: "add_start H mrefs (sizes H ms) n ms = Inr (H1, r, rest)" "room w r (sizes H rest) H1"
    "r = n \<or> r \<in> set ms \<and> mrefs r = 1" "\<forall>x. x \<noteq> r \<longrightarrow> contents H1 x = contents H x"
    "set rest \<subseteq> set ms" "\<forall>m \<in> set rest. m \<noteq> r"
    "\<forall>q. last_get w H rest q (map_get w H1 r q) = last_get w H ms q None"
    using add_start_ok [OF assms(1-4) refl False assms(5)] by blast
  have st: "\<forall>m \<in> set rest. strong H m \<and> contents H1 m = contents H m"
    using 1(4-6) assms(2) by blast
  then have sz: "sizes H1 rest = sizes H rest"
    using sizes_cong [OF assms(1)] 1(2) by (simp add: room_def)
  have "\<forall>m \<in> set rest. strong H1 m \<and> m \<noteq> r"
  proof
    fix m assume "m \<in> set rest"
    then obtain d md where h: "has_md H m d md" "md_flags md AND mapping_weak = 0" "contents H1 m = contents H m" "m \<noteq> r"
      using st 1(6) by (auto simp: strong_def)
    then show "strong H1 m \<and> m \<noteq> r"
      using contents_md [OF h(1,3)] by (auto simp: strong_def seen_def)
  qed
  then obtain H2 where 2: "fold_result (add_table w multi r) rest H1 = Inr H2" "room w r 0 H2" "others_same r H1 H2"
    "\<forall>q. plain_value w q \<longrightarrow> map_get w H2 r q = last_get w H1 rest q (map_get w H1 r q)"
    using add_loop 1(2) sz by metis
  have "last_get w H1 rest q x = last_get w H rest q x" for q x
    unfolding last_get_def by (rule fold_cong) (use st in \<open>auto simp: map_get_def\<close>)
  moreover have "add_mappings w multi H mrefs ms n = Inr (H2, r)"
    using False 1(1) 2(1) int_size_fits [OF assms(5)] by (simp add: add_mappings_def)
  moreover have "heap_ok w H2"
    using 2(2) by (simp add: room_def)
  ultimately show ?thesis
    using 1(3,4,7) 2(3,4) by (auto simp: others_same_def)
qed

section \<open>Properties\<close>


lemma small_ints:
  "plain_value small_world (VInt i 0)" "is_eq small_world (VInt i 0) (VInt j 0) = (i = j)"
proof -
  show p: "plain_value small_world (VInt i 0)" for i
    by (simp add: plain_value_def)
  show "is_eq small_world (VInt i 0) (VInt j 0) = (i = j)"
    by (simp add: is_eq_plain [OF p p])
qed

lemma unused_address: "heap_ok w H \<Longrightarrow> contents H m = None \<Longrightarrow> maps H m = None"
  unfolding heap_ok_def by (cases "maps H m") (fastforce simp: contents_def)+

lemma room_contents:
  assumes "heap_ok w H" "room w m j H1" "contents H m = contents H1 m"
  shows "\<exists>d md. has_md H m d md \<and> md_flags md AND mapping_weak = 0 \<and> md_size md + j \<le> 2 ^ 30"
proof -
  obtain d md where h: "has_md H1 m d md" "md_flags md AND mapping_weak = 0" "md_size md + j \<le> 2 ^ 30" "md_ok w md"
    using assms(2) heap_okD(1) unfolding room_def by blast
  then obtain d' md' where h': "has_md H m d' md'" "seen md' = seen md"
    using contents_md [OF h(1) assms(3)] by blast
  then have "md_ok w md'"
    using heap_okD(1) [OF assms(1)] by blast
  then show ?thesis
    using h h' by (auto simp: seen_def md_ok_def)
qed

text \<open>Two mappings made one after the other.\<close>

lemma two_mappings:
  assumes "length ps < 2 ^ 28" "length qs < 2 ^ 28" "\<forall>p \<in> set ps \<union> set qs. plain_value w (fst p)"
  shows "\<exists>H ad a_md bd b_md. operands w H 1 ad a_md 2 bd b_md 3 \<and> md_size a_md + md_size b_md \<le> 2 ^ 29 \<and>
    (\<forall>q. plain_value w q \<longrightarrow> map_get w H 1 q = last_value w ps q \<and> map_get w H 2 q = last_value w qs q)"
proof -
  have n: "maps first_heap m = None" for m
    by (simp add: first_heap_def)
  have "length ps \<le> 2 ^ 29" "length ps + (2 ^ 29 + 2 ^ 28) \<le> 2 ^ 30" "\<forall>p \<in> set ps. plain_value w (fst p)"
    using assms by simp_all
  then obtain H1 where 1: "room w 1 (2 ^ 29 + 2 ^ 28) H1" "others_same 1 first_heap H1"
    "\<forall>q. plain_value w q \<longrightarrow> map_get w H1 1 q = last_value w ps q"
    using make_pairs [OF first_heap_ok n] by blast
  have h1: "heap_ok w H1"
    using 1(1) by (simp add: room_def)
  have e: "contents H1 m = None" if "m \<noteq> 1" for m
    using 1(2) that by (simp add: others_same_def contents_def n)
  have "length qs \<le> 2 ^ 29" "length qs + (2 ^ 29 + 2 ^ 28) \<le> 2 ^ 30" "\<forall>p \<in> set qs. plain_value w (fst p)" "maps H1 2 = None"
    using assms unused_address [OF h1 e] by simp_all
  then obtain H2 where 2: "room w 2 (2 ^ 29 + 2 ^ 28) H2" "others_same 2 H1 H2"
    "\<forall>q. plain_value w q \<longrightarrow> map_get w H2 2 q = last_value w qs q"
    using make_pairs [OF h1] by blast
  have h2: "heap_ok w H2"
    using 2(1) by (simp add: room_def)
  have s: "contents H2 m = contents H1 m" if "m \<noteq> 2" for m
    using 2(2) that by (simp add: others_same_def)
  have "maps H2 3 = None"
    using unused_address [OF h2] s e by simp
  moreover obtain ad a_md bd b_md where "has_md H2 1 ad a_md" "md_flags a_md AND mapping_weak = 0"
    "md_size a_md + (2 ^ 29 + 2 ^ 28) \<le> 2 ^ 30" "has_md H2 2 bd b_md" "md_flags b_md AND mapping_weak = 0"
    "md_size b_md + (2 ^ 29 + 2 ^ 28) \<le> 2 ^ 30"
    using room_contents [OF h2 1(1) s] room_contents [OF h2 2(1) refl] by auto
  ultimately have "operands w H2 1 ad a_md 2 bd b_md 3 \<and> md_size a_md + md_size b_md \<le> 2 ^ 29"
    using h2 by (simp add: operands_def)
  moreover have "map_get w H2 1 q = map_get w H1 1 q" for q
    using s by (simp add: map_get_def)
  ultimately show ?thesis
    using 1(3) 2(3) by (intro exI [of _ H2]) auto
qed


text \<open>\<open>aggregate_mapping\<close> refuses an odd number of arguments; otherwise, for at most
  \<open>2 ^ 30\<close> plain arguments, the new mapping holds for
  every key the last value given for it, and no other mapping changes.\<close>

theorem f_aggregate_mapping_spec:
  assumes "heap_ok w H" "maps H n = None" "length args \<le> 2 ^ 30" "\<forall>v \<in> set args. plain_value w v"
  shows "if odd (length args) then f_aggregate_mapping w multi H n args = Inl Wrong_Number_Of_Args
    else \<exists>H'. f_aggregate_mapping w multi H n args = Inr H' \<and> heap_ok w H' \<and> others_same n H H' \<and>
      (\<forall>q. plain_value w q \<longrightarrow> map_get w H' n q = last_value w (arg_pairs args) q)"
proof (cases "odd (length args)")
  case True
  then show ?thesis
    by (simp add: f_aggregate_mapping_def)
next
  case False
  then have l: "length args div 2 = length (arg_pairs args)"
    by (simp add: arg_pairs_length)
  moreover have "length args div 2 \<le> 2 ^ 30 div 2"
    using assms(3) div_le_mono by blast
  ultimately have "length (arg_pairs args) \<le> 2 ^ 29" "length (arg_pairs args) + 0 \<le> 2 ^ 30"
    "\<forall>p \<in> set (arg_pairs args). plain_value w (fst p)"
    using assms(4) arg_pairs_keys by (simp, simp, blast)
  then obtain H' where "bind_result (allocate_mapping H n (map_slots (length (arg_pairs args))))
      (insert_pairs w multi n 2 (arg_pairs args)) = Inr H'" "room w n 0 H'" "others_same n H H'"
    "\<forall>q. plain_value w q \<longrightarrow> map_get w H' n q = last_value w (arg_pairs args) q"
    using make_pairs [OF assms(1,2)] by blast
  then show ?thesis
    using False l by (simp add: f_aggregate_mapping_def room_def)
qed

theorem f_aggregate_mapping_spec_witness:
  "\<exists>H'. f_aggregate_mapping small_world (\<lambda>s. False) first_heap 1 [VInt 1 0, VInt 2 0, VInt 1 0, VInt 3 0] = Inr H' \<and>
    map_get small_world H' 1 (VInt 1 0) = Some (VInt 3 0)"
proof -
  have "\<exists>H'. f_aggregate_mapping small_world (\<lambda>s. False) first_heap 1 [VInt 1 0, VInt 2 0, VInt 1 0, VInt 3 0] = Inr H' \<and>
      (\<forall>q. plain_value small_world q \<longrightarrow>
        map_get small_world H' 1 q = last_value small_world (arg_pairs [VInt 1 0, VInt 2 0, VInt 1 0, VInt 3 0]) q)"
    using f_aggregate_mapping_spec [OF first_heap_ok, of 1 "[VInt 1 0, VInt 2 0, VInt 1 0, VInt 3 0]" small_world "\<lambda>s. False"]
    by (auto simp: first_heap_def small_ints)
  then show ?thesis
    using small_ints by (auto simp: last_value_def)
qed

text \<open>C4: The sum of mappings that are not weak and have at most \<open>2 ^ 29\<close> entries together holds for every key the value of the last argument that
  has it. It is a new mapping, or the first argument with entries when nothing else refers to it;
  every other mapping keeps its contents.\<close>

theorem add_mappings_spec:
  assumes "heap_ok w H" "\<forall>m \<in> set ms. strong H m" "\<forall>m. mrefs m = 1 \<longrightarrow> count_list ms m \<le> 1"
    "maps H n = None" "sizes H ms \<le> 2 ^ 29"
  shows "\<exists>H' r. add_mappings w multi H mrefs ms n = Inr (H', r) \<and> heap_ok w H' \<and>
    (r = n \<or> r \<in> set ms \<and> mrefs r = 1) \<and> (\<forall>x. x \<noteq> r \<longrightarrow> contents H' x = contents H x) \<and>
    (\<forall>q. plain_value w q \<longrightarrow> map_get w H' r q = last_get w H ms q None)"
  by (rule add_mappings_ok [OF assms])

theorem add_mappings_spec_witness:
  "\<exists>H H' r. add_mappings small_world (\<lambda>s. False) H (\<lambda>m. 2) [1, 2] 3 = Inr (H', r) \<and>
    map_get small_world H' r (VInt 7 0) = Some (VInt 8 0)"
proof -
  let ?w = small_world
  let ?a = "[(VInt 7 0, VInt 6 0)]" and ?b = "[(VInt 7 0, VInt 8 0)]"
  have "length ?a < 2 ^ 28" "length ?b < 2 ^ 28" "\<forall>p \<in> set ?a \<union> set ?b. plain_value ?w (fst p)"
    by (simp_all add: small_ints)
  then obtain H ad a_md bd b_md where h: "operands ?w H 1 ad a_md 2 bd b_md 3"
    "\<forall>q. plain_value ?w q \<longrightarrow> map_get ?w H 1 q = last_value ?w ?a q \<and> map_get ?w H 2 q = last_value ?w ?b q" "md_size a_md + md_size b_md \<le> 2 ^ 29"
    using two_mappings by blast
  have "\<forall>m \<in> set [1, 2]. strong H m" "maps H 3 = None" "sizes H [1, 2] \<le> 2 ^ 29" "heap_ok ?w H"
    using h(1,3) unfolding operands_def strong_def sizes_def by auto
  then obtain H' r where "add_mappings ?w (\<lambda>s. False) H (\<lambda>m. 2) [1, 2] 3 = Inr (H', r)"
    "\<forall>q. plain_value ?w q \<longrightarrow> map_get ?w H' r q = last_get ?w H [1, 2] q None"
    using add_mappings_spec [of ?w H "[1, 2]" "\<lambda>m. 2" 3 "\<lambda>s. False"] by auto
  moreover have "last_get ?w H [1, 2] (VInt 7 0) None = Some (VInt 8 0)"
    by (simp add: last_get_def h(2) small_ints last_value_def)
  ultimately show ?thesis
    using small_ints(1) by metis
qed

end
