(* ===== verification/Queue.thy ===== *)
theory Queue
  imports Prelude "HOL-Library.Multiset"
begin

text \<open>
  The queues of calls that the garbage collector uses to mark without recursion
  (\<open>src/src/queue.c\<close>): a chain of blocks of calls, filled at its end by \<open>enqueue\<close> and run from its
  beginning by \<open>run_queue\<close>, or used as a stack by \<open>enqueue_lifo\<close>, \<open>run_lifo_queue\<close> and
  \<open>dequeue_lifo\<close>. A call may put further calls in the queue while it is run.
\<close>

section \<open>Blocks and queues\<close>

text \<open>Addresses are numbers, the null pointer is 0, and 1 is the mark of a stack; \<open>entries\<close> holds the
  \<open>used\<close> entries of a block. The blocks that are allocated are those in \<open>blocks\<close>; \<open>fresh\<close> is the
  next address the allocator gives.\<close>

record 'e queue_block =
  next_block :: nat
  entries :: "'e list"

record 'e pike_queue =
  q_first :: nat
  q_last :: nat
  blocks :: "nat \<Rightarrow> 'e queue_block option"
  fresh :: nat

definition queue_entries :: nat where "queue_entries = 8191"

definition lifo_mark :: nat where "lifo_mark = 1"

definition get_block :: "'e pike_queue \<Rightarrow> nat \<Rightarrow> 'e queue_block result" where
  "get_block q b = (case blocks q b of None \<Rightarrow> Inl Bad_Memory_Access | Some x \<Rightarrow> Inr x)"

definition put_block :: "nat \<Rightarrow> 'e queue_block \<Rightarrow> 'e pike_queue \<Rightarrow> 'e pike_queue" where
  "put_block b x q = q\<lparr>blocks := (blocks q)(b \<mapsto> x)\<rparr>"

definition free_block :: "nat \<Rightarrow> 'e pike_queue \<Rightarrow> 'e pike_queue" where
  "free_block b q = q\<lparr>blocks := (blocks q)(b := None)\<rparr>"

definition alloc_block :: "nat \<Rightarrow> 'e pike_queue \<Rightarrow> 'e pike_queue \<times> nat" where
  "alloc_block nxt q = ((put_block (fresh q) \<lparr>next_block = nxt, entries = []\<rparr> q)\<lparr>fresh := fresh q + 1\<rparr>, fresh q)"

text \<open>\<open>b->entries[b->used++] = e\<close>. The array has \<open>QUEUE_ENTRIES\<close> elements: a write past them is an
  error.\<close>

definition push_entry :: "'e \<Rightarrow> nat \<Rightarrow> 'e pike_queue \<Rightarrow> 'e pike_queue result" where
  "push_entry e b q =
     bind_result (get_block q b) (\<lambda>x.
       if length (entries x) \<ge> queue_entries then Inl Bad_Memory_Access
       else Inr (put_block b (x\<lparr>entries := entries x @ [e]\<rparr>) q))"

section \<open>The operations of a queue\<close>

text \<open>A new block is needed when there is none or the last one is full; it is linked after the last.\<close>

definition needs_block :: "nat \<Rightarrow> 'e pike_queue \<Rightarrow> bool result" where
  "needs_block b q =
     (if b = 0 then Inr True
      else bind_result (get_block q b) (\<lambda>x. Inr (length (entries x) \<ge> queue_entries)))"

definition enqueue :: "'e \<Rightarrow> 'e pike_queue \<Rightarrow> 'e pike_queue result" where
  "enqueue e q =
     bind_result (needs_block (q_last q) q) (\<lambda>new.
       if new then
         (let (q, b) = alloc_block 0 q in
          bind_result
            (if q_first q \<noteq> 0 then
               bind_result (get_block q (q_last q)) (\<lambda>x. Inr (put_block (q_last q) (x\<lparr>next_block := b\<rparr>) q))
             else Inr (q\<lparr>q_first := b\<rparr>)) (\<lambda>q.
          push_entry e b (q\<lparr>q_last := b\<rparr>)))
       else push_entry e (q_last q) q)"

text \<open>What a call does: it changes the state of the program and puts calls in the queue.\<close>

type_synonym ('e, 's) calls = "'e \<Rightarrow> 's \<Rightarrow> 's \<times> 'e list"

text \<open>The two loops of \<open>run_queue\<close>; \<open>i\<close> is the index of the inner one. The block being run is the
  first one all the time.\<close>

partial_function (option) run_loop ::
  "('e, 's) calls \<Rightarrow> nat \<Rightarrow> 'e pike_queue \<Rightarrow> 's \<Rightarrow> ('e pike_queue \<times> 's) result option" where
  "run_loop call i q s =
     (if q_first q = 0 then Some (Inr (q\<lparr>q_last := 0\<rparr>, s))
      else case get_block q (q_first q) of
        Inl err \<Rightarrow> Some (Inl err)
      | Inr x \<Rightarrow>
          if i < length (entries x) then
            (let (s', new) = call (entries x ! i) s in
             case fold_result enqueue new q of
               Inl err \<Rightarrow> Some (Inl err)
             | Inr q' \<Rightarrow> run_loop call (i + 1) q' s')
          else run_loop call 0 (free_block (q_first q) (q\<lparr>q_first := next_block x\<rparr>)) s)"

definition run_queue :: "('e, 's) calls \<Rightarrow> 'e pike_queue \<Rightarrow> 's \<Rightarrow> ('e pike_queue \<times> 's) result option" where
  "run_queue call = run_loop call 0"

partial_function (option) discard_loop :: "nat \<Rightarrow> 'e pike_queue \<Rightarrow> 'e pike_queue result option" where
  "discard_loop b q =
     (if b = 0 then Some (Inr q)
      else case get_block q b of
        Inl err \<Rightarrow> Some (Inl err)
      | Inr x \<Rightarrow> discard_loop (next_block x) (free_block b q))"

definition discard_queue :: "'e pike_queue \<Rightarrow> 'e pike_queue result option" where
  "discard_queue q =
     map_option (\<lambda>r. bind_result r (\<lambda>q. Inr (q\<lparr>q_first := 0, q_last := 0\<rparr>))) (discard_loop (q_first q) q)"

section \<open>The operations of a stack\<close>

text \<open>The debug mode sets the mark in \<open>last\<close> of a stack that is empty, and tests it.\<close>

definition mark_lifo :: "'e pike_queue \<Rightarrow> 'e pike_queue result" where
  "mark_lifo q =
     (if q_first q = 0 then Inr (q\<lparr>q_last := lifo_mark\<rparr>)
      else if q_last q \<noteq> lifo_mark then Inl Fatal else Inr q)"

definition enqueue_lifo :: "'e \<Rightarrow> 'e pike_queue \<Rightarrow> 'e pike_queue result" where
  "enqueue_lifo e q =
     bind_result (mark_lifo q) (\<lambda>q.
     bind_result (needs_block (q_first q) q) (\<lambda>new.
       if new then
         (let (q, b) = alloc_block (q_first q) q in push_entry e b (q\<lparr>q_first := b\<rparr>))
       else push_entry e (q_first q) q))"

definition check_lifo :: "'e pike_queue \<Rightarrow> unit result" where
  "check_lifo q = (if q_first q \<noteq> 0 \<and> q_last q \<noteq> lifo_mark then Inl Fatal else Inr ())"

text \<open>\<open>--b->used\<close>.\<close>

definition pop_entry :: "nat \<Rightarrow> 'e queue_block \<Rightarrow> 'e pike_queue \<Rightarrow> 'e pike_queue" where
  "pop_entry b x q = put_block b (x\<lparr>entries := butlast (entries x)\<rparr>) q"

partial_function (option) run_lifo_loop ::
  "('e, 's) calls \<Rightarrow> 'e pike_queue \<Rightarrow> 's \<Rightarrow> ('e pike_queue \<times> 's) result option" where
  "run_lifo_loop call q s =
     (if q_first q = 0 then Some (Inr (q, s))
      else case get_block q (q_first q) of
        Inl err \<Rightarrow> Some (Inl err)
      | Inr x \<Rightarrow>
          if entries x \<noteq> [] then
            (let (s', new) = call (last (entries x)) s in
             case fold_result enqueue_lifo new (pop_entry (q_first q) x q) of
               Inl err \<Rightarrow> Some (Inl err)
             | Inr q' \<Rightarrow> run_lifo_loop call q' s')
          else run_lifo_loop call (free_block (q_first q) (q\<lparr>q_first := next_block x\<rparr>)) s)"

definition run_lifo_queue :: "('e, 's) calls \<Rightarrow> 'e pike_queue \<Rightarrow> 's \<Rightarrow> ('e pike_queue \<times> 's) result option" where
  "run_lifo_queue call q s =
     (case check_lifo q of Inl err \<Rightarrow> Some (Inl err) | Inr _ \<Rightarrow> run_lifo_loop call q s)"

text \<open>\<open>match\<close>: the entries whose call is the one asked for. Other entries are dropped on the way.\<close>

partial_function (option) dequeue_lifo_loop ::
  "('e \<Rightarrow> bool) \<Rightarrow> 'e pike_queue \<Rightarrow> ('e pike_queue \<times> 'e option) result option" where
  "dequeue_lifo_loop match q =
     (if q_first q = 0 then Some (Inr (q, None))
      else case get_block q (q_first q) of
        Inl err \<Rightarrow> Some (Inl err)
      | Inr x \<Rightarrow>
          if entries x \<noteq> [] then
            (let e = last (entries x); q = pop_entry (q_first q) x q in
             if match e then Some (Inr (q, Some e)) else dequeue_lifo_loop match q)
          else dequeue_lifo_loop match (free_block (q_first q) (q\<lparr>q_first := next_block x\<rparr>)))"

definition dequeue_lifo :: "('e \<Rightarrow> bool) \<Rightarrow> 'e pike_queue \<Rightarrow> ('e pike_queue \<times> 'e option) result option" where
  "dequeue_lifo match q =
     (case check_lifo q of Inl err \<Rightarrow> Some (Inl err) | Inr _ \<Rightarrow> dequeue_lifo_loop match q)"

section \<open>The chain of blocks\<close>

fun chain :: "(nat \<Rightarrow> 'e queue_block option) \<Rightarrow> nat \<Rightarrow> nat list \<Rightarrow> bool" where
  "chain bs a [] \<longleftrightarrow> a = 0"
| "chain bs a (x # xs) \<longleftrightarrow> a = x \<and> x \<noteq> 0 \<and> (\<exists>b. bs x = Some b \<and> chain bs (next_block b) xs)"

definition block_entries :: "'e pike_queue \<Rightarrow> nat \<Rightarrow> 'e list" where
  "block_entries q a = (case blocks q a of None \<Rightarrow> [] | Some b \<Rightarrow> entries b)"

text \<open>The blocks from the first one are all the blocks there are: none is lost.\<close>

definition chained :: "'e pike_queue \<Rightarrow> nat list \<Rightarrow> bool" where
  "chained q as \<longleftrightarrow> chain (blocks q) (q_first q) as \<and> distinct as \<and> dom (blocks q) = set as \<and>
     (\<forall>a \<in> set as. a < fresh q) \<and> 1 < fresh q"

lemma chain_cong:
  "(\<And>x. x \<in> set as \<Longrightarrow> bs' x = bs x) \<Longrightarrow> chain bs' a as = chain bs a as"
  by (induction as arbitrary: a) auto

lemma chain_last:
  "as \<noteq> [] \<Longrightarrow> distinct as \<Longrightarrow> chain bs a as \<Longrightarrow> bs n = Some b \<Longrightarrow> next_block b = 0 \<Longrightarrow> n \<noteq> 0 \<Longrightarrow> n \<notin> set as \<Longrightarrow>
    chain (bs(last as \<mapsto> (the (bs (last as)))\<lparr>next_block := n\<rparr>)) a (as @ [n])"
proof (induction as arbitrary: a)
  case (Cons x xs)
  show ?case
  proof (cases "xs = []")
    case True
    then show ?thesis
      using Cons.prems by auto
  next
    case False
    have "last xs \<noteq> x"
      using False Cons.prems(2) last_in_set by force
    moreover obtain bx where "bs x = Some bx" "chain bs (next_block bx) xs"
      using Cons.prems(3) by auto
    ultimately show ?thesis
      using Cons.IH [OF False _ _ Cons.prems(4)] Cons.prems False by auto
  qed
qed simp

lemma chain_blocks: "chain bs a as \<Longrightarrow> x \<in> set as \<Longrightarrow> \<exists>b. bs x = Some b \<and> x \<noteq> 0"
  by (induction as arbitrary: a) auto

lemma chained_block:
  assumes "chained q as" "x \<in> set as"
  shows "\<exists>b. blocks q x = Some b" "x \<noteq> 0"
  using assms chain_blocks [of "blocks q" "q_first q" as x] by (auto simp: chained_def)

lemma chained_first: "chained q as \<Longrightarrow> q_first q = 0 \<longleftrightarrow> as = []"
  by (cases as) (auto simp: chained_def)

lemma chained_unique:
  assumes "chained q as" "chained q as'"
  shows "as = as'"
proof -
  have "chain bs a as \<Longrightarrow> chain bs a as' \<Longrightarrow> as = as'" for bs :: "nat \<Rightarrow> 'a queue_block option" and a
  proof (induction as arbitrary: a as')
    case Nil
    then show ?case
      by (cases as') auto
  next
    case (Cons x xs)
    then show ?case
      by (cases as') auto
  qed
  then show ?thesis
    using assms by (auto simp: chained_def)
qed

text \<open>The first block is freed.\<close>

lemma chained_free:
  assumes "chained q (a # as)" "blocks q a = Some x"
  shows "chained (free_block (q_first q) (q\<lparr>q_first := next_block x\<rparr>)) as"
    "b \<in> set as \<Longrightarrow> block_entries (free_block (q_first q) (q\<lparr>q_first := next_block x\<rparr>)) b = block_entries q b"
proof -
  have c: "q_first q = a" "a \<notin> set as" "chain (blocks q) (next_block x) as"
    using assms by (auto simp: chained_def)
  have "chain ((blocks q)(a := None)) (next_block x) as = chain (blocks q) (next_block x) as"
    by (rule chain_cong) (use c(2) in auto)
  then show "chained (free_block (q_first q) (q\<lparr>q_first := next_block x\<rparr>)) as"
    using assms(1) c by (auto simp: chained_def free_block_def)
  show "block_entries (free_block (q_first q) (q\<lparr>q_first := next_block x\<rparr>)) b = block_entries q b" if "b \<in> set as"
    using c(1,2) that by (auto simp: block_entries_def free_block_def)
qed

text \<open>The entries of a block are replaced.\<close>

lemma chained_put:
  assumes "chained q as" "blocks q a = Some x" "next_block x' = next_block x"
  shows "chained (put_block a x' q) as"
    "block_entries (put_block a x' q) b = (if b = a then entries x' else block_entries q b)"
proof -
  have "chain ((blocks q)(a \<mapsto> x')) c as = chain (blocks q) c as" for c
    using assms(2,3) by (induction as arbitrary: c) auto
  then show "chained (put_block a x' q) as"
    using assms(1,2) by (auto simp: chained_def put_block_def)
  show "block_entries (put_block a x' q) b = (if b = a then entries x' else block_entries q b)"
    by (simp add: block_entries_def put_block_def)
qed

section \<open>Queues of calls\<close>

text \<open>What running a queue relies on: putting an entry in it always succeeds and adds it to the list
  of calls to make, at the place \<open>ins\<close> says.\<close>

locale call_queue =
  fixes rep :: "'q \<Rightarrow> 'e list \<Rightarrow> bool" and put :: "'e \<Rightarrow> 'q \<Rightarrow> 'q result" and ins :: "'e list \<Rightarrow> 'e list \<Rightarrow> 'e list"
  assumes put: "rep q xs \<Longrightarrow> \<exists>q'. put e q = Inr q' \<and> rep q' (ins [e] xs)"
    and ins_nil: "ins [] xs = xs"
    and ins_cons: "ins (e # es) xs = ins es (ins [e] xs)"
begin

lemma put_all: "rep q xs \<Longrightarrow> \<exists>q'. fold_result put es q = Inr q' \<and> rep q' (ins es xs)"
proof (induction es arbitrary: q xs)
  case Nil
  then show ?case
    by (simp add: ins_nil)
next
  case (Cons e es)
  obtain q1 where 1: "put e q = Inr q1" "rep q1 (ins [e] xs)"
    using put [OF Cons.prems] by blast
  then show ?case
    using Cons.IH [OF 1(2)] ins_cons [of e es xs] by auto
qed

end

text \<open>A queue with the calls \<open>xs\<close> to make, the first block being run up to \<open>i\<close>.\<close>

definition fifo_at :: "nat \<Rightarrow> 'e pike_queue \<Rightarrow> 'e list \<Rightarrow> bool" where
  "fifo_at i q xs \<longleftrightarrow> (\<exists>as. chained q as \<and> q_last q = (if as = [] then 0 else last as) \<and>
     (\<forall>a \<in> set as. block_entries q a \<noteq> []) \<and> (as \<noteq> [] \<longrightarrow> next_block (the (blocks q (last as))) = 0) \<and>
     i \<le> (if as = [] then 0 else length (block_entries q (hd as))) \<and>
     xs = drop i (concat (map (block_entries q) as)))"

lemma needs_block_room: "needs_block b q = Inr False \<Longrightarrow> length (block_entries q b) < queue_entries"
  by (auto simp: needs_block_def get_block_def block_entries_def split: if_splits option.splits)

lemma push_entry_ok:
  assumes "chained q as" "b \<in> set as" "length (block_entries q b) < queue_entries"
  shows "\<exists>q'. push_entry e b q = Inr q' \<and> chained q' as \<and> q_last q' = q_last q \<and> q_first q' = q_first q \<and>
    (\<forall>a. block_entries q' a = block_entries q a @ (if a = b then [e] else [])) \<and>
    (\<forall>a. next_block (the (blocks q' a)) = next_block (the (blocks q a)))"
proof -
  obtain x where x: "blocks q b = Some x"
    using chained_block [OF assms(1,2)] by blast
  have "push_entry e b q = Inr (put_block b (x\<lparr>entries := entries x @ [e]\<rparr>) q)"
    using assms(3) by (simp add: push_entry_def get_block_def block_entries_def x)
  moreover have "block_entries q b = entries x"
    by (simp add: block_entries_def x)
  ultimately show ?thesis
    using chained_put [OF assms(1) x, of "x\<lparr>entries := entries x @ [e]\<rparr>"] x by (auto simp: put_block_def)
qed

lemma concat_last:
  assumes "as \<noteq> []" "distinct as" "\<And>a. f' a = f a @ (if a = last as then ys else [])"
  shows "concat (map f' as) = concat (map f as) @ ys"
proof -
  obtain bs b where as: "as = bs @ [b]"
    using assms(1) by (metis append_butlast_last_id)
  then have "\<forall>a \<in> set bs. f' a = f a" "f' b = f b @ ys"
    using assms(2,3) by auto
  then have m: "map f' bs = map f bs"
    by auto
  show ?thesis
    unfolding as map_append m
    using \<open>f' b = f b @ ys\<close> by simp
qed

lemma enqueue_ok:
  assumes "fifo_at i q xs"
  shows "\<exists>q'. enqueue e q = Inr q' \<and> fifo_at i q' (xs @ [e])"
proof -
  obtain as where c: "chained q as" "q_last q = (if as = [] then 0 else last as)"
    "\<forall>a \<in> set as. block_entries q a \<noteq> []" "as \<noteq> [] \<longrightarrow> next_block (the (blocks q (last as))) = 0"
    "i \<le> (if as = [] then 0 else length (block_entries q (hd as)))" "xs = drop i (concat (map (block_entries q) as))"
    using assms unfolding fifo_at_def by blast
  have le: "i \<le> length (concat (map (block_entries q) as))"
    using c(5) by (cases as) auto
  have nz: "last as \<noteq> 0" if "as \<noteq> []"
    using chained_block(2) [OF c(1) last_in_set [OF that]] .
  have bl: "\<exists>x. blocks q (last as) = Some x" if "as \<noteq> []"
    using chained_block(1) [OF c(1) last_in_set [OF that]] .
  obtain n where n: "needs_block (q_last q) q = Inr n" "as = [] \<Longrightarrow> n"
    using c(2) nz bl by (cases "as = []") (auto simp: needs_block_def get_block_def)
  show ?thesis
  proof (cases n)
    case False
    then have ne: "as \<noteq> []"
      using n(2) by blast
    have r: "length (block_entries q (last as)) < queue_entries"
      by (rule needs_block_room) (use n(1) False c(2) ne in simp)
    obtain q' where q': "push_entry e (last as) q = Inr q'" "chained q' as" "q_last q' = q_last q"
      "\<forall>a. block_entries q' a = block_entries q a @ (if a = last as then [e] else [])"
      "\<forall>a. next_block (the (blocks q' a)) = next_block (the (blocks q a))"
      using push_entry_ok [OF c(1) last_in_set [OF ne] r] by metis
    have "concat (map (block_entries q') as) = concat (map (block_entries q) as) @ [e]"
      using concat_last [OF ne, of "block_entries q'" "block_entries q" "[e]"] c(1) q'(4) by (auto simp: chained_def)
    then have "fifo_at i q' (xs @ [e])"
      unfolding fifo_at_def using c q' ne le by (intro exI [of _ as]) auto
    then show ?thesis
      using n(1) False c(2) q'(1) ne by (simp add: enqueue_def)
  next
    case True
    define b where "b = fresh q"
    have b: "b \<notin> set as" "b \<noteq> 0" "blocks q b = None"
      using c(1) by (auto simp: chained_def b_def)
    define q1 where "q1 = (put_block b \<lparr>next_block = 0, entries = []\<rparr> q)\<lparr>fresh := b + 1\<rparr>"
    define q2 where "q2 = (if as = [] then q1\<lparr>q_first := b\<rparr> else
      put_block (last as) ((the (blocks q (last as)))\<lparr>next_block := b\<rparr>) q1)\<lparr>q_last := b\<rparr>"
    have lb: "blocks q1 (last as) = blocks q (last as)" "\<exists>x. blocks q (last as) = Some x" if "as \<noteq> []"
      using that b(1) last_in_set [OF that] bl by (auto simp: q1_def put_block_def)
    have al: "alloc_block 0 q = (q1, b)"
      by (simp add: alloc_block_def q1_def b_def)
    have s: "enqueue e q = push_entry e b q2"
    proof (cases "as = []")
      case True
      then have "q_first q1 = 0"
        using chained_first [OF c(1)] by (simp add: q1_def put_block_def)
      then show ?thesis
        using \<open>n\<close> True n(1) by (simp add: enqueue_def al q2_def)
    next
      case False
      then have "q_first q1 \<noteq> 0" "q_last q1 = last as"
        using chained_first [OF c(1)] c(2) by (simp_all add: q1_def put_block_def)
      then show ?thesis
        using \<open>n\<close> False n(1) lb [OF False]
        by (auto simp: enqueue_def al q2_def get_block_def)
    qed
    have ch: "chained q2 (as @ [b])"
    proof (cases "as = []")
      case True
      then show ?thesis
        using c(1) b by (auto simp: chained_def q2_def q1_def put_block_def)
    next
      case False
      have "chain (blocks q1) (q_first q) as"
        using chain_cong [of as "blocks q1" "blocks q"] b(1) c(1) by (force simp: chained_def q1_def put_block_def)
      then have "chain ((blocks q1)(last as \<mapsto> (the (blocks q1 (last as)))\<lparr>next_block := b\<rparr>)) (q_first q) (as @ [b])"
        using chain_last [OF False, of "blocks q1" "q_first q" b] c(1) b by (simp add: chained_def q1_def put_block_def)
      then show ?thesis
        using c(1) b False last_in_set [OF False] lb(1) [OF False]
        by (auto simp: chained_def q2_def q1_def put_block_def b_def)
    qed
    have en: "block_entries q2 a = (if a = b then [] else block_entries q a)" for a
      using lb b by (auto simp: block_entries_def q2_def q1_def put_block_def)
    obtain q' where q': "push_entry e b q2 = Inr q'" "chained q' (as @ [b])" "q_last q' = q_last q2"
      "\<forall>a. block_entries q' a = block_entries q2 a @ (if a = b then [e] else [])"
      "\<forall>a. next_block (the (blocks q' a)) = next_block (the (blocks q2 a))"
      using push_entry_ok [OF ch, of b e] en [of b] by (auto simp: queue_entries_def simp del: if_split)
    have same: "block_entries q' a = block_entries q a" if "a \<in> set as" for a
      using spec [OF q'(4), of a] en [of a] that b(1) by (cases "a = b") simp_all
    then have "concat (map (block_entries q') (as @ [b])) = concat (map (block_entries q) as) @ [e]"
      using q'(4) en by (simp cong: map_cong)
    moreover have "next_block (the (blocks q2 b)) = 0"
      using b(1) last_in_set [of as] by (auto simp: q2_def q1_def put_block_def)
    moreover have "i \<le> length (block_entries q' (hd (as @ [b])))"
      using c(5) same by (cases as) auto
    moreover have "\<forall>a \<in> set (as @ [b]). block_entries q' a \<noteq> []"
      using spec [OF q'(4), of b] same c(3) by auto
    ultimately have "fifo_at i q' (xs @ [e])"
      unfolding fifo_at_def using c(6) q'(2,3,5) le by (intro exI [of _ "as @ [b]"]) (auto simp: q2_def)
    then show ?thesis
      using s q'(1) by auto
  qed
qed

interpretation fifo: call_queue "fifo_at i" enqueue "\<lambda>new xs. xs @ new" for i
  by unfold_locales (use enqueue_ok in auto)

section \<open>Running a queue\<close>

text \<open>The calls in the order they are made: \<open>ins\<close> puts the calls a call asks for among those left.\<close>

partial_function (option) work ::
  "('e list \<Rightarrow> 'e list \<Rightarrow> 'e list) \<Rightarrow> ('e, 's) calls \<Rightarrow> 'e list \<Rightarrow> 's \<Rightarrow> 's option" where
  "work ins call xs s =
     (case xs of [] \<Rightarrow> Some s
      | e # es \<Rightarrow> (let (s', new) = call e s in work ins call (ins new es) s'))"

text \<open>A queue that was run to its end: no block is left.\<close>

definition emptied :: "'e pike_queue \<Rightarrow> bool" where
  "emptied q \<longleftrightarrow> q_first q = 0 \<and> (\<forall>a. blocks q a = None)"

text \<open>The three cases of the loop: no block, a call of the block being run, the end of that block.\<close>

lemma fifo_none:
  assumes "fifo_at i q xs" "q_first q = 0"
  shows "xs = [] \<and> emptied q"
proof -
  obtain as where as: "chained q as" "xs = drop i (concat (map (block_entries q) as))"
    using assms(1) unfolding fifo_at_def by blast
  then have "as = []"
    using chained_first assms(2) by blast
  then show ?thesis
    using as assms(2) by (simp add: chained_def emptied_def)
qed

lemma fifo_block:
  assumes "fifo_at i q xs" "q_first q \<noteq> 0"
  shows "\<exists>x. blocks q (q_first q) = Some x \<and> entries x \<noteq> []"
proof -
  obtain as where as: "chained q as" "\<forall>a \<in> set as. block_entries q a \<noteq> []"
    using assms(1) unfolding fifo_at_def by blast
  then obtain a as' where "as = a # as'" "a = q_first q"
    using assms(2) by (cases as) (auto simp: chained_def)
  then show ?thesis
    using as chained_block [OF as(1), of a] by (auto simp: block_entries_def)
qed

lemma fifo_here:
  assumes "fifo_at i q xs" "blocks q (q_first q) = Some x" "q_first q \<noteq> 0" "i < length (entries x)"
  shows "\<exists>es. xs = entries x ! i # es \<and>
    (\<exists>q'. fold_result enqueue new q = Inr q' \<and> fifo_at (i + 1) q' (es @ new))"
proof -
  obtain as where c: "chained q as" "q_last q = (if as = [] then 0 else last as)"
    "\<forall>a \<in> set as. block_entries q a \<noteq> []" "as \<noteq> [] \<longrightarrow> next_block (the (blocks q (last as))) = 0"
    "xs = drop i (concat (map (block_entries q) as))"
    using assms(1) unfolding fifo_at_def by blast
  obtain a as' where as: "as = a # as'" "a = q_first q"
    using c(1) assms(3) by (cases as) (auto simp: chained_def)
  have d: "drop i (concat (map (block_entries q) as)) = drop i (entries x) @ concat (map (block_entries q) as')"
    using assms as by (simp add: block_entries_def)
  have "drop i (entries x) = entries x ! i # drop (i + 1) (entries x)"
    using assms(4) by (simp add: Cons_nth_drop_Suc)
  then obtain es where es: "xs = entries x ! i # es"
    using c(5) d by simp
  then have "es = drop (i + 1) (concat (map (block_entries q) as))"
    using arg_cong [OF c(5), of tl] by (simp add: tl_drop drop_Suc)
  then have "fifo_at (i + 1) q es"
    unfolding fifo_at_def using c(1-4) assms as by (intro exI [of _ as]) (auto simp: block_entries_def)
  then show ?thesis
    using fifo.put_all es by blast
qed

lemma fifo_next:
  assumes "fifo_at i q xs" "blocks q (q_first q) = Some x" "q_first q \<noteq> 0" "\<not> i < length (entries x)"
    "q1 = free_block (q_first q) (q\<lparr>q_first := next_block x\<rparr>)"
  shows "if xs = [] then q_first q1 = 0 \<and> emptied q1 else fifo_at 0 q1 xs \<and> q_first q1 \<noteq> 0"
proof -
  obtain as where c: "chained q as" "q_last q = (if as = [] then 0 else last as)"
    "\<forall>a \<in> set as. block_entries q a \<noteq> []" "as \<noteq> [] \<longrightarrow> next_block (the (blocks q (last as))) = 0"
    "i \<le> (if as = [] then 0 else length (block_entries q (hd as)))" "xs = drop i (concat (map (block_entries q) as))"
    using assms(1) unfolding fifo_at_def by blast
  obtain a as' where as: "as = a # as'" "a = q_first q"
    using c(1) assms(3) by (cases as) (auto simp: chained_def)
  have i: "i = length (entries x)"
    using c(5) as assms(2,4) by (simp add: block_entries_def)
  have ch: "chained q1 as'" "\<forall>b \<in> set as'. block_entries q1 b = block_entries q b"
    using chained_free [of q a as' x] c(1) as assms(2,5) by simp_all
  have xs: "xs = concat (map (block_entries q1) as')"
    using c(6) i as assms(2) ch(2) by (simp add: block_entries_def [of q "q_first q"] cong: map_cong)
  have ne: "\<forall>b \<in> set as'. block_entries q1 b \<noteq> []"
    using ch(2) c(3) as by simp
  show ?thesis
  proof (cases as')
    case Nil
    then show ?thesis
      using xs ch(1) by (auto simp: chained_def emptied_def)
  next
    case (Cons b as'')
    then have "xs \<noteq> []" "q_first q1 \<noteq> 0"
      using xs ne chained_first [OF ch(1)] by auto
    moreover have "last as' \<noteq> a"
      using c(1) as Cons last_in_set [of as'] by (auto simp: chained_def)
    then have "next_block (the (blocks q1 (last as'))) = 0"
      using c(4) as Cons assms(5) by (simp add: free_block_def)
    then have "fifo_at 0 q1 xs"
      unfolding fifo_at_def using xs ch(1) ne c(2) as Cons assms(5) by (intro exI [of _ as']) (auto simp: free_block_def)
    ultimately show ?thesis
      by simp
  qed
qed

text \<open>The loop in each of these cases.\<close>

lemma run_loop_cases:
  "q_first q = 0 \<Longrightarrow> run_loop call i q s = Some (Inr (q\<lparr>q_last := 0\<rparr>, s))"
  "blocks q (q_first q) = Some x \<Longrightarrow> q_first q \<noteq> 0 \<Longrightarrow> i < length (entries x) \<Longrightarrow> call (entries x ! i) s = (s', new) \<Longrightarrow>
    fold_result enqueue new q = Inr q' \<Longrightarrow> run_loop call i q s = run_loop call (i + 1) q' s'"
  "blocks q (q_first q) = Some x \<Longrightarrow> q_first q \<noteq> 0 \<Longrightarrow> \<not> i < length (entries x) \<Longrightarrow>
    run_loop call i q s = run_loop call 0 (free_block (q_first q) (q\<lparr>q_first := next_block x\<rparr>)) s"
  by (subst run_loop.simps; simp add: get_block_def)+

definition finishes :: "('e pike_queue \<times> 's) result option \<Rightarrow> 's \<Rightarrow> bool" where
  "finishes y r \<longleftrightarrow> (\<exists>q. y = Some (Inr (q, r)) \<and> emptied q \<and> q_last q = 0)"

lemma run_loop_empty:
  assumes "fifo_at i q []"
  shows "finishes (run_loop call i q s) s"
proof (cases "q_first q = 0")
  case True
  then show ?thesis
    using fifo_none [OF assms] by (auto simp: run_loop_cases finishes_def emptied_def)
next
  case False
  then obtain x where x: "blocks q (q_first q) = Some x"
    using fifo_block [OF assms] by blast
  have "\<not> i < length (entries x)"
    using fifo_here [OF assms x False] by blast
  then show ?thesis
    using fifo_next [OF assms x False _ refl] run_loop_cases(3) [OF x False, of i call s]
    by (auto simp: run_loop_cases(1) finishes_def emptied_def)
qed

lemma run_loop_call:
  assumes "fifo_at i q (e # es)" "call e s = (s', new)"
  shows "\<exists>j q'. run_loop call i q s = run_loop call j q' s' \<and> fifo_at j q' (es @ new)"
proof -
  have nz: "q_first q \<noteq> 0"
    using fifo_none [OF assms(1)] by blast
  then obtain x where x: "blocks q (q_first q) = Some x"
    using fifo_block [OF assms(1)] by blast
  have here: "\<exists>j q'. run_loop call i q s = run_loop call j q' s' \<and> fifo_at j q' (es @ new)"
    if f: "fifo_at i q (e # es)" "blocks q (q_first q) = Some x" "q_first q \<noteq> 0" "i < length (entries x)" for i q x
  proof -
    obtain q' where "e = entries x ! i" "fold_result enqueue new q = Inr q'" "fifo_at (i + 1) q' (es @ new)"
      using fifo_here [OF f, of new] by auto
    then show ?thesis
      using run_loop_cases(2) [OF f(2-4), of call s s' new q'] assms(2) by auto
  qed
  show ?thesis
  proof (cases "i < length (entries x)")
    case True
    then show ?thesis
      using here [OF assms(1) x nz] by blast
  next
    case False
    define q1 where "q1 = free_block (q_first q) (q\<lparr>q_first := next_block x\<rparr>)"
    have 1: "fifo_at 0 q1 (e # es)" "q_first q1 \<noteq> 0"
      using fifo_next [OF assms(1) x nz False q1_def] by simp_all
    then obtain y where y: "blocks q1 (q_first q1) = Some y" "entries y \<noteq> []"
      using fifo_block by blast
    show ?thesis
      using here [OF 1(1) y(1) 1(2)] y(2) run_loop_cases(3) [OF x nz False, of call s] by (simp add: q1_def)
  qed
qed

abbreviation fifo_work :: "('e, 's) calls \<Rightarrow> 'e list \<Rightarrow> 's \<Rightarrow> 's option" where
  "fifo_work \<equiv> work (\<lambda>new xs. xs @ new)"

lemma work_Nil [simp]: "work ins call [] s = Some s"
  by (subst work.simps) simp

lemma work_Cons: "call e s = (s', new) \<Longrightarrow> work ins call (e # es) s = work ins call (ins new es) s'"
  by (subst work.simps) simp

text \<open>If the calls come to an end, so does the loop, with the same state; and only then.\<close>

lemma work_runs:
  assumes "fifo_work call xs s = Some r" "fifo_at i q xs"
  shows "finishes (run_loop call i q s) r"
proof -
  have "work ins call xs s = Some r \<Longrightarrow> ins = (\<lambda>new xs. xs @ new) \<Longrightarrow> fifo_at i q xs \<Longrightarrow>
      finishes (run_loop call i q s) r" for ins
  proof (induction ins call xs s r arbitrary: i q rule: work.raw_induct [rotated, consumes 1])
    case (1 work' ins call xs s r)
    show ?case
    proof (cases xs)
      case Nil
      then show ?thesis
        using 1(2,4) run_loop_empty [of i q call s] by simp
    next
      case (Cons e es)
      obtain s' new where c: "call e s = (s', new)"
        by fastforce
      obtain j q' where "run_loop call i q s = run_loop call j q' s'" "fifo_at j q' (es @ new)"
        using run_loop_call [of i q e es call s s' new] c 1(4) Cons by blast
      then show ?thesis
        using 1(1) [of ins call "es @ new" s' r] 1(2,3) Cons c by simp
    qed
  qed
  then show ?thesis
    using assms by blast
qed

lemma runs_work:
  assumes "run_loop call i q s = Some y" "fifo_at i q xs"
  shows "\<exists>r. fifo_work call xs s = Some r"
  using assms
proof (induction call i q s y arbitrary: xs rule: run_loop.raw_induct [rotated, consumes 1])
  case (1 run call i q s y)
  show ?case
  proof (cases "q_first q = 0")
    case True
    then show ?thesis
      using fifo_none [OF 1(3)] by simp
  next
    case False
    then obtain x where x: "blocks q (q_first q) = Some x"
      using fifo_block [OF 1(3)] by blast
    show ?thesis
    proof (cases "i < length (entries x)")
      case True
      obtain s' new where c: "call (entries x ! i) s = (s', new)"
        by fastforce
      obtain es q' where "xs = entries x ! i # es" "fold_result enqueue new q = Inr q'" "fifo_at (i + 1) q' (es @ new)"
        using fifo_here [OF 1(3) x False True, of new] by blast
      then show ?thesis
        using 1(1) [of call "i + 1" q' s' y "es @ new"] 1(2) False x True c by (simp add: get_block_def work_Cons)
    next
      case end': False
      show ?thesis
      proof (cases "xs = []")
        case False
        then have "fifo_at 0 (free_block (q_first q) (q\<lparr>q_first := next_block x\<rparr>)) xs"
          using fifo_next [OF 1(3) x \<open>q_first q \<noteq> 0\<close> end' refl] by simp
        then show ?thesis
          using 1(1) 1(2) \<open>q_first q \<noteq> 0\<close> x end' by (simp add: get_block_def)
      qed simp
    qed
  qed
qed

text \<open>Calls that only ask for smaller calls come to an end.\<close>

lemma work_terminates:
  assumes "wf R" "\<And>e s e'. e' \<in> set (snd (call e s)) \<Longrightarrow> (e', e) \<in> R" "\<And>new xs. mset (ins new xs) = mset new + mset xs"
  shows "\<exists>r. work ins call xs s = Some r"
proof -
  have "trans (R\<^sup>+)"
    by simp
  have "wf (mult (R\<^sup>+))"
    using assms(1) by (simp add: wf_mult wf_trancl)
  then show ?thesis
  proof (induction "mset xs" arbitrary: xs s rule: wf_induct_rule)
    case less
    show ?case
    proof (cases xs)
      case (Cons e es)
      obtain s' new where c: "call e s = (s', new)"
        by fastforce
      have "\<forall>e' \<in># mset new. (e', e) \<in> R\<^sup>+"
        using assms(2) [of _ e s] c by auto
      then have "(mset (ins new es), mset xs) \<in> mult (R\<^sup>+)"
        using one_step_implies_mult [of "{#e#}" "mset new" "R\<^sup>+" "mset es"] Cons assms(3)
        by (simp add: union_commute)
      then show ?thesis
        using less [of "ins new es" s'] Cons c by (simp add: work_Cons)
    qed simp
  qed
qed

section \<open>Stacks of calls\<close>

definition lifo :: "'e pike_queue \<Rightarrow> 'e list \<Rightarrow> bool" where
  "lifo q xs \<longleftrightarrow> (\<exists>as. chained q as \<and> (as \<noteq> [] \<longrightarrow> q_last q = lifo_mark) \<and>
     xs = concat (map (\<lambda>a. rev (block_entries q a)) as))"

lemma enqueue_lifo_ok:
  assumes "lifo q xs"
  shows "\<exists>q'. enqueue_lifo e q = Inr q' \<and> lifo q' (e # xs)"
proof -
  obtain as where c: "chained q as" "as \<noteq> [] \<longrightarrow> q_last q = lifo_mark" "xs = concat (map (\<lambda>a. rev (block_entries q a)) as)"
    using assms unfolding lifo_def by blast
  define q0 where "q0 = q\<lparr>q_last := lifo_mark\<rparr>"
  have m: "mark_lifo q = Inr q0"
    using c(2) chained_first [OF c(1)] by (auto simp: mark_lifo_def q0_def)
  have c0: "chained q0 as" "block_entries q0 = block_entries q"
    using c(1) by (auto simp: chained_def q0_def block_entries_def)
  have f: "q_first q0 = (if as = [] then 0 else hd as)"
    using c0(1) by (cases as) (auto simp: chained_def)
  have top: "\<exists>q'. push_entry e a q1 = Inr q' \<and> lifo q' (e # concat (map (\<lambda>a. rev (block_entries q1 a)) (a # bs)))"
    if a: "chained q1 (a # bs)" "q_last q1 = lifo_mark" "length (block_entries q1 a) < queue_entries" for q1 a bs
  proof -
    obtain q' where q': "push_entry e a q1 = Inr q'" "chained q' (a # bs)" "q_last q' = q_last q1"
      "\<forall>b. block_entries q' b = block_entries q1 b @ (if b = a then [e] else [])"
      using push_entry_ok [OF a(1) _ a(3), of e] by (auto simp del: if_split)
    have "a \<notin> set bs"
      using a(1) by (simp add: chained_def)
    then have m: "map (\<lambda>a. rev (block_entries q' a)) bs = map (\<lambda>a. rev (block_entries q1 a)) bs"
      using q'(4) by auto
    have "concat (map (\<lambda>a. rev (block_entries q' a)) (a # bs)) = e # concat (map (\<lambda>a. rev (block_entries q1 a)) (a # bs))"
      unfolding list.map concat.simps m using spec [OF q'(4), of a] by simp
    then show ?thesis
      using q'(1-3) a(2) unfolding lifo_def by metis
  qed
  have nb: "\<exists>new. needs_block (q_first q0) q0 = Inr new \<and> (as = [] \<longrightarrow> new)"
    using f chained_block [OF c0(1), of "hd as"] by (cases "as = []") (auto simp: needs_block_def get_block_def)
  then obtain new where new: "needs_block (q_first q0) q0 = Inr new" "as = [] \<longrightarrow> new"
    by blast
  show ?thesis
  proof (cases new)
    case False
    then obtain a bs where as: "as = a # bs"
      using new(2) by (cases as) auto
    have l: "q_last q0 = lifo_mark"
      by (simp add: q0_def)
    obtain q' where "push_entry e a q0 = Inr q'" "lifo q' (e # concat (map (\<lambda>a. rev (block_entries q0 a)) (a # bs)))"
      using top [of q0 a bs] c0(1) as l needs_block_room [of a q0] new(1) False f by auto
    then show ?thesis
      using m new False f as c(3) c0(2) by (simp add: enqueue_lifo_def)
  next
    case True
    define b where "b = fresh q0"
    define q1 where "q1 = (put_block b \<lparr>next_block = q_first q0, entries = []\<rparr> q0)\<lparr>fresh := b + 1\<rparr>"
    have al: "alloc_block (q_first q0) q0 = (q1, b)"
      by (simp add: alloc_block_def q1_def b_def)
    have b: "b \<notin> set as" "b \<noteq> 0" "blocks q0 b = None"
      using c0(1) by (auto simp: chained_def b_def)
    have "chain (blocks q1) (q_first q0) as"
      using chain_cong [of as "blocks q1" "blocks q0"] b(1) c0(1) by (force simp: chained_def q1_def put_block_def)
    then have ch: "chained (q1\<lparr>q_first := b\<rparr>) (b # as)"
      using c0(1) b by (auto simp: chained_def q1_def put_block_def b_def)
    have en: "block_entries (q1\<lparr>q_first := b\<rparr>) a = (if a = b then [] else block_entries q a)" for a
      using b by (auto simp: block_entries_def q1_def put_block_def q0_def)
    then have "concat (map (\<lambda>a. rev (block_entries (q1\<lparr>q_first := b\<rparr>) a)) (b # as)) = xs"
      using b(1) c(3) by (auto intro!: arg_cong [where f = concat] map_cong)
    then obtain q' where "push_entry e b (q1\<lparr>q_first := b\<rparr>) = Inr q'" "lifo q' (e # xs)"
      using top [OF ch] en [of b] by (auto simp: q1_def put_block_def q0_def queue_entries_def)
    then show ?thesis
      using m new True al by (simp add: enqueue_lifo_def)
  qed
qed

interpretation lifo: call_queue lifo enqueue_lifo "\<lambda>new xs. rev new @ xs"
  by unfold_locales (use enqueue_lifo_ok in auto)

lemma lifo_none:
  assumes "lifo q xs" "q_first q = 0"
  shows "xs = [] \<and> emptied q"
proof -
  obtain as where as: "chained q as" "xs = concat (map (\<lambda>a. rev (block_entries q a)) as)"
    using assms(1) unfolding lifo_def by blast
  then have "as = []"
    using chained_first assms(2) by blast
  then show ?thesis
    using as assms(2) by (simp add: chained_def emptied_def)
qed

lemma lifo_first:
  assumes "lifo q xs" "q_first q \<noteq> 0"
  shows "\<exists>x as. blocks q (q_first q) = Some x \<and> chained q (q_first q # as) \<and> q_last q = lifo_mark \<and>
    xs = rev (entries x) @ concat (map (\<lambda>a. rev (block_entries q a)) as)"
proof -
  obtain as where as: "chained q as" "as \<noteq> [] \<longrightarrow> q_last q = lifo_mark" "xs = concat (map (\<lambda>a. rev (block_entries q a)) as)"
    using assms(1) unfolding lifo_def by blast
  obtain a as' where a: "as = a # as'" "a = q_first q"
    using as(1) assms(2) by (cases as) (auto simp: chained_def)
  then obtain x where "blocks q a = Some x"
    using chained_block(1) [OF as(1), of a] by auto
  then show ?thesis
    using as a by (intro exI [of _ x] exI [of _ as']) (auto simp: block_entries_def)
qed

lemma lifo_pop:
  assumes "blocks q (q_first q) = Some x" "chained q (q_first q # as)" "q_last q = lifo_mark"
    "xs = rev (entries x) @ concat (map (\<lambda>a. rev (block_entries q a)) as)" "entries x \<noteq> []"
  shows "\<exists>es. xs = last (entries x) # es \<and> lifo (pop_entry (q_first q) x q) es"
proof -
  let ?q = "pop_entry (q_first q) x q"
  have en: "entries x = butlast (entries x) @ [last (entries x)]"
    using assms(5) by simp
  then have xs: "xs = last (entries x) # rev (butlast (entries x)) @ concat (map (\<lambda>a. rev (block_entries q a)) as)"
    using assms(4) by (metis append.simps(1) append_Cons rev.simps(2) rev_append rev_rev_ident rev_singleton_conv)
  have ch: "chained ?q (q_first q # as)"
    "block_entries ?q b = (if b = q_first q then butlast (entries x) else block_entries q b)" for b
    using chained_put [OF assms(2,1), of "x\<lparr>entries := butlast (entries x)\<rparr>"] by (simp_all add: pop_entry_def)
  have "q_first q \<notin> set as"
    using assms(2) by (simp add: chained_def)
  then have "concat (map (\<lambda>a. rev (block_entries ?q a)) (q_first q # as)) =
      rev (butlast (entries x)) @ concat (map (\<lambda>a. rev (block_entries q a)) as)"
    using ch(2) by (auto intro!: arg_cong [where f = concat] map_cong)
  moreover have "q_last ?q = lifo_mark"
    using assms(3) by (simp add: pop_entry_def put_block_def)
  ultimately have "lifo ?q (rev (butlast (entries x)) @ concat (map (\<lambda>a. rev (block_entries q a)) as))"
    unfolding lifo_def using ch(1) by metis
  then show ?thesis
    using xs by blast
qed

lemma lifo_next:
  assumes "blocks q (q_first q) = Some x" "chained q (q_first q # as)" "q_last q = lifo_mark"
    "xs = rev (entries x) @ concat (map (\<lambda>a. rev (block_entries q a)) as)" "entries x = []"
    "q1 = free_block (q_first q) (q\<lparr>q_first := next_block x\<rparr>)"
  shows "chained q1 as \<and> lifo q1 xs"
proof -
  have ch: "chained q1 as" "\<forall>b \<in> set as. block_entries q1 b = block_entries q b"
    using chained_free [OF assms(2,1)] assms(6) by simp_all
  have "xs = concat (map (\<lambda>a. rev (block_entries q1 a)) as)"
    using assms(4,5) ch(2) by (auto intro!: arg_cong [where f = concat] map_cong)
  moreover have "q_last q1 = lifo_mark"
    using assms(3,6) by (simp add: free_block_def)
  ultimately show ?thesis
    unfolding lifo_def using ch(1) by blast
qed

text \<open>Empty blocks are freed until there is a call, or no block is left.\<close>

lemma run_lifo_cases:
  "q_first q = 0 \<Longrightarrow> run_lifo_loop call q s = Some (Inr (q, s))"
  "blocks q (q_first q) = Some x \<Longrightarrow> q_first q \<noteq> 0 \<Longrightarrow> entries x \<noteq> [] \<Longrightarrow> call (last (entries x)) s = (s', new) \<Longrightarrow>
    fold_result enqueue_lifo new (pop_entry (q_first q) x q) = Inr q' \<Longrightarrow>
    run_lifo_loop call q s = run_lifo_loop call q' s'"
  "blocks q (q_first q) = Some x \<Longrightarrow> q_first q \<noteq> 0 \<Longrightarrow> entries x = [] \<Longrightarrow>
    run_lifo_loop call q s = run_lifo_loop call (free_block (q_first q) (q\<lparr>q_first := next_block x\<rparr>)) s"
  by (subst run_lifo_loop.simps; simp add: get_block_def)+

lemma dequeue_lifo_cases:
  "q_first q = 0 \<Longrightarrow> dequeue_lifo_loop match q = Some (Inr (q, None))"
  "blocks q (q_first q) = Some x \<Longrightarrow> q_first q \<noteq> 0 \<Longrightarrow> entries x \<noteq> [] \<Longrightarrow>
    dequeue_lifo_loop match q =
      (if match (last (entries x)) then Some (Inr (pop_entry (q_first q) x q, Some (last (entries x))))
       else dequeue_lifo_loop match (pop_entry (q_first q) x q))"
  "blocks q (q_first q) = Some x \<Longrightarrow> q_first q \<noteq> 0 \<Longrightarrow> entries x = [] \<Longrightarrow>
    dequeue_lifo_loop match q = dequeue_lifo_loop match (free_block (q_first q) (q\<lparr>q_first := next_block x\<rparr>))"
  by (subst dequeue_lifo_loop.simps; simp add: get_block_def)+

definition same_runs :: "'e pike_queue \<Rightarrow> 'e pike_queue \<Rightarrow> 's itself \<Rightarrow> bool" where
  "same_runs q q' t \<longleftrightarrow> (\<forall>(call :: ('e, 's) calls) s. run_lifo_loop call q s = run_lifo_loop call q' s) \<and>
    (\<forall>match. dequeue_lifo_loop match q = dequeue_lifo_loop match q')"

lemma lifo_front:
  assumes "chained q as" "lifo q xs"
  shows "\<exists>q'. lifo q' xs \<and> (q_first q' = 0 \<and> xs = [] \<and> emptied q' \<or>
      (q_first q' \<noteq> 0 \<and> (\<exists>x es. blocks q' (q_first q') = Some x \<and> entries x \<noteq> [] \<and> xs = last (entries x) # es \<and>
        lifo (pop_entry (q_first q') x q') es))) \<and>
    same_runs q q' t"
  using assms
proof (induction as arbitrary: q)
  case Nil
  then have "q_first q = 0"
    by (simp add: chained_def)
  then show ?case
    using lifo_none [OF Nil.prems(2)] Nil.prems(2) by (intro exI [of _ q]) (simp add: same_runs_def)
next
  case (Cons a as)
  have nz: "q_first q \<noteq> 0"
    using chained_first [OF Cons.prems(1)] by simp
  obtain x bs where x: "blocks q (q_first q) = Some x" "chained q (q_first q # bs)" "q_last q = lifo_mark"
    "xs = rev (entries x) @ concat (map (\<lambda>a. rev (block_entries q a)) bs)"
    using lifo_first [OF Cons.prems(2) nz] by blast
  have bs: "bs = as"
    using chained_unique [OF Cons.prems(1) x(2)] by simp
  show ?case
  proof (cases "entries x = []")
    case True
    define q1 where "q1 = free_block (q_first q) (q\<lparr>q_first := next_block x\<rparr>)"
    have 1: "chained q1 as" "lifo q1 xs"
      using lifo_next [OF x True q1_def] bs by simp_all
    have "same_runs q q1 t"
      by (simp add: same_runs_def q1_def run_lifo_cases(3) [OF x(1) nz True] dequeue_lifo_cases(3) [OF x(1) nz True])
    moreover have "same_runs q q' t" if "same_runs q1 q' t" for q'
      using that calculation by (simp add: same_runs_def)
    ultimately show ?thesis
      using Cons.IH [OF 1] by blast
  next
    case False
    then show ?thesis
      using lifo_pop [OF x False] x(1) nz Cons.prems(2) by (intro exI [of _ q]) (auto simp: same_runs_def)
  qed
qed

lemma lifo_empty:
  assumes "lifo q []"
  shows "\<exists>q'. q_first q' = 0 \<and> emptied q' \<and> lifo q' [] \<and> same_runs q q' t"
proof -
  obtain as where "chained q as"
    using assms unfolding lifo_def by blast
  from lifo_front [OF this assms, of t] obtain q' where "lifo q' []" "same_runs q q' t"
    "q_first q' = 0 \<and> emptied q'"
    by auto
  then show ?thesis
    by auto
qed

lemma lifo_call:
  assumes "lifo q (e # es)"
  shows "\<exists>q' x. q_first q' \<noteq> 0 \<and> blocks q' (q_first q') = Some x \<and> entries x \<noteq> [] \<and> e = last (entries x) \<and>
    lifo (pop_entry (q_first q') x q') es \<and> same_runs q q' t"
proof -
  obtain as where "chained q as"
    using assms unfolding lifo_def by blast
  from lifo_front [OF this assms, of t] obtain q' where q': "same_runs q q' t"
    "q_first q' = 0 \<and> e # es = [] \<and> emptied q' \<or>
      (q_first q' \<noteq> 0 \<and> (\<exists>x fs. blocks q' (q_first q') = Some x \<and> entries x \<noteq> [] \<and> e # es = last (entries x) # fs \<and>
        lifo (pop_entry (q_first q') x q') fs))"
    by auto
  then show ?thesis
    by (intro exI [of _ q']) auto
qed

abbreviation lifo_work :: "('e, 's) calls \<Rightarrow> 'e list \<Rightarrow> 's \<Rightarrow> 's option" where
  "lifo_work \<equiv> work (\<lambda>new xs. rev new @ xs)"

lemma run_lifo_call:
  fixes call :: "('e, 's) calls"
  assumes "lifo q (e # es)" "call e s = (s', new)"
  shows "\<exists>q'. run_lifo_loop call q s = run_lifo_loop call q' s' \<and> lifo q' (rev new @ es)"
proof -
  obtain q1 x where 1: "q_first q1 \<noteq> 0" "blocks q1 (q_first q1) = Some x" "entries x \<noteq> []" "e = last (entries x)"
    "lifo (pop_entry (q_first q1) x q1) es" "same_runs q q1 TYPE('s)"
    using lifo_call [OF assms(1)] by blast
  obtain q' where "fold_result enqueue_lifo new (pop_entry (q_first q1) x q1) = Inr q'" "lifo q' (rev new @ es)"
    using lifo.put_all [OF 1(5)] by blast
  then show ?thesis
    using run_lifo_cases(2) [OF 1(2,1,3), of call s s' new q'] 1(4,6) assms(2) by (auto simp: same_runs_def)
qed

lemma lifo_runs:
  fixes call :: "('e, 's) calls"
  assumes "lifo_work call xs s = Some r" "lifo q xs"
  shows "\<exists>q'. run_lifo_loop call q s = Some (Inr (q', r)) \<and> emptied q'"
proof -
  have "work ins call xs s = Some r \<Longrightarrow> ins = (\<lambda>new xs. rev new @ xs) \<Longrightarrow> lifo q xs \<Longrightarrow>
      \<exists>q'. run_lifo_loop call q s = Some (Inr (q', r)) \<and> emptied q'"
    for ins and call :: "('e, 's) calls" and xs s r q
  proof (induction ins call xs s r arbitrary: q rule: work.raw_induct [rotated, consumes 1])
    case (1 work' ins call xs s r)
    show ?case
    proof (cases xs)
      case Nil
      obtain q' where "q_first q' = 0" "emptied q'" "same_runs q q' TYPE('s)"
        using lifo_empty 1(4) Nil by blast
      then show ?thesis
        using 1(2) Nil run_lifo_cases(1) [of q' call s] by (auto simp: same_runs_def)
    next
      case (Cons e es)
      obtain s' new where c: "call e s = (s', new)"
        by fastforce
      obtain q' where "run_lifo_loop call q s = run_lifo_loop call q' s'" "lifo q' (rev new @ es)"
        using run_lifo_call [of q e es call s s' new] c 1(4) Cons by blast
      then show ?thesis
        using 1(1) [of ins call "rev new @ es" s' r] 1(2,3) Cons c by simp
    qed
  qed
  then show ?thesis
    using assms by blast
qed

lemma dequeue_lifo_ok:
  assumes "lifo q xs"
  shows "\<exists>q'. dequeue_lifo_loop match q = Some (Inr (q', find match xs)) \<and>
    lifo q' (tl (dropWhile (\<lambda>e. \<not> match e) xs))"
  using assms
proof (induction xs arbitrary: q)
  case Nil
  obtain q' where "q_first q' = 0" "lifo q' []" "same_runs q q' TYPE(unit)"
    using lifo_empty [OF Nil] by blast
  then show ?case
    using dequeue_lifo_cases(1) [of q' match] by (auto simp: same_runs_def)
next
  case (Cons e es)
  obtain q1 x where 1: "q_first q1 \<noteq> 0" "blocks q1 (q_first q1) = Some x" "entries x \<noteq> []" "e = last (entries x)"
    "lifo (pop_entry (q_first q1) x q1) es" "same_runs q q1 TYPE(unit)"
    using lifo_call [OF Cons.prems] by blast
  then show ?case
    using dequeue_lifo_cases(2) [OF 1(2,1,3), of match] Cons.IH [OF 1(5)] by (auto simp: same_runs_def)
qed

section \<open>Discarding a queue\<close>

lemma discard_loop_ok:
  assumes "chain (blocks q) b as" "distinct as" "dom (blocks q) = set as"
  shows "\<exists>q'. discard_loop b q = Some (Inr q') \<and> (\<forall>a. blocks q' a = None)"
  using assms
proof (induction as arbitrary: q b)
  case Nil
  then show ?case
    by (subst discard_loop.simps) (auto simp: dom_def)
next
  case (Cons a as)
  obtain x where x: "b = a" "a \<noteq> 0" "blocks q a = Some x" "chain (blocks q) (next_block x) as"
    using Cons.prems(1) by auto
  have "chain (blocks (free_block a q)) (next_block x) as = chain (blocks q) (next_block x) as"
    using Cons.prems(2) by (intro chain_cong) (auto simp: free_block_def)
  moreover have "dom (blocks (free_block a q)) = set as"
    using Cons.prems(2,3) by (auto simp: free_block_def)
  ultimately show ?case
    using Cons.IH [of "free_block a q" "next_block x"] Cons.prems(2) x by (subst discard_loop.simps) (simp add: get_block_def)
qed

section \<open>Properties\<close>

definition empty_queue :: "'e pike_queue" where
  "empty_queue = \<lparr>q_first = 0, q_last = 0, blocks = Map.empty, fresh = 2\<rparr>"

lemma empty_queue_rep: "fifo_at 0 empty_queue []" "lifo empty_queue []"
  unfolding fifo_at_def lifo_def by (intro exI [of _ "[]"]; simp add: empty_queue_def chained_def)+

text \<open>C5: Running a queue makes its calls in the order they were put in it, the calls asked for
  meanwhile included: the run returns if and only if that sequence of calls ends, in the state the
  sequence ends in, with the queue empty and every block freed. No freed block is used.\<close>

theorem run_queue_spec:
  assumes "fifo_at 0 q xs"
  shows "case fifo_work call xs s of
      None \<Rightarrow> run_queue call q s = None
    | Some r \<Rightarrow> (\<exists>q'. run_queue call q s = Some (Inr (q', r)) \<and> emptied q' \<and> q_last q' = 0)"
proof (cases "fifo_work call xs s")
  case None
  then have "run_loop call 0 q s = None"
    using runs_work [OF _ assms, of call s] by (cases "run_loop call 0 q s") auto
  then show ?thesis
    using None by (simp add: run_queue_def)
next
  case (Some r)
  then show ?thesis
    using work_runs [OF Some assms] by (simp add: run_queue_def finishes_def)
qed

text \<open>A call that adds its argument to the state and asks for the next smaller one.\<close>

definition count_down :: "(nat, nat) calls" where
  "count_down e s = (s + e, if e = 0 then [] else [e - 1])"

theorem run_queue_spec_witness:
  "\<exists>q q'. fold_result enqueue [2, 1] empty_queue = Inr q \<and> run_queue count_down q 0 = Some (Inr (q', 4)) \<and> emptied q'"
proof -
  obtain q where q: "fold_result enqueue [2, 1 :: nat] empty_queue = Inr q" "fifo_at 0 q ([] @ [2, 1])"
    using fifo.put_all [OF empty_queue_rep(1)] by blast
  have "fifo_work count_down [2, 1] 0 = Some 4"
    by (simp add: work_Cons count_down_def)
  then show ?thesis
    using run_queue_spec [OF q(2), of count_down 0] q(1) by auto
qed

text \<open>Calls that are logged when they are made.\<close>

definition logged :: "('e, 's) calls \<Rightarrow> ('e, 'e list \<times> 's) calls" where
  "logged call e st = (let (s', new) = call e (snd st) in ((fst st @ [e], s'), new))"

text \<open>Making a list of calls in turn: the state at the end and all the calls that were put in the queue
  by them, in order.\<close>

fun make_calls :: "('e, 's) calls \<Rightarrow> 'e list \<Rightarrow> 's \<Rightarrow> 's \<times> 'e list" where
  "make_calls call [] s = (s, [])"
| "make_calls call (e # es) s =
     (let (s1, new) = call e s; (s2, more) = make_calls call es s1 in (s2, new @ more))"

lemma work_log:
  assumes "fifo_work (logged call) xs st = Some st'"
  shows "\<exists>log put. fst st' = fst st @ log \<and> make_calls call log (snd st) = (snd st', put) \<and> log = xs @ put"
proof -
  have "work ins lc xs st = Some st' \<Longrightarrow> ins = (\<lambda>new xs. xs @ new) \<Longrightarrow> lc = logged call \<Longrightarrow>
      \<exists>log put. fst st' = fst st @ log \<and> make_calls call log (snd st) = (snd st', put) \<and> log = xs @ put" for ins lc
  proof (induction ins lc xs st st' rule: work.raw_induct [rotated, consumes 1])
    case (1 work' ins lc xs st st')
    show ?case
    proof (cases xs)
      case (Cons e es)
      obtain s' new where c: "call e (snd st) = (s', new)"
        by fastforce
      then have "work' ins lc (es @ new) (fst st @ [e], s') = Some st'"
        using 1(2-4) Cons by (simp add: logged_def)
      then obtain log put where "fst st' = fst (fst st @ [e], s') @ log"
        "make_calls call log (snd (fst st @ [e], s')) = (snd st', put)" "log = (es @ new) @ put"
        using 1(1) [OF _ 1(3,4)] by blast
      then show ?thesis
        using Cons c by (intro exI [of _ "e # log"] exI [of _ "new @ put"]) simp
    qed (use 1(2) in auto)
  qed
  then show ?thesis
    using assms by blast
qed

text \<open>C6: When every call asks only for calls that are smaller in a well-founded order, running a queue
  comes to an end, and every call is made exactly once, in the order in which it was put in the queue:
  \<open>logged\<close> keeps the list of the calls made, which is the list of the calls that were in the queue
  followed by the calls that those of the list put in it, no more and no less. The state at the end is
  the one these calls lead to, and the queue is empty.\<close>

theorem run_queue_makes_all_calls:
  assumes "fifo_at 0 q xs" "wf R" "\<And>e s e'. e' \<in> set (snd (call e s)) \<Longrightarrow> (e', e) \<in> R"
  shows "\<exists>q' log r put. run_queue (logged call) q ([], s) = Some (Inr (q', log, r)) \<and> emptied q' \<and>
    make_calls call log s = (r, put) \<and> log = xs @ put"
proof -
  have "(e', e) \<in> R" if "e' \<in> set (snd (logged call e st))" for e st e'
    using assms(3) [of e' e "snd st"] that by (auto simp: logged_def split: prod.splits)
  then obtain st' where st': "fifo_work (logged call) xs ([], s) = Some st'"
    using work_terminates [OF assms(2), of "logged call" "\<lambda>new xs. xs @ new" xs "([], s)"] by auto
  obtain log put where "fst st' = log" "make_calls call log s = (snd st', put)" "log = xs @ put"
    using work_log [OF st'] by auto
  moreover obtain q' where "run_queue (logged call) q ([], s) = Some (Inr (q', st'))" "emptied q'"
    using work_runs [OF st' assms(1)] by (auto simp: run_queue_def finishes_def)
  ultimately show ?thesis
    by (intro exI [of _ q'] exI [of _ log] exI [of _ "snd st'"] exI [of _ put]) (cases st'; simp)
qed

theorem run_queue_makes_all_calls_witness:
  "\<exists>q q' log r put. fold_result enqueue [2, 1] empty_queue = Inr q \<and>
    run_queue (logged count_down) q ([], 0) = Some (Inr (q', log, r)) \<and>
    make_calls count_down log 0 = (r, put) \<and> log = [2, 1] @ put"
proof -
  obtain q where q: "fold_result enqueue [2, 1 :: nat] empty_queue = Inr q" "fifo_at 0 q ([] @ [2, 1])"
    using fifo.put_all [OF empty_queue_rep(1)] by blast
  have "(e', e) \<in> less_than" if "e' \<in> set (snd (count_down e s))" for e s e'
    using that by (auto simp: count_down_def split: if_splits)
  then show ?thesis
    using run_queue_makes_all_calls [OF q(2) wf_less_than, of count_down 0] q(1) by auto
qed

text \<open>Used as a stack, the calls are made in the order last in, first out; taking a call out of the
  stack gives the first one from its top that matches, drops those above it and leaves the rest.\<close>

theorem lifo_queue_spec:
  assumes "lifo q xs"
  shows "(\<exists>q'. enqueue_lifo e q = Inr q' \<and> lifo q' (e # xs)) \<and>
    (\<forall>r. lifo_work call xs s = Some r \<longrightarrow> (\<exists>q'. run_lifo_queue call q s = Some (Inr (q', r)) \<and> emptied q')) \<and>
    (\<exists>q'. dequeue_lifo match q = Some (Inr (q', find match xs)) \<and> lifo q' (tl (dropWhile (\<lambda>e. \<not> match e) xs)))"
proof -
  have c: "check_lifo q = Inr ()"
    using assms chained_first by (fastforce simp: check_lifo_def lifo_def)
  show ?thesis
    using enqueue_lifo_ok [OF assms, of e] lifo_runs [OF _ assms, of call s] dequeue_lifo_ok [OF assms, of match]
    by (simp add: run_lifo_queue_def dequeue_lifo_def c)
qed

theorem lifo_queue_spec_witness:
  "\<exists>q q'. fold_result enqueue_lifo [5, 7, 9] empty_queue = Inr q \<and>
    dequeue_lifo (\<lambda>e. e < (8 :: nat)) q = Some (Inr (q', Some 7)) \<and> lifo q' [5]"
proof -
  obtain q where q: "fold_result enqueue_lifo [5, 7, 9 :: nat] empty_queue = Inr q" "lifo q (rev [5, 7, 9] @ [])"
    using lifo.put_all [OF empty_queue_rep(2)] by blast
  show ?thesis
    using lifo_queue_spec [OF q(2), of 0 count_down 0 "\<lambda>e. e < 8"] q(1) by auto
qed

text \<open>Discarding a queue frees all its blocks, whatever calls it holds.\<close>

theorem discard_queue_spec:
  assumes "fifo_at i q xs"
  shows "\<exists>q'. discard_queue q = Some (Inr q') \<and> emptied q' \<and> q_last q' = 0"
proof -
  obtain as where "chained q as"
    using assms unfolding fifo_at_def by blast
  then obtain q' where "discard_loop (q_first q) q = Some (Inr q')" "\<forall>a. blocks q' a = None"
    using discard_loop_ok unfolding chained_def by blast
  then show ?thesis
    by (simp add: discard_queue_def emptied_def)
qed

theorem discard_queue_spec_witness: "\<exists>q'. discard_queue empty_queue = Some (Inr q') \<and> emptied q'"
  using discard_queue_spec [OF empty_queue_rep(1)] by blast

end
