(* ===== verification/Int_Ops.thy ===== *)
theory Int_Ops
  imports Prelude "HOL-Library.Signed_Division"
begin

text \<open>
  The arithmetic of integers (\<open>src/src/operators.c\<close>): machine integers of 64 bits (\<open>INT_TYPE\<close>) whose
  operators detect an overflow and then use the arbitrary integers of the Gmp module; the tests
  for overflows (\<open>src/src/bignum.h\<close>).
\<close>

section \<open>Machine integers\<close>

type_synonym int_type = "64 word"

definition min_int :: int_type where "min_int = word_of_int (- (2 ^ 63))"
definition max_int :: int_type where "max_int = word_of_int (2 ^ 63 - 1)"

definition fits :: "int \<Rightarrow> bool" where
  "fits n \<longleftrightarrow> - (2 ^ 63) \<le> n \<and> n < 2 ^ 63"

text \<open>The operators of C on \<open>INT_TYPE\<close>: \<open>/\<close> and \<open>%\<close> truncate towards 0.\<close>

definition c_div :: "int_type \<Rightarrow> int_type \<Rightarrow> int_type" where
  "c_div a b = word_of_int (sint a sdiv sint b)"

definition c_mod :: "int_type \<Rightarrow> int_type \<Rightarrow> int_type" where
  "c_mod a b = word_of_int (sint a smod sint b)"

definition c_less :: "int_type \<Rightarrow> int_type \<Rightarrow> bool" where
  "c_less a b \<longleftrightarrow> sint a < sint b"

definition c_lsh :: "int_type \<Rightarrow> int_type \<Rightarrow> int_type" where
  "c_lsh a b = push_bit (unat b) a"

definition c_rsh :: "int_type \<Rightarrow> int_type \<Rightarrow> int_type" where
  "c_rsh a b = signed_drop_bit (unat b) a"

section \<open>Tests for overflows\<close>

text \<open>The overflow builtins of the compiler: no result when the exact one does not fit.\<close>

definition if_fits :: "int \<Rightarrow> int_type option" where
  "if_fits n = (if fits n then Some (word_of_int n) else None)"

definition do_add_overflow :: "int_type \<Rightarrow> int_type \<Rightarrow> int_type option" where
  "do_add_overflow a b = if_fits (sint a + sint b)"

definition do_sub_overflow :: "int_type \<Rightarrow> int_type \<Rightarrow> int_type option" where
  "do_sub_overflow a b = if_fits (sint a - sint b)"

definition do_mul_overflow :: "int_type \<Rightarrow> int_type \<Rightarrow> int_type option" where
  "do_mul_overflow a b = if_fits (sint a * sint b)"

text \<open>The tests used when the compiler has no such builtins and no integers of 128 bits.\<close>

definition of1_add_overflow :: "int_type \<Rightarrow> int_type \<Rightarrow> int_type option" where
  "of1_add_overflow a b =
     (if c_less 0 b \<and> c_less (max_int - b) a \<or> c_less b 0 \<and> c_less a (min_int - b) then None
      else Some (a + b))"

definition of1_sub_overflow :: "int_type \<Rightarrow> int_type \<Rightarrow> int_type option" where
  "of1_sub_overflow a b =
     (if c_less 0 b \<and> c_less a (min_int + b) \<or> c_less b 0 \<and> c_less (max_int + b) a then None
      else Some (a - b))"

definition of1_mul_overflow :: "int_type \<Rightarrow> int_type \<Rightarrow> int_type option" where
  "of1_mul_overflow a b =
     (if (if c_less 0 a then
            (if c_less 0 b then c_less (c_div max_int b) a else c_less b (c_div min_int a))
          else if c_less 0 b then c_less a (c_div max_int b)
          else a \<noteq> 0 \<and> c_less b (c_div max_int a))
      then None else Some (a * b))"

definition neg_overflow :: "int_type \<Rightarrow> bool" where
  "neg_overflow a \<longleftrightarrow> a = min_int"

definition div_overflow :: "int_type \<Rightarrow> int_type \<Rightarrow> bool" where
  "div_overflow a b \<longleftrightarrow> a = min_int \<and> b = - 1"

definition do_mod_overflow :: "int_type \<Rightarrow> int_type \<Rightarrow> int_type option" where
  "do_mod_overflow a b = (if div_overflow a b then None else Some (c_mod a b))"

definition lsh_overflow :: "int_type \<Rightarrow> int_type \<Rightarrow> bool" where
  "lsh_overflow a b \<longleftrightarrow> c_less b 0 \<or> \<not> c_less b 64 \<or> c_rsh (c_lsh a b) b \<noteq> a"

definition rsh_overflow :: "int_type \<Rightarrow> int_type \<Rightarrow> bool" where
  "rsh_overflow a b \<longleftrightarrow> \<not> c_less b 64"

section \<open>The operators\<close>

text \<open>An integer is a machine integer, with the mark of \<open>UNDEFINED\<close>, or an object of the Gmp module,
  which is no part of the interpreter: \<open>big\<close> is what its methods return.\<close>

datatype number = Small int_type bool | Bignum int

datatype arith = Add | Add_Eq | Sub | Mul | Div | Mod | Lsh | Neg

type_synonym bignums = "arith \<Rightarrow> int list \<Rightarrow> number"

fun add_loop :: "int_type \<Rightarrow> bool \<Rightarrow> (int_type \<times> bool) list \<Rightarrow> (int_type \<times> bool) option" where
  "add_loop tot all_undef [] = Some (tot, all_undef)"
| "add_loop tot all_undef ((x, u) # xs) =
     (case do_add_overflow tot x of
        None \<Rightarrow> None
      | Some tot \<Rightarrow> add_loop tot (all_undef \<and> tot = 0 \<and> u) xs)"

text \<open>Pairs of a sum and an integer. A big integer that is referred to by the argument and the copy of it
  on the stack only is added to in place (\<open>fresh\<close>); otherwise its method makes a new number, which must
  not be \<open>UNDEFINED\<close>. Two machine integers are added as such unless this overflows.\<close>

definition pair_add :: "bignums \<Rightarrow> bool \<Rightarrow> number \<Rightarrow> int_type \<Rightarrow> number result" where
  "pair_add big fresh acc x =
     (case acc of
        Bignum n \<Rightarrow>
          if fresh then Inr (big Add_Eq [n, sint x])
          else (case big Add [n, sint x] of Small r True \<Rightarrow> Inl Wrong_Type_Of_Arg | r \<Rightarrow> Inr r)
      | Small a u \<Rightarrow>
          (case do_add_overflow a x of
             None \<Rightarrow> Inr (big Add [sint a, sint x])
           | Some res \<Rightarrow> Inr (Small res u)))"

text \<open>The arguments after the first, which is on the stack twice.\<close>

fun pairwise_add :: "bignums \<Rightarrow> bool \<Rightarrow> number \<Rightarrow> int_type list \<Rightarrow> number result" where
  "pairwise_add big fresh acc [] = Inr acc"
| "pairwise_add big fresh acc (x # xs) =
     bind_result (pair_add big fresh acc x) (\<lambda>acc. pairwise_add big False acc xs)"

text \<open>The sum of integers: after an overflow the first argument is made a big integer and the sum is
  computed again in pairs.\<close>

definition add_ints :: "bignums \<Rightarrow> (int_type \<times> bool) list \<Rightarrow> number result" where
  "add_ints big args =
     (case args of
        [] \<Rightarrow> Inl Wrong_Number_Of_Args
      | [(x, u)] \<Rightarrow> Inr (Small x u)
      | (x, u) # xs \<Rightarrow>
          (case add_loop x (x = 0 \<and> u) xs of
             None \<Rightarrow> pairwise_add big True (Bignum (sint x)) (map fst xs)
           | Some (tot, all_undef) \<Rightarrow> Inr (if all_undef then Small 0 True else Small tot False)))"

definition subtract_ints :: "bignums \<Rightarrow> int_type \<Rightarrow> int_type \<Rightarrow> number" where
  "subtract_ints big a b =
     (case do_sub_overflow a b of None \<Rightarrow> big Sub [sint a, sint b] | Some _ \<Rightarrow> Small (a - b) False)"

definition negate_int :: "bignums \<Rightarrow> int_type \<Rightarrow> number" where
  "negate_int big a = (if neg_overflow a then big Neg [sint a] else Small (- a) False)"

definition multiply_ints :: "bignums \<Rightarrow> int_type \<Rightarrow> int_type \<Rightarrow> number" where
  "multiply_ints big a b =
     (case do_mul_overflow a b of None \<Rightarrow> big Mul [sint a, sint b] | Some res \<Rightarrow> Small res False)"

text \<open>The quotient is rounded towards negative infinity.\<close>

definition divide_ints :: "bignums \<Rightarrow> int_type \<Rightarrow> int_type \<Rightarrow> number result" where
  "divide_ints big a b =
     (if b = 0 then Inl Division_By_Zero
      else if div_overflow a b then Inr (big Div [sint a, sint b])
      else
        (let tmp = c_div a b;
             tmp = (if c_less a 0 \<noteq> c_less b 0 \<and> tmp * b \<noteq> a then tmp - 1 else tmp)
         in Inr (Small tmp False)))"

definition mod_ints :: "bignums \<Rightarrow> int_type \<Rightarrow> int_type \<Rightarrow> number result" where
  "mod_ints big a b =
     (if b = 0 then Inl Division_By_Zero
      else
        (let res =
          (if \<not> c_less a 0 then
             (if \<not> c_less b 0 then Some (c_mod a b)
              else
                Option.bind (do_add_overflow a (NOT b)) (\<lambda>res.
                Option.bind (do_mod_overflow res b) (\<lambda>res. do_sub_overflow res (NOT b))))
           else if \<not> c_less b 0 then
             Option.bind (do_mod_overflow (NOT a) b) (\<lambda>res. do_add_overflow b (NOT res))
           else do_mod_overflow a b)
         in Inr (case res of None \<Rightarrow> big Mod [sint a, sint b] | Some res \<Rightarrow> Small res False)))"

definition lsh_ints :: "bignums \<Rightarrow> int_type \<Rightarrow> int_type \<Rightarrow> number result" where
  "lsh_ints big a b =
     (if c_less b 0 then Inl Wrong_Type_Of_Arg
      else if lsh_overflow a b then Inr (big Lsh [sint a, sint b])
      else Inr (Small (c_lsh a b) False))"

definition rsh_ints :: "int_type \<Rightarrow> int_type \<Rightarrow> number result" where
  "rsh_ints a b =
     (if c_less b 0 then Inl Wrong_Type_Of_Arg
      else if rsh_overflow a b then Inr (Small (if c_less a 0 then - 1 else 0) False)
      else Inr (Small (c_rsh a b) False))"

definition compl_int :: "int_type \<Rightarrow> number" where
  "compl_int a = Small (NOT a) False"

text \<open>\<open>`-\<close>: one argument is negated, of more the others are added first.\<close>

definition minus_ints :: "bignums \<Rightarrow> (int_type \<times> bool) list \<Rightarrow> number result" where
  "minus_ints big args =
     (case args of
        [] \<Rightarrow> Inl Wrong_Number_Of_Args
      | [(a, u)] \<Rightarrow> Inr (negate_int big a)
      | [(a, u), (b, v)] \<Rightarrow> Inr (subtract_ints big a b)
      | (a, u) # xs \<Rightarrow>
          bind_result (add_ints big xs) (\<lambda>s.
            Inr (case s of Small b v \<Rightarrow> subtract_ints big a b | Bignum n \<Rightarrow> big Sub [sint a, n])))"

section \<open>Machine integers and their values\<close>

lemma sint_range: "- (2 ^ 63) \<le> sint (a :: int_type)" "sint (a :: int_type) < 2 ^ 63"
  using sint_ge [of a] sint_lt [of a] by simp_all

lemma fits_sint [simp]: "fits (sint (a :: int_type))"
  using sint_range [of a] by (simp add: fits_def)

lemma sint_of_fits [simp]: "fits n \<Longrightarrow> sint (word_of_int n :: int_type) = n"
  by (simp add: sint_sbintrunc' signed_take_bit_int_eq_self fits_def)

lemma sint_consts [simp]: "sint (0 :: int_type) = 0" "sint (1 :: int_type) = 1" "sint (- 1 :: int_type) = - 1"
  "sint min_int = - (2 ^ 63)" "sint max_int = 2 ^ 63 - 1"
  using sint_of_fits [of "- (2 ^ 63)"] sint_of_fits [of "2 ^ 63 - 1"] sint_of_fits [of "- 1"] sint_of_fits [of 1]
  by (simp_all add: min_int_def max_int_def fits_def)

lemma word_eq_sint: "(a :: int_type) = b \<longleftrightarrow> sint a = sint b"
  by (simp add: signed_word_eqI word_eq_iff_signed)

text \<open>A C operation whose exact result fits gives that result.\<close>

lemma sint_ops:
  "fits (sint a + sint b) \<Longrightarrow> sint (a + b :: int_type) = sint a + sint b"
  "fits (sint a - sint b) \<Longrightarrow> sint (a - b :: int_type) = sint a - sint b"
  "fits (sint a * sint b) \<Longrightarrow> sint (a * b :: int_type) = sint a * sint b"
  "fits (- sint a) \<Longrightarrow> sint (- a :: int_type) = - sint a"
  "sint (NOT a :: int_type) = - sint a - 1"
proof -
  have w: "word_of_int (sint a + sint b) = a + b" "word_of_int (sint a - sint b) = a - b"
    "word_of_int (sint a * sint b) = a * b" "word_of_int (- sint a) = - a"
    by simp_all
  show "fits (sint a + sint b) \<Longrightarrow> sint (a + b :: int_type) = sint a + sint b"
    "fits (sint a - sint b) \<Longrightarrow> sint (a - b :: int_type) = sint a - sint b"
    "fits (sint a * sint b) \<Longrightarrow> sint (a * b :: int_type) = sint a * sint b"
    "fits (- sint a) \<Longrightarrow> sint (- a :: int_type) = - sint a"
    using sint_of_fits w by metis+
  have n: "NOT a = word_of_int (- sint a - 1)"
    by (simp add: not_eq_complement)
  show "sint (NOT a :: int_type) = - sint a - 1"
    unfolding n by (rule sint_of_fits) (use sint_range [of a] in \<open>simp add: fits_def\<close>)
qed

lemma trunc_div:
  fixes x y :: int
  assumes "y \<noteq> 0"
  shows "x sdiv y * y + x smod y = x" "\<bar>x smod y\<bar> < \<bar>y\<bar>" "0 \<le> x \<Longrightarrow> 0 \<le> x smod y" "x \<le> 0 \<Longrightarrow> x smod y \<le> 0"
proof -
  show q: "x sdiv y * y + x smod y = x"
    by (rule sdiv_mult_smod_eq)
  obtain m where "x smod y = sgn x * m" "0 \<le> m" "m < \<bar>y\<bar>"
    using assms signed_modulo_int_def [of x y] by (intro that [of "\<bar>x\<bar> mod \<bar>y\<bar>"]) simp_all
  then show "\<bar>x smod y\<bar> < \<bar>y\<bar>" "0 \<le> x \<Longrightarrow> 0 \<le> x smod y" "x \<le> 0 \<Longrightarrow> x smod y \<le> 0"
    by (auto simp: sgn_if)
qed

text \<open>The quotient rounded down, from the truncated one.\<close>

lemma floor_trunc:
  fixes x y :: int
  assumes "y \<noteq> 0"
  shows "x div y = (if (x < 0) \<noteq> (y < 0) \<and> x sdiv y * y \<noteq> x then x sdiv y - 1 else x sdiv y)"
proof -
  let ?q = "x sdiv y" and ?r = "x smod y"
  have e: "x = y * ?q + ?r"
    using trunc_div(1) [OF assms, of x] by (simp add: algebra_simps)
  have r: "\<bar>?r\<bar> < \<bar>y\<bar>" "0 \<le> x \<Longrightarrow> 0 \<le> ?r" "x \<le> 0 \<Longrightarrow> ?r \<le> 0"
    using trunc_div(2-4) [OF assms] by blast+
  show ?thesis
  proof (cases "(x < 0) \<noteq> (y < 0) \<and> ?q * y \<noteq> x")
    case True
    have "x = y * (?q - 1) + (?r + y)"
      using e by (simp add: algebra_simps)
    moreover have "if 0 < y then 0 \<le> ?r + y \<and> ?r + y < y else y < ?r + y \<and> ?r + y \<le> 0"
    proof -
      have "?r \<noteq> 0"
        using True e by (auto simp: algebra_simps)
      then show ?thesis
        using True r by auto
    qed
    ultimately show ?thesis
      using True int_div_pos_eq [of x y "?q - 1" "?r + y"] int_div_neg_eq [of x y "?q - 1" "?r + y"] by (auto split: if_splits)
  next
    case False
    have "if 0 < y then 0 \<le> ?r \<and> ?r < y else y < ?r \<and> ?r \<le> 0"
      using False r e assms by (cases "x < 0"; cases "y < 0") (auto simp: mult.commute)
    then show ?thesis
      using False e int_div_pos_eq [of x y ?q ?r] int_div_neg_eq [of x y ?q ?r] by (auto split: if_splits)
  qed
qed

section \<open>Exact results\<close>

text \<open>The integer \<open>n\<close> as the operators return it: a machine integer whenever it fits.\<close>

definition normal :: "int \<Rightarrow> number" where
  "normal n = (if fits n then Small (word_of_int n) False else Bignum n)"

fun exact :: "arith \<Rightarrow> int list \<Rightarrow> int" where
  "exact Add ns = sum_list ns"
| "exact Add_Eq ns = sum_list ns"
| "exact Sub ns = hd ns - sum_list (tl ns)"
| "exact Mul ns = prod_list ns"
| "exact Div ns = ns ! 0 div ns ! 1"
| "exact Mod ns = ns ! 0 mod ns ! 1"
| "exact Lsh ns = ns ! 0 * 2 ^ nat (ns ! 1)"
| "exact Neg ns = - hd ns"

text \<open>What the integers of the Gmp module do: exact results, made machine integers when they fit.\<close>

definition exact_bignums :: "bignums \<Rightarrow> bool" where
  "exact_bignums big \<longleftrightarrow> (\<forall>op ns. big op ns = normal (exact op ns))"

lemma small_normal: "sint w = n \<Longrightarrow> Small w False = normal n"
  by (auto simp: normal_def)

lemma subtract_exact: "exact_bignums big \<Longrightarrow> subtract_ints big a b = normal (sint a - sint b)"
  by (auto simp: subtract_ints_def do_sub_overflow_def if_fits_def exact_bignums_def sint_ops(2) intro!: small_normal)

lemma negate_exact: "exact_bignums big \<Longrightarrow> negate_int big a = normal (- sint a)"
proof -
  assume big: "exact_bignums big"
  have "fits (- sint a)" if "a \<noteq> min_int"
    using that sint_range [of a] by (auto simp: fits_def word_eq_sint)
  then show ?thesis
    using big by (auto simp: negate_int_def neg_overflow_def exact_bignums_def sint_ops(4) intro!: small_normal)
qed

lemma multiply_exact: "exact_bignums big \<Longrightarrow> multiply_ints big a b = normal (sint a * sint b)"
  by (auto simp: multiply_ints_def do_mul_overflow_def if_fits_def exact_bignums_def sint_ops(3) intro!: small_normal)

text \<open>The truncated quotient fits but in one case.\<close>

lemma sdiv_fits:
  assumes "b \<noteq> 0" "\<not> div_overflow a b"
  shows "fits (sint a sdiv sint b)" "fits (sint a sdiv sint b * sint b)"
proof -
  let ?x = "sint a" and ?y = "sint b"
  let ?q = "\<bar>?x\<bar> div \<bar>?y\<bar>"
  have y: "?y \<noteq> 0"
    using assms(1) by (simp add: word_eq_sint)
  have q: "?x sdiv ?y = sgn ?x * sgn ?y * ?q"
    by (rule signed_divide_int_def)
  have "0 \<le> ?q"
    by (simp add: pos_imp_zdiv_nonneg_iff y)
  have "?q * \<bar>?y\<bar> \<le> \<bar>?x\<bar>"
    using y by (metis abs_ge_zero div_mult_mod_eq le_add_same_cancel1 pos_mod_sign zero_less_abs_iff)
  have le: "?q \<le> \<bar>?x\<bar>"
    using zdiv_mono2 [of "\<bar>?x\<bar>" 1 "\<bar>?y\<bar>"] y by simp
  have "?q < 2 ^ 63" if "\<bar>?y\<bar> \<noteq> 1 \<or> ?x \<noteq> - (2 ^ 63)"
  proof (cases "?x = - (2 ^ 63)")
    case True
    then have "2 \<le> \<bar>?y\<bar>"
      using that y by linarith
    then have "?q \<le> \<bar>?x\<bar> div 2"
      by (intro zdiv_mono2) simp_all
    then show ?thesis
      using True by simp
  next
    case False
    then show ?thesis
      using le sint_range [of a] by linarith
  qed
  moreover have "?y = 1" if "\<bar>?y\<bar> = 1" "?x = - (2 ^ 63)"
    using that assms(2) y by (auto simp: div_overflow_def word_eq_sint abs_if split: if_splits)
  ultimately show "fits (?x sdiv ?y)"
    using \<open>0 \<le> ?q\<close> sint_range [of a] unfolding q fits_def
    by (cases "\<bar>?y\<bar> = 1 \<and> ?x = - (2 ^ 63)") (auto simp: sgn_if)
  have "?x sdiv ?y * ?y = sgn ?x * (?q * \<bar>?y\<bar>)"
    unfolding q by (simp add: abs_sgn [of "?y"])
  moreover obtain m where "m = ?q * \<bar>?y\<bar>" "0 \<le> m" "m \<le> \<bar>?x\<bar>"
    using \<open>?q * \<bar>?y\<bar> \<le> \<bar>?x\<bar>\<close> \<open>0 \<le> ?q\<close> by simp
  ultimately show "fits (?x sdiv ?y * ?y)"
    using sint_range [of a] by (auto simp: fits_def sgn_if)
qed

lemma divide_exact:
  assumes "exact_bignums big"
  shows "divide_ints big a b = (if b = 0 then Inl Division_By_Zero else Inr (normal (sint a div sint b)))"
proof (cases "b = 0 \<or> div_overflow a b")
  case True
  then show ?thesis
    using assms by (auto simp: divide_ints_def exact_bignums_def)
next
  case False
  let ?q = "sint a sdiv sint b"
  have y: "sint b \<noteq> 0"
    using False by (simp add: word_eq_sint)
  have q: "sint (c_div a b) = ?q" "sint (c_div a b * b) = ?q * sint b"
    using sdiv_fits [of b a] False sint_ops(3) [of "c_div a b" b] by (simp_all add: c_div_def)
  have d: "sint a div sint b = (if (sint a < 0) \<noteq> (sint b < 0) \<and> ?q * sint b \<noteq> sint a then ?q - 1 else ?q)"
    by (rule floor_trunc [OF y])
  have "fits (?q - 1)" if "?q * sint b \<noteq> sint a"
  proof -
    have "?q \<noteq> - (2 ^ 63)"
    proof
      assume m: "?q = - (2 ^ 63)"
      have "fits (- (2 ^ 63) * sint b)"
        using sdiv_fits(2) [of b a] False m by simp
      then have "sint b = 1"
        using y by (auto simp: fits_def)
      then show False
        using that by (simp add: signed_divide_int_def mult_sgn_abs)
    qed
    then show ?thesis
      using sdiv_fits(1) [of b a] False by (auto simp: fits_def)
  qed
  then have "sint (c_div a b - 1) = ?q - 1" if "?q * sint b \<noteq> sint a"
    using sint_ops(2) [of "c_div a b" 1] q(1) that by simp
  then show ?thesis
    using False q d by (auto simp: divide_ints_def c_less_def word_eq_sint Let_def intro!: small_normal)
qed

lemma c_mod_exact:
  assumes "b \<noteq> 0"
  shows "sint (c_mod a b) = sint a smod sint b"
proof -
  have y: "sint b \<noteq> 0"
    using assms by (simp add: word_eq_sint)
  have "\<bar>sint a smod sint b\<bar> < 2 ^ 63 \<or> sint b = - (2 ^ 63)"
    using trunc_div(2) [OF y, of "sint a"] sint_range [of b] by linarith
  then have "fits (sint a smod sint b)"
    using trunc_div(2) [OF y, of "sint a"] by (auto simp: fits_def)
  then show ?thesis
    by (simp add: c_mod_def)
qed

text \<open>The four cases of the remainder.\<close>

lemma mod_signs:
  fixes x y :: int
  assumes "y \<noteq> 0"
  shows "0 \<le> x \<Longrightarrow> 0 \<le> y \<Longrightarrow> x smod y = x mod y"
    "0 \<le> x \<Longrightarrow> y < 0 \<Longrightarrow> (x + (- y - 1)) smod y - (- y - 1) = x mod y"
    "x < 0 \<Longrightarrow> 0 \<le> y \<Longrightarrow> y + (- ((- x - 1) smod y) - 1) = x mod y"
    "x < 0 \<Longrightarrow> y < 0 \<Longrightarrow> x smod y = x mod y"
proof -
  show "x smod y = x mod y" if "0 \<le> x" "0 \<le> y"
    using that by (cases "x = 0") (simp_all add: signed_modulo_int_def)
  show "x smod y = x mod y" if "x < 0" "y < 0"
    using that by (simp add: signed_modulo_int_def zmod_zminus2_not_zero zmod_zminus1_not_zero)
  show "(x + (- y - 1)) smod y - (- y - 1) = x mod y" if "0 \<le> x" "y < 0"
  proof -
    let ?m = "(x + (- y - 1)) mod (- y)"
    have "(x + (- y - 1)) smod y = ?m"
      using that by (cases "x + (- y - 1) = 0") (simp_all add: signed_modulo_int_def)
    moreover have "x mod y = ?m + y + 1"
    proof (rule int_mod_neg_eq)
      show "x = y * ((- ((x + (- y - 1)) div (- y)))) + (?m + y + 1)"
        using div_mult_mod_eq [of "x + (- y - 1)" "- y"] by (simp add: algebra_simps)
      show "?m + y + 1 \<le> 0" "y < ?m + y + 1"
        using that pos_mod_bound [of "- y" "x + (- y - 1)"] pos_mod_sign [of "- y" "x + (- y - 1)"] by linarith+
    qed
    ultimately show ?thesis
      by simp
  qed
  show "y + (- ((- x - 1) smod y) - 1) = x mod y" if "x < 0" "0 \<le> y"
  proof -
    let ?m = "(- x - 1) mod y"
    have p: "0 < y"
      using that assms by simp
    have "(- x - 1) smod y = ?m"
      using that by (cases "- x - 1 = 0") (simp_all add: signed_modulo_int_def)
    moreover have "x mod y = y - ?m - 1"
    proof (rule int_mod_pos_eq)
      show "x = y * (- ((- x - 1) div y) - 1) + (y - ?m - 1)"
        using div_mult_mod_eq [of "- x - 1" y] by (simp add: algebra_simps)
      show "0 \<le> y - ?m - 1" "y - ?m - 1 < y"
        using pos_mod_bound [OF p, of "- x - 1"] pos_mod_sign [OF p, of "- x - 1"] by linarith+
    qed
    ultimately show ?thesis
      by simp
  qed
qed

lemma if_fits_bind:
  "Option.bind (if_fits n) f = (if fits n then f (word_of_int n) else None)"
  by (simp add: if_fits_def)

lemma mod_exact:
  assumes "exact_bignums big"
  shows "mod_ints big a b = (if b = 0 then Inl Division_By_Zero else Inr (normal (sint a mod sint b)))"
proof (cases "b = 0")
  case True
  then show ?thesis
    by (simp add: mod_ints_def)
next
  case False
  let ?x = "sint a" and ?y = "sint b"
  have y: "?y \<noteq> 0"
    using False by (simp add: word_eq_sint)
  note m = mod_signs [OF y, of ?x]
  have big: "big Mod [?x, ?y] = normal (?x mod ?y)"
    using assms by (simp add: exact_bignums_def)
  have fm: "fits (?x mod ?y)"
  proof (cases "0 < ?y")
    case True
    then have "0 \<le> ?x mod ?y" "?x mod ?y < ?y"
      by simp_all
    then show ?thesis
      using sint_range [of b] by (simp add: fits_def)
  next
    case False
    then have "?x mod ?y \<le> 0" "?y < ?x mod ?y"
      using y by simp_all
    then show ?thesis
      using sint_range [of b] by (simp add: fits_def)
  qed
  have r: "normal (?x mod ?y) = Small (word_of_int (?x mod ?y)) False"
    using fm by (simp add: normal_def)
  consider "0 \<le> ?x" "0 \<le> ?y" | "0 \<le> ?x" "?y < 0" | "?x < 0" "0 \<le> ?y" | "?x < 0" "?y < 0"
    by linarith
  then show ?thesis
  proof cases
    case 1
    then have "c_mod a b = word_of_int (?x mod ?y)"
      using m(1) by (simp add: c_mod_def)
    then show ?thesis
      using False 1 r by (simp add: mod_ints_def c_less_def)
  next
    case 2
    let ?s = "?x + (- ?y - 1)"
    show ?thesis
    proof (cases "fits ?s")
      case True
      let ?w = "word_of_int ?s :: int_type"
      have w: "sint ?w = ?s"
        using True by (rule sint_of_fits)
      have "?w \<noteq> min_int"
      proof
        assume "?w = min_int"
        then have "?s = - (2 ^ 63)"
          using w by simp
        then show False
          using 2 by simp
      qed
      then have "do_mod_overflow ?w b = Some (c_mod ?w b)"
        by (simp add: do_mod_overflow_def div_overflow_def)
      moreover have "sint (c_mod ?w b) - sint (NOT b) = ?x mod ?y"
        using c_mod_exact [OF False, of ?w] w m(2) [OF 2] by (simp only: sint_ops(5))
      then have "do_sub_overflow (c_mod ?w b) (NOT b) = Some (word_of_int (?x mod ?y))"
        using fm by (simp add: do_sub_overflow_def if_fits_def)
      moreover have "do_add_overflow a (NOT b) = Some ?w"
        using True by (simp only: do_add_overflow_def if_fits_def sint_ops(5)) simp
      ultimately show ?thesis
        using False 2 r by (simp add: mod_ints_def c_less_def)
    next
      case no: False
      then have "do_add_overflow a (NOT b) = None"
        by (simp only: do_add_overflow_def if_fits_def sint_ops(5)) simp
      then show ?thesis
        using False 2 big by (simp add: mod_ints_def c_less_def)
    qed
  next
    case 3
    have "NOT a \<noteq> min_int"
    proof
      assume "NOT a = min_int"
      then have "- ?x - 1 = - (2 ^ 63)"
        using sint_ops(5) [of a] by simp
      then show False
        using 3 by simp
    qed
    then have "do_mod_overflow (NOT a) b = Some (c_mod (NOT a) b)"
      by (simp add: do_mod_overflow_def div_overflow_def)
    moreover have "?y + sint (NOT (c_mod (NOT a) b)) = ?x mod ?y"
      using c_mod_exact [OF False, of "NOT a"] m(3) [OF 3] by (simp only: sint_ops(5))
    then have "do_add_overflow b (NOT (c_mod (NOT a) b)) = Some (word_of_int (?x mod ?y))"
      using fm by (simp add: do_add_overflow_def if_fits_def)
    ultimately show ?thesis
      using False 3 r by (simp add: mod_ints_def c_less_def)
  next
    case 4
    then have "c_mod a b = word_of_int (?x mod ?y)"
      using m(4) by (simp add: c_mod_def)
    then show ?thesis
      using False 4 r big by (simp add: mod_ints_def c_less_def do_mod_overflow_def)
  qed
qed

text \<open>Shifts.\<close>

lemma unat_sint: "0 \<le> sint (b :: int_type) \<Longrightarrow> unat b = nat (sint b)"
proof -
  assume "0 \<le> sint b"
  then have "uint b = sint b"
    using sint_range [of b] by (simp add: uint_sint take_bit_int_eq_self)
  then show ?thesis
    by (simp add: unat_eq_nat_uint)
qed

lemma sint_lsh: "sint (c_lsh a b) = signed_take_bit 63 (sint a * 2 ^ unat b)"
proof -
  have e: "c_lsh a b = word_of_int (sint a * 2 ^ unat b)"
    by (simp add: c_lsh_def push_bit_eq_mult)
  show ?thesis
    unfolding e sint_sbintrunc' by simp
qed

lemma lsh_overflow_iff:
  assumes "0 \<le> sint b"
  shows "lsh_overflow a b \<longleftrightarrow> \<not> (sint b < 64 \<and> fits (sint a * 2 ^ unat b))"
proof (cases "sint b < 64")
  case True
  let ?n = "unat b" and ?y = "sint (c_lsh a b)"
  let ?z = "sint a * 2 ^ ?n"
  have n: "?n \<le> 64"
    using True assms by (simp add: unat_sint)
  have e: "c_rsh (c_lsh a b) b = a \<longleftrightarrow> ?y div 2 ^ ?n = sint a"
    by (simp add: c_rsh_def word_eq_sint sint_signed_drop_bit_eq drop_bit_eq_div)
  have "?y div 2 ^ ?n = sint a \<longleftrightarrow> fits ?z"
  proof
    assume "fits ?z"
    then have "?y = ?z"
      by (simp add: sint_lsh signed_take_bit_int_eq_self fits_def)
    then show "?y div 2 ^ ?n = sint a"
      by simp
  next
    assume q: "?y div 2 ^ ?n = sint a"
    have "?y = (?z + 2 ^ 63) mod 2 ^ 64 - 2 ^ 63"
      unfolding sint_lsh by (simp add: signed_take_bit_eq_take_bit_shift take_bit_eq_mod)
    then have "?y = ?z - 2 ^ 64 * ((?z + 2 ^ 63) div 2 ^ 64)"
      using mult_div_mod_eq [of "2 ^ 64" "?z + 2 ^ 63"] by linarith
    moreover have "(2 :: int) ^ ?n dvd 2 ^ 64"
      using n by (rule le_imp_power_dvd)
    ultimately have "2 ^ ?n dvd ?y"
      by (simp add: dvd_diff dvd_mult2)
    then have "?y = ?z"
      using q by (metis dvd_div_mult_self)
    then show "fits ?z"
      using fits_sint [of "c_lsh a b"] by simp
  qed
  then show ?thesis
    using True assms e by (simp add: lsh_overflow_def c_less_def)
next
  case False
  then show ?thesis
    by (simp add: lsh_overflow_def c_less_def)
qed

lemma lsh_exact:
  assumes "exact_bignums big"
  shows "lsh_ints big a b = (if sint b < 0 then Inl Wrong_Type_Of_Arg else Inr (normal (sint a * 2 ^ nat (sint b))))"
proof (cases "sint b < 0")
  case False
  then have u: "unat b = nat (sint b)"
    by (simp add: unat_sint)
  show ?thesis
  proof (cases "lsh_overflow a b")
    case True
    then show ?thesis
      using False assms by (simp add: lsh_ints_def c_less_def exact_bignums_def)
  next
    case no: False
    then have "fits (sint a * 2 ^ unat b)"
      using False lsh_overflow_iff [of b a] by simp
    then have "sint (c_lsh a b) = sint a * 2 ^ nat (sint b)"
      using u by (simp add: sint_lsh signed_take_bit_int_eq_self fits_def)
    then show ?thesis
      using False no by (simp add: lsh_ints_def c_less_def small_normal)
  qed
qed (simp add: lsh_ints_def c_less_def)

lemma rsh_exact:
  "rsh_ints a b = (if sint b < 0 then Inl Wrong_Type_Of_Arg else Inr (normal (sint a div 2 ^ nat (sint b))))"
proof (cases "sint b < 0 \<or> sint b < 64")
  case True
  have "sint (c_rsh a b) = sint a div 2 ^ nat (sint b)" if "\<not> sint b < 0"
    using that by (simp add: c_rsh_def sint_signed_drop_bit_eq drop_bit_eq_div unat_sint)
  then show ?thesis
    using True by (auto simp: rsh_ints_def rsh_overflow_def c_less_def intro!: small_normal)
next
  case False
  have "(2 :: int) ^ 63 \<le> 2 ^ nat (sint b)"
    using False by (intro power_increasing) (simp_all add: le_nat_iff)
  then have "sint a div 2 ^ nat (sint b) = (if sint a < 0 then - 1 else 0)"
    using sint_range [of a] int_div_pos_eq [of "sint a" "2 ^ nat (sint b)" "- 1" "sint a + 2 ^ nat (sint b)"]
    by (auto simp: div_pos_pos_trivial)
  then show ?thesis
    using False small_normal [of "- 1" "- 1"] small_normal [of 0 0] by (simp add: rsh_ints_def rsh_overflow_def c_less_def)
qed

text \<open>Sums: when no partial sum overflows the result is the sum; \<open>UNDEFINED\<close> has the value 0.\<close>

lemma add_loop_exact:
  assumes "add_loop x u xs = Some (y, v)" "\<forall>(x, u) \<in> set xs. u \<longrightarrow> x = 0" "u \<longrightarrow> x = 0"
  shows "sint y = sint x + sum_list (map (sint \<circ> fst) xs) \<and> (v \<longleftrightarrow> u \<and> (\<forall>(x, u) \<in> set xs. u)) \<and> (v \<longrightarrow> y = 0)"
  using assms
proof (induction xs arbitrary: x u)
  case (Cons p xs)
  obtain z w where p: "p = (z, w)"
    by (cases p)
  obtain t where t: "do_add_overflow x z = Some t" "add_loop t (u \<and> t = 0 \<and> w) xs = Some (y, v)"
    using Cons.prems(1) p by (auto split: option.splits)
  have s: "sint t = sint x + sint z"
    using t(1) by (auto simp: do_add_overflow_def if_fits_def sint_ops(1) split: if_splits)
  have z: "w \<longrightarrow> z = 0"
    using Cons.prems(2) p by simp
  then have "u \<and> t = 0 \<and> w \<longleftrightarrow> u \<and> w"
    using s Cons.prems(3) by (auto simp: word_eq_sint)
  then show ?case
    using Cons.IH [OF t(2)] Cons.prems(2) s p by auto
qed auto

lemma add_loop_zero: "\<forall>(x, u) \<in> set xs. x = 0 \<Longrightarrow> add_loop 0 v xs \<noteq> None"
  by (induction xs arbitrary: v) (auto simp: do_add_overflow_def if_fits_def fits_def)

section \<open>The tests without builtins\<close>

lemma less_sint_word: "fits n \<Longrightarrow> sint (a :: int_type) < sint (word_of_int n :: int_type) \<longleftrightarrow> sint a < n"
  by simp

lemma of1_add_exact: "of1_add_overflow a b = do_add_overflow a b"
proof -
  have m: "0 < sint b \<Longrightarrow> sint (max_int - b) = 2 ^ 63 - 1 - sint b" "sint b < 0 \<Longrightarrow> sint (min_int - b) = - (2 ^ 63) - sint b"
    using sint_range [of b] sint_ops(2) [of max_int b] sint_ops(2) [of min_int b] by (simp_all add: fits_def)
  show ?thesis
    using sint_range [of a] sint_range [of b] m
      word_eq_sint [of b 0]
    by (cases "0 < sint b"; cases "sint b < 0") (auto simp: of1_add_overflow_def do_add_overflow_def if_fits_def c_less_def fits_def)
qed

lemma of1_sub_exact: "of1_sub_overflow a b = do_sub_overflow a b"
proof -
  have m: "0 < sint b \<Longrightarrow> sint (min_int + b) = - (2 ^ 63) + sint b" "sint b < 0 \<Longrightarrow> sint (max_int + b) = 2 ^ 63 - 1 + sint b"
    using sint_range [of b] sint_ops(1) [of max_int b] sint_ops(1) [of min_int b] by (simp_all add: fits_def)
  show ?thesis
    using sint_range [of a] sint_range [of b] m
      word_eq_sint [of b 0]
    by (cases "0 < sint b"; cases "sint b < 0") (auto simp: of1_sub_overflow_def do_sub_overflow_def if_fits_def c_less_def fits_def)
qed

text \<open>The bounds of a product by a truncated quotient.\<close>

lemma sdiv_signs:
  fixes m x :: int
  shows "0 \<le> m \<Longrightarrow> 0 < x \<Longrightarrow> m sdiv x = m div x" "m \<le> 0 \<Longrightarrow> 0 < x \<Longrightarrow> m sdiv x = - (- m div x)"
    "0 \<le> m \<Longrightarrow> x < 0 \<Longrightarrow> m sdiv x = - (m div - x)"
  by (auto simp: signed_divide_int_def sgn_if)

lemma mult_bounds:
  fixes x y m :: int
  assumes "0 < x"
  shows "x * y \<le> m \<longleftrightarrow> y \<le> m div x" "- m \<le> x * y \<longleftrightarrow> - (m div x) \<le> y"
proof -
  have 1: "x * y \<le> m \<longleftrightarrow> y \<le> m div x" for y
  proof
    assume "x * y \<le> m"
    then show "y \<le> m div x"
      using assms zdiv_mono1 [of "x * y" m x] by simp
  next
    assume "y \<le> m div x"
    then have "x * y \<le> x * (m div x)"
      using assms by simp
    also have "\<dots> \<le> m"
      using assms mult_div_mod_eq [of x m] pos_mod_sign [of x m] by linarith
    finally show "x * y \<le> m" .
  qed
  then show "x * y \<le> m \<longleftrightarrow> y \<le> m div x" .
  show "- m \<le> x * y \<longleftrightarrow> - (m div x) \<le> y"
    using 1 [of "- y"] by auto
qed

lemma of1_mul_exact:
  "of1_mul_overflow a b = (if sint a \<le> 0 \<and> 0 < sint b then None else do_mul_overflow a b)"
proof -
  let ?x = "sint a" and ?y = "sint b"
  have d: "sint (c_div max_int c) = (2 ^ 63 - 1) sdiv sint c" if "c \<noteq> 0" for c
    unfolding c_div_def using sint_of_fits [OF sdiv_fits(1) [of c max_int]] that
    by (simp add: div_overflow_def max_int_def min_int_def)
  have e: "sint (c_div min_int c) = - (2 ^ 63) sdiv sint c" if "0 < sint c" for c
    unfolding c_div_def using sint_of_fits [OF sdiv_fits(1) [of c min_int]] that
    by (auto simp: div_overflow_def word_eq_sint)
  have f: "fits (?x * ?y) \<longleftrightarrow> - (2 ^ 63) \<le> ?x * ?y \<and> ?x * ?y \<le> 2 ^ 63 - 1"
    by (auto simp: fits_def)
  consider "0 < ?x" "0 < ?y" | "0 < ?x" "?y \<le> 0" | "?x \<le> 0" "0 < ?y" | "?x < 0" "?y \<le> 0" | "?x = 0" "?y \<le> 0"
    by linarith
  then show ?thesis
  proof cases
    case 1
    have "- (2 ^ 63) \<le> ?x * ?y"
      using 1 by (simp add: order_trans [of _ 0])
    moreover have "sint (c_div max_int b) = (2 ^ 63 - 1) div ?y"
      using d [of b] 1 sdiv_signs(1) [of "2 ^ 63 - 1" ?y] by (auto simp: word_eq_sint)
    ultimately show ?thesis
      using 1 f mult_bounds(1) [of ?y ?x "2 ^ 63 - 1"]
      by (simp add: of1_mul_overflow_def do_mul_overflow_def if_fits_def c_less_def mult.commute not_le [symmetric])
  next
    case 2
    have "?x * ?y \<le> 0"
      using 2 by (simp add: mult_le_0_iff)
    moreover have "sint (c_div min_int a) = - (2 ^ 63 div ?x)"
      using e [of a] 2 sdiv_signs(2) [of "- (2 ^ 63)" ?x] by simp
    ultimately show ?thesis
      using 2 f mult_bounds(2) [of ?x "2 ^ 63" ?y]
      by (simp add: of1_mul_overflow_def do_mul_overflow_def if_fits_def c_less_def not_le [symmetric])
  next
    case 3
    have "sint (c_div max_int b) = (2 ^ 63 - 1) div ?y"
      using d [of b] 3 sdiv_signs(1) [of "2 ^ 63 - 1" ?y] by (auto simp: word_eq_sint)
    moreover have "1 \<le> (2 ^ 63 - 1) div ?y"
      using mult_bounds(1) [of ?y 1 "2 ^ 63 - 1"] 3 sint_range [of b] by simp
    ultimately show ?thesis
      using 3 by (simp add: of1_mul_overflow_def c_less_def)
  next
    case 4
    have "0 \<le> ?x * ?y"
      using 4 by (simp add: mult_nonpos_nonpos)
    moreover have "sint (c_div max_int a) = - ((2 ^ 63 - 1) div - ?x)"
      using d [of a] 4 sdiv_signs(3) [of "2 ^ 63 - 1" ?x] by (auto simp: word_eq_sint)
    ultimately show ?thesis
      using 4 f mult_bounds(1) [of "- ?x" "- ?y" "2 ^ 63 - 1"] word_eq_sint [of a 0]
      by (auto simp add: of1_mul_overflow_def do_mul_overflow_def if_fits_def c_less_def)
  next
    case 5
    then show ?thesis
      using word_eq_sint [of a 0] by (simp add: of1_mul_overflow_def do_mul_overflow_def if_fits_def c_less_def fits_def)
  qed
qed

section \<open>Properties\<close>

text \<open>C7: The operators on machine integers give the exact results of the integers without bounds, the
  quotient rounded down and the remainder with the sign of the divisor, and give a machine integer
  exactly when the result fits; the only errors are a divisor 0 and a negative count of a shift.
  This holds when the Gmp module computes exactly.\<close>

theorem int_operators_exact:
  assumes "exact_bignums big"
  shows "subtract_ints big a b = normal (sint a - sint b) \<and>
    negate_int big a = normal (- sint a) \<and>
    multiply_ints big a b = normal (sint a * sint b) \<and>
    divide_ints big a b = (if b = 0 then Inl Division_By_Zero else Inr (normal (sint a div sint b))) \<and>
    mod_ints big a b = (if b = 0 then Inl Division_By_Zero else Inr (normal (sint a mod sint b))) \<and>
    lsh_ints big a b = (if sint b < 0 then Inl Wrong_Type_Of_Arg else Inr (normal (sint a * 2 ^ nat (sint b)))) \<and>
    rsh_ints a b = (if sint b < 0 then Inl Wrong_Type_Of_Arg else Inr (normal (sint a div 2 ^ nat (sint b)))) \<and>
    compl_int a = normal (- sint a - 1)"
  unfolding compl_int_def
  by (intro conjI subtract_exact negate_exact multiply_exact divide_exact mod_exact lsh_exact rsh_exact
      small_normal sint_ops(5) assms)

definition gmp :: bignums where
  "gmp op ns = normal (exact op ns)"

lemma gmp_exact: "exact_bignums gmp"
  by (simp add: exact_bignums_def gmp_def)

theorem int_operators_exact_witness:
  "mod_ints gmp (word_of_int (- 7)) 3 = Inr (normal 2) \<and> divide_ints gmp min_int (- 1) = Inr (Bignum (2 ^ 63))"
proof -
  have "mod_ints gmp (word_of_int (- 7)) 3 = Inr (normal (sint (word_of_int (- 7) :: int_type) mod sint (3 :: int_type)))"
    using int_operators_exact [OF gmp_exact, of "word_of_int (- 7)" 3] by simp
  moreover have "divide_ints gmp min_int (- 1) = Inr (normal (sint min_int div sint (- 1 :: int_type)))"
    using int_operators_exact [OF gmp_exact, of min_int "- 1"] by simp
  ultimately show ?thesis
    by (simp add: normal_def fits_def)
qed

text \<open>The sum in pairs: every partial sum is a machine integer when it fits.\<close>

lemma pair_add_exact:
  assumes "exact_bignums big"
  shows "pair_add big fresh (normal n) x = Inr (normal (n + sint x))"
    "pair_add big True (Bignum n) x = Inr (normal (n + sint x))"
proof -
  have b: "big Add [n, sint x] = normal (n + sint x)" "big Add_Eq [n, sint x] = normal (n + sint x)"
    using assms by (simp_all add: exact_bignums_def)
  show "pair_add big True (Bignum n) x = Inr (normal (n + sint x))"
    by (simp add: pair_add_def b)
  have u: "normal m \<noteq> Small r True" for m r
    by (simp add: normal_def)
  show "pair_add big fresh (normal n) x = Inr (normal (n + sint x))"
  proof (cases "fits n")
    case True
    then show ?thesis
      by (simp add: pair_add_def do_add_overflow_def if_fits_def b) (simp add: normal_def pair_add_def do_add_overflow_def if_fits_def b)
  next
    case False
    then have "normal n = Bignum n"
      by (simp add: normal_def)
    then show ?thesis
      using u [of "n + sint x"] by (auto simp: pair_add_def b split: number.splits bool.splits)
  qed
qed

lemma pairwise_add_exact:
  assumes "exact_bignums big"
  shows "pairwise_add big fresh (normal n) xs = Inr (normal (n + sum_list (map sint xs)))"
  by (induction xs arbitrary: n fresh) (simp_all add: pair_add_exact [OF assms] add.assoc)

text \<open>C8: The sum of several integers is exact and is a machine integer when it fits, whatever the
  partial sums do: also when one of them overflows and the sum is computed again in pairs, where the
  partial sums change between big and machine integers. It is \<open>UNDEFINED\<close> exactly when all the
  arguments are. The methods \<open>`+\<close> and \<open>`+=\<close> of big integers are those of the Gmp module, which
  add two numbers exactly.\<close>

theorem add_ints_spec:
  assumes "exact_bignums big" "2 \<le> length args" "\<forall>(x, u) \<in> set args. u \<longrightarrow> x = 0"
  shows "add_ints big args =
    Inr (if \<forall>(x, u) \<in> set args. u then Small 0 True else normal (sum_list (map (sint \<circ> fst) args)))"
proof -
  obtain x u y v xs where args: "args = (x, u) # (y, v) # xs"
    using assms(2) by (cases args; cases "tl args") auto
  have a: "add_ints big args = (case add_loop x (x = 0 \<and> u) ((y, v) # xs) of
      None \<Rightarrow> pairwise_add big True (Bignum (sint x)) (map fst ((y, v) # xs))
    | Some (tot, all_undef) \<Rightarrow> Inr (if all_undef then Small 0 True else Small tot False))"
    unfolding add_ints_def args by simp
  show ?thesis
  proof (cases "add_loop x (x = 0 \<and> u) ((y, v) # xs)")
    case None
    have nu: "\<not> (\<forall>(x, u) \<in> set args. u)"
    proof
      assume u: "\<forall>(x, u) \<in> set args. u"
      then have "x = 0" "\<forall>(x, u) \<in> set ((y, v) # xs). x = 0"
        using assms(3) args by auto
      then show False
        using add_loop_zero [of "(y, v) # xs" "x = 0 \<and> u"] None by auto
    qed
    have "pairwise_add big True (Bignum (sint x)) (map fst ((y, v) # xs)) =
        Inr (normal (sint x + sint y + sum_list (map sint (map fst xs))))"
      by (simp add: pair_add_exact [OF assms(1)] pairwise_add_exact [OF assms(1)])
    moreover have "sum_list (map (sint \<circ> fst) args) = sint x + sint y + sum_list (map sint (map fst xs))"
      by (simp add: args)
    ultimately show ?thesis
      unfolding if_not_P [OF nu] using a None by simp
  next
    case (Some p)
    then obtain t w where p: "add_loop x (x = 0 \<and> u) ((y, v) # xs) = Some (t, w)"
      by (cases p) auto
    have "\<forall>(x, u) \<in> set ((y, v) # xs). u \<longrightarrow> x = 0"
      using assms(3) args by auto
    then have "sint t = sum_list (map (sint \<circ> fst) args)" "w \<longleftrightarrow> (\<forall>(x, u) \<in> set args. u)"
      using add_loop_exact [OF p] assms(3) args by auto
    then show ?thesis
      using a p by (simp add: small_normal)
  qed
qed

theorem add_ints_spec_witness:
  "add_ints gmp [(max_int, False), (1, False), (word_of_int (- 1), False)] = Inr (Small max_int False)"
proof -
  have "add_ints gmp [(max_int, False), (1, False), (word_of_int (- 1), False)] = Inr (normal (2 ^ 63 - 1))"
    using add_ints_spec [OF gmp_exact, of "[(max_int, False), (1, False), (word_of_int (- 1), False)]"] by simp
  then show ?thesis
    by (simp add: normal_def fits_def max_int_def)
qed

text \<open>The tests for overflows that are compiled when the compiler has neither overflow builtins nor
  integers of 128 bits: those of sums and differences are exact; the one of products is exact but
  for a first factor that is not positive and a second that is, where it always reports an overflow.\<close>

theorem of1_overflow_tests:
  "of1_add_overflow a b = do_add_overflow a b \<and> of1_sub_overflow a b = do_sub_overflow a b \<and>
   of1_mul_overflow a b = (if sint a \<le> 0 \<and> 0 < sint b then None else do_mul_overflow a b)"
  by (intro conjI of1_add_exact of1_sub_exact of1_mul_exact)

end
