(* ===== verification/Seq_Ops.thy ===== *)
theory Seq_Ops
  imports Int_Ops
begin

text \<open>
  The operators on strings and arrays with integers (\<open>src/src/operators.c\<close>): subranges, repetition,
  and the division into pieces with its remainder. A string or an array is the list of its
  characters or elements; how arrays share their elements is in \<open>Array_Block\<close>.
\<close>

section \<open>Subranges\<close>

text \<open>\<open>string_slice\<close> from \<open>start\<close>: reading outside the string is an error, but for an empty slice.\<close>

definition string_slice :: "'a list \<Rightarrow> int \<Rightarrow> int \<Rightarrow> 'a list result" where
  "string_slice xs start len =
     (if len = 0 then Inr []
      else if start < 0 \<or> len < 0 \<or> start + len > int (length xs) then Inl Bad_Memory_Access
      else Inr (take (nat len) (drop (nat start) xs)))"

text \<open>How a bound of \<open>[..]\<close> is given, and the value after a conversion to \<open>INT32\<close>.\<close>

datatype bound = Open_Bound | From_Beg | From_End

definition int32 :: "int \<Rightarrow> int" where
  "int32 n = sint (word_of_int n :: 32 word)"

definition range_from :: "bound \<Rightarrow> int \<Rightarrow> int \<Rightarrow> int" where
  "range_from b len low =
     int32 (case b of
       Open_Bound \<Rightarrow> 0
     | From_End \<Rightarrow> (if low \<ge> len then 0 else if low < 0 then len else len - 1 - low)
     | From_Beg \<Rightarrow> (if low < 0 then 0 else if low > len then len else low))"

definition range_to :: "bound \<Rightarrow> int \<Rightarrow> int \<Rightarrow> int \<Rightarrow> int" where
  "range_to b len from high =
     int32 (case b of
       Open_Bound \<Rightarrow> len
     | From_End \<Rightarrow> (if high > len - from then from else if high \<le> 0 then len else len - high)
     | From_Beg \<Rightarrow> (if high < from then from else if high \<ge> len then len else high + 1))"

definition string_range :: "bound \<Rightarrow> bound \<Rightarrow> int_type \<Rightarrow> int_type \<Rightarrow> 'a list \<Rightarrow> 'a list result" where
  "string_range lt ht low high xs =
     (let len = int32 (int (length xs));
          from = range_from lt len (sint low);
          to = range_to ht len from (sint high)
      in if from = 0 \<and> to = len then Inr xs else string_slice xs from (to - from))"

section \<open>Division and remainder\<close>

fun pieces :: "nat \<Rightarrow> int \<Rightarrow> int \<Rightarrow> 'a list \<Rightarrow> 'a list list result" where
  "pieces 0 pos len xs = Inr []"
| "pieces (Suc e) pos len xs =
     bind_result (string_slice xs pos len) (\<lambda>p.
     bind_result (pieces e (pos + len) len xs) (\<lambda>ps. Inr (p # ps)))"

definition divide_string :: "'a list \<Rightarrow> int_type \<Rightarrow> 'a list list result" where
  "divide_string xs n =
     (if n = 0 then Inl Division_By_Zero
      else
        (let l = int (length xs); len = sint (if c_less n 0 then - n else n);
             pos = (if c_less n 0 then l smod len else 0)
         in if l sdiv len > 2 ^ 29 then Inl Size_Too_Big else pieces (nat (l sdiv len)) pos len xs))"

definition mod_string :: "'a list \<Rightarrow> int_type \<Rightarrow> 'a list result" where
  "mod_string xs n =
     (if n = 0 then Inl Division_By_Zero
      else
        (let l = int (length xs) in
         if c_less n 0 then string_slice xs 0 (l smod sint (- n))
         else (let tmp = l smod sint n in string_slice xs (l - tmp) tmp)))"

section \<open>Repetition\<close>

text \<open>The copies are written to a block of \<open>cap\<close> characters, from \<open>pos\<close> on.\<close>

definition write_copy :: "'a list \<Rightarrow> nat \<Rightarrow> nat \<Rightarrow> 'a list \<Rightarrow> 'a list result" where
  "write_copy xs cap pos out =
     (if pos + length xs > cap then Inl Bad_Memory_Access else Inr (out @ xs))"

fun copies :: "nat \<Rightarrow> 'a list \<Rightarrow> nat \<Rightarrow> nat \<Rightarrow> 'a list \<Rightarrow> 'a list result" where
  "copies 0 xs cap pos out = Inr out"
| "copies (Suc e) xs cap pos out =
     bind_result (write_copy xs cap pos out) (copies e xs cap (pos + length xs))"

text \<open>The length of the result is computed with 64 bits; the block of a string has room for the
  terminating null character as well.\<close>

definition string_bytes :: "int_type \<Rightarrow> nat \<Rightarrow> nat result" where
  "string_bytes len shift =
     (if c_less len 0 \<or> (unat len + 1) * 2 ^ shift \<ge> 2 ^ 64 then Inl Size_Too_Big
      else Inr (unat len + 1))"

definition multiply_string :: "'a list \<Rightarrow> nat \<Rightarrow> int_type \<Rightarrow> 'a list result" where
  "multiply_string xs shift n =
     (if c_less n 0 then Inl Wrong_Type_Of_Arg
      else bind_result (string_bytes (word_of_nat (length xs) * n) shift) (\<lambda>cap.
        copies (unat n) xs cap 0 []))"

text \<open>The loop over an array counts with an \<open>INT32\<close>, which is compared with all of the factor.\<close>

partial_function (option) copies_array ::
  "32 word \<Rightarrow> int_type \<Rightarrow> 'a list \<Rightarrow> nat \<Rightarrow> nat \<Rightarrow> 'a list \<Rightarrow> 'a list result option" where
  "copies_array e n xs cap pos out =
     (if sint e < sint n then
        (case write_copy xs cap pos out of
           Inl err \<Rightarrow> Some (Inl err)
         | Inr out \<Rightarrow> copies_array (e + 1) n xs cap (pos + length xs) out)
      else Some (Inr out))"

text \<open>\<open>allocate_array\<close> refuses more than \<open>2 ^ 29\<close> elements, and negative numbers with them.\<close>

definition multiply_array :: "'a list \<Rightarrow> int_type \<Rightarrow> 'a list result option" where
  "multiply_array xs n =
     (if c_less n 0 then Some (Inl Wrong_Type_Of_Arg)
      else
        (let len = word_of_nat (length xs) * n in
         if unat len > 2 ^ 29 then Some (Inl Size_Too_Big)
         else copies_array 0 n xs (unat len) 0 []))"

section \<open>Subranges are ranges of indices\<close>

lemma int32_id [simp]: "- (2 ^ 31) \<le> n \<Longrightarrow> n < 2 ^ 31 \<Longrightarrow> int32 n = n"
  by (simp add: int32_def sint_sbintrunc' signed_take_bit_int_eq_self)

lemma nths_interval: "nths xs {i. a \<le> i \<and> i < b} = take (b - a) (drop a xs)"
proof (induction xs arbitrary: a b)
  case (Cons x xs)
  have "{j. a \<le> Suc j \<and> Suc j < b} = {i. a - 1 \<le> i \<and> i < b - 1}"
    by auto
  then show ?case
    using Cons.IH [of "a - 1" "b - 1"] by (cases a; cases b) (auto simp: nths_Cons)
qed simp

text \<open>The bounds that a range stands for, both of them included.\<close>

definition lower :: "bound \<Rightarrow> int \<Rightarrow> int \<Rightarrow> int" where
  "lower b len low = (case b of Open_Bound \<Rightarrow> 0 | From_Beg \<Rightarrow> low | From_End \<Rightarrow> len - 1 - low)"

definition upper :: "bound \<Rightarrow> int \<Rightarrow> int \<Rightarrow> int" where
  "upper b len high = (case b of Open_Bound \<Rightarrow> len - 1 | From_Beg \<Rightarrow> high | From_End \<Rightarrow> len - 1 - high)"

lemma range_bounds:
  assumes "0 \<le> len" "len < 2 ^ 31"
  shows "0 \<le> range_from lt len low" "range_from lt len low \<le> range_to ht len (range_from lt len low) high"
    "range_to ht len (range_from lt len low) high \<le> len"
    "\<And>i. 0 \<le> i \<Longrightarrow> i < len \<Longrightarrow> lower lt len low \<le> i \<and> i \<le> upper ht len high \<longleftrightarrow>
      range_from lt len low \<le> i \<and> i < range_to ht len (range_from lt len low) high"
proof -
  let ?f = "range_from lt len low" and ?t = "range_to ht len (range_from lt len low) high"
  have f: "0 \<le> ?f" "?f \<le> len" "0 \<le> i \<Longrightarrow> i < len \<Longrightarrow> lower lt len low \<le> i \<longleftrightarrow> ?f \<le> i" for i
    using assms by (auto simp: range_from_def lower_def split: bound.split)
  have t: "?f \<le> ?t" "?t \<le> len" "0 \<le> i \<Longrightarrow> i < len \<Longrightarrow> ?f \<le> i \<Longrightarrow> i \<le> upper ht len high \<longleftrightarrow> i < ?t" for i
    using assms f(1,2) by (auto simp: range_to_def upper_def split: bound.split)
  show "0 \<le> ?f" "?f \<le> ?t" "?t \<le> len"
    using f(1) t(1,2) by blast+
  show "lower lt len low \<le> i \<and> i \<le> upper ht len high \<longleftrightarrow> ?f \<le> i \<and> i < ?t" if "0 \<le> i" "i < len" for i
    using f(3) t(3) that by blast
qed

lemma nths_cong_length: "(\<And>i. i < length xs \<Longrightarrow> i \<in> A \<longleftrightarrow> i \<in> B) \<Longrightarrow> nths xs A = nths xs B"
  by (induction xs arbitrary: A B) (auto simp: nths_Cons)

section \<open>Pieces\<close>

lemma string_slice_ok:
  "0 \<le> start \<Longrightarrow> 0 \<le> len \<Longrightarrow> start + len \<le> int (length xs) \<Longrightarrow>
    string_slice xs start len = Inr (take (nat len) (drop (nat start) xs))"
  by (simp add: string_slice_def)

lemma pieces_ok:
  assumes "0 \<le> pos" "0 < len" "pos + int e * len \<le> int (length xs)"
  shows "\<exists>ps. pieces e pos len xs = Inr ps \<and> length ps = e \<and> (\<forall>p \<in> set ps. int (length p) = len) \<and>
    concat ps = take (nat (int e * len)) (drop (nat pos) xs)"
  using assms
proof (induction e arbitrary: pos)
  case (Suc e)
  have le: "pos + len \<le> int (length xs)" "pos + len + int e * len \<le> int (length xs)"
  proof -
    have "0 \<le> int e * len"
      using Suc.prems(2) by simp
    then show "pos + len \<le> int (length xs)" "pos + len + int e * len \<le> int (length xs)"
      using Suc.prems(3) by (simp_all add: distrib_right)
  qed
  obtain ps where ps: "pieces e (pos + len) len xs = Inr ps" "length ps = e" "\<forall>p \<in> set ps. int (length p) = len"
    "concat ps = take (nat (int e * len)) (drop (nat (pos + len)) xs)"
    using Suc.IH [of "pos + len"] Suc.prems le by auto
  have "nat (int (Suc e) * len) = nat len + nat (int e * len)" "nat (pos + len) = nat len + nat pos"
    using Suc.prems by (simp_all add: nat_add_distrib algebra_simps)
  then show ?case
    using ps Suc.prems le string_slice_ok [of pos len xs] by (simp add: take_add)
qed simp

text \<open>The size and the sign of a divisor.\<close>

lemma abs_divisor:
  assumes "n \<noteq> (0 :: int_type)" "n \<noteq> min_int"
  shows "sint (if c_less n 0 then - n else n) = \<bar>sint n\<bar>" "\<bar>sint n\<bar> \<noteq> 0"
proof -
  have "fits (- sint n)"
    using assms(2) sint_range [of n] by (auto simp: fits_def word_eq_sint)
  then show "sint (if c_less n 0 then - n else n) = \<bar>sint n\<bar>"
    by (simp add: c_less_def sint_ops(4))
  show "\<bar>sint n\<bar> \<noteq> 0"
    using assms(1) by (simp add: word_eq_sint)
qed

text \<open>A subrange holds exactly the characters whose indices are between the bounds, however each of
  them is given, and is never read outside the string, for strings of less than 2 ^ 31 characters.\<close>

theorem string_range_spec:
  assumes "length xs < 2 ^ 31"
  shows "string_range lt ht low high xs =
    Inr (nths xs {i. lower lt (int (length xs)) (sint low) \<le> int i \<and> int i \<le> upper ht (int (length xs)) (sint high)})"
proof -
  let ?l = "int (length xs)"
  let ?f = "range_from lt ?l (sint low)"
  let ?t = "range_to ht ?l ?f (sint high)"
  have l: "0 \<le> ?l" "?l < 2 ^ 31"
    using assms by (simp_all add: nat_less_iff [symmetric])
  then have i: "int32 ?l = ?l"
    by simp
  have b: "0 \<le> ?f" "?f \<le> ?t" "?t \<le> ?l"
    by (rule range_bounds [OF l])+
  have m: "lower lt ?l (sint low) \<le> int i \<and> int i \<le> upper ht ?l (sint high) \<longleftrightarrow> nat ?f \<le> i \<and> i < nat ?t"
    if "i < length xs" for i
    using range_bounds(4) [OF l, of "int i" lt "sint low" ht "sint high"] b that by auto
  have "nths xs {i. lower lt ?l (sint low) \<le> int i \<and> int i \<le> upper ht ?l (sint high)} = nths xs {i. nat ?f \<le> i \<and> i < nat ?t}"
    using m by (intro nths_cong_length) simp
  also have "\<dots> = take (nat (?t - ?f)) (drop (nat ?f) xs)"
    using b(1,2) by (simp add: nths_interval nat_diff_distrib)
  also have "\<dots> = (if ?f = 0 \<and> ?t = ?l then xs else take (nat (?t - ?f)) (drop (nat ?f) xs))"
  proof (cases "?f = 0 \<and> ?t = ?l")
    case True
    then have "?f = 0" "?t = ?l"
      by blast+
    then show ?thesis
      by (simp only: if_True simp_thms) simp
  next
    case False
    then show ?thesis
      by (simp only: if_False)
  qed
  finally show ?thesis
    using string_slice_ok [of ?f "?t - ?f" xs] b unfolding string_range_def Let_def i
    by (simp only: if_distrib [of Inr])
qed

theorem string_range_spec_witness:
  "string_range From_Beg From_End 1 0 ''abcd'' = Inr ''bcd''"
  using string_range_spec [of "''abcd''" From_Beg From_End 1 0] by (simp add: lower_def upper_def nths_Cons)

text \<open>In a string of 2 ^ 31 characters or more the length is truncated to a negative number: the first
  characters of a string, as in \<open>s[..h]\<close>, are then the whole string.\<close>

theorem long_string_range:
  assumes "2 ^ 31 \<le> length xs" "length xs < 2 ^ 32" "0 \<le> sint high"
  shows "string_range Open_Bound From_Beg low high xs = Inr xs"
proof -
  have l: "int32 (int (length xs)) = int (length xs) - 2 ^ 32"
  proof -
    have "(int (length xs) + 2 ^ 31) mod 2 ^ 32 = int (length xs) - 2 ^ 31"
      using assms(1,2) by (intro int_mod_pos_eq [where q = 1]) simp_all
    then show ?thesis
      unfolding int32_def sint_sbintrunc' by (simp add: signed_take_bit_eq_take_bit_shift take_bit_eq_mod)
  qed
  have b: "int (length xs) - 2 ^ 32 \<le> sint high" "- (2 ^ 31) \<le> int (length xs) - 2 ^ 32"
    "int (length xs) - 2 ^ 32 < 2 ^ 31" "\<not> sint high < 0"
    using assms by simp_all
  show ?thesis
    unfolding string_range_def range_from_def range_to_def Let_def l using b by (simp add: int32_id)
qed

theorem long_string_range_witness:
  "string_range Open_Bound From_Beg 0 3 (replicate (2 ^ 31) CHR ''a'') = Inr (replicate (2 ^ 31) CHR ''a'')"
  by (rule long_string_range) simp_all

text \<open>C39: Dividing a string by an integer and taking the remainder split it: the pieces all have the length
  asked for, the remainder is shorter, and together they are the string, with the remainder at the
  end for a positive divisor and at the beginning for a negative one. The divisor 0 is an error.\<close>

theorem string_division_spec:
  assumes "n \<noteq> min_int" "length xs \<le> 2 ^ 29"
  shows "if n = 0 then divide_string xs n = Inl Division_By_Zero \<and> mod_string xs n = Inl Division_By_Zero
    else \<exists>ps r. divide_string xs n = Inr ps \<and> mod_string xs n = Inr r \<and>
      (\<forall>p \<in> set ps. int (length p) = \<bar>sint n\<bar>) \<and> int (length r) < \<bar>sint n\<bar> \<and>
      xs = (if sint n < 0 then r @ concat ps else concat ps @ r)"
proof (cases "n = 0")
  case True
  then show ?thesis
    by (simp add: divide_string_def mod_string_def)
next
  case False
  let ?l = "int (length xs)" and ?n = "\<bar>sint n\<bar>"
  note n = abs_divisor [OF False assms(1)]
  have d: "?l sdiv ?n = ?l div ?n" "?l smod ?n = ?l mod ?n"
    using n(2) sdiv_signs(1) [of ?l ?n] mod_signs(1) [of ?n ?l] by simp_all
  define m where "m = ?l mod ?n"
  define q where "q = ?l div ?n"
  have m: "0 \<le> m" "m < ?n" "0 \<le> q" "q * ?n + m = ?l"
    using n(2) by (simp_all add: m_def q_def pos_imp_zdiv_nonneg_iff)
  have le: "q * ?n \<le> ?l" "nat (q * ?n) + nat m = length xs"
    using m by (simp_all add: nat_add_distrib [symmetric])
  have "q \<le> q * ?n"
    using m(3) n(2) mult_left_mono [of 1 ?n q] by simp
  moreover have "int (length xs) \<le> int (2 ^ 29)"
    using assms(2) by (simp only: of_nat_le_iff)
  ultimately have q: "q \<le> 2 ^ 29"
    using le(1) by simp
  show ?thesis
  proof (cases "sint n < 0")
    case True
    obtain ps where ps: "pieces (nat q) m ?n xs = Inr ps" "\<forall>p \<in> set ps. int (length p) = ?n"
      "concat ps = take (nat (q * ?n)) (drop (nat m) xs)"
      using pieces_ok [of m ?n "nat q" xs] m n(2) by auto
    have "divide_string xs n = Inr ps"
      using True n(1) ps(1) d False q by (simp add: divide_string_def c_less_def Let_def m_def q_def)
    moreover have "mod_string xs n = Inr (take (nat m) xs)"
      using True n(1) d False m le string_slice_ok [of 0 m xs] by (simp add: mod_string_def c_less_def Let_def m_def)
    moreover have "xs = take (nat m) xs @ concat ps"
      using ps(3) le(2) by simp
    ultimately show ?thesis
      using ps(2) m True False le by auto
  next
    case pos: False
    obtain ps where ps: "pieces (nat q) 0 ?n xs = Inr ps" "\<forall>p \<in> set ps. int (length p) = ?n"
      "concat ps = take (nat (q * ?n)) xs"
      using pieces_ok [of 0 ?n "nat q" xs] m n(2) by auto
    have "divide_string xs n = Inr ps"
      using pos n(1) ps(1) d False q by (simp add: divide_string_def c_less_def Let_def q_def)
    moreover have "mod_string xs n = Inr (drop (nat (q * ?n)) xs)"
    proof -
      have "?l - m = q * ?n"
        using m by simp
      then show ?thesis
        using pos n(1) d False m le string_slice_ok [of "q * ?n" m xs] by (simp add: mod_string_def c_less_def Let_def m_def)
    qed
    moreover have "xs = concat ps @ drop (nat (q * ?n)) xs"
      using ps(3) by simp
    ultimately show ?thesis
      using ps(2) m pos False le by auto
  qed
qed

theorem string_division_spec_witness:
  "\<exists>ps r. divide_string ''abcde'' (word_of_int (- 2)) = Inr ps \<and> mod_string ''abcde'' (word_of_int (- 2)) = Inr r \<and>
    ''abcde'' = r @ concat ps"
proof -
  have "word_of_int (- 2) \<noteq> min_int" "word_of_int (- 2) \<noteq> (0 :: int_type)" "sint (word_of_int (- 2) :: int_type) = - 2"
    using sint_of_fits [of "- 2"] by (auto simp: fits_def word_eq_sint)
  then show ?thesis
    using string_division_spec [of "word_of_int (- 2)" "''abcde''"] by auto
qed

section \<open>Repetition\<close>

lemma copies_ok:
  "pos + e * length xs \<le> cap \<Longrightarrow> copies e xs cap pos out = Inr (out @ concat (replicate e xs))"
  by (induction e arbitrary: pos out) (simp_all add: write_copy_def)

lemma copies_array_ok:
  assumes "sint e + int k = sint n" "0 \<le> sint e" "sint n < 2 ^ 31" "pos + k * length xs \<le> cap"
  shows "copies_array e n xs cap pos out = Some (Inr (out @ concat (replicate k xs)))"
  using assms
proof (induction k arbitrary: e pos out)
  case 0
  then show ?case
    by (subst copies_array.simps) simp
next
  case (Suc k)
  have "sint e + 1 < 2 ^ 31"
    using Suc.prems(1,3) by simp
  then have "sint (e + 1) = sint e + 1"
    using int32_id [of "sint e + 1"] Suc.prems(2) by (simp add: int32_def)
  then show ?case
    using Suc.IH [of "e + 1" "pos + length xs" "out @ xs"] Suc.prems
    by (subst copies_array.simps) (simp add: write_copy_def)
qed

lemma word_length:
  fixes n :: int_type
  assumes "0 \<le> sint n" "length xs * unat n < 2 ^ 63"
  shows "unat (word_of_nat (length xs) * n) = length xs * unat n" "\<not> c_less (word_of_nat (length xs) * n) 0"
proof -
  have "word_of_nat (length xs) * n = word_of_nat (length xs * unat n)"
    by simp
  moreover have "unat (word_of_nat (length xs * unat n) :: int_type) = length xs * unat n"
    using assms(2) by (simp only: unat_of_nat take_bit_nat_def) simp
  ultimately show u: "unat (word_of_nat (length xs) * n) = length xs * unat n"
    by metis
  have "fits (int (length xs * unat n))"
    unfolding fits_def
  proof
    show "int (length xs * unat n) < 2 ^ 63"
      using assms(2) by (simp only: of_nat_less_iff [where 'a = int, symmetric] of_nat_power of_nat_numeral)
    show "- (2 ^ 63) \<le> int (length xs * unat n)"
      by (rule order_trans [of _ 0]) simp_all
  qed
  then have "sint (word_of_int (int (length xs * unat n)) :: int_type) = int (length xs * unat n)"
    by (rule sint_of_fits)
  then show "\<not> c_less (word_of_nat (length xs) * n) 0"
    by (simp add: c_less_def not_less)
qed

text \<open>Repeating a string or an array concatenates the copies and writes nothing outside the result,
  as long as the length of the result does not overflow.\<close>

theorem repetition_spec:
  assumes "0 \<le> sint n" "length xs * unat n \<le> 2 ^ 29" "sint n < 2 ^ 31" "shift \<le> 2"
  shows "multiply_string xs shift n = Inr (concat (replicate (unat n) xs)) \<and>
    multiply_array xs n = Some (Inr (concat (replicate (unat n) xs)))"
proof -
  have l: "length xs * unat n < 2 ^ 63"
    using assms(2) by simp
  note w = word_length [OF assms(1) l]
  have "(2 :: nat) ^ shift \<le> 2 ^ 2"
    using assms(4) by (rule power_increasing) simp
  then have "(length xs * unat n + 1) * 2 ^ shift \<le> (2 ^ 29 + 1) * 2 ^ 2"
    using assms(2) by (intro mult_le_mono) simp_all
  then have "string_bytes (word_of_nat (length xs) * n) shift = Inr (length xs * unat n + 1)"
    using w by (simp add: string_bytes_def)
  then have "multiply_string xs shift n = Inr (concat (replicate (unat n) xs))"
    using assms(1) copies_ok [of 0 "unat n" xs "length xs * unat n + 1" "[]"]
    by (simp add: multiply_string_def c_less_def mult.commute)
  moreover have "multiply_array xs n = Some (Inr (concat (replicate (unat n) xs)))"
    using copies_array_ok [of 0 "unat n" n 0 xs "length xs * unat n" "[]"] assms w
    by (simp add: multiply_array_def c_less_def mult.commute unat_sint)
  ultimately show ?thesis
    by blast
qed

theorem repetition_spec_witness:
  "multiply_string ''ab'' 0 3 = Inr ''ababab'' \<and> multiply_array ''ab'' 3 = Some (Inr ''ababab'')"
proof -
  have "unat (3 :: int_type) = 3"
    by simp
  then have "concat (replicate (unat (3 :: int_type)) ''ab'') = ''ababab''"
    by (simp only: numeral_3_eq_3) simp
  then show ?thesis
    using repetition_spec [of 3 "''ab''" 0] by simp
qed

text \<open>When the length of the result overflows to 0, the copies of a string or an array that is not
  empty are written outside the block allocated for them.\<close>

theorem repetition_overflow:
  assumes "word_of_nat (length xs) * n = (0 :: int_type)" "0 < sint n" "1 < length xs"
  shows "multiply_string xs 0 n = Inl Bad_Memory_Access \<and> multiply_array xs n = Some (Inl Bad_Memory_Access)"
proof -
  obtain e where e: "unat n = Suc e"
    using assms(2) by (cases "unat n") (auto simp: unat_eq_0)
  have "multiply_string xs 0 n = Inl Bad_Memory_Access"
    using assms e by (simp add: multiply_string_def c_less_def string_bytes_def write_copy_def)
  moreover have "multiply_array xs n = Some (Inl Bad_Memory_Access)"
  proof -
    have "xs \<noteq> []"
      using assms(3) by auto
    then have "copies_array 0 n xs 0 0 [] = Some (Inl Bad_Memory_Access)"
      using assms(2) by (subst copies_array.simps) (simp add: write_copy_def)
    then show ?thesis
      using assms by (simp add: multiply_array_def c_less_def)
  qed
  ultimately show ?thesis
    by blast
qed

theorem repetition_overflow_witness:
  "multiply_string ''abcd'' 0 (2 ^ 62) = Inl Bad_Memory_Access"
  using repetition_overflow [of "''abcd''" "2 ^ 62"] by simp

text \<open>Repeating the empty array 2 ^ 31 times or more does not come to an end: the counter of the loop
  has 32 bits and never reaches the factor.\<close>

theorem empty_array_repetition_loops:
  assumes "2 ^ 31 \<le> sint n"
  shows "multiply_array [] n = None"
proof -
  have "copies_array e n xs cap pos out = Some y \<Longrightarrow> xs = [] \<Longrightarrow> 2 ^ 31 \<le> sint n \<Longrightarrow> pos = 0 \<Longrightarrow> False"
    for e n and xs :: "'a list" and cap pos out y
  proof (induction e n xs cap pos out y rule: copies_array.raw_induct [rotated, consumes 1])
    case (1 loop e n xs cap pos out y)
    have "sint e < 2 ^ 31"
      using sint_lt [of e] by simp
    then have "sint e < sint n"
      using 1(4) by linarith
    then have "loop (e + 1) n [] cap 0 out = Some y"
      using 1(2,3,5) by (simp add: write_copy_def)
    then show ?case
      using 1(1) [of "e + 1" n "[]" cap 0 out y] 1(4) by simp
  qed
  then have "copies_array 0 n ([] :: 'a list) 0 0 [] = None"
    using assms by (metis not_None_eq)
  then show ?thesis
    using assms by (simp add: multiply_array_def c_less_def)
qed

theorem empty_array_repetition_loops_witness: "multiply_array ([] :: nat list) (2 ^ 31) = None"
  by (rule empty_array_repetition_loops) simp

end
