(* ===== verification/Sort.thy ===== *)
theory Sort
  imports Prelude "HOL-Library.Multiset"
begin

text \<open>
  The sorting template of the runtime (\<open>src/src/fsort_template.h\<close>): a quicksort that counts its
  rounds and falls back to a heap sort. The items are a list and a pointer to one is its index; a
  read or a write outside of the list is an error. \<open>cmp\<close> is the comparison macro \<open>CMP\<close>.
\<close>

section \<open>Items\<close>

type_synonym 'a cmp = "'a \<Rightarrow> 'a \<Rightarrow> int"

definition item_at :: "'a list \<Rightarrow> int \<Rightarrow> 'a result" where
  "item_at xs i = (if 0 \<le> i \<and> i < int (length xs) then Inr (xs ! nat i) else Inl Bad_Memory_Access)"

definition cmp_at :: "'a cmp \<Rightarrow> 'a list \<Rightarrow> int \<Rightarrow> int \<Rightarrow> int result" where
  "cmp_at cmp xs i j = bind_result (item_at xs i) (\<lambda>x. bind_result (item_at xs j) (\<lambda>y. Inr (cmp x y)))"

definition swap_at :: "'a list \<Rightarrow> int \<Rightarrow> int \<Rightarrow> 'a list result" where
  "swap_at xs i j =
     bind_result (item_at xs i) (\<lambda>x. bind_result (item_at xs j) (\<lambda>y. Inr (xs[nat i := y, nat j := x])))"

text \<open>\<open>g && CMP(i, j) <= 0\<close>.\<close>

definition and_le :: "bool \<Rightarrow> 'a cmp \<Rightarrow> 'a list \<Rightarrow> int \<Rightarrow> int \<Rightarrow> bool result" where
  "and_le g cmp xs i j = (if g then bind_result (cmp_at cmp xs i j) (\<lambda>c. Inr (c \<le> 0)) else Inr False)"

section \<open>The partition\<close>

function scan_up :: "'a cmp \<Rightarrow> 'a list \<Rightarrow> int \<Rightarrow> int \<Rightarrow> int \<Rightarrow> int result" where
  "scan_up cmp xs bas a b =
     bind_result (and_le (a \<le> b) cmp xs a bas) (\<lambda>t. if t then scan_up cmp xs bas (a + 1) b else Inr a)"
  by pat_completeness auto
termination
  by (relation "measure (\<lambda>(cmp, xs, bas, a, b). nat (b + 1 - a))") (auto simp: and_le_def split: if_splits)

function scan_down :: "'a cmp \<Rightarrow> 'a list \<Rightarrow> int \<Rightarrow> int \<Rightarrow> int \<Rightarrow> int result" where
  "scan_down cmp xs bas a b =
     bind_result (and_le (a < b) cmp xs bas b) (\<lambda>t. if t then scan_down cmp xs bas a (b - 1) else Inr b)"
  by pat_completeness auto
termination
  by (relation "measure (\<lambda>(cmp, xs, bas, a, b). nat (b - a))") (auto simp: and_le_def split: if_splits)

text \<open>The scan from both ends in turns; when one end stops the other goes on alone.\<close>

function scan_both :: "'a cmp \<Rightarrow> 'a list \<Rightarrow> int \<Rightarrow> int \<Rightarrow> int \<Rightarrow> (int \<times> int) result" where
  "scan_both cmp xs bas a b =
     bind_result (and_le (a \<le> b) cmp xs a bas) (\<lambda>t.
       if t then
         bind_result (and_le (a + 1 < b) cmp xs bas b) (\<lambda>u.
           if u then scan_both cmp xs bas (a + 1) (b - 1)
           else bind_result (scan_up cmp xs bas (a + 1) b) (\<lambda>a. Inr (a, b)))
       else bind_result (scan_down cmp xs bas a b) (\<lambda>b. Inr (a, b)))"
  by pat_completeness auto
termination
  by (relation "measure (\<lambda>(cmp, xs, bas, a, b). nat (b + 1 - a))") (auto simp: and_le_def split: if_splits)

declare scan_up.simps [simp del] scan_down.simps [simp del] scan_both.simps [simp del]

text \<open>The bounds only move towards each other.\<close>

lemma scan_up_mono: "scan_up cmp xs bas a b = Inr a' \<Longrightarrow> a \<le> a'"
proof (induction cmp xs bas a b arbitrary: a' rule: scan_up.induct)
  case (1 cmp xs bas a b)
  show ?case
    using "1.prems" "1.IH" unfolding scan_up.simps [of cmp xs bas a b]
    by (fastforce simp: bind_result_def split: sum.splits if_splits)
qed

lemma scan_down_mono: "scan_down cmp xs bas a b = Inr b' \<Longrightarrow> b' \<le> b"
proof (induction cmp xs bas a b arbitrary: b' rule: scan_down.induct)
  case (1 cmp xs bas a b)
  show ?case
    using "1.prems" "1.IH" unfolding scan_down.simps [of cmp xs bas a b]
    by (fastforce simp: bind_result_def split: sum.splits if_splits)
qed

lemma scan_both_mono: "scan_both cmp xs bas a b = Inr (a', b') \<Longrightarrow> a \<le> a' \<and> b' \<le> b"
proof (induction cmp xs bas a b arbitrary: a' b' rule: scan_both.induct)
  case (1 cmp xs bas a b)
  obtain t where t: "and_le (a \<le> b) cmp xs a bas = Inr t"
    using "1.prems" by (subst (asm) scan_both.simps) (auto simp: bind_result_def split: sum.splits)
  show ?case
  proof (cases t)
    case True
    obtain u where u: "and_le (a + 1 < b) cmp xs bas b = Inr u"
      using "1.prems" t True by (subst (asm) scan_both.simps) (auto simp: bind_result_def split: sum.splits)
    show ?thesis
    proof (cases u)
      case True
      then have "a + 1 \<le> a' \<and> b' \<le> b - 1"
        using "1.prems" "1.IH" [OF t \<open>t\<close> u] t u \<open>t\<close> by (subst (asm) scan_both.simps) simp
      then show ?thesis
        by simp
    next
      case False
      then have "\<exists>a''. scan_up cmp xs bas (a + 1) b = Inr a'' \<and> a' = a'' \<and> b' = b"
        using "1.prems" t u \<open>t\<close> by (subst (asm) scan_both.simps) (auto simp: bind_result_def split: sum.splits)
      then show ?thesis
        using scan_up_mono [of cmp xs bas "a + 1" b a'] by auto
    qed
  next
    case False
    then have "\<exists>b''. scan_down cmp xs bas a b = Inr b'' \<and> b' = b'' \<and> a' = a"
      using "1.prems" t by (subst (asm) scan_both.simps) (auto simp: bind_result_def split: sum.splits)
    then show ?thesis
      using scan_down_mono [of cmp xs bas a b b'] by auto
  qed
qed

function partition_loop :: "'a cmp \<Rightarrow> int \<Rightarrow> 'a list \<Rightarrow> int \<Rightarrow> int \<Rightarrow> ('a list \<times> int \<times> int) result" where
  "partition_loop cmp bas xs a b =
     (if a < b then
        bind_result (scan_both cmp xs bas a b) (\<lambda>(a, b).
          if a < b then
            bind_result (swap_at xs a b) (\<lambda>xs.
              partition_loop cmp bas xs (a + 1) (if b > a + 2 then b - 1 else b))
          else partition_loop cmp bas xs a b)
      else Inr (xs, a, b))"
  by pat_completeness auto
termination
  by (relation "measures [\<lambda>(cmp, bas, xs, a, b). nat (b - a)]") (auto dest!: scan_both_mono)

declare partition_loop.simps [simp del]

section \<open>The heap sort\<close>

text \<open>One item sinks to its place in the heap of the first \<open>n\<close> items from \<open>bas\<close> on.\<close>

function sift :: "'a cmp \<Rightarrow> int \<Rightarrow> nat \<Rightarrow> nat \<Rightarrow> 'a list \<Rightarrow> 'a list result" where
  "sift cmp bas n y xs =
     (let z = 2 * y + 1 in
      if z \<ge> n then Inr xs
      else
        bind_result (and_le (z + 1 < n) cmp xs (bas + int z) (bas + int (z + 1))) (\<lambda>t.
        let z = (if t then z + 1 else z) in
        bind_result (cmp_at cmp xs (bas + int y) (bas + int z)) (\<lambda>c.
          if c > 0 then Inr xs
          else bind_result (swap_at xs (bas + int y) (bas + int z)) (sift cmp bas n z))))"
  by pat_completeness auto
termination
  by (relation "measure (\<lambda>(cmp, bas, n, y, xs). n - y)") (auto simp: and_le_def split: if_splits)

declare sift.simps [simp del]

definition heap_sort :: "'a cmp \<Rightarrow> int \<Rightarrow> int \<Rightarrow> 'a list \<Rightarrow> 'a list result" where
  "heap_sort cmp bas lst xs =
     (let n = nat (lst - bas + 1) in
      if n < 2 then Inr xs
      else
        bind_result (fold_result (sift cmp bas n) (rev [0..<(n - 2) div 2 + 1]) xs) (\<lambda>xs.
        fold_result (\<lambda>x xs. bind_result (swap_at xs (bas + int x) bas) (sift cmp bas x 0)) (rev [1..<n]) xs))"

section \<open>The sort\<close>

text \<open>The loop goes on with the larger part, with the count of rounds left.\<close>

function do_sort :: "'a cmp \<Rightarrow> int \<Rightarrow> int \<Rightarrow> int \<Rightarrow> 'a list \<Rightarrow> 'a list result" where
  "do_sort cmp max_recursion bas lst xs =
     (if bas < lst then
        if bas + 1 = lst then
          bind_result (cmp_at cmp xs bas lst) (\<lambda>c. if c > 0 then swap_at xs bas lst else Inr xs)
        else if max_recursion - 1 \<le> 0 then heap_sort cmp bas lst xs
        else
          bind_result (swap_at xs bas (bas + (lst - bas) div 2)) (\<lambda>xs.
          bind_result (partition_loop cmp bas xs (bas + 1) lst) (\<lambda>(xs, a, b).
            if a - 1 \<noteq> bas then
              bind_result (swap_at xs (a - 1) bas) (\<lambda>xs.
                if a - 2 - bas < lst - b then
                  bind_result (do_sort cmp (max_recursion - 1) bas (a - 2) xs) (do_sort cmp (max_recursion - 1) b lst)
                else
                  bind_result (do_sort cmp (max_recursion - 1) b lst xs) (do_sort cmp (max_recursion - 1) bas (a - 2)))
            else if - 1 < lst - b then
              bind_result (do_sort cmp (max_recursion - 1) bas (a - 2) xs) (do_sort cmp (max_recursion - 1) b lst)
            else
              bind_result (do_sort cmp (max_recursion - 1) b lst xs) (do_sort cmp (max_recursion - 1) bas (a - 2))))
      else Inr xs)"
  by pat_completeness auto
termination
  by (relation "measure (\<lambda>(cmp, m, bas, lst, xs). nat m)") auto

declare do_sort.simps [simp del]

text \<open>The argument of \<open>my_log2\<close> is converted to an unsigned integer of 64 bits.\<close>

definition fsort :: "'a cmp \<Rightarrow> int \<Rightarrow> int \<Rightarrow> 'a list \<Rightarrow> 'a list result" where
  "fsort cmp bas lst xs = do_sort cmp (int (my_log2 (unat (word_of_int (lst - bas) :: 64 word))) * 2) bas lst xs"

section \<open>Permutations of a range\<close>

inductive permuted :: "int \<Rightarrow> int \<Rightarrow> 'a list \<Rightarrow> 'a list \<Rightarrow> bool" for lo hi where
  permuted_refl [simp, intro]: "permuted lo hi xs xs"
| permuted_swap: "permuted lo hi xs ys \<Longrightarrow> lo \<le> i \<Longrightarrow> i \<le> hi \<Longrightarrow> lo \<le> j \<Longrightarrow> j \<le> hi \<Longrightarrow>
    swap_at ys i j = Inr zs \<Longrightarrow> permuted lo hi xs zs"

abbreviation at :: "'a list \<Rightarrow> int \<Rightarrow> 'a" where
  "at xs i \<equiv> xs ! nat i"

lemma at_in_set: "0 \<le> i \<Longrightarrow> i < int (length xs) \<Longrightarrow> at xs i \<in> set xs"
  by (simp add: nat_less_iff)

lemma item_at_ok [simp]: "0 \<le> i \<Longrightarrow> i < int (length xs) \<Longrightarrow> item_at xs i = Inr (at xs i)"
  by (simp add: item_at_def)

lemma cmp_at_ok [simp]:
  "0 \<le> i \<Longrightarrow> i < int (length xs) \<Longrightarrow> 0 \<le> j \<Longrightarrow> j < int (length xs) \<Longrightarrow>
    cmp_at cmp xs i j = Inr (cmp (at xs i) (at xs j))"
  by (simp add: cmp_at_def)

lemma and_le_ok:
  "(g \<Longrightarrow> 0 \<le> i \<and> i < int (length xs) \<and> 0 \<le> j \<and> j < int (length xs)) \<Longrightarrow>
    and_le g cmp xs i j = Inr (g \<and> cmp (at xs i) (at xs j) \<le> 0)"
  by (simp add: and_le_def)

lemma swap_at_ok [simp]:
  "0 \<le> i \<Longrightarrow> i < int (length xs) \<Longrightarrow> 0 \<le> j \<Longrightarrow> j < int (length xs) \<Longrightarrow>
    swap_at xs i j = Inr (xs[nat i := at xs j, nat j := at xs i])"
  by (simp add: swap_at_def)

lemma swap_at_nth:
  assumes "swap_at xs i j = Inr ys"
  shows "length ys = length xs" "mset ys = mset xs" "0 \<le> i" "0 \<le> j" "nat i < length xs" "nat j < length xs"
    "\<And>k. ys ! k = (if k = nat j then at xs i else if k = nat i then at xs j else xs ! k)"
proof -
  show b: "0 \<le> i" "0 \<le> j" "nat i < length xs" "nat j < length xs"
    using assms by (auto simp: swap_at_def item_at_def bind_result_def split: if_splits)
  then have ys: "ys = xs[nat i := at xs j, nat j := at xs i]"
    using assms by simp
  show "length ys = length xs" "\<And>k. ys ! k = (if k = nat j then at xs i else if k = nat i then at xs j else xs ! k)"
    using ys b by (auto simp: nth_list_update)
  show "mset ys = mset xs"
    using ys b mset_swap [of "nat j" xs "nat i"] by simp
qed

lemma permuted_mset: "permuted lo hi xs ys \<Longrightarrow> mset ys = mset xs"
  by (induction rule: permuted.induct) (auto dest: swap_at_nth(2))

lemma permuted_length: "permuted lo hi xs ys \<Longrightarrow> length ys = length xs"
  by (metis permuted_mset size_mset)

lemma permuted_outside: "permuted lo hi xs ys \<Longrightarrow> int k < lo \<or> hi < int k \<Longrightarrow> ys ! k = xs ! k"
proof (induction rule: permuted.induct)
  case (permuted_swap xs ys i j zs)
  have "0 \<le> i" "0 \<le> j"
    by (rule swap_at_nth [OF permuted_swap.hyps(6)])+
  then have "k \<noteq> nat i" "k \<noteq> nat j"
    using permuted_swap.hyps(2-5) permuted_swap.prems by arith+
  then show ?case
    using permuted_swap swap_at_nth(7) [OF permuted_swap.hyps(6), of k] by simp
qed simp

lemma permuted_all:
  assumes "permuted lo hi xs ys" "\<And>i. lo \<le> i \<Longrightarrow> i \<le> hi \<Longrightarrow> 0 \<le> i \<Longrightarrow> P (at xs i)" "lo \<le> i" "i \<le> hi" "0 \<le> i"
  shows "P (at ys i)"
  using assms
proof (induction arbitrary: i rule: permuted.induct)
  case (permuted_swap xs ys k j zs)
  have "at zs i = at ys k \<or> at zs i = at ys j \<or> at zs i = at ys i"
    using swap_at_nth(7) [OF permuted_swap.hyps(6), of "nat i"] by auto
  then show ?case
    using permuted_swap.IH [OF permuted_swap.prems(1)] permuted_swap.hyps(2-5) permuted_swap.prems(2-4)
      swap_at_nth(3,4) [OF permuted_swap.hyps(6)] by metis
qed

lemma permuted_trans: "permuted lo hi ys zs \<Longrightarrow> permuted lo hi xs ys \<Longrightarrow> permuted lo hi xs zs"
  by (induction rule: permuted.induct) (auto intro: permuted.intros)

lemma permuted_mono: "permuted lo hi xs ys \<Longrightarrow> lo' \<le> lo \<Longrightarrow> hi \<le> hi' \<Longrightarrow> permuted lo' hi' xs ys"
proof (induction rule: permuted.induct)
  case (permuted_swap xs ys i j zs)
  then show ?case
    by (intro permuted.permuted_swap [OF permuted_swap.IH]) auto
qed simp

lemma permuted_one:
  assumes "swap_at xs i j = Inr ys" "lo \<le> i" "i \<le> hi" "lo \<le> j" "j \<le> hi"
  shows "permuted lo hi xs ys"
  using permuted_swap [OF permuted_refl] assms by blast

section \<open>The partition separates the items\<close>

text \<open>For an arbitrary comparison function: \<open>x\<close> was found not above \<open>y\<close>, or \<open>y\<close> above \<open>x\<close>.\<close>

definition below :: "'a cmp \<Rightarrow> 'a \<Rightarrow> 'a \<Rightarrow> bool" where
  "below cmp x y \<longleftrightarrow> cmp x y \<le> 0 \<or> cmp y x > 0"

lemma scan_up_ok:
  assumes "0 \<le> bas" "bas < int (length xs)" "0 \<le> a" "a \<le> b + 1" "b < int (length xs)"
  shows "\<exists>a'. scan_up cmp xs bas a b = Inr a' \<and> a \<le> a' \<and> a' \<le> b + 1 \<and>
    (\<forall>i. a \<le> i \<and> i < a' \<longrightarrow> cmp (at xs i) (at xs bas) \<le> 0) \<and> (a' \<le> b \<longrightarrow> cmp (at xs a') (at xs bas) > 0)"
  using assms
proof (induction "nat (b + 1 - a)" arbitrary: a rule: less_induct)
  case less
  have t: "and_le (a \<le> b) cmp xs a bas = Inr (a \<le> b \<and> cmp (at xs a) (at xs bas) \<le> 0)"
    using less.prems by (intro and_le_ok) auto
  show ?case
  proof (cases "a \<le> b \<and> cmp (at xs a) (at xs bas) \<le> 0")
    case True
    have "\<exists>a'. scan_up cmp xs bas (a + 1) b = Inr a' \<and> a + 1 \<le> a' \<and> a' \<le> b + 1 \<and>
        (\<forall>i. a + 1 \<le> i \<and> i < a' \<longrightarrow> cmp (at xs i) (at xs bas) \<le> 0) \<and> (a' \<le> b \<longrightarrow> cmp (at xs a') (at xs bas) > 0)"
      using True less.prems by (intro less.hyps) auto
    then obtain a' where a': "scan_up cmp xs bas (a + 1) b = Inr a'" "a + 1 \<le> a'" "a' \<le> b + 1"
      "\<And>i. a + 1 \<le> i \<Longrightarrow> i < a' \<Longrightarrow> cmp (at xs i) (at xs bas) \<le> 0" "a' \<le> b \<longrightarrow> cmp (at xs a') (at xs bas) > 0"
      by blast
    have "scan_up cmp xs bas a b = Inr a'"
      unfolding scan_up.simps [of cmp xs bas a b] t using True a'(1) by simp
    moreover have "cmp (at xs i) (at xs bas) \<le> 0" if "a \<le> i" "i < a'" for i
      using that True a'(4) [of i] by (cases "i = a") auto
    ultimately show ?thesis
      using a' by auto
  next
    case False
    have "scan_up cmp xs bas a b = Inr a"
      unfolding scan_up.simps [of cmp xs bas a b] t bind_result_simps if_not_P [OF False] by (rule refl)
    then show ?thesis
      using less.prems False by auto
  qed
qed

lemma scan_down_ok:
  assumes "0 \<le> bas" "bas < int (length xs)" "0 \<le> a" "a \<le> b" "b < int (length xs)"
  shows "\<exists>b'. scan_down cmp xs bas a b = Inr b' \<and> a \<le> b' \<and> b' \<le> b \<and>
    (\<forall>i. b' < i \<and> i \<le> b \<longrightarrow> cmp (at xs bas) (at xs i) \<le> 0) \<and> (a < b' \<longrightarrow> cmp (at xs bas) (at xs b') > 0)"
  using assms
proof (induction "nat (b - a)" arbitrary: b rule: less_induct)
  case less
  have t: "and_le (a < b) cmp xs bas b = Inr (a < b \<and> cmp (at xs bas) (at xs b) \<le> 0)"
    using less.prems by (intro and_le_ok) auto
  show ?case
  proof (cases "a < b \<and> cmp (at xs bas) (at xs b) \<le> 0")
    case True
    have "\<exists>b'. scan_down cmp xs bas a (b - 1) = Inr b' \<and> a \<le> b' \<and> b' \<le> b - 1 \<and>
        (\<forall>i. b' < i \<and> i \<le> b - 1 \<longrightarrow> cmp (at xs bas) (at xs i) \<le> 0) \<and> (a < b' \<longrightarrow> cmp (at xs bas) (at xs b') > 0)"
      using True less.prems by (intro less.hyps) auto
    then obtain b' where b': "scan_down cmp xs bas a (b - 1) = Inr b'" "a \<le> b'" "b' \<le> b - 1"
      "\<And>i. b' < i \<Longrightarrow> i \<le> b - 1 \<Longrightarrow> cmp (at xs bas) (at xs i) \<le> 0" "a < b' \<longrightarrow> cmp (at xs bas) (at xs b') > 0"
      by blast
    have "scan_down cmp xs bas a b = Inr b'"
      unfolding scan_down.simps [of cmp xs bas a b] t using True b'(1) by simp
    moreover have "cmp (at xs bas) (at xs i) \<le> 0" if "b' < i" "i \<le> b" for i
      using that True b'(4) [of i] by (cases "i = b") auto
    ultimately show ?thesis
      using b' by auto
  next
    case False
    have "scan_down cmp xs bas a b = Inr b"
      unfolding scan_down.simps [of cmp xs bas a b] t bind_result_simps if_not_P [OF False] by (rule refl)
    then show ?thesis
      using less.prems False by auto
  qed
qed

text \<open>What a scan leaves behind on both sides.\<close>

definition scanned :: "'a cmp \<Rightarrow> 'a list \<Rightarrow> int \<Rightarrow> int \<Rightarrow> int \<Rightarrow> int \<Rightarrow> int \<Rightarrow> bool" where
  "scanned cmp xs bas a a' b' b \<longleftrightarrow>
     (\<forall>i. a \<le> i \<and> i < a' \<longrightarrow> below cmp (at xs i) (at xs bas)) \<and> (\<forall>i. b' < i \<and> i \<le> b \<longrightarrow> below cmp (at xs bas) (at xs i))"

lemma scan_both_ok:
  assumes "0 \<le> bas" "bas < int (length xs)" "0 \<le> a" "a \<le> b" "b < int (length xs)"
  shows "\<exists>a' b'. scan_both cmp xs bas a b = Inr (a', b') \<and> a \<le> a' \<and> b' \<le> b \<and> a \<le> b' \<and> a' \<le> b' + 1 \<and>
    scanned cmp xs bas a a' b' b \<and> (a' \<le> b' \<longrightarrow> cmp (at xs a') (at xs bas) > 0) \<and> (a' < b' \<longrightarrow> cmp (at xs bas) (at xs b') > 0)"
  using assms
proof (induction "nat (b + 1 - a)" arbitrary: a b rule: less_induct)
  case less
  let ?low = "cmp (at xs a) (at xs bas) \<le> 0" and ?high = "a + 1 < b \<and> cmp (at xs bas) (at xs b) \<le> 0"
  have t: "and_le (a \<le> b) cmp xs a bas = Inr ?low" "and_le (a + 1 < b) cmp xs bas b = Inr ?high"
    using less.prems and_le_ok [of "a \<le> b" a xs bas cmp] and_le_ok [of "a + 1 < b" bas xs b cmp] by auto
  consider "?low" "?high" | "?low" "\<not> ?high" | "\<not> ?low"
    by blast
  then show ?case
  proof cases
    case 1
    then have "\<exists>a' b'. scan_both cmp xs bas (a + 1) (b - 1) = Inr (a', b') \<and> a + 1 \<le> a' \<and> b' \<le> b - 1 \<and> a + 1 \<le> b' \<and> a' \<le> b' + 1 \<and>
        scanned cmp xs bas (a + 1) a' b' (b - 1) \<and> (a' \<le> b' \<longrightarrow> cmp (at xs a') (at xs bas) > 0) \<and>
        (a' < b' \<longrightarrow> cmp (at xs bas) (at xs b') > 0)"
      using less.prems by (intro less.hyps) auto
    then obtain a' b' where r: "scan_both cmp xs bas (a + 1) (b - 1) = Inr (a', b')" "a + 1 \<le> a'" "b' \<le> b - 1" "a + 1 \<le> b'" "a' \<le> b' + 1"
      "scanned cmp xs bas (a + 1) a' b' (b - 1)" "a' \<le> b' \<longrightarrow> cmp (at xs a') (at xs bas) > 0"
      "a' < b' \<longrightarrow> cmp (at xs bas) (at xs b') > 0"
      by blast
    have "scan_both cmp xs bas a b = Inr (a', b')"
      unfolding scan_both.simps [of cmp xs bas a b] t using 1 r(1) by simp
    moreover have "scanned cmp xs bas a a' b' b"
      unfolding scanned_def
    proof (intro conjI allI impI)
      show "below cmp (at xs i) (at xs bas)" if "a \<le> i \<and> i < a'" for i
        using that r(6) 1(1) by (cases "i = a") (auto simp: scanned_def below_def)
      show "below cmp (at xs bas) (at xs i)" if "b' < i \<and> i \<le> b" for i
        using that r(6) 1(2) by (cases "i = b") (auto simp: scanned_def below_def)
    qed
    ultimately show ?thesis
      using r by auto
  next
    case 2
    obtain a' where r: "scan_up cmp xs bas (a + 1) b = Inr a'" "a + 1 \<le> a'" "a' \<le> b + 1"
      "\<forall>i. a + 1 \<le> i \<and> i < a' \<longrightarrow> cmp (at xs i) (at xs bas) \<le> 0" "a' \<le> b \<longrightarrow> cmp (at xs a') (at xs bas) > 0"
      using scan_up_ok [of bas xs "a + 1" b cmp] less.prems by auto
    have "scan_both cmp xs bas a b = Inr (a', b)"
      unfolding scan_both.simps [of cmp xs bas a b] t bind_result_simps if_P [OF 2(1)] if_not_P [OF 2(2)] r(1) by (rule refl)
    moreover have "scanned cmp xs bas a a' b b"
      unfolding scanned_def
    proof (intro conjI allI impI)
      show "below cmp (at xs i) (at xs bas)" if "a \<le> i \<and> i < a'" for i
        using that r(4) 2(1) by (cases "i = a") (auto simp: below_def)
    qed auto
    ultimately show ?thesis
      using r 2(2) less.prems by auto
  next
    case 3
    obtain b' where r: "scan_down cmp xs bas a b = Inr b'" "a \<le> b'" "b' \<le> b"
      "\<forall>i. b' < i \<and> i \<le> b \<longrightarrow> cmp (at xs bas) (at xs i) \<le> 0" "a < b' \<longrightarrow> cmp (at xs bas) (at xs b') > 0"
      using scan_down_ok [of bas xs a b cmp] less.prems by auto
    have "scan_both cmp xs bas a b = Inr (a, b')"
      unfolding scan_both.simps [of cmp xs bas a b] t using 3 r(1) by simp
    moreover have "scanned cmp xs bas a a b' b"
      using r(4) by (auto simp: scanned_def below_def)
    ultimately show ?thesis
      using r 3 less.prems by auto
  qed
qed

lemma partition_loop_ok:
  assumes "0 \<le> bas" "bas < a" "a \<le> b + 1" "bas < b" "b < int (length xs)" "scanned cmp xs bas (bas + 1) a b lst" "lst < int (length xs)" "b \<le> lst"
    "a = b \<Longrightarrow> below cmp (at xs bas) (at xs b)"
  shows "\<exists>ys a' b'. partition_loop cmp bas xs a b = Inr (ys, a', b') \<and> permuted (bas + 1) lst xs ys \<and> a \<le> a' \<and> b' \<le> b \<and>
    bas < b' \<and> (a' = b' \<or> a' = b' + 1) \<and> scanned cmp ys bas (bas + 1) a' (a' - 1) lst"
  using assms
proof (induction "nat (b - a)" arbitrary: a b xs rule: less_induct)
  case less
  show ?case
  proof (cases "a < b")
    case False
    have "below cmp (at xs bas) (at xs i)" if "a - 1 < i" "i \<le> lst" for i
      using that False less.prems(3,6,9) by (cases "i = b") (auto simp: scanned_def)
    then have "scanned cmp xs bas (bas + 1) a (a - 1) lst"
      using less.prems(6) by (auto simp: scanned_def)
    then show ?thesis
      using False less.prems by (subst partition_loop.simps) auto
  next
    case True
    obtain a1 b1 where r: "scan_both cmp xs bas a b = Inr (a1, b1)" "a \<le> a1" "b1 \<le> b" "a \<le> b1" "a1 \<le> b1 + 1"
      "scanned cmp xs bas a a1 b1 b" "a1 \<le> b1 \<longrightarrow> cmp (at xs a1) (at xs bas) > 0" "a1 < b1 \<longrightarrow> cmp (at xs bas) (at xs b1) > 0"
      using scan_both_ok [of bas xs a b cmp] less.prems True by auto
    have s: "scanned cmp xs bas (bas + 1) a1 b1 lst"
      unfolding scanned_def
    proof (intro conjI allI impI)
      show "below cmp (at xs i) (at xs bas)" if "bas + 1 \<le> i \<and> i < a1" for i
        using that r(6) less.prems(6) by (cases "i < a") (auto simp: scanned_def)
      show "below cmp (at xs bas) (at xs i)" if "b1 < i \<and> i \<le> lst" for i
        using that r(6) less.prems(6) by (cases "i \<le> b") (auto simp: scanned_def)
    qed
    show ?thesis
    proof (cases "a1 < b1")
      case False
      have e: "partition_loop cmp bas xs a b = Inr (xs, a1, b1)"
        unfolding partition_loop.simps [of cmp bas xs a b] using True False r(1)
        by (simp add: partition_loop.simps [of cmp bas xs a1 b1])
      have "below cmp (at xs bas) (at xs i)" if "a1 - 1 < i" "i \<le> lst" for i
      proof (cases "i = b1")
        case True
        then show ?thesis
          using that(1) False r(5,7) by (cases "a1 = b1") (auto simp: below_def)
      next
        case ne: False
        then show ?thesis
          using that False r(5) s by (auto simp: scanned_def)
      qed
      then have "scanned cmp xs bas (bas + 1) a1 (a1 - 1) lst"
        using s by (auto simp: scanned_def)
      then show ?thesis
        using e r False less.prems by auto
    next
      case lt: True
      define b2 where "b2 = (if b1 > a1 + 2 then b1 - 1 else b1)"
      have i: "0 \<le> a1" "a1 < int (length xs)" "0 \<le> b1" "b1 < int (length xs)" "0 \<le> bas" "bas < int (length xs)"
        using r less.prems lt by auto
      obtain ys where ys: "swap_at xs a1 b1 = Inr ys"
        using i by simp
      note n = swap_at_nth [OF ys]
      have at_ys: "at ys i = (if i = b1 then at xs a1 else if i = a1 then at xs b1 else at xs i)" if "0 \<le> i" for i
        using n(7) [of "nat i"] i that by (simp add: nat_eq_iff eq_nat_nat_iff)
      have p: "permuted (bas + 1) lst xs ys"
        using permuted_one [OF ys] r lt less.prems by auto
      have s': "scanned cmp ys bas (bas + 1) (a1 + 1) b2 lst"
        unfolding scanned_def
      proof (intro conjI allI impI)
        show "below cmp (at ys i) (at ys bas)" if "bas + 1 \<le> i \<and> i < a1 + 1" for i
          using that s r(8) lt less.prems(1,2) r(2) i by (cases "i = a1") (auto simp: at_ys scanned_def below_def)
        show "below cmp (at ys bas) (at ys i)" if "b2 < i \<and> i \<le> lst" for i
          using that s r(7) lt less.prems(1,2) r(2) i
          by (cases "i = b1") (auto simp: at_ys scanned_def below_def b2_def split: if_splits)
      qed
      have g: "below cmp (at ys bas) (at ys b2)" if "a1 + 1 = b2"
        using that r(7) lt less.prems(1,2) r(2) i by (auto simp: at_ys below_def b2_def split: if_splits)
      have "\<exists>zs a' b'. partition_loop cmp bas ys (a1 + 1) b2 = Inr (zs, a', b') \<and> permuted (bas + 1) lst ys zs \<and> a1 + 1 \<le> a' \<and> b' \<le> b2 \<and>
          bas < b' \<and> (a' = b' \<or> a' = b' + 1) \<and> scanned cmp zs bas (bas + 1) a' (a' - 1) lst"
        using s' g lt less.prems r n(1) by (intro less.hyps) (auto simp: b2_def)
      then obtain zs a' b' where z: "partition_loop cmp bas ys (a1 + 1) b2 = Inr (zs, a', b')" "permuted (bas + 1) lst ys zs" "a1 + 1 \<le> a'"
        "b' \<le> b2" "bas < b'" "a' = b' \<or> a' = b' + 1" "scanned cmp zs bas (bas + 1) a' (a' - 1) lst"
        by blast
      have "partition_loop cmp bas xs a b = Inr (zs, a', b')"
        unfolding partition_loop.simps [of cmp bas xs a b] using True lt r(1) ys z(1) by (simp add: b2_def)
      then show ?thesis
        using z permuted_trans [OF z(2) p] r by (auto simp: b2_def split: if_splits)
    qed
  qed
qed

section \<open>The heap\<close>

lemma sift_ok:
  assumes "0 \<le> bas" "bas + int n \<le> int (length xs)" "y < n"
  shows "\<exists>ys. sift cmp bas n y xs = Inr ys \<and> permuted (bas + int y) (bas + int n - 1) xs ys"
  using assms
proof (induction "n - y" arbitrary: y xs rule: less_induct)
  case less
  let ?z = "2 * y + 1"
  show ?case
  proof (cases "?z \<ge> n")
    case True
    then show ?thesis
      by (subst sift.simps) auto
  next
    case False
    define z where "z = (if ?z + 1 < n \<and> cmp (at xs (bas + int ?z)) (at xs (bas + int (?z + 1))) \<le> 0 then ?z + 1 else ?z)"
    have z: "y < z" "z < n"
      using False by (auto simp: z_def)
    have t: "and_le (?z + 1 < n) cmp xs (bas + int ?z) (bas + int (?z + 1)) =
        Inr (?z + 1 < n \<and> cmp (at xs (bas + int ?z)) (at xs (bas + int (?z + 1))) \<le> 0)"
      using less.prems by (intro and_le_ok) auto
    have c: "cmp_at cmp xs (bas + int y) (bas + int z) = Inr (cmp (at xs (bas + int y)) (at xs (bas + int z)))"
      using less.prems z by (intro cmp_at_ok) auto
    obtain ys where ys: "swap_at xs (bas + int y) (bas + int z) = Inr ys"
      using less.prems z by simp
    have s: "sift cmp bas n y xs = (if cmp (at xs (bas + int y)) (at xs (bas + int z)) > 0 then Inr xs else sift cmp bas n z ys)"
      unfolding sift.simps [of cmp bas n y xs] Let_def t bind_result_simps z_def [symmetric] if_not_P [OF False] c ys by (rule refl)
    have "\<exists>zs. sift cmp bas n z ys = Inr zs \<and> permuted (bas + int z) (bas + int n - 1) ys zs"
      using z less.prems swap_at_nth(1) [OF ys] by (intro less.hyps) auto
    then obtain zs where zs: "sift cmp bas n z ys = Inr zs" "permuted (bas + int z) (bas + int n - 1) ys zs"
      by blast
    have "permuted (bas + int y) (bas + int n - 1) xs ys"
      using z by (intro permuted_one [OF ys]) auto
    then have "permuted (bas + int y) (bas + int n - 1) xs zs"
      using permuted_trans [OF permuted_mono [OF zs(2)]] z by simp
    then show ?thesis
      using s zs(1) by auto
  qed
qed

text \<open>A loop that keeps a predicate and moves items only in the range, for any list of indices.\<close>

lemma fold_permuted:
  assumes "\<And>x xs. x \<in> set is \<Longrightarrow> I xs \<Longrightarrow> length xs = n \<Longrightarrow> \<exists>ys. f x xs = Inr ys \<and> permuted lo hi xs ys \<and> I ys" "I xs" "length xs = n"
  shows "\<exists>ys. fold_result f is xs = Inr ys \<and> permuted lo hi xs ys \<and> I ys"
  using assms
proof (induction "is" arbitrary: xs)
  case (Cons i "is")
  obtain ys where ys: "f i xs = Inr ys" "permuted lo hi xs ys" "I ys"
    using Cons.prems(1) [of i xs] Cons.prems(2,3) by auto
  have "\<exists>zs. fold_result f is ys = Inr zs \<and> permuted lo hi ys zs \<and> I zs"
    using Cons.prems ys permuted_length [OF ys(2)] by (intro Cons.IH) auto
  then show ?case
    using ys permuted_trans by fastforce
qed auto

lemma build_permuted:
  assumes "0 \<le> bas" "bas + int n \<le> int (length xs)" "k \<le> n"
  shows "\<exists>ys. fold_result (sift cmp bas n) (rev [0..<k]) xs = Inr ys \<and> permuted bas (bas + int n - 1) xs ys"
proof -
  have "\<exists>ys. fold_result (sift cmp bas n) (rev [0..<k]) xs = Inr ys \<and> permuted bas (bas + int n - 1) xs ys \<and> True"
  proof (rule fold_permuted [where n = "length xs"])
    show "\<exists>vs. sift cmp bas n x zs = Inr vs \<and> permuted bas (bas + int n - 1) zs vs \<and> True"
      if "x \<in> set (rev [0..<k])" "length zs = length xs" for x zs
    proof -
      have "x < n"
        using that(1) assms(3) by auto
      then show ?thesis
        using sift_ok [of bas n zs x cmp] that(2) assms permuted_mono [of "bas + int x" "bas + int n - 1" zs _ bas] by auto
    qed
  qed simp_all
  then show ?thesis
    by simp
qed

lemma heap_sort_ok:
  assumes "0 \<le> bas" "lst < int (length xs)"
  shows "\<exists>ys. heap_sort cmp bas lst xs = Inr ys \<and> permuted bas lst xs ys"
proof -
  define n where "n = nat (lst - bas + 1)"
  show ?thesis
  proof (cases "n < 2")
    case True
    then show ?thesis
      by (auto simp: heap_sort_def n_def)
  next
    case False
    then have l: "bas + int n - 1 = lst" "bas + int n \<le> int (length xs)"
      using assms by (auto simp: n_def)
    have "(n - 2) div 2 + 1 \<le> n"
      using False by presburger
    then obtain ys where ys: "fold_result (sift cmp bas n) (rev [0..<(n - 2) div 2 + 1]) xs = Inr ys" "permuted bas lst xs ys"
      using build_permuted [OF assms(1) l(2), of "(n - 2) div 2 + 1" cmp] unfolding l(1) by blast
    have "\<exists>us. bind_result (swap_at zs (bas + int x) bas) (sift cmp bas x 0) = Inr us \<and> permuted bas lst zs us \<and> True"
      if m: "x \<in> set (rev [1..<n])" "length zs = length xs" for x zs
    proof -
      have x: "0 < x" "x < n"
        using m(1) by auto
      obtain us where us: "swap_at zs (bas + int x) bas = Inr us"
        using x m(2) assms l by simp
      obtain vs where vs: "sift cmp bas x 0 us = Inr vs" "permuted (bas + int 0) (bas + int x - 1) us vs"
        using sift_ok [of bas x us 0 cmp] x swap_at_nth(1) [OF us] m(2) assms l by auto
      have "permuted bas lst us vs"
        using x l by (intro permuted_mono [OF vs(2)]) auto
      moreover have "permuted bas lst zs us"
        using x l by (intro permuted_one [OF us]) auto
      ultimately show ?thesis
        using us vs(1) permuted_trans by auto
    qed
    then obtain zs where "fold_result (\<lambda>x xs. bind_result (swap_at xs (bas + int x) bas) (sift cmp bas x 0)) (rev [1..<n]) ys = Inr zs"
      "permuted bas lst ys zs"
      using fold_permuted [of "rev [1..<n]" "\<lambda>_. True" "length xs" "\<lambda>x xs. bind_result (swap_at xs (bas + int x) bas) (sift cmp bas x 0)" bas lst ys]
        permuted_length [OF ys(2)] by auto
    then show ?thesis
      using ys False permuted_trans by (auto simp: heap_sort_def n_def Let_def)
  qed
qed

section \<open>The quicksort\<close>

text \<open>The items from \<open>lo\<close> to \<open>l\<close> are below those from \<open>b\<close> to \<open>hi\<close>, and between them there is at most the pivot.\<close>

definition divided :: "'a cmp \<Rightarrow> 'a list \<Rightarrow> int \<Rightarrow> int \<Rightarrow> int \<Rightarrow> int \<Rightarrow> 'a \<Rightarrow> bool" where
  "divided cmp xs lo l b hi v \<longleftrightarrow>
     (\<forall>i. lo \<le> i \<and> i \<le> l \<longrightarrow> below cmp (at xs i) v) \<and> (\<forall>i. b \<le> i \<and> i \<le> hi \<longrightarrow> below cmp v (at xs i)) \<and>
     (\<forall>i. lo \<le> i \<and> l < i \<and> i < b \<longrightarrow> at xs i = v)"

text \<open>A round of the sort, with the two parts it leaves in the order they are sorted in.\<close>

lemma do_sort_round:
  assumes "0 \<le> bas" "bas < lst" "lst < int (length xs)" "bas + 1 \<noteq> lst" "1 < m"
  shows "\<exists>us l b v (g :: bool). permuted bas lst xs us \<and> bas - 1 \<le> l \<and> l < b \<and> bas < b \<and> b \<le> lst \<and> l < lst \<and> v \<in> set xs \<and>
    (below cmp v v \<longrightarrow> divided cmp us bas l b lst v) \<and>
    do_sort cmp m bas lst xs =
      (if g then bind_result (do_sort cmp (m - 1) bas l us) (do_sort cmp (m - 1) b lst)
       else bind_result (do_sort cmp (m - 1) b lst us) (do_sort cmp (m - 1) bas l))"
proof -
  let ?mid = "bas + (lst - bas) div 2"
  obtain ys where ys: "swap_at xs bas ?mid = Inr ys"
    using assms by simp
  have p1: "permuted bas lst xs ys"
    using assms by (intro permuted_one [OF ys]) auto
  have l1: "length ys = length xs"
    by (rule swap_at_nth(1) [OF ys])
  have "\<exists>zs a b. partition_loop cmp bas ys (bas + 1) lst = Inr (zs, a, b) \<and> permuted (bas + 1) lst ys zs \<and> bas + 1 \<le> a \<and> b \<le> lst \<and>
      bas < b \<and> (a = b \<or> a = b + 1) \<and> scanned cmp zs bas (bas + 1) a (a - 1) lst"
    using assms l1 by (intro partition_loop_ok) (auto simp: scanned_def)
  then obtain zs a b where z: "partition_loop cmp bas ys (bas + 1) lst = Inr (zs, a, b)" "permuted (bas + 1) lst ys zs" "bas + 1 \<le> a"
    "b \<le> lst" "bas < b" "a = b \<or> a = b + 1" "scanned cmp zs bas (bas + 1) a (a - 1) lst"
    by blast
  have p2: "permuted bas lst xs zs"
    using permuted_trans [OF permuted_mono [OF z(2)] p1] by simp
  have l2: "length zs = length xs" "set zs = set xs"
    by (rule permuted_length [OF p2], rule mset_eq_setD [OF permuted_mset [OF p2]])
  have v: "at zs bas \<in> set xs"
    unfolding l2(2) [symmetric] using assms(1-3) l2(1) by (intro at_in_set) simp_all
  have r: "do_sort cmp m bas lst xs =
      (if a - 1 \<noteq> bas then
         bind_result (swap_at zs (a - 1) bas) (\<lambda>us.
           if a - 2 - bas < lst - b then bind_result (do_sort cmp (m - 1) bas (a - 2) us) (do_sort cmp (m - 1) b lst)
           else bind_result (do_sort cmp (m - 1) b lst us) (do_sort cmp (m - 1) bas (a - 2)))
       else if - 1 < lst - b then bind_result (do_sort cmp (m - 1) bas (a - 2) zs) (do_sort cmp (m - 1) b lst)
       else bind_result (do_sort cmp (m - 1) b lst zs) (do_sort cmp (m - 1) bas (a - 2)))"
    unfolding do_sort.simps [of cmp m bas lst xs] using assms(2,4,5) ys z(1) by simp
  show ?thesis
  proof (cases "a - 1 = bas")
    case True
    have e: "a = bas + 1" "b = bas + 1"
      using True z(5,6) by auto
    have mid: "i = bas" if "a - 2 < i" "i < b" for i
      using that e by simp
    have "divided cmp zs bas (a - 2) b lst (at zs bas)"
      unfolding divided_def
    proof (intro conjI allI impI)
      show "below cmp (at zs bas) (at zs i)" if "b \<le> i \<and> i \<le> lst" for i
        using that z(7) e by (auto simp: scanned_def)
      show "at zs i = at zs bas" if "bas \<le> i \<and> a - 2 < i \<and> i < b" for i
        using mid [of i] that by simp
    qed (use e in auto)
    then show ?thesis
      using r True z p2 v by (intro exI [of _ zs] exI [of _ "a - 2"] exI [of _ b] exI [of _ "at zs bas"] exI [of _ "- 1 < lst - b"]) auto
  next
    case False
    have "0 \<le> a - 1" "a - 1 < int (length zs)" "0 \<le> bas" "bas < int (length zs)"
      using z(3,4,6) assms(1-3) l2(1) by auto
    then obtain us where us: "swap_at zs (a - 1) bas = Inr us"
      using swap_at_ok by blast
    note n = swap_at_nth [OF us]
    have at_us: "at us i = (if i = bas then at zs (a - 1) else if i = a - 1 then at zs bas else at zs i)" if "0 \<le> i" for i
      using n(7) [of "nat i"] n(3) assms(1) that by (simp add: eq_nat_nat_iff)
    have "divided cmp us bas (a - 2) b lst (at zs bas)" if self: "below cmp (at zs bas) (at zs bas)"
      unfolding divided_def
    proof (intro conjI allI impI)
      show "below cmp (at us i) (at zs bas)" if "bas \<le> i \<and> i \<le> a - 2" for i
        using that z(3,7) False assms(1) by (auto simp: at_us scanned_def)
      show "below cmp (at zs bas) (at us i)" if "b \<le> i \<and> i \<le> lst" for i
        using that z(5,6,7) assms(1) self by (auto simp: at_us scanned_def)
      show "at us i = at zs bas" if "bas \<le> i \<and> a - 2 < i \<and> i < b" for i
      proof -
        have "i = a - 1"
          using that z(6) by auto
        then show ?thesis
          using that z(3) False assms(1) by (simp add: at_us)
      qed
    qed
    moreover have "permuted bas lst xs us"
      using z False by (intro permuted_trans [OF permuted_one [OF us] p2]) auto
    ultimately show ?thesis
      using r False us z v
      by (intro exI [of _ us] exI [of _ "a - 2"] exI [of _ b] exI [of _ "at zs bas"] exI [of _ "a - 2 - bas < lst - b"]) auto
  qed
qed

lemma do_sort_ok:
  assumes "0 \<le> bas" "lst < int (length xs)"
  shows "\<exists>ys. do_sort cmp m bas lst xs = Inr ys \<and> permuted bas lst xs ys"
  using assms
proof (induction "nat m" arbitrary: m bas lst xs rule: less_induct)
  case less
  consider "lst \<le> bas" | "bas + 1 = lst" | "bas < lst" "bas + 1 \<noteq> lst" "m \<le> 1" | "bas < lst" "bas + 1 \<noteq> lst" "1 < m"
    by linarith
  then show ?case
  proof cases
    case 1
    then show ?thesis
      by (subst do_sort.simps) auto
  next
    case 2
    then obtain ys where ys: "swap_at xs bas lst = Inr ys"
      using less.prems by simp
    then have "permuted bas lst xs ys"
      using 2 by (intro permuted_one) auto
    then show ?thesis
      using 2 less.prems ys by (subst do_sort.simps) auto
  next
    case 3
    then show ?thesis
      using heap_sort_ok [OF less.prems, of cmp] by (subst do_sort.simps) auto
  next
    case 4
    obtain us l b v g where r: "permuted bas lst xs us" "bas - 1 \<le> l" "l < b" "bas < b" "b \<le> lst" "l < lst"
      "do_sort cmp m bas lst xs =
        (if g then bind_result (do_sort cmp (m - 1) bas l us) (do_sort cmp (m - 1) b lst)
         else bind_result (do_sort cmp (m - 1) b lst us) (do_sort cmp (m - 1) bas l))"
      using do_sort_round [OF less.prems(1) 4(1) less.prems(2) 4(2,3)] by blast
    have part: "\<exists>zs. do_sort cmp (m - 1) lo hi ys = Inr zs \<and> permuted bas lst ys zs"
      if "bas \<le> lo" "hi \<le> lst" "length ys = length xs" for lo hi ys
      using less.hyps [of "m - 1" lo hi ys] less.prems 4 that permuted_mono [of lo hi ys _ bas lst] by fastforce
    have us: "length us = length xs"
      by (rule permuted_length [OF r(1)])
    have "\<exists>ys. bind_result (do_sort cmp (m - 1) lo hi us) (do_sort cmp (m - 1) lo' hi') = Inr ys \<and> permuted bas lst xs ys"
      if le: "bas \<le> lo" "hi \<le> lst" "bas \<le> lo'" "hi' \<le> lst" for lo hi lo' hi'
    proof -
      obtain ys where ys: "do_sort cmp (m - 1) lo hi us = Inr ys" "permuted bas lst us ys"
        using part [of lo hi us] le us by blast
      obtain zs where zs: "do_sort cmp (m - 1) lo' hi' ys = Inr zs" "permuted bas lst ys zs"
        using part [of lo' hi' ys] le us permuted_length [OF ys(2)] by auto
      have "permuted bas lst xs zs"
        by (rule permuted_trans [OF zs(2) permuted_trans [OF ys(2) r(1)]])
      then show ?thesis
        using ys(1) zs(1) by simp
    qed
    then show ?thesis
      using r by auto
  qed
qed

text \<open>A range stays divided when one of its parts is permuted.\<close>

lemma divided_permuted:
  assumes "divided cmp us lo l b hi v" "l < b" "0 \<le> lo" "0 \<le> b" "permuted lo l us ys \<or> permuted b hi us ys"
  shows "divided cmp ys lo l b hi v"
  using assms(5)
proof
  assume p: "permuted lo l us ys"
  have "at ys i = at us i" if "l < i" "0 \<le> i" for i
    using that by (intro permuted_outside [OF p]) simp
  moreover have "below cmp (at ys i) v" if "lo \<le> i" "i \<le> l" for i
    using assms(1,3) that by (intro permuted_all [OF p, of "\<lambda>x. below cmp x v"]) (auto simp: divided_def)
  ultimately show ?thesis
    using assms(1-4) by (auto simp: divided_def nat_le_0)
next
  assume p: "permuted b hi us ys"
  have "at ys i = at us i" if "i < b" "0 \<le> i" for i
    using that by (intro permuted_outside [OF p]) simp
  moreover have "below cmp v (at ys i)" if "b \<le> i" "i \<le> hi" for i
    using assms(1,4) that by (intro permuted_all [OF p, of "\<lambda>x. below cmp v x"]) (auto simp: divided_def)
  ultimately show ?thesis
    using assms(1-4) by (auto simp: divided_def nat_le_0)
qed

section \<open>Sorting with a total preorder\<close>

text \<open>What the sort needs of a comparison function to sort values of a set \<open>A\<close>.\<close>

locale preorder_cmp =
  fixes cmp :: "'a cmp" and A :: "'a set"
  assumes total: "x \<in> A \<Longrightarrow> y \<in> A \<Longrightarrow> cmp x y \<le> 0 \<or> cmp y x \<le> 0"
    and trans: "x \<in> A \<Longrightarrow> y \<in> A \<Longrightarrow> z \<in> A \<Longrightarrow> cmp x y \<le> 0 \<Longrightarrow> cmp y z \<le> 0 \<Longrightarrow> cmp x z \<le> 0"
begin

lemma le_refl: "x \<in> A \<Longrightarrow> cmp x x \<le> 0"
  using total [of x x] by blast

lemma below_le: "x \<in> A \<Longrightarrow> y \<in> A \<Longrightarrow> below cmp x y \<longleftrightarrow> cmp x y \<le> 0"
  using total [of x y] by (auto simp: below_def)

definition sorted_range :: "int \<Rightarrow> int \<Rightarrow> 'a list \<Rightarrow> bool" where
  "sorted_range lo hi xs \<longleftrightarrow> (\<forall>i j. lo \<le> i \<and> i \<le> j \<and> j \<le> hi \<longrightarrow> cmp (at xs i) (at xs j) \<le> 0)"

lemma at_A: "set xs \<subseteq> A \<Longrightarrow> 0 \<le> i \<Longrightarrow> i < int (length xs) \<Longrightarrow> at xs i \<in> A"
  using at_in_set by blast

lemma permuted_A: "permuted lo hi xs ys \<Longrightarrow> set xs \<subseteq> A \<Longrightarrow> set ys \<subseteq> A"
  using permuted_mset mset_eq_setD by blast

text \<open>A divided range is sorted when both its parts are.\<close>

lemma divided_sorted:
  assumes "divided cmp zs lo l b hi v" "l < b" "0 \<le> lo" "hi < int (length zs)" "set zs \<subseteq> A" "v \<in> A"
    "sorted_range lo l zs" "sorted_range b hi zs"
  shows "sorted_range lo hi zs"
  unfolding sorted_range_def
proof (intro allI impI)
  fix i j
  assume ij: "lo \<le> i \<and> i \<le> j \<and> j \<le> hi"
  have inA: "at zs k \<in> A" if "lo \<le> k" "k \<le> hi" for k
    using that assms by (intro at_A) auto
  consider "j \<le> l" | "b \<le> i" | "i < b" "l < j"
    by linarith
  then show "cmp (at zs i) (at zs j) \<le> 0"
  proof cases
    case 3
    have "cmp (at zs i) v \<le> 0"
    proof (cases "i \<le> l")
      case True
      then show ?thesis
        using assms(1) ij below_le [OF inA assms(6), of i] by (simp add: divided_def)
    next
      case False
      then show ?thesis
        using assms(1) ij 3 le_refl [OF assms(6)] by (simp add: divided_def)
    qed
    moreover have "cmp v (at zs j) \<le> 0"
    proof (cases "b \<le> j")
      case True
      then show ?thesis
        using assms(1) ij below_le [OF assms(6) inA, of j] by (simp add: divided_def)
    next
      case False
      then show ?thesis
        using assms(1) ij 3 le_refl [OF assms(6)] by (simp add: divided_def)
    qed
    ultimately show ?thesis
      using trans [OF inA assms(6) inA, of i j] ij by simp
  qed (use ij assms(7,8) in \<open>auto simp: sorted_range_def\<close>)
qed

lemma sorted_outside:
  assumes "sorted_range lo hi xs" "permuted lo' hi' xs ys" "hi < lo' \<or> hi' < lo" "0 \<le> lo"
  shows "sorted_range lo hi ys"
proof -
  have "at ys i = at xs i" if "lo \<le> i" "i \<le> hi" for i
    using that assms(3,4) by (intro permuted_outside [OF assms(2)]) auto
  then show ?thesis
    using assms(1) by (simp add: sorted_range_def)
qed

text \<open>The heap of the first \<open>n\<close> items: no child is above its parent, for parents from \<open>x\<close> on; \<open>sunk\<close> is the
  same but for the parent \<open>y\<close>, whose children are not above its own parent.\<close>

definition child :: "nat \<Rightarrow> nat \<Rightarrow> bool" where
  "child i c \<longleftrightarrow> c = 2 * i + 1 \<or> c = 2 * i + 2"

lemma child_parent: "child i c \<Longrightarrow> child j c \<Longrightarrow> i = j"
  unfolding child_def by presburger

definition heap_ok :: "int \<Rightarrow> nat \<Rightarrow> nat \<Rightarrow> 'a list \<Rightarrow> bool" where
  "heap_ok bas n x xs \<longleftrightarrow>
     (\<forall>i c. x \<le> i \<and> c < n \<and> child i c \<longrightarrow> cmp (at xs (bas + int c)) (at xs (bas + int i)) \<le> 0)"

definition sunk :: "int \<Rightarrow> nat \<Rightarrow> nat \<Rightarrow> nat \<Rightarrow> 'a list \<Rightarrow> bool" where
  "sunk bas n x y xs \<longleftrightarrow>
     (\<forall>i c. x \<le> i \<and> i \<noteq> y \<and> c < n \<and> child i c \<longrightarrow> cmp (at xs (bas + int c)) (at xs (bas + int i)) \<le> 0) \<and>
     (\<forall>i c. x \<le> i \<and> child i y \<and> c < n \<and> child y c \<longrightarrow>
       cmp (at xs (bas + int c)) (at xs (bas + int i)) \<le> 0)"

lemma sift_heap:
  assumes "0 \<le> bas" "bas + int n \<le> int (length xs)" "y < n" "x \<le> y" "sunk bas n x y xs" "set xs \<subseteq> A" "sift cmp bas n y xs = Inr ys"
  shows "heap_ok bas n x ys"
  using assms
proof (induction "n - y" arbitrary: y xs rule: less_induct)
  case less
  let ?z = "2 * y + 1"
  show ?case
  proof (cases "?z \<ge> n")
    case True
    have leaf: "\<not> child y c" if "c < n" for c
      using True that by (auto simp: child_def)
    have "ys = xs"
      using True less.prems(7) by (subst (asm) sift.simps) simp
    then show ?thesis
      using less.prems(5) leaf by (auto simp: heap_ok_def sunk_def)
  next
    case False
    define z where "z = (if ?z + 1 < n \<and> cmp (at xs (bas + int ?z)) (at xs (bas + int (?z + 1))) \<le> 0 then ?z + 1 else ?z)"
    have z: "y < z" "z < n" "child y z"
      using False by (auto simp: z_def child_def)
    have inA: "at xs (bas + int i) \<in> A" if "i < n" for i
      using less.prems(1,2,6) that by (intro at_A) auto
    have other: "cmp (at xs (bas + int c)) (at xs (bas + int z)) \<le> 0" if c: "c < n" "child y c" for c
    proof (cases "c = z")
      case True
      then show ?thesis
        using le_refl inA c(1) by simp
    next
      case ne: False
      show ?thesis
      proof (cases "z = 2 * y + 2")
        case True
        then have "c = ?z" "z = ?z + 1"
          using ne c by (auto simp: child_def)
        then show ?thesis
          unfolding z_def by (auto split: if_splits)
      next
        case False
        then have e: "z = ?z" "c = ?z + 1"
          using ne c z by (auto simp: child_def)
        then have "\<not> cmp (at xs (bas + int ?z)) (at xs (bas + int (?z + 1))) \<le> 0"
          using c unfolding z_def by (auto split: if_splits)
        then show ?thesis
          using total [OF inA inA, of z c] c z e by auto
      qed
    qed
    have t: "and_le (?z + 1 < n) cmp xs (bas + int ?z) (bas + int (?z + 1)) =
        Inr (?z + 1 < n \<and> cmp (at xs (bas + int ?z)) (at xs (bas + int (?z + 1))) \<le> 0)"
      using less.prems by (intro and_le_ok) auto
    have c: "cmp_at cmp xs (bas + int y) (bas + int z) = Inr (cmp (at xs (bas + int y)) (at xs (bas + int z)))"
      using less.prems z by (intro cmp_at_ok) auto
    obtain us where us: "swap_at xs (bas + int y) (bas + int z) = Inr us"
      using less.prems z by simp
    have s: "sift cmp bas n y xs = (if cmp (at xs (bas + int y)) (at xs (bas + int z)) > 0 then Inr xs else sift cmp bas n z us)"
      unfolding sift.simps [of cmp bas n y xs] Let_def t bind_result_simps z_def [symmetric] if_not_P [OF False] c us by (rule refl)
    show ?thesis
    proof (cases "cmp (at xs (bas + int y)) (at xs (bas + int z)) > 0")
      case True
      then have zy: "cmp (at xs (bas + int z)) (at xs (bas + int y)) \<le> 0" and e: "ys = xs"
        using total [OF inA inA, of y z] z s less.prems(7) by auto
      have "cmp (at xs (bas + int c)) (at xs (bas + int y)) \<le> 0" if "c < n" "child y c" for c
        using trans [OF inA inA inA other [OF that] zy] that z by simp
      then show ?thesis
        using less.prems(5) unfolding e heap_ok_def sunk_def by metis
    next
      case False
      then have yz: "cmp (at xs (bas + int y)) (at xs (bas + int z)) \<le> 0"
        by simp
      have at_us: "at us (bas + int i) = (if i = z then at xs (bas + int y) else if i = y then at xs (bas + int z) else at xs (bas + int i))" for i
        using swap_at_nth(7) [OF us, of "nat (bas + int i)"] less.prems(1) by (simp add: eq_nat_nat_iff)
      have s1: "cmp (at us (bas + int c)) (at us (bas + int i)) \<le> 0"
        if m: "x \<le> i" "i \<noteq> z" "c < n" "child i c" for i c
      proof -
        consider "i = y" | "c = y" | "i \<noteq> y" "c \<noteq> y" "c \<noteq> z"
          using m(4) z(3) child_parent [of i c y] by blast
        then show ?thesis
        proof cases
          case 1
          then show ?thesis
            using m yz other z by (auto simp: at_us)
        next
          case 2
          then have "i \<noteq> y"
            using m(4) by (auto simp: child_def)
          then show ?thesis
            using 2 m less.prems(5) z by (auto simp: at_us sunk_def)
        next
          case 3
          then show ?thesis
            using m less.prems(5) by (auto simp: at_us sunk_def)
        qed
      qed
      have s2: "cmp (at us (bas + int c)) (at us (bas + int i)) \<le> 0"
        if "x \<le> i" "child i z" "c < n" "child z c" for i c
      proof -
        have "i = y" "c \<noteq> y" "c \<noteq> z"
          using child_parent [OF that(2) z(3)] that(4) z(1) by (auto simp: child_def)
        moreover have "cmp (at xs (bas + int c)) (at xs (bas + int z)) \<le> 0"
          using less.prems(4,5) that z by (auto simp: sunk_def)
        ultimately show ?thesis
          using z by (simp add: at_us)
      qed
      have "sunk bas n x z us"
        unfolding sunk_def using s1 s2 by blast
      then show ?thesis
        using less.hyps [of z us] z less.prems swap_at_nth(1,2) [OF us] s False mset_eq_setD [of us xs] by simp
    qed
  qed
qed

lemma heap_top:
  assumes "heap_ok bas n 0 xs" "0 \<le> bas" "bas + int n \<le> int (length xs)" "set xs \<subseteq> A" "i < n"
  shows "cmp (at xs (bas + int i)) (at xs bas) \<le> 0"
  using assms(5)
proof (induction i rule: less_induct)
  case (less i)
  have inA: "at xs (bas + int k) \<in> A" if "k < n" for k
    using assms that by (intro at_A) auto
  show ?case
  proof (cases "i = 0")
    case True
    then show ?thesis
      using le_refl inA [OF less.prems] by simp
  next
    case False
    define p where "p = (i - 1) div 2"
    have p: "p < i" "child p i"
      using False by (auto simp: p_def child_def)
    then have "cmp (at xs (bas + int i)) (at xs (bas + int p)) \<le> 0"
      using assms(1) less.prems by (auto simp: heap_ok_def)
    moreover have "cmp (at xs (bas + int p)) (at xs bas) \<le> 0"
      using less.IH p less.prems by simp
    moreover have "at xs bas \<in> A"
      using inA [of 0] less.prems by simp
    ultimately show ?thesis
      using trans [OF inA [OF less.prems] inA [of p]] p(1) less.prems by simp
  qed
qed

lemma build_heap:
  assumes "0 \<le> bas" "bas + int n \<le> int (length xs)" "k \<le> n" "heap_ok bas n k xs" "set xs \<subseteq> A"
    "fold_result (sift cmp bas n) (rev [0..<k]) xs = Inr ys"
  shows "heap_ok bas n 0 ys"
  using assms
proof (induction k arbitrary: xs)
  case (Suc k)
  obtain us where us: "sift cmp bas n k xs = Inr us" "permuted (bas + int k) (bas + int n - 1) xs us"
    using sift_ok [of bas n xs k cmp] Suc.prems by auto
  have "sunk bas n k k xs"
    using Suc.prems(4) by (auto simp: sunk_def heap_ok_def child_def)
  then have "heap_ok bas n k us"
    using sift_heap [OF Suc.prems(1,2) _ order_refl _ Suc.prems(5) us(1)] Suc.prems(3) by simp
  then show ?case
    using Suc.prems us permuted_length [OF us(2)] permuted_A [OF us(2)] by (intro Suc.IH [of us]) auto
qed simp

text \<open>The items from \<open>x\<close> on are in their final places.\<close>

definition settled :: "int \<Rightarrow> nat \<Rightarrow> nat \<Rightarrow> 'a list \<Rightarrow> bool" where
  "settled bas n x xs \<longleftrightarrow> (\<forall>i j. i \<le> j \<and> x \<le> j \<and> j < n \<longrightarrow> cmp (at xs (bas + int i)) (at xs (bas + int j)) \<le> 0)"

lemma extract_heap:
  assumes "0 \<le> bas" "bas + int n \<le> int (length xs)" "0 < x" "x \<le> n" "heap_ok bas x 0 xs" "settled bas n x xs" "set xs \<subseteq> A"
    "fold_result (\<lambda>x xs. bind_result (swap_at xs (bas + int x) bas) (sift cmp bas x 0)) (rev [1..<x]) xs = Inr ys"
  shows "settled bas n 1 ys"
  using assms
proof (induction x arbitrary: xs)
  case (Suc x)
  show ?case
  proof (cases "x = 0")
    case True
    then show ?thesis
      using Suc.prems by simp
  next
    case False
    have inA: "at zs (bas + int i) \<in> A" if "i < n" "set zs \<subseteq> A" "length zs = length xs" for i zs
      using Suc.prems(1,2) that by (intro at_A) auto
    obtain us where us: "swap_at xs (bas + int x) bas = Inr us"
      using False Suc.prems(1,2,4) by simp
    note n = swap_at_nth [OF us]
    have at_us: "at us (bas + int i) = (if i = 0 then at xs (bas + int x) else if i = x then at xs bas else at xs (bas + int i))" for i
      using n(7) [of "nat (bas + int i)"] Suc.prems(1) False by (simp add: eq_nat_nat_iff)
    have us_A: "set us \<subseteq> A"
      using mset_eq_setD [OF n(2)] Suc.prems(7) by simp
    obtain vs where vs: "sift cmp bas x 0 us = Inr vs" "permuted (bas + int 0) (bas + int x - 1) us vs"
      using sift_ok [of bas x us 0 cmp] False Suc.prems(1,2,4) n(1) by auto
    have vs_l: "length vs = length xs"
      using permuted_length [OF vs(2)] n(1) by simp
    have "sunk bas x 0 0 us"
      using Suc.prems(5) by (auto simp: sunk_def heap_ok_def child_def at_us)
    then have h: "heap_ok bas x 0 vs"
      using sift_heap [OF Suc.prems(1) _ _ order_refl _ us_A vs(1)] False Suc.prems(2,4) n(1) by simp
    have keep: "at vs (bas + int j) = at us (bas + int j)" if "x \<le> j" for j
      using that Suc.prems(1) by (intro permuted_outside [OF vs(2)]) simp
    have le_us: "cmp (at us (bas + int i)) (at us (bas + int j)) \<le> 0" if "i \<le> j" "x \<le> j" "j < n" for i j
    proof (cases "j = x")
      case True
      have "cmp (at xs (bas + int k)) (at xs bas) \<le> 0" if "k \<le> x" for k
        using heap_top [OF Suc.prems(5,1) _ Suc.prems(7), of k] that Suc.prems(2,4) by simp
      note top = this
      then show ?thesis
        using that True False top [of 0] by (auto simp: at_us)
    next
      case j: False
      then have "cmp (at xs (bas + int k)) (at xs (bas + int j)) \<le> 0" if "k \<le> j" for k
        using Suc.prems(6) that \<open>x \<le> j\<close> \<open>j < n\<close> by (simp add: settled_def)
      note le = this
      show ?thesis
        using that j False le [of i] le [of 0] le [of x] at_us [of 0] by (cases "i = 0"; cases "i = x") (auto simp: at_us)
    qed
    have "settled bas n x vs"
      unfolding settled_def
    proof (intro allI impI)
      fix i j
      assume ij: "i \<le> j \<and> x \<le> j \<and> j < n"
      show "cmp (at vs (bas + int i)) (at vs (bas + int j)) \<le> 0"
      proof (cases "x \<le> i")
        case True
        then show ?thesis
          using keep le_us ij by simp
      next
        case False
        have "cmp (at us k) (at us (bas + int j)) \<le> 0" if "bas + int 0 \<le> k" "k \<le> bas + int x - 1" for k
        proof -
          have "nat (k - bas) \<le> j" "bas + int (nat (k - bas)) = k"
            using that ij by auto
          then show ?thesis
            using le_us [of "nat (k - bas)" j] ij by simp
        qed
        then have "cmp (at vs (bas + int i)) (at us (bas + int j)) \<le> 0"
          using False Suc.prems(1) by (intro permuted_all [OF vs(2), of "\<lambda>v. cmp v (at us (bas + int j)) \<le> 0"]) auto
        then show ?thesis
          using keep ij by simp
      qed
    qed
    then show ?thesis
      using Suc.prems False us vs h vs_l permuted_A [OF vs(2) us_A] by (intro Suc.IH [of vs]) auto
  qed
qed simp

lemma heap_sort_sorted:
  assumes "0 \<le> bas" "lst < int (length xs)" "set xs \<subseteq> A" "heap_sort cmp bas lst xs = Inr ys"
  shows "sorted_range bas lst ys"
proof -
  define n where "n = nat (lst - bas + 1)"
  have A: "set ys \<subseteq> A" "length ys = length xs"
    using heap_sort_ok [OF assms(1,2), of cmp] assms(3,4) permuted_A permuted_length by auto
  have inA: "at ys i \<in> A" if "bas \<le> i" "i \<le> lst" for i
    using that assms(1,2) A by (intro at_A) auto
  show ?thesis
  proof (cases "n < 2")
    case True
    then have "lst \<le> bas"
      by (simp add: n_def)
    then have "i = j" if "bas \<le> i" "i \<le> j" "j \<le> lst" for i j
      using that by simp
    then show ?thesis
      using le_refl inA unfolding sorted_range_def by metis
  next
    case False
    then have l: "bas + int n \<le> int (length xs)" "bas + int n - 1 = lst"
      using assms(1,2) by (auto simp: n_def)
    let ?k = "(n - 2) div 2 + 1"
    obtain us where us: "fold_result (sift cmp bas n) (rev [0..<?k]) xs = Inr us"
      "fold_result (\<lambda>x xs. bind_result (swap_at xs (bas + int x) bas) (sift cmp bas x 0)) (rev [1..<n]) us = Inr ys"
      using assms(4) False unfolding heap_sort_def n_def [symmetric] Let_def
      by (cases "fold_result (sift cmp bas n) (rev [0..<?k]) xs") auto
    have "?k \<le> n"
      using False by presburger
    then have p: "permuted bas lst xs us"
      using build_permuted [OF assms(1) l(1), of ?k cmp] us(1) unfolding l(2) by auto
    have "heap_ok bas n ?k xs"
      using False by (auto simp: heap_ok_def child_def)
    then have "heap_ok bas n 0 us"
      using build_heap [OF assms(1) l(1) _ _ assms(3) us(1)] False by simp
    then have s: "settled bas n 1 ys"
      using extract_heap [OF assms(1) _ _ order_refl _ _ permuted_A [OF p assms(3)] us(2)] False l(1) permuted_length [OF p]
      by (simp add: settled_def)
    show ?thesis
      unfolding sorted_range_def
    proof (intro allI impI)
      fix i j
      assume ij: "bas \<le> i \<and> i \<le> j \<and> j \<le> lst"
      show "cmp (at ys i) (at ys j) \<le> 0"
      proof (cases "j = bas")
        case True
        then show ?thesis
        proof -
          have "i = bas"
            using ij True by simp
          then show ?thesis
            unfolding True using ij le_refl inA [of bas] by simp
        qed
      next
        case False
        then have "nat (i - bas) \<le> nat (j - bas)" "1 \<le> nat (j - bas)" "nat (j - bas) < n"
          using ij l(2) by auto
        then have "cmp (at ys (bas + int (nat (i - bas)))) (at ys (bas + int (nat (j - bas)))) \<le> 0"
          using s unfolding settled_def by blast
        then show ?thesis
          using ij by simp
      qed
    qed
  qed
qed

lemma do_sort_sorted:
  assumes "0 \<le> bas" "lst < int (length xs)" "set xs \<subseteq> A" "do_sort cmp m bas lst xs = Inr ys"
  shows "sorted_range bas lst ys"
  using assms
proof (induction "nat m" arbitrary: m bas lst xs ys rule: less_induct)
  case less
  have p: "permuted bas lst xs ys"
    using do_sort_ok [OF less.prems(1,2), of cmp m] less.prems(4) by auto
  have inA: "at ys i \<in> A" if "bas \<le> i" "i \<le> lst" for i
    using that less.prems permuted_length [OF p] permuted_A [OF p] by (intro at_A) auto
  consider "lst \<le> bas" | "bas + 1 = lst" | "bas < lst" "bas + 1 \<noteq> lst" "m \<le> 1" | "bas < lst" "bas + 1 \<noteq> lst" "1 < m"
    by linarith
  then show ?case
  proof cases
    case 1
    then have "i = j" if "bas \<le> i" "i \<le> j" "j \<le> lst" for i j
      using that by simp
    then show ?thesis
      using le_refl inA unfolding sorted_range_def by metis
  next
    case 2
    have xA: "at xs bas \<in> A" "at xs lst \<in> A"
      using 2 less.prems by (auto intro: at_A)
    have ys: "ys = (if cmp (at xs bas) (at xs lst) > 0 then xs[nat bas := at xs lst, nat lst := at xs bas] else xs)"
      using 2 less.prems by (subst (asm) do_sort.simps) (auto split: if_splits)
    have "cmp (at ys bas) (at ys lst) \<le> 0"
      using ys 2 less.prems total [OF xA] by (auto simp: nth_list_update eq_nat_nat_iff)
    moreover have "i = bas \<and> j = bas \<or> i = bas \<and> j = lst \<or> i = lst \<and> j = lst" if "bas \<le> i" "i \<le> j" "j \<le> lst" for i j
      using that 2 by linarith
    ultimately show ?thesis
      using le_refl inA 2 unfolding sorted_range_def by (metis order_refl zle_add1_eq_le less_le)
  next
    case 3
    then show ?thesis
      using heap_sort_sorted [OF less.prems(1-3)] less.prems(4) by (subst (asm) do_sort.simps) simp
  next
    case 4
    obtain us l b v g where r: "permuted bas lst xs us" "bas - 1 \<le> l" "l < b" "bas < b" "b \<le> lst" "l < lst" "v \<in> set xs"
      "below cmp v v \<longrightarrow> divided cmp us bas l b lst v"
      "do_sort cmp m bas lst xs =
        (if g then bind_result (do_sort cmp (m - 1) bas l us) (do_sort cmp (m - 1) b lst)
         else bind_result (do_sort cmp (m - 1) b lst us) (do_sort cmp (m - 1) bas l))"
      using do_sort_round [OF less.prems(1) 4(1) less.prems(2) 4(2,3)] by blast
    have v: "v \<in> A"
      using r(7) less.prems(3) by blast
    have d: "divided cmp us bas l b lst v"
      using r(8) le_refl [OF v] by (simp add: below_def)
    have us: "length us = length xs" "set us \<subseteq> A"
      using permuted_length [OF r(1)] permuted_A [OF r(1) less.prems(3)] by simp_all
    have part: "permuted lo hi ws zs \<and> sorted_range lo hi zs"
      if "do_sort cmp (m - 1) lo hi ws = Inr zs" "0 \<le> lo" "hi \<le> lst" "length ws = length xs" "set ws \<subseteq> A" for lo hi ws zs
      using do_sort_ok [of lo hi ws cmp "m - 1"] less.hyps [of "m - 1" lo hi ws zs] 4 that less.prems by auto
    have "divided cmp ys bas l b lst v \<and> sorted_range bas l ys \<and> sorted_range b lst ys"
    proof (cases g)
      case True
      then obtain ws where ws: "do_sort cmp (m - 1) bas l us = Inr ws" "do_sort cmp (m - 1) b lst ws = Inr ys"
        using r(9) less.prems(4) by (cases "do_sort cmp (m - 1) bas l us") auto
      have 1: "permuted bas l us ws" "sorted_range bas l ws"
        using part [OF ws(1)] us less.prems r by auto
      have 2: "permuted b lst ws ys" "sorted_range b lst ys"
        using part [OF ws(2)] us less.prems r permuted_length [OF 1(1)] permuted_A [OF 1(1) us(2)] by auto
      have "divided cmp ws bas l b lst v"
        using divided_permuted [OF d r(3) less.prems(1)] 1 r less.prems(1) by simp
      then show ?thesis
        using divided_permuted [of cmp ws bas l b lst v ys] 2 r(2-6) less.prems(1) sorted_outside [OF 1(2) 2(1)] by simp
    next
      case False
      then obtain ws where ws: "do_sort cmp (m - 1) b lst us = Inr ws" "do_sort cmp (m - 1) bas l ws = Inr ys"
        using r(9) less.prems(4) by (cases "do_sort cmp (m - 1) b lst us") auto
      have 1: "permuted b lst us ws" "sorted_range b lst ws"
        using part [OF ws(1)] us less.prems r by auto
      have 2: "permuted bas l ws ys" "sorted_range bas l ys"
        using part [OF ws(2)] us less.prems r permuted_length [OF 1(1)] permuted_A [OF 1(1) us(2)] by auto
      have "divided cmp ws bas l b lst v"
        using divided_permuted [OF d r(3) less.prems(1)] 1 r less.prems(1) by simp
      then show ?thesis
        using divided_permuted [of cmp ws bas l b lst v ys] 2 r(2-6) less.prems(1) sorted_outside [OF 1(2) 2(1)] by simp
    qed
    then show ?thesis
      using divided_sorted [of ys bas l b lst v] r(3) less.prems(1,2) v permuted_length [OF p] permuted_A [OF p less.prems(3)] by simp
  qed
qed

lemma fsort_sorted_list:
  assumes "set xs \<subseteq> A"
  shows "\<exists>ys. fsort cmp 0 (int (length xs) - 1) xs = Inr ys \<and> mset ys = mset xs \<and> sorted_wrt (\<lambda>x y. cmp x y \<le> 0) ys"
proof -
  obtain ys where ys: "fsort cmp 0 (int (length xs) - 1) xs = Inr ys" "permuted 0 (int (length xs) - 1) xs ys"
    using do_sort_ok [of 0 "int (length xs) - 1" xs cmp] by (auto simp: fsort_def)
  have s: "sorted_range 0 (int (length xs) - 1) ys"
    using ys(1) assms by (intro do_sort_sorted [of 0 "int (length xs) - 1" xs]) (auto simp: fsort_def)
  have "cmp (ys ! i) (ys ! j) \<le> 0" if "i < j" "j < length ys" for i j
  proof -
    have "0 \<le> int i" "int i \<le> int j" "int j \<le> int (length xs) - 1"
      using that permuted_length [OF ys(2)] by auto
    then have "cmp (at ys (int i)) (at ys (int j)) \<le> 0"
      using s unfolding sorted_range_def by blast
    then show ?thesis
      by simp
  qed
  then have "sorted_wrt (\<lambda>x y. cmp x y \<le> 0) ys"
    by (simp add: sorted_wrt_iff_nth_less)
  then show ?thesis
    using ys(1) permuted_mset [OF ys(2)] by blast
qed

end

section \<open>Properties\<close>

text \<open>C11: The sort returns for every comparison function, even one that contradicts itself: it never reads or
  writes outside of the range, leaves the items outside of it where they are, and permutes the
  others.\<close>

theorem fsort_returns:
  assumes "0 \<le> bas" "lst < int (length xs)"
  shows "\<exists>ys. fsort cmp bas lst xs = Inr ys \<and> mset ys = mset xs \<and>
    (\<forall>k. int k < bas \<or> lst < int k \<longrightarrow> ys ! k = xs ! k)"
proof -
  obtain ys where ys: "fsort cmp bas lst xs = Inr ys" "permuted bas lst xs ys"
    using do_sort_ok [OF assms, of cmp] by (auto simp: fsort_def)
  then show ?thesis
    using permuted_mset [OF ys(2)] permuted_outside [OF ys(2)] by blast
qed

theorem fsort_returns_witness:
  "\<exists>ys. fsort (\<lambda>x y. - 1) 1 3 [5, 1, 4, 2, 0 :: nat] = Inr ys \<and> mset ys = mset [5, 1, 4, 2, 0]"
  using fsort_returns [of 1 3 "[5, 1, 4, 2, 0 :: nat]" "\<lambda>x y. - 1"] by auto

text \<open>C10: With a comparison function that is a total preorder on the items the result is sorted.\<close>

theorem fsort_sorts:
  assumes "\<forall>x \<in> set xs. \<forall>y \<in> set xs. cmp x y \<le> 0 \<or> cmp y x \<le> 0"
    "\<forall>x \<in> set xs. \<forall>y \<in> set xs. \<forall>z \<in> set xs. cmp x y \<le> 0 \<and> cmp y z \<le> 0 \<longrightarrow> cmp x z \<le> 0"
  shows "\<exists>ys. fsort cmp 0 (int (length xs) - 1) xs = Inr ys \<and> mset ys = mset xs \<and> sorted_wrt (\<lambda>x y. cmp x y \<le> 0) ys"
proof -
  have "preorder_cmp cmp (set xs)"
    using assms by unfold_locales blast+
  then show ?thesis
    by (rule preorder_cmp.fsort_sorted_list) simp
qed

theorem fsort_sorts_witness:
  "\<exists>ys. fsort (\<lambda>x y. int x - int y) 0 4 [5, 1, 4, 2, 0] = Inr ys \<and> sorted ys"
proof -
  have "sorted_wrt (\<lambda>x y :: nat. int x - int y \<le> 0) ys \<longleftrightarrow> sorted ys" for ys
    by (simp add: algebra_simps)
  then show ?thesis
    using fsort_sorts [of "[5, 1, 4, 2, 0]" "\<lambda>x y. int x - int y"] by auto
qed

end
