(* ===== verification/Array_Sort.thy ===== *)
theory Array_Sort
  imports Sort Array_Ops "HOL-Library.List_Lexorder"
begin

text \<open>
  The orders of arrays (\<open>src/src/array.c\<close>): the comparison functions of sets and switches with the
  comparison operators of objects, the sort by an order array, the sort in place, and the
  rearrangement of an array in an order.
\<close>

section \<open>Comparing values\<close>

text \<open>The operators \<open>`<\<close> and \<open>`>\<close> that the program of an inherit of an object defines.\<close>

record orders =
  lfun_lt :: "addr \<Rightarrow> nat \<Rightarrow> (svalue \<Rightarrow> svalue) option"
  lfun_gt :: "addr \<Rightarrow> nat \<Rightarrow> (svalue \<Rightarrow> svalue) option"

definition cmpfun_unordered :: int where "cmpfun_unordered = 2 ^ 30"

definition holds :: "world \<Rightarrow> (svalue \<Rightarrow> svalue) option \<Rightarrow> svalue \<Rightarrow> bool" where
  "holds w f x = (case f of None \<Rightarrow> False | Some f \<Rightarrow> \<not> is_zero w (f x))"

text \<open>One of the two halves of \<open>lfun_cmp\<close>: what the operators of \<open>x\<close> say of it and \<open>y\<close>, with the sign
  of the half, and whether an operator \<open>`<\<close> or \<open>`>\<close> was found so far.\<close>

definition lfun_half :: "world \<Rightarrow> orders \<Rightarrow> svalue \<Rightarrow> svalue \<Rightarrow> int \<Rightarrow> bool \<Rightarrow> int option \<times> bool" where
  "lfun_half w ops x y sign found =
     (case x of
        VObject p s \<Rightarrow>
          (if prog_of w p = None then (None, found)
           else
             let found = (found \<or> lfun_lt ops p s \<noteq> None \<or> lfun_gt ops p s \<noteq> None) in
             if holds w (lfun_lt ops p s) y then (Some (- sign), found)
             else if holds w (lfun_gt ops p s) y then (Some sign, found)
             else if found \<and> holds w (lfun_eq w p s) y then (Some 0, found)
             else (None, found))
      | _ \<Rightarrow> (None, found))"

definition lfun_cmp :: "world \<Rightarrow> orders \<Rightarrow> svalue \<Rightarrow> svalue \<Rightarrow> int" where
  "lfun_cmp w ops a b =
     (case lfun_half w ops a b 1 False of
        (Some r, _) \<Rightarrow> r
      | (None, found) \<Rightarrow>
          (case lfun_half w ops b a (- 1) found of
             (Some r, _) \<Rightarrow> r
           | (None, found) \<Rightarrow> if found then cmpfun_unordered else - cmpfun_unordered))"

definition addr_cmp :: "addr \<Rightarrow> addr \<Rightarrow> int" where
  "addr_cmp p q = (if p < q then - 1 else if p > q then 1 else 0)"

text \<open>The end of \<open>obj_or_func_cmp\<close>: two different objects that are not destructed.\<close>

definition obj_cmp :: "world \<Rightarrow> orders \<Rightarrow> addr \<Rightarrow> nat \<Rightarrow> addr \<Rightarrow> nat \<Rightarrow> nat \<Rightarrow> nat \<Rightarrow> int" where
  "obj_cmp w ops p s q t a_subtype b_subtype =
     (let res = lfun_cmp w ops (VObject p s) (VObject q t) in
      if res = - cmpfun_unordered then
        (if prog_of w p = prog_of w q then (if p < q then - 1 else 1)
         else if the (prog_of w p) < the (prog_of w q) then - 1 else 1)
      else if res = 0 then int a_subtype - int b_subtype
      else res)"

definition obj_or_func_cmp :: "world \<Rightarrow> orders \<Rightarrow> bool \<Rightarrow> addr \<Rightarrow> nat \<Rightarrow> addr \<Rightarrow> nat \<Rightarrow> int" where
  "obj_or_func_cmp w ops is_func p s q t =
     (if p = q then int s - int t
      else if prog_of w p = None then (if prog_of w q = None then 0 else 1)
      else if prog_of w q = None then - 1
      else if is_func then
        (if s = function_builtin then (if t = function_builtin then addr_cmp p q else 1)
         else if t = function_builtin then - 1
         else if prog_of w p \<noteq> prog_of w q then (if the (prog_of w p) < the (prog_of w q) then - 1 else 1)
         else if s \<noteq> t then int s - int t
         else obj_cmp w ops p 0 q 0 s s)
      else obj_cmp w ops p s q t s t)"

text \<open>The order of doubles given as bit patterns: sign and magnitude.\<close>

definition float_rank :: "64 word \<Rightarrow> int" where
  "float_rank f = (if bit f 63 then - uint (f AND 0x7fffffffffffffff) else uint (f AND 0x7fffffffffffffff))"

definition float_less :: "64 word \<Rightarrow> 64 word \<Rightarrow> bool" where
  "float_less f g \<longleftrightarrow> \<not> is_nan f \<and> \<not> is_nan g \<and> float_rank f < float_rank g"

definition int_cmp :: "64 word \<Rightarrow> 64 word \<Rightarrow> int" where
  "int_cmp i j = (if sint i < sint j then - 1 else if sint i > sint j then 1 else 0)"

definition float_cmp :: "64 word \<Rightarrow> 64 word \<Rightarrow> int" where
  "float_cmp f g = (if float_less f g then - 1 else if float_less g f then 1 else 0)"

text \<open>\<open>u.refs\<close> of a value.\<close>

primrec pointer :: "svalue \<Rightarrow> addr" where
  "pointer (VInt i s) = i"
| "pointer (VFloat f) = f"
| "pointer (VArray p) = p"
| "pointer (VMapping p) = p"
| "pointer (VMultiset p) = p"
| "pointer (VObject p s) = p"
| "pointer (VFunction p s) = p"
| "pointer (VProgram p) = p"
| "pointer (VString p) = p"
| "pointer (VType p) = p"

definition set_svalue_cmpfun :: "world \<Rightarrow> orders \<Rightarrow> svalue \<Rightarrow> svalue \<Rightarrow> int" where
  "set_svalue_cmpfun w ops a b =
     (let typediff = int (typeof a) - int (typeof b) in
      if typediff \<noteq> 0 then
        (if is_object a \<or> is_object b then
           (let res = lfun_cmp w ops a b in if res \<noteq> - cmpfun_unordered then res else typediff)
         else typediff)
      else
        (case (a, b) of
           (VFloat f, VFloat g) \<Rightarrow> float_cmp f g
         | (VInt i s, VInt j t) \<Rightarrow> int_cmp i j
         | (VObject p s, VObject q t) \<Rightarrow> obj_or_func_cmp w ops False p s q t
         | (VFunction p s, VFunction q t) \<Rightarrow> obj_or_func_cmp w ops True p s q t
         | _ \<Rightarrow> addr_cmp (pointer a) (pointer b)))"

text \<open>Switches compare strings by their characters: \<open>strcmp\<close> is \<open>my_quick_strcmp\<close>.\<close>

definition switch_svalue_cmpfun :: "world \<Rightarrow> orders \<Rightarrow> (addr \<Rightarrow> addr \<Rightarrow> int) \<Rightarrow> svalue \<Rightarrow> svalue \<Rightarrow> int" where
  "switch_svalue_cmpfun w ops strcmp a b =
     (let typediff = int (typeof a) - int (typeof b) in
      if typediff \<noteq> 0 then typediff
      else
        (case (a, b) of
           (VInt i s, VInt j t) \<Rightarrow> int_cmp i j
         | (VFloat f, VFloat g) \<Rightarrow> float_cmp f g
         | (VString p, VString q) \<Rightarrow> strcmp p q
         | (VObject p s, VObject q t) \<Rightarrow> obj_or_func_cmp w ops False p s q t
         | (VFunction p s, VFunction q t) \<Rightarrow> obj_or_func_cmp w ops True p s q t
         | _ \<Rightarrow> addr_cmp (pointer a) (pointer b)))"

text \<open>Only integers.\<close>

definition alpha_int_svalue_cmpfun :: "svalue \<Rightarrow> svalue \<Rightarrow> int" where
  "alpha_int_svalue_cmpfun a b = int_cmp (pointer a) (pointer b)"

section \<open>Sorting\<close>

definition internal_cmpfun :: "'a cmp \<Rightarrow> 'a list \<Rightarrow> nat cmp" where
  "internal_cmpfun current_cmpfun current_array a b =
     (let res = current_cmpfun (current_array ! a) (current_array ! b) in
      if res \<noteq> 0 then res else int a - int b)"

definition get_order :: "parr \<Rightarrow> svalue cmp \<Rightarrow> nat list result" where
  "get_order v fn =
     (if asize v = 0 then Inr []
      else fsort (internal_cmpfun fn (items v)) 0 (int (asize v) - 1) [0..<asize v])"

text \<open>\<open>alpha\<close> is \<open>alpha_svalue_cmpfun\<close>, which may call operators of objects.\<close>

definition sort_array_destructively :: "svalue cmp \<Rightarrow> parr \<Rightarrow> parr result" where
  "sort_array_destructively alpha v =
     (if asize v = 0 then Inr v
      else
        bind_result
          (fsort (if type_field v = bit_int then alpha_int_svalue_cmpfun else alpha) (int (item v))
            (int (item v) + int (asize v) - 1) (mem v)) (\<lambda>m. Inr (v\<lparr>mem := m\<rparr>)))"

section \<open>Rearranging\<close>

text \<open>The part of the array that is in order already stays where it is.\<close>

fun in_order :: "nat \<Rightarrow> nat list \<Rightarrow> nat" where
  "in_order aok [] = aok"
| "in_order aok (x # order) = (if x \<noteq> aok then aok else in_order (aok + 1) order)"

fun pick :: "'a list \<Rightarrow> nat list \<Rightarrow> 'a list result" where
  "pick xs [] = Inr []"
| "pick xs (i # order) = bind_result (item_at xs (int i)) (\<lambda>x. bind_result (pick xs order) (\<lambda>ys. Inr (x # ys)))"

definition reorder :: "'a list \<Rightarrow> nat list \<Rightarrow> 'a list result" where
  "reorder memory order =
     (if length memory < 2 then Inr memory
      else
        (let aok = in_order 0 order in
         if aok = length memory then Inr memory
         else bind_result (pick memory (drop aok order)) (\<lambda>tmp. Inr (take aok memory @ tmp))))"

definition order_array :: "parr \<Rightarrow> nat list \<Rightarrow> parr result" where
  "order_array v order = bind_result (reorder (items v) order) (\<lambda>xs. Inr (set_items v xs))"

text \<open>The copy of an empty array is the static one, whose type field is written too.\<close>

definition reorder_and_copy_array :: "parr \<Rightarrow> nat list \<Rightarrow> parr result" where
  "reorder_and_copy_array v order =
     bind_result (real_allocate_array (asize v) 0) (\<lambda>ret.
     bind_result (pick (items v) (take (asize v) order)) (\<lambda>xs.
       Inr (set_items (ret\<lparr>type_field := type_field v\<rparr>) xs)))"

section \<open>Orders\<close>

text \<open>What a comparison function has to keep to for a stable sort of values of a set \<open>A\<close>.\<close>

locale order_cmp =
  fixes fn :: "'a cmp" and A :: "'a set"
  assumes flip: "x \<in> A \<Longrightarrow> y \<in> A \<Longrightarrow> sgn (fn y x) = - sgn (fn x y)"
    and step: "x \<in> A \<Longrightarrow> y \<in> A \<Longrightarrow> z \<in> A \<Longrightarrow> fn x y \<le> 0 \<Longrightarrow> fn y z \<le> 0 \<Longrightarrow> fn x z \<le> 0"

sublocale order_cmp \<subseteq> preorder_cmp fn A
proof
  show "fn x y \<le> 0 \<or> fn y x \<le> 0" if "x \<in> A" "y \<in> A" for x y
    using flip [OF that] by (auto simp: sgn_if split: if_splits)
qed (rule step)

context order_cmp begin

lemma zero_flip: "x \<in> A \<Longrightarrow> y \<in> A \<Longrightarrow> fn y x = 0 \<longleftrightarrow> fn x y = 0"
  using flip [of x y] by (auto simp: sgn_if split: if_splits)

lemma le_zero: "x \<in> A \<Longrightarrow> y \<in> A \<Longrightarrow> z \<in> A \<Longrightarrow> fn x y = 0 \<Longrightarrow> fn y z = 0 \<Longrightarrow> fn x z = 0"
  using step [of x y z] step [of z y x] zero_flip [of x y] zero_flip [of y z] flip [of x z] by (auto simp: sgn_if split: if_splits)

lemma less_le: "x \<in> A \<Longrightarrow> y \<in> A \<Longrightarrow> z \<in> A \<Longrightarrow> fn x y < 0 \<Longrightarrow> fn y z \<le> 0 \<Longrightarrow> fn x z < 0"
proof -
  assume a: "x \<in> A" "y \<in> A" "z \<in> A" "fn x y < 0" "fn y z \<le> 0"
  have "\<not> fn z x \<le> 0"
  proof
    assume "fn z x \<le> 0"
    then have "fn y x \<le> 0"
      using step [of y z x] a by simp
    then show False
      using flip [of x y] a by (simp add: sgn_if split: if_splits)
  qed
  then show ?thesis
    using flip [of x z] a by (simp add: sgn_if split: if_splits)
qed

lemma le_less: "x \<in> A \<Longrightarrow> y \<in> A \<Longrightarrow> z \<in> A \<Longrightarrow> fn x y \<le> 0 \<Longrightarrow> fn y z < 0 \<Longrightarrow> fn x z < 0"
proof -
  assume a: "x \<in> A" "y \<in> A" "z \<in> A" "fn x y \<le> 0" "fn y z < 0"
  have "\<not> fn z x \<le> 0"
  proof
    assume "fn z x \<le> 0"
    then have "fn z y \<le> 0"
      using step [of z x y] a by simp
    then show False
      using flip [of y z] a by (simp add: sgn_if split: if_splits)
  qed
  then show ?thesis
    using flip [of x z] a by (simp add: sgn_if split: if_splits)
qed

lemma sgn_mono: "x \<in> A \<Longrightarrow> y \<in> A \<Longrightarrow> s \<in> A \<Longrightarrow> fn x y \<le> 0 \<Longrightarrow> sgn (fn x s) \<le> sgn (fn y s)"
  using le_less [of x y s] step [of x y s] by (cases "fn y s < 0"; cases "fn y s = 0") (auto simp: sgn_if)

text \<open>The order of the indices: by the elements, and for equal ones by the place.\<close>

definition before :: "'a list \<Rightarrow> nat \<Rightarrow> nat \<Rightarrow> bool" where
  "before xs i j \<longleftrightarrow> fn (xs ! i) (xs ! j) < 0 \<or> fn (xs ! i) (xs ! j) = 0 \<and> i < j"

lemma internal_le: "internal_cmpfun fn xs i j \<le> 0 \<longleftrightarrow> before xs i j \<or> fn (xs ! i) (xs ! j) = 0 \<and> i = j"
  by (auto simp: internal_cmpfun_def before_def Let_def)

lemma internal_preorder:
  assumes "set xs \<subseteq> A"
  shows "preorder_cmp (internal_cmpfun fn xs) {..<length xs}"
proof
  fix i j k
  assume i: "i \<in> {..<length xs}" and j: "j \<in> {..<length xs}" and k: "k \<in> {..<length xs}"
  have A: "xs ! i \<in> A" "xs ! j \<in> A" "xs ! k \<in> A"
    using i j k assms by auto
  show "internal_cmpfun fn xs i j \<le> 0 \<or> internal_cmpfun fn xs j i \<le> 0"
    using flip [OF A(1,2)] by (auto simp: internal_cmpfun_def Let_def sgn_if split: if_splits)
  show "internal_cmpfun fn xs i k \<le> 0" if "internal_cmpfun fn xs i j \<le> 0" "internal_cmpfun fn xs j k \<le> 0"
    using that less_le [OF A] le_less [OF A] le_zero [OF A] unfolding internal_le before_def by (auto simp: less_le order_less_imp_le)
qed

lemma indices_sorted:
  assumes "set xs \<subseteq> A"
  shows "\<exists>os. fsort (internal_cmpfun fn xs) 0 (int (length xs) - 1) [0..<length xs] = Inr os \<and>
    mset os = mset [0..<length xs] \<and> sorted_wrt (before xs) os"
proof -
  have "set [0..<length xs] \<subseteq> {..<length xs}"
    by auto
  then obtain os where os: "fsort (internal_cmpfun fn xs) 0 (int (length xs) - 1) [0..<length xs] = Inr os"
    "mset os = mset [0..<length xs]" "sorted_wrt (\<lambda>i j. internal_cmpfun fn xs i j \<le> 0) os"
    using preorder_cmp.fsort_sorted_list [OF internal_preorder [OF assms], of "[0..<length xs]"]
    unfolding length_upt minus_nat.diff_0 by blast
  have d: "distinct os"
    using os(2) mset_eq_imp_distinct_iff [of os "[0..<length xs]"] by simp
  have "before xs (os ! i) (os ! j)" if "i < j" "j < length os" for i j
    using sorted_wrt_nth_less [OF os(3) that] d that by (auto simp: internal_le nth_eq_iff_index_eq)
  then have "sorted_wrt (before xs) os"
    by (simp add: sorted_wrt_iff_nth_less)
  then show ?thesis
    using os by blast
qed

end

section \<open>The order of sets\<close>

text \<open>The values that \<open>set_svalue_cmpfun\<close> orders: no NaN, no destructed object, no operators. Their
  order is that of a list of numbers.\<close>

definition sortable :: "world \<Rightarrow> orders \<Rightarrow> svalue \<Rightarrow> bool" where
  "sortable w ops v \<longleftrightarrow>
     (case v of
        VFloat f \<Rightarrow> \<not> is_nan f
      | VObject p s \<Rightarrow> prog_of w p \<noteq> None \<and> lfun_lt ops p s = None \<and> lfun_gt ops p s = None
      | VFunction p s \<Rightarrow> prog_of w p \<noteq> None \<and> s \<le> function_builtin \<and> lfun_lt ops p 0 = None \<and> lfun_gt ops p 0 = None
      | _ \<Rightarrow> True)"

definition sort_key :: "world \<Rightarrow> svalue \<Rightarrow> int list" where
  "sort_key w v =
     (case v of
        VInt i s \<Rightarrow> [0, sint i]
      | VFloat f \<Rightarrow> [1, float_rank f]
      | VObject p s \<Rightarrow> [11, uint (the (prog_of w p)), uint p, int s]
      | VFunction p s \<Rightarrow>
          (if s = function_builtin then [12, 1, uint p]
           else [12, 0, uint (the (prog_of w p)), int s, uint p])
      | _ \<Rightarrow> [int (typeof v), uint (pointer v)])"

definition key_cmp :: "world \<Rightarrow> svalue \<Rightarrow> svalue \<Rightarrow> int" where
  "key_cmp w a b = (if sort_key w a < sort_key w b then - 1 else if sort_key w b < sort_key w a then 1 else 0)"

lemma lfun_cmp_none:
  assumes "sortable w ops a" "sortable w ops b" "is_object a \<or> is_object b"
  shows "lfun_cmp w ops a b = - cmpfun_unordered"
proof -
  have "lfun_half w ops x y g False = (None, False)" if "sortable w ops x" for x y g
    using that by (auto simp: lfun_half_def sortable_def holds_def split: svalue.splits)
  then show ?thesis
    using assms by (simp add: lfun_cmp_def)
qed

lemma obj_cmp_key:
  assumes "sortable w ops (VObject p s)" "sortable w ops (VObject q t)" "p \<noteq> q" "prog_of w p = Some P" "prog_of w q = Some Q"
  shows "obj_cmp w ops p s q t u v = (if P < Q \<or> P = Q \<and> p < q then - 1 else 1)"
  using lfun_cmp_none [OF assms(1,2)] assms(4,5) by (auto simp: obj_cmp_def)

lemma obj_or_func_key:
  assumes "if f then sortable w ops (VFunction p s) \<and> sortable w ops (VFunction q t)
    else sortable w ops (VObject p s) \<and> sortable w ops (VObject q t)"
  shows "sgn (obj_or_func_cmp w ops f p s q t) =
    (if f then key_cmp w (VFunction p s) (VFunction q t) else key_cmp w (VObject p s) (VObject q t))"
proof -
  obtain P Q where P: "prog_of w p = Some P" "prog_of w q = Some Q"
    using assms by (auto simp: sortable_def split: if_splits)
  have key: "uint a < uint b \<longleftrightarrow> a < b" "uint a = uint b \<longleftrightarrow> a = b" for a b :: addr
    by (simp_all add: word_less_def word_uint_eq_iff)
  have le: "s \<le> function_builtin" "t \<le> function_builtin" if f
    using assms that P by (auto simp: sortable_def)
  show ?thesis
  proof (cases "p = q")
    case True
    then show ?thesis
      using P le by (auto simp: obj_or_func_cmp_def key_cmp_def sort_key_def key sgn_if)
  next
    case ne: False
    then have n: "p < q \<or> q < p" "P = Q \<or> P < Q \<or> Q < P"
      by auto
    show ?thesis
    proof (cases f)
      case True
      have "sortable w ops (VObject p 0)" "sortable w ops (VObject q 0)"
        using assms True P by (auto simp: sortable_def)
      then have "obj_cmp w ops p 0 q 0 u u = (if P < Q \<or> P = Q \<and> p < q then - 1 else 1)" for u
        using obj_cmp_key ne P by blast
      then show ?thesis
        using True P n ne by (auto simp: obj_or_func_cmp_def key_cmp_def sort_key_def addr_cmp_def key sgn_if)
    next
      case False
      have "sortable w ops (VObject p s)" "sortable w ops (VObject q t)"
        using assms False by auto
      then have "obj_cmp w ops p s q t s t = (if P < Q \<or> P = Q \<and> p < q then - 1 else 1)"
        using obj_cmp_key ne P by blast
      then show ?thesis
        using False P n ne by (auto simp: obj_or_func_cmp_def key_cmp_def sort_key_def key sgn_if)
    qed
  qed
qed

lemma set_cmp_key:
  assumes "sortable w ops a" "sortable w ops b"
  shows "sgn (set_svalue_cmpfun w ops a b) = key_cmp w a b"
proof (cases "typeof a = typeof b")
  case False
  then show ?thesis
    using lfun_cmp_none [OF assms]
    by (cases a; cases b) (auto simp: set_svalue_cmpfun_def key_cmp_def sort_key_def Let_def sgn_if)
next
  case True
  consider "is_object a" | "typeof a = 12" | "\<not> is_object a" "typeof a \<noteq> 12"
    by blast
  then show ?thesis
  proof cases
    case 1
    then show ?thesis
      using assms True obj_or_func_key [of False] by (cases a; cases b) (simp_all add: set_svalue_cmpfun_def)
  next
    case 2
    then show ?thesis
      using assms True obj_or_func_key [of True] by (cases a; cases b) (simp_all add: set_svalue_cmpfun_def)
  next
    case 3
    then show ?thesis
      using assms True by (cases a; cases b) (simp_all add: set_svalue_cmpfun_def key_cmp_def sort_key_def sgn_if int_cmp_def float_cmp_def
        float_less_def sortable_def addr_cmp_def word_less_def)
  qed
qed

interpretation set_order: order_cmp "set_svalue_cmpfun w ops" "{v. sortable w ops v}" for w ops
proof
  fix x y z
  assume A: "x \<in> {v. sortable w ops v}" "y \<in> {v. sortable w ops v}"
  then have "sgn (set_svalue_cmpfun w ops x y) = key_cmp w x y" "sgn (set_svalue_cmpfun w ops y x) = key_cmp w y x"
    by (simp_all add: set_cmp_key)
  then show "sgn (set_svalue_cmpfun w ops y x) = - sgn (set_svalue_cmpfun w ops x y)"
    by (auto simp: key_cmp_def)
  assume "z \<in> {v. sortable w ops v}" "set_svalue_cmpfun w ops x y \<le> 0" "set_svalue_cmpfun w ops y z \<le> 0"
  moreover have le: "set_svalue_cmpfun w ops a b \<le> 0 \<longleftrightarrow> sort_key w a \<le> sort_key w b"
    if "sortable w ops a" "sortable w ops b" for a b
    using set_cmp_key [OF that] by (auto simp: key_cmp_def sgn_if split: if_splits)
  ultimately show "set_svalue_cmpfun w ops x z \<le> 0"
    using A by (auto simp: le intro: order_trans)
qed

interpretation int_order: order_cmp alpha_int_svalue_cmpfun UNIV
  by unfold_locales (auto simp: alpha_int_svalue_cmpfun_def int_cmp_def split: if_splits)

section \<open>Rearranging in an order\<close>

lemma in_order_spec: "in_order a order = a + k \<Longrightarrow> take k order = [a..<a + k]"
proof (induction order arbitrary: a k)
  case (Cons x order)
  show ?case
  proof (cases k)
    case (Suc j)
    then have "x = a" "in_order (a + 1) order = (a + 1) + j"
      using Cons.prems by (auto split: if_splits)
    then show ?thesis
      using Cons.IH [of "a + 1" j] Suc by (simp add: upt_rec)
  qed simp
qed simp

lemma in_order_le: "a \<le> in_order a order" "in_order a order \<le> a + length order"
proof -
  show "a \<le> in_order a order"
    by (induction order arbitrary: a) (auto intro: Suc_leD)
  show "in_order a order \<le> a + length order"
    by (induction order arbitrary: a) (auto, metis add_Suc add_Suc_right)
qed

lemma pick_ok: "set order \<subseteq> {..<length xs} \<Longrightarrow> pick xs order = Inr (map ((!) xs) order)"
  by (induction order) auto

lemma reorder_ok:
  assumes "length order = length xs" "set order \<subseteq> {..<length xs}"
  shows "reorder xs order = Inr (map ((!) xs) order)"
proof (cases "length xs < 2")
  case True
  then have "xs = [] \<and> order = [] \<or> (\<exists>x. xs = [x] \<and> order = [0])"
    using assms by (cases xs; cases order) auto
  then show ?thesis
    by (auto simp: reorder_def)
next
  case False
  define k where "k = in_order 0 order"
  have t: "take k order = [0..<k]" "k \<le> length xs"
    using in_order_spec [of 0 order k] in_order_le(2) [of 0 order] assms(1) by (auto simp: k_def)
  have m: "map ((!) xs) (take k order) = take k xs"
    unfolding t(1) using t(2) by (intro nth_equalityI) auto
  have "map ((!) xs) order = map ((!) xs) (take k order @ drop k order)"
    by simp
  also have "\<dots> = take k xs @ map ((!) xs) (drop k order)"
    by (simp only: map_append m)
  finally have e: "map ((!) xs) order = take k xs @ map ((!) xs) (drop k order)" .
  have "set (drop k order) \<subseteq> {..<length xs}"
    using assms(2) set_drop_subset by fastforce
  then have "reorder xs order = Inr (take k xs @ map ((!) xs) (drop k order))"
    using False pick_ok [of "drop k order" xs] assms(1) by (auto simp: reorder_def Let_def k_def [symmetric])
  then show ?thesis
    using e by simp
qed

lemma items_set_items:
  assumes "block_ok v" "length xs = asize v"
  shows "items (set_items v xs) = xs" "block_ok (set_items v xs)" "asize (set_items v xs) = asize v"
  using assms by (simp_all add: items_def set_items_def block_ok_def)

lemma array_ok_set_items:
  assumes "array_ok v" "mset xs = mset (items v)"
  shows "array_ok (set_items v xs)" "items (set_items v xs) = xs"
proof -
  have b: "block_ok v" "length xs = asize v"
    using assms length_items [of v] size_mset [of xs] by (auto simp: array_ok_def)
  show i: "items (set_items v xs) = xs"
    by (rule items_set_items [OF b])
  have "covers (type_field v) xs"
    using assms mset_eq_setD [OF assms(2)] by (simp add: array_ok_def types_ok_def covers_def)
  then have "types_ok (set_items v xs)"
    unfolding types_ok_def i by (simp add: set_items_def)
  moreover have "shared_ok (set_items v xs)"
    using assms(1) b by (auto simp: array_ok_def shared_ok_def set_items_def)
  ultimately show "array_ok (set_items v xs)"
    using items_set_items(2) [OF b] by (simp add: array_ok_def)
qed

lemma set_cmp_types:
  assumes "sortable w ops a" "sortable w ops b" "typeof a \<noteq> typeof b"
  shows "set_svalue_cmpfun w ops a b = int (typeof a) - int (typeof b)"
  using assms lfun_cmp_none [OF assms(1,2)] by (simp add: set_svalue_cmpfun_def Let_def)

text \<open>The part of a list that a sort of a range permutes.\<close>

lemma permuted_segment:
  assumes "permuted (int a) (int a + int n - 1) xs ys" "a + n \<le> length xs"
  shows "take a ys = take a xs" "drop (a + n) ys = drop (a + n) xs"
    "mset (take n (drop a ys)) = mset (take n (drop a xs))"
proof -
  have l: "length ys = length xs"
    by (rule permuted_length [OF assms(1)])
  have o: "ys ! k = xs ! k" if "k < a \<or> a + n \<le> k" for k
    using that by (intro permuted_outside [OF assms(1)]) auto
  show t: "take a ys = take a xs" "drop (a + n) ys = drop (a + n) xs"
    using l o by (auto intro!: nth_equalityI)
  have "xs = take a xs @ take n (drop a xs) @ drop (a + n) xs" for xs :: "'a list"
    by (metis append_take_drop_id drop_drop add.commute)
  then have "mset xs = mset (take a xs) + mset (take n (drop a xs)) + mset (drop (a + n) xs)" for xs :: "'a list"
    by (metis mset_append union_assoc)
  then show "mset (take n (drop a ys)) = mset (take n (drop a xs))"
    using permuted_mset [OF assms(1)] t by (metis add_right_cancel add_left_cancel)
qed

lemma no_smaller_bits: "no_smaller_types tf s \<longleftrightarrow> (\<forall>n \<le> typeof s. \<not> bit tf n)"
proof -
  have "push_bit (typeof s) 2 - 1 = (mask (Suc (typeof s)) :: int)"
    by (simp add: push_bit_eq_mult mask_eq_exp_minus_1)
  then show ?thesis
    by (auto simp: no_smaller_types_def bit_eq_iff bit_simps less_Suc_eq_le)
qed

lemma bit_bit_mixed: "bit (0xff7f :: int) n \<longleftrightarrow> n < 16 \<and> n \<noteq> 7"
proof -
  have "(0xff7f :: int) = mask 7 OR push_bit 8 (mask 8)"
    by (simp add: mask_eq_exp_minus_1)
  show ?thesis
    unfolding \<open>(0xff7f :: int) = mask 7 OR push_bit 8 (mask 8)\<close>
    by (auto simp: bit_or_iff bit_mask_iff bit_push_bit_iff_int)
qed

lemma no_larger_bits:
  assumes "no_larger_types tf s" "bit tf n" "typeof s \<le> n" "n < 16" "n \<noteq> 7"
  shows "n = typeof s + 7"
proof (rule ccontr)
  assume "n \<noteq> typeof s + 7"
  then have "bit (push_bit (typeof s) (0xff7f :: int) AND 0xff7f AND uint tf) n"
    using assms(2-5) by (auto simp: bit_push_bit_iff_int bit_and_iff bit_bit_mixed bit_uint_iff)
  then show False
    using assms(1) by (simp add: no_larger_types_def)
qed

lemma set_order_indices:
  assumes "array_ok v" "\<forall>x \<in> set (items v). sortable w ops x"
  shows "\<exists>os. get_order v (set_svalue_cmpfun w ops) = Inr os \<and> mset os = mset [0..<asize v] \<and>
    sorted_wrt (set_order.before w ops (items v)) os"
proof -
  have l: "length (items v) = asize v"
    using assms(1) by (simp add: array_ok_def length_items)
  have A: "set (items v) \<subseteq> {v. sortable w ops v}"
    using assms(2) by auto
  obtain os where os: "fsort (internal_cmpfun (set_svalue_cmpfun w ops) (items v)) 0 (int (asize v) - 1) [0..<asize v] = Inr os"
    "mset os = mset [0..<asize v]" "sorted_wrt (set_order.before w ops (items v)) os"
    using set_order.indices_sorted [OF A] unfolding l by blast
  then have "get_order v (set_svalue_cmpfun w ops) = Inr os"
    using mset_eq_length [OF os(2)] by (cases os) (auto simp: get_order_def)
  then show ?thesis
    using os by blast
qed

section \<open>Properties\<close>

text \<open>C12: The order of a set of values that can be compared is a permutation of the indices under which the
  values ascend, and values that are equal keep their order; the array rearranged in it holds these
  values and keeps its invariant.\<close>

theorem get_set_order_spec:
  assumes "array_ok v" "\<forall>x \<in> set (items v). sortable w ops x"
  shows "\<exists>os r. get_order v (set_svalue_cmpfun w ops) = Inr os \<and> mset os = mset [0..<asize v] \<and>
    sorted_wrt (\<lambda>i j. let c = set_svalue_cmpfun w ops (items v ! i) (items v ! j) in c < 0 \<or> c = 0 \<and> i < j) os \<and>
    order_array v os = Inr r \<and> array_ok r \<and> items r = map ((!) (items v)) os"
proof -
  have l: "length (items v) = asize v"
    using assms(1) by (simp add: array_ok_def length_items)
  obtain os where os: "get_order v (set_svalue_cmpfun w ops) = Inr os" "mset os = mset [0..<asize v]"
    "sorted_wrt (set_order.before w ops (items v)) os"
    using set_order_indices [OF assms] by blast
  have "set os = set [0..<asize v]" "length os = length [0..<asize v]"
    by (rule mset_eq_setD [OF os(2)], rule mset_eq_length [OF os(2)])
  then have d: "set os = {..<asize v}" "length os = asize v"
    by (simp_all add: lessThan_atLeast0)
  have "reorder (items v) os = Inr (map ((!) (items v)) os)"
    using d l by (intro reorder_ok) auto
  moreover have "mset (map ((!) (items v)) os) = mset (items v)"
  proof -
    have "mset (map ((!) (items v)) os) = mset (map ((!) (items v)) [0..<length (items v)])"
      by (simp only: mset_map os(2) l)
    then show ?thesis
      by (simp only: map_nth)
  qed
  moreover have "sorted_wrt (\<lambda>i j. let c = set_svalue_cmpfun w ops (items v ! i) (items v ! j) in c < 0 \<or> c = 0 \<and> i < j) os"
    using os(3) by (rule sorted_wrt_mono_rel [rotated]) (simp add: set_order.before_def Let_def)
  ultimately show ?thesis
    using os(1,2) array_ok_set_items [OF assms(1)] by (simp add: order_array_def)
qed

definition unsorted_array :: parr where
  "unsorted_array = \<lparr>mem = [VInt 9 0, VInt 3 0, VInt 1 0, VInt 3 1], item = 1, asize = 3, refs = 1, aflags = 0,
    type_field = 1, shared = False\<rparr>"

lemma unsorted_array_ok: "array_ok unsorted_array" "items unsorted_array = [VInt 3 0, VInt 1 0, VInt 3 1]"
proof -
  show i: "items unsorted_array = [VInt 3 0, VInt 1 0, VInt 3 1]"
    by (simp add: unsorted_array_def items_def)
  show "array_ok unsorted_array"
    unfolding array_ok_def types_ok_def i by (simp add: unsorted_array_def block_ok_def shared_ok_def)
qed

definition no_orders :: orders where
  "no_orders = \<lparr>lfun_lt = \<lambda>_ _. None, lfun_gt = \<lambda>_ _. None\<rparr>"

theorem get_set_order_spec_witness:
  "\<exists>os. get_order unsorted_array (set_svalue_cmpfun small_world no_orders) = Inr os \<and> mset os = mset [0..<3]"
proof -
  have "asize unsorted_array = 3"
    by (simp add: unsorted_array_def)
  then show ?thesis
    using get_set_order_spec [OF unsorted_array_ok(1), of small_world no_orders] by (auto simp: unsorted_array_ok(2) sortable_def)
qed

text \<open>C40: In an array sorted by the order of sets, the search finds a value exactly when an equal one is
  there; otherwise it tells the place where the value belongs. The shortcut that looks at the types
  gets that place wrong for a float before arrays and for an array before types, when smaller values
  are there too.\<close>

theorem set_lookup_spec:
  assumes "array_ok v" "\<forall>x \<in> set (items v). sortable w ops x" "sortable w ops s"
    "sorted_wrt (\<lambda>x y. set_svalue_cmpfun w ops x y \<le> 0) (items v)"
  shows "if \<exists>x \<in> set (items v). set_svalue_cmpfun w ops x s = 0
    then \<exists>i < asize v. set_lookup (set_svalue_cmpfun w ops) v s = int i \<and> set_svalue_cmpfun w ops (items v ! i) s = 0
    else set_lookup (set_svalue_cmpfun w ops) v s < 0 \<and>
      (\<not> (\<exists>x \<in> set (items v). typeof x = typeof s + 7) \<longrightarrow>
        (\<exists>k \<le> asize v. set_lookup (set_svalue_cmpfun w ops) v s = - int k - 1 \<and>
          (\<forall>x \<in> set (take k (items v)). set_svalue_cmpfun w ops x s < 0) \<and>
          (\<forall>x \<in> set (drop k (items v)). set_svalue_cmpfun w ops x s > 0)))"
proof -
  let ?fn = "set_svalue_cmpfun w ops" and ?r = "set_lookup (set_svalue_cmpfun w ops) v s"
  have l: "length (items v) = asize v"
    using assms(1) by (simp add: array_ok_def length_items)
  have cover: "bit (type_field v) (typeof x)" if "x \<in> set (items v)" for x
    using assms(1) that by (simp add: array_ok_def types_ok_def covers_def)
  have types: "?fn x s = int (typeof x) - int (typeof s)" if "x \<in> set (items v)" "typeof x \<noteq> typeof s" for x
    using set_cmp_types assms(2,3) that by blast
  have "sgn (?fn (items v ! i) s) \<le> sgn (?fn (items v ! j) s)" if "i \<le> j" "j < asize v" for i j
  proof (cases "i = j")
    case False
    then have "?fn (items v ! i) (items v ! j) \<le> 0"
      using that l sorted_wrt_nth_less [OF assms(4), of i j] by simp
    then show ?thesis
      using set_order.sgn_mono [of "items v ! i" w ops "items v ! j" s] assms(2,3) that l by auto
  qed simp
  then have "lookup_sorted (\<lambda>x. ?fn x s) (items v)"
    by (auto simp: lookup_sorted_def sorted_iff_nth_mono l)
  then have low: "(\<exists>i < asize v. low_lookup ?fn v s = int i \<and> ?fn (items v ! i) s = 0) \<or>
    (\<exists>k \<le> asize v. low_lookup ?fn v s = - int k - 1 \<and> (\<forall>i < k. ?fn (items v ! i) s < 0) \<and>
      (\<forall>i. k \<le> i \<and> i < asize v \<longrightarrow> ?fn (items v ! i) s > 0))"
    using lookup_loop_correct [of "\<lambda>x. ?fn x s" "items v" "asize v" 0] l by (simp add: low_lookup_def)
  define pos where "pos k \<longleftrightarrow> k \<le> asize v \<and> (\<forall>x \<in> set (take k (items v)). ?fn x s < 0) \<and> (\<forall>x \<in> set (drop k (items v)). ?fn x s > 0)" for k
  have pos_nth: "pos k" if "k \<le> asize v" "\<forall>i < k. ?fn (items v ! i) s < 0" "\<forall>i. k \<le> i \<and> i < asize v \<longrightarrow> ?fn (items v ! i) s > 0" for k
    using that l by (auto simp: pos_def in_set_conv_nth)
  have pos_none: "?fn x s \<noteq> 0" if "pos k" "x \<in> set (items v)" for k x
  proof -
    have "x \<in> set (take k (items v)) \<or> x \<in> set (drop k (items v))"
      using that(2) by (metis Un_iff append_take_drop_id set_append)
    then show ?thesis
      using that(1) by (auto simp: pos_def)
  qed
  consider (found) i where "i < asize v" "?r = int i" "?fn (items v ! i) s = 0"
    | (place) k where "?r = - int k - 1" "pos k"
    | (hole) "?r < 0" "\<forall>x \<in> set (items v). typeof x < typeof s \<or> typeof x = typeof s + 7"
      "\<exists>x \<in> set (items v). typeof x = typeof s + 7"
  proof (cases "?r = low_lookup ?fn v s")
    case True
    then show ?thesis
      using low pos_nth found place by metis
  next
    case False
    then consider "no_smaller_types (type_field v) s" "?r = - 1" | "no_larger_types (type_field v) s" "?r = - int (asize v) - 1"
      by (auto simp: set_lookup_def split: if_splits)
    then show ?thesis
    proof cases
      case 1
      then have "typeof s < typeof x" if "x \<in> set (items v)" for x
        using cover [OF that] by (auto simp: no_smaller_bits not_le [symmetric])
      then have "pos 0"
        using types by (fastforce simp: pos_def)
      then show ?thesis
        using place [of 0] 1 by simp
    next
      case 2
      have t: "typeof x < typeof s \<or> typeof x = typeof s + 7" if "x \<in> set (items v)" for x
      proof -
        have "typeof x \<noteq> 7"
          by (cases x) simp_all
        then show ?thesis
          using no_larger_bits [OF 2(1) cover [OF that]] typeof_less [of x] by linarith
      qed
      show ?thesis
      proof (cases "\<exists>x \<in> set (items v). typeof x = typeof s + 7")
        case True
        then show ?thesis
          using hole t 2 by simp
      next
        case False
        then have "pos (asize v)"
          using types t l by (fastforce simp: pos_def)
        then show ?thesis
          using place [of "asize v"] 2 by simp
      qed
    qed
  qed
  then show ?thesis
  proof cases
    case found
    then have "items v ! i \<in> set (items v)"
      using l by simp
    then show ?thesis
      using found by auto
  next
    case place
    then show ?thesis
      using pos_none by (auto simp: pos_def)
  next
    case hole
    then have "?fn x s \<noteq> 0" if "x \<in> set (items v)" for x
      using types [OF that] that by auto
    then show ?thesis
      using hole by auto
  qed
qed

theorem set_lookup_spec_witness:
  "\<exists>i < 2. set_lookup (set_svalue_cmpfun small_world no_orders) demo_array (VInt 3 0) = int i"
proof -
  have s: "asize demo_array = 2"
    by (simp add: demo_array_def)
  have "\<forall>x \<in> set (items demo_array). sortable small_world no_orders x" "sortable small_world no_orders (VInt 3 0)"
    "sorted_wrt (\<lambda>x y. set_svalue_cmpfun small_world no_orders x y \<le> 0) (items demo_array)"
    "\<exists>x \<in> set (items demo_array). set_svalue_cmpfun small_world no_orders x (VInt 3 0) = 0"
    by (simp_all add: demo_array_ok(2) sortable_def set_svalue_cmpfun_def int_cmp_def)
  then show ?thesis
    using set_lookup_spec [OF demo_array_ok(1), of small_world no_orders "VInt 3 0"] s by auto
qed

text \<open>The sort in place returns whatever the comparison function says; it permutes the elements, touches
  no other cell of the block and keeps the invariant, and an array of integers only is sorted.\<close>

theorem sort_array_spec:
  assumes "array_ok v"
  shows "\<exists>r. sort_array_destructively alpha v = Inr r \<and> array_ok r \<and> mset (items r) = mset (items v) \<and>
    r = set_items v (items r) \<and> (type_field v = bit_int \<longrightarrow> sorted_wrt (\<lambda>x y. sint (pointer x) \<le> sint (pointer y)) (items r))"
proof (cases "asize v = 0")
  case True
  then show ?thesis
    using assms by (auto simp: sort_array_destructively_def items_def set_items_def)
next
  case False
  let ?fn = "if type_field v = bit_int then alpha_int_svalue_cmpfun else alpha"
  let ?lst = "int (item v) + int (asize v) - 1"
  have b: "item v + asize v \<le> length (mem v)"
    using assms by (simp add: array_ok_def block_ok_def)
  obtain m where m: "fsort ?fn (int (item v)) ?lst (mem v) = Inr m" "permuted (int (item v)) ?lst (mem v) m"
    using do_sort_ok [of "int (item v)" ?lst "mem v" ?fn] b by (auto simp: fsort_def)
  note seg = permuted_segment [OF m(2) b]
  define xs where "xs = take (asize v) (drop (item v) m)"
  have mx: "mset xs = mset (items v)"
    using seg(3) by (simp add: xs_def items_def)
  have "m = take (item v) m @ xs @ drop (item v + asize v) m"
    unfolding xs_def by (metis append_take_drop_id drop_drop add.commute)
  then have "v\<lparr>mem := m\<rparr> = set_items v xs"
    unfolding set_items_def seg(1,2) by simp
  then have r: "sort_array_destructively alpha v = Inr (set_items v xs)"
    using m(1) False by (simp add: sort_array_destructively_def)
  have "sorted_wrt (\<lambda>x y. sint (pointer x) \<le> sint (pointer y)) xs" if "type_field v = bit_int"
  proof -
    have s: "int_order.sorted_range (int (item v)) ?lst m"
      using m(1) that b by (intro int_order.do_sort_sorted) (auto simp: fsort_def)
    have "sint (pointer (xs ! i)) \<le> sint (pointer (xs ! j))" if ij: "i < j" "j < length xs" for i j
    proof -
      have "int (item v) \<le> int (item v + i)" "int (item v + i) \<le> int (item v + j)" "int (item v + j) \<le> ?lst"
        using ij by (auto simp: xs_def)
      then have "alpha_int_svalue_cmpfun (at m (int (item v + i))) (at m (int (item v + j))) \<le> 0"
        using s unfolding int_order.sorted_range_def by blast
      then have "alpha_int_svalue_cmpfun (m ! (item v + i)) (m ! (item v + j)) \<le> 0"
        by (simp only: nat_int)
      then show ?thesis
        using ij b permuted_length [OF m(2)] by (simp add: xs_def alpha_int_svalue_cmpfun_def int_cmp_def split: if_splits)
    qed
    then show ?thesis
      by (simp add: sorted_wrt_iff_nth_less)
  qed
  then show ?thesis
    using r array_ok_set_items [OF assms mx] mx by auto
qed

theorem sort_array_spec_witness:
  "\<exists>r. sort_array_destructively (\<lambda>x y. 1) unsorted_array = Inr r \<and> mset (items r) = mset (items unsorted_array)"
  using sort_array_spec [OF unsorted_array_ok(1), of "\<lambda>x y. 1"] by blast

text \<open>The place that the shortcut for types gets wrong: a float belongs between an integer and an array.\<close>

lemma set_lookup_hole:
  assumes "asize v = 2" "type_field v = 0x101"
  shows "set_lookup fn v (VFloat f) = - 3"
  using assms by (simp add: set_lookup_def bit_object_def no_smaller_types_def no_larger_types_def)

end
