(* ===== verification/Array_Merge.thy ===== *)
theory Array_Merge
  imports Array_Sort
begin

text \<open>
  The set operators on arrays (\<open>src/src/array.c\<close>): two arrays are sorted, merged as the operation asks
  into a list of indices (the zipper), and the zipper is sorted back into the order the elements
  had. Intersection, subtraction, union and symmetric difference are the operations.
\<close>

section \<open>Operations\<close>

text \<open>An operation has four bits for each outcome of a comparison: to emit an element of the first or
  second array, and to go on to the next one of it.\<close>

definition op_a :: int where "op_a = 1"
definition op_skip_a :: int where "op_skip_a = 2"
definition op_take_a :: int where "op_take_a = 3"
definition op_b :: int where "op_b = 4"
definition op_skip_b :: int where "op_skip_b = 8"
definition op_take_b :: int where "op_take_b = 12"

definition minterm :: "int \<Rightarrow> int \<Rightarrow> int \<Rightarrow> int" where
  "minterm x y z = push_bit 8 x + push_bit 4 y + z"

definition array_op_and :: int where
  "array_op_and = minterm op_skip_a (op_skip_a OR op_take_b) op_skip_b"
definition array_op_and_left :: int where
  "array_op_and_left = minterm op_skip_a (op_skip_b OR op_take_a) op_skip_b"
definition array_op_or_left :: int where
  "array_op_or_left = minterm op_take_a (op_skip_b OR op_take_a) op_take_b"
definition array_op_xor :: int where
  "array_op_xor = minterm op_take_a (op_skip_a OR op_skip_b) op_take_b"
definition array_op_sub :: int where
  "array_op_sub = minterm op_take_a op_skip_a op_skip_b"

definition has :: "int \<Rightarrow> int \<Rightarrow> bool" where
  "has i flag \<longleftrightarrow> i AND flag \<noteq> 0"

section \<open>Merging\<close>

text \<open>The index \<open>n\<close> of an element of the second array is \<open>~n\<close>.\<close>

partial_function (option) merge_loop :: "'a cmp \<Rightarrow> int \<Rightarrow> 'a list \<Rightarrow> 'a list \<Rightarrow> nat \<Rightarrow> nat \<Rightarrow> int list option" where
  "merge_loop cmp opcode xs ys ap bp =
     (if ap < length xs \<and> bp < length ys then
        (let c = cmp (xs ! ap) (ys ! bp);
             i = (if c < 0 then drop_bit 8 opcode else if c > 0 then opcode else drop_bit 4 opcode)
         in Option.bind
              (merge_loop cmp opcode xs ys (if has i op_skip_a then ap + 1 else ap) (if has i op_skip_b then bp + 1 else bp))
              (\<lambda>ptr. Some ((if has i op_a then [int ap] else []) @ (if has i op_b then [NOT (int bp)] else []) @ ptr)))
      else
        Some ((if has (drop_bit 8 opcode) op_a then map int [ap..<length xs] else []) @
              (if has opcode op_b then map (\<lambda>b. NOT (int b)) [bp..<length ys] else [])))"

definition merge :: "world \<Rightarrow> orders \<Rightarrow> parr \<Rightarrow> parr \<Rightarrow> int \<Rightarrow> int list option" where
  "merge w ops a b opcode =
     (let apart = type_field a AND type_field b = 0 \<and> (type_field a OR type_field b) AND bit_object = 0 in
      if apart \<and> opcode = array_op_and then Some []
      else if apart \<and> opcode = array_op_sub then Some (map int [0..<asize a])
      else merge_loop (set_svalue_cmpfun w ops) opcode (items a) (items b) 0 0)"

definition zip_item :: "'a list \<Rightarrow> 'a list \<Rightarrow> int \<Rightarrow> 'a result" where
  "zip_item xs ys n = (if n \<ge> 0 then item_at xs n else item_at ys (NOT n))"

fun zip_items :: "'a list \<Rightarrow> 'a list \<Rightarrow> int list \<Rightarrow> 'a list result" where
  "zip_items xs ys [] = Inr []"
| "zip_items xs ys (n # ns) = bind_result (zip_item xs ys n) (\<lambda>x. bind_result (zip_items xs ys ns) (\<lambda>zs. Inr (x # zs)))"

text \<open>An empty result is the static array, whose type field is written too.\<close>

definition array_zip :: "parr \<Rightarrow> parr \<Rightarrow> int list \<Rightarrow> parr result" where
  "array_zip a b zipper =
     bind_result (real_allocate_array (length zipper) 0) (\<lambda>ret.
     bind_result (zip_items (items a) (items b) zipper) (\<lambda>zs.
       Inr ((set_items ret zs)\<lparr>type_field := type_field a OR type_field b\<rparr>)))"

text \<open>The order of the zipper: the elements of the first array, then those of the second.\<close>

definition array_merge_fun :: "nat list \<Rightarrow> nat list \<Rightarrow> int cmp" where
  "array_merge_fun ordera orderb a b =
     (if a < 0 then (if b < 0 then int (orderb ! nat (NOT a)) - int (orderb ! nat (NOT b)) else 1)
      else if b < 0 then - 1
      else int (ordera ! nat a) - int (ordera ! nat b))"

definition merge_array_with_order :: "world \<Rightarrow> orders \<Rightarrow> parr \<Rightarrow> parr \<Rightarrow> int \<Rightarrow> parr result option" where
  "merge_array_with_order w ops a b opcode =
     (case
        bind_result (get_order a (set_svalue_cmpfun w ops)) (\<lambda>ordera.
        bind_result (get_order b (set_svalue_cmpfun w ops)) (\<lambda>orderb.
        bind_result (reorder_and_copy_array a ordera) (\<lambda>tmpa.
        bind_result (reorder_and_copy_array b orderb) (\<lambda>tmpb. Inr (ordera, orderb, tmpa, tmpb))))) of
        Inl err \<Rightarrow> Some (Inl err)
      | Inr (ordera, orderb, tmpa, tmpb) \<Rightarrow>
          map_option (\<lambda>zipper.
              bind_result (fsort (array_merge_fun ordera orderb) 0 (int (length zipper) - 1) zipper) (array_zip tmpa tmpb))
            (merge w ops tmpa tmpb opcode))"

definition subtract_arrays :: "world \<Rightarrow> orders \<Rightarrow> parr \<Rightarrow> parr \<Rightarrow> parr result option" where
  "subtract_arrays w ops a b =
     (if asize b = 1 then Some (subtract_array_svalue w a (items b ! 0))
      else if asize b \<noteq> 0 \<and> (type_field a AND type_field b \<noteq> 0 \<or> (type_field a OR type_field b) AND bit_object \<noteq> 0)
      then merge_array_with_order w ops a b array_op_sub
      else if refs a = 1 then Some (Inr a)
      else Some (copy_array a))"

text \<open>Destructed objects of the first array are removed from it.\<close>

definition and_arrays :: "world \<Rightarrow> orders \<Rightarrow> parr \<Rightarrow> parr \<Rightarrow> parr result option" where
  "and_arrays w ops a b =
     (let a = check_array_for_destruct w a in
      if type_field a AND type_field b \<noteq> 0 \<or> (type_field a OR type_field b) AND bit_object \<noteq> 0
      then merge_array_with_order w ops a b array_op_and_left
      else Some (real_allocate_array 0 0))"

section \<open>What a merge selects\<close>

text \<open>The number of values equal to one; an element is counted among those before it.\<close>

definition equals :: "'a cmp \<Rightarrow> 'a list \<Rightarrow> 'a \<Rightarrow> nat" where
  "equals fn ys x = length (filter (\<lambda>y. fn y x = 0) ys)"

definition earlier :: "'a cmp \<Rightarrow> 'a list \<Rightarrow> nat \<Rightarrow> nat" where
  "earlier fn xs i = equals fn (take i xs) (xs ! i)"

text \<open>An operation that pairs equal values up: what becomes of a value of a pair and of one without a
  partner, in each of the arrays.\<close>

definition pairing :: "int \<Rightarrow> bool \<Rightarrow> bool \<Rightarrow> bool \<Rightarrow> bool \<Rightarrow> bool" where
  "pairing opcode pa la pb lb \<longleftrightarrow>
     has (drop_bit 8 opcode) op_skip_a \<and> \<not> has (drop_bit 8 opcode) op_skip_b \<and> \<not> has (drop_bit 8 opcode) op_b \<and>
     (has (drop_bit 8 opcode) op_a \<longleftrightarrow> la) \<and>
     has (drop_bit 4 opcode) op_skip_a \<and> has (drop_bit 4 opcode) op_skip_b \<and>
     (has (drop_bit 4 opcode) op_a \<longleftrightarrow> pa) \<and> (has (drop_bit 4 opcode) op_b \<longleftrightarrow> pb) \<and>
     has opcode op_skip_b \<and> \<not> has opcode op_skip_a \<and> \<not> has opcode op_a \<and> (has opcode op_b \<longleftrightarrow> lb)"

lemma pairing_ops:
  "pairing array_op_and_left True False False False"
  "pairing array_op_or_left True True False True"
  "pairing array_op_xor False True False True"
  by (simp_all add: pairing_def array_op_and_left_def array_op_or_left_def array_op_xor_def minterm_def has_def op_a_def op_b_def
      op_skip_a_def op_skip_b_def op_take_a_def op_take_b_def)

lemma op_differ:
  "array_op_and_left \<noteq> array_op_and" "array_op_and_left \<noteq> array_op_sub" "array_op_or_left \<noteq> array_op_and"
  "array_op_or_left \<noteq> array_op_sub" "array_op_xor \<noteq> array_op_and" "array_op_xor \<noteq> array_op_sub"
  by (simp_all add: array_op_and_left_def array_op_or_left_def array_op_xor_def array_op_and_def array_op_sub_def minterm_def
      op_skip_a_def op_skip_b_def op_take_a_def op_take_b_def)

lemma subtract_op:
  "has (drop_bit 8 array_op_sub) op_skip_a" "\<not> has (drop_bit 8 array_op_sub) op_skip_b" "has (drop_bit 8 array_op_sub) op_a"
  "\<not> has (drop_bit 8 array_op_sub) op_b" "has (drop_bit 4 array_op_sub) op_skip_a" "\<not> has (drop_bit 4 array_op_sub) op_skip_b"
  "\<not> has (drop_bit 4 array_op_sub) op_a" "\<not> has (drop_bit 4 array_op_sub) op_b" "has array_op_sub op_skip_b"
  "\<not> has array_op_sub op_skip_a" "\<not> has array_op_sub op_a" "\<not> has array_op_sub op_b"
  by (simp_all add: array_op_sub_def minterm_def has_def op_a_def op_b_def op_skip_a_def op_skip_b_def op_take_a_def op_take_b_def)

text \<open>Counting from an index on.\<close>

definition rank_from :: "'a cmp \<Rightarrow> 'a list \<Rightarrow> nat \<Rightarrow> nat \<Rightarrow> nat" where
  "rank_from fn xs a i = equals fn (take (i - a) (drop a xs)) (xs ! i)"

lemma equals_drop:
  "b < length ys \<Longrightarrow> equals fn (drop b ys) x = (if fn (ys ! b) x = 0 then 1 else 0) + equals fn (drop (b + 1) ys) x"
  by (simp add: equals_def Cons_nth_drop_Suc [symmetric])

lemma rank_from_Suc:
  "a < i \<Longrightarrow> i < length xs \<Longrightarrow> rank_from fn xs a i = (if fn (xs ! a) (xs ! i) = 0 then 1 else 0) + rank_from fn xs (a + 1) i"
  by (cases "i - a") (simp_all add: rank_from_def equals_def Cons_nth_drop_Suc [symmetric] Suc_diff_Suc [symmetric])

lemma rank_from_self [simp]: "rank_from fn xs i i = 0"
  by (simp add: rank_from_def equals_def)

text \<open>What the zipper holds from the indices \<open>ap\<close> and \<open>bp\<close> on.\<close>

definition selects :: "int list \<Rightarrow> 'a list \<Rightarrow> 'a list \<Rightarrow> nat \<Rightarrow> nat \<Rightarrow> (nat \<Rightarrow> bool) \<Rightarrow> (nat \<Rightarrow> bool) \<Rightarrow> bool" where
  "selects z xs ys ap bp P Q \<longleftrightarrow>
     distinct z \<and> set z = int ` {i. ap \<le> i \<and> i < length xs \<and> P i} \<union> (\<lambda>j. NOT (int j)) ` {j. bp \<le> j \<and> j < length ys \<and> Q j}"

lemma selects_end:
  "selects ((if p then map int [ap..<length xs] else []) @ (if q then map (\<lambda>b. NOT (int b)) [bp..<length ys] else []))
     xs ys ap bp (\<lambda>_. p) (\<lambda>_. q)"
  by (auto simp: selects_def distinct_map inj_on_def not_int_def)

lemma selects_cong:
  assumes "selects z xs ys ap bp P Q" "\<And>i. ap \<le> i \<Longrightarrow> i < length xs \<Longrightarrow> P i = P' i" "\<And>j. bp \<le> j \<Longrightarrow> j < length ys \<Longrightarrow> Q j = Q' j"
  shows "selects z xs ys ap bp P' Q'"
proof -
  have "{i. ap \<le> i \<and> i < length xs \<and> P i} = {i. ap \<le> i \<and> i < length xs \<and> P' i}"
    "{j. bp \<le> j \<and> j < length ys \<and> Q j} = {j. bp \<le> j \<and> j < length ys \<and> Q' j}"
    using assms(2,3) by auto
  then show ?thesis
    using assms(1) by (simp add: selects_def)
qed

lemma selects_step:
  assumes "selects z xs ys ap' bp' P Q" "ap' = (if sa then ap + 1 else ap)" "bp' = (if sb then bp + 1 else bp)"
    "ap < length xs" "bp < length ys" "ea \<longrightarrow> sa" "eb \<longrightarrow> sb" "sa \<longrightarrow> (P ap \<longleftrightarrow> ea)" "sb \<longrightarrow> (Q bp \<longleftrightarrow> eb)"
  shows "selects ((if ea then [int ap] else []) @ (if eb then [NOT (int bp)] else []) @ z) xs ys ap bp P Q"
proof -
  let ?A = "\<lambda>n. {i. n \<le> i \<and> i < length xs \<and> P i}" and ?B = "\<lambda>n. {j. n \<le> j \<and> j < length ys \<and> Q j}"
  have A: "?A ap = (if ea then {ap} else {}) \<union> ?A ap'"
    using assms by (auto simp: Suc_le_eq le_less)
  have B: "?B bp = (if eb then {bp} else {}) \<union> ?B bp'"
    using assms by (auto simp: Suc_le_eq le_less)
  have "int ap \<notin> set z" if ea
    using assms that by (auto simp: selects_def not_int_def)
  moreover have "NOT (int bp) \<notin> set z" if eb
    using assms that by (auto simp: selects_def not_int_def)
  moreover have "NOT (int bp) \<noteq> int ap"
    by (simp add: not_int_def)
  ultimately show ?thesis
    using assms(1) unfolding selects_def A B by (auto simp: not_int_def)
qed

lemma equals_mset: "mset xs = mset ys \<Longrightarrow> equals fn xs x = equals fn ys x"
  unfolding equals_def by (metis mset_filter size_mset)

lemma indices_of:
  assumes "mset os = mset [0..<n]"
  shows "length os = n" "set os = {..<n}" "distinct os"
proof -
  show "length os = n"
    using mset_eq_length [OF assms(1)] by simp
  have "set os = set [0..<n]"
    by (rule mset_eq_setD [OF assms(1)])
  then show "set os = {..<n}"
    by (simp add: lessThan_atLeast0)
  show "distinct os"
    using mset_eq_imp_distinct_iff [OF assms(1)] by simp
qed

context order_cmp begin

abbreviation ordered :: "'a list \<Rightarrow> bool" where
  "ordered xs \<equiv> sorted_wrt (\<lambda>x y. fn x y \<le> 0) xs \<and> set xs \<subseteq> A"

lemma ordered_nth:
  assumes "ordered xs" "i \<le> j" "j < length xs"
  shows "fn (xs ! i) (xs ! j) \<le> 0"
proof (cases "i = j")
  case True
  then show ?thesis
    using assms le_refl [of "xs ! j"] by (auto dest: nth_mem)
next
  case False
  then show ?thesis
    using assms sorted_wrt_nth_less [of "\<lambda>x y. fn x y \<le> 0" xs i j] by simp
qed

text \<open>A value below all that is left has no equal there.\<close>

lemma equals_none:
  assumes "ordered ys" "x \<in> A" "b < length ys" "fn x (ys ! b) < 0"
  shows "equals fn (drop b ys) x = 0"
proof -
  have "fn y x \<noteq> 0" if y: "y \<in> set (drop b ys)" for y
  proof -
    obtain k where "k < length (drop b ys)" "y = drop b ys ! k"
      using y by (metis in_set_conv_nth)
    then have k: "y = ys ! (b + k)" "b + k < length ys"
      by simp_all
    then have "y \<in> A" "ys ! b \<in> A"
      using assms(1,3) by auto
    then have "fn x y < 0"
      using less_le [OF assms(2) \<open>ys ! b \<in> A\<close> \<open>y \<in> A\<close> assms(4)] ordered_nth [OF assms(1), of b "b + k"] k by simp
    then show ?thesis
      using zero_flip [OF assms(2) \<open>y \<in> A\<close>] by simp
  qed
  then show ?thesis
    by (simp add: equals_def filter_empty_conv)
qed

lemma merge_pairs:
  assumes "pairing opcode pa la pb lb" "ordered xs" "ordered ys" "ap \<le> length xs" "bp \<le> length ys"
  shows "\<exists>z. merge_loop fn opcode xs ys ap bp = Some z \<and>
    selects z xs ys ap bp (\<lambda>i. if rank_from fn xs ap i < equals fn (drop bp ys) (xs ! i) then pa else la)
      (\<lambda>j. if rank_from fn ys bp j < equals fn (drop ap xs) (ys ! j) then pb else lb)"
  using assms(4,5)
proof (induction "length xs - ap + (length ys - bp)" arbitrary: ap bp rule: less_induct)
  case less
  let ?P = "\<lambda>ap bp i. if rank_from fn xs ap i < equals fn (drop bp ys) (xs ! i) then pa else la"
  let ?Q = "\<lambda>ap bp j. if rank_from fn ys bp j < equals fn (drop ap xs) (ys ! j) then pb else lb"
  note op = assms(1) [unfolded pairing_def]
  show ?case
  proof (cases "ap < length xs \<and> bp < length ys")
    case False
    define z where "z = (if la then map int [ap..<length xs] else []) @ (if lb then map (\<lambda>b. NOT (int b)) [bp..<length ys] else [])"
    have "merge_loop fn opcode xs ys ap bp = Some z"
      unfolding merge_loop.simps [of fn opcode xs ys ap bp] if_not_P [OF False] using op by (simp add: z_def)
    moreover have "selects z xs ys ap bp (?P ap bp) (?Q ap bp)"
      using selects_end [of la ap xs lb bp ys] unfolding z_def [symmetric]
      by (rule selects_cong) (use False in \<open>auto simp: equals_def\<close>)
    ultimately show ?thesis
      by blast
  next
    case True
    define x where "x = xs ! ap"
    define y where "y = ys ! bp"
    have A: "x \<in> A" "y \<in> A" "i < length xs \<Longrightarrow> xs ! i \<in> A" "j < length ys \<Longrightarrow> ys ! j \<in> A" for i j
      using True assms(2,3) by (auto simp: x_def y_def)
    have yle: "fn y (ys ! j) \<le> 0" if "bp \<le> j" "j < length ys" for j
      using ordered_nth [OF assms(3) that] by (simp add: y_def)
    have xle: "fn x (xs ! i) \<le> 0" if "ap \<le> i" "i < length xs" for i
      using ordered_nth [OF assms(2) that] by (simp add: x_def)
    consider "fn x y < 0" | "fn x y > 0" | "fn x y = 0"
      by linarith
    then show ?thesis
    proof cases
      case 1
      have m: "length xs - (ap + 1) + (length ys - (bp)) < length xs - ap + (length ys - bp)"
        and le: "ap + 1 \<le> length xs" "bp \<le> length ys"
        using True by linarith+
      obtain z where z: "merge_loop fn opcode xs ys (ap + 1) bp = Some z" "selects z xs ys (ap + 1) bp (?P (ap + 1) bp) (?Q (ap + 1) bp)"
        using less.hyps [OF m] le by blast
      have none: "equals fn (drop bp ys) x = 0"
        using equals_none [OF assms(3) A(1)] True 1 by (simp add: y_def)
      have P: "?P ap bp i = ?P (ap + 1) bp i" if i: "ap + 1 \<le> i" "i < length xs" for i
      proof (cases "fn x (xs ! i) = 0")
        case True
        then have "fn (xs ! i) x \<le> 0"
          using zero_flip [OF A(1) A(3), of i] i by simp
        then have "fn (xs ! i) y < 0"
          using le_less [OF A(3) A(1,2), of i] i 1 by simp
        then have "equals fn (drop bp ys) (xs ! i) = 0"
          using equals_none [OF assms(3) A(3)] i \<open>ap < length xs \<and> bp < length ys\<close> by (simp add: y_def)
        then show ?thesis
          by simp
      next
        case False
        then show ?thesis
          using i by (simp add: rank_from_Suc x_def)
      qed
      have Q: "?Q ap bp j = ?Q (ap + 1) bp j" if "bp \<le> j" "j < length ys" for j
      proof -
        have "fn x (ys ! j) < 0"
          using less_le [OF A(1,2) A(4) 1 yle] that by simp
        then show ?thesis
          using True by (simp add: equals_drop [of ap] x_def)
      qed
      have "selects ((if la then [int ap] else []) @ (if False then [NOT (int bp)] else []) @ z) xs ys ap bp (?P ap bp) (?Q ap bp)"
        by (rule selects_step [where sa = True and sb = False, OF selects_cong [OF z(2)]]) (use True none P Q in \<open>auto simp: x_def\<close>)
      then show ?thesis
        unfolding merge_loop.simps [of fn opcode xs ys ap bp] using True 1 op z(1) by (simp add: x_def y_def Let_def)
    next
      case 2
      then have yx: "fn y x < 0"
        using flip [OF A(1,2)] by (simp add: sgn_if split: if_splits)
      have m: "length xs - (ap) + (length ys - (bp + 1)) < length xs - ap + (length ys - bp)"
        and le: "ap \<le> length xs" "bp + 1 \<le> length ys"
        using True by linarith+
      obtain z where z: "merge_loop fn opcode xs ys ap (bp + 1) = Some z" "selects z xs ys ap (bp + 1) (?P ap (bp + 1)) (?Q ap (bp + 1))"
        using less.hyps [OF m] le by blast
      have none: "equals fn (drop ap xs) y = 0"
        using equals_none [OF assms(2) A(2)] True yx by (simp add: x_def)
      have Q: "?Q ap bp i = ?Q ap (bp + 1) i" if i: "bp + 1 \<le> i" "i < length ys" for i
      proof (cases "fn y (ys ! i) = 0")
        case True
        then have "fn (ys ! i) y \<le> 0"
          using zero_flip [OF A(2) A(4), of i] i by simp
        then have "fn (ys ! i) x < 0"
          using le_less [OF A(4) A(2,1), of i] i yx by simp
        then have "equals fn (drop ap xs) (ys ! i) = 0"
          using equals_none [OF assms(2) A(4)] i \<open>ap < length xs \<and> bp < length ys\<close> by (simp add: x_def)
        then show ?thesis
          by simp
      next
        case False
        then show ?thesis
          using i by (simp add: rank_from_Suc y_def)
      qed
      have P: "?P ap bp j = ?P ap (bp + 1) j" if "ap \<le> j" "j < length xs" for j
      proof -
        have "fn y (xs ! j) < 0"
          using less_le [OF A(2,1) A(3) yx xle] that by simp
        then show ?thesis
          using True by (simp add: equals_drop [of bp] y_def)
      qed
      have "selects ((if False then [int ap] else []) @ (if lb then [NOT (int bp)] else []) @ z) xs ys ap bp (?P ap bp) (?Q ap bp)"
        by (rule selects_step [where sa = False and sb = True, OF selects_cong [OF z(2)]]) (use True none P Q in \<open>auto simp: y_def\<close>)
      then show ?thesis
        unfolding merge_loop.simps [of fn opcode xs ys ap bp] using True 2 op z(1) by (simp add: x_def y_def Let_def)
    next
      case 3
      then have yx: "fn y x = 0"
        using zero_flip [OF A(1,2)] by simp
      have m: "length xs - (ap + 1) + (length ys - (bp + 1)) < length xs - ap + (length ys - bp)"
        and le: "ap + 1 \<le> length xs" "bp + 1 \<le> length ys"
        using True by linarith+
      obtain z where z: "merge_loop fn opcode xs ys (ap + 1) (bp + 1) = Some z"
        "selects z xs ys (ap + 1) (bp + 1) (?P (ap + 1) (bp + 1)) (?Q (ap + 1) (bp + 1))"
        using less.hyps [OF m] le by blast
      have same: "fn x v = 0 \<longleftrightarrow> fn y v = 0" if "v \<in> A" for v
        using le_zero [OF A(1,2) that 3] le_zero [OF A(2,1) that yx] by blast
      have P: "?P ap bp i = ?P (ap + 1) (bp + 1) i" if "ap + 1 \<le> i" "i < length xs" for i
        using that True same [OF A(3)] by (simp add: rank_from_Suc equals_drop [of bp] x_def y_def)
      have Q: "?Q ap bp j = ?Q (ap + 1) (bp + 1) j" if "bp + 1 \<le> j" "j < length ys" for j
        using that True same [OF A(4)] by (simp add: rank_from_Suc equals_drop [of ap] x_def y_def)
      have pos: "0 < equals fn (drop bp ys) x" "0 < equals fn (drop ap xs) y"
        using True 3 yx by (simp_all add: equals_drop [of bp] equals_drop [of ap] x_def y_def)
      have "selects ((if pa then [int ap] else []) @ (if pb then [NOT (int bp)] else []) @ z) xs ys ap bp (?P ap bp) (?Q ap bp)"
        by (rule selects_step [where sa = True and sb = True, OF selects_cong [OF z(2)]]) (use True pos P Q in \<open>auto simp: x_def y_def\<close>)
      then show ?thesis
        unfolding merge_loop.simps [of fn opcode xs ys ap bp] using True 3 op z(1) by (simp add: x_def y_def Let_def)
    qed
  qed
qed

text \<open>The subtraction keeps the values that the other array does not have.\<close>

lemma merge_subtracts:
  assumes "ordered xs" "ordered ys" "ap \<le> length xs" "bp \<le> length ys"
  shows "\<exists>z. merge_loop fn array_op_sub xs ys ap bp = Some z \<and>
    selects z xs ys ap bp (\<lambda>i. equals fn (drop bp ys) (xs ! i) = 0) (\<lambda>j. False)"
  using assms(3,4)
proof (induction "length xs - ap + (length ys - bp)" arbitrary: ap bp rule: less_induct)
  case less
  let ?P = "\<lambda>bp i. equals fn (drop bp ys) (xs ! i) = 0"
  show ?case
  proof (cases "ap < length xs \<and> bp < length ys")
    case False
    define z where "z = (if True then map int [ap..<length xs] else []) @ (if False then map (\<lambda>b. NOT (int b)) [bp..<length ys] else [])"
    have "merge_loop fn array_op_sub xs ys ap bp = Some z"
      unfolding merge_loop.simps [of fn array_op_sub xs ys ap bp] if_not_P [OF False] by (simp add: z_def subtract_op)
    moreover have "selects z xs ys ap bp (?P bp) (\<lambda>j. False)"
      using selects_end [of True ap xs False bp ys] unfolding z_def [symmetric]
      by (rule selects_cong) (use False in \<open>auto simp: equals_def\<close>)
    ultimately show ?thesis
      by blast
  next
    case True
    define x where "x = xs ! ap"
    define y where "y = ys ! bp"
    have A: "x \<in> A" "y \<in> A" "i < length xs \<Longrightarrow> xs ! i \<in> A" for i
      using True assms(1,2) by (auto simp: x_def y_def)
    have xle: "fn x (xs ! i) \<le> 0" if "ap \<le> i" "i < length xs" for i
      using ordered_nth [OF assms(1) that] by (simp add: x_def)
    consider "fn x y < 0" | "fn x y > 0" | "fn x y = 0"
      by linarith
    then show ?thesis
    proof cases
      case 1
      have m: "length xs - (ap + 1) + (length ys - bp) < length xs - ap + (length ys - bp)" and le: "ap + 1 \<le> length xs" "bp \<le> length ys"
        using True by linarith+
      obtain z where z: "merge_loop fn array_op_sub xs ys (ap + 1) bp = Some z" "selects z xs ys (ap + 1) bp (?P bp) (\<lambda>j. False)"
        using less.hyps [OF m] le by blast
      have "equals fn (drop bp ys) x = 0"
        using equals_none [OF assms(2) A(1)] True 1 by (simp add: y_def)
      then have "selects ((if True then [int ap] else []) @ (if False then [NOT (int bp)] else []) @ z) xs ys ap bp (?P bp) (\<lambda>j. False)"
        by (intro selects_step [where sa = True and sb = False, OF z(2)]) (use True in \<open>auto simp: x_def\<close>)
      then show ?thesis
        unfolding merge_loop.simps [of fn array_op_sub xs ys ap bp] using True 1 z(1) by (simp add: x_def y_def Let_def subtract_op)
    next
      case 2
      have yx: "fn y x < 0"
        using 2 flip [OF A(1,2)] by (simp add: sgn_if split: if_splits)
      have m: "length xs - ap + (length ys - (bp + 1)) < length xs - ap + (length ys - bp)" and le: "ap \<le> length xs" "bp + 1 \<le> length ys"
        using True by linarith+
      obtain z where z: "merge_loop fn array_op_sub xs ys ap (bp + 1) = Some z" "selects z xs ys ap (bp + 1) (?P (bp + 1)) (\<lambda>j. False)"
        using less.hyps [OF m] le by blast
      have P: "?P bp j = ?P (bp + 1) j" if "ap \<le> j" "j < length xs" for j
      proof -
        have "fn y (xs ! j) < 0"
          using less_le [OF A(2,1) A(3) yx xle] that by simp
        then show ?thesis
          using True by (simp add: equals_drop [of bp] y_def)
      qed
      have "selects ((if False then [int ap] else []) @ (if False then [NOT (int bp)] else []) @ z) xs ys ap bp (?P bp) (\<lambda>j. False)"
        by (rule selects_step [where sa = False and sb = True, OF selects_cong [OF z(2)]]) (use True P in \<open>auto simp: y_def\<close>)
      then show ?thesis
        unfolding merge_loop.simps [of fn array_op_sub xs ys ap bp] using True 2 z(1) by (simp add: x_def y_def Let_def subtract_op)
    next
      case 3
      have m: "length xs - (ap + 1) + (length ys - bp) < length xs - ap + (length ys - bp)" and le: "ap + 1 \<le> length xs" "bp \<le> length ys"
        using True by linarith+
      obtain z where z: "merge_loop fn array_op_sub xs ys (ap + 1) bp = Some z" "selects z xs ys (ap + 1) bp (?P bp) (\<lambda>j. False)"
        using less.hyps [OF m] le by blast
      have "fn y x = 0"
        using 3 zero_flip [OF A(1,2)] by simp
      then have "equals fn (drop bp ys) x \<noteq> 0"
        using True by (simp add: equals_drop [of bp] y_def)
      then have "selects ((if False then [int ap] else []) @ (if False then [NOT (int bp)] else []) @ z) xs ys ap bp (?P bp) (\<lambda>j. False)"
        by (intro selects_step [where sa = True and sb = False, OF z(2)]) (use True in \<open>auto simp: x_def\<close>)
      then show ?thesis
        unfolding merge_loop.simps [of fn array_op_sub xs ys ap bp] using True 3 z(1) by (simp add: x_def y_def Let_def subtract_op)
    qed
  qed
qed

text \<open>The stable order keeps the number of equal elements before an element.\<close>

lemma earlier_stable:
  assumes "mset os = mset [0..<length xs]" "sorted_wrt (before xs) os" "set xs \<subseteq> A" "i < length xs"
  shows "earlier fn (map ((!) xs) os) i = earlier fn xs (os ! i)"
proof -
  let ?ys = "map ((!) xs) os"
  have os: "length os = length xs" "set os = {..<length xs}" "distinct os"
    using indices_of [OF assms(1)] by auto
  have lt: "os ! k < length xs" if "k < length xs" for k
    using that os by (metis lessThan_iff nth_mem)
  have count: "equals fn (take n zs) x = card {k. k < n \<and> fn (zs ! k) x = 0}" if "n \<le> length zs" for n x and zs :: "'a list"
    using that by (auto simp: equals_def length_filter_conv_card intro!: arg_cong [where f = card])
  have iff: "k < i \<longleftrightarrow> os ! k < os ! i" if "k < length xs" "fn (xs ! (os ! k)) (xs ! (os ! i)) = 0" for k
  proof -
    have "fn (xs ! (os ! i)) (xs ! (os ! k)) = 0"
      using zero_flip that assms(3,4) lt by (meson nth_mem subsetD)
    then have "k < i \<Longrightarrow> os ! k < os ! i" "i < k \<Longrightarrow> os ! i < os ! k"
      using sorted_wrt_nth_less [OF assms(2)] that assms(4) os(1) by (fastforce simp: before_def)+
    then show ?thesis
      by (metis less_asym linorder_neqE_nat)
  qed
  have "bij_betw ((!) os) {k. k < i \<and> fn (?ys ! k) (?ys ! i) = 0} {k. k < os ! i \<and> fn (xs ! k) (xs ! (os ! i)) = 0}"
    unfolding bij_betw_def
  proof
    show "inj_on ((!) os) {k. k < i \<and> fn (?ys ! k) (?ys ! i) = 0}"
      using os(1,3) assms(4) by (auto simp: inj_on_def nth_eq_iff_index_eq)
    show "(!) os ` {k. k < i \<and> fn (?ys ! k) (?ys ! i) = 0} = {k. k < os ! i \<and> fn (xs ! k) (xs ! (os ! i)) = 0}"
    proof (intro equalityI subsetI)
      fix m
      assume "m \<in> (!) os ` {k. k < i \<and> fn (?ys ! k) (?ys ! i) = 0}"
      then obtain k where k: "m = os ! k" "k < i" "fn (?ys ! k) (?ys ! i) = 0"
        by blast
      then show "m \<in> {k. k < os ! i \<and> fn (xs ! k) (xs ! (os ! i)) = 0}"
        using iff [of k] assms(4) os(1) by simp
    next
      fix m
      assume m: "m \<in> {k. k < os ! i \<and> fn (xs ! k) (xs ! (os ! i)) = 0}"
      then have "m \<in> set os"
        using lt [OF assms(4)] os(2) by auto
      then obtain k where k: "k < length xs" "m = os ! k"
        using os(1) by (metis in_set_conv_nth)
      then have "k \<in> {k. k < i \<and> fn (?ys ! k) (?ys ! i) = 0}"
        using iff [of k] m assms(4) os(1) by simp
      then show "m \<in> (!) os ` {k. k < i \<and> fn (?ys ! k) (?ys ! i) = 0}"
        unfolding k(2) by (rule imageI)
    qed
  qed
  then have "card {k. k < i \<and> fn (?ys ! k) (?ys ! i) = 0} = card {k. k < os ! i \<and> fn (xs ! k) (xs ! (os ! i)) = 0}"
    by (rule bij_betw_same_card)
  then show ?thesis
    using count [of i ?ys "?ys ! i"] count [of "os ! i" xs "xs ! (os ! i)"] lt [OF assms(4)] assms(4) os(1)
    by (simp add: earlier_def)
qed

lemma stable_list:
  assumes "mset os = mset [0..<length xs]" "sorted_wrt (before xs) os" "set xs \<subseteq> A"
  shows "ordered (map ((!) xs) os)" "mset (map ((!) xs) os) = mset xs"
proof -
  have "sorted_wrt (\<lambda>i j. fn (xs ! i) (xs ! j) \<le> 0) os"
    using assms(2) by (rule sorted_wrt_mono_rel [rotated]) (auto simp: before_def)
  moreover show m: "mset (map ((!) xs) os) = mset xs"
    by (metis assms(1) map_nth mset_map)
  ultimately show "ordered (map ((!) xs) os)"
    using assms(3) mset_eq_setD [OF m] by (simp add: sorted_wrt_map)
qed

lemma stable_pairs:
  assumes "pairing opcode pa la pb lb"
    "mset oa = mset [0..<length xs]" "sorted_wrt (before xs) oa" "set xs \<subseteq> A"
    "mset ob = mset [0..<length ys]" "sorted_wrt (before ys) ob" "set ys \<subseteq> A"
  shows "\<exists>z. merge_loop fn opcode (map ((!) xs) oa) (map ((!) ys) ob) 0 0 = Some z \<and>
    selects z (map ((!) xs) oa) (map ((!) ys) ob) 0 0
      (\<lambda>i. if earlier fn xs (oa ! i) < equals fn ys (xs ! (oa ! i)) then pa else la)
      (\<lambda>j. if earlier fn ys (ob ! j) < equals fn xs (ys ! (ob ! j)) then pb else lb)"
proof -
  let ?xs = "map ((!) xs) oa" and ?ys = "map ((!) ys) ob"
  note a = stable_list [OF assms(2-4)] and b = stable_list [OF assms(5-7)]
  have l: "length oa = length xs" "length ob = length ys"
    using indices_of(1) [OF assms(2)] indices_of(1) [OF assms(5)] .
  have r: "rank_from fn zs 0 i = earlier fn zs i" for zs i
    by (simp add: rank_from_def earlier_def)
  obtain z where z: "merge_loop fn opcode ?xs ?ys 0 0 = Some z"
    "selects z ?xs ?ys 0 0 (\<lambda>i. if earlier fn ?xs i < equals fn ?ys (?xs ! i) then pa else la)
      (\<lambda>j. if earlier fn ?ys j < equals fn ?xs (?ys ! j) then pb else lb)"
    using merge_pairs [OF assms(1) a(1) b(1), of 0 0] unfolding r drop_0 by blast
  have "selects z ?xs ?ys 0 0 (\<lambda>i. if earlier fn xs (oa ! i) < equals fn ys (xs ! (oa ! i)) then pa else la)
      (\<lambda>j. if earlier fn ys (ob ! j) < equals fn xs (ys ! (ob ! j)) then pb else lb)"
    using z(2)
  proof (rule selects_cong)
    fix i assume "i < length ?xs"
    then show "(if earlier fn ?xs i < equals fn ?ys (?xs ! i) then pa else la) =
        (if earlier fn xs (oa ! i) < equals fn ys (xs ! (oa ! i)) then pa else la)"
      using earlier_stable [OF assms(2-4), of i] equals_mset [OF b(2)] l by simp
  next
    fix j assume "j < length ?ys"
    then show "(if earlier fn ?ys j < equals fn ?xs (?ys ! j) then pb else lb) =
        (if earlier fn ys (ob ! j) < equals fn xs (ys ! (ob ! j)) then pb else lb)"
      using earlier_stable [OF assms(5-7), of j] equals_mset [OF a(2)] l by simp
  qed
  then show ?thesis
    using z(1) by blast
qed

lemma stable_subtracts:
  assumes "mset oa = mset [0..<length xs]" "sorted_wrt (before xs) oa" "set xs \<subseteq> A"
    "mset ob = mset [0..<length ys]" "sorted_wrt (before ys) ob" "set ys \<subseteq> A"
  shows "\<exists>z. merge_loop fn array_op_sub (map ((!) xs) oa) (map ((!) ys) ob) 0 0 = Some z \<and>
    selects z (map ((!) xs) oa) (map ((!) ys) ob) 0 0 (\<lambda>i. equals fn ys (xs ! (oa ! i)) = 0) (\<lambda>j. False)"
proof -
  let ?xs = "map ((!) xs) oa" and ?ys = "map ((!) ys) ob"
  note a = stable_list [OF assms(1-3)] and b = stable_list [OF assms(4-6)]
  obtain z where z: "merge_loop fn array_op_sub ?xs ?ys 0 0 = Some z"
    "selects z ?xs ?ys 0 0 (\<lambda>i. equals fn ?ys (?xs ! i) = 0) (\<lambda>j. False)"
    using merge_subtracts [OF a(1) b(1), of 0 0] unfolding drop_0 by blast
  have "selects z ?xs ?ys 0 0 (\<lambda>i. equals fn ys (xs ! (oa ! i)) = 0) (\<lambda>j. False)"
    using z(2) by (rule selects_cong) (simp_all add: equals_mset [OF b(2)])
  then show ?thesis
    using z(1) by blast
qed

end

section \<open>The order of the zipper\<close>

interpretation zipper_order: preorder_cmp "array_merge_fun ordera orderb" UNIV for ordera orderb
  by unfold_locales (auto simp: array_merge_fun_def split: if_splits)

lemma surj_indices:
  assumes "length os = n" "set os = {..<n}" "distinct os"
  shows "(\<lambda>i. k + os ! i) ` {i. i < n \<and> P (os ! i)} = (\<lambda>i. k + i) ` {i. i < n \<and> P i}" "(!) os ` {i. i < n \<and> P (os ! i)} = {i. i < n \<and> P i}"
proof -
  show e: "(!) os ` {i. i < n \<and> P (os ! i)} = {i. i < n \<and> P i}"
  proof (intro equalityI subsetI)
    fix m assume m: "m \<in> {i. i < n \<and> P i}"
    then obtain k where "k < n" "m = os ! k"
      using assms by (metis (mono_tags, lifting) in_set_conv_nth lessThan_iff mem_Collect_eq)
    then show "m \<in> (!) os ` {i. i < n \<and> P (os ! i)}"
      using m by blast
  qed (use assms nth_mem in fastforce)
  show "(\<lambda>i. k + os ! i) ` {i. i < n \<and> P (os ! i)} = (\<lambda>i. k + i) ` {i. i < n \<and> P i}"
    unfolding e [symmetric] image_image ..
qed

lemma nths_cong: "\<forall>i < length xs. i \<in> S \<longleftrightarrow> i \<in> T \<Longrightarrow> nths xs S = nths xs T"
  by (induction xs rule: rev_induct) (auto simp: nths_append)

lemma nths_indices: "S \<subseteq> {..<length xs} \<Longrightarrow> nths xs S = map ((!) xs) (sorted_list_of_set S)"
proof -
  assume S: "S \<subseteq> {..<length xs}"
  have "nths xs S = map ((!) xs) (filter (\<lambda>i. i \<in> S) [0..<length xs])" for xs :: "'a list"
    by (induction xs rule: rev_induct) (auto simp: nths_append nth_append intro!: map_cong)
  moreover have "sorted_list_of_set S = filter (\<lambda>i. i \<in> S) [0..<length xs]"
    using S by (intro sorted_list_of_set_unique [THEN iffD1])
      (auto simp: sorted_wrt_filter distinct_card [symmetric] finite_subset [OF S] intro!: arg_cong [where f = card])
  ultimately show ?thesis
    by simp
qed


text \<open>The place an index of the zipper has among the elements of both arrays.\<close>

definition place :: "nat list \<Rightarrow> nat list \<Rightarrow> int \<Rightarrow> nat" where
  "place oa ob n = (if n \<ge> 0 then oa ! nat n else length oa + ob ! nat (NOT n))"

lemma place_simps [simp]: "place oa ob (int i) = oa ! i" "place oa ob (NOT (int j)) = length oa + ob ! j"
  by (simp_all add: place_def not_int_def)

lemma array_merge_fun_simps [simp]:
  "array_merge_fun oa ob (int i) (int k) = int (oa ! i) - int (oa ! k)" "array_merge_fun oa ob (int i) (NOT (int j)) = - 1"
  "array_merge_fun oa ob (NOT (int j)) (int i) = 1" "array_merge_fun oa ob (NOT (int j)) (NOT (int k)) = int (ob ! j) - int (ob ! k)"
  by (simp_all add: array_merge_fun_def not_int_def)

lemma zip_item_simps [simp]: "zip_item xs ys (int i) = item_at xs (int i)" "zip_item xs ys (NOT (int j)) = item_at ys (int j)"
  by (simp_all add: zip_item_def not_int_def)

lemma sort_zipper:
  assumes "mset oa = mset [0..<length xs]" "mset ob = mset [0..<length ys]"
    "selects z (map ((!) xs) oa) (map ((!) ys) ob) 0 0 (\<lambda>i. P (oa ! i)) (\<lambda>j. Q (ob ! j))"
  shows "\<exists>zs. fsort (array_merge_fun oa ob) 0 (int (length z) - 1) z = Inr zs \<and> length zs = length z \<and>
    zip_items (map ((!) xs) oa) (map ((!) ys) ob) zs =
      Inr (nths xs {i. i < length xs \<and> P i} @ nths ys {j. j < length ys \<and> Q j})"
proof -
  let ?K = "place oa ob"
  have oa: "length oa = length xs" "set oa = {..<length xs}" "distinct oa"
    and ob: "length ob = length ys" "set ob = {..<length ys}" "distinct ob"
    using indices_of [OF assms(1)] indices_of [OF assms(2)] by auto
  have lt: "i < length xs \<Longrightarrow> oa ! i < length xs" "j < length ys \<Longrightarrow> ob ! j < length ys" for i j
    using oa ob by (metis lessThan_iff nth_mem)+
  define S where "S = {i. i < length xs \<and> P i} \<union> (\<lambda>j. length xs + j) ` {j. j < length ys \<and> Q j}"
  obtain zs where zs: "fsort (array_merge_fun oa ob) 0 (int (length z) - 1) z = Inr zs" "mset zs = mset z"
    "sorted_wrt (\<lambda>m n. array_merge_fun oa ob m n \<le> 0) zs"
    using zipper_order.fsort_sorted_list [of z oa ob] by blast
  have set: "set zs = int ` {i. i < length xs \<and> P (oa ! i)} \<union> (\<lambda>j. NOT (int j)) ` {j. j < length ys \<and> Q (ob ! j)}"
    "distinct zs"
    using assms(3) mset_eq_setD [OF zs(2)] mset_eq_imp_distinct_iff [OF zs(2)] oa(1) ob(1) by (auto simp: selects_def)
  have mem: "(\<exists>i. n = int i \<and> i < length xs) \<or> (\<exists>j. n = NOT (int j) \<and> j < length ys)" if "n \<in> set zs" for n
    using that unfolding set(1) by blast
  have apart: "oa ! i \<le> length xs + k" "oa ! i \<noteq> length xs + k" "length xs + k \<noteq> oa ! i" if "i < length xs" for i k
    using lt(1) [OF that] by linarith+
  have le: "?K m \<le> ?K n" if "m \<in> set zs" "n \<in> set zs" "array_merge_fun oa ob m n \<le> 0" for m n
    using mem [OF that(1)] mem [OF that(2)] that(3) oa(1) apart(1)
    by (elim disjE exE conjE) simp_all
  have img: "?K ` set zs = S"
    unfolding set(1) S_def image_Un image_image place_simps surj_indices [OF oa] surj_indices [OF ob] oa(1) ..
  have inj: "inj_on ?K (set zs)"
  proof (rule inj_onI)
    fix m n
    assume mn: "m \<in> set zs" "n \<in> set zs" "?K m = ?K n"
    then show "m = n"
      using mem [OF mn(1)] mem [OF mn(2)] oa(1,3) ob(1,3) apart(2,3)
      by (elim disjE exE conjE) (simp_all add: nth_eq_iff_index_eq)
  qed
  have "sorted_wrt (\<lambda>m n. ?K m \<le> ?K n) zs"
    using zs(3) le by (rule sorted_wrt_mono_rel [rotated])
  then have "sorted (map ?K zs)"
    by (simp only: sorted_wrt_map)
  then have "sorted_wrt (<) (map ?K zs)"
    using inj set(2) by (simp add: strict_sorted_iff distinct_map)
  moreover have "finite S" "length (map ?K zs) = card S"
    using inj set(2) unfolding img [symmetric] by (simp_all add: card_image distinct_card)
  ultimately have sorted: "sorted_list_of_set S = map ?K zs"
    using img sorted_list_of_set_unique [of S "map ?K zs"] by simp
  have item: "zip_item (map ((!) xs) oa) (map ((!) ys) ob) n = Inr ((xs @ ys) ! ?K n)" if "n \<in> set zs" for n
    using mem [OF that] lt(1) oa(1) ob(1) by (elim disjE exE conjE) (simp_all add: nth_append)
  then have "zip_items (map ((!) xs) oa) (map ((!) ys) ob) zs = Inr (map (\<lambda>n. (xs @ ys) ! ?K n) zs)"
    by (induction zs) auto
  also have "map (\<lambda>n. (xs @ ys) ! ?K n) zs = nths (xs @ ys) S"
  proof -
    have "S \<subseteq> {..<length (xs @ ys)}"
      by (auto simp: S_def)
    from nths_indices [OF this] show ?thesis
      by (simp add: sorted)
  qed
  also have "\<dots> = nths xs {i. i < length xs \<and> P i} @ nths ys {j. j < length ys \<and> Q j}"
    unfolding nths_append by (intro arg_cong2 [where f = "(@)"] nths_cong) (auto simp: S_def)
  finally show ?thesis
    using zs(1) mset_eq_length [OF zs(2)] by blast
qed


lemma new_array: "n \<le> 2 ^ 29 \<Longrightarrow> \<exists>ret. real_allocate_array n 0 = Inr ret \<and> block_ok ret \<and> asize ret = n"
  by (cases "n = 0") (simp_all add: allocate_result block_ok_def empty_array_def)

lemma copy_in_order:
  assumes "array_ok v" "asize v \<le> 2 ^ 29" "mset os = mset [0..<asize v]"
  shows "\<exists>r. reorder_and_copy_array v os = Inr r \<and> block_ok r \<and> asize r = asize v \<and> items r = map ((!) (items v)) os \<and>
    type_field r = type_field v"
proof -
  note os = indices_of [OF assms(3)]
  have l: "length (items v) = asize v"
    using assms(1) by (simp add: array_ok_def length_items)
  obtain ret where ret: "real_allocate_array (asize v) 0 = Inr ret" "block_ok ret" "asize ret = asize v"
    using new_array [OF assms(2)] by blast
  have "pick (items v) (take (asize v) os) = Inr (map ((!) (items v)) os)"
    using os l by (intro trans [OF pick_ok]) auto
  then show ?thesis
    using ret items_set_items [of "ret\<lparr>type_field := type_field v\<rparr>" "map ((!) (items v)) os"] os(1)
    by (auto simp: reorder_and_copy_array_def set_items_def block_ok_def)
qed

lemma zip_arrays:
  assumes "zip_items (items a) (items b) zs = Inr xs" "length zs \<le> 2 ^ 29" "length xs = length zs"
  shows "\<exists>r. array_zip a b zs = Inr r \<and> block_ok r \<and> items r = xs \<and> type_field r = type_field a OR type_field b"
proof -
  obtain ret where ret: "real_allocate_array (length zs) 0 = Inr ret" "block_ok ret" "asize ret = length zs"
    using new_array [OF assms(2)] by blast
  then show ?thesis
    using assms(1,3) items_set_items [of ret xs] by (auto simp: array_zip_def block_ok_def items_def)
qed

lemma zip_items_length: "zip_items xs ys zs = Inr us \<Longrightarrow> length us = length zs"
  by (induction zs arbitrary: us) (auto simp: bind_result_def split: sum.splits)


text \<open>The whole operation, from what the merge selects.\<close>

lemma merge_selected:
  assumes ok: "array_ok a" "array_ok b" and small: "asize a + asize b \<le> 2 ^ 29"
    and sort: "\<forall>x \<in> set (items a) \<union> set (items b). sortable w ops x"
    and merge: "\<And>oa ob ra rb. mset oa = mset [0..<asize a] \<Longrightarrow> sorted_wrt (set_order.before w ops (items a)) oa \<Longrightarrow>
      mset ob = mset [0..<asize b] \<Longrightarrow> sorted_wrt (set_order.before w ops (items b)) ob \<Longrightarrow>
      asize ra = asize a \<Longrightarrow> type_field ra = type_field a \<Longrightarrow> items ra = map ((!) (items a)) oa \<Longrightarrow>
      asize rb = asize b \<Longrightarrow> type_field rb = type_field b \<Longrightarrow> items rb = map ((!) (items b)) ob \<Longrightarrow>
      \<exists>z. merge w ops ra rb opcode = Some z \<and> selects z (items ra) (items rb) 0 0 (\<lambda>i. P (oa ! i)) (\<lambda>j. Q (ob ! j))"
  shows "\<exists>r. merge_array_with_order w ops a b opcode = Some (Inr r) \<and> block_ok r \<and> types_ok r \<and>
    items r = nths (items a) {i. i < asize a \<and> P i} @ nths (items b) {j. j < asize b \<and> Q j}"
proof -
  let ?fn = "set_svalue_cmpfun w ops"
  have l: "length (items a) = asize a" "length (items b) = asize b"
    using ok by (simp_all add: array_ok_def length_items)
  obtain oa where oa: "get_order a ?fn = Inr oa" "mset oa = mset [0..<asize a]" "sorted_wrt (set_order.before w ops (items a)) oa"
    using set_order_indices [OF ok(1)] sort by blast
  obtain ob where ob: "get_order b ?fn = Inr ob" "mset ob = mset [0..<asize b]" "sorted_wrt (set_order.before w ops (items b)) ob"
    using set_order_indices [OF ok(2)] sort by blast
  obtain ra where ra: "reorder_and_copy_array a oa = Inr ra" "asize ra = asize a" "items ra = map ((!) (items a)) oa"
      "type_field ra = type_field a"
    using copy_in_order [OF ok(1) _ oa(2)] small by auto
  obtain rb where rb: "reorder_and_copy_array b ob = Inr rb" "asize rb = asize b" "items rb = map ((!) (items b)) ob"
      "type_field rb = type_field b"
    using copy_in_order [OF ok(2) _ ob(2)] small by auto
  obtain z where z: "merge w ops ra rb opcode = Some z" "selects z (items ra) (items rb) 0 0 (\<lambda>i. P (oa ! i)) (\<lambda>j. Q (ob ! j))"
    using merge [OF oa(2,3) ob(2,3) ra(2,4,3) rb(2,4,3)] by blast
  obtain zs where zs: "fsort (array_merge_fun oa ob) 0 (int (length z) - 1) z = Inr zs" "length zs = length z"
      "zip_items (items ra) (items rb) zs = Inr (nths (items a) {i. i < asize a \<and> P i} @ nths (items b) {j. j < asize b \<and> Q j})"
    using sort_zipper [of oa "items a" ob "items b" z P Q] oa(2) ob(2) z(2) unfolding l ra(3) rb(3) by blast
  have len: "length (nths xs S) \<le> length xs" for xs :: "svalue list" and S
    unfolding length_nths by (rule order_trans [OF card_mono [of "{..<length xs}"]]) auto
  have "length zs = length (nths (items a) {i. i < asize a \<and> P i}) + length (nths (items b) {j. j < asize b \<and> Q j})"
    using zip_items_length [OF zs(3)] by simp
  also have "\<dots> \<le> 2 ^ 29"
    using len [of "items a" "{i. i < asize a \<and> P i}"] len [of "items b" "{j. j < asize b \<and> Q j}"] l small by linarith
  finally have lz: "length zs \<le> 2 ^ 29" .
  obtain r where r: "array_zip ra rb zs = Inr r" "block_ok r" "type_field r = type_field ra OR type_field rb"
      "items r = nths (items a) {i. i < asize a \<and> P i} @ nths (items b) {j. j < asize b \<and> Q j}"
    using zip_arrays [OF zs(3) lz zip_items_length [OF zs(3)]] by blast
  have "covers (type_field a) (nths (items a) S)" "covers (type_field b) (nths (items b) S)" for S
    using ok set_nths_subset [of "items a" S] set_nths_subset [of "items b" S] covers_subset
    unfolding array_ok_def types_ok_def by blast+
  then have "types_ok r"
    unfolding types_ok_def r(3,4) ra(4) rb(4) by (simp add: covers_or)
  moreover have "merge_array_with_order w ops a b opcode = Some (Inr r)"
    using oa(1) ob(1) ra(1) rb(1) z(1) zs(1) r(1) by (simp add: merge_array_with_order_def)
  ultimately show ?thesis
    using r by blast
qed


lemma merge_paired:
  assumes "pairing opcode pa la pb lb" "opcode \<noteq> array_op_and" "opcode \<noteq> array_op_sub"
    and ok: "array_ok a" "array_ok b" "asize a + asize b \<le> 2 ^ 29" "\<forall>x \<in> set (items a) \<union> set (items b). sortable w ops x"
  defines "fn \<equiv> set_svalue_cmpfun w ops"
  shows "\<exists>r. merge_array_with_order w ops a b opcode = Some (Inr r) \<and> block_ok r \<and> types_ok r \<and>
    items r = nths (items a) {i. i < asize a \<and> (if earlier fn (items a) i < equals fn (items b) (items a ! i) then pa else la)} @
      nths (items b) {j. j < asize b \<and> (if earlier fn (items b) j < equals fn (items a) (items b ! j) then pb else lb)}"
proof -
  have l: "length (items a) = asize a" "length (items b) = asize b"
    using ok by (simp_all add: array_ok_def length_items)
  have A: "set (items a) \<subseteq> {v. sortable w ops v}" "set (items b) \<subseteq> {v. sortable w ops v}"
    using ok(4) by auto
  show ?thesis
  proof (rule merge_selected [OF ok])
    fix oa ob ra rb
    assume o: "mset oa = mset [0..<asize a]" "sorted_wrt (set_order.before w ops (items a)) oa"
      "mset ob = mset [0..<asize b]" "sorted_wrt (set_order.before w ops (items b)) ob"
      and r: "items ra = map ((!) (items a)) oa" "items rb = map ((!) (items b)) ob"
    show "\<exists>z. merge w ops ra rb opcode = Some z \<and> selects z (items ra) (items rb) 0 0
        (\<lambda>i. if earlier fn (items a) (oa ! i) < equals fn (items b) (items a ! (oa ! i)) then pa else la)
        (\<lambda>j. if earlier fn (items b) (ob ! j) < equals fn (items a) (items b ! (ob ! j)) then pb else lb)"
      using set_order.stable_pairs [OF assms(1) o(1) [folded l(1)] o(2) A(1) o(3) [folded l(2)] o(4) A(2)] assms(2,3)
      unfolding merge_def r fn_def by (simp add: Let_def)
  qed
qed

text \<open>Values of arrays without a common type are different.\<close>

lemma apart_differ:
  assumes "array_ok a" "array_ok b" "type_field a AND type_field b = 0" "x \<in> set (items a)" "y \<in> set (items b)"
    "sortable w ops x" "sortable w ops y"
  shows "set_svalue_cmpfun w ops y x \<noteq> 0"
proof -
  have "bit (type_field a) (typeof x)" "bit (type_field b) (typeof y)"
    using assms by (auto simp: array_ok_def types_ok_def covers_def)
  then have "typeof x \<noteq> typeof y"
    using assms(3) by (metis bit_0_eq bit_and_iff bot_apply bot_bool_def)
  then show ?thesis
    using set_cmp_types [OF assms(7,6)] by simp
qed

lemma apart_equals:
  assumes "array_ok a" "array_ok b" "type_field a AND type_field b = 0" "x \<in> set (items a)"
    "\<forall>x \<in> set (items a) \<union> set (items b). sortable w ops x"
  shows "equals (set_svalue_cmpfun w ops) (items b) x = 0"
  using apart_differ [OF assms(1-4)] assms(4,5) by (auto simp: equals_def filter_empty_conv)


lemma merge_subtracted:
  assumes ok: "array_ok a" "array_ok b" "asize a + asize b \<le> 2 ^ 29" "\<forall>x \<in> set (items a) \<union> set (items b). sortable w ops x"
  defines "fn \<equiv> set_svalue_cmpfun w ops"
  shows "\<exists>r. merge_array_with_order w ops a b array_op_sub = Some (Inr r) \<and> block_ok r \<and> types_ok r \<and>
    items r = filter (\<lambda>x. equals fn (items b) x = 0) (items a)"
proof -
  have l: "length (items a) = asize a" "length (items b) = asize b"
    using ok by (simp_all add: array_ok_def length_items)
  have A: "set (items a) \<subseteq> {v. sortable w ops v}" "set (items b) \<subseteq> {v. sortable w ops v}"
    using ok(4) by auto
  have "\<exists>r. merge_array_with_order w ops a b array_op_sub = Some (Inr r) \<and> block_ok r \<and> types_ok r \<and>
    items r = nths (items a) {i. i < asize a \<and> equals fn (items b) (items a ! i) = 0} @ nths (items b) {j. j < asize b \<and> False}"
  proof (rule merge_selected [OF ok])
    fix oa ob ra rb
    assume o: "mset oa = mset [0..<asize a]" "sorted_wrt (set_order.before w ops (items a)) oa"
      "mset ob = mset [0..<asize b]" "sorted_wrt (set_order.before w ops (items b)) ob"
      and r: "asize ra = asize a" "type_field ra = type_field a" "items ra = map ((!) (items a)) oa"
        "type_field rb = type_field b" "items rb = map ((!) (items b)) ob"
    let ?sel = "\<lambda>z. selects z (items ra) (items rb) 0 0 (\<lambda>i. equals fn (items b) (items a ! (oa ! i)) = 0) (\<lambda>j. False)"
    show "\<exists>z. merge w ops ra rb array_op_sub = Some z \<and> ?sel z"
    proof (cases "type_field a AND type_field b = 0 \<and> (type_field a OR type_field b) AND bit_object = 0")
      case True
      have "equals fn (items b) (items a ! (oa ! i)) = 0" if "i < asize a" for i
      proof -
        have "oa ! i \<in> {..<asize a}"
          unfolding indices_of(2) [OF o(1), symmetric] using that indices_of(1) [OF o(1)] by simp
        then have "items a ! (oa ! i) \<in> set (items a)"
          using l by simp
        then show ?thesis
          using apart_equals [OF ok(1,2) _ _ ok(4)] True by (simp add: fn_def)
      qed
      then have "?sel (map int [0..<asize a])"
        using indices_of(1) [OF o(1)] r(3) by (auto simp: selects_def distinct_map inj_on_def)
      moreover have "array_op_sub \<noteq> array_op_and"
        by (simp add: array_op_sub_def array_op_and_def minterm_def op_take_a_def op_skip_a_def op_skip_b_def op_take_b_def)
      ultimately show ?thesis
        using True r by (simp add: merge_def)
    next
      case False
      then show ?thesis
        using set_order.stable_subtracts [OF o(1) [folded l(1)] o(2) A(1) o(3) [folded l(2)] o(4) A(2)]
        unfolding merge_def r fn_def by (simp only: Let_def conj_assoc [symmetric] False if_False simp_thms)
    qed
  qed
  moreover have "nths (items a) {i. i < asize a \<and> equals fn (items b) (items a ! i) = 0} = filter (\<lambda>x. equals fn (items b) x = 0) (items a)"
    unfolding l(1) [symmetric] by (rule filter_eq_nths [symmetric])
  ultimately show ?thesis
    by simp
qed

section \<open>Destructed elements\<close>

lemma clean_items_spec:
  "clean_items w xs t = (ys, u) \<Longrightarrow> ys = map (\<lambda>x. if elem_destructed w x then VInt 0 2 else x) xs \<and> covers u ys \<and>
    (\<forall>n. bit t n \<longrightarrow> bit u n)"
proof (induction xs arbitrary: t ys u)
  case (Cons x xs)
  obtain zs v where *: "clean_items w xs (if elem_destructed w x then t OR bit_int else accumulate_type_field w x t) = (zs, v)"
    by fastforce
  note IH = Cons.IH [OF *]
  show ?case
    using Cons.prems * IH accumulate_bits by (auto simp: bit_or_iff bit_int_def bit_1_iff split: if_splits)
qed simp

text \<open>The elements without the destructed ones, which become the integer 0.\<close>

definition undestructed :: "world \<Rightarrow> parr \<Rightarrow> svalue list" where
  "undestructed w v =
     (if type_field v AND (bit_object OR bit_function) \<noteq> 0 then map (\<lambda>x. if elem_destructed w x then VInt 0 2 else x) (items v) else items v)"

lemma check_array_for_destruct_ok:
  assumes "array_ok v"
  shows "array_ok (check_array_for_destruct w v)" "items (check_array_for_destruct w v) = undestructed w v"
    "asize (check_array_for_destruct w v) = asize v"
proof -
  obtain ys u where c: "clean_items w (items v) 0 = (ys, u)"
    by fastforce
  note ys = clean_items_spec [OF c]
  have b: "block_ok v" "length ys = asize v"
    using assms ys by (simp_all add: array_ok_def length_items)
  have i: "items ((set_items v ys)\<lparr>type_field := u\<rparr>) = ys"
    using items_set_items(1) [OF b] by (simp add: items_def)
  have s: "shared_ok ((set_items v ys)\<lparr>type_field := u\<rparr>)" if "type_field v AND (bit_object OR bit_function) \<noteq> 0"
    using assms that by (auto simp: array_ok_def shared_ok_def set_items_def)
  show "items (check_array_for_destruct w v) = undestructed w v"
    using c i ys by (simp add: check_array_for_destruct_def undestructed_def)
  show "asize (check_array_for_destruct w v) = asize v"
    using c by (simp add: check_array_for_destruct_def set_items_def)
  show "array_ok (check_array_for_destruct w v)"
    using assms c s i ys items_set_items(2) [OF b] unfolding array_ok_def types_ok_def check_array_for_destruct_def
    by (auto simp: block_ok_def)
qed


section \<open>Properties\<close>

text \<open>C9: The set operators on arrays pair equal elements of both arrays up, the first with the first, and
  keep the order of the elements. Intersection gives the elements of the first array that have a
  partner; union gives the first array and the elements of the second one without a partner;
  symmetric difference gives the elements of both without a partner. The result's type field covers
  its elements.\<close>

theorem merge_array_with_order_spec:
  assumes "array_ok a" "array_ok b" "asize a + asize b \<le> 2 ^ 29" "\<forall>x \<in> set (items a) \<union> set (items b). sortable w ops x"
    "fn = set_svalue_cmpfun w ops"
    "pa = {i. i < asize a \<and> earlier fn (items a) i < equals fn (items b) (items a ! i)}"
    "pb = {j. j < asize b \<and> earlier fn (items b) j < equals fn (items a) (items b ! j)}"
  shows "(\<exists>r. merge_array_with_order w ops a b array_op_and_left = Some (Inr r) \<and> types_ok r \<and> items r = nths (items a) pa) \<and>
    (\<exists>r. merge_array_with_order w ops a b array_op_or_left = Some (Inr r) \<and> types_ok r \<and>
      items r = items a @ nths (items b) (- pb)) \<and>
    (\<exists>r. merge_array_with_order w ops a b array_op_xor = Some (Inr r) \<and> types_ok r \<and>
      items r = nths (items a) (- pa) @ nths (items b) (- pb))"
proof -
  have l: "length (items a) = asize a" "length (items b) = asize b"
    using assms by (simp_all add: array_ok_def length_items)
  have keep: "nths xs {i. i < length xs \<and> (if P i then p else q)} =
      (if p then if q then xs else nths xs {i. i < length xs \<and> P i} else if q then nths xs (- {i. i < length xs \<and> P i}) else [])"
    for xs :: "svalue list" and P p q
  proof -
    have ifs: "(if b then True else False) = b" "(if b then False else True) = (\<not> b)" "(if b then c else c) = c" for b c
      by simp_all
    have "nths xs {i. i < length xs} = xs"
      by (rule nths_all) simp
    moreover have "nths xs {i. i < length xs \<and> \<not> P i} = nths xs (- {i. i < length xs \<and> P i})"
      by (rule nths_cong) simp
    ultimately show ?thesis
      by (cases p; cases q) (simp_all only: ifs if_True if_False empty_def [symmetric] simp_thms nths_empty)
  qed
  note m = merge_paired [OF _ _ _ assms(1-4), folded assms(5) l, unfolded keep, unfolded l, folded assms(6,7)]
  show ?thesis
    using m [OF pairing_ops(1) op_differ(1,2)] m [OF pairing_ops(2) op_differ(3,4)] m [OF pairing_ops(3) op_differ(5,6)]
    unfolding if_True if_False append_Nil2 by blast
qed

theorem merge_array_with_order_spec_witness:
  "\<exists>r. merge_array_with_order small_world no_orders unsorted_array demo_array array_op_xor = Some (Inr r) \<and>
    items r = [VInt 1 0, VInt 3 1, VInt 2 0]"
proof -
  have s: "asize unsorted_array = 3" "asize demo_array = 2"
    by (simp_all add: unsorted_array_def demo_array_def)
  have "\<forall>x \<in> set (items unsorted_array) \<union> set (items demo_array). sortable small_world no_orders x"
    by (simp add: unsorted_array_ok demo_array_ok sortable_def)
  then show ?thesis
    using merge_array_with_order_spec [OF unsorted_array_ok(1) demo_array_ok(1) _ _ refl refl refl, of small_world no_orders]
    by (auto simp: s unsorted_array_ok(2) demo_array_ok(2) nths_Cons earlier_def equals_def set_svalue_cmpfun_def int_cmp_def)
qed

text \<open>C13: The difference of two arrays gives the elements of the first array that no element of the second
  one equals, in their order, whether the arrays are merged or the type fields show that they have
  no element in common. Equal are two elements that the order function of sets and merges
  (\<open>set_svalue_cmpfun\<close>) does not tell apart; a second array of one element is compared with the
  operator \<open>==\<close> instead, under the conditions of \<open>subtract_array_svalue\<close>.\<close>

theorem subtract_arrays_spec:
  assumes "array_ok a" "array_ok b" "asize a + asize b \<le> 2 ^ 29" "\<forall>x \<in> set (items a) \<union> set (items b). sortable w ops x"
    "asize b = 1 \<longrightarrow> removable w (items a) (items b ! 0)"
  shows "\<exists>r. subtract_arrays w ops a b = Some (Inr r) \<and> types_ok r \<and>
    items r = filter (\<lambda>x. \<not> (\<exists>y \<in> set (items b). if asize b = 1 then is_eq w x y else set_svalue_cmpfun w ops y x = 0)) (items a)"
proof (cases "asize b = 1")
  case True
  have "length (items b) = 1"
    using assms(2) True by (simp add: array_ok_def length_items)
  then have s: "set (items b) = {items b ! 0}"
    by (cases "items b") simp_all
  have "\<exists>r. subtract_array_svalue w a (items b ! 0) = Inr r \<and> array_ok r \<and> items r = filter (\<lambda>x. \<not> is_eq w x (items b ! 0)) (items a)"
    using subtract_array_svalue_ok [OF assms(1), of w "items b ! 0"] assms(3,5) True unfolding removable_def by auto
  then show ?thesis
    unfolding s using True by (auto simp: subtract_arrays_def array_ok_def)
next
  case ne: False
  have e: "equals fn ys x = 0 \<longleftrightarrow> \<not> (\<exists>y \<in> set ys. fn y x = 0)" for fn :: "svalue cmp" and ys x
    by (auto simp: equals_def filter_empty_conv)
  show ?thesis
  proof (cases "asize b \<noteq> 0 \<and> (type_field a AND type_field b \<noteq> 0 \<or> (type_field a OR type_field b) AND bit_object \<noteq> 0)")
    case True
    then show ?thesis
      using merge_subtracted [OF assms(1-4)] ne by (auto simp: subtract_arrays_def e)
  next
    case False
    have "\<not> (\<exists>y \<in> set (items b). set_svalue_cmpfun w ops y x = 0)" if "x \<in> set (items a)" for x
    proof (cases "asize b = 0")
      case False
      then show ?thesis
        using apart_equals [OF assms(1,2) _ that assms(4)] \<open>\<not> (asize b \<noteq> 0 \<and> _)\<close> e by blast
    qed (simp add: items_def)
    then have "filter (\<lambda>x. \<not> (\<exists>y \<in> set (items b). set_svalue_cmpfun w ops y x = 0)) (items a) = items a"
      by (simp add: filter_id_conv)
    moreover have "\<exists>r. subtract_arrays w ops a b = Some (Inr r) \<and> types_ok r \<and> items r = items a"
      using copy_array_ok [OF assms(1)] assms(1,3) ne unfolding subtract_arrays_def if_not_P [OF False] by (auto simp: array_ok_def)
    ultimately show ?thesis
      using ne by simp
  qed
qed

theorem subtract_arrays_spec_witness:
  "\<exists>r. subtract_arrays small_world no_orders unsorted_array demo_array = Some (Inr r) \<and> items r = [VInt 1 0]"
proof -
  have "\<forall>x \<in> set (items unsorted_array) \<union> set (items demo_array). sortable small_world no_orders x"
    by (simp add: unsorted_array_ok demo_array_ok sortable_def)
  moreover have "asize unsorted_array = 3" "asize demo_array = 2"
    by (simp_all add: unsorted_array_def demo_array_def)
  ultimately show ?thesis
    using subtract_arrays_spec [OF unsorted_array_ok(1) demo_array_ok(1), of small_world no_orders]
    by (auto simp: unsorted_array_ok(2) demo_array_ok(2) set_svalue_cmpfun_def int_cmp_def)
qed

text \<open>C14: The operator that intersects two arrays first replaces the destructed objects of the first one by
  zeros; the result holds those elements of it, in their order, that find a partner in the second
  array.\<close>

theorem and_arrays_spec:
  assumes "array_ok a" "array_ok b" "asize a + asize b \<le> 2 ^ 29"
    "\<forall>x \<in> set (undestructed w a) \<union> set (items b). sortable w ops x"
  shows "\<exists>r. and_arrays w ops a b = Some (Inr r) \<and> types_ok r \<and>
    items r = nths (undestructed w a) {i. i < asize a \<and>
      earlier (set_svalue_cmpfun w ops) (undestructed w a) i < equals (set_svalue_cmpfun w ops) (items b) (undestructed w a ! i)}"
proof -
  let ?a = "check_array_for_destruct w a"
  note a = check_array_for_destruct_ok [OF assms(1), of w]
  have sort: "\<forall>x \<in> set (items ?a) \<union> set (items b). sortable w ops x"
    using assms(4) by (simp add: a)
  have small: "asize ?a + asize b \<le> 2 ^ 29"
    using assms(3) by (simp add: a)
  have i: "(if p then True else False) = p" for p
    by simp
  show ?thesis
  proof (cases "type_field ?a AND type_field b \<noteq> 0 \<or> (type_field ?a OR type_field b) AND bit_object \<noteq> 0")
    case True
    then show ?thesis
      using merge_paired [OF pairing_ops(1) op_differ(1,2) a(1) assms(2) small sort] unfolding and_arrays_def Let_def if_P [OF True] a(2,3) i
      by auto
  next
    case False
    have l: "length (undestructed w a) = asize a"
      using a length_items [of ?a] by (simp add: array_ok_def)
    have "equals (set_svalue_cmpfun w ops) (items b) x = 0" if "x \<in> set (undestructed w a)" for x
      using apart_equals [OF a(1) assms(2) _ _ sort] that False by (simp add: a(2))
    then have "nths (undestructed w a) {i. i < asize a \<and>
      earlier (set_svalue_cmpfun w ops) (undestructed w a) i < equals (set_svalue_cmpfun w ops) (items b) (undestructed w a ! i)} = []"
      using l by (simp cong: conj_cong)
    moreover have "and_arrays w ops a b = Some (Inr empty_array)"
      unfolding and_arrays_def Let_def if_not_P [OF False] by (simp add: allocate_result)
    ultimately show ?thesis
      using static_ok(1,3) by (simp add: array_ok_def)
  qed
qed

theorem and_arrays_spec_witness:
  "\<exists>r. and_arrays small_world no_orders unsorted_array demo_array = Some (Inr r) \<and> items r = [VInt 3 0]"
proof -
  have u: "undestructed small_world unsorted_array = [VInt 3 0, VInt 1 0, VInt 3 1]"
    by (simp add: undestructed_def unsorted_array_ok(2) elem_destructed_def)
  have s: "asize unsorted_array = 3" "asize demo_array = 2"
    by (simp_all add: unsorted_array_def demo_array_def)
  have "\<forall>x \<in> set (undestructed small_world unsorted_array) \<union> set (items demo_array). sortable small_world no_orders x"
    by (simp add: u demo_array_ok sortable_def)
  then show ?thesis
    using and_arrays_spec [OF unsorted_array_ok(1) demo_array_ok(1), of small_world no_orders]
    by (auto simp: s u demo_array_ok(2) nths_Cons earlier_def equals_def set_svalue_cmpfun_def int_cmp_def)
qed

end
