(* ===== verification/Strings.thy ===== *)
theory Strings
  imports Prelude "HOL-Library.List_Lexorder"
begin

text \<open>
  The contents of shared strings (\<open>src/src/stralloc.c\<close>, \<open>stralloc.h\<close>): the width of the characters, the
  bounds a string may know of its characters, and the comparison of strings. A character is a word
  of 32 bits; the characters of a string of shift 0 and 1 are below 256 and 65536, those of shift 2
  are read as signed numbers (\<open>p_wchar2\<close>).
\<close>

section \<open>Strings\<close>

record pstr =
  size_shift :: nat
  chars :: "32 word list"
  flags :: "8 word"
  bmin :: byte
  bmax :: byte
  string_is_utf8 :: bool

definition string_not_hashed :: "8 word" where "string_not_hashed = 1"
definition string_not_shared :: "8 word" where "string_not_shared = 2"
definition string_content_checked :: "8 word" where "string_content_checked = 8"
definition string_is_lowercase :: "8 word" where "string_is_lowercase = 16"
definition string_is_uppercase :: "8 word" where "string_is_uppercase = 32"
definition string_convert_surrogates :: "8 word" where "string_convert_surrogates = 128"

definition string_checked_mask :: "8 word" where
  "string_checked_mask = string_is_uppercase OR string_is_lowercase OR string_content_checked"

abbreviation has_flag :: "('a :: len) word \<Rightarrow> 'a word \<Rightarrow> bool" where
  "has_flag fs f \<equiv> fs AND f \<noteq> 0"

abbreviation checked :: "('a) pstr_scheme \<Rightarrow> bool" where
  "checked s \<equiv> has_flag (flags s) string_content_checked"

abbreviation len :: "('a) pstr_scheme \<Rightarrow> nat" where
  "len s \<equiv> length (chars s)"

section \<open>Widths\<close>

fun find_magnitude1 :: "32 word list \<Rightarrow> nat" where
  "find_magnitude1 [] = 0"
| "find_magnitude1 (c # s) = (if c \<ge> 256 then 1 else find_magnitude1 s)"

fun find_wide :: "32 word list \<Rightarrow> nat" where
  "find_wide [] = 1"
| "find_wide (c # s) = (if c \<ge> 65536 then 2 else find_wide s)"

fun find_magnitude2 :: "32 word list \<Rightarrow> nat" where
  "find_magnitude2 [] = 0"
| "find_magnitude2 (c # s) = (if c \<ge> 256 then find_wide (c # s) else find_magnitude2 s)"

definition min_magnitude :: "32 word \<Rightarrow> nat" where
  "min_magnitude c = (if c < 256 then 0 else if c < 65536 then 1 else 2)"

text \<open>What remains of a character that is stored with a width.\<close>

definition store_char :: "nat \<Rightarrow> 32 word \<Rightarrow> 32 word" where
  "store_char shift c = (if shift = 0 then c AND 0xff else if shift = 1 then c AND 0xffff else c)"

definition generic_memcpy :: "nat \<Rightarrow> 32 word list \<Rightarrow> 32 word list" where
  "generic_memcpy shift cs = map (store_char shift) cs"

text \<open>The value of a character as the C types have it.\<close>

definition char_value :: "nat \<Rightarrow> 32 word \<Rightarrow> int" where
  "char_value shift c = (if shift < 2 then uint c else sint c)"

section \<open>Bounds\<close>

definition max_int32 :: int where "max_int32 = 2 ^ 31 - 1"
definition min_int32 :: int where "min_int32 = - (2 ^ 31)"

fun scan_range :: "nat \<Rightarrow> 32 word list \<Rightarrow> int \<Rightarrow> int \<Rightarrow> int \<times> int" where
  "scan_range shift [] s_min s_max = (s_min, s_max)"
| "scan_range shift (c # cs) s_min s_max =
     (let v = char_value shift c in
      scan_range shift cs (if v < s_min then v else s_min) (if v > s_max then v else s_max))"

text \<open>Counting the letters of each case, and the shape of UTF-8: the count of the continuation bytes
  that are missing.\<close>

definition clz32 :: "32 word \<Rightarrow> int" where
  "clz32 c = (if c = 0 then 32 else 31 - int (my_log2 (unat c)))"

definition utf8_shape :: "32 word \<Rightarrow> bool \<times> int \<Rightarrow> bool \<times> int" where
  "utf8_shape c = (\<lambda>(utf8_valid, utf8_cont_count).
     if utf8_valid then
       if has_flag c 0x80 then
         if c AND 0xc0 = 0x80 then (utf8_cont_count - 1 \<ge> 0, utf8_cont_count - 1)
         else if utf8_cont_count \<noteq> 0 then (False, utf8_cont_count)
         else (utf8_valid, clz32 (NOT c AND 0xff) - 25)
       else (\<not> utf8_cont_count \<noteq> 0, utf8_cont_count)
     else (utf8_valid, utf8_cont_count))"

definition is_upper_char :: "32 word \<Rightarrow> bool" where
  "is_upper_char c \<longleftrightarrow> c \<ge> 65 \<and> c \<le> 90"
definition is_lower_char :: "32 word \<Rightarrow> bool" where
  "is_lower_char c \<longleftrightarrow> c \<ge> 97 \<and> c \<le> 122"

text \<open>The bounds that the string knows, or those of its width.\<close>

definition loose_range :: "('a) pstr_scheme \<Rightarrow> int \<times> int" where
  "loose_range s =
     (if checked s then
        if size_shift s = 0 then (uint (bmin s), uint (bmax s))
        else if size_shift s = 1 then (uint (bmin s) * 256, uint (bmax s) * 256 + 255)
        else (sint (ucast (bmin s) * 2 ^ 24 :: 32 word), sint (ucast (bmax s) * 2 ^ 24 + (2 ^ 24 - 1) :: 32 word))
      else if size_shift s = 2 then (min_int32, max_int32)
      else if size_shift s = 1 then (0, 65535)
      else (0, 255))"

definition check_range8 :: "('a) pstr_scheme \<Rightarrow> int \<Rightarrow> int \<Rightarrow> ('a) pstr_scheme" where
  "check_range8 s s_min s_max =
     (let lower = \<exists>c \<in> set (chars s). is_lower_char c;
          upper = \<exists>c \<in> set (chars s). is_upper_char c;
          fs = (if s_max < 128 then
                  flags s OR (if lower then 0 else string_is_uppercase) OR (if upper then 0 else string_is_lowercase)
                else flags s);
          (utf8_valid, utf8_cont_count) = fold utf8_shape (chars s) (True, 0)
      in s\<lparr>flags := fs, bmin := word_of_int s_min, bmax := word_of_int s_max,
           string_is_utf8 := (if utf8_valid \<and> \<not> utf8_cont_count \<noteq> 0 then True else string_is_utf8 s)\<rparr>)"

text \<open>\<open>want_max\<close>: the caller asks for the upper bound.\<close>

definition check_string_range :: "('a) pstr_scheme \<Rightarrow> bool \<Rightarrow> bool \<Rightarrow> ('a) pstr_scheme \<times> int \<times> int" where
  "check_string_range s loose want_max =
     (if loose \<or> checked s \<and> (size_shift s = 0 \<or> \<not> want_max) then (s, loose_range s)
      else
        (let (s_min, s_max) = scan_range (size_shift s) (chars s) max_int32 min_int32;
             s = s\<lparr>flags := flags s OR string_content_checked\<rparr>
         in (if size_shift s = 0 then check_range8 s s_min s_max
             else if size_shift s = 1 then
               s\<lparr>string_is_utf8 := False, bmin := word_of_int (s_min div 256), bmax := word_of_int (s_max div 256)\<rparr>
             else
               s\<lparr>string_is_utf8 := False, bmin := word_of_int (uint (word_of_int s_min :: 32 word) div 2 ^ 24),
                 bmax := word_of_int (uint (word_of_int s_max :: 32 word) div 2 ^ 24)\<rparr>,
             s_min, s_max)))"

definition string_range_contains :: "('a) pstr_scheme \<Rightarrow> int \<Rightarrow> bool" where
  "string_range_contains s n = (let (mn, mx) = snd (check_string_range s True True) in n \<ge> mn \<and> n \<le> mx)"

definition string_range_contains_string :: "('a) pstr_scheme \<Rightarrow> ('b) pstr_scheme \<Rightarrow> bool" where
  "string_range_contains_string str1 str2 =
     (if len str2 = 0 then True
      else
        (let (min1, max1) = snd (check_string_range str1 True True);
             (min2, max2) = snd (check_string_range str2 True True)
         in if min2 < min1 \<or> max2 > max1 then
              if flags str1 AND string_content_checked = flags str2 AND string_content_checked then False
              else size_shift str1 \<ge> size_shift str2
            else True))"

section \<open>Comparison\<close>

text \<open>\<open>memcmp\<close>: the order of the first bytes that differ.\<close>

fun memcmp :: "32 word list \<Rightarrow> 32 word list \<Rightarrow> nat \<Rightarrow> int" where
  "memcmp (x # xs) (y # ys) (Suc n) = (if x < y then - 1 else if x > y then 1 else memcmp xs ys n)"
| "memcmp xs ys n = 0"

definition low_quick_binary_strcmp :: "32 word list \<Rightarrow> 32 word list \<Rightarrow> int" where
  "low_quick_binary_strcmp a b =
     (if length a > length b then
        (let tmp = memcmp a b (length b) in if tmp \<noteq> 0 then tmp else 1)
      else if length a < length b then
        (let tmp = memcmp a b (length a) in if tmp \<noteq> 0 then tmp else - 1)
      else memcmp a b (length a))"

fun compare_chars :: "nat \<Rightarrow> nat \<Rightarrow> 32 word list \<Rightarrow> 32 word list \<Rightarrow> int option" where
  "compare_chars asize bsize (x # xs) (y # ys) =
     (let ac = char_value asize x; bc = char_value bsize y in
      if ac \<noteq> bc then Some (if ac < bc then - 1 else 1) else compare_chars asize bsize xs ys)"
| "compare_chars asize bsize xs ys = None"

definition generic_quick_binary_strcmp :: "32 word list \<Rightarrow> nat \<Rightarrow> 32 word list \<Rightarrow> nat \<Rightarrow> int" where
  "generic_quick_binary_strcmp a asize b bsize =
     (if asize = 0 \<and> bsize = 0 then low_quick_binary_strcmp a b
      else (case compare_chars asize bsize a b of Some r \<Rightarrow> r | None \<Rightarrow> int (length a) - int (length b)))"

text \<open>The place of the first difference, with the sign of the comparison.\<close>

fun find_difference :: "nat \<Rightarrow> nat \<Rightarrow> 32 word list \<Rightarrow> 32 word list \<Rightarrow> int \<Rightarrow> int option" where
  "find_difference asize bsize (x # xs) (y # ys) pos =
     (let ac = char_value asize x; bc = char_value bsize y in
      if ac = bc then find_difference asize bsize xs ys (pos + 1)
      else if ac < bc then Some (NOT pos) else Some (pos + 1))"
| "find_difference asize bsize xs ys pos = None"

definition generic_find_binary_prefix :: "32 word list \<Rightarrow> nat \<Rightarrow> 32 word list \<Rightarrow> nat \<Rightarrow> int" where
  "generic_find_binary_prefix a asize b bsize =
     (case find_difference asize bsize a b 0 of
        Some r \<Rightarrow> r
      | None \<Rightarrow>
          if length a = length b then 0
          else if length a < length b then NOT (int (length a))
          else int (length b) + 1)"

definition my_quick_strcmp :: "('a) pstr_scheme \<Rightarrow> ('b) pstr_scheme \<Rightarrow> int" where
  "my_quick_strcmp a b = generic_quick_binary_strcmp (chars a) (size_shift a) (chars b) (size_shift b)"

section \<open>The flags of a sum\<close>

definition set_flags_for_add :: "('a) pstr_scheme \<Rightarrow> 8 word \<Rightarrow> byte \<Rightarrow> byte \<Rightarrow> bool \<Rightarrow> ('b) pstr_scheme \<Rightarrow> ('a) pstr_scheme" where
  "set_flags_for_add ret aflags amin amax a_is_utf8 b =
     (if len b = 0 then
        ret\<lparr>flags := flags ret OR aflags AND string_checked_mask, bmin := amin, bmax := amax,
            string_is_utf8 := a_is_utf8 \<and> string_is_utf8 b\<rparr>
      else
        (let ret =
           (if has_flag (aflags AND flags b) string_content_checked then
              ret\<lparr>bmin := min amin (bmin b), bmax := max amax (bmax b),
                  flags := flags ret OR string_content_checked, string_is_utf8 := a_is_utf8 \<and> string_is_utf8 b\<rparr>
            else ret\<lparr>flags := flags ret AND NOT string_content_checked\<rparr>)
         in ret\<lparr>flags := flags ret AND NOT (string_is_lowercase OR string_is_uppercase) OR
                  aflags AND flags b AND (string_is_lowercase OR string_is_uppercase)\<rparr>))"

definition update_flags_for_add :: "('a) pstr_scheme \<Rightarrow> ('b) pstr_scheme \<Rightarrow> ('a) pstr_scheme" where
  "update_flags_for_add a b =
     (if len b = 0 then a
      else
        (let a' =
           (if checked a then
              if checked b then
                (if len a \<noteq> 0 then
                   a\<lparr>bmin := (if bmin b < bmin a then bmin b else bmin a), bmax := (if bmax b > bmax a then bmax b else bmax a)\<rparr>
                 else a\<lparr>bmin := bmin b, bmax := bmax b\<rparr>)
                \<lparr>string_is_utf8 := string_is_utf8 a \<and> string_is_utf8 b\<rparr>
              else a\<lparr>flags := flags a AND NOT string_content_checked\<rparr>
            else a)
         in a'\<lparr>flags := flags a' AND (NOT (string_is_lowercase OR string_is_uppercase) OR flags b)\<rparr>))"

section \<open>Surrogates\<close>

text \<open>The count of the pairs; \<open>None\<close> is the result -1 for surrogates that are not in pairs.\<close>

fun count_surrogate_pairs :: "32 word list \<Rightarrow> nat \<Rightarrow> nat option" where
  "count_surrogate_pairs (c # d # s) res =
     (if c AND 0xfc00 = 0xdc00 then None
      else if c AND 0xfc00 = 0xd800 then
        (if d AND 0xfc00 \<noteq> 0xdc00 then None else count_surrogate_pairs s (res + 1))
      else count_surrogate_pairs (d # s) res)"
| "count_surrogate_pairs [c] res = (if c AND 0xf800 = 0xd800 then None else Some res)"
| "count_surrogate_pairs [] res = Some res"

text \<open>The characters that are written; the loop ends before the last one.\<close>

fun convert_surrogate_pairs :: "32 word list \<Rightarrow> 32 word list" where
  "convert_surrogate_pairs (c # d # s) =
     (if c AND 0xfc00 = 0xdc00 then (((c AND 0x3ff) OR (d AND 0x3ff)) + 0x10000) # convert_surrogate_pairs s
      else c # convert_surrogate_pairs (d # s))"
| "convert_surrogate_pairs s = []"


section \<open>The invariant\<close>

text \<open>A string has the least width its characters allow, and the bounds it knows are those of its
  characters, cut to the bytes that are stored.\<close>

definition unit_bits :: "nat \<Rightarrow> nat" where
  "unit_bits shift = (if shift = 0 then 0 else if shift = 1 then 8 else 24)"

definition bound_value :: "nat \<Rightarrow> byte \<Rightarrow> int" where
  "bound_value shift b = (if shift < 2 then uint b else sint b)"

definition char_values :: "('a) pstr_scheme \<Rightarrow> int set" where
  "char_values s = sint ` set (chars s)"

definition bounds_ok :: "('a) pstr_scheme \<Rightarrow> bool" where
  "bounds_ok s \<longleftrightarrow> (checked s \<and> chars s \<noteq> [] \<longrightarrow>
     bound_value (size_shift s) (bmin s) = Min (char_values s) div 2 ^ unit_bits (size_shift s) \<and>
     bound_value (size_shift s) (bmax s) = Max (char_values s) div 2 ^ unit_bits (size_shift s))"

definition string_ok :: "('a) pstr_scheme \<Rightarrow> bool" where
  "string_ok s \<longleftrightarrow> find_magnitude2 (chars s) = size_shift s \<and> bounds_ok s"

section \<open>Widths\<close>

lemma find_magnitude1_zero: "find_magnitude1 cs = 0 \<longleftrightarrow> (\<forall>c \<in> set cs. c < 256)"
  by (induction cs) (auto simp: not_le)

lemma find_magnitude1_le: "find_magnitude1 cs \<le> 1"
  by (induction cs) auto

lemma find_wide_cases: "find_wide cs = (if \<forall>c \<in> set cs. c < 65536 then 1 else 2)"
  by (induction cs) (auto simp: not_le)

lemma find_magnitude2_cases:
  "find_magnitude2 cs = (if \<forall>c \<in> set cs. c < 256 then 0 else if \<forall>c \<in> set cs. c < 65536 then 1 else 2)"
proof (induction cs)
  case (Cons c cs)
  have "c < 65536" if "c < 256"
    using that by (simp add: word_less_nat_alt)
  then show ?case
    using Cons by (auto simp: find_wide_cases not_le)
qed simp

lemma find_magnitude2_le: "find_magnitude2 cs \<le> 2"
  by (simp add: find_magnitude2_cases)

lemma find_magnitude2_mono: "set cs \<subseteq> set ds \<Longrightarrow> find_magnitude2 cs \<le> find_magnitude2 ds"
  by (auto simp: find_magnitude2_cases)

lemma byte_char: "c < 256 \<Longrightarrow> c < (65536 :: 32 word)"
  by (simp add: word_less_def)

lemma magnitude_chars:
  assumes "c \<in> set cs"
  shows "find_magnitude2 cs = 0 \<Longrightarrow> c < 256" "find_magnitude2 cs < 2 \<Longrightarrow> c < 65536"
proof -
  show "find_magnitude2 cs = 0 \<Longrightarrow> c < 256"
    using assms by (simp add: find_magnitude2_cases split: if_splits)
  have "\<forall>c \<in> set cs. c < 65536" if "find_magnitude2 cs < 2"
    using that byte_char by (auto simp: find_magnitude2_cases split: if_splits)
  then show "find_magnitude2 cs < 2 \<Longrightarrow> c < 65536"
    using assms by blast
qed

lemma store_char_id: "min_magnitude c \<le> shift \<Longrightarrow> store_char shift c = c"
proof -
  have m: "c AND 0xff = take_bit 8 c" "c AND 0xffff = take_bit 16 c"
    by (simp_all add: take_bit_eq_mask mask_eq_exp_minus_1)
  assume "min_magnitude c \<le> shift"
  then show ?thesis
    unfolding store_char_def m
    by (auto simp: min_magnitude_def word_unat_eq_iff word_less_nat_alt take_bit_eq_mod unat_mod split: if_splits)
qed

lemma sint_small:
  assumes "c < 65536"
  shows "sint (c :: 32 word) = uint c"
proof -
  have "uint c < 2 ^ 31"
    using assms by (simp add: word_less_def)
  then have "signed_take_bit 31 (uint c) = uint c"
    by (intro signed_take_bit_int_eq_self) (auto intro: order_trans [of _ 0])
  then show ?thesis
    by (simp add: sint_uint)
qed

lemma char_value_sint:
  assumes "find_magnitude2 (chars s) = size_shift s" "c \<in> set (chars s)"
  shows "char_value (size_shift s) c = sint c"
  using magnitude_chars(2) [OF assms(2)] sint_small [of c] by (simp add: char_value_def assms(1))

section \<open>Bounds\<close>

lemma char_values_finite [simp]: "finite (char_values s)"
  by (simp add: char_values_def)

lemma char_values_empty [simp]: "char_values s = {} \<longleftrightarrow> chars s = []"
  by (simp add: char_values_def)

lemma sint_bounds: "- (2 ^ 31) \<le> sint (c :: 32 word)" "sint (c :: 32 word) < 2 ^ 31"
  using sint_ge [of c] sint_lt [of c] by simp_all

lemma scan_range_Cons:
  "scan_range shift (c # cs) a b = scan_range shift cs (min (char_value shift c) a) (max (char_value shift c) b)"
  by (simp add: Let_def min_def max_def)

lemma scan_range_min_max:
  "scan_range shift cs a b = (Min (insert a (char_value shift ` set cs)), Max (insert b (char_value shift ` set cs)))"
proof (induction cs arbitrary: a b)
  case (Cons c cs)
  let ?V = "char_value shift ` set cs" and ?v = "char_value shift c"
  have "Min (insert (min ?v a) ?V) = Min (insert a (insert ?v ?V))" "Max (insert (max ?v b) ?V) = Max (insert b (insert ?v ?V))"
    by (cases "?V = {}"; simp add: min.left_commute min.commute max.left_commute max.commute)+
  then show ?case
    by (simp only: scan_range_Cons Cons.IH list.set image_insert)
qed simp

lemma scan_range_string:
  assumes "find_magnitude2 (chars s) = size_shift s" "chars s \<noteq> []"
  shows "scan_range (size_shift s) (chars s) max_int32 min_int32 = (Min (char_values s), Max (char_values s))"
proof -
  have V: "char_value (size_shift s) ` set (chars s) = char_values s"
    using char_value_sint [OF assms(1)] by (auto simp: char_values_def)
  have "sint (c :: 32 word) \<le> max_int32 \<and> min_int32 \<le> sint c" for c
    using sint_bounds [of c] unfolding max_int32_def min_int32_def by linarith
  then have "\<forall>v \<in> char_values s. v \<le> max_int32 \<and> min_int32 \<le> v"
    unfolding char_values_def by blast
  then have "min max_int32 (Min (char_values s)) = Min (char_values s)" "max min_int32 (Max (char_values s)) = Max (char_values s)"
    using assms(2) by (simp_all add: min_absorb2 max_absorb2)
  then show ?thesis
    using assms(2) by (simp add: scan_range_min_max V)
qed

lemma value_range:
  assumes "find_magnitude2 (chars s) = size_shift s" "v \<in> char_values s"
  shows "- (2 ^ 31) \<le> v" "v < 2 ^ 31" "size_shift s = 0 \<Longrightarrow> 0 \<le> v \<and> v < 256" "size_shift s = 1 \<Longrightarrow> 0 \<le> v \<and> v < 65536"
proof -
  obtain c where c: "c \<in> set (chars s)" "v = sint c"
    using assms(2) by (auto simp: char_values_def)
  show "- (2 ^ 31) \<le> v" "v < 2 ^ 31"
    using sint_bounds c(2) by auto
  show "size_shift s = 0 \<Longrightarrow> 0 \<le> v \<and> v < 256" "size_shift s = 1 \<Longrightarrow> 0 \<le> v \<and> v < 65536"
    using magnitude_chars [OF c(1)] byte_char [of c] sint_small [of c] unfolding assms(1) c(2) by (simp_all add: word_less_def)
qed

lemma signed_byte:
  assumes "- (2 ^ 31) \<le> v" "v < 2 ^ 31"
  shows "sint (word_of_int (uint (word_of_int v :: 32 word) div 2 ^ 24) :: byte) = v div 2 ^ 24"
proof -
  have "v mod 2 ^ 32 div 2 ^ 24 = (v div 2 ^ 24) mod 2 ^ 8"
    using take_bit_drop_bit [of 8 24 v] drop_bit_take_bit [of 24 32 v] by (simp add: take_bit_eq_mod drop_bit_eq_div)
  moreover have "sint (word_of_int (x mod 2 ^ 8) :: byte) = x" if "- 128 \<le> x" "x < 128" for x
    using that by (simp add: int_word_sint mod_simps)
  moreover have "- 128 \<le> v div 2 ^ 24" "v div 2 ^ 24 < 128"
    using assms by auto
  ultimately show ?thesis
    by (simp add: uint_word_of_int)
qed

lemma bound_word_of_int:
  assumes "find_magnitude2 (chars s) = size_shift s" "v \<in> char_values s"
  shows "bound_value (size_shift s)
    (if size_shift s = 0 then word_of_int v else if size_shift s = 1 then word_of_int (v div 256)
     else word_of_int (uint (word_of_int v :: 32 word) div 2 ^ 24)) = v div 2 ^ unit_bits (size_shift s)"
proof -
  note r = value_range [OF assms]
  consider "size_shift s = 0" | "size_shift s = 1" | "size_shift s = 2"
    using find_magnitude2_le [of "chars s"] assms(1) by linarith
  then show ?thesis
  proof cases
    case 2
    then have "0 \<le> v div 256" "v div 256 < 256"
      using r(4) by auto
    then show ?thesis
      using 2 by (simp add: bound_value_def unit_bits_def uint_word_of_int)
  qed (use r signed_byte [OF r(1,2)] in \<open>simp_all add: bound_value_def unit_bits_def uint_word_of_int\<close>)
qed

lemma Min_div: "finite S \<Longrightarrow> S \<noteq> {} \<Longrightarrow> Min ((\<lambda>v. v div 2 ^ k) ` S) = Min S div (2 ^ k :: int)"
  by (rule mono_Min_commute [symmetric]) (auto simp: mono_def zdiv_mono1)

text \<open>The range that a checked string knows: its bounds cut to whole units.\<close>

lemma sint_unit:
  "sint (ucast (b :: byte) * 2 ^ 24 :: 32 word) = sint b * 2 ^ 24"
  "sint (ucast (b :: byte) * 2 ^ 24 + (2 ^ 24 - 1) :: 32 word) = sint b * 2 ^ 24 + 2 ^ 24 - 1"
proof -
  have b: "- 128 \<le> sint b" "sint b < 128"
    using sint_ge [of b] sint_lt [of b] by simp_all
  have "uint b = sint b \<or> uint b = sint b + 256"
  proof -
    have "sint b = (uint b + 128) mod 256 - 128"
      using int_word_sint [of "uint b", where 'a = 8] by simp
    moreover have "0 \<le> uint b" "uint b < 256"
      by simp_all
    moreover have "(uint b + 128) mod 256 = (uint b - 128) mod 256"
      using mod_add_self2 [of "uint b - 128" 256] by (simp add: add.commute)
    ultimately show ?thesis
      by (cases "uint b < 128") simp_all
  qed
  moreover have "(word_of_int ((x + 256) * 2 ^ 24) :: 32 word) = word_of_int (x * 2 ^ 24)" for x
  proof -
    have "(word_of_int ((x + 256) * 2 ^ 24) :: 32 word) = word_of_int (x * 2 ^ 24 + 2 ^ 32)"
      by simp
    then show ?thesis
      by (simp only: of_int_add) simp
  qed
  ultimately have "(word_of_int (uint b * 2 ^ 24) :: 32 word) = word_of_int (sint b * 2 ^ 24)"
    by metis
  then have e: "(ucast b :: 32 word) * 2 ^ 24 = word_of_int (sint b * 2 ^ 24)"
    by simp
  show "sint (ucast b * 2 ^ 24 :: 32 word) = sint b * 2 ^ 24"
    unfolding e int_word_sint using b by simp
  have "(ucast b :: 32 word) * 2 ^ 24 + (2 ^ 24 - 1) = word_of_int (sint b * 2 ^ 24 + 2 ^ 24 - 1)"
    unfolding e by simp
  then have e': "(ucast b :: 32 word) * 2 ^ 24 + (2 ^ 24 - 1) = word_of_int (sint b * 2 ^ 24 + 2 ^ 24 - 1)" .
  show "sint (ucast b * 2 ^ 24 + (2 ^ 24 - 1) :: 32 word) = sint b * 2 ^ 24 + 2 ^ 24 - 1"
    unfolding e' int_word_sint using b by simp
qed

lemma loose_range_checked:
  assumes "string_ok s" "checked s" "chars s \<noteq> []"
  shows "loose_range s = (Min (char_values s) div 2 ^ unit_bits (size_shift s) * 2 ^ unit_bits (size_shift s),
    Max (char_values s) div 2 ^ unit_bits (size_shift s) * 2 ^ unit_bits (size_shift s) + 2 ^ unit_bits (size_shift s) - 1)"
proof -
  have b: "bound_value (size_shift s) (bmin s) = Min (char_values s) div 2 ^ unit_bits (size_shift s)"
    "bound_value (size_shift s) (bmax s) = Max (char_values s) div 2 ^ unit_bits (size_shift s)" "size_shift s \<le> 2"
    using assms find_magnitude2_le [of "chars s"] by (auto simp: string_ok_def bounds_ok_def)
  consider "size_shift s = 0" | "size_shift s = 1" | "size_shift s = 2"
    using b(3) by linarith
  then show ?thesis
  proof cases
    case 3
    then show ?thesis
      using assms(2) b(1,2) by (simp only: loose_range_def bound_value_def unit_bits_def sint_unit) simp
  qed (use assms(2) b(1,2) in \<open>simp_all add: loose_range_def bound_value_def unit_bits_def\<close>)
qed


lemma unit_cut:
  fixes x :: int
  shows "x div 2 ^ k * 2 ^ k \<le> x" "x < x div 2 ^ k * 2 ^ k + 2 ^ k"
proof -
  have "0 \<le> x mod 2 ^ k" "x mod 2 ^ k < 2 ^ k"
    by simp_all
  then show "x div 2 ^ k * 2 ^ k \<le> x" "x < x div 2 ^ k * 2 ^ k + 2 ^ k"
    using div_mult_mod_eq [of x "2 ^ k"] by linarith+
qed

lemma cut_units:
  fixes x y :: int
  assumes "l \<le> k" "x \<le> y"
  shows "x div 2 ^ k * 2 ^ k \<le> y div 2 ^ l * 2 ^ l" "x div 2 ^ l * 2 ^ l + 2 ^ l \<le> y div 2 ^ k * 2 ^ k + 2 ^ k"
proof -
  obtain j where k: "k = l + j"
    using assms(1) le_iff_add by blast
  have e: "z div 2 ^ k * 2 ^ k = z div 2 ^ l div 2 ^ j * 2 ^ j * 2 ^ l" for z :: int
  proof -
    have "z div 2 ^ k = z div 2 ^ l div 2 ^ j"
      unfolding k power_add by (rule zdiv_zmult2_eq) simp
    then show ?thesis
      by (simp add: k power_add)
  qed
  have d: "x div 2 ^ l \<le> y div 2 ^ l"
    using assms(2) by (simp add: zdiv_mono1)
  have c: "z div 2 ^ j * 2 ^ j \<le> z" "z + 1 \<le> z div 2 ^ j * 2 ^ j + 2 ^ j" for z :: int
    using unit_cut [of z j] by linarith+
  have "x div 2 ^ l div 2 ^ j * 2 ^ j \<le> y div 2 ^ l"
    using c(1) [of "x div 2 ^ l"] d by linarith
  then show "x div 2 ^ k * 2 ^ k \<le> y div 2 ^ l * 2 ^ l"
    unfolding e by (intro mult_right_mono) auto
  have "x div 2 ^ l + 1 \<le> y div 2 ^ l div 2 ^ j * 2 ^ j + 2 ^ j"
    using c(2) [of "y div 2 ^ l"] d by linarith
  then have "(x div 2 ^ l + 1) * 2 ^ l \<le> (y div 2 ^ l div 2 ^ j * 2 ^ j + 2 ^ j) * 2 ^ l"
    by (rule mult_right_mono) simp
  then show "x div 2 ^ l * 2 ^ l + 2 ^ l \<le> y div 2 ^ k * 2 ^ k + 2 ^ k"
    unfolding e by (simp add: k power_add algebra_simps)
qed

lemma checked_bit: "(x :: 8 word) AND string_content_checked \<noteq> 0 \<longleftrightarrow> bit x 3"
proof -
  have e: "string_content_checked = 2 ^ 3"
    by (simp add: string_content_checked_def)
  show ?thesis
    unfolding e and_exp_eq_0_iff_not_bit by simp
qed

lemma flag_bits [simp]:
  "bit string_content_checked 3" "\<not> bit string_is_uppercase 3" "\<not> bit string_is_lowercase 3"
  "bit string_checked_mask 3"
  by (simp_all add: string_content_checked_def string_is_uppercase_def string_is_lowercase_def string_checked_mask_def)

lemma loose_range_bounds:
  assumes "string_ok s" "v \<in> char_values s"
  shows "fst (loose_range s) \<le> v \<and> v \<le> snd (loose_range s)"
proof (cases "checked s")
  case True
  define k where "k = unit_bits (size_shift s)"
  have ne: "chars s \<noteq> []"
    using assms(2) by (auto simp: char_values_def)
  have "Min (char_values s) \<le> v" "v \<le> Max (char_values s)"
    using assms(2) by simp_all
  then show ?thesis
    unfolding loose_range_checked [OF assms(1) True ne] k_def [symmetric] fst_conv snd_conv
    using unit_cut [of "Min (char_values s)" k] unit_cut [of "Max (char_values s)" k] by linarith
next
  case False
  have m: "find_magnitude2 (chars s) = size_shift s" "size_shift s \<le> 2"
    using assms(1) find_magnitude2_le [of "chars s"] by (auto simp: string_ok_def)
  note r = value_range [OF m(1) assms(2)]
  show ?thesis
    using False r m(2) by (auto simp: loose_range_def min_int32_def max_int32_def)
qed

text \<open>The range of a string with fewer characters, of the same kind, is inside.\<close>

lemma loose_range_subset:
  assumes "string_ok s" "string_ok t" "set (chars t) \<subseteq> set (chars s)" "chars t \<noteq> []" "checked s \<longleftrightarrow> checked t"
  shows "fst (loose_range s) \<le> fst (loose_range t) \<and> snd (loose_range t) \<le> snd (loose_range s)"
proof -
  have m: "find_magnitude2 (chars s) = size_shift s" "find_magnitude2 (chars t) = size_shift t"
    using assms(1,2) by (simp_all add: string_ok_def)
  have le: "size_shift t \<le> size_shift s" "size_shift s \<le> 2"
    using find_magnitude2_mono [OF assms(3)] find_magnitude2_le [of "chars s"] m by auto
  show ?thesis
  proof (cases "checked s")
    case False
    then show ?thesis
      using assms(5) le by (auto simp: loose_range_def min_int32_def max_int32_def)
  next
    case True
    define k where "k = unit_bits (size_shift s)"
    define l where "l = unit_bits (size_shift t)"
    have kl: "l \<le> k"
      using le by (auto simp: k_def l_def unit_bits_def)
    have ne: "chars s \<noteq> []"
      using assms(3,4) by auto
    have V: "char_values t \<subseteq> char_values s" "char_values t \<noteq> {}"
      using assms(3,4) by (auto simp: char_values_def)
    have M: "Min (char_values s) \<le> Min (char_values t)" "Max (char_values t) \<le> Max (char_values s)"
      using Min_antimono [OF V] Max_mono [OF V] by simp_all
    have cut: "x div 2 ^ k * 2 ^ k \<le> y div 2 ^ l * 2 ^ l" "x div 2 ^ l * 2 ^ l + 2 ^ l \<le> y div 2 ^ k * 2 ^ k + 2 ^ k" if "x \<le> y" for x y :: int
      using cut_units [OF kl that] .
    show ?thesis
      unfolding loose_range_checked [OF assms(1) True ne] loose_range_checked [OF assms(2) True [unfolded assms(5)] assms(4)]
        k_def [symmetric] l_def [symmetric] fst_conv snd_conv using cut(1) [OF M(1)] cut(2) [OF M(2)] by linarith
  qed
qed

section \<open>The lexicographic order\<close>

definition lex_sgn :: "int list \<Rightarrow> int list \<Rightarrow> int" where
  "lex_sgn xs ys = (if xs < ys then - 1 else if ys < xs then 1 else 0)"

lemma lex_sgn_simps [simp]:
  "lex_sgn [] [] = 0" "lex_sgn [] (y # ys) = - 1" "lex_sgn (x # xs) [] = 1"
  "lex_sgn (x # xs) (y # ys) = (if x < y then - 1 else if y < x then 1 else lex_sgn xs ys)"
  by (auto simp: lex_sgn_def)

lemma compare_chars_sgn:
  assumes "\<forall>x \<in> set a. char_value s x = sint x" "\<forall>y \<in> set b. char_value t y = sint y"
  shows "sgn (case compare_chars s t a b of Some r \<Rightarrow> r | None \<Rightarrow> int (length a) - int (length b)) = lex_sgn (map sint a) (map sint b)"
  using assms
proof (induction a arbitrary: b)
  case Nil
  then show ?case
    by (cases b) simp_all
next
  case (Cons x a)
  show ?case
  proof (cases b)
    case (Cons y b')
    then show ?thesis
      using Cons.IH [of b'] Cons.prems by (cases "compare_chars s t a b'") (simp_all add: Let_def)
  qed simp
qed

lemma low_quick_Cons:
  "low_quick_binary_strcmp (x # xs) (y # ys) = (if x < y then - 1 else if y < x then 1 else low_quick_binary_strcmp xs ys)"
  by (simp add: low_quick_binary_strcmp_def Let_def)

lemma low_quick_sgn:
  "\<forall>x \<in> set a \<union> set b. x < 256 \<Longrightarrow> sgn (low_quick_binary_strcmp a b) = lex_sgn (map sint a) (map sint b)"
proof (induction a arbitrary: b)
  case Nil
  then show ?case
    by (cases b) (simp_all add: low_quick_binary_strcmp_def Let_def)
next
  case (Cons x a)
  show ?case
  proof (cases b)
    case Nil
    then show ?thesis
      by (simp add: low_quick_binary_strcmp_def Let_def)
  next
    case (Cons y b')
    then have "sint x = uint x" "sint y = uint y"
      using Cons.prems sint_small byte_char by simp_all
    then show ?thesis
      using Cons Cons.IH [of b'] Cons.prems by (simp add: low_quick_Cons word_less_def)
  qed
qed

text \<open>The common prefix.\<close>

lemma find_difference_spec:
  assumes "\<forall>x \<in> set a. char_value s x = sint x" "\<forall>y \<in> set b. char_value t y = sint y"
  shows "case find_difference s t a b (int p) of
      Some r \<Rightarrow> \<exists>k. r = (if lex_sgn (map sint a) (map sint b) < 0 then NOT (int (p + k)) else int (p + k) + 1) \<and>
        lex_sgn (map sint a) (map sint b) \<noteq> 0 \<and> k < length a \<and> k < length b \<and>
        take k (map sint a) = take k (map sint b) \<and> sint (a ! k) \<noteq> sint (b ! k)
    | None \<Rightarrow> lex_sgn (map sint a) (map sint b) = sgn (int (length a) - int (length b)) \<and>
        take (min (length a) (length b)) (map sint a) = take (min (length a) (length b)) (map sint b)"
  using assms
proof (induction a arbitrary: b p)
  case Nil
  then show ?case
    by (cases b) simp_all
next
  case (Cons x a)
  show ?case
  proof (cases b)
    case (Cons y b')
    show ?thesis
    proof (cases "sint x = sint y")
      case True
      have d: "find_difference s t (x # a) b (int p) = find_difference s t a b' (int (p + 1))"
        using Cons True Cons.prems by (simp add: Let_def add.commute)
      have IH: "case find_difference s t a b' (int (p + 1)) of
          Some r \<Rightarrow> \<exists>k. r = (if lex_sgn (map sint a) (map sint b') < 0 then NOT (int (p + 1 + k)) else int (p + 1 + k) + 1) \<and>
            lex_sgn (map sint a) (map sint b') \<noteq> 0 \<and> k < length a \<and> k < length b' \<and>
            take k (map sint a) = take k (map sint b') \<and> sint (a ! k) \<noteq> sint (b' ! k)
        | None \<Rightarrow> lex_sgn (map sint a) (map sint b') = sgn (int (length a) - int (length b')) \<and>
            take (min (length a) (length b')) (map sint a) = take (min (length a) (length b')) (map sint b')"
        using Cons Cons.prems by (intro Cons.IH) simp_all
      show ?thesis
      proof (cases "find_difference s t a b' (int (p + 1))")
        case None
        then show ?thesis
          using IH Cons True unfolding d by simp
      next
        case (Some r)
        then obtain k where "r = (if lex_sgn (map sint a) (map sint b') < 0 then NOT (int (p + 1 + k)) else int (p + 1 + k) + 1)"
            "lex_sgn (map sint a) (map sint b') \<noteq> 0" "k < length a" "k < length b'"
            "take k (map sint a) = take k (map sint b')" "sint (a ! k) \<noteq> sint (b' ! k)"
          using IH by auto
        then show ?thesis
          using Cons True Some unfolding d by (auto intro!: exI [of _ "Suc k"])
      qed
    next
      case False
      then show ?thesis
        using Cons Cons.prems by (auto simp: Let_def intro!: exI [of _ 0])
    qed
  qed simp
qed

lemma prefix_spec:
  assumes "\<forall>x \<in> set a. char_value s x = sint x" "\<forall>y \<in> set b. char_value t y = sint y"
    "r = generic_find_binary_prefix a s b t" "k = (if r < 0 then nat (NOT r) else nat (r - 1))"
    "xs = map sint a" "ys = map sint b"
  shows "sgn r = lex_sgn xs ys \<and>
    (xs \<noteq> ys \<longrightarrow> take k xs = take k ys \<and> (k = length xs \<or> k = length ys \<or> k < length xs \<and> k < length ys \<and> xs ! k \<noteq> ys ! k))"
proof (cases "find_difference s t a b 0")
  case None
  then have l: "lex_sgn xs ys = sgn (int (length a) - int (length b))"
    "take (min (length a) (length b)) xs = take (min (length a) (length b)) ys"
    using find_difference_spec [OF assms(1,2), of 0] by (simp_all add: assms(5,6))
  have r: "r = (if length a = length b then 0 else if length a < length b then NOT (int (length a)) else int (length b) + 1)"
    using None by (simp add: assms(3) generic_find_binary_prefix_def)
  consider "length a = length b" | "length a < length b" | "length b < length a"
    by linarith
  then show ?thesis
    by cases (use l r assms(4-6) in \<open>simp_all add: not_int_def\<close>)
next
  case (Some q)
  then obtain j where j: "q = (if lex_sgn xs ys < 0 then NOT (int j) else int j + 1)" "lex_sgn xs ys \<noteq> 0" "j < length a" "j < length b"
      "take j xs = take j ys" "sint (a ! j) \<noteq> sint (b ! j)"
    using find_difference_spec [OF assms(1,2), of 0] by (auto simp: assms(5,6))
  have r: "r = q"
    using Some by (simp add: assms(3) generic_find_binary_prefix_def)
  have "lex_sgn xs ys = - 1 \<or> lex_sgn xs ys = 1"
    using j(2) by (auto simp: lex_sgn_def split: if_splits)
  then have "sgn r = lex_sgn xs ys" "k = j"
    using j(1) by (auto simp: r assms(4) not_int_def)
  then show ?thesis
    using j assms(5,6) by simp
qed

section \<open>Properties\<close>

text \<open>C20: Checking the range of a string keeps its invariant and its characters, and no character is outside
  of the range it reports; when it looks at the characters the range of a string that has some is
  exact.\<close>

theorem check_string_range_spec:
  assumes "string_ok s" "check_string_range s loose want_max = (r, mn, mx)"
  shows "string_ok r \<and> chars r = chars s \<and> size_shift r = size_shift s \<and>
    (\<forall>c \<in> set (chars s). mn \<le> sint c \<and> sint c \<le> mx) \<and>
    (\<not> loose \<longrightarrow> checked r \<and> (\<not> checked s \<and> chars s \<noteq> [] \<longrightarrow> mn = Min (char_values s) \<and> mx = Max (char_values s)))"
proof (cases "loose \<or> checked s \<and> (size_shift s = 0 \<or> \<not> want_max)")
  case True
  then show ?thesis
    using assms loose_range_bounds [OF assms(1)] by (auto simp: check_string_range_def char_values_def)
next
  case False
  have m: "find_magnitude2 (chars s) = size_shift s" "size_shift s \<le> 2"
    using assms(1) find_magnitude2_le [of "chars s"] by (auto simp: string_ok_def)
  have r: "scan_range (size_shift s) (chars s) max_int32 min_int32 = (mn, mx)" "chars r = chars s" "size_shift r = size_shift s"
      "bmin r = (if size_shift s = 0 then word_of_int mn else if size_shift s = 1 then word_of_int (mn div 256)
         else word_of_int (uint (word_of_int mn :: 32 word) div 2 ^ 24))"
      "bmax r = (if size_shift s = 0 then word_of_int mx else if size_shift s = 1 then word_of_int (mx div 256)
         else word_of_int (uint (word_of_int mx :: 32 word) div 2 ^ 24))" "checked r"
    using assms(2) False
    by (auto simp: check_string_range_def check_range8_def Let_def checked_bit bit_or_iff split: prod.splits if_splits)
  show ?thesis
  proof (cases "chars s = []")
    case True
    then show ?thesis
      using r m by (simp add: string_ok_def bounds_ok_def)
  next
    case False
    have v: "mn = Min (char_values s)" "mx = Max (char_values s)"
      using scan_range_string [OF m(1) False] r(1) by simp_all
    have "mn \<in> char_values s" "mx \<in> char_values s"
      using False by (simp_all add: v)
    then have "bounds_ok r"
      using bound_word_of_int [OF m(1)] r v by (simp add: bounds_ok_def char_values_def)
    moreover have "\<forall>c \<in> set (chars s). mn \<le> sint c \<and> sint c \<le> mx"
      by (simp add: v char_values_def)
    ultimately show ?thesis
      using r m v by (simp add: string_ok_def)
  qed
qed

theorem check_string_range_spec_witness:
  "\<exists>r. check_string_range \<lparr>size_shift = 1, chars = [0x4e2d, 65], flags = 0, bmin = 0, bmax = 0, string_is_utf8 = False\<rparr> False True =
    (r, 65, 0x4e2d) \<and> string_ok r"
proof -
  let ?s = "\<lparr>size_shift = 1, chars = [0x4e2d, 65], flags = 0, bmin = 0, bmax = 0, string_is_utf8 = False\<rparr>"
  have "string_ok ?s"
    by (simp add: string_ok_def bounds_ok_def)
  moreover have "\<exists>r. check_string_range ?s False True = (r, 65, 0x4e2d)"
    by (simp add: check_string_range_def char_value_def max_int32_def min_int32_def)
  ultimately show ?thesis
    using check_string_range_spec by blast
qed

text \<open>C21: For strings whose stored bounds are right (the invariant \<open>string_ok\<close>, checked or not, of any
  widths), the test that tells from the ranges whether one string may hold another never refuses a
  string that is there, and neither does the test for a character. The condition is needed: sums of
  strings of different widths can violate it, and the tests then refuse characters that are there
  (\<open>mixed_sum_range\<close> below).\<close>

theorem string_range_contains_spec:
  assumes "string_ok s" "string_ok t" "set (chars t) \<subseteq> set (chars s)"
  shows "string_range_contains_string s t \<and> (\<forall>c \<in> set (chars s). string_range_contains s (sint c))"
proof -
  have m: "size_shift t \<le> size_shift s"
    using find_magnitude2_mono [OF assms(3)] assms(1,2) by (simp add: string_ok_def)
  have k: "flags s AND string_content_checked = flags t AND string_content_checked \<Longrightarrow> checked s \<longleftrightarrow> checked t"
    by simp
  have "string_range_contains s (sint c)" if "c \<in> set (chars s)" for c
    using loose_range_bounds [OF assms(1), of "sint c"] that
    by (cases "loose_range s") (simp add: string_range_contains_def check_string_range_def char_values_def)
  then show ?thesis
    using loose_range_subset [OF assms] m k
    by (auto simp: string_range_contains_string_def check_string_range_def split: prod.splits)
qed

definition ascii_string :: pstr where
  "ascii_string = \<lparr>size_shift = 0, chars = [97, 98, 99], flags = string_content_checked, bmin = 97, bmax = 99, string_is_utf8 = True\<rparr>"

definition wide_string :: pstr where
  "wide_string = \<lparr>size_shift = 1, chars = [256], flags = string_content_checked, bmin = 1, bmax = 1, string_is_utf8 = False\<rparr>"

lemma ascii_string_ok: "string_ok ascii_string" "string_ok wide_string"
  by (simp_all add: string_ok_def bounds_ok_def ascii_string_def wide_string_def bound_value_def char_values_def unit_bits_def)

theorem string_range_contains_spec_witness: "string_range_contains_string ascii_string (ascii_string\<lparr>chars := [98], bmin := 98, bmax := 98\<rparr>)"
proof -
  have "string_ok (ascii_string\<lparr>chars := [98], bmin := 98, bmax := 98\<rparr>)"
    by (simp add: string_ok_def bounds_ok_def ascii_string_def bound_value_def char_values_def unit_bits_def)
  then show ?thesis
    using string_range_contains_spec [OF ascii_string_ok(1), of "ascii_string\<lparr>chars := [98], bmin := 98, bmax := 98\<rparr>"]
    by (simp add: ascii_string_def)
qed

text \<open>C23: The comparison of strings is the lexicographic order of the values of their characters, whatever
  the widths; \<open>generic_find_binary_prefix\<close> agrees with it and tells the length of the common prefix.\<close>

theorem my_quick_strcmp_spec:
  assumes "string_ok a" "string_ok b" "xs = map sint (chars a)" "ys = map sint (chars b)"
    "r = generic_find_binary_prefix (chars a) (size_shift a) (chars b) (size_shift b)"
    "k = (if r < 0 then nat (NOT r) else nat (r - 1))"
  shows "sgn (my_quick_strcmp a b) = (if xs < ys then - 1 else if ys < xs then 1 else 0) \<and> sgn r = sgn (my_quick_strcmp a b) \<and>
    (xs \<noteq> ys \<longrightarrow> take k xs = take k ys \<and> (k = length xs \<or> k = length ys \<or> k < length xs \<and> k < length ys \<and> xs ! k \<noteq> ys ! k))"
proof -
  have m: "find_magnitude2 (chars a) = size_shift a" "find_magnitude2 (chars b) = size_shift b"
    using assms(1,2) by (simp_all add: string_ok_def)
  have v: "\<forall>x \<in> set (chars a). char_value (size_shift a) x = sint x" "\<forall>y \<in> set (chars b). char_value (size_shift b) y = sint y"
    using char_value_sint [OF m(1)] char_value_sint [OF m(2)] by blast+
  have "sgn (my_quick_strcmp a b) = lex_sgn xs ys"
  proof (cases "size_shift a = 0 \<and> size_shift b = 0")
    case True
    then have "find_magnitude2 (chars a) = 0" "find_magnitude2 (chars b) = 0"
      using m by simp_all
    then have "\<forall>x \<in> set (chars a) \<union> set (chars b). x < 256"
      using magnitude_chars(1) by blast
    then show ?thesis
      using True by (simp add: my_quick_strcmp_def generic_quick_binary_strcmp_def low_quick_sgn assms(3,4))
  next
    case False
    then show ?thesis
      using compare_chars_sgn [OF v] unfolding my_quick_strcmp_def generic_quick_binary_strcmp_def if_not_P [OF False] assms(3,4) by simp
  qed
  then show ?thesis
    using prefix_spec [OF v assms(5,6,3,4)] by (simp add: lex_sgn_def)
qed

theorem my_quick_strcmp_spec_witness:
  "sgn (my_quick_strcmp ascii_string wide_string) = - 1"
  using my_quick_strcmp_spec [OF ascii_string_ok refl refl refl refl] by (simp add: ascii_string_def wide_string_def)


section \<open>The other flags\<close>




lemma case_flag_bits [simp]:
  "bit string_is_lowercase 4" "\<not> bit string_is_lowercase 5" "\<not> bit string_is_uppercase 4" "bit string_is_uppercase 5"
  "\<not> bit string_content_checked 4" "\<not> bit string_content_checked 5"
  by (simp_all add: string_is_lowercase_def string_is_uppercase_def string_content_checked_def)






text \<open>Of strings of different widths the smaller of the two stored bytes is taken, although they count
  different units: the sum of a short and a wide string is said not to have the characters it
  has.\<close>

lemma mixed_sum_range:
  defines "r \<equiv> set_flags_for_add \<lparr>size_shift = 1, chars = chars ascii_string @ chars wide_string, flags = 3, bmin = 0, bmax = 0,
    string_is_utf8 = False\<rparr> (flags ascii_string) (bmin ascii_string) (bmax ascii_string) True wide_string"
  shows "\<not> string_range_contains r 97 \<and> \<not> string_range_contains_string r ascii_string"
  by (simp add: r_def set_flags_for_add_def ascii_string_def wide_string_def string_content_checked_def string_range_contains_def
      string_range_contains_string_def check_string_range_def loose_range_def Let_def string_is_lowercase_def string_is_uppercase_def)

text \<open>The conversion of surrogates tests for the second half of a pair instead of the first one, and drops
  the last character.\<close>

lemma surrogates_not_converted:
  "count_surrogate_pairs [0xd83d, 0xde00, 33] 0 = Some 1 \<and> convert_surrogate_pairs [0xd83d, 0xde00, 33] = [0xd83d, 0x10221]"
  by simp

end
