(* ===== verification/Utf8.thy ===== *)
theory Utf8
  imports Strings
begin

text \<open>
  The conversions between strings and UTF-8 (\<open>string_to_utf8\<close>, \<open>utf8_to_string\<close> and \<open>validate_utf8\<close> of
  \<open>src/src/builtin_functions.c\<close>), with the options for characters outside of Unicode (bit 0 of
  \<open>extended\<close>) and for pairs of surrogates (bit 1).
\<close>

section \<open>Strings that are made\<close>

text \<open>A string that has been entered in the string table; \<open>end_shared_string\<close> stores it with the least
  width.\<close>

definition new_string :: "nat \<Rightarrow> 32 word list \<Rightarrow> pstr" where
  "new_string shift cs = \<lparr>size_shift = shift, chars = cs, flags = 0, bmin = 0, bmax = 0, string_is_utf8 = False\<rparr>"

definition narrowed_string :: "32 word list \<Rightarrow> pstr" where
  "narrowed_string cs = new_string (find_magnitude2 cs) cs"

text \<open>The next character that is written into a block of \<open>n\<close> characters. A character of the block that is
  never written has the value 0 in the model.\<close>

definition emit :: "nat \<Rightarrow> nat \<Rightarrow> 32 word list \<Rightarrow> 32 word \<Rightarrow> 32 word list result" where
  "emit shift n out c = (if length out < n then Inr (out @ [store_char shift c]) else Inl Bad_Memory_Access)"

definition filled :: "nat \<Rightarrow> 32 word list \<Rightarrow> 32 word list" where
  "filled n out = out @ replicate (n - length out) 0"

section \<open>Encoding\<close>

text \<open>What a character adds to the length.\<close>

definition utf8_extra :: "64 word \<Rightarrow> 32 word \<Rightarrow> nat result" where
  "utf8_extra extended c =
     (if c AND NOT 0x7f = 0 then Inr 0
      else if c AND NOT 0x7ff = 0 then Inr 1
      else if c AND NOT 0xffff \<noteq> 0 then
        if \<not> has_flag extended 1 \<and> c > 0x10ffff then Inl Char_Out_Of_Range
        else if has_flag extended 2 \<and> c \<le> 0x10ffff then Inr 5
        else if c AND NOT 0x1fffff = 0 then Inr 3
        else if c AND NOT 0x3ffffff = 0 then Inr 4
        else if c AND NOT 0x7fffffff = 0 then Inr 5
        else Inr 6
      else if \<not> has_flag extended 1 \<and> c \<ge> 0xd800 \<and> c \<le> 0xdfff then Inl Surrogate_Character
      else Inr 2)"

fun utf8_length :: "64 word \<Rightarrow> 32 word list \<Rightarrow> nat \<Rightarrow> nat result" where
  "utf8_length extended [] n = Inr n"
| "utf8_length extended (c # cs) n = bind_result (utf8_extra extended c) (\<lambda>k. utf8_length extended cs (n + k))"

text \<open>The six bits from bit \<open>k\<close> on.\<close>

definition cont_byte :: "nat \<Rightarrow> 32 word \<Rightarrow> 32 word" where
  "cont_byte k c = 0x80 OR (drop_bit k c AND 0x3f)"

definition utf8_char :: "64 word \<Rightarrow> 32 word \<Rightarrow> 32 word list" where
  "utf8_char extended c =
     (if c AND NOT 0x7f = 0 then [c]
      else if c AND NOT 0x7ff = 0 then [0xc0 OR drop_bit 6 c, cont_byte 0 c]
      else if c AND NOT 0xffff = 0 then [0xe0 OR drop_bit 12 c, cont_byte 6 c, cont_byte 0 c]
      else if has_flag extended 2 \<and> c \<le> 0x10ffff then
        (let c = c - 0x10000
         in [0xed, 0xa0 OR drop_bit 16 c, cont_byte 10 c, 0xed, 0xb0 OR (drop_bit 6 c AND 0x3f), cont_byte 0 c])
      else if c AND NOT 0x1fffff = 0 then [0xf0 OR drop_bit 18 c, cont_byte 12 c, cont_byte 6 c, cont_byte 0 c]
      else if c AND NOT 0x3ffffff = 0 then
        [0xf8 OR drop_bit 24 c, cont_byte 18 c, cont_byte 12 c, cont_byte 6 c, cont_byte 0 c]
      else if c AND NOT 0x7fffffff = 0 then
        [0xfc OR drop_bit 30 c, cont_byte 24 c, cont_byte 18 c, cont_byte 12 c, cont_byte 6 c, cont_byte 0 c]
      else [0xfe, cont_byte 30 c, cont_byte 24 c, cont_byte 18 c, cont_byte 12 c, cont_byte 6 c, cont_byte 0 c])"

definition f_string_to_utf8 :: "('a) pstr_scheme \<Rightarrow> 64 word \<Rightarrow> 32 word list result" where
  "f_string_to_utf8 s extended =
     (let (mn, mx) = snd (check_string_range s True True) in
      if mn \<ge> 0 \<and> mx \<le> 0x7f then Inr (chars s)
      else
        bind_result (utf8_length extended (chars s) (len s)) (\<lambda>n.
          if n = len s then Inr (chars s)
          else
            bind_result (fold_result (\<lambda>b out. emit 0 n out b) (concat (map (utf8_char extended) (chars s))) [])
              (\<lambda>out. Inr (filled n out))))"

section \<open>Checking what is decoded\<close>

fun get_char :: "32 word list \<Rightarrow> (32 word \<times> 32 word list) result" where
  "get_char [] = Inl Truncated_Sequence"
| "get_char (c # cs) = Inr (c, cs)"

definition get_cont_char :: "32 word list \<Rightarrow> (32 word \<times> 32 word list) result" where
  "get_cont_char cs = bind_result (get_char cs) (\<lambda>(c, cs). if c AND 0xc0 \<noteq> 0x80 then Inl Expected_Continuation else Inr (c, cs))"

fun get_cont_chars :: "nat \<Rightarrow> 32 word list \<Rightarrow> 32 word list result" where
  "get_cont_chars 0 cs = Inr cs"
| "get_cont_chars (Suc cont) cs = bind_result (get_cont_char cs) (\<lambda>(c, cs). get_cont_chars cont cs)"

text \<open>The first bytes of a sequence: the number of continuation bytes that are left, the rest of the input,
  and the width of the result so far.\<close>

definition utf8_surrogates :: "64 word \<Rightarrow> 32 word \<Rightarrow> 32 word list \<Rightarrow> (nat \<times> 32 word list \<times> nat) result" where
  "utf8_surrogates extended c cs =
     (if \<not> has_flag extended 2 then Inl Surrogate_Character
      else if has_flag c 0x10 then Inl Surrogate_Character
      else
        bind_result (get_cont_char cs) (\<lambda>(c, cs).
        bind_result (get_char cs) (\<lambda>(c, cs).
          if c \<noteq> 0xed then Inl Low_Surrogate_Required
          else
            bind_result (get_cont_char cs) (\<lambda>(c, cs).
              if c AND 0xf0 \<noteq> 0xb0 then Inl Low_Surrogate_Required else Inr (1, cs, 2)))))"

definition utf8_lead16 :: "64 word \<Rightarrow> 32 word \<Rightarrow> 32 word list \<Rightarrow> nat \<Rightarrow> (nat \<times> 32 word list \<times> nat) result" where
  "utf8_lead16 extended c cs shift =
     bind_result
       (if c = 0xe0 then
          bind_result (get_cont_char cs) (\<lambda>(c, cs). if \<not> has_flag c 0x20 then Inl Non_Shortest_Form else Inr (1, cs, shift))
        else if \<not> has_flag extended 1 \<and> c = 0xed then
          bind_result (get_cont_char cs) (\<lambda>(c, cs). if has_flag c 0x20 then utf8_surrogates extended c cs else Inr (1, cs, shift))
        else Inr (2, cs, shift))
       (\<lambda>(cont, cs, shift). Inr (cont, cs, if shift < 1 then 1 else shift))"

definition utf8_lead21 :: "64 word \<Rightarrow> 32 word \<Rightarrow> 32 word list \<Rightarrow> (nat \<times> 32 word list) result" where
  "utf8_lead21 extended c cs =
     (if c = 0xf0 then
        bind_result (get_cont_char cs) (\<lambda>(c, cs). if \<not> has_flag c 0x30 then Inl Non_Shortest_Form else Inr (2, cs))
      else if \<not> has_flag extended 1 then
        if c > 0xf4 then Inl Outside_Utf8_Range
        else if c = 0xf4 then
          bind_result (get_cont_char cs) (\<lambda>(c, cs). if c > 0x8f then Inl Outside_Utf8_Range else Inr (2, cs))
        else Inr (3, cs)
      else Inr (3, cs))"

text \<open>The last test is one of three for the bytes 0xfc to 0xfe; every other byte has been refused.\<close>

definition utf8_lead36 :: "32 word \<Rightarrow> 32 word list \<Rightarrow> (nat \<times> 32 word list) result" where
  "utf8_lead36 c cs =
     (if c AND 0xfc = 0xf8 then
        if c = 0xf8 then
          bind_result (get_cont_char cs) (\<lambda>(c, cs). if \<not> has_flag c 0x38 then Inl Non_Shortest_Form else Inr (3, cs))
        else Inr (4, cs)
      else if c AND 0xfe = 0xfc then
        if c = 0xfc then
          bind_result (get_cont_char cs) (\<lambda>(c, cs). if \<not> has_flag c 0x3c then Inl Non_Shortest_Form else Inr (4, cs))
        else Inr (5, cs)
      else if c = 0xfe then
        bind_result (get_cont_char cs) (\<lambda>(c, cs).
          if \<not> has_flag c 0x3e then Inl Non_Shortest_Form
          else if has_flag c 0x3c then Inl Outside_Utf8_Range
          else Inr (5, cs))
      else Inr (0, cs))"

definition utf8_lead :: "64 word \<Rightarrow> 32 word \<Rightarrow> 32 word list \<Rightarrow> nat \<Rightarrow> (nat \<times> 32 word list \<times> nat) result" where
  "utf8_lead extended c cs shift =
     (if c AND 0xc0 = 0x80 then Inl Invalid_Continuation
      else if c AND 0xe0 = 0xc0 then
        if \<not> has_flag c 0x1e then Inl Non_Shortest_Form
        else Inr (1, cs, if has_flag c 0x1c \<and> shift < 1 then 1 else shift)
      else if c AND 0xf0 = 0xe0 then utf8_lead16 extended c cs shift
      else
        bind_result
          (if c AND 0xf8 = 0xf0 then utf8_lead21 extended c cs
           else if c = 0xff then Inl Char_Out_Of_Range
           else if \<not> has_flag extended 1 then Inl Outside_Utf8_Range
           else utf8_lead36 c cs)
          (\<lambda>(cont, cs). Inr (cont, cs, if shift < 2 then 2 else shift)))"

lemma get_char_length: "get_char cs = Inr (c, ds) \<Longrightarrow> length ds < length cs"
  by (cases cs) auto

lemma get_cont_char_length: "get_cont_char cs = Inr (c, ds) \<Longrightarrow> length ds < length cs"
  by (cases cs) (auto simp: get_cont_char_def split: if_splits)

lemma get_cont_chars_length: "get_cont_chars n cs = Inr ds \<Longrightarrow> length ds \<le> length cs"
  by (induction n cs arbitrary: ds rule: get_cont_chars.induct)
    (auto simp: bind_result_def split: sum.splits prod.splits dest!: get_cont_char_length, fastforce)

lemma utf8_lead_length: "utf8_lead extended c cs shift = Inr (cont, ds, shift') \<Longrightarrow> length ds \<le> length cs"
  by (auto simp: utf8_lead_def utf8_lead16_def utf8_lead21_def utf8_lead36_def utf8_surrogates_def bind_result_def
      split: if_splits sum.splits dest!: get_cont_char_length get_char_length)

function utf8_scan :: "64 word \<Rightarrow> 32 word list \<Rightarrow> nat \<Rightarrow> nat \<Rightarrow> (nat \<times> nat) result" where
  "utf8_scan extended [] n shift = Inr (n, shift)"
| "utf8_scan extended (c # cs) n shift =
     (if has_flag c 0x80 then
        bind_result (utf8_lead extended c cs shift) (\<lambda>(cont, cs, shift).
        bind_result (get_cont_chars cont cs) (\<lambda>cs. utf8_scan extended cs (n + 1) shift))
      else utf8_scan extended cs (n + 1) shift)"
  by pat_completeness auto
termination
  by (relation "measure (\<lambda>(extended, cs, n, shift). length cs)")
    (auto dest!: utf8_lead_length get_cont_chars_length)

section \<open>Decoding\<close>

text \<open>A read after the last byte is an error of the model.\<close>

fun next_byte :: "32 word list \<Rightarrow> (32 word \<times> 32 word list) result" where
  "next_byte [] = Inl Bad_Memory_Access"
| "next_byte (c # cs) = Inr (c, cs)"

text \<open>\<open>c = (c << 6) | c2\<close> for so many bytes.\<close>

fun join_bytes :: "nat \<Rightarrow> 32 word \<Rightarrow> 32 word list \<Rightarrow> (32 word \<times> 32 word list) result" where
  "join_bytes 0 c cs = Inr (c, cs)"
| "join_bytes (Suc cont) c cs = bind_result (next_byte cs) (\<lambda>(c2, cs). join_bytes cont (push_bit 6 c OR (c2 AND 0x3f)) cs)"

definition decode_char0 :: "32 word \<Rightarrow> 32 word list \<Rightarrow> (32 word \<times> 32 word list) result" where
  "decode_char0 c cs = (if has_flag c 0x80 then join_bytes 1 (c AND 0x1f) cs else Inr (c, cs))"

definition decode_char1 :: "32 word \<Rightarrow> 32 word list \<Rightarrow> (32 word \<times> 32 word list) result" where
  "decode_char1 c cs =
     (if has_flag c 0x80 then
        if c AND 0xe0 = 0xc0 then join_bytes 1 (c AND 0x1f) cs else join_bytes 2 (c AND 0x0f) cs
      else Inr (c, cs))"

definition decode_char2 :: "32 word \<Rightarrow> 32 word list \<Rightarrow> (32 word \<times> 32 word list) result" where
  "decode_char2 c cs =
     (if has_flag c 0x80 then
        if c AND 0xe0 = 0xc0 then join_bytes 1 (c AND 0x1f) cs
        else if c AND 0xf0 = 0xe0 then join_bytes 2 (c AND 0x0f) cs
        else if c AND 0xf8 = 0xf0 then join_bytes 3 (c AND 0x07) cs
        else if c AND 0xfc = 0xf8 then join_bytes 4 (c AND 0x03) cs
        else if c AND 0xfe = 0xfc then join_bytes 5 (c AND 0x01) cs
        else join_bytes 6 0 cs
      else Inr (c, cs))"

definition decode_char :: "nat \<Rightarrow> 32 word \<Rightarrow> 32 word list \<Rightarrow> (32 word \<times> 32 word list) result" where
  "decode_char shift = (if shift = 0 then decode_char0 else if shift = 1 then decode_char1 else decode_char2)"

text \<open>A second surrogate is put together with the character before it.\<close>

definition pair_up :: "64 word \<Rightarrow> 32 word \<Rightarrow> 32 word list \<Rightarrow> (32 word \<times> 32 word list) result" where
  "pair_up extended c out =
     (if has_flag extended 2 \<and> c AND 0xfc00 = 0xdc00 then
        if out = [] then Inl Bad_Memory_Access
        else Inr ((c AND 0x3ff) OR (push_bit 10 (last out AND 0x3ff) + 0x10000), butlast out)
      else Inr (c, out))"

lemma join_bytes_length: "join_bytes n c cs = Inr (d, ds) \<Longrightarrow> length ds \<le> length cs"
proof (induction n arbitrary: c cs)
  case (Suc n)
  then show ?case
    by (cases cs) fastforce+
qed simp

lemma decode_char_length: "decode_char shift c cs = Inr (d, ds) \<Longrightarrow> length ds \<le> length cs"
  by (auto simp: decode_char_def decode_char0_def decode_char1_def decode_char2_def simp del: join_bytes.simps dest: join_bytes_length split: if_splits)

function utf8_decode :: "64 word \<Rightarrow> nat \<Rightarrow> nat \<Rightarrow> 32 word list \<Rightarrow> 32 word list \<Rightarrow> 32 word list result" where
  "utf8_decode extended shift n [] out = Inr out"
| "utf8_decode extended shift n (b # bs) out =
     bind_result (decode_char shift b bs) (\<lambda>(c, bs).
     bind_result (if shift = 2 \<and> has_flag b 0x80 then pair_up extended c out else Inr (c, out)) (\<lambda>(c, out).
     bind_result (emit shift n out c) (utf8_decode extended shift n bs)))"
  by pat_completeness auto
termination
  by (relation "measure (\<lambda>(extended, shift, n, bs, out). length bs)") (auto dest!: decode_char_length)

definition f_utf8_to_string :: "('a) pstr_scheme \<Rightarrow> 64 word \<Rightarrow> (nat \<times> 32 word list) result" where
  "f_utf8_to_string s extended =
     (if size_shift s \<noteq> 0 then Inl Wrong_Type_Of_Arg
      else
        (let (mn, mx) = snd (check_string_range s True True) in
         if mn \<ge> 0 \<and> mx \<le> 0x7f then Inr (0, chars s)
         else
           bind_result (utf8_scan extended (chars s) 0 0) (\<lambda>(n, shift).
             if n = len s then Inr (0, chars s)
             else bind_result (utf8_decode extended shift n (chars s) []) (\<lambda>out. Inr (shift, filled n out)))))"


section \<open>Validation\<close>

text \<open>The continuation bytes, one for each bit that is set after the first bit of \<open>c\<close>; after the last byte
  the terminating zero is read. \<open>None\<close> is a byte that does not continue the sequence, after which the
  result is 0.\<close>

fun validate_cont :: "8 word \<Rightarrow> 32 word list \<Rightarrow> 64 word \<Rightarrow> 64 word \<Rightarrow> 64 word \<Rightarrow> (32 word list \<times> 64 word \<times> 64 word \<times> 64 word) option" where
  "validate_cont c [] ch full_mask hi_mask = (if has_flag c 0x40 then None else Some ([], ch, full_mask, hi_mask))"
| "validate_cont c (cc # cs) ch full_mask hi_mask =
     (if has_flag c 0x40 then
        if cc AND 0xc0 \<noteq> 0x80 then None
        else validate_cont (push_bit 1 c) cs (push_bit 6 ch OR ucast (cc AND 0x3f)) (full_mask OR push_bit 5 full_mask) (push_bit 5 hi_mask)
      else Some (cc # cs, ch, full_mask, hi_mask))"

lemma validate_cont_length: "validate_cont c cs ch f h = Some (ds, r) \<Longrightarrow> length ds \<le> length cs"
proof (induction cs arbitrary: c ch f h)
  case (Cons cc cs)
  then show ?case
    by (fastforce split: if_splits)
qed (auto split: if_splits)

definition validate_char :: "64 word \<Rightarrow> 64 word \<Rightarrow> 64 word \<Rightarrow> 64 word \<Rightarrow> 16 word \<Rightarrow> 16 word option" where
  "validate_char extended ch full_mask hi_mask expect_low_surrogate =
     (let ch = ch AND full_mask in
      if ch AND hi_mask = 0 \<or> ch < 0x80 then None
      else if ch AND NOT 0x7ff = 0xd800 then
        if extended AND 3 = 0 then None
        else if \<not> has_flag extended 1 \<and> ch AND 0x400 \<noteq> ucast expect_low_surrogate then None
        else Some (ucast ((ch AND 0x400) XOR 0x400))
      else if \<not> has_flag extended 1 \<and> expect_low_surrogate \<noteq> 0 then None
      else if ch \<ge> 0x110000 \<and> (\<not> has_flag extended 1 \<or> ch \<ge> 2 ^ 32) then None
      else Some expect_low_surrogate)"

function validate_loop :: "64 word \<Rightarrow> 32 word list \<Rightarrow> 16 word \<Rightarrow> bool" where
  "validate_loop extended [] expect_low_surrogate = (\<not> (\<not> has_flag extended 1 \<and> expect_low_surrogate \<noteq> 0))"
| "validate_loop extended (c # cs) expect_low_surrogate =
     (if \<not> has_flag c 0x80 then
        if expect_low_surrogate \<noteq> 0 then False else validate_loop extended cs expect_low_surrogate
      else if \<not> has_flag c 0x40 then False
      else if c = 0xff then False
      else
        (case validate_cont (ucast c) cs (ucast c) 0x3f 0x3e of
           None \<Rightarrow> False
         | Some (cs, ch, full_mask, hi_mask) \<Rightarrow>
             (case validate_char extended ch full_mask hi_mask expect_low_surrogate of
                None \<Rightarrow> False
              | Some expect_low_surrogate \<Rightarrow> validate_loop extended cs expect_low_surrogate)))"
  by pat_completeness auto
termination
  by (relation "measure (\<lambda>(extended, cs, e). length cs)") (auto dest!: validate_cont_length)

definition f_validate_utf8 :: "('a) pstr_scheme option \<Rightarrow> 64 word \<Rightarrow> bool result" where
  "f_validate_utf8 str extended =
     (case str of
        None \<Rightarrow> Inl Bad_Memory_Access
      | Some s \<Rightarrow>
          if size_shift s \<noteq> 0 then Inr False
          else
            (let (mn, mx) = snd (check_string_range s True True) in
             if mn \<ge> 0 \<and> mx \<le> 0x7f then Inr True else Inr (validate_loop extended (chars s) 0)))"

section \<open>Bytes and characters as numbers\<close>

lemma or_add:
  fixes a b :: "32 word"
  assumes "unat b < 2 ^ k" "2 ^ k dvd unat a" "unat a + unat b < 2 ^ 32"
  shows "unat (a OR b) = unat a + unat b"
proof -
  have "a AND b = 0"
  proof (rule bit_eqI)
    fix n
    have "\<not> bit a n \<or> \<not> bit b n"
    proof (cases "n < k")
      case True
      then have "take_bit k (unat a) = 0"
        using assms(2) by (simp add: take_bit_eq_mod)
      then have "\<not> bit (take_bit k (unat a)) n"
        by simp
      then show ?thesis
        using True by (simp add: bit_take_bit_iff bit_unsigned_iff)
    next
      case False
      have "\<not> bit (unat b) n"
        using assms(1) False by (metis bit_take_bit_iff take_bit_nat_eq_self_iff)
      then show ?thesis
        by (simp add: bit_unsigned_iff)
    qed
    then show "bit (a AND b) n = bit 0 n"
      by (simp add: bit_simps)
  qed
  then have "a OR b = a + b"
    by (simp add: disjunctive_add_eq_or)
  then show ?thesis
    using assms(3) by (simp add: unat_word_ariths)
qed

lemma unat_and_mask:
  fixes w :: "'a :: len word"
  assumes "m = push_bit k (mask j)" "k + j \<le> LENGTH('a)"
  shows "unat (w AND m) = unat w div 2 ^ k mod 2 ^ j * 2 ^ k"
proof -
  have "w AND m = push_bit k (take_bit j (drop_bit k w))"
    unfolding assms(1) by (rule bit_eqI) (auto simp: bit_simps)
  moreover have m: "min (LENGTH('a) - k) j = j"
    using assms(2) by simp
  moreover have "unat (push_bit k (take_bit j (drop_bit k w))) = push_bit k (take_bit j (drop_bit k (unat w)))"
    by (simp add: unsigned_push_bit_eq unsigned_take_bit_eq unat_drop_bit_eq take_bit_push_bit m)
  ultimately show ?thesis
    by (simp add: push_bit_eq_mult take_bit_eq_mod drop_bit_eq_div)
qed

text \<open>The masks that occur, for words of 32 bits.\<close>

lemma unat_masks:
  fixes w :: "32 word"
  shows "unat (w AND 0x80) = unat w div 2 ^ 7 mod 2 ^ 1 * 2 ^ 7" "unat (w AND 0xc0) = unat w div 2 ^ 6 mod 2 ^ 2 * 2 ^ 6"
    "unat (w AND 0xe0) = unat w div 2 ^ 5 mod 2 ^ 3 * 2 ^ 5" "unat (w AND 0xf0) = unat w div 2 ^ 4 mod 2 ^ 4 * 2 ^ 4"
    "unat (w AND 0xf8) = unat w div 2 ^ 3 mod 2 ^ 5 * 2 ^ 3" "unat (w AND 0xfc) = unat w div 2 ^ 2 mod 2 ^ 6 * 2 ^ 2"
    "unat (w AND 0xfe) = unat w div 2 ^ 1 mod 2 ^ 7 * 2 ^ 1" "unat (w AND 0x1e) = unat w div 2 ^ 1 mod 2 ^ 4 * 2 ^ 1"
    "unat (w AND 0x1c) = unat w div 2 ^ 2 mod 2 ^ 3 * 2 ^ 2" "unat (w AND 0x10) = unat w div 2 ^ 4 mod 2 ^ 1 * 2 ^ 4"
    "unat (w AND 0x20) = unat w div 2 ^ 5 mod 2 ^ 1 * 2 ^ 5" "unat (w AND 0x30) = unat w div 2 ^ 4 mod 2 ^ 2 * 2 ^ 4"
    "unat (w AND 0x38) = unat w div 2 ^ 3 mod 2 ^ 3 * 2 ^ 3" "unat (w AND 0x3c) = unat w div 2 ^ 2 mod 2 ^ 4 * 2 ^ 2"
    "unat (w AND 0x3e) = unat w div 2 ^ 1 mod 2 ^ 5 * 2 ^ 1" "unat (w AND 0x40) = unat w div 2 ^ 6 mod 2 ^ 1 * 2 ^ 6"
    "unat (w AND 0xfc00) = unat w div 2 ^ 10 mod 2 ^ 6 * 2 ^ 10"
    "unat (w AND 0x3f) = unat w div 2 ^ 0 mod 2 ^ 6 * 2 ^ 0" "unat (w AND 0x1f) = unat w div 2 ^ 0 mod 2 ^ 5 * 2 ^ 0"
    "unat (w AND 0x0f) = unat w div 2 ^ 0 mod 2 ^ 4 * 2 ^ 0" "unat (w AND 0x07) = unat w div 2 ^ 0 mod 2 ^ 3 * 2 ^ 0"
    "unat (w AND 0x03) = unat w div 2 ^ 0 mod 2 ^ 2 * 2 ^ 0" "unat (w AND 0x01) = unat w div 2 ^ 0 mod 2 ^ 1 * 2 ^ 0"
    "unat (w AND 0x3ff) = unat w div 2 ^ 0 mod 2 ^ 10 * 2 ^ 0" "unat (w AND 0xff) = unat w div 2 ^ 0 mod 2 ^ 8 * 2 ^ 0"
    "unat (w AND 0xffff) = unat w div 2 ^ 0 mod 2 ^ 16 * 2 ^ 0"
  by (rule unat_and_mask; simp add: mask_eq_exp_minus_1)+

lemma and_not_low:
  fixes w :: "32 word"
  shows "w AND NOT 0x7f = 0 \<longleftrightarrow> unat w < 0x80" "w AND NOT 0x7ff = 0 \<longleftrightarrow> unat w < 0x800" "w AND NOT 0xffff = 0 \<longleftrightarrow> unat w < 0x10000"
    "w AND NOT 0x1fffff = 0 \<longleftrightarrow> unat w < 0x200000" "w AND NOT 0x3ffffff = 0 \<longleftrightarrow> unat w < 0x4000000"
    "w AND NOT 0x7fffffff = 0 \<longleftrightarrow> unat w < 0x80000000"
proof -
  have m: "w AND NOT (mask k) = 0 \<longleftrightarrow> unat w < 2 ^ k" if "k \<le> 32" for k
  proof -
    have "w AND NOT (mask k) = 0 \<longleftrightarrow> take_bit k w = w"
    proof
      assume z: "w AND NOT (mask k) = 0"
      have "w = (w AND mask k) OR (w AND NOT (mask k))"
        by (rule bit_eqI) (auto simp: bit_simps)
      then show "take_bit k w = w"
        using z by (simp add: take_bit_eq_mask)
    next
      assume t: "take_bit k w = w"
      have "take_bit k w AND NOT (mask k) = 0"
        by (rule bit_eqI) (auto simp: bit_simps)
      then show "w AND NOT (mask k) = 0"
        by (simp add: t)
    qed
    also have "\<dots> \<longleftrightarrow> unat w mod 2 ^ k = unat w"
      by (simp add: word_unat_eq_iff unsigned_take_bit_eq) (simp add: take_bit_eq_mod)
    also have "\<dots> \<longleftrightarrow> unat w < 2 ^ k"
      using mod_less_divisor [of "2 ^ k" "unat w"] by (auto simp del: mod_less_divisor)
    finally show ?thesis .
  qed
  show "w AND NOT 0x7f = 0 \<longleftrightarrow> unat w < 0x80"
    using m [of 7] by (simp add: mask_eq_exp_minus_1)
  show "w AND NOT 0x7ff = 0 \<longleftrightarrow> unat w < 0x800"
    using m [of 11] by (simp add: mask_eq_exp_minus_1)
  show "w AND NOT 0xffff = 0 \<longleftrightarrow> unat w < 0x10000"
    using m [of 16] by (simp add: mask_eq_exp_minus_1)
  show "w AND NOT 0x1fffff = 0 \<longleftrightarrow> unat w < 0x200000"
    using m [of 21] by (simp add: mask_eq_exp_minus_1)
  show "w AND NOT 0x3ffffff = 0 \<longleftrightarrow> unat w < 0x4000000"
    using m [of 26] by (simp add: mask_eq_exp_minus_1)
  show "w AND NOT 0x7fffffff = 0 \<longleftrightarrow> unat w < 0x80000000"
    using m [of 31] by (simp add: mask_eq_exp_minus_1)
qed

definition wn :: "nat \<Rightarrow> 32 word" where
  "wn n = word_of_nat n"

lemma unat_wn [simp]: "n < 2 ^ 32 \<Longrightarrow> unat (wn n) = n"
  by (simp add: wn_def unat_of_nat)

lemma wn_eqI: "unat w = n \<Longrightarrow> w = wn n"
  by (auto simp: wn_def)

text \<open>The tests of the decoder on the bytes of each kind.\<close>

lemma cont_tests:
  assumes "x < 64"
  shows "has_flag (wn (128 + x)) 0x80" "wn (128 + x) AND 0xc0 = 0x80" "wn (128 + x) AND 0x3f = wn x"
    "has_flag (wn (128 + x)) 0x20 \<longleftrightarrow> 32 \<le> x" "has_flag (wn (128 + x)) 0x30 \<longleftrightarrow> 16 \<le> x"
    "has_flag (wn (128 + x)) 0x38 \<longleftrightarrow> 8 \<le> x" "has_flag (wn (128 + x)) 0x3c \<longleftrightarrow> 4 \<le> x"
    "has_flag (wn (128 + x)) 0x3e \<longleftrightarrow> 2 \<le> x" "wn (128 + x) AND 0xf0 = 0xb0 \<longleftrightarrow> 48 \<le> x"
    "has_flag (wn (128 + x)) 0x10 \<longleftrightarrow> odd (x div 16)" "wn (128 + x) > 0x8f \<longleftrightarrow> 16 \<le> x"
proof -
  have d: "(128 + x) div 128 = 1" "(128 + x) div 64 = 2" "(128 + x) div 32 = 4 + x div 32" "(128 + x) div 16 = 8 + x div 16"
      "(128 + x) div 8 = 16 + x div 8" "(128 + x) div 4 = 32 + x div 4" "(128 + x) div 2 = 64 + x div 2"
    using assms by simp_all
  have m: "(4 + q) mod 2 = q mod 2" "(8 + q) mod 4 = q mod 4" "(16 + q) mod 8 = q mod 8" "(32 + q) mod 16 = q mod 16" "(64 + q) mod 32 = q mod 32"
      "(8 + q) mod 2 = q mod 2" for q :: nat
    by (simp_all add: mod_add_left_eq [symmetric, of _ q])
  have u: "unat (wn (128 + x)) = 128 + x"
    using assms by simp
  note t = word_unat_eq_iff unat_masks u d m not_less
  show "has_flag (wn (128 + x)) 0x80" "wn (128 + x) AND 0xc0 = 0x80"
    by (simp_all add: t)
  have "(128 + x) mod 64 = x"
    using assms by (simp add: mod_add_left_eq [symmetric])
  then show "wn (128 + x) AND 0x3f = wn x"
    using assms by (simp add: word_unat_eq_iff unat_masks u)
  show "has_flag (wn (128 + x)) 0x20 \<longleftrightarrow> 32 \<le> x" "has_flag (wn (128 + x)) 0x30 \<longleftrightarrow> 16 \<le> x"
      "has_flag (wn (128 + x)) 0x38 \<longleftrightarrow> 8 \<le> x" "has_flag (wn (128 + x)) 0x3c \<longleftrightarrow> 4 \<le> x" "has_flag (wn (128 + x)) 0x3e \<longleftrightarrow> 2 \<le> x"
    using assms by (simp_all add: t div_eq_0_iff)
  have "x div 16 = 3 \<longleftrightarrow> 48 \<le> x"
    using less_eq_div_iff_mult_less_eq [of 16 3 x] assms by auto
  then show "wn (128 + x) AND 0xf0 = 0xb0 \<longleftrightarrow> 48 \<le> x"
    using assms by (simp add: t)
  show "has_flag (wn (128 + x)) 0x10 \<longleftrightarrow> odd (x div 16)"
    by (simp add: t odd_iff_mod_2_eq_one)
  show "wn (128 + x) > 0x8f \<longleftrightarrow> 16 \<le> x"
    unfolding word_less_nat_alt u by auto
qed

lemma cont_zero:
  assumes "x < 64"
  shows "wn (128 + x) AND 0x20 = 0 \<longleftrightarrow> x < 32" "wn (128 + x) AND 0x30 = 0 \<longleftrightarrow> x < 16" "wn (128 + x) AND 0x38 = 0 \<longleftrightarrow> x < 8"
    "wn (128 + x) AND 0x3c = 0 \<longleftrightarrow> x < 4" "wn (128 + x) AND 0x3e = 0 \<longleftrightarrow> x < 2"
  unfolding not_le [symmetric] using cont_tests(4-8) [OF assms] by blast+

lemma ascii_tests: "x < 128 \<Longrightarrow> \<not> has_flag (wn x) 0x80"
  by (simp add: word_unat_eq_iff unat_masks)

lemma lead11_tests:
  assumes "x < 32"
  shows "has_flag (wn (192 + x)) 0x80" "wn (192 + x) AND 0xc0 \<noteq> 0x80" "wn (192 + x) AND 0xe0 = 0xc0"
    "wn (192 + x) AND 0x1f = wn x" "has_flag (wn (192 + x)) 0x1e \<longleftrightarrow> 2 \<le> x" "has_flag (wn (192 + x)) 0x1c \<longleftrightarrow> 4 \<le> x"
proof -
  have d: "(192 + x) div 128 = 1" "(192 + x) div 64 = 3" "(192 + x) div 32 = 6" "(192 + x) div 2 = 96 + x div 2" "(192 + x) div 4 = 48 + x div 4"
    using assms by simp_all
  have m: "(96 + q) mod 16 = q mod 16" "(48 + q) mod 8 = q mod 8" for q :: nat
    by (simp_all add: mod_add_left_eq [symmetric, of _ q])
  have u: "unat (wn (192 + x)) = 192 + x"
    using assms by simp
  note t = word_unat_eq_iff unat_masks u d m not_less
  show "has_flag (wn (192 + x)) 0x80" "wn (192 + x) AND 0xc0 \<noteq> 0x80" "wn (192 + x) AND 0xe0 = 0xc0"
    by (simp_all add: t)
  have "(192 + x) mod 32 = x"
    using assms by (simp add: mod_add_left_eq [symmetric])
  then show "wn (192 + x) AND 0x1f = wn x"
    using assms by (simp add: word_unat_eq_iff unat_masks u)
  show "has_flag (wn (192 + x)) 0x1e \<longleftrightarrow> 2 \<le> x" "has_flag (wn (192 + x)) 0x1c \<longleftrightarrow> 4 \<le> x"
    using assms by (simp_all add: t div_eq_0_iff)
qed

lemma lead16_tests:
  assumes "x < 16"
  shows "has_flag (wn (224 + x)) 0x80" "wn (224 + x) AND 0xc0 \<noteq> 0x80" "wn (224 + x) AND 0xe0 \<noteq> 0xc0" "wn (224 + x) AND 0xf0 = 0xe0"
    "wn (224 + x) AND 0x0f = wn x" "wn (224 + x) = 0xe0 \<longleftrightarrow> x = 0" "wn (224 + x) = 0xed \<longleftrightarrow> x = 13"
proof -
  have d: "(224 + x) div 128 = 1" "(224 + x) div 64 = 3" "(224 + x) div 32 = 7" "(224 + x) div 16 = 14"
    using assms by simp_all
  have u: "unat (wn (224 + x)) = 224 + x"
    using assms by simp
  note t = word_unat_eq_iff unat_masks u d
  show "has_flag (wn (224 + x)) 0x80" "wn (224 + x) AND 0xc0 \<noteq> 0x80" "wn (224 + x) AND 0xe0 \<noteq> 0xc0" "wn (224 + x) AND 0xf0 = 0xe0"
      "wn (224 + x) = 0xe0 \<longleftrightarrow> x = 0" "wn (224 + x) = 0xed \<longleftrightarrow> x = 13"
    by (simp_all add: t)
  have "(224 + x) mod 16 = x"
    using assms by (simp add: mod_add_left_eq [symmetric])
  then show "wn (224 + x) AND 0x0f = wn x"
    using assms by (simp add: word_unat_eq_iff unat_masks u)
qed

lemma lead21_tests:
  assumes "x < 8"
  shows "has_flag (wn (240 + x)) 0x80" "wn (240 + x) AND 0xc0 \<noteq> 0x80" "wn (240 + x) AND 0xe0 \<noteq> 0xc0" "wn (240 + x) AND 0xf0 \<noteq> 0xe0"
    "wn (240 + x) AND 0xf8 = 0xf0" "wn (240 + x) AND 0x07 = wn x" "wn (240 + x) = 0xf0 \<longleftrightarrow> x = 0" "wn (240 + x) > 0xf4 \<longleftrightarrow> x > 4"
    "wn (240 + x) = 0xf4 \<longleftrightarrow> x = 4"
proof -
  have d: "(240 + x) div 128 = 1" "(240 + x) div 64 = 3" "(240 + x) div 32 = 7" "(240 + x) div 16 = 15" "(240 + x) div 8 = 30"
    using assms by simp_all
  have u: "unat (wn (240 + x)) = 240 + x"
    using assms by simp
  note t = word_unat_eq_iff unat_masks u d
  show "has_flag (wn (240 + x)) 0x80" "wn (240 + x) AND 0xc0 \<noteq> 0x80" "wn (240 + x) AND 0xe0 \<noteq> 0xc0" "wn (240 + x) AND 0xf0 \<noteq> 0xe0"
      "wn (240 + x) AND 0xf8 = 0xf0" "wn (240 + x) = 0xf0 \<longleftrightarrow> x = 0" "wn (240 + x) = 0xf4 \<longleftrightarrow> x = 4"
    by (simp_all add: t)
  show "wn (240 + x) > 0xf4 \<longleftrightarrow> x > 4"
    unfolding word_less_nat_alt u by auto
  have "(240 + x) mod 8 = x"
    using assms by (simp add: mod_add_left_eq [symmetric])
  then show "wn (240 + x) AND 0x07 = wn x"
    using assms by (simp add: word_unat_eq_iff unat_masks u)
qed

lemma lead26_tests:
  assumes "x < 4"
  shows "has_flag (wn (248 + x)) 0x80" "wn (248 + x) AND 0xc0 \<noteq> 0x80" "wn (248 + x) AND 0xe0 \<noteq> 0xc0" "wn (248 + x) AND 0xf0 \<noteq> 0xe0"
    "wn (248 + x) AND 0xf8 \<noteq> 0xf0" "wn (248 + x) AND 0xfc = 0xf8" "wn (248 + x) AND 0x03 = wn x" "wn (248 + x) = 0xf8 \<longleftrightarrow> x = 0"
    "wn (248 + x) \<noteq> 0xff"
proof -
  have d: "(248 + x) div 128 = 1" "(248 + x) div 64 = 3" "(248 + x) div 32 = 7" "(248 + x) div 16 = 15" "(248 + x) div 8 = 31" "(248 + x) div 4 = 62"
    using assms by simp_all
  have u: "unat (wn (248 + x)) = 248 + x"
    using assms by simp
  note t = word_unat_eq_iff unat_masks u d
  show "has_flag (wn (248 + x)) 0x80" "wn (248 + x) AND 0xc0 \<noteq> 0x80" "wn (248 + x) AND 0xe0 \<noteq> 0xc0" "wn (248 + x) AND 0xf0 \<noteq> 0xe0"
      "wn (248 + x) AND 0xf8 \<noteq> 0xf0" "wn (248 + x) AND 0xfc = 0xf8" "wn (248 + x) = 0xf8 \<longleftrightarrow> x = 0" "wn (248 + x) \<noteq> 0xff"
    using assms by (simp_all add: t)
  have "(248 + x) mod 4 = x"
    using assms by (simp add: mod_add_left_eq [symmetric])
  then show "wn (248 + x) AND 0x03 = wn x"
    using assms by (simp add: word_unat_eq_iff unat_masks u)
qed

lemma lead31_tests:
  assumes "x < 2"
  shows "has_flag (wn (252 + x)) 0x80" "wn (252 + x) AND 0xc0 \<noteq> 0x80" "wn (252 + x) AND 0xe0 \<noteq> 0xc0" "wn (252 + x) AND 0xf0 \<noteq> 0xe0"
    "wn (252 + x) AND 0xf8 \<noteq> 0xf0" "wn (252 + x) AND 0xfc \<noteq> 0xf8" "wn (252 + x) AND 0xfe = 0xfc" "wn (252 + x) AND 0x01 = wn x"
    "wn (252 + x) = 0xfc \<longleftrightarrow> x = 0" "wn (252 + x) \<noteq> 0xff"
proof -
  have "x = 0 \<or> x = 1"
    using assms by linarith
  then show "has_flag (wn (252 + x)) 0x80" "wn (252 + x) AND 0xc0 \<noteq> 0x80" "wn (252 + x) AND 0xe0 \<noteq> 0xc0" "wn (252 + x) AND 0xf0 \<noteq> 0xe0"
    "wn (252 + x) AND 0xf8 \<noteq> 0xf0" "wn (252 + x) AND 0xfc \<noteq> 0xf8" "wn (252 + x) AND 0xfe = 0xfc" "wn (252 + x) AND 0x01 = wn x"
    "wn (252 + x) = 0xfc \<longleftrightarrow> x = 0" "wn (252 + x) \<noteq> 0xff"
    by (auto simp: wn_def)
qed

section \<open>The bytes of a character\<close>

abbreviation digit :: "nat \<Rightarrow> nat \<Rightarrow> nat" where
  "digit k n \<equiv> n div 2 ^ k mod 64"

lemma wn_unat [simp]: "wn (unat c) = c"
  by (simp add: wn_def)

lemma or_wn:
  assumes "x < 2 ^ k" "2 ^ k dvd h" "h + x < 2 ^ 32"
  shows "wn h OR wn x = wn (h + x)"
  by (rule wn_eqI) (use assms in \<open>simp add: or_add [of "wn x" k]\<close>)

lemma drop_bit_wn:
  assumes "n < 2 ^ 32"
  shows "drop_bit k (wn n) = wn (n div 2 ^ k)"
proof (rule wn_eqI)
  have "unat (drop_bit k (wn n)) = drop_bit k (unat (wn n))"
    by (rule unat_drop_bit_eq)
  then show "unat (drop_bit k (wn n)) = n div 2 ^ k"
    unfolding unat_wn [OF assms] drop_bit_eq_div .
qed

lemma and_63_wn: "n < 2 ^ 32 \<Longrightarrow> wn n AND 0x3f = wn (n mod 64)"
  by (rule wn_eqI) (simp add: unat_masks)

lemma numeral_wn:
  "0x80 = wn 128" "0xc0 = wn 192" "0xe0 = wn 224" "0xf0 = wn 240" "0xf8 = wn 248" "0xfc = wn 252"
  by (simp_all add: wn_def)

lemma cont_byte_wn:
  assumes "n < 2 ^ 32"
  shows "cont_byte k (wn n) = wn (128 + digit k n)"
proof -
  have "n div 2 ^ k < 2 ^ 32"
    using assms by (meson div_le_dividend le_less_trans)
  then have "cont_byte k (wn n) = wn 128 OR wn (digit k n)"
    unfolding cont_byte_def drop_bit_wn [OF assms] by (simp only: and_63_wn numeral_wn(1))
  moreover have d: "digit k n < 64"
    by simp
  moreover have "128 + digit k n < 2 ^ 32"
    using d by (rule order.strict_trans2 [OF add_strict_left_mono]) simp
  ultimately show ?thesis
    using or_wn [of "digit k n" 6 128] by simp
qed

lemma lead_wn:
  assumes "n < 2 ^ 32"
  shows "n < 0x800 \<Longrightarrow> 0xc0 OR drop_bit 6 (wn n) = wn (192 + n div 2 ^ 6)"
    "n < 0x10000 \<Longrightarrow> 0xe0 OR drop_bit 12 (wn n) = wn (224 + n div 2 ^ 12)"
    "n < 0x200000 \<Longrightarrow> 0xf0 OR drop_bit 18 (wn n) = wn (240 + n div 2 ^ 18)"
    "n < 0x4000000 \<Longrightarrow> 0xf8 OR drop_bit 24 (wn n) = wn (248 + n div 2 ^ 24)"
    "n < 0x80000000 \<Longrightarrow> 0xfc OR drop_bit 30 (wn n) = wn (252 + n div 2 ^ 30)"
proof -
  have l: "wn h OR drop_bit k (wn n) = wn (h + n div 2 ^ k)" if "n < 2 ^ j * 2 ^ k" "2 ^ j dvd h" "h < 256" "j \<le> 5" for h j k
  proof -
    have q: "n div 2 ^ k < 2 ^ j"
      using that(1) by (rule less_mult_imp_div_less)
    moreover have "(2::nat) ^ j \<le> 2 ^ 5"
      using that(4) by (rule power_increasing) simp
    ultimately have "n div 2 ^ k < 32"
      by simp
    then have "h + n div 2 ^ k < 2 ^ 32"
      using that(3) by simp
    then show ?thesis
      unfolding drop_bit_wn [OF assms] by (rule or_wn [OF q that(2)])
  qed
  show "n < 0x800 \<Longrightarrow> 0xc0 OR drop_bit 6 (wn n) = wn (192 + n div 2 ^ 6)"
    unfolding numeral_wn by (rule l [of 5]; simp)
  show "n < 0x10000 \<Longrightarrow> 0xe0 OR drop_bit 12 (wn n) = wn (224 + n div 2 ^ 12)"
    unfolding numeral_wn by (rule l [of 4]; simp)
  show "n < 0x200000 \<Longrightarrow> 0xf0 OR drop_bit 18 (wn n) = wn (240 + n div 2 ^ 18)"
    unfolding numeral_wn by (rule l [of 3]; simp)
  show "n < 0x4000000 \<Longrightarrow> 0xf8 OR drop_bit 24 (wn n) = wn (248 + n div 2 ^ 24)"
    unfolding numeral_wn by (rule l [of 2]; simp)
  show "n < 0x80000000 \<Longrightarrow> 0xfc OR drop_bit 30 (wn n) = wn (252 + n div 2 ^ 30)"
    unfolding numeral_wn by (rule l [of 1]; simp)
qed

lemma utf8_char_wn:
  assumes "n < 2 ^ 32"
  shows "n < 0x80 \<Longrightarrow> utf8_char e (wn n) = [wn n]"
    "0x80 \<le> n \<Longrightarrow> n < 0x800 \<Longrightarrow> utf8_char e (wn n) = [wn (192 + n div 2 ^ 6), wn (128 + digit 0 n)]"
    "0x800 \<le> n \<Longrightarrow> n < 0x10000 \<Longrightarrow>
      utf8_char e (wn n) = [wn (224 + n div 2 ^ 12), wn (128 + digit 6 n), wn (128 + digit 0 n)]"
    "0x10000 \<le> n \<Longrightarrow> n < 0x200000 \<Longrightarrow> \<not> (has_flag e 2 \<and> n \<le> 0x10ffff) \<Longrightarrow>
      utf8_char e (wn n) = [wn (240 + n div 2 ^ 18), wn (128 + digit 12 n), wn (128 + digit 6 n), wn (128 + digit 0 n)]"
    "0x200000 \<le> n \<Longrightarrow> n < 0x4000000 \<Longrightarrow>
      utf8_char e (wn n) = [wn (248 + n div 2 ^ 24), wn (128 + digit 18 n), wn (128 + digit 12 n), wn (128 + digit 6 n), wn (128 + digit 0 n)]"
    "0x4000000 \<le> n \<Longrightarrow> n < 0x80000000 \<Longrightarrow>
      utf8_char e (wn n) = [wn (252 + n div 2 ^ 30), wn (128 + digit 24 n), wn (128 + digit 18 n), wn (128 + digit 12 n), wn (128 + digit 6 n),
        wn (128 + digit 0 n)]"
    "0x80000000 \<le> n \<Longrightarrow>
      utf8_char e (wn n) = [0xfe, wn (128 + digit 30 n), wn (128 + digit 24 n), wn (128 + digit 18 n), wn (128 + digit 12 n), wn (128 + digit 6 n),
        wn (128 + digit 0 n)]"
proof -
  have u: "unat (wn n) = n"
    using assms by simp
  have le: "wn n \<le> 0x10ffff \<longleftrightarrow> n \<le> 0x10ffff"
    by (simp add: word_le_nat_alt u)
  note t = utf8_char_def and_not_low u le cont_byte_wn [OF assms] lead_wn [OF assms]
  show "n < 0x80 \<Longrightarrow> utf8_char e (wn n) = [wn n]"
    unfolding t by simp
  show "0x80 \<le> n \<Longrightarrow> n < 0x800 \<Longrightarrow> utf8_char e (wn n) = [wn (192 + n div 2 ^ 6), wn (128 + digit 0 n)]"
    unfolding t by simp
  show "0x800 \<le> n \<Longrightarrow> n < 0x10000 \<Longrightarrow>
      utf8_char e (wn n) = [wn (224 + n div 2 ^ 12), wn (128 + digit 6 n), wn (128 + digit 0 n)]"
    unfolding t by simp
  show "0x10000 \<le> n \<Longrightarrow> n < 0x200000 \<Longrightarrow> \<not> (has_flag e 2 \<and> n \<le> 0x10ffff) \<Longrightarrow>
      utf8_char e (wn n) = [wn (240 + n div 2 ^ 18), wn (128 + digit 12 n), wn (128 + digit 6 n), wn (128 + digit 0 n)]"
    unfolding t by auto
  show "0x200000 \<le> n \<Longrightarrow> n < 0x4000000 \<Longrightarrow>
      utf8_char e (wn n) = [wn (248 + n div 2 ^ 24), wn (128 + digit 18 n), wn (128 + digit 12 n), wn (128 + digit 6 n), wn (128 + digit 0 n)]"
    unfolding t by simp
  show "0x4000000 \<le> n \<Longrightarrow> n < 0x80000000 \<Longrightarrow>
      utf8_char e (wn n) = [wn (252 + n div 2 ^ 30), wn (128 + digit 24 n), wn (128 + digit 18 n), wn (128 + digit 12 n), wn (128 + digit 6 n),
        wn (128 + digit 0 n)]"
    unfolding t by simp
  show "0x80000000 \<le> n \<Longrightarrow>
      utf8_char e (wn n) = [0xfe, wn (128 + digit 30 n), wn (128 + digit 24 n), wn (128 + digit 18 n), wn (128 + digit 12 n), wn (128 + digit 6 n),
        wn (128 + digit 0 n)]"
    unfolding t by simp
qed

text \<open>The two surrogates of a character.\<close>

lemma utf8_char_pair:
  assumes "0x10000 \<le> n" "n \<le> 0x10ffff" "has_flag e 2"
  defines "p \<equiv> n - 0x10000"
  shows "utf8_char e (wn n) =
    [0xed, wn (160 + p div 2 ^ 16), wn (128 + digit 10 p), 0xed, wn (176 + p div 2 ^ 6 mod 16), wn (128 + digit 0 p)]"
proof -
  have u: "unat (wn n) = n"
    using assms by simp
  have p: "p < 2 ^ 32" "p < 2 ^ 20"
    using assms by simp_all
  have le: "wn n \<le> 0x10ffff"
    using assms(2) by (simp add: word_le_nat_alt u)
  have "wn n - 0x10000 = wn p"
    using assms(1) by (simp add: wn_def p_def of_nat_diff)
  moreover have "0xa0 OR drop_bit 16 (wn p) = wn (160 + p div 2 ^ 16)"
  proof -
    have q: "p div 2 ^ 16 < 2 ^ 4"
      using p(2) by (intro less_mult_imp_div_less) simp
    then have "wn 160 OR wn (p div 2 ^ 16) = wn (160 + p div 2 ^ 16)"
      by (intro or_wn [OF q]) simp_all
    then show ?thesis
      unfolding drop_bit_wn [OF p(1)] by (simp add: wn_def)
  qed
  moreover have "0xb0 OR (drop_bit 6 (wn p) AND 0x3f) = wn (176 + p div 2 ^ 6 mod 16)"
  proof -
    have abs: "(a OR c) OR (w AND (b OR c)) = (a OR c) OR (w AND b)" for a b c w :: "32 word"
      by (rule bit_eqI) (auto simp: bit_simps)
    have "(0xb0 :: 32 word) OR (w AND 0x3f) = 0xb0 OR (w AND 0xf)" for w
      using abs [of "0xb0" "0x30" w "0xf"] by simp
    moreover have "drop_bit 6 (wn p) AND 0xf = wn (p div 2 ^ 6 mod 16)"
      by (rule wn_eqI) (use p in \<open>simp add: drop_bit_wn unat_masks\<close>)
    moreover have "p div 2 ^ 6 mod 16 < 2 ^ 4"
      by simp
    then have "wn 176 OR wn (p div 2 ^ 6 mod 16) = wn (176 + p div 2 ^ 6 mod 16)"
      by (intro or_wn [of _ 4]) simp_all
    ultimately show ?thesis
      by (simp add: wn_def)
  qed
  ultimately show ?thesis
    using assms(1,3) le unfolding utf8_char_def and_not_low u by (simp add: Let_def cont_byte_wn [OF p(1)])
qed

section \<open>Scanning what has been encoded\<close>

lemma get_cont_wn [simp]: "x < 64 \<Longrightarrow> get_cont_char (wn (128 + x) # cs) = Inr (wn (128 + x), cs)"
  by (simp add: get_cont_char_def cont_tests)

lemma get_cont_digits [simp]:
  "get_cont_chars (Suc k) (wn (128 + digit j n) # cs) = get_cont_chars k cs"
  by simp

lemma get_cont_chars_wn [simp]:
  assumes "x < 64"
  shows "get_cont_chars (numeral k) (wn (128 + x) # cs) = get_cont_chars (pred_numeral k) cs"
    "get_cont_chars 1 (wn (128 + x) # cs) = Inr cs"
proof -
  show "get_cont_chars (numeral k) (wn (128 + x) # cs) = get_cont_chars (pred_numeral k) cs"
    unfolding numeral_eq_Suc [of k] using assms by (simp only: get_cont_chars.simps get_cont_wn bind_result_simps prod.case)
  show "get_cont_chars 1 (wn (128 + x) # cs) = Inr cs"
    unfolding One_nat_def using assms by (simp only: get_cont_chars.simps get_cont_wn bind_result_simps prod.case)
qed

lemma min_magnitude_wn:
  assumes "n < 2 ^ 32"
  shows "min_magnitude (wn n) = (if n < 256 then 0 else if n < 65536 then 1 else 2)"
  using assms by (simp add: min_magnitude_def word_less_nat_alt)

lemma utf8_extra_wn:
  assumes "n < 2 ^ 32"
  shows "utf8_extra e (wn n) =
    (if n < 0x80 then Inr 0 else if n < 0x800 then Inr 1
     else if n < 0x10000 then if \<not> has_flag e 1 \<and> 0xd800 \<le> n \<and> n \<le> 0xdfff then Inl Surrogate_Character else Inr 2
     else if \<not> has_flag e 1 \<and> 0x10ffff < n then Inl Char_Out_Of_Range
     else if has_flag e 2 \<and> n \<le> 0x10ffff then Inr 5
     else if n < 0x200000 then Inr 3 else if n < 0x4000000 then Inr 4 else if n < 0x80000000 then Inr 5 else Inr 6)"
proof -
  have u: "unat (wn n) = n"
    using assms by simp
  have "wn n > 0x10ffff \<longleftrightarrow> 0x10ffff < n" "wn n \<le> 0x10ffff \<longleftrightarrow> n \<le> 0x10ffff" "wn n \<ge> 0xd800 \<longleftrightarrow> 0xd800 \<le> n" "wn n \<le> 0xdfff \<longleftrightarrow> n \<le> 0xdfff"
    by (simp_all add: word_less_nat_alt word_le_nat_alt u)
  then show ?thesis
    unfolding utf8_extra_def and_not_low u by simp
qed

lemma scan_ascii: "n < 0x80 \<Longrightarrow> utf8_scan e (wn n # rest) m s = utf8_scan e rest (m + 1) s"
  by (simp add: ascii_tests)

lemma scan_11:
  assumes "0x80 \<le> n" "n < 0x800"
  shows "utf8_scan e (utf8_char e (wn n) @ rest) m s = utf8_scan e rest (m + 1) (max s (min_magnitude (wn n)))"
proof -
  define x where "x = n div 2 ^ 6"
  have x: "x < 32" "2 \<le> x" "4 \<le> x \<longleftrightarrow> 256 \<le> n"
    using assms less_eq_div_iff_mult_less_eq [of 64 2 n] less_eq_div_iff_mult_less_eq [of 64 4 n] by (auto simp: x_def)
  have c: "utf8_char e (wn n) = [wn (192 + x), wn (128 + digit 0 n)]"
    unfolding x_def by (rule utf8_char_wn) (use assms in simp_all)
  have "min_magnitude (wn n) = (if 4 \<le> x then 1 else 0)"
    using assms x(3) by (simp add: min_magnitude_wn)
  then show ?thesis
    unfolding c using x(2) by (auto simp: utf8_lead_def lead11_tests [OF x(1)] simp del: power_0)
qed

lemma digit_split: "n = n div 2 ^ (k + 6) * 2 ^ (k + 6) + digit k n * 2 ^ k + n mod 2 ^ k"
proof -
  define q d where qd: "q = n div 2 ^ (k + 6)" "d = digit k n"
  have "q = n div 2 ^ k div 64"
    by (simp add: qd power_add div_mult2_eq)
  then have "n div 2 ^ k = q * 64 + d"
    using div_mult_mod_eq [of "n div 2 ^ k" 64] by (simp add: qd)
  then have "n = (q * 64 + d) * 2 ^ k + n mod 2 ^ k"
    using div_mult_mod_eq [of n "2 ^ k"] by simp
  also have "(q * 64 + d) * 2 ^ k = q * 2 ^ (k + 6) + d * 2 ^ k"
    by (simp add: power_add algebra_simps)
  finally show ?thesis
    by (simp only: qd)
qed

lemma scan_16:
  assumes "0x800 \<le> n" "n < 0x10000" "has_flag e 1 \<or> n < 0xd800 \<or> 0xdfff < n"
  shows "utf8_scan e (utf8_char e (wn n) @ rest) m s = utf8_scan e rest (m + 1) (max s (min_magnitude (wn n)))"
proof -
  define x where "x = n div 2 ^ 12"
  define d where "d = digit 6 n"
  have n: "n = x * 4096 + d * 64 + n mod 64"
    using digit_split [of n 6] by (simp add: x_def d_def)
  have r: "n mod 64 < 64" "d < 64"
    by (simp_all add: d_def)
  have x: "x < 16" "x = 0 \<Longrightarrow> 32 \<le> d"
    using n r assms(1,2) by linarith+
  have "n < 0xd800 \<Longrightarrow> x = 13 \<Longrightarrow> d < 32" "0xdfff < n \<Longrightarrow> x = 13 \<Longrightarrow> d < 32"
    using n r by linarith+
  then have x': "\<not> has_flag e 1 \<Longrightarrow> x = 13 \<Longrightarrow> d < 32"
    using assms(3) by blast
  have c: "utf8_char e (wn n) = [wn (224 + x), wn (128 + d), wn (128 + digit 0 n)]"
    unfolding x_def d_def by (rule utf8_char_wn) (use assms in simp_all)
  let ?cs = "wn (128 + digit 0 n) # rest"
  have "utf8_lead16 e (wn (224 + x)) (wn (128 + d) # ?cs) s =
    (if x = 0 \<or> x = 13 \<and> \<not> has_flag e 1 then Inr (1, ?cs, max s 1) else Inr (2, wn (128 + d) # ?cs, max s 1))"
    unfolding utf8_lead16_def lead16_tests [OF x(1)] get_cont_wn [OF r(2)] using x(2) x'
    by (cases "x = 0") (auto simp: cont_zero [OF r(2)] max_def simp del: power_0 power_Suc)
  then have "utf8_lead e (wn (224 + x)) (wn (128 + d) # ?cs) s =
    (if x = 0 \<or> x = 13 \<and> \<not> has_flag e 1 then Inr (1, ?cs, max s 1) else Inr (2, wn (128 + d) # ?cs, max s 1))"
    unfolding utf8_lead_def using lead16_tests [OF x(1)] by (simp only: if_False if_True refl)
  moreover have "get_cont_chars 1 ?cs = Inr rest" "get_cont_chars 2 (wn (128 + d) # ?cs) = Inr rest"
    using r(2) by simp_all
  moreover have "min_magnitude (wn n) = 1"
    using assms by (simp add: min_magnitude_wn)
  ultimately show ?thesis
    unfolding c append_Cons append_Nil using lead16_tests(1) [OF x(1)] by (simp del: power_0 power_Suc)
qed

text \<open>The characters that need 32 bits.\<close>

lemma scan_wide:
  assumes "has_flag b 0x80" "b AND 0xc0 \<noteq> 0x80" "b AND 0xe0 \<noteq> 0xc0" "b AND 0xf0 \<noteq> 0xe0"
    "get_cont_chars k ds = Inr rest" "get_cont_chars k' ds' = Inr rest"
    "(if b AND 0xf8 = 0xf0 then utf8_lead21 e b cs
      else if b = 0xff then Inl Char_Out_Of_Range else if \<not> has_flag e 1 then Inl Outside_Utf8_Range else utf8_lead36 b cs) =
      (if P then Inr (k, ds) else Inr (k', ds'))" "s \<le> 2"
  shows "utf8_scan e (b # cs) m s = utf8_scan e rest (m + 1) 2"
proof -
  have "utf8_lead e b cs s = (if P then Inr (k, ds, 2) else Inr (k', ds', 2))"
    unfolding utf8_lead_def assms(7) using assms(2-4,8) by auto
  then show ?thesis
    using assms(1,5,6) by simp
qed

lemma min_magnitude_wide: "n < 2 ^ 32 \<Longrightarrow> 0x10000 \<le> n \<Longrightarrow> min_magnitude (wn n) = 2"
  by (simp add: min_magnitude_wn)

lemma scan_21:
  assumes "0x10000 \<le> n" "n < 0x200000" "\<not> (has_flag e 2 \<and> n \<le> 0x10ffff)" "has_flag e 1 \<or> n \<le> 0x10ffff" "s \<le> 2"
  shows "utf8_scan e (utf8_char e (wn n) @ rest) m s = utf8_scan e rest (m + 1) (max s (min_magnitude (wn n)))"
proof -
  define x where "x = n div 2 ^ 18"
  define d where "d = digit 12 n"
  have n: "n = x * 262144 + d * 4096 + n mod 4096"
    using digit_split [of n 12] by (simp add: x_def d_def)
  have r: "n mod 4096 < 4096" "d < 64"
    by (simp_all add: d_def)
  have x: "x < 8" "x = 0 \<Longrightarrow> 16 \<le> d"
    using n r assms(1,2) by linarith+
  have "n \<le> 0x10ffff \<Longrightarrow> x \<le> 4" "n \<le> 0x10ffff \<Longrightarrow> x = 4 \<Longrightarrow> d < 16"
    using n r by linarith+
  then have x': "\<not> has_flag e 1 \<Longrightarrow> x \<le> 4" "\<not> has_flag e 1 \<Longrightarrow> x = 4 \<Longrightarrow> d < 16"
    using assms(4) by blast+
  have c: "utf8_char e (wn n) = [wn (240 + x), wn (128 + d), wn (128 + digit 6 n), wn (128 + digit 0 n)]"
    unfolding x_def d_def by (rule utf8_char_wn) (use assms in simp_all)
  let ?cs = "wn (128 + digit 6 n) # wn (128 + digit 0 n) # rest"
  have "utf8_lead21 e (wn (240 + x)) (wn (128 + d) # ?cs) =
    (if x = 0 \<or> x = 4 \<and> \<not> has_flag e 1 then Inr (2, ?cs) else Inr (3, wn (128 + d) # ?cs))"
    unfolding utf8_lead21_def lead21_tests [OF x(1)] get_cont_wn [OF r(2)] using x(2) x' r(2)
    by (cases "x = 0") (auto simp: cont_zero [OF r(2)] cont_tests(11) [OF r(2)] simp del: power_0 power_Suc)
  then have "(if wn (240 + x) AND 0xf8 = 0xf0 then utf8_lead21 e (wn (240 + x)) (wn (128 + d) # ?cs) else X) =
    (if x = 0 \<or> x = 4 \<and> \<not> has_flag e 1 then Inr (2, ?cs) else Inr (3, wn (128 + d) # ?cs))" for X
    by (simp only: lead21_tests(5) [OF x(1)] if_True refl)
  moreover have "get_cont_chars 2 ?cs = Inr rest" "get_cont_chars 3 (wn (128 + d) # ?cs) = Inr rest"
    using r(2) by simp_all
  ultimately have "utf8_scan e (utf8_char e (wn n) @ rest) m s = utf8_scan e rest (m + 1) 2"
    unfolding c append_Cons append_Nil by (intro scan_wide [OF lead21_tests(1-4) [OF x(1)]]) (rule assms(5) | assumption)+
  then show ?thesis
    using assms(1,2,5) by (simp add: min_magnitude_wide)
qed

lemma scan_36:
  assumes "0x200000 \<le> n" "n < 2 ^ 32" "has_flag e 1" "s \<le> 2"
  shows "utf8_scan e (utf8_char e (wn n) @ rest) m s = utf8_scan e rest (m + 1) (max s (min_magnitude (wn n)))"
proof -
  have sh: "max s (min_magnitude (wn n)) = 2"
    using assms by (simp add: min_magnitude_wide)
  consider (a) "n < 0x4000000" | (b) "0x4000000 \<le> n" "n < 0x80000000" | (c) "0x80000000 \<le> n"
    by linarith
  then show ?thesis
  proof cases
    case a
    define x where "x = n div 2 ^ 24"
    define d where "d = digit 18 n"
    have n: "n = x * 2 ^ 24 + d * 2 ^ 18 + n mod 2 ^ 18"
      using digit_split [of n 18] by (simp add: x_def d_def)
    have r: "n mod 2 ^ 18 < 2 ^ 18" "d < 64"
      by (simp_all add: d_def)
    have x: "x < 4" "x = 0 \<Longrightarrow> 8 \<le> d"
      using n r assms(1) a by simp_all
    have c: "utf8_char e (wn n) = [wn (248 + x), wn (128 + d), wn (128 + digit 12 n), wn (128 + digit 6 n), wn (128 + digit 0 n)]"
      unfolding x_def d_def by (rule utf8_char_wn) (use assms a in simp_all)
    let ?cs = "wn (128 + digit 12 n) # wn (128 + digit 6 n) # wn (128 + digit 0 n) # rest"
    note t = lead26_tests [OF x(1)]
    have "utf8_lead36 (wn (248 + x)) (wn (128 + d) # ?cs) = (if x = 0 then Inr (3, ?cs) else Inr (4, wn (128 + d) # ?cs))"
      unfolding utf8_lead36_def t get_cont_wn [OF r(2)] using x(2) by (cases "x = 0") (auto simp: cont_zero [OF r(2)] simp del: power_0 power_Suc)
    moreover have g: "get_cont_chars 3 ?cs = Inr rest" "get_cont_chars 4 (wn (128 + d) # ?cs) = Inr rest"
      using r(2) by simp_all
    ultimately show ?thesis
      unfolding c append_Cons append_Nil sh
      by (intro scan_wide [where P = "x = 0", OF t(1-4) g _ assms(4)]) (simp only: t(5,9) assms(3) if_False simp_thms)
  next
    case b
    define x where "x = n div 2 ^ 30"
    define d where "d = digit 24 n"
    have n: "n = x * 2 ^ 30 + d * 2 ^ 24 + n mod 2 ^ 24"
      using digit_split [of n 24] by (simp add: x_def d_def)
    have r: "n mod 2 ^ 24 < 2 ^ 24" "d < 64"
      by (simp_all add: d_def)
    have x: "x < 2" "x = 0 \<Longrightarrow> 4 \<le> d"
      using n r b by simp_all
    have c: "utf8_char e (wn n) =
        [wn (252 + x), wn (128 + d), wn (128 + digit 18 n), wn (128 + digit 12 n), wn (128 + digit 6 n), wn (128 + digit 0 n)]"
      unfolding x_def d_def by (rule utf8_char_wn) (use assms b in simp_all)
    let ?cs = "wn (128 + digit 18 n) # wn (128 + digit 12 n) # wn (128 + digit 6 n) # wn (128 + digit 0 n) # rest"
    note t = lead31_tests [OF x(1)]
    have "utf8_lead36 (wn (252 + x)) (wn (128 + d) # ?cs) = (if x = 0 then Inr (4, ?cs) else Inr (5, wn (128 + d) # ?cs))"
      unfolding utf8_lead36_def get_cont_wn [OF r(2)] using x(2) t by (cases "x = 0") (auto simp: cont_zero [OF r(2)] simp del: power_0 power_Suc)
    moreover have g: "get_cont_chars 4 ?cs = Inr rest" "get_cont_chars 5 (wn (128 + d) # ?cs) = Inr rest"
      using r(2) by simp_all
    ultimately show ?thesis
      unfolding c append_Cons append_Nil sh
      by (intro scan_wide [where P = "x = 0", OF t(1-4) g _ assms(4)]) (simp only: t(5,10) assms(3) if_False simp_thms)
  next
    case c
    define d where "d = digit 30 n"
    have d: "d < 64" "2 \<le> d" "d < 4"
      using c assms(2) by (auto simp: d_def)
    have c: "utf8_char e (wn n) =
        [0xfe, wn (128 + d), wn (128 + digit 24 n), wn (128 + digit 18 n), wn (128 + digit 12 n), wn (128 + digit 6 n), wn (128 + digit 0 n)]"
      unfolding d_def by (rule utf8_char_wn) (use assms c in simp_all)
    let ?cs = "wn (128 + digit 24 n) # wn (128 + digit 18 n) # wn (128 + digit 12 n) # wn (128 + digit 6 n) # wn (128 + digit 0 n) # rest"
    have "utf8_lead36 0xfe (wn (128 + d) # ?cs) = Inr (5, ?cs)"
      using d by (simp add: utf8_lead36_def cont_zero [OF d(1)] del: power_0 power_Suc)
    moreover have g: "get_cont_chars 5 ?cs = Inr rest"
      by simp
    ultimately show ?thesis
      unfolding c append_Cons append_Nil sh
      by (intro scan_wide [where P = True, OF _ _ _ _ g g _ assms(4)]) (simp_all add: assms(3))
  qed
qed

lemma scan_pair:
  assumes "0x10000 \<le> n" "n \<le> 0x10ffff" "has_flag e 2" "\<not> has_flag e 1" "s \<le> 2"
  shows "utf8_scan e (utf8_char e (wn n) @ rest) m s = utf8_scan e rest (m + 1) (max s (min_magnitude (wn n)))"
proof -
  define p y z where "p = n - 0x10000" "y = 32 + p div 2 ^ 16" "z = 48 + p div 2 ^ 6 mod 16"
  have y: "y < 64" "32 \<le> y" "even (y div 16)"
  proof -
    have "p div 2 ^ 16 < 16"
      using assms(1,2) by (intro less_mult_imp_div_less) (simp add: p_y_z_def)
    then have "y < 48" "32 \<le> y"
      by (simp_all only: p_y_z_def)
    moreover from this have "y div 16 = 2"
      by (intro div_nat_eqI) simp_all
    ultimately show "y < 64" "32 \<le> y" "even (y div 16)"
      by simp_all
  qed
  have z: "z < 64" "48 \<le> z"
    by (simp_all add: p_y_z_def)
  have "160 + p div 2 ^ 16 = 128 + y" "176 + p div 2 ^ 6 mod 16 = 128 + z"
    by (simp_all add: p_y_z_def)
  then have c: "utf8_char e (wn n) = [0xed, wn (128 + y), wn (128 + digit 10 p), 0xed, wn (128 + z), wn (128 + digit 0 p)]"
    using utf8_char_pair [OF assms(1-3)] by (simp only: p_y_z_def(1))
  have "max s (min_magnitude (wn n)) = 2"
    using assms by (simp add: min_magnitude_wn)
  moreover have "has_flag (wn (128 + y)) 0x20" "wn (128 + y) AND 0x10 = 0" "wn (128 + z) AND 0xf0 = 0xb0"
    using cont_tests(4,10) [OF y(1)] cont_tests(9) [OF z(1)] y(2,3) z(2) by auto
  moreover have "has_flag (0xed :: 32 word) 0x80" "(0xed :: 32 word) AND 0xc0 \<noteq> 0x80" "(0xed :: 32 word) AND 0xe0 \<noteq> 0xc0"
      "(0xed :: 32 word) AND 0xf0 = 0xe0"
    by simp_all
  ultimately show ?thesis
    unfolding c append_Cons append_Nil utf8_scan.simps(2) utf8_lead_def utf8_lead16_def utf8_surrogates_def
    using assms(3-5) y(1) z(1) by simp
qed

text \<open>Every character that is accepted, for one option or none.\<close>

abbreviation one_option :: "64 word \<Rightarrow> bool" where
  "one_option e \<equiv> \<not> (has_flag e 1 \<and> has_flag e 2)"

lemma unat_bound: "unat (c :: 32 word) < 2 ^ 32"
  using unsigned_less [of c] by simp

lemma scan_char:
  assumes "utf8_extra e c = Inr k" "one_option e" "s \<le> 2"
  shows "utf8_scan e (utf8_char e c @ rest) m s = utf8_scan e rest (m + 1) (max s (min_magnitude c)) \<and> length (utf8_char e c) = k + 1"
proof -
  obtain n where c: "c = wn n" and n: "n < 2 ^ 32"
    using unat_bound [of c] by (metis wn_unat)
  note k = assms(1) [unfolded c utf8_extra_wn [OF n]]
  have nb: "n < 4294967296"
    using n by simp
  consider (a) "n < 0x80" | (b) "0x80 \<le> n" "n < 0x800" | (c) "0x800 \<le> n" "n < 0x10000" |
      (d) "0x10000 \<le> n" "has_flag e 2 \<and> n \<le> 0x10ffff" | (e) "0x10000 \<le> n" "n < 0x200000" "\<not> (has_flag e 2 \<and> n \<le> 0x10ffff)" |
      (f) "0x200000 \<le> n" "n < 0x4000000" | (g) "0x4000000 \<le> n" "n < 0x80000000" | (h) "0x80000000 \<le> n"
    by linarith
  then show ?thesis
  proof cases
    case a
    then show ?thesis
      using k by (auto simp: c utf8_char_wn(1) [OF n] ascii_tests min_magnitude_wn split: if_splits)
  next
    case b
    then show ?thesis
      using k scan_11 [OF b] by (auto simp: c utf8_char_wn(2) [OF n])
  next
    case c': c
    have "has_flag e 1 \<or> n < 0xd800 \<or> 0xdfff < n" "k = 2"
      using k c' by (auto split: if_splits)
    then show ?thesis
      using scan_16 [OF c'] utf8_char_wn(3) [OF n c'] by (simp add: c)
  next
    case d
    then have "\<not> has_flag e 1" "k = 5"
      using k assms(2) by (auto split: if_splits)
    then show ?thesis
      using scan_pair [of n e s] utf8_char_pair [of n e] d assms(3) by (simp add: c)
  next
    case e
    have "has_flag e 1 \<or> n \<le> 0x10ffff" "k = 3"
      using k e by (auto split: if_splits)
    then show ?thesis
      using scan_21 [of n e s] utf8_char_wn(4) [OF n e] e assms(3) by (simp add: c)
  next
    case f
    have "has_flag e 1" "k = 4"
      using k f by (auto split: if_splits)
    then show ?thesis
      using scan_36 [of n e s] utf8_char_wn(5) [OF n f] f n assms(3) by (simp add: c)
  next
    case g
    have "has_flag e 1" "k = 5"
      using k g by (auto split: if_splits)
    then show ?thesis
      using scan_36 [of n e s] utf8_char_wn(6) [OF n g] g n assms(3) by (simp add: c)
  next
    case h
    have "has_flag e 1" "k = 6"
      using k h by (auto split: if_splits)
    then show ?thesis
      using scan_36 [of n e s] utf8_char_wn(7) [OF n h] h n assms(3) by (simp add: c)
  qed
qed

lemma find_magnitude2_Cons: "find_magnitude2 (c # cs) = max (min_magnitude c) (find_magnitude2 cs)"
proof -
  have "c < 256 \<Longrightarrow> c < 65536" "\<forall>c \<in> set cs. c < 256 \<Longrightarrow> \<forall>c \<in> set cs. c < 65536"
    using byte_char by blast+
  then show ?thesis
    unfolding find_magnitude2_cases min_magnitude_def by (cases "c < 256"; cases "\<forall>c \<in> set cs. c < 256") auto
qed

abbreviation utf8_bytes :: "64 word \<Rightarrow> 32 word list \<Rightarrow> 32 word list" where
  "utf8_bytes e cs \<equiv> concat (map (utf8_char e) cs)"

lemma scan_chars:
  assumes "utf8_length e cs l = Inr n" "one_option e" "s \<le> 2"
  shows "utf8_scan e (utf8_bytes e cs) m s = Inr (m + length cs, max s (find_magnitude2 cs)) \<and> n + length cs = l + length (utf8_bytes e cs)"
  using assms
proof (induction cs arbitrary: l m s)
  case (Cons c cs)
  obtain k where k: "utf8_extra e c = Inr k" "utf8_length e cs (l + k) = Inr n"
    using Cons.prems(1) by (cases "utf8_extra e c") auto
  have "min_magnitude c \<le> 2"
    by (simp add: min_magnitude_def)
  then show ?case
    using Cons.IH [OF k(2) assms(2), of "max s (min_magnitude c)" "m + 1"] scan_char [OF k(1) assms(2), of s "utf8_bytes e cs" m] Cons.prems(3)
    by (simp add: find_magnitude2_Cons max.assoc del: find_magnitude2.simps)
qed simp

section \<open>Decoding what has been encoded\<close>

lemma join_digit:
  assumes "n < 2 ^ 32" "l = k + 6"
  shows "join_bytes (Suc j) (wn (n div 2 ^ l)) (wn (128 + digit k n) # cs) = join_bytes j (wn (n div 2 ^ k)) cs"
proof -
  define q d where qd: "q = n div 2 ^ l" "d = digit k n"
  have d: "d < 64"
    by (simp add: qd)
  have q: "q = n div 2 ^ k div 64"
    by (simp add: qd assms(2) power_add div_mult2_eq)
  then have e: "n div 2 ^ k = q * 64 + d"
    using div_mult_mod_eq [of "n div 2 ^ k" 64] by (simp add: qd)
  have lt: "q * 64 + d < 2 ^ 32"
    using assms(1) div_le_dividend [of n "2 ^ k"] unfolding e by linarith
  then have "push_bit 6 (wn q) = wn (q * 64)"
    by (intro wn_eqI) (simp add: push_bit_eq_mult unat_word_ariths)
  then have "push_bit 6 (wn q) OR (wn (128 + d) AND 0x3f) = wn (q * 64 + d)"
    using or_wn [of d 6 "q * 64"] d lt by (simp add: cont_tests)
  then show ?thesis
    unfolding qd(1) [symmetric] unfolding qd(2) [symmetric] unfolding e by simp
qed

lemma join_digits:
  assumes "n < 2 ^ 32"
  shows "join_bytes 1 (wn (n div 2 ^ 6)) (wn (128 + digit 0 n) # rest) = Inr (wn n, rest)"
    "join_bytes 2 (wn (n div 2 ^ 12)) (wn (128 + digit 6 n) # wn (128 + digit 0 n) # rest) = Inr (wn n, rest)"
    "join_bytes 3 (wn (n div 2 ^ 18)) (wn (128 + digit 12 n) # wn (128 + digit 6 n) # wn (128 + digit 0 n) # rest) = Inr (wn n, rest)"
    "join_bytes 4 (wn (n div 2 ^ 24)) (wn (128 + digit 18 n) # wn (128 + digit 12 n) # wn (128 + digit 6 n) # wn (128 + digit 0 n) # rest) =
      Inr (wn n, rest)"
    "join_bytes 5 (wn (n div 2 ^ 30))
      (wn (128 + digit 24 n) # wn (128 + digit 18 n) # wn (128 + digit 12 n) # wn (128 + digit 6 n) # wn (128 + digit 0 n) # rest) =
      Inr (wn n, rest)"
    "join_bytes 6 (wn (n div 2 ^ 36))
      (wn (128 + digit 30 n) # wn (128 + digit 24 n) # wn (128 + digit 18 n) # wn (128 + digit 12 n) # wn (128 + digit 6 n) #
        wn (128 + digit 0 n) # rest) = Inr (wn n, rest)"
proof -
  note j = join_digit [OF assms]
  show 1: "join_bytes 1 (wn (n div 2 ^ 6)) (wn (128 + digit 0 n) # rest) = Inr (wn n, rest)"
    using j [of 6 0 0] by simp
  have s: "(2::nat) = Suc 1" "(3::nat) = Suc 2" "(4::nat) = Suc 3" "(5::nat) = Suc 4" "(6::nat) = Suc 5"
    by simp_all
  show 2: "join_bytes 2 (wn (n div 2 ^ 12)) (wn (128 + digit 6 n) # wn (128 + digit 0 n) # rest) = Inr (wn n, rest)"
    using j [of 12 6 1] 1 by (simp only: s(1) [symmetric]) simp
  show 3: "join_bytes 3 (wn (n div 2 ^ 18)) (wn (128 + digit 12 n) # wn (128 + digit 6 n) # wn (128 + digit 0 n) # rest) = Inr (wn n, rest)"
    using j [of 18 12 2] 2 by (simp only: s(2) [symmetric]) simp
  show 4: "join_bytes 4 (wn (n div 2 ^ 24)) (wn (128 + digit 18 n) # wn (128 + digit 12 n) # wn (128 + digit 6 n) # wn (128 + digit 0 n) # rest) =
      Inr (wn n, rest)"
    using j [of 24 18 3] 3 by (simp only: s(3) [symmetric]) simp
  show 5: "join_bytes 5 (wn (n div 2 ^ 30))
      (wn (128 + digit 24 n) # wn (128 + digit 18 n) # wn (128 + digit 12 n) # wn (128 + digit 6 n) # wn (128 + digit 0 n) # rest) =
      Inr (wn n, rest)"
    using j [of 30 24 4] 4 by (simp only: s(4) [symmetric]) simp
  show "join_bytes 6 (wn (n div 2 ^ 36))
      (wn (128 + digit 30 n) # wn (128 + digit 24 n) # wn (128 + digit 18 n) # wn (128 + digit 12 n) # wn (128 + digit 6 n) #
        wn (128 + digit 0 n) # rest) = Inr (wn n, rest)"
    using j [of 36 30 5] 5 by (simp only: s(5) [symmetric]) simp
qed

text \<open>One character, from its bytes.\<close>

lemma decode_bytes:
  assumes "n < 2 ^ 32"
  shows "n < 0x80 \<Longrightarrow> decode_char shift (wn n) rest = Inr (wn n, rest)"
    "n < 0x800 \<Longrightarrow> decode_char shift (wn (192 + n div 2 ^ 6)) (wn (128 + digit 0 n) # rest) = Inr (wn n, rest)"
    "n < 0x10000 \<Longrightarrow> 0 < shift \<Longrightarrow>
      decode_char shift (wn (224 + n div 2 ^ 12)) (wn (128 + digit 6 n) # wn (128 + digit 0 n) # rest) = Inr (wn n, rest)"
    "n < 0x200000 \<Longrightarrow> 1 < shift \<Longrightarrow>
      decode_char shift (wn (240 + n div 2 ^ 18)) (wn (128 + digit 12 n) # wn (128 + digit 6 n) # wn (128 + digit 0 n) # rest) = Inr (wn n, rest)"
    "n < 0x4000000 \<Longrightarrow> 1 < shift \<Longrightarrow>
      decode_char shift (wn (248 + n div 2 ^ 24))
        (wn (128 + digit 18 n) # wn (128 + digit 12 n) # wn (128 + digit 6 n) # wn (128 + digit 0 n) # rest) = Inr (wn n, rest)"
    "n < 0x80000000 \<Longrightarrow> 1 < shift \<Longrightarrow>
      decode_char shift (wn (252 + n div 2 ^ 30))
        (wn (128 + digit 24 n) # wn (128 + digit 18 n) # wn (128 + digit 12 n) # wn (128 + digit 6 n) # wn (128 + digit 0 n) # rest) = Inr (wn n, rest)"
    "1 < shift \<Longrightarrow>
      decode_char shift 0xfe
        (wn (128 + digit 30 n) # wn (128 + digit 24 n) # wn (128 + digit 18 n) # wn (128 + digit 12 n) # wn (128 + digit 6 n) #
          wn (128 + digit 0 n) # rest) = Inr (wn n, rest)"
proof -
  note j = join_digits [OF assms] and d = decode_char0_def decode_char1_def decode_char2_def
  have dc: "decode_char shift = decode_char0 \<and> shift = 0 \<or> decode_char shift = decode_char1 \<and> shift = 1 \<or> decode_char shift = decode_char2 \<and> 1 < shift"
    by (auto simp: decode_char_def)
  have x: "n < 0x800 \<Longrightarrow> n div 2 ^ 6 < 32" "n < 0x10000 \<Longrightarrow> n div 2 ^ 12 < 16" "n < 0x200000 \<Longrightarrow> n div 2 ^ 18 < 8"
      "n < 0x4000000 \<Longrightarrow> n div 2 ^ 24 < 4" "n < 0x80000000 \<Longrightarrow> n div 2 ^ 30 < 2"
    by (intro less_mult_imp_div_less; simp)+
  have w: "n div 2 ^ 36 = 0"
    using assms by simp
  have wide: "decode_char shift = decode_char2" if "1 < shift"
    using that dc by auto
  show "n < 0x80 \<Longrightarrow> decode_char shift (wn n) rest = Inr (wn n, rest)"
    using ascii_tests [of n] dc by (auto simp: d)
  show "decode_char shift (wn (192 + n div 2 ^ 6)) (wn (128 + digit 0 n) # rest) = Inr (wn n, rest)" if "n < 0x800"
  proof -
    note t = lead11_tests [OF x(1) [OF that(1)]]
    show ?thesis
      using dc by (elim disjE conjE) (simp_all only: d t(1,3,4) j(1) if_True if_False simp_thms less_irrefl)
  qed
  show "decode_char shift (wn (224 + n div 2 ^ 12)) (wn (128 + digit 6 n) # wn (128 + digit 0 n) # rest) = Inr (wn n, rest)" if "n < 0x10000" "0 < shift"
  proof -
    note t = lead16_tests [OF x(2) [OF that(1)]]
    show ?thesis
      using dc that(2) by (elim disjE conjE) (simp_all only: d t(1,3,4,5) j(2) if_True if_False simp_thms less_irrefl)
  qed
  show "decode_char shift (wn (240 + n div 2 ^ 18)) (wn (128 + digit 12 n) # wn (128 + digit 6 n) # wn (128 + digit 0 n) # rest) = Inr (wn n, rest)" if "n < 0x200000" "1 < shift"
  proof -
    note t = lead21_tests [OF x(3) [OF that(1)]]
    show ?thesis
      unfolding wide [OF that(2)] by (simp only: d t(1,3,4,5,6) j(3) if_True if_False simp_thms)
  qed
  show "decode_char shift (wn (248 + n div 2 ^ 24))
        (wn (128 + digit 18 n) # wn (128 + digit 12 n) # wn (128 + digit 6 n) # wn (128 + digit 0 n) # rest) = Inr (wn n, rest)" if "n < 0x4000000" "1 < shift"
  proof -
    note t = lead26_tests [OF x(4) [OF that(1)]]
    show ?thesis
      unfolding wide [OF that(2)] by (simp only: d t(1,3,4,5,6,7) j(4) if_True if_False simp_thms)
  qed
  show "decode_char shift (wn (252 + n div 2 ^ 30))
        (wn (128 + digit 24 n) # wn (128 + digit 18 n) # wn (128 + digit 12 n) # wn (128 + digit 6 n) # wn (128 + digit 0 n) # rest) = Inr (wn n, rest)" if "n < 0x80000000" "1 < shift"
  proof -
    note t = lead31_tests [OF x(5) [OF that(1)]]
    show ?thesis
      unfolding wide [OF that(2)] by (simp only: d t(1,3,4,5,6,7,8) j(5) if_True if_False simp_thms)
  qed
  show "decode_char shift 0xfe
        (wn (128 + digit 30 n) # wn (128 + digit 24 n) # wn (128 + digit 18 n) # wn (128 + digit 12 n) # wn (128 + digit 6 n) #
          wn (128 + digit 0 n) # rest) = Inr (wn n, rest)" if "1 < shift"
    using j(6) unfolding wide [OF that] w by (simp add: d wn_def)
qed

lemma surrogate_test:
  assumes "n < 2 ^ 32"
  shows "wn n AND 0xfc00 = 0xdc00 \<longleftrightarrow> n div 1024 mod 64 = 55"
  using assms by (auto simp: word_unat_eq_iff unat_masks)

lemma decode_step:
  assumes "utf8_char e c = b # bs" "decode_char shift b (bs @ rest) = Inr (c, rest)"
    "shift = 2 \<Longrightarrow> has_flag b 0x80 \<Longrightarrow> has_flag e 2 \<Longrightarrow> c AND 0xfc00 \<noteq> 0xdc00" "min_magnitude c \<le> shift" "length out < n"
  shows "utf8_decode e shift n (utf8_char e c @ rest) out = utf8_decode e shift n rest (out @ [c])"
  using assms by (auto simp: pair_up_def emit_def store_char_id)

lemma pair_bytes:
  assumes "p < 0x100000"
  defines "h \<equiv> 0xd800 + p div 1024" and "l \<equiv> 0xdc00 + p mod 1024"
  shows "h < 0xdc00" "l < 0xe000" "h div 2 ^ 12 = 13" "digit 6 h = 32 + p div 2 ^ 16" "digit 0 h = digit 10 p"
    "l div 2 ^ 12 = 13" "digit 6 l = 48 + p div 2 ^ 6 mod 16" "digit 0 l = digit 0 p"
    "h div 1024 mod 64 = 54" "l div 1024 mod 64 = 55" "h mod 1024 = p div 1024" "l mod 1024 = p mod 1024"
proof -
  define q r where qr: "q = p div 1024" "r = p mod 1024"
  have b: "q < 1024" "r < 1024"
    using assms(1) by (auto simp: qr intro!: less_mult_imp_div_less)
  have p: "p div 2 ^ 16 = q div 64" "p div 2 ^ 6 mod 16 = r div 64" "digit 0 p = r mod 64"
  proof -
    show "p div 2 ^ 16 = q div 64"
      by (simp add: qr div_mult2_eq [symmetric])
    have "p = q * 1024 + r"
      by (simp add: qr)
    then have pe: "p = r + (q * 16) * 64"
      by simp
    have "p div 64 = q * 16 + r div 64"
      unfolding pe by (subst div_mult_self1) simp_all
    moreover have "p mod 64 = r mod 64"
      by (subst pe) (simp only: mod_mult_self1)
    moreover have "r div 64 < 16"
      using b(2) by (intro less_mult_imp_div_less) simp
    ultimately show "p div 2 ^ 6 mod 16 = r div 64" "digit 0 p = r mod 64"
      by simp_all
  qed
  have hl: "h = 0xd800 + q" "l = 0xdc00 + r"
    by (simp_all add: h_def l_def qr)
  have q: "q div 64 < 16" "r div 64 < 16"
    using b by (auto intro!: less_mult_imp_div_less)
  have "(0xd800 + q) div 64 = 0x360 + q div 64" "(0xdc00 + r) div 64 = 0x370 + r div 64"
    by simp_all
  moreover have "(0x360 + a) mod 64 = 32 + a" "(0x370 + a) mod 64 = 48 + a" if "a < 16" for a :: nat
    using that by (simp_all add: mod_nat_eqI)
  ultimately show "digit 6 h = 32 + p div 2 ^ 16" "digit 6 l = 48 + p div 2 ^ 6 mod 16"
    using q unfolding p hl by simp_all
  show "h < 0xdc00" "l < 0xe000" "h mod 1024 = p div 1024" "l mod 1024 = p mod 1024" "h div 2 ^ 12 = 13" "l div 2 ^ 12 = 13"
      "h div 1024 mod 64 = 54" "l div 1024 mod 64 = 55"
    using b unfolding hl by (auto simp: qr [symmetric] mod_nat_eqI div_nat_eqI)
  show "digit 0 h = digit 10 p" "digit 0 l = digit 0 p"
    unfolding hl p(3) by (simp_all add: qr mod_add_left_eq [symmetric])
qed

lemma decode_pair:
  assumes "0x10000 \<le> n" "n \<le> 0x10ffff" "has_flag e 2" "length out < m"
  shows "utf8_decode e 2 m (utf8_char e (wn n) @ rest) out = utf8_decode e 2 m rest (out @ [wn n])"
proof -
  define p where "p = n - 0x10000"
  have p: "p < 0x100000" "n = p + 0x10000"
    using assms(1,2) by (simp_all add: p_def)
  define h l where hl: "h = 0xd800 + p div 1024" "l = 0xdc00 + p mod 1024"
  note b = pair_bytes [OF p(1), folded hl]
  have lt: "h < 2 ^ 32" "l < 2 ^ 32" "h < 0x10000" "l < 0x10000"
    using b(1,2) by simp_all
  have c: "utf8_char e (wn n) = [wn (224 + h div 2 ^ 12), wn (128 + digit 6 h), wn (128 + digit 0 h),
      wn (224 + l div 2 ^ 12), wn (128 + digit 6 l), wn (128 + digit 0 l)]"
    unfolding b(3-8) using utf8_char_pair [OF assms(1-3), folded p_def] by (simp add: wn_def)
  have f: "has_flag (wn (224 + 13)) 0x80"
    by (rule lead16_tests) simp
  have st: "store_char 2 x = x" for x
    by (simp add: store_char_def)
  have "pair_up e (wn h) out = Inr (wn h, out)"
    by (simp add: pair_up_def surrogate_test [OF lt(1)] b(9))
  then have hi: "utf8_decode e 2 m (utf8_char e (wn n) @ rest) out =
    utf8_decode e 2 m (wn (224 + l div 2 ^ 12) # wn (128 + digit 6 l) # wn (128 + digit 0 l) # rest) (out @ [wn h])"
    unfolding c append_Cons append_Nil utf8_decode.simps(2)
      decode_bytes(3) [OF lt(1,3) zero_less_numeral] using f assms(4) unfolding b(3) by (simp add: emit_def st)
  have h10: "wn h AND 0x3ff = wn (p div 1024)" and l10: "wn l AND 0x3ff = wn (p mod 1024)"
    using lt b(11,12) p(1) by (auto intro!: wn_eqI simp: unat_masks)
  have "wn (p mod 1024) OR (push_bit 10 (wn (p div 1024)) + 0x10000) = wn n"
  proof -
    have "push_bit 10 (wn (p div 1024)) + 0x10000 = wn (p div 1024 * 1024 + 0x10000)"
      by (simp add: wn_def push_bit_eq_mult)
    moreover have "wn (p div 1024 * 1024 + 0x10000) OR wn (p mod 1024) = wn (p div 1024 * 1024 + 0x10000 + p mod 1024)"
    proof (rule or_wn [of _ 10])
      show "2 ^ 10 dvd p div 1024 * 1024 + 0x10000"
        by simp
      show "p div 1024 * 1024 + 0x10000 + p mod 1024 < 2 ^ 32"
        using p(1) div_mult_mod_eq [of p 1024] by simp
    qed simp
    moreover have "p div 1024 * 1024 + 0x10000 + p mod 1024 = n"
      using div_mult_mod_eq [of p 1024] p(2) by simp
    ultimately show ?thesis
      by (simp add: or.commute)
  qed
  then have "pair_up e (wn l) (out @ [wn h]) = Inr (wn n, out)"
    using assms(3) by (simp add: pair_up_def surrogate_test [OF lt(2)] b(10) h10 l10)
  then have "utf8_decode e 2 m (wn (224 + l div 2 ^ 12) # wn (128 + digit 6 l) # wn (128 + digit 0 l) # rest) (out @ [wn h]) =
      utf8_decode e 2 m rest (out @ [wn n])"
    unfolding utf8_decode.simps(2) decode_bytes(3) [OF lt(2,4) zero_less_numeral] using f assms(4) unfolding b(6) by (simp add: emit_def st)
  with hi show ?thesis
    by simp
qed

lemma decode_accepted:
  assumes "utf8_extra e c = Inr k" "one_option e" "min_magnitude c \<le> shift" "shift \<le> 2" "length out < m"
  shows "utf8_decode e shift m (utf8_char e c @ rest) out = utf8_decode e shift m rest (out @ [c])"
proof -
  obtain n where c: "c = wn n" and n: "n < 2 ^ 32"
    using unat_bound [of c] by (metis wn_unat)
  note k = assms(1) [unfolded c utf8_extra_wn [OF n]] and d = decode_bytes [OF n] and u = utf8_char_wn [OF n]
  note mm = assms(3) [unfolded c min_magnitude_wn [OF n]]
  consider (a) "n < 0x80" | (b) "0x80 \<le> n" "n < 0x800" | (c) "0x800 \<le> n" "n < 0x10000" |
      (d) "0x10000 \<le> n" "has_flag e 2 \<and> n \<le> 0x10ffff" | (e) "0x10000 \<le> n" "n < 0x200000" "\<not> (has_flag e 2 \<and> n \<le> 0x10ffff)" |
      (f) "0x200000 \<le> n" "n < 0x4000000" | (g) "0x4000000 \<le> n" "n < 0x80000000" | (h) "0x80000000 \<le> n"
    by linarith
  then show ?thesis
  proof cases
    case a
    show ?thesis
      unfolding c by (rule decode_step [OF u(1) [OF a]]) (use a d(1) assms(5) mm [folded min_magnitude_wn [OF n]] ascii_tests [OF a] in auto)
  next
    case b
    show ?thesis
      unfolding c by (rule decode_step [OF u(2) [OF b]])
        (use b d(2) assms(5) mm [folded min_magnitude_wn [OF n]] in \<open>auto simp: surrogate_test [OF n] simp del: power_0\<close>)
  next
    case c': c
    have "has_flag e 2 \<Longrightarrow> n < 0xd800 \<or> 0xdfff < n" "0 < shift"
      using k mm c' assms(2) by (auto split: if_splits)
    moreover have "n div 1024 mod 64 = 55 \<Longrightarrow> 0xd800 \<le> n \<and> n \<le> 0xdfff"
    proof -
      assume q: "n div 1024 mod 64 = 55"
      have "n div 1024 < 64"
        using c'(2) by (intro less_mult_imp_div_less) simp
      then have "n div 1024 = 55"
        using q by simp
      then show ?thesis
        using div_mult_mod_eq [of n 1024] mod_less_divisor [of 1024 n] by linarith
    qed
    ultimately show ?thesis
      unfolding c by (intro decode_step [OF u(3) [OF c']])
        (use c' d(3) assms(5) mm [folded min_magnitude_wn [OF n]] in \<open>auto simp: surrogate_test [OF n] simp del: power_0\<close>)
  next
    case dd: d
    then have "shift = 2"
      using mm assms(4) by simp
    then show ?thesis
      unfolding c using decode_pair dd assms(5) by auto
  next
    case e
    then have "\<not> has_flag e 2" "1 < shift"
      using k mm assms(2) by (auto split: if_splits)
    then show ?thesis
      unfolding c by (intro decode_step [OF u(4) [OF e]]) (use e d(4) assms(5) mm [folded min_magnitude_wn [OF n]] in \<open>auto simp del: power_0\<close>)
  next
    case f
    then have "\<not> has_flag e 2" "1 < shift"
      using k mm assms(2) by (auto split: if_splits)
    then show ?thesis
      unfolding c by (intro decode_step [OF u(5) [OF f]]) (use f d(5) assms(5) mm [folded min_magnitude_wn [OF n]] in \<open>auto simp del: power_0\<close>)
  next
    case g
    then have "\<not> has_flag e 2" "1 < shift"
      using k mm assms(2) by (auto split: if_splits)
    then show ?thesis
      unfolding c by (intro decode_step [OF u(6) [OF g]]) (use g d(6) assms(5) mm [folded min_magnitude_wn [OF n]] in \<open>auto simp del: power_0\<close>)
  next
    case h
    then have "\<not> has_flag e 2" "1 < shift"
      using k mm assms(2) by (auto split: if_splits)
    then show ?thesis
      unfolding c by (intro decode_step [OF u(7) [OF h]]) (use h d(7) assms(5) mm [folded min_magnitude_wn [OF n]] in \<open>auto simp del: power_0\<close>)
  qed
qed

lemma decode_chars:
  assumes "utf8_length e cs l = Inr n" "one_option e" "find_magnitude2 cs \<le> shift" "shift \<le> 2" "length out + length cs \<le> m"
  shows "utf8_decode e shift m (utf8_bytes e cs) out = Inr (out @ cs)"
  using assms
proof (induction cs arbitrary: l out)
  case (Cons c cs)
  obtain k where k: "utf8_extra e c = Inr k" "utf8_length e cs (l + k) = Inr n"
    using Cons.prems(1) by (cases "utf8_extra e c") auto
  show ?case
    using Cons.IH [OF k(2) assms(2), of "out @ [c]"] decode_accepted [OF k(1) assms(2), of shift out m "utf8_bytes e cs"] Cons.prems(3-5)
    by (simp add: find_magnitude2_Cons del: find_magnitude2.simps)
qed simp

section \<open>The conversions\<close>

lemma utf8_length_ascii:
  assumes "\<forall>c \<in> set cs. unat c < 0x80"
  shows "utf8_length e cs l = Inr l" "utf8_bytes e cs = cs" "utf8_scan e cs m s = Inr (m + length cs, s)"
  using assms
proof (induction cs arbitrary: m)
  case (Cons c cs)
  {
    case 1
    then show ?case
      using Cons.IH(1) utf8_extra_wn [OF unat_bound [of c], of e] by simp
  next
    case 2
    then show ?case
      using Cons.IH(2) utf8_char_wn(1) [OF unat_bound [of c], of e] by simp
  next
    case 3
    then show ?case
      using Cons.IH(3) ascii_tests [of "unat c"] by simp
  }
qed simp_all

lemma ascii_range:
  assumes "string_ok s" "snd (check_string_range s True True) = (mn, mx)" "mn \<ge> 0 \<and> mx \<le> 0x7f"
  shows "\<forall>c \<in> set (chars s). unat c < 0x80"
proof
  fix c
  assume "c \<in> set (chars s)"
  then have "mn \<le> sint c \<and> sint c \<le> mx"
    using loose_range_bounds [OF assms(1), of "sint c"] assms(2) by (simp add: check_string_range_def char_values_def)
  then have b: "0 \<le> sint c" "sint c < 0x80"
    using assms(3) by auto
  have "uint c = take_bit 32 (sint c)"
    by (simp add: uint_sint)
  also have "\<dots> = sint c"
    using b by (intro take_bit_int_eq_self) simp_all
  finally show "unat c < 0x80"
    using b by (simp add: unat_eq_nat_uint)
qed

lemma utf8_char_byte:
  assumes "b \<in> set (utf8_char e c)"
  shows "unat b < 256"
proof -
  obtain n where c: "c = wn n" and n: "n < 2 ^ 32"
    using unat_bound [of c] by (metis wn_unat)
  have w: "unat (wn m) < 256" if "m < 256" for m
    using that by simp
  have x: "192 + n div 2 ^ 6 < 256" if "n < 0x800"
    using that by (simp add: less_mult_imp_div_less)
  have y: "224 + n div 2 ^ 12 < 256" if "n < 0x10000"
    using that less_mult_imp_div_less [of n 16 "2 ^ 12"] by simp
  have z: "240 + n div 2 ^ 18 < 256" if "n < 0x200000"
    using that less_mult_imp_div_less [of n 8 "2 ^ 18"] by simp
  have v: "248 + n div 2 ^ 24 < 256" if "n < 0x4000000"
    using that less_mult_imp_div_less [of n 4 "2 ^ 24"] by simp
  have t: "252 + n div 2 ^ 30 < 256" if "n < 0x80000000"
    using that less_mult_imp_div_less [of n 2 "2 ^ 30"] by simp
  have p: "160 + p div 2 ^ 16 < 256" "176 + p div 2 ^ 6 mod 16 < 256" if "p = n - 0x10000" "n \<le> 0x10ffff" for p
  proof -
    show "160 + p div 2 ^ 16 < 256"
      using that less_mult_imp_div_less [of p 16 "2 ^ 16"] by simp
    show "176 + p div 2 ^ 6 mod 16 < 256"
      by (rule order.strict_trans1 [of _ "176 + 15"]) simp_all
  qed
  have d: "128 + digit k m < 256" for k m
    by (rule order.strict_trans1 [of _ "128 + 63"]) simp_all
  have k: "unat (0xed :: 32 word) < 256" "unat (0xfe :: 32 word) < 256"
    by simp_all
  note u = utf8_char_wn [OF n]
  consider (a) "n < 0x80" | (b) "0x80 \<le> n" "n < 0x800" | (c) "0x800 \<le> n" "n < 0x10000" |
      (d) "0x10000 \<le> n" "has_flag e 2 \<and> n \<le> 0x10ffff" | (e) "0x10000 \<le> n" "n < 0x200000" "\<not> (has_flag e 2 \<and> n \<le> 0x10ffff)" |
      (f) "0x200000 \<le> n" "n < 0x4000000" | (g) "0x4000000 \<le> n" "n < 0x80000000" | (h) "0x80000000 \<le> n"
    by linarith
  then have "list_all (\<lambda>b. unat b < 256) (utf8_char e (wn n))"
  proof cases
    case a
    then show ?thesis
      by (simp add: u(1))
  next
    case b
    show ?thesis
      unfolding u(2) [OF b] list.pred_inject by (intro conjI TrueI list.pred_inject(1) w d x b)
  next
    case c
    show ?thesis
      unfolding u(3) [OF c] list.pred_inject by (intro conjI TrueI list.pred_inject(1) w d y c)
  next
    case dd: d
    then have "has_flag e 2" "n \<le> 0x10ffff"
      by simp_all
    then show ?thesis
      unfolding utf8_char_pair [OF dd(1) \<open>n \<le> 0x10ffff\<close> \<open>has_flag e 2\<close>] list.pred_inject by (intro conjI TrueI list.pred_inject(1) k w d p refl)
  next
    case e
    show ?thesis
      unfolding u(4) [OF e] list.pred_inject by (intro conjI TrueI list.pred_inject(1) w d z e)
  next
    case f
    show ?thesis
      unfolding u(5) [OF f] list.pred_inject by (intro conjI TrueI list.pred_inject(1) w d v f)
  next
    case g
    show ?thesis
      unfolding u(6) [OF g] list.pred_inject by (intro conjI TrueI list.pred_inject(1) w d t g)
  next
    case h
    show ?thesis
      unfolding u(7) [OF h] list.pred_inject by (intro conjI TrueI list.pred_inject(1) k w d)
  qed
  then show ?thesis
    using assms by (simp add: c list_all_iff)
qed

text \<open>What the encoder returns.\<close>

lemma string_to_utf8_accepted:
  assumes "string_ok s" "utf8_length e (chars s) (len s) = Inr n" "one_option e"
  shows "f_string_to_utf8 s e = Inr (utf8_bytes e (chars s))"
proof -
  obtain mn mx where r: "snd (check_string_range s True True) = (mn, mx)"
    by (cases "snd (check_string_range s True True)")
  show ?thesis
  proof (cases "mn \<ge> 0 \<and> mx \<le> 0x7f")
    case True
    then show ?thesis
      using r utf8_length_ascii [OF ascii_range [OF assms(1) r True]] by (simp add: f_string_to_utf8_def)
  next
    case False
    note n = assms(2)
    have len: "n = length (utf8_bytes e (chars s))"
      using scan_chars [OF n assms(3), of 0] by simp
    have em: "fold_result (\<lambda>b out. emit 0 n out b) xs out = Inr (out @ xs)" if "\<forall>b \<in> set xs. unat b < 256" "length out + length xs \<le> n" for xs out
      using that
    proof (induction xs arbitrary: out)
      case (Cons b xs)
      then have "store_char 0 b = b"
        by (simp add: store_char_def word_unat_eq_iff unat_masks)
      then show ?case
        using Cons by (simp add: emit_def)
    qed simp
    have ne: "utf8_char e c \<noteq> []" for c
      by (simp add: utf8_char_def Let_def)
    have one: "utf8_bytes e cs = cs" if "length (utf8_bytes e cs) = length cs" "\<forall>c \<in> set cs. \<exists>k. utf8_extra e c = Inr k" for cs
      using that
    proof (induction cs)
      case (Cons c cs)
      have le: "length cs \<le> length (utf8_bytes e cs)" for cs
      proof (induction cs)
        case (Cons c cs)
        have "0 < length (utf8_char e c)"
          using ne [of c] by simp
        then have "Suc (length cs) \<le> length (utf8_char e c) + length (utf8_bytes e cs)"
          using Cons.IH by linarith
        then show ?case
          by simp
      qed simp
      have "length (utf8_char e c) = 1"
        using Cons.prems(1) le [of cs] ne [of c] by (cases "length (utf8_char e c)") auto
      then show ?case
        using Cons by (auto simp: utf8_char_def Let_def split: if_splits)
    qed simp
    have acc: "\<exists>k. utf8_extra e c = Inr k" if "c \<in> set cs" "utf8_length e cs l = Inr k'" for c cs l k'
      using that by (induction cs arbitrary: l) (auto simp: bind_result_def split: sum.splits)
    show ?thesis
    proof (cases "n = len s")
      case True
      then have "utf8_bytes e (chars s) = chars s"
        using one [of "chars s"] len acc n by auto
      then show ?thesis
        using r False n True by (simp add: f_string_to_utf8_def)
    next
      case False
      then show ?thesis
        using r \<open>\<not> (mn \<ge> 0 \<and> mx \<le> 0x7f)\<close> n em [of "utf8_bytes e (chars s)" "[]"] utf8_char_byte [of _ e] len
        by (auto simp: f_string_to_utf8_def filled_def)
    qed
  qed
qed

lemma string_to_utf8_bytes:
  assumes "string_ok s" "f_string_to_utf8 s e = Inr bs" "one_option e"
  shows "\<exists>n. utf8_length e (chars s) (len s) = Inr n" "bs = utf8_bytes e (chars s)"
proof -
  obtain mn mx where r: "snd (check_string_range s True True) = (mn, mx)"
    by (cases "snd (check_string_range s True True)")
  show ex: "\<exists>n. utf8_length e (chars s) (len s) = Inr n"
  proof (cases "mn \<ge> 0 \<and> mx \<le> 0x7f")
    case True
    then show ?thesis
      using utf8_length_ascii [OF ascii_range [OF assms(1) r True]] by simp
  next
    case False
    then show ?thesis
      using assms(2) r by (cases "utf8_length e (chars s) (len s)") (auto simp: f_string_to_utf8_def)
  qed
  show "bs = utf8_bytes e (chars s)"
    using ex string_to_utf8_accepted [OF assms(1) _ assms(3)] assms(2) by auto
qed

lemma accepted_chars:
  assumes "utf8_length e cs l = Inr n"
  shows "\<exists>n'. utf8_length e cs l' = Inr n'"
  using assms
proof (induction cs arbitrary: l l')
  case (Cons c cs)
  obtain k where "utf8_extra e c = Inr k" "utf8_length e cs (l + k) = Inr n"
    using Cons.prems by (cases "utf8_extra e c") auto
  then show ?case
    using Cons.IH by simp
qed simp

text \<open>The decoder on the bytes of characters that are accepted.\<close>

lemma utf8_to_string_bytes:
  assumes "utf8_length e cs l = Inr n" "one_option e" "string_ok t" "size_shift t = 0" "chars t = utf8_bytes e cs"
  shows "f_utf8_to_string t e = Inr (find_magnitude2 cs, cs)"
proof -
  obtain mn mx where r: "snd (check_string_range t True True) = (mn, mx)"
    by (cases "snd (check_string_range t True True)")
  have scan: "utf8_scan e (chars t) 0 0 = Inr (length cs, find_magnitude2 cs)"
    using scan_chars [OF assms(1,2), of 0 0] assms(5) by simp
  have dec: "utf8_decode e (find_magnitude2 cs) (length cs) (chars t) [] = Inr cs"
    using decode_chars [OF assms(1,2) order_refl find_magnitude2_le, of "[]"] assms(5) by simp
  have asc: "cs = chars t \<and> find_magnitude2 cs = 0" if a: "\<forall>c \<in> set (chars t). unat c < 0x80"
  proof -
    have sc: "length cs = len t" "find_magnitude2 cs = 0"
      using scan utf8_length_ascii(3) [OF a, of e 0 0] by simp_all
    moreover have "utf8_decode e 0 (length cs) (chars t) [] = Inr (chars t)"
    proof -
      have "min_magnitude c = 0" if "c \<in> set (chars t)" for c
        using a that by (auto simp: min_magnitude_def word_less_nat_alt)
      then have "find_magnitude2 (chars t) = 0"
        using assms(3,4) by (simp add: string_ok_def)
      then show ?thesis
        using decode_chars [OF utf8_length_ascii(1) [OF a] assms(2), of 0 "[]"] utf8_length_ascii(2) [OF a] sc(1) by simp
    qed
    ultimately show ?thesis
      using dec by simp
  qed
  show ?thesis
  proof (cases "mn \<ge> 0 \<and> mx \<le> 0x7f")
    case True
    have a: "cs = chars t" "find_magnitude2 cs = 0"
      using asc [OF ascii_range [OF assms(3) r True]] by blast+
    show ?thesis
      unfolding a(2) unfolding a(1) using True r assms(4) by (simp add: f_utf8_to_string_def)
  next
    case False
    have "length cs = len t \<Longrightarrow> cs = chars t \<and> find_magnitude2 cs = 0"
    proof -
      assume l: "length cs = len t"
      obtain n' where n': "utf8_length e cs 0 = Inr n'"
        using accepted_chars [OF assms(1)] by blast
      have "n' = 0"
        using scan_chars [OF n' assms(2), of 0 0] l assms(5) by simp
      have "\<forall>c \<in> set cs. unat c < 0x80" if "utf8_length e cs l = Inr l" for cs l
        using that
      proof (induction cs arbitrary: l)
        case (Cons c cs)
        obtain k where k: "utf8_extra e c = Inr k" "utf8_length e cs (l + k) = Inr l"
          using Cons.prems by (cases "utf8_extra e c") auto
        have mono: "l \<le> n" if "utf8_length e cs l = Inr n" for cs l n
          using that by (induction cs arbitrary: l) (auto simp: bind_result_def split: sum.splits, fastforce)
        have "k = 0"
          using mono [OF k(2)] by simp
        then show ?case
          using Cons.IH [of l] k utf8_extra_wn [OF unat_bound [of c], of e] by (auto split: if_splits)
      qed simp
      then have a: "\<forall>c \<in> set cs. unat c < 0x80"
        using n' \<open>n' = 0\<close> by blast
      then have "chars t = cs"
        using utf8_length_ascii(2) assms(5) by metis
      then show ?thesis
        using asc a by simp
    qed
    then show ?thesis
      using False r assms(4) scan dec by (cases "length cs = len t") (auto simp: f_utf8_to_string_def filled_def)
  qed
qed

section \<open>Properties\<close>

text \<open>C17: What string_to_utf8 makes of a string is a string of bytes that utf8_to_string turns back into the
  same characters at the same width, whatever it knows of its range, with either of the two options.\<close>

theorem utf8_roundtrip:
  assumes "string_ok s" "f_string_to_utf8 s e = Inr bs" "one_option e" "string_ok t" "chars t = bs"
  shows "size_shift t = 0 \<and> f_utf8_to_string t e = Inr (size_shift s, chars s)"
proof -
  have b: "bs = utf8_bytes e (chars s)"
    using string_to_utf8_bytes(2) [OF assms(1-3)] .
  obtain n where n: "utf8_length e (chars s) (len s) = Inr n"
    using string_to_utf8_bytes(1) [OF assms(1-3)] by blast
  have "\<forall>c \<in> set bs. c < 256"
    using utf8_char_byte [of _ e] unfolding b by (auto simp: word_less_nat_alt)
  then have "size_shift t = 0"
    using assms(4,5) by (simp add: string_ok_def find_magnitude2_cases)
  moreover have "find_magnitude2 (chars s) = size_shift s"
    using assms(1) by (simp add: string_ok_def)
  ultimately show ?thesis
    using utf8_to_string_bytes [OF n assms(3,4)] assms(5) b by metis
qed

theorem utf8_roundtrip_witness:
  "f_utf8_to_string (new_string 0 [0xe2, 0x82, 0xac, 0x61]) 0 = Inr (1, [0x20ac, 0x61])"
proof -
  let ?s = "new_string 1 [0x20ac, 0x61]" and ?t = "new_string 0 [0xe2, 0x82, 0xac, 0x61]"
  have "string_ok ?s" "string_ok ?t"
    by (simp_all add: string_ok_def bounds_ok_def new_string_def)
  moreover have "utf8_bytes 0 [0x20ac, 0x61] = [0xe2, 0x82, 0xac, 0x61]"
    by (simp add: utf8_char_def cont_byte_def)
  then have "f_string_to_utf8 ?s 0 = Inr (chars ?t)"
    by (simp add: new_string_def f_string_to_utf8_def check_string_range_def loose_range_def utf8_extra_def emit_def store_char_def filled_def)
  ultimately show ?thesis
    using utf8_roundtrip [of ?s 0 "chars ?t" ?t] by (simp add: new_string_def)
qed

end
