(* ===== verification/Utf8_Inv.thy ===== *)
theory Utf8_Inv
  imports Utf8
begin

text \<open>
  The converse for UTF-8: what the decoder accepts is an encoding, so that every text has one encoding
  only, and the validation accepts what the decoder accepts.
\<close>

section \<open>What is accepted\<close>

lemma byte_cont:
  assumes "unat c < 256" "c AND 0xc0 = 0x80"
  obtains x where "x < 64" "c = wn (128 + x)"
proof -
  have "unat (c AND 0xc0) = 128"
    by (simp add: assms(2))
  then have "unat c div 64 mod 4 = 2"
    by (simp add: unat_masks)
  moreover have "unat c div 64 < 4"
    using assms(1) by (intro less_mult_imp_div_less) simp
  ultimately have "unat c div 64 = 2"
    by simp
  then have "unat c = 128 + unat c mod 64"
    using div_mult_mod_eq [of "unat c" 64] by simp
  then have "c = wn (128 + unat c mod 64)"
    by (rule wn_eqI)
  then show ?thesis
    by (intro that [of "unat c mod 64"]) simp_all
qed

lemma get_cont_char_inv:
  assumes "get_cont_char cs = Inr (c, ds)" "\<forall>b \<in> set cs. unat b < 256"
  obtains x where "x < 64" "c = wn (128 + x)" "cs = wn (128 + x) # ds"
proof -
  have c: "cs = c # ds" "c AND 0xc0 = 0x80"
    using assms(1) by (cases cs; auto simp: get_cont_char_def split: if_splits)+
  then show ?thesis
    using byte_cont [of c] assms(2) that by auto
qed

lemma get_cont_chars_inv:
  assumes "get_cont_chars k cs = Inr ds" "\<forall>b \<in> set cs. unat b < 256"
  shows "\<exists>xs. length xs = k \<and> (\<forall>x \<in> set xs. x < 64) \<and> cs = map (\<lambda>x. wn (128 + x)) xs @ ds"
  using assms
proof (induction k arbitrary: cs)
  case (Suc k)
  obtain c cs' where c: "get_cont_char cs = Inr (c, cs')" "get_cont_chars k cs' = Inr ds"
    using Suc.prems(1) by (cases "get_cont_char cs") auto
  obtain x where x: "x < 64" "cs = wn (128 + x) # cs'"
    using get_cont_char_inv [OF c(1) Suc.prems(2)] by blast
  obtain xs where xs: "length xs = k" "\<forall>x \<in> set xs. x < 64" "cs' = map (\<lambda>x. wn (128 + x)) xs @ ds"
    using Suc.IH [OF c(2)] Suc.prems(2) x(2) by auto
  show ?case
    by (rule exI [of _ "x # xs"]) (use x xs in simp)
qed simp

lemma get_cont_chars_one:
  assumes "get_cont_chars 1 cs = Inr ds" "\<forall>b \<in> set cs. unat b < 256"
  shows "\<exists>x. x < 64 \<and> cs = wn (128 + x) # ds"
  using get_cont_chars_inv [OF assms] by (fastforce simp: length_Suc_conv)

text \<open>A first continuation byte that has been looked at, or not.\<close>

lemma cont_then:
  assumes "get_cont_char cs = Inr (c, ds)" "get_cont_chars k ds = Inr rest" "\<forall>b \<in> set cs. unat b < 256"
  shows "\<exists>x xs. length xs = k \<and> x < 64 \<and> (\<forall>x \<in> set xs. x < 64) \<and> c = wn (128 + x) \<and> cs = wn (128 + x) # map (\<lambda>x. wn (128 + x)) xs @ rest"
proof -
  obtain x where x: "x < 64" "c = wn (128 + x)" "cs = wn (128 + x) # ds"
    using get_cont_char_inv [OF assms(1,3)] by blast
  then show ?thesis
    using get_cont_chars_inv [OF assms(2)] assms(3) by auto
qed

lemma cont_all:
  assumes "get_cont_chars (Suc k) cs = Inr rest" "\<forall>b \<in> set cs. unat b < 256"
  shows "\<exists>x xs. length xs = k \<and> x < 64 \<and> (\<forall>x \<in> set xs. x < 64) \<and> cs = wn (128 + x) # map (\<lambda>x. wn (128 + x)) xs @ rest"
  using get_cont_chars_inv [OF assms] by (fastforce simp: length_Suc_conv)

abbreviation sequence :: "nat \<Rightarrow> 32 word list \<Rightarrow> 32 word list \<Rightarrow> (nat \<Rightarrow> bool) \<Rightarrow> bool" where
  "sequence k cs rest P \<equiv> \<exists>x xs. length xs = k \<and> x < 64 \<and> (\<forall>x \<in> set xs. x < 64) \<and> cs = wn (128 + x) # map (\<lambda>x. wn (128 + x)) xs @ rest \<and> P x"

lemma sequence_cont:
  assumes "get_cont_char cs = Inr (c, ds)" "get_cont_chars k ds = Inr rest" "\<forall>b \<in> set cs. unat b < 256"
    "\<And>x. x < 64 \<Longrightarrow> c = wn (128 + x) \<Longrightarrow> P x"
  shows "sequence k cs rest P"
  using cont_then [OF assms(1-3)] assms(4) by blast

lemma sequence_all:
  assumes "get_cont_chars (Suc k) cs = Inr rest" "\<forall>b \<in> set cs. unat b < 256" "\<And>x. x < 64 \<Longrightarrow> P x"
  shows "sequence k cs rest P"
  using cont_all [OF assms(1,2)] assms(3) by blast

lemma lead16_inv:
  assumes "x < 16" "utf8_lead16 e (wn (224 + x)) cs s = Inr (k, ds, s')" "get_cont_chars k ds = Inr rest" "\<forall>b \<in> set cs. unat b < 256"
    "\<not> has_flag e 2"
  shows "sequence 1 cs rest (\<lambda>y. (x = 0 \<longrightarrow> 32 \<le> y) \<and> (x = 13 \<longrightarrow> \<not> has_flag e 1 \<longrightarrow> y < 32))"
proof -
  consider (a) "x = 0" | (b) "x = 13" "\<not> has_flag e 1" | (c) "x \<noteq> 0" "\<not> (x = 13 \<and> \<not> has_flag e 1)"
    by blast
  then show ?thesis
  proof cases
    case a
    obtain c where c: "get_cont_char cs = Inr (c, ds)" "has_flag c 0x20" "k = 1"
      using assms(2) unfolding utf8_lead16_def lead16_tests [OF assms(1)] by (simp add: a bind_result_def split: sum.splits prod.splits if_splits)
    show ?thesis
      by (rule sequence_cont [OF c(1) assms(3) [unfolded c(3)] assms(4)]) (use c(2) a in \<open>auto simp: cont_zero cont_tests(11) not_less\<close>)
  next
    case b
    obtain c where c: "get_cont_char cs = Inr (c, ds)" "c AND 0x20 = 0" "k = 1"
      using assms(2,5) b(2) unfolding utf8_lead16_def lead16_tests [OF assms(1)] utf8_surrogates_def
      by (simp add: b(1) bind_result_def split: sum.splits prod.splits if_splits)
    show ?thesis
      by (rule sequence_cont [OF c(1) assms(3) [unfolded c(3)] assms(4)]) (use c(2) b(1) in \<open>auto simp: cont_zero cont_tests(11) not_less\<close>)
  next
    case c
    then have "utf8_lead16 e (wn (224 + x)) cs s = Inr (2, cs, if s < 1 then 1 else s)"
      unfolding utf8_lead16_def lead16_tests [OF assms(1)] by (cases "x = 13") simp_all
    then have "ds = cs" "k = Suc 1"
      using assms(2) by simp_all
    then show ?thesis
      by (intro sequence_all [OF _ assms(4)]) (use assms(3) c in simp_all)
  qed
qed


lemma lead21_inv:
  assumes "x < 8" "utf8_lead21 e (wn (240 + x)) cs = Inr (k, ds)" "get_cont_chars k ds = Inr rest" "\<forall>b \<in> set cs. unat b < 256"
  shows "sequence 2 cs rest (\<lambda>y. (x = 0 \<longrightarrow> 16 \<le> y) \<and> (\<not> has_flag e 1 \<longrightarrow> x \<le> 4) \<and> (x = 4 \<longrightarrow> \<not> has_flag e 1 \<longrightarrow> y < 16))"
proof -
  note t = utf8_lead21_def lead21_tests [OF assms(1)]
  consider (a) "x = 0" | (b) "x = 4" "\<not> has_flag e 1" | (c) "x \<noteq> 0" "\<not> (x = 4 \<and> \<not> has_flag e 1)"
    by blast
  then show ?thesis
  proof cases
    case a
    obtain c where c: "get_cont_char cs = Inr (c, ds)" "has_flag c 0x30" "k = 2"
      using assms(2) unfolding t by (simp add: a bind_result_def split: sum.splits prod.splits if_splits)
    show ?thesis
      by (rule sequence_cont [OF c(1) assms(3) [unfolded c(3)] assms(4)]) (use c(2) a in \<open>auto simp: cont_zero cont_tests(11) not_less\<close>)
  next
    case b
    obtain c where c: "get_cont_char cs = Inr (c, ds)" "\<not> c > 0x8f" "k = 2"
      using assms(2) b(2) unfolding t by (simp add: b(1) bind_result_def split: sum.splits prod.splits if_splits)
    show ?thesis
      by (rule sequence_cont [OF c(1) assms(3) [unfolded c(3)] assms(4)]) (use c(2) b(1) in \<open>auto simp: cont_zero cont_tests(11) not_less\<close>)
  next
    case c
    then have "x \<le> 4 \<or> has_flag e 1" "utf8_lead21 e (wn (240 + x)) cs = Inr (3, cs)"
      using assms(2) unfolding t by (cases "has_flag e 1"; cases "x > 4"; simp)+
    then have "ds = cs" "k = Suc 2" "x \<le> 4 \<or> has_flag e 1"
      using assms(2) by simp_all
    then show ?thesis
      by (intro sequence_all [OF _ assms(4)]) (use assms(3) c in auto)
  qed
qed

lemma lead26_inv:
  assumes "x < 4" "utf8_lead36 (wn (248 + x)) cs = Inr (k, ds)" "get_cont_chars k ds = Inr rest" "\<forall>b \<in> set cs. unat b < 256"
  shows "sequence 3 cs rest (\<lambda>y. x = 0 \<longrightarrow> 8 \<le> y)"
proof -
  note t = utf8_lead36_def lead26_tests [OF assms(1)]
  show ?thesis
  proof (cases "x = 0")
    case True
    obtain c where c: "get_cont_char cs = Inr (c, ds)" "has_flag c 0x38" "k = 3"
      using assms(2) unfolding t by (simp add: True bind_result_def split: sum.splits prod.splits if_splits)
    show ?thesis
      by (rule sequence_cont [OF c(1) assms(3) [unfolded c(3)] assms(4)]) (use c(2) in \<open>auto simp: cont_zero cont_tests(11) not_less\<close>)
  next
    case False
    then have "ds = cs" "k = Suc 3"
      using assms(2) unfolding t by simp_all
    then show ?thesis
      by (intro sequence_all [OF _ assms(4)]) (use assms(3) False in simp_all)
  qed
qed

lemma lead31_inv:
  assumes "x < 2" "utf8_lead36 (wn (252 + x)) cs = Inr (k, ds)" "get_cont_chars k ds = Inr rest" "\<forall>b \<in> set cs. unat b < 256"
  shows "sequence 4 cs rest (\<lambda>y. x = 0 \<longrightarrow> 4 \<le> y)"
proof -
  note t = lead31_tests [OF assms(1)]
  show ?thesis
  proof (cases "x = 0")
    case True
    obtain c where c: "get_cont_char cs = Inr (c, ds)" "has_flag c 0x3c" "k = 4"
      using assms(2) t unfolding utf8_lead36_def by (simp add: True bind_result_def split: sum.splits prod.splits if_splits)
    show ?thesis
      by (rule sequence_cont [OF c(1) assms(3) [unfolded c(3)] assms(4)]) (use c(2) in \<open>auto simp: cont_zero cont_tests(11) not_less\<close>)
  next
    case False
    then have "ds = cs" "k = Suc 4"
      using assms(2) t unfolding utf8_lead36_def by simp_all
    then show ?thesis
      by (intro sequence_all [OF _ assms(4)]) (use assms(3) False in simp_all)
  qed
qed

lemma lead36_inv:
  assumes "utf8_lead36 0xfe cs = Inr (k, ds)" "get_cont_chars k ds = Inr rest" "\<forall>b \<in> set cs. unat b < 256"
  shows "sequence 5 cs rest (\<lambda>y. 2 \<le> y \<and> y < 4)"
proof -
  obtain c where c: "get_cont_char cs = Inr (c, ds)" "has_flag c 0x3e" "c AND 0x3c = 0" "k = 5"
    using assms(1) by (simp add: utf8_lead36_def bind_result_def split: sum.splits prod.splits if_splits)
  show ?thesis
    by (rule sequence_cont [OF c(1) assms(2) [unfolded c(4)] assms(3)]) (use c(2,3) in \<open>auto simp: cont_zero not_less\<close>)
qed


text \<open>The number that the digits of a sequence make.\<close>

lemma digits_of:
  fixes q y :: nat
  assumes "y < 64" "l = k + 6"
  shows "digit l (q * 64 + y) = digit k q" "(q * 64 + y) div 2 ^ l = q div 2 ^ k"
proof -
  have "(2::nat) ^ l = 64 * 2 ^ k"
    by (simp add: assms(2) power_add)
  then have "(q * 64 + y) div 2 ^ l = (q * 64 + y) div 64 div 2 ^ k"
    by (simp only: div_mult2_eq)
  then show e: "(q * 64 + y) div 2 ^ l = q div 2 ^ k"
    using assms(1) by simp
  show "digit l (q * 64 + y) = digit k q"
    unfolding e ..
qed

lemma digits_num:
  fixes q y :: nat
  assumes "y < 64"
  shows "digit 0 (q * 64 + y) = y" "digit 6 (q * 64 + y) = digit 0 q" "digit 12 (q * 64 + y) = digit 6 q" "digit 18 (q * 64 + y) = digit 12 q"
    "digit 24 (q * 64 + y) = digit 18 q" "digit 30 (q * 64 + y) = digit 24 q" "(q * 64 + y) div 2 ^ 6 = q" "(q * 64 + y) div 2 ^ 12 = q div 2 ^ 6"
    "(q * 64 + y) div 2 ^ 18 = q div 2 ^ 12" "(q * 64 + y) div 2 ^ 24 = q div 2 ^ 18" "(q * 64 + y) div 2 ^ 30 = q div 2 ^ 24"
    "(q * 64 + y) mod 64 = y"
proof -
  show "digit 0 (q * 64 + y) = y" "(q * 64 + y) mod 64 = y" "(q * 64 + y) div 2 ^ 6 = q"
    using assms by simp_all
qed (rule digits_of [OF assms]; simp)+

lemma length_lists:
  "length xs = Suc 0 \<longleftrightarrow> (\<exists>a. xs = [a])" "length xs = 2 \<longleftrightarrow> (\<exists>a b. xs = [a, b])" "length xs = 3 \<longleftrightarrow> (\<exists>a b c. xs = [a, b, c])"
  "length xs = 4 \<longleftrightarrow> (\<exists>a b c d. xs = [a, b, c, d])" "length xs = 5 \<longleftrightarrow> (\<exists>a b c d e. xs = [a, b, c, d, e])"
  by (auto simp: length_Suc_conv numeral_eq_Suc)

text \<open>A sequence that has been accepted is the encoding of a character.\<close>

definition encoded :: "64 word \<Rightarrow> 32 word list \<Rightarrow> 32 word list \<Rightarrow> bool" where
  "encoded e bs rest \<longleftrightarrow> (\<exists>c k. utf8_extra e c = Inr k \<and> bs = utf8_char e c @ rest)"

lemma encodedI: "n < 2 ^ 32 \<Longrightarrow> utf8_extra e (wn n) = Inr k \<Longrightarrow> utf8_char e (wn n) @ rest = bs \<Longrightarrow> encoded e bs rest"
  by (auto simp: encoded_def)

lemma encoded_1: "v < 128 \<Longrightarrow> encoded e (wn v # rest) rest"
  by (rule encodedI [of v]) (simp_all add: utf8_char_wn utf8_extra_wn)

lemma encoded_2:
  assumes "2 \<le> x" "x < 32" "y < 64"
  shows "encoded e (wn (192 + x) # wn (128 + y) # rest) rest"
proof (rule encodedI)
  have r: "x * 64 + y < 2 ^ 32" "0x80 \<le> x * 64 + y" "x * 64 + y < 0x800"
    using assms by simp_all
  show "x * 64 + y < 2 ^ 32"
    by (rule r)
  show "utf8_extra e (wn (x * 64 + y)) = Inr 1"
    unfolding utf8_extra_wn [OF r(1)] using r by simp
  show "utf8_char e (wn (x * 64 + y)) @ rest = wn (192 + x) # wn (128 + y) # rest"
    unfolding utf8_char_wn(2) [OF r] digits_num [OF assms(3)] by simp
qed

lemma encoded_3:
  assumes "y < 64" "z < 64" "x < 16" "x = 0 \<longrightarrow> 32 \<le> y" "x = 13 \<longrightarrow> \<not> has_flag e 1 \<longrightarrow> y < 32"
  shows "encoded e (wn (224 + x) # wn (128 + y) # wn (128 + z) # rest) rest"
proof (rule encodedI)
  define n where "n = (x * 64 + y) * 64 + z"
  have r1: "0x800 \<le> n"
    using assms unfolding n_def by (cases "x = 0") simp_all
  have r2: "n < 0x10000"
    using assms unfolding n_def by simp
  note r = r1 r2
  have l: "n < 2 ^ 32"
    using r(2) by simp
  show "(x * 64 + y) * 64 + z < 2 ^ 32"
    using l by (simp only: n_def)
  have "\<not> (0xd800 \<le> n \<and> n \<le> 0xdfff)" if "\<not> has_flag e 1"
  proof -
    consider (a) "x < 13" | (b) "x = 13" | (c) "13 < x"
      by linarith
    then show ?thesis
      by cases (use assms that in \<open>simp_all add: n_def\<close>)
  qed
  then have "utf8_extra e (wn n) = Inr 2"
    unfolding utf8_extra_wn [OF l] using assms r by auto
  then show "utf8_extra e (wn ((x * 64 + y) * 64 + z)) = Inr 2"
    by (simp only: n_def)
  have "utf8_char e (wn n) = [wn (224 + x), wn (128 + y), wn (128 + z)]"
    unfolding utf8_char_wn(3) [OF l r] unfolding n_def digits_num [OF assms(1)] digits_num [OF assms(2)] using assms by simp
  then show "utf8_char e (wn ((x * 64 + y) * 64 + z)) @ rest = wn (224 + x) # wn (128 + y) # wn (128 + z) # rest"
    by (simp add: n_def)
qed

lemma encoded_4:
  assumes "y < 64" "z < 64" "w < 64" "x < 8" "x = 0 \<longrightarrow> 16 \<le> y" "\<not> has_flag e 1 \<longrightarrow> x \<le> 4" "x = 4 \<longrightarrow> \<not> has_flag e 1 \<longrightarrow> y < 16" "\<not> has_flag e 2"
  shows "encoded e (wn (240 + x) # wn (128 + y) # wn (128 + z) # wn (128 + w) # rest) rest"
proof (rule encodedI)
  define n where "n = ((x * 64 + y) * 64 + z) * 64 + w"
  have r1: "0x10000 \<le> n"
    using assms unfolding n_def by (cases "x = 0") simp_all
  have r2: "n < 0x200000"
    using assms unfolding n_def by simp
  note r = r1 r2
  have l: "n < 2 ^ 32"
    using r(2) by simp
  show "((x * 64 + y) * 64 + z) * 64 + w < 2 ^ 32"
    using l by (simp only: n_def)
  have "n \<le> 0x10ffff" if "\<not> has_flag e 1"
  proof -
    have "x < 4 \<or> x = 4"
      using assms(6) that by auto
    then show ?thesis
      by (elim disjE) (use assms that in \<open>simp_all add: n_def\<close>)
  qed
  then have "utf8_extra e (wn n) = Inr 3"
    unfolding utf8_extra_wn [OF l] using assms(8) r by auto
  then show "utf8_extra e (wn (((x * 64 + y) * 64 + z) * 64 + w)) = Inr 3"
    by (simp only: n_def)
  have nf: "\<not> (has_flag e 2 \<and> n \<le> 0x10ffff)"
    using assms(8) by simp
  have "utf8_char e (wn n) = [wn (240 + x), wn (128 + y), wn (128 + z), wn (128 + w)]"
    unfolding utf8_char_wn(4) [OF l r nf] unfolding n_def digits_num [OF assms(1)] digits_num [OF assms(2)] digits_num [OF assms(3)] using assms by simp
  then show "utf8_char e (wn (((x * 64 + y) * 64 + z) * 64 + w)) @ rest = wn (240 + x) # wn (128 + y) # wn (128 + z) # wn (128 + w) # rest"
    by (simp add: n_def)
qed

lemma encoded_5:
  assumes "y < 64" "z < 64" "w < 64" "v < 64" "x < 4" "x = 0 \<longrightarrow> 8 \<le> y" "has_flag e 1" "\<not> has_flag e 2"
  shows "encoded e (wn (248 + x) # wn (128 + y) # wn (128 + z) # wn (128 + w) # wn (128 + v) # rest) rest"
proof (rule encodedI)
  define n where "n = (((x * 64 + y) * 64 + z) * 64 + w) * 64 + v"
  have r1: "0x200000 \<le> n"
    using assms unfolding n_def by (cases "x = 0") simp_all
  have r2: "n < 0x4000000"
    using assms unfolding n_def by simp
  note r = r1 r2
  have l: "n < 2 ^ 32"
    using r(2) by simp
  show "(((x * 64 + y) * 64 + z) * 64 + w) * 64 + v < 2 ^ 32"
    using l by (simp only: n_def)
  have "utf8_extra e (wn n) = Inr 4"
    unfolding utf8_extra_wn [OF l] using assms r by auto
  then show "utf8_extra e (wn ((((x * 64 + y) * 64 + z) * 64 + w) * 64 + v)) = Inr 4"
    by (simp only: n_def)
  have "utf8_char e (wn n) = [wn (248 + x), wn (128 + y), wn (128 + z), wn (128 + w), wn (128 + v)]"
    unfolding utf8_char_wn(5) [OF l r] unfolding n_def digits_num [OF assms(1)] digits_num [OF assms(2)] digits_num [OF assms(3)] digits_num [OF assms(4)] using assms by simp
  then show "utf8_char e (wn ((((x * 64 + y) * 64 + z) * 64 + w) * 64 + v)) @ rest = wn (248 + x) # wn (128 + y) # wn (128 + z) # wn (128 + w) # wn (128 + v) # rest"
    by (simp add: n_def)
qed

lemma encoded_6:
  assumes "y < 64" "z < 64" "w < 64" "v < 64" "u < 64" "x < 2" "x = 0 \<longrightarrow> 4 \<le> y" "has_flag e 1" "\<not> has_flag e 2"
  shows "encoded e (wn (252 + x) # wn (128 + y) # wn (128 + z) # wn (128 + w) # wn (128 + v) # wn (128 + u) # rest) rest"
proof (rule encodedI)
  define n where "n = ((((x * 64 + y) * 64 + z) * 64 + w) * 64 + v) * 64 + u"
  have r1: "0x4000000 \<le> n"
    using assms unfolding n_def by (cases "x = 0") simp_all
  have r2: "n < 0x80000000"
    using assms unfolding n_def by simp
  note r = r1 r2
  have l: "n < 2 ^ 32"
    using r(2) by simp
  show "((((x * 64 + y) * 64 + z) * 64 + w) * 64 + v) * 64 + u < 2 ^ 32"
    using l by (simp only: n_def)
  have "utf8_extra e (wn n) = Inr 5"
    unfolding utf8_extra_wn [OF l] using assms r by auto
  then show "utf8_extra e (wn (((((x * 64 + y) * 64 + z) * 64 + w) * 64 + v) * 64 + u)) = Inr 5"
    by (simp only: n_def)
  have "utf8_char e (wn n) = [wn (252 + x), wn (128 + y), wn (128 + z), wn (128 + w), wn (128 + v), wn (128 + u)]"
    unfolding utf8_char_wn(6) [OF l r] unfolding n_def digits_num [OF assms(1)] digits_num [OF assms(2)] digits_num [OF assms(3)] digits_num [OF assms(4)] digits_num [OF assms(5)] using assms by simp
  then show "utf8_char e (wn (((((x * 64 + y) * 64 + z) * 64 + w) * 64 + v) * 64 + u)) @ rest = wn (252 + x) # wn (128 + y) # wn (128 + z) # wn (128 + w) # wn (128 + v) # wn (128 + u) # rest"
    by (simp add: n_def)
qed

lemma encoded_7:
  assumes "y < 64" "z < 64" "w < 64" "v < 64" "u < 64" "t < 64" "2 \<le> y \<and> y < 4" "has_flag e 1" "\<not> has_flag e 2"
  shows "encoded e (0xfe # wn (128 + y) # wn (128 + z) # wn (128 + w) # wn (128 + v) # wn (128 + u) # wn (128 + t) # rest) rest"
proof (rule encodedI)
  define n where "n = ((((y * 64 + z) * 64 + w) * 64 + v) * 64 + u) * 64 + t"
  have r1: "0x80000000 \<le> n"
    using assms unfolding n_def by simp_all
  have r2: "n < 4294967296"
    using assms unfolding n_def by simp
  note r = r1 r2
  have l: "n < 2 ^ 32"
    using r(2) by simp
  show "((((y * 64 + z) * 64 + w) * 64 + v) * 64 + u) * 64 + t < 2 ^ 32"
    using l by (simp only: n_def)
  have "utf8_extra e (wn n) = Inr 6"
    unfolding utf8_extra_wn [OF l] using assms r by auto
  then show "utf8_extra e (wn (((((y * 64 + z) * 64 + w) * 64 + v) * 64 + u) * 64 + t)) = Inr 6"
    by (simp only: n_def)
  have "utf8_char e (wn n) = [0xfe, wn (128 + y), wn (128 + z), wn (128 + w), wn (128 + v), wn (128 + u), wn (128 + t)]"
    unfolding utf8_char_wn(7) [OF l r(1)] unfolding n_def digits_num [OF assms(1)] digits_num [OF assms(2)] digits_num [OF assms(3)] digits_num [OF assms(4)] digits_num [OF assms(5)] digits_num [OF assms(6)] using assms by simp
  then show "utf8_char e (wn (((((y * 64 + z) * 64 + w) * 64 + v) * 64 + u) * 64 + t)) @ rest = 0xfe # wn (128 + y) # wn (128 + z) # wn (128 + w) # wn (128 + v) # wn (128 + u) # wn (128 + t) # rest"
    by (simp add: n_def)
qed


text \<open>The first byte decides which kind of sequence it is.\<close>

lemma lead_encoded:
  assumes "unat b < 256" "has_flag b 0x80" "utf8_lead e b cs s = Inr (k, ds, s')" "get_cont_chars k ds = Inr rest" "\<forall>b \<in> set cs. unat b < 256"
    "\<not> has_flag e 2"
  shows "encoded e (b # cs) rest"
proof -
  define v where "v = unat b"
  have bv: "b = wn v" "v < 256"
    using assms(1) by (simp_all add: v_def)
  have "128 \<le> v"
    using assms(2) ascii_tests [of v] bv(1) by (cases "v < 128") auto
  moreover have "\<not> (128 \<le> v \<and> v < 192)"
  proof
    assume v: "128 \<le> v \<and> v < 192"
    then have "wn (128 + (v - 128)) AND 0xc0 = 0x80"
      by (intro cont_tests(2)) linarith
    then show False
      using assms(3) v bv(1) by (simp add: utf8_lead_def)
  qed
  ultimately consider (a) "192 \<le> v" "v < 224" | (b) "224 \<le> v" "v < 240" | (c) "240 \<le> v" "v < 248" |
      (d) "248 \<le> v" "v < 252" | (e) "252 \<le> v" "v < 254" | (f) "v = 254" | (g) "v = 255"
    using bv(2) by linarith
  then show ?thesis
  proof cases
    case a
    define x where "x = v - 192"
    have x: "b = wn (192 + x)" "x < 32"
      using a bv(1) by (simp_all add: x_def)
    note t = lead11_tests [OF x(2)]
    have "2 \<le> x" "k = 1" "ds = cs"
      using assms(3) t unfolding x(1) utf8_lead_def by (auto split: if_splits)
    then show ?thesis
      using encoded_2 get_cont_chars_one [OF _ assms(5)] assms(4) x by auto
  next
    case b
    define x where "x = v - 224"
    have x: "b = wn (224 + x)" "x < 16"
      using b bv(1) by (simp_all add: x_def)
    have "utf8_lead16 e b cs s = Inr (k, ds, s')"
      using assms(3) lead16_tests(2-4) [OF x(2)] by (simp add: utf8_lead_def x(1))
    then have "sequence 1 cs rest (\<lambda>y. (x = 0 \<longrightarrow> 32 \<le> y) \<and> (x = 13 \<longrightarrow> \<not> has_flag e 1 \<longrightarrow> y < 32))"
      using lead16_inv [OF x(2) _ assms(4-6)] unfolding x(1) by blast
    then show ?thesis
      using encoded_3 x by (auto simp: length_lists)
  next
    case c
    define x where "x = v - 240"
    have x: "b = wn (240 + x)" "x < 8"
      using c bv(1) by (simp_all add: x_def)
    have "utf8_lead21 e b cs = Inr (k, ds)"
      using assms(3) lead21_tests(2-5) [OF x(2)] by (cases "utf8_lead21 e b cs") (auto simp: utf8_lead_def x(1))
    then have "sequence 2 cs rest (\<lambda>y. (x = 0 \<longrightarrow> 16 \<le> y) \<and> (\<not> has_flag e 1 \<longrightarrow> x \<le> 4) \<and> (x = 4 \<longrightarrow> \<not> has_flag e 1 \<longrightarrow> y < 16))"
      using lead21_inv [OF x(2) _ assms(4,5)] unfolding x(1) by blast
    then show ?thesis
      using encoded_4 x assms(6) by (auto simp: length_lists)
  next
    case d
    define x where "x = v - 248"
    have x: "b = wn (248 + x)" "x < 4"
      using d bv(1) by (simp_all add: x_def)
    have f: "has_flag e 1" "utf8_lead36 b cs = Inr (k, ds)"
      using assms(3) lead26_tests [OF x(2)] by (cases "utf8_lead36 b cs"; auto simp: utf8_lead_def x(1) split: if_splits)+
    then have "sequence 3 cs rest (\<lambda>y. x = 0 \<longrightarrow> 8 \<le> y)"
      using lead26_inv [OF x(2) _ assms(4,5)] unfolding x(1) by blast
    then show ?thesis
      using encoded_5 x assms(6) f(1) by (auto simp: length_lists)
  next
    case e
    define x where "x = v - 252"
    have x: "b = wn (252 + x)" "x < 2"
      using e bv(1) by (simp_all add: x_def)
    have f: "has_flag e 1" "utf8_lead36 b cs = Inr (k, ds)"
      using assms(3) lead31_tests [OF x(2)] by (cases "utf8_lead36 b cs"; auto simp: utf8_lead_def x(1) split: if_splits)+
    then have "sequence 4 cs rest (\<lambda>y. x = 0 \<longrightarrow> 4 \<le> y)"
      using lead31_inv [OF x(2) _ assms(4,5)] unfolding x(1) by blast
    then show ?thesis
      using encoded_6 x assms(6) f(1) by (auto simp: length_lists)
  next
    case f
    have x: "b = 0xfe"
      by (simp add: bv(1) f wn_def)
    have f: "has_flag e 1" "utf8_lead36 0xfe cs = Inr (k, ds)"
      using assms(3) by (cases "utf8_lead36 0xfe cs"; auto simp: utf8_lead_def x split: if_splits)+
    then have "sequence 5 cs rest (\<lambda>y. 2 \<le> y \<and> y < 4)"
      using lead36_inv [OF _ assms(4,5)] by blast
    then show ?thesis
      using encoded_7 x assms(6) f(1) by (auto simp: length_lists)
  next
    case g
    have "b = 0xff"
      by (simp add: bv(1) g wn_def)
    then show ?thesis
      using assms(3) by (simp add: utf8_lead_def)
  qed
qed


lemma scan_encoded:
  assumes "utf8_scan e bs m s = Inr r" "\<forall>b \<in> set bs. unat b < 256" "\<not> has_flag e 2"
  shows "\<exists>cs n. bs = utf8_bytes e cs \<and> utf8_length e cs l = Inr n"
  using assms(1,2)
proof (induction "length bs" arbitrary: bs m s l rule: less_induct)
  case less
  show ?case
  proof (cases bs)
    case Nil
    then show ?thesis
      by (auto intro!: exI [of _ "[]"])
  next
    case (Cons b bs')
    have "\<exists>rest m' s'. encoded e bs rest \<and> length rest < length bs \<and> utf8_scan e rest m' s' = Inr r"
    proof (cases "has_flag b 0x80")
      case True
      then obtain k ds s' where l: "utf8_lead e b bs' s = Inr (k, ds, s')"
        using less.prems(1) Cons by (cases "utf8_lead e b bs' s") auto
      then obtain rest where c: "get_cont_chars k ds = Inr rest" "utf8_scan e rest (m + 1) s' = Inr r"
        using less.prems(1) Cons True by (cases "get_cont_chars k ds") auto
      have "encoded e bs rest"
        using lead_encoded [OF _ True l c(1) _ assms(3)] less.prems(2) Cons by simp
      moreover have "length rest < length bs"
        using get_cont_chars_length [OF c(1)] utf8_lead_length [OF l] Cons by simp
      ultimately show ?thesis
        using c(2) by blast
    next
      case False
      have "unat b < 128"
      proof (rule ccontr)
        assume "\<not> unat b < 128"
        then have "unat b div 128 = 1"
          using less.prems(2) Cons by (intro div_nat_eqI) auto
        then show False
          using False by (simp add: word_unat_eq_iff unat_masks)
      qed
      then have "encoded e bs bs'"
        using encoded_1 [of "unat b" e bs'] Cons by simp
      then show ?thesis
        using less.prems(1) False Cons by auto
    qed
    then obtain rest m' s' c k where r: "utf8_extra e c = Inr k" "bs = utf8_char e c @ rest" "length rest < length bs" "utf8_scan e rest m' s' = Inr r"
      unfolding encoded_def by blast
    obtain cs n where "rest = utf8_bytes e cs" "utf8_length e cs (l + k) = Inr n"
      using less.hyps [OF r(3,4), of "l + k"] less.prems(2) r(2) by auto
    then show ?thesis
      using r(1,2) by (intro exI [of _ "c # cs"]) simp
  qed
qed

lemma byte_string:
  assumes "string_ok t" "size_shift t = 0"
  shows "\<forall>b \<in> set (chars t). unat b < 256"
  using magnitude_chars(1) [of _ "chars t"] assms by (auto simp: string_ok_def word_less_nat_alt)

lemma accepted_bytes:
  assumes "string_ok t" "f_utf8_to_string t e = Inr r" "\<not> has_flag e 2"
  shows "\<exists>cs n. chars t = utf8_bytes e cs \<and> utf8_length e cs 0 = Inr n"
proof -
  obtain mn mx where r: "snd (check_string_range t True True) = (mn, mx)"
    by (cases "snd (check_string_range t True True)")
  have sh: "size_shift t = 0"
    using assms(2) by (auto simp: f_utf8_to_string_def split: if_splits)
  show ?thesis
  proof (cases "mn \<ge> 0 \<and> mx \<le> 0x7f")
    case True
    show ?thesis
      using utf8_length_ascii(1,2) [OF ascii_range [OF assms(1) r True]] by (intro exI [of _ "chars t"]) simp
  next
    case False
    obtain q where "utf8_scan e (chars t) 0 0 = Inr q"
      using assms(2) r False sh by (cases "utf8_scan e (chars t) 0 0") (auto simp: f_utf8_to_string_def)
    then show ?thesis
      using scan_encoded [OF _ byte_string [OF assms(1) sh] assms(3)] by blast
  qed
qed

section \<open>Properties\<close>

text \<open>C18: A text has one encoding only: the bytes that utf8_to_string accepts, without the option for pairs of
  surrogates, are those that string_to_utf8 makes of the result, and the width of the result is the least
  one.\<close>

theorem utf8_canonical:
  assumes "string_ok t" "f_utf8_to_string t e = Inr (shift, cs)" "\<not> has_flag e 2" "string_ok u" "chars u = cs"
  shows "shift = size_shift u \<and> f_string_to_utf8 u e = Inr (chars t)"
proof -
  obtain ds n where d: "chars t = utf8_bytes e ds" "utf8_length e ds 0 = Inr n"
    using accepted_bytes [OF assms(1-3)] by blast
  have one: "one_option e"
    using assms(3) by blast
  have "size_shift t = 0"
    using assms(2) by (auto simp: f_utf8_to_string_def split: if_splits)
  then have "f_utf8_to_string t e = Inr (find_magnitude2 ds, ds)"
    using utf8_to_string_bytes [OF d(2) one assms(1) _ d(1)] by blast
  then have e: "shift = find_magnitude2 cs" "ds = cs"
    using assms(2) by auto
  obtain n' where "utf8_length e (chars u) (len u) = Inr n'"
    using accepted_chars [OF d(2)] e(2) assms(5) by blast
  then have "f_string_to_utf8 u e = Inr (utf8_bytes e (chars u))"
    using string_to_utf8_accepted [OF assms(4) _ one] by blast
  then show ?thesis
    using e d(1) assms(4,5) by (simp add: string_ok_def)
qed

theorem utf8_canonical_witness:
  "f_string_to_utf8 (new_string 1 [0x20ac]) 0 = Inr [0xe2, 0x82, 0xac]"
proof -
  let ?t = "new_string 0 [0xe2, 0x82, 0xac]" and ?u = "new_string 1 [0x20ac]"
  have "string_ok ?t" "string_ok ?u"
    by (simp_all add: string_ok_def bounds_ok_def new_string_def)
  moreover have g: "get_cont_chars 2 [0x82, 0xac] = Inr []" and j: "join_bytes 2 2 [0x82, 0xac] = Inr (0x20ac, [])"
    unfolding numeral_2_eq_2 by (simp_all add: get_cont_char_def)
  have "f_utf8_to_string ?t 0 = Inr (1, chars ?u)"
    by (simp add: new_string_def f_utf8_to_string_def check_string_range_def loose_range_def utf8_lead_def utf8_lead16_def
        get_cont_char_def decode_char_def decode_char1_def emit_def store_char_def filled_def g j)
  ultimately show ?thesis
    using utf8_canonical [of ?t 0 1 "chars ?u" ?u] by (auto simp: new_string_def)
qed


section \<open>Where the routines differ\<close>

lemmas utf8_eval = new_string_def f_utf8_to_string_def check_string_range_def loose_range_def utf8_lead_def utf8_lead16_def utf8_lead21_def
  utf8_surrogates_def get_cont_char_def decode_char_def decode_char0_def decode_char1_def decode_char2_def emit_def store_char_def filled_def pair_up_def min_int32_def max_int32_def

lemma cont_chars_eval:
  "get_cont_chars (numeral k) cs = bind_result (get_cont_char cs) (\<lambda>(c, cs). get_cont_chars (pred_numeral k) cs)"
  by (simp only: numeral_eq_Suc get_cont_chars.simps)

lemma join_bytes_eval:
  "join_bytes (numeral k) c cs = bind_result (next_byte cs) (\<lambda>(c2, cs). join_bytes (pred_numeral k) (push_bit 6 c OR (c2 AND 0x3f)) cs)"
  by (simp only: numeral_eq_Suc join_bytes.simps)

text \<open>With the option for pairs the decoder looks for a second surrogate by ten bits only, and takes a
  character above the first plane for one.\<close>

lemma plane_taken_for_surrogate:
  "f_utf8_to_string (new_string 0 [0xf0, 0x9d, 0xb0, 0x80]) 2 = Inl Bad_Memory_Access"
  by (simp add: utf8_eval cont_chars_eval join_bytes_eval)

text \<open>With both options the decoder does not put a pair together.\<close>

lemma both_options_differ:
  "f_string_to_utf8 (new_string 2 [0x10000]) 3 = Inr [0xed, 0xa0, 0x80, 0xed, 0xb0, 0x80]"
  "f_utf8_to_string (new_string 0 [0xed, 0xa0, 0x80, 0xed, 0xb0, 0x80]) 3 = Inr (1, [0xd800, 0xdc00])"
  by (simp_all add: utf8_eval cont_chars_eval join_bytes_eval f_string_to_utf8_def utf8_extra_def utf8_char_def cont_byte_def Let_def)

text \<open>The validation refuses a first surrogate before an ASCII character that the decoder accepts.\<close>

lemma validate_differs:
  "f_validate_utf8 (Some (new_string 0 [0xed, 0xa0, 0x80, 0x41])) 1 = Inr False"
  "f_utf8_to_string (new_string 0 [0xed, 0xa0, 0x80, 0x41]) 1 = Inr (1, [0xd800, 0x41])"
  by (simp_all add: utf8_eval cont_chars_eval join_bytes_eval f_validate_utf8_def validate_char_def)

end
