(* ===== verification/Utf8_Valid.thy ===== *)
theory Utf8_Valid
  imports Utf8_Inv
begin

text \<open>
  \<open>validate_utf8\<close> accepts what \<open>utf8_to_string\<close> decodes. It counts the continuation bytes by the leading
  ones of the first byte and tests the number they make with masks that grow with it.
\<close>

section \<open>The masks\<close>

definition bn :: "nat \<Rightarrow> 8 word" where
  "bn v = word_of_nat v"

definition qn :: "nat \<Rightarrow> 64 word" where
  "qn a = word_of_nat a"

lemma unat_qn: "a < 2 ^ 64 \<Longrightarrow> unat (qn a) = a"
  by (simp add: qn_def unat_of_nat)

lemma unat_qn_mod: "unat (qn a) = a mod 2 ^ 64"
  by (simp add: qn_def unat_of_nat)

lemma bn_flag: "has_flag (bn v) 0x40 \<longleftrightarrow> odd (v div 64)"
proof -
  have "unat (bn v AND 0x40) = unat (bn v) div 2 ^ 6 mod 2 ^ 1 * 2 ^ 6"
    by (rule unat_and_mask) simp_all
  moreover have "unat (bn v) = v mod 256"
    by (simp add: bn_def unat_of_nat)
  moreover have "v mod 256 div 64 mod 2 = v div 64 mod 2"
  proof -
    have "v mod (64 * 4) = 64 * (v div 64 mod 4) + v mod 64"
      by (rule mod_mult2_eq)
    then have "v mod 256 div 64 = v div 64 mod 4"
      by simp
    then show ?thesis
      by (simp add: mod_mod_cancel)
  qed
  ultimately show ?thesis
    by (simp add: word_unat_eq_iff odd_iff_mod_2_eq_one)
qed

lemma bn_shift: "bn v * 2 = bn (2 * v)"
  by (simp add: bn_def)

lemma join_qn:
  assumes "y < 64"
  shows "push_bit 6 (qn a) OR ucast (wn y) = qn (a * 64 + y)"
proof -
  have "ucast (wn y) = qn y"
    using assms by (simp add: word_unat_eq_iff unat_qn unsigned_ucast_eq take_bit_nat_eq_self)
  moreover have "push_bit 6 (qn a) AND qn y = 0"
  proof (rule bit_eqI)
    fix i
    have lt: "y < 2 ^ i" if "6 \<le> i"
      using assms power_increasing [OF that, of "2::nat"] by simp
    then have "\<not> bit (qn y) i" if "6 \<le> i"
    proof -
      have "\<not> bit (unat (qn y)) i"
        using lt [OF that] assms by (simp add: unat_qn bit_iff_odd)
      then show ?thesis
        by (simp add: bit_unsigned_iff)
    qed
    then show "bit (push_bit 6 (qn a) AND qn y) i = bit 0 i"
      by (auto simp: bit_simps not_le)
  qed
  ultimately have "push_bit 6 (qn a) OR ucast (wn y) = push_bit 6 (qn a) + qn y"
    by (simp add: disjunctive_add_eq_or)
  also have "\<dots> = qn (a * 64 + y)"
    by (simp add: qn_def push_bit_eq_mult)
  finally show ?thesis .
qed

lemma mask_grows: "5 \<le> k \<Longrightarrow> mask k OR push_bit 5 (mask k) = (mask (k + 5) :: 64 word)"
  by (rule bit_eqI) (auto simp: bit_simps)

text \<open>The loop over the continuation bytes.\<close>

abbreviation conts :: "nat list \<Rightarrow> 32 word list" where
  "conts ys \<equiv> map (\<lambda>y. wn (128 + y)) ys"

lemma validate_cont_run:
  assumes "\<forall>i < j. odd (v * 2 ^ i div 64)" "even (v * 2 ^ j div 64)" "\<forall>b \<in> set cs. unat b < 256" "5 \<le> k"
  shows "validate_cont (bn v) cs (qn a) (mask k) (push_bit l h) = Some r \<longleftrightarrow>
    (\<exists>ys rest. length ys = j \<and> (\<forall>y \<in> set ys. y < 64) \<and> cs = conts ys @ rest \<and>
      r = (rest, qn (foldl (\<lambda>a y. a * 64 + y) a ys), mask (k + 5 * j), push_bit (l + 5 * j) h))"
  using assms
proof (induction j arbitrary: v cs a k l)
  case 0
  then show ?case
    by (cases cs) (auto simp: bn_flag)
next
  case (Suc j)
  have odd: "odd (v div 64)"
    using Suc.prems(1) [rule_format, of 0] by simp
  have prem: "\<forall>i < j. odd (2 * v * 2 ^ i div 64)" "even (2 * v * 2 ^ j div 64)"
    using Suc.prems(1) [rule_format, of "Suc _"] Suc.prems(2) by (simp_all add: ac_simps)
  show ?case
  proof (cases cs)
    case Nil
    then show ?thesis
      using odd by (auto simp: bn_flag)
  next
    case (Cons c cs')
    show ?thesis
    proof (cases "c AND 0xc0 = 0x80")
      case False
      then have "c \<noteq> wn (128 + y)" if "y < 64" for y
        using cont_tests(2) [OF that] by blast
      then show ?thesis
        using odd False unfolding Cons by (auto simp: bn_flag length_Suc_conv)
    next
      case True
      obtain y where y: "y < 64" "c = wn (128 + y)"
        using byte_cont [OF _ True] Suc.prems(3) Cons by auto
      have step: "validate_cont (bn v) cs (qn a) (mask k) (push_bit l h) =
        validate_cont (bn (2 * v)) cs' (qn (a * 64 + y)) (mask (k + 5)) (push_bit (l + 5) h)"
        using odd y(1) mask_grows [OF Suc.prems(4)] unfolding Cons y(2)
        by (simp add: bn_flag bn_shift cont_tests(2,3) join_qn add.commute [of l 5])
      have inj: "y = y'" if "wn (128 + y) = wn (128 + y')" "y' < 64" for y'
        using y(1) that by (auto dest!: arg_cong [of _ _ unat])
      have "5 \<le> k + 5" "\<forall>b \<in> set cs'. unat b < 256"
        using Suc.prems(3) Cons by simp_all
      note ih = Suc.IH [OF prem this(2,1)]
      show ?thesis
        unfolding step ih
      proof (intro iffI; elim exE conjE)
        fix ys rest
        assume a: "length ys = j" "\<forall>y \<in> set ys. y < 64" "cs' = conts ys @ rest"
          "r = (rest, qn (foldl (\<lambda>a y. a * 64 + y) (a * 64 + y) ys), mask (k + 5 + 5 * j), push_bit (l + 5 + 5 * j) h)"
        show "\<exists>ys rest. length ys = Suc j \<and> (\<forall>y \<in> set ys. y < 64) \<and> cs = conts ys @ rest \<and>
          r = (rest, qn (foldl (\<lambda>a y. a * 64 + y) a ys), mask (k + 5 * Suc j), push_bit (l + 5 * Suc j) h)"
          by (intro exI [of _ "y # ys"] exI [of _ rest]) (use a y Cons in \<open>simp add: algebra_simps\<close>)
      next
        fix ys rest
        assume a: "length ys = Suc j" "\<forall>y \<in> set ys. y < 64" "cs = conts ys @ rest"
          "r = (rest, qn (foldl (\<lambda>a y. a * 64 + y) a ys), mask (k + 5 * Suc j), push_bit (l + 5 * Suc j) h)"
        obtain y' ys' where ys: "ys = y' # ys'"
          using a(1) by (cases ys) auto
        have "y' = y"
          using inj [of y'] a(2,3) ys y(2) Cons by auto
        then show "\<exists>ys rest. length ys = j \<and> (\<forall>y \<in> set ys. y < 64) \<and> cs' = conts ys @ rest \<and>
          r = (rest, qn (foldl (\<lambda>a y. a * 64 + y) (a * 64 + y) ys), mask (k + 5 + 5 * j), push_bit (l + 5 + 5 * j) h)"
          by (intro exI [of _ ys'] exI [of _ rest]) (use a ys Cons in \<open>simp add: algebra_simps\<close>)
      qed
    qed
  qed
qed


text \<open>What is tested of the number.\<close>

lemma validate_char_number:
  assumes "\<not> has_flag e 1" "\<not> has_flag e 2" "n < 2 ^ 64" "j \<le> 6"
  shows "validate_char e (qn n) (mask (6 + 5 * j)) (push_bit (1 + 5 * j) 31) 0 =
    (let m = n mod 2 ^ (6 + 5 * j) in
     if m < 2 ^ (1 + 5 * j) \<or> m < 0x80 \<or> 0xd800 \<le> m \<and> m \<le> 0xdfff \<or> m \<ge> 0x110000 then None else Some 0)"
proof -
  define m where "m = n mod 2 ^ (6 + 5 * j)"
  define ch where "ch = qn n AND mask (6 + 5 * j)"
  have "ch = take_bit (6 + 5 * j) (qn n)"
    by (simp add: ch_def take_bit_eq_mask)
  then have u: "unat ch = m"
    using assms(3) by (simp add: unsigned_take_bit_eq unat_qn m_def) (simp add: take_bit_eq_mod)
  have hi: "ch AND push_bit (1 + 5 * j) 31 = 0 \<longleftrightarrow> m < 2 ^ (1 + 5 * j)"
  proof -
    have "unat (ch AND push_bit (1 + 5 * j) 31) = m div 2 ^ (1 + 5 * j) mod 2 ^ 5 * 2 ^ (1 + 5 * j)"
      unfolding u [symmetric] by (rule unat_and_mask) (use assms(4) in \<open>simp_all add: mask_eq_exp_minus_1\<close>)
    moreover have "m < 2 ^ 5 * 2 ^ (1 + 5 * j)"
      unfolding m_def power_add [symmetric] by simp
    then have "m div 2 ^ (1 + 5 * j) < 2 ^ 5"
      by (rule less_mult_imp_div_less)
    ultimately show ?thesis
      by (simp add: word_unat_eq_iff div_eq_0_iff)
  qed
  have sur: "ch AND NOT 0x7ff = 0xd800 \<longleftrightarrow> 0xd800 \<le> m \<and> m \<le> 0xdfff"
  proof -
    have "ch AND NOT (mask 11) = push_bit 11 (drop_bit 11 ch)"
      by (rule bit_eqI) (auto simp: bit_simps)
    then have "ch AND NOT 0x7ff = push_bit 11 (drop_bit 11 ch)"
      by (simp add: mask_eq_exp_minus_1)
    moreover have "unat (push_bit 11 (drop_bit 11 ch)) = m div 2 ^ 11 * 2 ^ 11"
    proof -
      have "m div 2 ^ 11 * 2 ^ 11 \<le> m"
        using div_mult_mod_eq [of m "2 ^ 11"] by linarith
      also have "m < 2 ^ 64"
        unfolding u [symmetric] by (rule order.strict_trans2 [OF unsigned_less]) simp
      finally have t: "take_bit 64 (m div 2 ^ 11 * 2 ^ 11) = m div 2 ^ 11 * 2 ^ 11"
        by (rule take_bit_nat_eq_self)
      show ?thesis
        unfolding unsigned_push_bit_eq unat_drop_bit_eq u unfolding push_bit_eq_mult drop_bit_eq_div using t by simp
    qed
    ultimately have "unat (ch AND NOT 0x7ff) = m div 2 ^ 11 * 2 ^ 11"
      by simp
    then have "ch AND NOT 0x7ff = 0xd800 \<longleftrightarrow> m div 2048 = 27"
      by (simp add: word_unat_eq_iff)
    also have "\<dots> \<longleftrightarrow> 0xd800 \<le> m \<and> m \<le> 0xdfff"
      using div_mult_mod_eq [of m 2048] mod_less_divisor [of 2048 m] by (auto intro: div_nat_eqI)
    finally show ?thesis .
  qed
  have "e AND 3 = 0"
  proof -
    have "e AND 3 = (e AND 1) OR (e AND 2)"
      by (simp add: bit.conj_disj_distrib [symmetric])
    then show ?thesis
      using assms(1,2) by simp
  qed
  then show ?thesis
    unfolding validate_char_def ch_def [symmetric] hi sur m_def [symmetric] Let_def
    using assms(1) by (auto simp: word_less_nat_alt word_le_nat_alt u)
qed


section \<open>The bytes of one character\<close>

abbreviation join :: "nat \<Rightarrow> nat list \<Rightarrow> nat" where
  "join a ys \<equiv> foldl (\<lambda>a y. a * 64 + y) a ys"

lemma join_bound: "\<forall>y \<in> set ys. y < 64 \<Longrightarrow> join a ys < (a + 1) * 64 ^ length ys"
proof (induction ys arbitrary: a)
  case (Cons y ys)
  have "a * 64 + y + 1 \<le> (a + 1) * 64"
    using Cons.prems by simp
  then have le: "(a * 64 + y + 1) * 64 ^ length ys \<le> (a + 1) * 64 * 64 ^ length ys"
    by (rule mult_le_mono1)
  have "join a (y # ys) = join (a * 64 + y) ys"
    by simp
  also have "\<dots> < (a * 64 + y + 1) * 64 ^ length ys"
    using Cons.IH Cons.prems by simp
  also note le
  also have "(a + 1) * 64 * 64 ^ length ys = (a + 1) * 64 ^ length (y # ys)"
    by (simp only: length_Cons power_Suc mult.assoc)
  finally show ?case .
qed simp

text \<open>One round of the loop, for a first byte with \<open>j\<close> leading ones after the first.\<close>

lemma validate_round:
  assumes "\<not> has_flag e 1" "\<not> has_flag e 2" "\<forall>i < j. odd (v * 2 ^ i div 64)" "even (v * 2 ^ j div 64)" "0 < j" "j \<le> 6"
    "\<forall>b \<in> set cs. unat b < 256" "128 \<le> v" "v < 255"
  shows "validate_loop e (wn v # cs) 0 \<longleftrightarrow>
    (\<exists>ys rest. length ys = j \<and> (\<forall>y \<in> set ys. y < 64) \<and> cs = conts ys @ rest \<and>
      (let m = join v ys mod 2 ^ (6 + 5 * j) in 2 ^ (1 + 5 * j) \<le> m \<and> 0x80 \<le> m \<and> \<not> (0xd800 \<le> m \<and> m \<le> 0xdfff) \<and> m < 0x110000) \<and>
      validate_loop e rest 0)"
proof -
  have m: "(0x3f :: 64 word) = mask 6" "(0x3e :: 64 word) = push_bit 1 31"
    by (simp_all add: mask_eq_exp_minus_1)
  have uc: "ucast (wn v) = bn v" "ucast (wn v) = qn v"
    using assms(9) by (simp_all add: word_unat_eq_iff unsigned_ucast_eq bn_def unat_of_nat qn_def take_bit_eq_mod)
  have t: "has_flag (wn v) 0x80" "has_flag (wn v) 0x40" "wn v \<noteq> 0xff"
  proof -
    have u: "unat (wn v) = v" "v div 128 = 1"
      using assms(8,9) by (simp_all add: div_nat_eqI)
    have "odd (v div 64)"
      using assms(3) [rule_format, OF assms(5)] by simp
    then show "has_flag (wn v) 0x80" "has_flag (wn v) 0x40" "wn v \<noteq> 0xff"
      using u assms(9) by (auto simp: word_unat_eq_iff unat_masks odd_iff_mod_2_eq_one)
  qed
  have "5 \<le> (6 :: nat)"
    by simp
  note run = validate_cont_run [OF assms(3,4,7) this, of v 1 31]
  have big: "join v ys < 2 ^ 64" if "length ys = j" "\<forall>y \<in> set ys. y < 64" for ys
  proof -
    have "(64::nat) ^ j \<le> 64 ^ 6"
      using assms(6) by (rule power_increasing) simp
    then have "(v + 1) * 64 ^ j \<le> 256 * 64 ^ 6"
      using assms(9) by (intro mult_le_mono) simp_all
    then show ?thesis
      using join_bound [OF that(2), of v] that(1) by simp
  qed
  note ch = validate_char_number [OF assms(1,2) big assms(6)]
  have loop: "validate_loop e (wn v # cs) 0 =
    (case validate_cont (bn v) cs (qn v) (mask 6) (push_bit 1 31) of
       None \<Rightarrow> False
     | Some (cs, ch, full_mask, hi_mask) \<Rightarrow>
         (case validate_char e ch full_mask hi_mask 0 of None \<Rightarrow> False | Some x \<Rightarrow> validate_loop e cs x))"
    using t unfolding m [symmetric] uc [symmetric] by (simp only: validate_loop.simps if_True if_False not_True_eq_False not_False_eq_True)
  show ?thesis
  proof
    assume l: "validate_loop e (wn v # cs) 0"
    obtain r where r: "validate_cont (bn v) cs (qn v) (mask 6) (push_bit 1 31) = Some r"
      using l unfolding loop by (auto split: option.splits)
    then obtain ys rest where ys: "length ys = j" "\<forall>y \<in> set ys. y < 64" "cs = conts ys @ rest"
        "r = (rest, qn (join v ys), mask (6 + 5 * j), push_bit (1 + 5 * j) 31)"
      unfolding run by blast
    show "\<exists>ys rest. length ys = j \<and> (\<forall>y \<in> set ys. y < 64) \<and> cs = conts ys @ rest \<and>
      (let m = join v ys mod 2 ^ (6 + 5 * j) in 2 ^ (1 + 5 * j) \<le> m \<and> 0x80 \<le> m \<and> \<not> (0xd800 \<le> m \<and> m \<le> 0xdfff) \<and> m < 0x110000) \<and>
      validate_loop e rest 0"
      using l ys(1-3) unfolding loop r ys(4) option.case prod.case ch [OF ys(1,2)] Let_def
      by (intro exI [of _ ys] exI [of _ rest]) (simp split: if_splits)
  next
    assume "\<exists>ys rest. length ys = j \<and> (\<forall>y \<in> set ys. y < 64) \<and> cs = conts ys @ rest \<and>
      (let m = join v ys mod 2 ^ (6 + 5 * j) in 2 ^ (1 + 5 * j) \<le> m \<and> 0x80 \<le> m \<and> \<not> (0xd800 \<le> m \<and> m \<le> 0xdfff) \<and> m < 0x110000) \<and>
      validate_loop e rest 0"
    then obtain ys rest where ys: "length ys = j" "\<forall>y \<in> set ys. y < 64" "cs = conts ys @ rest"
        "let m = join v ys mod 2 ^ (6 + 5 * j) in 2 ^ (1 + 5 * j) \<le> m \<and> 0x80 \<le> m \<and> \<not> (0xd800 \<le> m \<and> m \<le> 0xdfff) \<and> m < 0x110000"
        "validate_loop e rest 0"
      by blast
    have r: "validate_cont (bn v) cs (qn v) (mask 6) (push_bit 1 31) =
        Some (rest, qn (join v ys), mask (6 + 5 * j), push_bit (1 + 5 * j) 31)"
      unfolding run using ys(1-3) by blast
    have "validate_char e (qn (join v ys)) (mask (6 + 5 * j)) (push_bit (1 + 5 * j) 31) 0 = Some 0"
      using ys(4) unfolding ch [OF ys(1,2)] Let_def by (simp add: not_less [symmetric])
    then show "validate_loop e (wn v # cs) 0"
      unfolding loop r option.case prod.case using ys(5) by simp
  qed
qed

text \<open>The first byte has as many leading ones after the first as there are bytes that continue it.\<close>

lemma less_cases:
  "(\<forall>i < 1. P i) \<longleftrightarrow> P (0::nat)" "(\<forall>i < 2. P i) \<longleftrightarrow> P 0 \<and> P (1::nat)" "(\<forall>i < 3. P i) \<longleftrightarrow> P 0 \<and> P 1 \<and> P (2::nat)"
  "(\<forall>i < 4. P i) \<longleftrightarrow> P 0 \<and> P 1 \<and> P 2 \<and> P (3::nat)" "(\<forall>i < 5. P i) \<longleftrightarrow> P 0 \<and> P 1 \<and> P 2 \<and> P 3 \<and> P (4::nat)"
  "(\<forall>i < 6. P i) \<longleftrightarrow> P 0 \<and> P 1 \<and> P 2 \<and> P 3 \<and> P 4 \<and> P (5::nat)"
  by (auto simp: numeral_eq_Suc All_less_Suc)

lemma lead_bits:
  fixes x :: nat
  shows "x < 32 \<Longrightarrow> (\<forall>i < 1. odd ((192 + x) * 2 ^ i div 64)) \<and> even ((192 + x) * 2 ^ 1 div 64)"
    "x < 16 \<Longrightarrow> (\<forall>i < 2. odd ((224 + x) * 2 ^ i div 64)) \<and> even ((224 + x) * 2 ^ 2 div 64)"
    "x < 8 \<Longrightarrow> (\<forall>i < 3. odd ((240 + x) * 2 ^ i div 64)) \<and> even ((240 + x) * 2 ^ 3 div 64)"
    "x < 4 \<Longrightarrow> (\<forall>i < 4. odd ((248 + x) * 2 ^ i div 64)) \<and> even ((248 + x) * 2 ^ 4 div 64)"
    "x < 2 \<Longrightarrow> (\<forall>i < 5. odd ((252 + x) * 2 ^ i div 64)) \<and> even ((252 + x) * 2 ^ 5 div 64)"
    "(\<forall>i < 6. odd (254 * 2 ^ i div (64 :: nat))) \<and> even (254 * 2 ^ 6 div (64 :: nat))"
proof -
  show "x < 32 \<Longrightarrow> (\<forall>i < 1. odd ((192 + x) * 2 ^ i div 64)) \<and> even ((192 + x) * 2 ^ 1 div 64)"
  proof -
    assume "x < 32"
    then have "(192 + x) * 1 div 64 = 3" "(192 + x) * 2 div 64 = 6"
      by (intro div_nat_eqI; simp)+
    then show ?thesis
      unfolding less_cases by simp
  qed
  show "x < 16 \<Longrightarrow> (\<forall>i < 2. odd ((224 + x) * 2 ^ i div 64)) \<and> even ((224 + x) * 2 ^ 2 div 64)"
  proof -
    assume "x < 16"
    then have "(224 + x) * 1 div 64 = 3" "(224 + x) * 2 div 64 = 7" "(224 + x) * 4 div 64 = 14"
      by (intro div_nat_eqI; simp)+
    then show ?thesis
      unfolding less_cases by simp
  qed
  show "x < 8 \<Longrightarrow> (\<forall>i < 3. odd ((240 + x) * 2 ^ i div 64)) \<and> even ((240 + x) * 2 ^ 3 div 64)"
  proof -
    assume "x < 8"
    then have "(240 + x) * 1 div 64 = 3" "(240 + x) * 2 div 64 = 7" "(240 + x) * 4 div 64 = 15" "(240 + x) * 8 div 64 = 30"
      by (intro div_nat_eqI; simp)+
    then show ?thesis
      unfolding less_cases by simp
  qed
  show "x < 4 \<Longrightarrow> (\<forall>i < 4. odd ((248 + x) * 2 ^ i div 64)) \<and> even ((248 + x) * 2 ^ 4 div 64)"
  proof -
    assume "x < 4"
    then have "(248 + x) * 1 div 64 = 3" "(248 + x) * 2 div 64 = 7" "(248 + x) * 4 div 64 = 15" "(248 + x) * 8 div 64 = 31" "(248 + x) * 16 div 64 = 62"
      by (intro div_nat_eqI; simp)+
    then show ?thesis
      unfolding less_cases by simp
  qed
  show "x < 2 \<Longrightarrow> (\<forall>i < 5. odd ((252 + x) * 2 ^ i div 64)) \<and> even ((252 + x) * 2 ^ 5 div 64)"
  proof -
    assume "x < 2"
    then have "(252 + x) * 1 div 64 = 3" "(252 + x) * 2 div 64 = 7" "(252 + x) * 4 div 64 = 15" "(252 + x) * 8 div 64 = 31" "(252 + x) * 16 div 64 = 63" "(252 + x) * 32 div 64 = 126"
      by (intro div_nat_eqI; simp)+
    then show ?thesis
      unfolding less_cases by simp
  qed
  show "(\<forall>i < 6. odd (254 * 2 ^ i div (64 :: nat))) \<and> even (254 * 2 ^ 6 div (64 :: nat))"
    unfolding less_cases by simp
qed


lemma join_numbers:
  fixes x y z w :: nat
  assumes "y < 64" "z < 64" "w < 64"
  shows "x < 32 \<Longrightarrow> join (192 + x) [y] mod 2 ^ (6 + 5 * 1) = x * 64 + y"
    "x < 16 \<Longrightarrow> join (224 + x) [y, z] mod 2 ^ (6 + 5 * 2) = x * 4096 + y * 64 + z"
    "x < 8 \<Longrightarrow> join (240 + x) [y, z, w] mod 2 ^ (6 + 5 * 3) = x * 262144 + y * 4096 + z * 64 + w"
proof -
  have a: "(n + k * 2 ^ l) mod 2 ^ l = n" if "n < 2 ^ l" for n k l :: nat
    using that by simp
  have "join (192 + x) [y] = (x * 64 + y) + 6 * 2 ^ 11" "join (224 + x) [y, z] = (x * 4096 + y * 64 + z) + 14 * 2 ^ 16"
      "join (240 + x) [y, z, w] = (x * 262144 + y * 4096 + z * 64 + w) + 30 * 2 ^ 21"
    by simp_all
  moreover have "(6::nat) + 5 * 1 = 11" "(6::nat) + 5 * 2 = 16" "(6::nat) + 5 * 3 = 21"
    by simp_all
  ultimately show "x < 32 \<Longrightarrow> join (192 + x) [y] mod 2 ^ (6 + 5 * 1) = x * 64 + y"
      "x < 16 \<Longrightarrow> join (224 + x) [y, z] mod 2 ^ (6 + 5 * 2) = x * 4096 + y * 64 + z"
      "x < 8 \<Longrightarrow> join (240 + x) [y, z, w] mod 2 ^ (6 + 5 * 3) = x * 262144 + y * 4096 + z * 64 + w"
    using assms by (simp_all only:) (rule a; simp)+
qed

lemma validate_round_intro:
  assumes "\<not> has_flag e 1" "\<not> has_flag e 2" "(\<forall>i < j. odd (v * 2 ^ i div 64)) \<and> even (v * 2 ^ j div 64)" "0 < j" "j \<le> 6" "128 \<le> v" "v < 255"
    "\<forall>b \<in> set rest. unat b < 256" "length ys = j" "\<forall>y \<in> set ys. y < 64" "join v ys mod 2 ^ (6 + 5 * j) = m"
    "2 ^ (1 + 5 * j) \<le> m" "0x80 \<le> m" "\<not> (0xd800 \<le> m \<and> m \<le> 0xdfff)" "m < 0x110000" "validate_loop e rest 0"
  shows "validate_loop e (wn v # conts ys @ rest) 0"
proof -
  have "\<forall>b \<in> set (conts ys @ rest). unat b < 256"
    using assms(8,10) by auto
  then show ?thesis
    using validate_round [OF assms(1,2) conjunct1 [OF assms(3)] conjunct2 [OF assms(3)] assms(4,5) _ assms(6,7)] assms(9-16)
    unfolding Let_def by blast
qed

lemma validate_encoding:
  assumes "\<not> has_flag e 1" "\<not> has_flag e 2" "utf8_extra e c = Inr k" "\<forall>b \<in> set rest. unat b < 256" "validate_loop e rest 0"
  shows "validate_loop e (utf8_char e c @ rest) 0"
proof -
  obtain n where c: "c = wn n" and n: "n < 2 ^ 32"
    using unat_bound [of c] by (metis wn_unat)
  note k = assms(3) [unfolded c utf8_extra_wn [OF n]]
  have d: "digit i n < 64" for i
    by simp
  note round = validate_round_intro [OF assms(1,2)] and j = join_numbers [OF d d d]
  consider (a) "n < 0x80" | (b) "0x80 \<le> n" "n < 0x800" | (c) "0x800 \<le> n" "n < 0x10000" "\<not> (0xd800 \<le> n \<and> n \<le> 0xdfff)" |
      (d) "0x10000 \<le> n" "n < 0x200000" "n < 0x110000"
    using k assms(1,2) by (auto split: if_splits)
  then show ?thesis
  proof cases
    case a
    then show ?thesis
      using assms(5) ascii_tests [OF a] by (simp add: c utf8_char_wn(1) [OF n a])
  next
    case b
    define x where "x = n div 2 ^ 6"
    have x: "x < 32" "x * 64 + digit 0 n = n"
      using b less_mult_imp_div_less [of n 32 "2 ^ 6"] by (simp_all add: x_def)
    have m: "join (192 + x) [digit 0 n] mod 2 ^ (6 + 5 * 1) = n"
      unfolding j(1) [OF x(1)] by (rule x(2))
    have "validate_loop e (wn (192 + x) # conts [digit 0 n] @ rest) 0"
      by (rule round [OF lead_bits(1) [OF x(1)] _ _ _ _ assms(4) _ _ m]) (use b x(1) assms(5) in simp_all)
    then show ?thesis
      unfolding c utf8_char_wn(2) [OF n b] x_def by simp
  next
    case cc: c
    define x where "x = n div 2 ^ 12"
    have x: "x < 16" "x * 4096 + digit 6 n * 64 + digit 0 n = n"
      using cc less_mult_imp_div_less [of n 16 "2 ^ 12"] digit_split [of n 6] by (simp_all add: x_def)
    have m: "join (224 + x) [digit 6 n, digit 0 n] mod 2 ^ (6 + 5 * 2) = n"
      unfolding j(2) [OF x(1)] by (rule x(2))
    have "validate_loop e (wn (224 + x) # conts [digit 6 n, digit 0 n] @ rest) 0"
      by (rule round [OF lead_bits(2) [OF x(1)] _ _ _ _ assms(4) _ _ m]) (use cc x(1) assms(5) in simp_all)
    then show ?thesis
      unfolding c utf8_char_wn(3) [OF n cc(1,2)] x_def by simp
  next
    case dd: d
    define x where "x = n div 2 ^ 18"
    have "n = n div 4096 * 4096 + digit 6 n * 64 + digit 0 n"
      using digit_split [of n 6] by simp
    then have "n mod 4096 = digit 6 n * 64 + digit 0 n"
      using div_mult_mod_eq [of n 4096] by linarith
    then have x: "x < 8" "x * 262144 + digit 12 n * 4096 + digit 6 n * 64 + digit 0 n = n"
      using dd less_mult_imp_div_less [of n 8 "2 ^ 18"] digit_split [of n 12] by (simp_all add: x_def)
    have m: "join (240 + x) [digit 12 n, digit 6 n, digit 0 n] mod 2 ^ (6 + 5 * 3) = n"
      unfolding j(3) [OF x(1)] by (rule x(2))
    have "validate_loop e (wn (240 + x) # conts [digit 12 n, digit 6 n, digit 0 n] @ rest) 0"
      by (rule round [OF lead_bits(3) [OF x(1)] _ _ _ _ assms(4) _ _ m]) (use dd x(1) assms(5) in simp_all)
    moreover have "\<not> (has_flag e 2 \<and> n \<le> 0x10ffff)"
      using assms(2) by blast
    ultimately show ?thesis
      unfolding c utf8_char_wn(4) [OF n dd(1,2) \<open>\<not> (has_flag e 2 \<and> n \<le> 0x10ffff)\<close>] x_def by simp
  qed
qed


section \<open>What is accepted\<close>

lemma validate_round_elim:
  assumes "\<not> has_flag e 1" "\<not> has_flag e 2" "(\<forall>i < j. odd (v * 2 ^ i div 64)) \<and> even (v * 2 ^ j div 64)" "0 < j" "j \<le> 6" "128 \<le> v" "v < 255"
    "\<forall>b \<in> set cs. unat b < 256" "validate_loop e (wn v # cs) 0"
  obtains ys rest where "length ys = j" "\<forall>y \<in> set ys. y < 64" "cs = conts ys @ rest" "validate_loop e rest 0"
    "2 ^ (1 + 5 * j) \<le> join v ys mod 2 ^ (6 + 5 * j)" "0x80 \<le> join v ys mod 2 ^ (6 + 5 * j)"
    "\<not> (0xd800 \<le> join v ys mod 2 ^ (6 + 5 * j) \<and> join v ys mod 2 ^ (6 + 5 * j) \<le> 0xdfff)" "join v ys mod 2 ^ (6 + 5 * j) < 0x110000"
  using iffD1 [OF validate_round [OF assms(1,2) conjunct1 [OF assms(3)] conjunct2 [OF assms(3)] assms(4,5,8,6,7)] assms(9)] that
  unfolding Let_def by blast

lemma validate_lead:
  assumes "\<not> has_flag e 1" "\<not> has_flag e 2" "validate_loop e (b # cs) 0" "\<forall>b \<in> set (b # cs). unat b < 256"
  shows "\<exists>rest. encoded e (b # cs) rest \<and> validate_loop e rest 0 \<and> length rest \<le> length cs"
proof -
  define v where "v = unat b"
  have bv: "b = wn v" "v < 256"
    using assms(4) by (simp_all add: v_def)
  have bytes: "\<forall>b \<in> set cs. unat b < 256"
    using assms(4) by simp
  have l: "validate_loop e (wn v # cs) 0"
    using assms(3) bv(1) by simp
  note round = validate_round_elim [OF assms(1,2)]
  have "\<not> (128 \<le> v \<and> v < 192)"
  proof
    assume v: "128 \<le> v \<and> v < 192"
    then have "v - 128 < 64"
      by linarith
    then have "wn (128 + (v - 128)) AND 0xc0 = 0x80" "has_flag (wn (128 + (v - 128))) 0x80"
      by (rule cont_tests(2), rule cont_tests(1))
    then have "wn v AND 0xc0 = 0x80" "has_flag (wn v) 0x80"
      using v by simp_all
    then have "unat (wn v AND 0xc0) = 128" "has_flag (wn v) 0x80"
      by simp_all
    then have "wn v AND 0x40 = 0" "has_flag (wn v) 0x80"
      using bv(2) by (simp_all add: unat_masks word_unat_eq_iff)
    then show False
      using l by (simp split: if_splits)
  qed
  then consider (z) "v < 128" | (a) "192 \<le> v" "v < 224" | (b) "224 \<le> v" "v < 240" | (c) "240 \<le> v" "v < 248" |
      (d) "248 \<le> v" "v < 252" | (e) "252 \<le> v" "v < 254" | (f) "v = 254" | (g) "v = 255"
    using bv(2) by linarith
  then show ?thesis
  proof cases
    case z
    then show ?thesis
      using l encoded_1 [OF z] ascii_tests [OF z] bv(1) by auto
  next
    case a
    define x where "x = v - 192"
    have x: "v = 192 + x" "x < 32"
      using a by (simp_all add: x_def)
    have "0 < (1::nat)" "1 \<le> (6::nat)" "128 \<le> 192 + x" "192 + x < 255"
      using x by simp_all
    then obtain ys rest where r: "length ys = 1" "\<forall>y \<in> set ys. y < 64" "cs = conts ys @ rest" "validate_loop e rest 0"
        "2 ^ (1 + 5 * 1) \<le> join v ys mod 2 ^ (6 + 5 * 1)" "0x80 \<le> join v ys mod 2 ^ (6 + 5 * 1)"
        "\<not> (0xd800 \<le> join v ys mod 2 ^ (6 + 5 * 1) \<and> join v ys mod 2 ^ (6 + 5 * 1) \<le> 0xdfff)" "join v ys mod 2 ^ (6 + 5 * 1) < 0x110000"
      unfolding x(1) by (rule round [OF lead_bits(1) [OF x(2)] _ _ _ _ bytes l [unfolded x(1)]])
    obtain y where y: "ys = [y]"
      using r(1) by (cases ys) auto
    have "join v ys mod 2 ^ (6 + 5 * 1) = x * 64 + y"
      unfolding x(1) y by (rule join_numbers(1) [of y 0 0]) (use r(2) y x(2) in simp_all)
    then have "2 \<le> x"
      using r(2,6) y by simp
    then have "encoded e (b # cs) rest"
      using encoded_2 [of x y e rest] r(2,3) x bv(1) y by simp
    then show ?thesis
      using r(3,4) by auto
  next
    case b
    define x where "x = v - 224"
    have x: "v = 224 + x" "x < 16"
      using b by (simp_all add: x_def)
    have "0 < (2::nat)" "2 \<le> (6::nat)" "128 \<le> 224 + x" "224 + x < 255"
      using x by simp_all
    then obtain ys rest where r: "length ys = 2" "\<forall>y \<in> set ys. y < 64" "cs = conts ys @ rest" "validate_loop e rest 0"
        "2 ^ (1 + 5 * 2) \<le> join v ys mod 2 ^ (6 + 5 * 2)" "0x80 \<le> join v ys mod 2 ^ (6 + 5 * 2)"
        "\<not> (0xd800 \<le> join v ys mod 2 ^ (6 + 5 * 2) \<and> join v ys mod 2 ^ (6 + 5 * 2) \<le> 0xdfff)" "join v ys mod 2 ^ (6 + 5 * 2) < 0x110000"
      unfolding x(1) by (rule round [OF lead_bits(2) [OF x(2)] _ _ _ _ bytes l [unfolded x(1)]])
    obtain y z where y: "ys = [y, z]" "y < 64" "z < 64"
      using r(1,2) unfolding length_lists by auto
    have m: "join v ys mod 2 ^ (6 + 5 * 2) = x * 4096 + y * 64 + z"
      unfolding x(1) y(1) by (rule join_numbers(2) [of y z 0]) (use y x(2) in simp_all)
    have "x = 0 \<longrightarrow> 32 \<le> y"
      using r(5) y(2,3) unfolding m by simp
    moreover have "x = 13 \<longrightarrow> y < 32"
      using r(7) y(2,3) unfolding m by auto
    ultimately have "encoded e (b # cs) rest"
      using encoded_3 [OF y(2,3) x(2)] r(3) x(1) bv(1) y(1) by simp
    then show ?thesis
      using r(3,4) by auto
  next
    case c
    define x where "x = v - 240"
    have x: "v = 240 + x" "x < 8"
      using c by (simp_all add: x_def)
    have "0 < (3::nat)" "3 \<le> (6::nat)" "128 \<le> 240 + x" "240 + x < 255"
      using x by simp_all
    then obtain ys rest where r: "length ys = 3" "\<forall>y \<in> set ys. y < 64" "cs = conts ys @ rest" "validate_loop e rest 0"
        "2 ^ (1 + 5 * 3) \<le> join v ys mod 2 ^ (6 + 5 * 3)" "0x80 \<le> join v ys mod 2 ^ (6 + 5 * 3)"
        "\<not> (0xd800 \<le> join v ys mod 2 ^ (6 + 5 * 3) \<and> join v ys mod 2 ^ (6 + 5 * 3) \<le> 0xdfff)" "join v ys mod 2 ^ (6 + 5 * 3) < 0x110000"
      unfolding x(1) by (rule round [OF lead_bits(3) [OF x(2)] _ _ _ _ bytes l [unfolded x(1)]])
    obtain y z w where y: "ys = [y, z, w]" "y < 64" "z < 64" "w < 64"
      using r(1,2) unfolding length_lists by auto
    have m: "join v ys mod 2 ^ (6 + 5 * 3) = x * 262144 + y * 4096 + z * 64 + w"
      unfolding x(1) y(1) by (rule join_numbers(3)) (use y x(2) in simp_all)
    have "x = 0 \<longrightarrow> 16 \<le> y"
      using r(5) y(2-4) unfolding m by simp
    moreover have "x \<le> 4" "x = 4 \<longrightarrow> y < 16"
      using r(8) y(2-4) unfolding m by simp_all
    ultimately have "encoded e (b # cs) rest"
      using encoded_4 [OF y(2-4) x(2)] r(3) x(1) bv(1) y(1) assms(2) by simp
    then show ?thesis
      using r(3,4) by auto
  next
    case d
    define x where "x = v - 248"
    have x: "v = 248 + x" "x < 4"
      using d by (simp_all add: x_def)
    have "0 < (4::nat)" "4 \<le> (6::nat)" "128 \<le> 248 + x" "248 + x < 255"
      using x by simp_all
    then obtain ys rest where r: "length ys = 4" "\<forall>y \<in> set ys. y < 64" "cs = conts ys @ rest" "validate_loop e rest 0"
        "2 ^ (1 + 5 * 4) \<le> join v ys mod 2 ^ (6 + 5 * 4)" "0x80 \<le> join v ys mod 2 ^ (6 + 5 * 4)"
        "\<not> (0xd800 \<le> join v ys mod 2 ^ (6 + 5 * 4) \<and> join v ys mod 2 ^ (6 + 5 * 4) \<le> 0xdfff)" "join v ys mod 2 ^ (6 + 5 * 4) < 0x110000"
      unfolding x(1) by (rule round [OF lead_bits(4) [OF x(2)] _ _ _ _ bytes l [unfolded x(1)]])
    have "(0x110000 :: nat) \<le> 2 ^ (1 + 5 * 4)"
      by simp
    then show ?thesis
      using r(5,8) by linarith
  next
    case e
    define x where "x = v - 252"
    have x: "v = 252 + x" "x < 2"
      using e by (simp_all add: x_def)
    have "0 < (5::nat)" "5 \<le> (6::nat)" "128 \<le> 252 + x" "252 + x < 255"
      using x by simp_all
    then obtain ys rest where r: "length ys = 5" "\<forall>y \<in> set ys. y < 64" "cs = conts ys @ rest" "validate_loop e rest 0"
        "2 ^ (1 + 5 * 5) \<le> join v ys mod 2 ^ (6 + 5 * 5)" "0x80 \<le> join v ys mod 2 ^ (6 + 5 * 5)"
        "\<not> (0xd800 \<le> join v ys mod 2 ^ (6 + 5 * 5) \<and> join v ys mod 2 ^ (6 + 5 * 5) \<le> 0xdfff)" "join v ys mod 2 ^ (6 + 5 * 5) < 0x110000"
      unfolding x(1) by (rule round [OF lead_bits(5) [OF x(2)] _ _ _ _ bytes l [unfolded x(1)]])
    have "(0x110000 :: nat) \<le> 2 ^ (1 + 5 * 5)"
      by simp
    then show ?thesis
      using r(5,8) by linarith
  next
    case f
    have "0 < (6::nat)" "6 \<le> (6::nat)" "128 \<le> (254::nat)" "254 < (255::nat)"
      by simp_all
    then obtain ys rest where r: "length ys = 6" "\<forall>y \<in> set ys. y < 64" "cs = conts ys @ rest" "validate_loop e rest 0"
        "2 ^ (1 + 5 * 6) \<le> join 254 ys mod 2 ^ (6 + 5 * 6)" "0x80 \<le> join 254 ys mod 2 ^ (6 + 5 * 6)"
        "\<not> (0xd800 \<le> join 254 ys mod 2 ^ (6 + 5 * 6) \<and> join 254 ys mod 2 ^ (6 + 5 * 6) \<le> 0xdfff)" "join 254 ys mod 2 ^ (6 + 5 * 6) < 0x110000"
      by (rule round [OF lead_bits(6) _ _ _ _ bytes l [unfolded f]])
    have "(0x110000 :: nat) \<le> 2 ^ (1 + 5 * 6)"
      by simp
    then show ?thesis
      using r(5,8) by linarith
  next
    case g
    have "b = 0xff"
      by (simp add: bv(1) g wn_def)
    then show ?thesis
      using assms(3) by simp
  qed
qed


lemma validate_accepts:
  assumes "\<not> has_flag e 1" "\<not> has_flag e 2" "\<forall>b \<in> set bs. unat b < 256"
  shows "validate_loop e bs 0 \<longleftrightarrow> (\<exists>cs n. bs = utf8_bytes e cs \<and> utf8_length e cs 0 = Inr n)"
proof
  show "\<exists>cs n. bs = utf8_bytes e cs \<and> utf8_length e cs 0 = Inr n" if "validate_loop e bs 0"
    using that assms(3)
  proof (induction "length bs" arbitrary: bs rule: less_induct)
    case less
    show ?case
    proof (cases bs)
      case Nil
      then show ?thesis
        by (intro exI [of _ "[]"]) simp
    next
      case (Cons b bs')
      obtain rest where r: "encoded e bs rest" "validate_loop e rest 0" "length rest \<le> length bs'"
        using validate_lead [OF assms(1,2)] less.prems unfolding Cons by blast
      obtain c k where c: "utf8_extra e c = Inr k" "bs = utf8_char e c @ rest"
        using r(1) by (auto simp: encoded_def)
      have "length rest < length bs"
        using r(3) Cons by simp
      moreover have "\<forall>b \<in> set rest. unat b < 256"
        using less.prems(2) unfolding c(2) by simp
      ultimately obtain cs n where cs: "rest = utf8_bytes e cs" "utf8_length e cs 0 = Inr n"
        using less.hyps [of rest] r(2) by blast
      obtain n' where "utf8_length e cs k = Inr n'"
        using accepted_chars [OF cs(2)] by blast
      then show ?thesis
        using c cs(1) by (intro exI [of _ "c # cs"]) simp
    qed
  qed
next
  have "validate_loop e (utf8_bytes e cs) 0" if "utf8_length e cs l = Inr n" for cs l n
    using that
  proof (induction cs arbitrary: l)
    case (Cons c cs)
    obtain k where k: "utf8_extra e c = Inr k" "utf8_length e cs (l + k) = Inr n"
      using Cons.prems by (cases "utf8_extra e c") auto
    have "\<forall>b \<in> set (utf8_bytes e cs). unat b < 256"
      using utf8_char_byte by auto
    then show ?case
      using validate_encoding [OF assms(1,2) k(1) _ Cons.IH [OF k(2)]] by simp
  qed (simp add: assms)
  then show "\<exists>cs n. bs = utf8_bytes e cs \<and> utf8_length e cs 0 = Inr n \<Longrightarrow> validate_loop e bs 0"
    by blast
qed

section \<open>Properties\<close>

text \<open>C19: Without the options validate_utf8 accepts a string exactly when utf8_to_string decodes it without an
  error; so each of the two routines confirms the other.\<close>

theorem validate_utf8_spec:
  assumes "string_ok t" "e AND 3 = 0"
  shows "f_validate_utf8 (Some t) e = Inr (\<exists>r. f_utf8_to_string t e = Inr r)"
proof (cases "size_shift t = 0")
  case True
  have e: "\<not> has_flag e 1" "\<not> has_flag e 2"
  proof -
    have "e AND 1 = (e AND 3) AND 1" "e AND 2 = (e AND 3) AND 2"
      by (simp_all add: and.assoc)
    then show "\<not> has_flag e 1" "\<not> has_flag e 2"
      using assms(2) by simp_all
  qed
  obtain mn mx where r: "snd (check_string_range t True True) = (mn, mx)"
    by (cases "snd (check_string_range t True True)")
  show ?thesis
  proof (cases "mn \<ge> 0 \<and> mx \<le> 0x7f")
    case asc: True
    then show ?thesis
      using r True by (simp add: f_validate_utf8_def f_utf8_to_string_def)
  next
    case False
    have "(\<exists>r. f_utf8_to_string t e = Inr r) \<longleftrightarrow> validate_loop e (chars t) 0"
      unfolding validate_accepts [OF e byte_string [OF assms(1) True]]
      using accepted_bytes [OF assms(1) _ e(2)] utf8_to_string_bytes [OF _ _ assms(1) True] e by blast
    then show ?thesis
      using r True False by (auto simp: f_validate_utf8_def)
  qed
next
  case False
  then show ?thesis
    by (simp add: f_validate_utf8_def f_utf8_to_string_def)
qed

theorem validate_utf8_spec_witness:
  "f_validate_utf8 (Some (new_string 0 [0xe2, 0x82])) 0 = Inr False"
proof -
  let ?t = "new_string 0 [0xe2, 0x82]"
  have "string_ok ?t"
    by (simp add: string_ok_def bounds_ok_def new_string_def)
  moreover have "f_utf8_to_string ?t 0 = Inl Truncated_Sequence"
    by (simp add: utf8_eval cont_chars_eval)
  ultimately show ?thesis
    using validate_utf8_spec [of ?t 0] by simp
qed

end
