(* ===== verification/String_Table.thy ===== *)
theory String_Table
  imports Strings
begin

text \<open>
  The table of shared strings (\<open>src/src/stralloc.c\<close>): every string that a program sees is linked in a hash
  table, so that strings with the same characters are the same object. The objects are in a store of
  addresses; a bucket of \<open>base_table\<close> is the list of the addresses its chain of \<open>next\<close> fields goes through.
\<close>

section \<open>The hash function\<close>

text \<open>SipHash (\<open>src/src/siphash24.c\<close>).\<close>

definition rotl :: "64 word \<Rightarrow> nat \<Rightarrow> 64 word" where
  "rotl x b = (push_bit b x OR drop_bit (64 - b) x)"

type_synonym sip_state = "64 word \<times> 64 word \<times> 64 word \<times> 64 word"

definition sipround :: "sip_state \<Rightarrow> sip_state" where
  "sipround s =
     (let (v0, v1, v2, v3) = s;
          v0 = v0 + v1; v1 = rotl v1 13; v1 = v1 XOR v0; v0 = rotl v0 32;
          v2 = v2 + v3; v3 = rotl v3 16; v3 = v3 XOR v2;
          v0 = v0 + v3; v3 = rotl v3 21; v3 = v3 XOR v0;
          v2 = v2 + v1; v1 = rotl v1 17; v1 = v1 XOR v2; v2 = rotl v2 32
      in (v0, v1, v2, v3))"

fun u8to64_le :: "byte list \<Rightarrow> 64 word" where
  "u8to64_le [] = 0"
| "u8to64_le (b # bs) = ucast b OR push_bit 8 (u8to64_le bs)"

fun siphash_words :: "nat \<Rightarrow> byte list \<Rightarrow> sip_state \<Rightarrow> sip_state" where
  "siphash_words 0 inp s = s"
| "siphash_words (Suc n) inp (v0, v1, v2, v3) =
     (let m = u8to64_le (take 8 inp);
          (v0, v1, v2, v3) = sipround (sipround (v0, v1, v2, v3 XOR m))
      in siphash_words n (drop 8 inp) (v0 XOR m, v1, v2, v3))"

definition low_hashmem_siphash24 :: "byte list \<Rightarrow> nat \<Rightarrow> nat \<Rightarrow> 64 word \<Rightarrow> 64 word" where
  "low_hashmem_siphash24 s n nbytes key =
     (let inlen = min n nbytes;
          v = (0x736f6d6570736575 XOR key, 0x646f72616e646f6d XOR key, 0x6c7967656e657261 XOR key, 0x7465646279746573 XOR key);
          (v0, v1, v2, v3) = siphash_words (inlen div 8) s v;
          b = push_bit 56 (of_nat inlen) OR u8to64_le (take (inlen mod 8) (drop (inlen - inlen mod 8) s));
          (v0, v1, v2, v3) = sipround (sipround (v0, v1, v2, v3 XOR b));
          (v0, v1, v2, v3) = sipround (sipround (sipround (sipround (v0 XOR b, v1, v2 XOR 0xff, v3))))
      in v0 XOR v1 XOR v2 XOR v3)"

text \<open>The bytes of a string in memory, the least significant byte of each character first.\<close>

definition char_bytes :: "nat \<Rightarrow> 32 word \<Rightarrow> byte list" where
  "char_bytes shift c = map (\<lambda>i. ucast (drop_bit (8 * i) c)) [0..<2 ^ shift]"

definition memory :: "nat \<Rightarrow> 32 word list \<Rightarrow> byte list" where
  "memory shift cs = concat (map (char_bytes shift) cs)"

section \<open>The table\<close>

datatype alloc_type = String_Alloc_Static | String_Alloc_Malloc | String_Alloc_Ba | String_Alloc_Substring

record shared = pstr +
  alloc_type :: alloc_type
  srefs :: nat
  hval :: "64 word"

record string_table =
  objects :: "nat \<Rightarrow> shared option"
  base_table :: "nat list list"
  htable_size :: nat
  num_strings :: nat
  hash_prefix_len :: "32 word"
  hashkey :: "64 word"
  need_more_hash_prefix_depth :: nat
  need_new_hashkey_depth :: nat
  current_time :: "64 word"
  brk :: nat

text \<open>The variant of the hash function that the processor supports is a parameter; \<open>brk\<close> is the address the
  allocator gives next, and \<open>current_time\<close> what it is read for a new key.\<close>

type_synonym hash_function = "byte list \<Rightarrow> nat \<Rightarrow> nat \<Rightarrow> 64 word \<Rightarrow> 64 word"

definition hmodulo :: "string_table \<Rightarrow> 64 word \<Rightarrow> nat" where
  "hmodulo T h = unat (h AND of_nat (htable_size T - 1))"

definition low_do_hash :: "hash_function \<Rightarrow> string_table \<Rightarrow> byte list \<Rightarrow> nat \<Rightarrow> nat \<Rightarrow> 64 word" where
  "low_do_hash low_hashmem T str l shift =
     low_hashmem str (l * 2 ^ shift) (unat (push_bit shift (hash_prefix_len T))) (hashkey T)"

definition chars_hash :: "hash_function \<Rightarrow> string_table \<Rightarrow> nat \<Rightarrow> 32 word list \<Rightarrow> 64 word" where
  "chars_hash low_hashmem T shift cs = low_do_hash low_hashmem T (memory shift cs) (length cs) shift"

definition do_hash :: "hash_function \<Rightarrow> string_table \<Rightarrow> ('a) pstr_scheme \<Rightarrow> 64 word" where
  "do_hash low_hashmem T s = chars_hash low_hashmem T (size_shift s) (chars s)"

definition with_string :: "string_table \<Rightarrow> nat \<Rightarrow> (shared \<Rightarrow> 'b result) \<Rightarrow> 'b result" where
  "with_string T a f = (case objects T a of None \<Rightarrow> Inl Bad_Memory_Access | Some s \<Rightarrow> f s)"

definition put_string :: "nat \<Rightarrow> shared \<Rightarrow> string_table \<Rightarrow> string_table" where
  "put_string a s T = T\<lparr>objects := (objects T)(a \<mapsto> s)\<rparr>"

abbreviation not_shared :: "('a) pstr_scheme \<Rightarrow> bool" where
  "not_shared s \<equiv> has_flag (flags s) string_not_shared"

abbreviation not_hashed :: "('a) pstr_scheme \<Rightarrow> bool" where
  "not_hashed s \<equiv> has_flag (flags s) string_not_hashed"

section \<open>Search\<close>

fun find_chain :: "string_table \<Rightarrow> 32 word list \<Rightarrow> nat \<Rightarrow> 64 word \<Rightarrow> nat list \<Rightarrow> nat \<Rightarrow> nat \<Rightarrow> (nat option \<times> nat \<times> nat) result" where
  "find_chain T cs shift hv [] depth prefix_depth = Inr (None, depth, prefix_depth)"
| "find_chain T cs shift hv (a # as) depth prefix_depth =
     with_string T a (\<lambda>curr.
       if length cs = len curr \<and> shift = size_shift curr \<and> hv = hval curr \<and> chars curr = cs then Inr (Some a, depth, prefix_depth)
       else find_chain T cs shift hv as (depth + 1) (if len curr > unat (hash_prefix_len T) then prefix_depth + 1 else prefix_depth))"

definition internal_findstring :: "string_table \<Rightarrow> 32 word list \<Rightarrow> nat \<Rightarrow> 64 word \<Rightarrow> (nat option \<times> string_table) result" where
  "internal_findstring T cs shift hv =
     bind_result (find_chain T cs shift hv (base_table T ! hmodulo T hv) 0 0) (\<lambda>(r, depth, prefix_depth).
       case r of
         Some a \<Rightarrow> Inr (Some a, T)
       | None \<Rightarrow>
           (let T = (if depth > need_new_hashkey_depth T then T\<lparr>need_new_hashkey_depth := depth\<rparr> else T);
                T = (if prefix_depth > need_more_hash_prefix_depth T then T\<lparr>need_more_hash_prefix_depth := prefix_depth\<rparr> else T)
            in Inr (None, T)))"

section \<open>Linking and rehashing\<close>

definition push_bucket :: "nat \<Rightarrow> nat \<Rightarrow> string_table \<Rightarrow> string_table" where
  "push_bucket h a T = T\<lparr>base_table := (base_table T)[h := a # base_table T ! h]\<rparr>"

definition rehash_string_backwards :: "nat list \<Rightarrow> string_table \<Rightarrow> string_table result" where
  "rehash_string_backwards chain =
     fold_result (\<lambda>a T. with_string T a (\<lambda>s. Inr (push_bucket (hmodulo T (hval s)) a T))) (rev chain)"

text \<open>The size of the table is an \<open>unsigned INT32\<close>, which the loop over the old table takes for an
  \<open>int\<close>: a size that is too large for it is an error.\<close>

definition stralloc_rehash :: "string_table \<Rightarrow> string_table result" where
  "stralloc_rehash T =
     (let old_base = base_table T;
          n = htable_size T * 2
      in if int n \<ge> 2 ^ 31 then Inl Int_Overflow
         else fold_result rehash_string_backwards old_base
           (T\<lparr>htable_size := n, base_table := replicate n [], need_more_hash_prefix_depth := 0\<rparr>))"

definition rekey_string :: "hash_function \<Rightarrow> nat \<Rightarrow> string_table \<Rightarrow> string_table result" where
  "rekey_string low_hashmem a T =
     with_string T a (\<lambda>s.
       let hv = do_hash low_hashmem T s
       in Inr (push_bucket (hmodulo T hv) a (put_string a (s\<lparr>hval := hv\<rparr>) T)))"

definition rekey_bucket :: "hash_function \<Rightarrow> nat \<Rightarrow> string_table \<Rightarrow> string_table result" where
  "rekey_bucket low_hashmem h T =
     fold_result (rekey_string low_hashmem) (base_table T ! h) (T\<lparr>base_table := (base_table T)[h := []]\<rparr>)"

definition new_hash :: "string_table \<Rightarrow> string_table" where
  "new_hash T =
     (let T = (if need_new_hashkey_depth T > 128
               then T\<lparr>hashkey := hashkey T XOR (push_bit 5 (hashkey T) XOR current_time T), need_new_hashkey_depth := 0\<rparr> else T);
          T = (if need_more_hash_prefix_depth T > 4 then T\<lparr>hash_prefix_len := hash_prefix_len T * 2\<rparr> else T)
      in T\<lparr>need_more_hash_prefix_depth := 0\<rparr>)"

definition link_pike_string :: "hash_function \<Rightarrow> nat \<Rightarrow> 64 word \<Rightarrow> string_table \<Rightarrow> string_table result" where
  "link_pike_string low_hashmem a hv T =
     with_string T a (\<lambda>s.
       let T = push_bucket (hmodulo T hv) a T;
           T = put_string a (s\<lparr>hval := hv, flags := flags s AND NOT (string_not_hashed OR string_not_shared)\<rparr>) T;
           T = T\<lparr>num_strings := num_strings T + 1\<rparr>
       in bind_result (if num_strings T > htable_size T then stralloc_rehash T else Inr T) (\<lambda>T.
            if need_more_hash_prefix_depth T > 4 \<or> need_new_hashkey_depth T > 128 then
              fold_result (rekey_bucket low_hashmem) [0..<htable_size T] (new_hash T)
            else Inr T))"

section \<open>Allocation and release\<close>

text \<open>The length of a block may not be negative as a \<open>ptrdiff_t\<close>, and its size in bytes has to fit in a
  \<open>size_t\<close>. Small blocks come from the block allocator. A new block holds zeros here; in the code it is
  not initialised, and its users write all of it.\<close>

definition sizeof_pike_string :: nat where "sizeof_pike_string = 40"

definition begin_wide_shared_string :: "nat \<Rightarrow> nat \<Rightarrow> string_table \<Rightarrow> (nat \<times> string_table) result" where
  "begin_wide_shared_string n shift T =
     (if n \<ge> 2 ^ 63 \<or> (n + 1) * 2 ^ shift \<ge> 2 ^ 64 then Inl Size_Too_Big
      else
        Inr (brk T,
          T\<lparr>objects := (objects T)(brk T \<mapsto>
               \<lparr>size_shift = shift, chars = replicate n 0, flags = string_not_hashed OR string_not_shared, bmin = 0, bmax = 0,
                string_is_utf8 = False,
                alloc_type = (if (n + 1) * 2 ^ shift \<le> sizeof_pike_string then String_Alloc_Ba else String_Alloc_Malloc),
                srefs = 1, hval = 0\<rparr>),
            brk := brk T + 1\<rparr>))"

definition begin_shared_string :: "nat \<Rightarrow> string_table \<Rightarrow> (nat \<times> string_table) result" where
  "begin_shared_string n = begin_wide_shared_string n 0"

text \<open>Characters that are written to a block, from its beginning; more than it holds are an error.\<close>

definition write_chars :: "nat \<Rightarrow> 32 word list \<Rightarrow> string_table \<Rightarrow> string_table result" where
  "write_chars a cs T =
     with_string T a (\<lambda>s.
       if length cs > len s then Inl Bad_Memory_Access
       else Inr (put_string a (s\<lparr>chars := map (store_char (size_shift s)) cs @ drop (length cs) (chars s)\<rparr>) T))"

text \<open>The index may be the length, where the terminating null character is.\<close>

definition low_set_index :: "nat \<Rightarrow> nat \<Rightarrow> 32 word \<Rightarrow> string_table \<Rightarrow> string_table result" where
  "low_set_index a i c T =
     with_string T a (\<lambda>s.
       if i > len s then Inl Bad_Memory_Access
       else Inr (put_string a (s\<lparr>flags := flags s OR string_not_hashed, chars := (chars s)[i := store_char (size_shift s) c]\<rparr>) T))"

text \<open>The count of references is an \<open>INT32\<close>. The code does not test it; here a count that leaves the range
  is an error, and so is one that gets negative.\<close>

definition add_ref :: "nat \<Rightarrow> string_table \<Rightarrow> string_table result" where
  "add_ref a T =
     with_string T a (\<lambda>s.
       if int (srefs s) + 1 \<ge> 2 ^ 31 then Inl Int_Overflow
       else Inr (put_string a (s\<lparr>srefs := srefs s + 1\<rparr>) T))"

definition unlink_pike_string :: "nat \<Rightarrow> string_table \<Rightarrow> string_table result" where
  "unlink_pike_string a T =
     with_string T a (\<lambda>s.
       let h = hmodulo T (hval s) in
       if a \<in> set (base_table T ! h) \<and> num_strings T \<noteq> 0 then
         Inr (put_string a (s\<lparr>flags := flags s OR string_not_shared\<rparr>)
           (T\<lparr>base_table := (base_table T)[h := remove1 a (base_table T ! h)], num_strings := num_strings T - 1\<rparr>))
       else Inl Fatal)"

definition really_free_string :: "nat \<Rightarrow> string_table \<Rightarrow> string_table result" where
  "really_free_string a T =
     with_string T a (\<lambda>s.
       bind_result (if \<not> not_shared s then unlink_pike_string a T else Inr T) (\<lambda>T.
         Inr (T\<lparr>objects := (objects T)(a := None)\<rparr>)))"

definition free_string :: "nat \<Rightarrow> string_table \<Rightarrow> string_table result" where
  "free_string a T =
     with_string T a (\<lambda>s.
       if srefs s = 0 then Inl Int_Overflow
       else
         (let T = put_string a (s\<lparr>srefs := srefs s - 1\<rparr>) T in
          if srefs s = 1 then really_free_string a T else Inr T))"

section \<open>Entering a string\<close>

definition low_end_shared_string :: "hash_function \<Rightarrow> nat \<Rightarrow> string_table \<Rightarrow> (nat \<times> string_table) result" where
  "low_end_shared_string low_hashmem a T =
     with_string T a (\<lambda>s.
       let (h, s) = (if not_hashed s then
                       (do_hash low_hashmem T s, s\<lparr>hval := do_hash low_hashmem T s, flags := flags s AND NOT string_not_hashed\<rparr>)
                     else (0, s))
       in bind_result (internal_findstring (put_string a s T) (chars s) (size_shift s) h) (\<lambda>(s2, T).
            case s2 of
              Some b \<Rightarrow> bind_result (free_string a T) (\<lambda>T. bind_result (add_ref b T) (\<lambda>T. Inr (b, T)))
            | None \<Rightarrow>
                (let s = (if len s = 0 then s\<lparr>string_is_utf8 := True, bmin := 0, bmax := 0, flags := flags s OR string_content_checked\<rparr>
                          else s)
                 in bind_result (link_pike_string low_hashmem a h (put_string a s T)) (\<lambda>T. Inr (a, T)))))"

text \<open>A copy with another width, in the place of the string.\<close>

definition convert_string :: "nat \<Rightarrow> nat \<Rightarrow> string_table \<Rightarrow> (nat \<times> string_table) result" where
  "convert_string a shift T =
     with_string T a (\<lambda>s.
       bind_result (begin_wide_shared_string (len s) shift T) (\<lambda>(s2, T).
       bind_result (write_chars s2 (chars s) T) (\<lambda>T.
       bind_result (free_string a T) (\<lambda>T. Inr (s2, T)))))"

definition join_surrogates :: "nat \<Rightarrow> string_table \<Rightarrow> (nat \<times> string_table) result" where
  "join_surrogates a T =
     with_string T a (\<lambda>s.
       case count_surrogate_pairs (chars s) 0 of
         Some (Suc cnt) \<Rightarrow>
           bind_result (begin_wide_shared_string (len s - Suc cnt) 2 T) (\<lambda>(s2, T).
           bind_result (write_chars s2 (convert_surrogate_pairs (chars s)) T) (\<lambda>T.
           bind_result (free_string a T) (\<lambda>T. Inr (s2, T))))
       | _ \<Rightarrow> Inr (a, put_string a (s\<lparr>flags := flags s AND NOT string_convert_surrogates\<rparr>) T))"

definition end_shared_string :: "hash_function \<Rightarrow> nat \<Rightarrow> string_table \<Rightarrow> (nat \<times> string_table) result" where
  "end_shared_string low_hashmem a T =
     with_string T a (\<lambda>s.
       bind_result
         (if size_shift s = 2 then
            if find_magnitude2 (chars s) < 2 then convert_string a (find_magnitude2 (chars s)) T else Inr (a, T)
          else if size_shift s = 1 then
            bind_result (if find_magnitude1 (chars s) = 0 then convert_string a 0 T else Inr (a, T)) (\<lambda>(a, T).
              with_string T a (\<lambda>s. if has_flag (flags s) string_convert_surrogates then join_surrogates a T else Inr (a, T)))
          else Inr (a, T))
         (\<lambda>(a, T). low_end_shared_string low_hashmem a T))"


section \<open>Making strings\<close>

text \<open>The characters at \<open>str\<close> are \<open>cs\<close>, whose number is the length that is passed.\<close>

definition make_linked :: "hash_function \<Rightarrow> 32 word list \<Rightarrow> nat \<Rightarrow> 64 word \<Rightarrow> string_table \<Rightarrow> (nat \<times> string_table) result" where
  "make_linked low_hashmem cs shift h T =
     bind_result (internal_findstring T cs shift h) (\<lambda>(r, T).
       case r of
         None \<Rightarrow>
           bind_result (begin_wide_shared_string (length cs) shift T) (\<lambda>(a, T).
           bind_result (write_chars a cs T) (\<lambda>T.
           bind_result (link_pike_string low_hashmem a h T) (\<lambda>T. Inr (a, T))))
       | Some a \<Rightarrow> bind_result (add_ref a T) (\<lambda>T. Inr (a, T)))"

definition make_shared_binary_string :: "hash_function \<Rightarrow> 32 word list \<Rightarrow> string_table \<Rightarrow> (nat \<times> string_table) result" where
  "make_shared_binary_string low_hashmem cs T = make_linked low_hashmem cs 0 (chars_hash low_hashmem T 0 cs) T"

definition make_narrowed :: "hash_function \<Rightarrow> 32 word list \<Rightarrow> nat \<Rightarrow> string_table \<Rightarrow> (nat \<times> string_table) result" where
  "make_narrowed low_hashmem cs shift T =
     bind_result (begin_wide_shared_string (length cs) shift T) (\<lambda>(a, T).
     bind_result (write_chars a cs T) (end_shared_string low_hashmem a))"

definition make_shared_binary_string1 :: "hash_function \<Rightarrow> 32 word list \<Rightarrow> string_table \<Rightarrow> (nat \<times> string_table) result" where
  "make_shared_binary_string1 low_hashmem cs T =
     (if find_magnitude1 cs = 0 then make_narrowed low_hashmem cs 0 T
      else make_linked low_hashmem cs 1 (chars_hash low_hashmem T 1 cs) T)"

definition make_shared_binary_string2 :: "hash_function \<Rightarrow> 32 word list \<Rightarrow> string_table \<Rightarrow> (nat \<times> string_table) result" where
  "make_shared_binary_string2 low_hashmem cs T =
     (if find_magnitude2 cs = 0 then make_narrowed low_hashmem cs 0 T
      else if find_magnitude2 cs = 1 then make_narrowed low_hashmem cs 1 T
      else make_linked low_hashmem cs 2 (chars_hash low_hashmem T 2 cs) T)"

definition make_shared_binary_pcharp :: "hash_function \<Rightarrow> nat \<Rightarrow> 32 word list \<Rightarrow> string_table \<Rightarrow> (nat \<times> string_table) result" where
  "make_shared_binary_pcharp low_hashmem shift cs =
     (if shift = 0 then make_shared_binary_string low_hashmem cs
      else if shift = 1 then make_shared_binary_string1 low_hashmem cs
      else make_shared_binary_string2 low_hashmem cs)"

definition make_shared_wide_string :: "hash_function \<Rightarrow> 32 word list \<Rightarrow> nat \<Rightarrow> string_table \<Rightarrow> (nat \<times> string_table) result" where
  "make_shared_wide_string low_hashmem cs shift T = make_narrowed low_hashmem cs shift T"

section \<open>Changing and adding strings\<close>

definition string_may_modify :: "shared \<Rightarrow> bool" where
  "string_may_modify s \<longleftrightarrow> alloc_type s \<noteq> String_Alloc_Static \<and> alloc_type s \<noteq> String_Alloc_Substring \<and> srefs s = 1"

text \<open>A changed copy: \<open>begin_wide_shared_string\<close>, the copy, the change, the release of the old string and
  \<open>end_shared_string\<close>.\<close>

definition modified_copy :: "hash_function \<Rightarrow> nat \<Rightarrow> nat \<Rightarrow> nat \<Rightarrow> 32 word \<Rightarrow> string_table \<Rightarrow> (nat \<times> string_table) result" where
  "modified_copy low_hashmem a shift i c T =
     with_string T a (\<lambda>s.
       bind_result (begin_wide_shared_string (len s) shift T) (\<lambda>(b, T).
       bind_result (write_chars b (chars s) T) (\<lambda>T.
       bind_result (low_set_index b i c T) (\<lambda>T.
       bind_result (free_string a T) (end_shared_string low_hashmem b)))))"

definition modify_in_place :: "hash_function \<Rightarrow> nat \<Rightarrow> nat \<Rightarrow> 32 word \<Rightarrow> string_table \<Rightarrow> (nat \<times> string_table) result" where
  "modify_in_place low_hashmem a i c T =
     bind_result (unlink_pike_string a T) (\<lambda>T.
     bind_result (low_set_index a i c T) (\<lambda>T.
       with_string T a (\<lambda>s.
         let s = s\<lparr>flags := flags s AND NOT string_checked_mask\<rparr>; T = put_string a s T in
         if i \<ge> unat (hash_prefix_len T) \<and> int i < int (len s) - 8 then
           bind_result (internal_findstring T (chars s) (size_shift s) (hval s)) (\<lambda>(old, T).
             case old of
               Some b \<Rightarrow> bind_result (free_string a T) (\<lambda>T. bind_result (add_ref b T) (\<lambda>T. Inr (b, T)))
             | None \<Rightarrow> bind_result (link_pike_string low_hashmem a (hval s) T) (\<lambda>T. Inr (a, T)))
         else end_shared_string low_hashmem a T)))"

text \<open>The width the string gets when its widest character goes, \<open>None\<close> when it keeps it.\<close>

definition shrunk_size :: "shared \<Rightarrow> nat \<Rightarrow> 32 word \<Rightarrow> nat option" where
  "shrunk_size s i c =
     (let before = take i (chars s); after = drop (i + 1) (chars s) in
      if size_shift s = 1 then
        if find_magnitude1 before \<noteq> 0 \<or> find_magnitude1 after \<noteq> 0 then None else Some 0
      else if find_magnitude2 before = 2 \<or> find_magnitude2 after = 2 then None
      else
        (let w = max (max (find_magnitude2 before) (find_magnitude2 after)) (min_magnitude c)
         in if w < 2 then Some w else None))"

definition modify_shared_string :: "hash_function \<Rightarrow> nat \<Rightarrow> nat \<Rightarrow> 32 word \<Rightarrow> string_table \<Rightarrow> (nat \<times> string_table) result" where
  "modify_shared_string low_hashmem a i c T =
     with_string T a (\<lambda>s.
       let old_value = chars s ! i in
       if i \<ge> len s then Inl Fatal
       else if old_value = c then Inr (a, T)
       else if min_magnitude c > size_shift s then modified_copy low_hashmem a (min_magnitude c) i c T
       else
         (case (if min_magnitude old_value = size_shift s \<and> min_magnitude c < min_magnitude old_value then shrunk_size s i c else None) of
            Some sh \<Rightarrow> modified_copy low_hashmem a sh i c T
          | None \<Rightarrow>
              if string_may_modify s then modify_in_place low_hashmem a i c T
              else modified_copy low_hashmem a (size_shift s) i c T))"

text \<open>\<open>pike_string_cpy\<close> to the place \<open>i\<close> of a block.\<close>

definition copy_chars :: "nat \<Rightarrow> nat \<Rightarrow> 32 word list \<Rightarrow> string_table \<Rightarrow> string_table result" where
  "copy_chars a i cs T =
     with_string T a (\<lambda>s.
       if i + length cs > len s then Inl Bad_Memory_Access
       else Inr (put_string a (s\<lparr>chars := take i (chars s) @ map (store_char (size_shift s)) cs @ drop (i + length cs) (chars s)\<rparr>) T))"

definition add_shared_strings :: "hash_function \<Rightarrow> nat \<Rightarrow> nat \<Rightarrow> string_table \<Rightarrow> (nat \<times> string_table) result" where
  "add_shared_strings low_hashmem a b T =
     with_string T a (\<lambda>sa. with_string T b (\<lambda>sb.
       bind_result (begin_wide_shared_string (len sa + len sb) (max (size_shift sa) (size_shift sb)) T) (\<lambda>(ret, T).
       bind_result (copy_chars ret 0 (chars sa) T) (\<lambda>T.
       bind_result (copy_chars ret (len sa) (chars sb) T) (\<lambda>T.
         with_string T ret (\<lambda>s.
           low_end_shared_string low_hashmem ret
             (put_string ret (set_flags_for_add s (flags sa) (bmin sa) (bmax sa) (string_is_utf8 sa) sb) T)))))))"

definition realloc_alloc :: "shared \<Rightarrow> nat \<Rightarrow> alloc_type" where
  "realloc_alloc s n =
     (if n < len s \<and> len s - n < 8 then alloc_type s
      else if (n + 1) * 2 ^ size_shift s < sizeof_pike_string then String_Alloc_Ba
      else String_Alloc_Malloc)"

definition realloc_unlinked_string :: "nat \<Rightarrow> nat \<Rightarrow> string_table \<Rightarrow> string_table result" where
  "realloc_unlinked_string a n T =
     with_string T a (\<lambda>s.
       Inr (put_string a (s\<lparr>flags := flags s OR string_not_hashed, chars := take n (chars s) @ replicate (n - len s) 0,
         alloc_type := realloc_alloc s n\<rparr>) T))"

definition realloc_shared_string :: "nat \<Rightarrow> nat \<Rightarrow> string_table \<Rightarrow> (nat \<times> string_table) result" where
  "realloc_shared_string a n T =
     with_string T a (\<lambda>s.
       if srefs s = 1 then
         bind_result (unlink_pike_string a T) (\<lambda>T. bind_result (realloc_unlinked_string a n T) (\<lambda>T. Inr (a, T)))
       else
         bind_result (begin_wide_shared_string n (size_shift s) T) (\<lambda>(r, T).
         bind_result (copy_chars r 0 (chars s) T) (\<lambda>T.
           with_string T r (\<lambda>t.
             bind_result
               (free_string a (put_string r (t\<lparr>flags := flags t OR (flags s AND string_checked_mask), bmin := bmin s, bmax := bmax s,
                  string_is_utf8 := string_is_utf8 s\<rparr>) T))
               (\<lambda>T. Inr (r, T))))))"

definition add_and_free_shared_strings :: "hash_function \<Rightarrow> nat \<Rightarrow> nat \<Rightarrow> string_table \<Rightarrow> (nat \<times> string_table) result" where
  "add_and_free_shared_strings low_hashmem a b T =
     with_string T a (\<lambda>sa. with_string T b (\<lambda>sb.
       if size_shift sa = size_shift sb then
         bind_result (realloc_shared_string a (len sa + len sb) T) (\<lambda>(r, T).
           with_string T r (\<lambda>t.
             let t = update_flags_for_add t sb; T = put_string r t T in
             bind_result (copy_chars r (len sa) (chars sb) T) (\<lambda>T.
             bind_result (free_string b T) (\<lambda>T.
               with_string T r (\<lambda>t. end_shared_string low_hashmem r (put_string r (t\<lparr>flags := flags t OR string_not_hashed\<rparr>) T))))))
       else
         bind_result (add_shared_strings low_hashmem a b T) (\<lambda>(ret, T).
         bind_result (free_string a T) (\<lambda>T.
         bind_result (free_string b T) (\<lambda>T. Inr (ret, T))))))"

section \<open>The first table\<close>

definition empty_table :: "64 word \<Rightarrow> string_table" where
  "empty_table now =
     \<lparr>objects = (\<lambda>a. None), base_table = replicate 1024 [], htable_size = 1024, num_strings = 0, hash_prefix_len = 64, hashkey = 0,
      need_more_hash_prefix_depth = 0, need_new_hashkey_depth = 0, current_time = now, brk = 0\<rparr>"

definition init_shared_string_table :: "hash_function \<Rightarrow> 64 word \<Rightarrow> (nat \<times> string_table) result" where
  "init_shared_string_table low_hashmem now =
     bind_result (make_shared_binary_string low_hashmem [] (empty_table now)) (\<lambda>(a, T).
       with_string T a (\<lambda>s. Inr (a, put_string a (s\<lparr>flags := flags s OR string_is_lowercase OR string_is_uppercase\<rparr>) T)))"

end
