(* ===== verification/String_Shared.thy ===== *)
theory String_Shared
  imports String_Table "HOL-Library.Multiset"
begin

text \<open>
  The invariant of the table of shared strings, and that searching, linking, rehashing and releasing keep
  it. What a program sees of the table is its view: which address holds which characters, with how many
  references.
\<close>

section \<open>The invariant\<close>

definition linked :: "string_table \<Rightarrow> nat set" where
  "linked T = set (concat (base_table T))"

definition string_entry_ok :: "shared \<Rightarrow> bool" where
  "string_entry_ok s \<longleftrightarrow> \<not> not_shared s \<and> \<not> not_hashed s \<and> \<not> has_flag (flags s) string_convert_surrogates \<and> 0 < srefs s \<and>
     find_magnitude2 (chars s) = size_shift s"

text \<open>The part of the invariant that does not depend on hash values.\<close>

definition core_ok :: "string_table \<Rightarrow> bool" where
  "core_ok T \<longleftrightarrow>
     length (base_table T) = htable_size T \<and> (\<exists>k. htable_size T = 2 ^ k) \<and> distinct (concat (base_table T)) \<and>
     (\<forall>a \<in> linked T. \<exists>s. objects T a = Some s \<and> string_entry_ok s) \<and>
     (\<forall>a s. objects T a = Some s \<longrightarrow> \<not> not_shared s \<longrightarrow> a \<in> linked T) \<and>
     (\<forall>a \<in> linked T. \<forall>b \<in> linked T. map_option chars (objects T a) = map_option chars (objects T b) \<longrightarrow> a = b) \<and>
     num_strings T = length (concat (base_table T)) \<and> (\<forall>a. objects T a \<noteq> None \<longrightarrow> a < brk T)"

definition bucket_ok :: "hash_function \<Rightarrow> string_table \<Rightarrow> nat \<Rightarrow> bool" where
  "bucket_ok lh T h \<longleftrightarrow> (\<forall>a \<in> set (base_table T ! h). \<exists>s. objects T a = Some s \<and> hval s = do_hash lh T s \<and> hmodulo T (hval s) = h)"

definition table_ok :: "hash_function \<Rightarrow> string_table \<Rightarrow> bool" where
  "table_ok lh T \<longleftrightarrow> core_ok T \<and> (\<forall>h < htable_size T. bucket_ok lh T h)"

definition view :: "string_table \<Rightarrow> nat \<Rightarrow> (32 word list \<times> nat) option" where
  "view T a = (if a \<in> linked T then map_option (\<lambda>s. (chars s, srefs s)) (objects T a) else None)"

section \<open>Flags\<close>

lemma not_shared_bit: "has_flag (x :: 8 word) string_not_shared \<longleftrightarrow> bit x 1"
proof -
  have e: "string_not_shared = 2 ^ 1"
    by (simp add: string_not_shared_def)
  show ?thesis
    unfolding e and_exp_eq_0_iff_not_bit by simp
qed

lemma not_hashed_bit: "has_flag (x :: 8 word) string_not_hashed \<longleftrightarrow> bit x 0"
proof -
  have e: "string_not_hashed = 2 ^ 0"
    by (simp add: string_not_hashed_def)
  show ?thesis
    unfolding e and_exp_eq_0_iff_not_bit by simp
qed

lemma convert_bit: "has_flag (x :: 8 word) string_convert_surrogates \<longleftrightarrow> bit x 7"
proof -
  have e: "string_convert_surrogates = 2 ^ 7"
    by (simp add: string_convert_surrogates_def)
  show ?thesis
    unfolding e and_exp_eq_0_iff_not_bit by simp
qed

lemma string_flag_bits [simp]:
  "bit string_not_shared (Suc 0)" "\<not> bit string_not_shared 0" "\<not> bit string_not_shared 7"
  "bit string_not_hashed 0" "\<not> bit string_not_hashed (Suc 0)" "\<not> bit string_not_hashed 7"
  "\<not> bit string_content_checked 0" "\<not> bit string_content_checked (Suc 0)" "\<not> bit string_content_checked 7"
  "\<not> bit string_checked_mask 0" "\<not> bit string_checked_mask (Suc 0)" "\<not> bit string_checked_mask 7"
  "\<not> bit string_is_lowercase 0" "\<not> bit string_is_lowercase (Suc 0)" "\<not> bit string_is_lowercase 7"
  "\<not> bit string_is_uppercase 0" "\<not> bit string_is_uppercase (Suc 0)" "\<not> bit string_is_uppercase 7"
  by (simp_all add: string_not_shared_def string_not_hashed_def string_content_checked_def string_checked_mask_def
      string_is_lowercase_def string_is_uppercase_def)

lemmas flag_simps = not_shared_bit not_hashed_bit convert_bit bit_or_iff bit_and_iff bit_not_iff One_nat_def

section \<open>Buckets\<close>

lemma hmodulo_less:
  assumes "htable_size T = 2 ^ k"
  shows "hmodulo T h < htable_size T"
proof -
  have "unat (h AND of_nat (htable_size T - 1)) \<le> unat (of_nat (htable_size T - 1) :: 64 word)"
    by (simp add: word_le_nat_alt [symmetric] word_and_le1)
  also have "\<dots> \<le> htable_size T - 1"
    by (simp add: unat_of_nat)
  finally show ?thesis
    using assms by (simp add: hmodulo_def less_eq_Suc_le [symmetric] Suc_le_eq order.strict_trans1)
qed

lemma mset_concat_update:
  "h < length b \<Longrightarrow> mset (concat (b[h := xs])) + mset (b ! h) = mset (concat b) + mset xs"
proof (induction b arbitrary: h)
  case (Cons x b)
  then show ?case
    by (cases h) (auto simp: add.assoc add.left_commute)
qed simp

lemma mset_push:
  "h < length (base_table T) \<Longrightarrow> mset (concat (base_table (push_bucket h a T))) = add_mset a (mset (concat (base_table T)))"
  using mset_concat_update [of h "base_table T" "a # base_table T ! h"] by (simp add: push_bucket_def)

lemma push_bucket_fields [simp]:
  "objects (push_bucket h a T) = objects T" "htable_size (push_bucket h a T) = htable_size T" "num_strings (push_bucket h a T) = num_strings T"
  "hash_prefix_len (push_bucket h a T) = hash_prefix_len T" "hashkey (push_bucket h a T) = hashkey T" "brk (push_bucket h a T) = brk T"
  "length (base_table (push_bucket h a T)) = length (base_table T)"
  by (simp_all add: push_bucket_def)

lemma put_string_fields [simp]:
  "objects (put_string a s T) = (objects T)(a \<mapsto> s)" "base_table (put_string a s T) = base_table T" "htable_size (put_string a s T) = htable_size T"
  "num_strings (put_string a s T) = num_strings T" "hash_prefix_len (put_string a s T) = hash_prefix_len T"
  "hashkey (put_string a s T) = hashkey T" "brk (put_string a s T) = brk T"
  by (simp_all add: put_string_def)

lemma mset_linked: "mset (concat (base_table T')) = mset (concat (base_table T)) \<Longrightarrow> linked T' = linked T"
  unfolding linked_def by (rule mset_eq_setD)

text \<open>The bucket of an entry.\<close>

lemma linked_bucket:
  assumes "a \<in> linked T"
  obtains h where "h < length (base_table T)" "a \<in> set (base_table T ! h)"
proof -
  obtain b where "b \<in> set (base_table T)" "a \<in> set b"
    using assms by (auto simp: linked_def)
  then show ?thesis
    using that by (auto simp: in_set_conv_nth [of b])
qed

lemma bucket_linked: "h < length (base_table T) \<Longrightarrow> a \<in> set (base_table T ! h) \<Longrightarrow> a \<in> linked T"
  by (auto simp: linked_def)

section \<open>Rehashing\<close>

text \<open>Where the strings of the buckets are put; nothing else changes.\<close>

definition moved :: "string_table \<Rightarrow> string_table \<Rightarrow> nat multiset \<Rightarrow> bool" where
  "moved T T' M \<longleftrightarrow> T' = T\<lparr>base_table := base_table T'\<rparr> \<and> length (base_table T') = length (base_table T) \<and>
     mset (concat (base_table T')) = mset (concat (base_table T)) + M"

definition placed :: "string_table \<Rightarrow> bool" where
  "placed T \<longleftrightarrow> (\<forall>h < length (base_table T). \<forall>a \<in> set (base_table T ! h). \<exists>s. objects T a = Some s \<and> hmodulo T (hval s) = h)"

lemma moved_trans: "moved T T' M \<Longrightarrow> moved T' T'' N \<Longrightarrow> moved T T'' (M + N)"
  unfolding moved_def by (metis (no_types, lifting) string_table.surjective string_table.update_convs(2) add.assoc)

lemma moved_fields:
  assumes "moved T T' M"
  shows "objects T' = objects T" "htable_size T' = htable_size T" "num_strings T' = num_strings T" "hash_prefix_len T' = hash_prefix_len T"
    "hashkey T' = hashkey T" "brk T' = brk T" "length (base_table T') = length (base_table T)"
    "mset (concat (base_table T')) = mset (concat (base_table T)) + M"
proof -
  have e: "T' = T\<lparr>base_table := base_table T'\<rparr>"
    using assms by (simp add: moved_def)
  show "objects T' = objects T" "htable_size T' = htable_size T" "num_strings T' = num_strings T" "hash_prefix_len T' = hash_prefix_len T"
      "hashkey T' = hashkey T" "brk T' = brk T"
    by (subst e, simp)+
qed (use assms in \<open>simp_all add: moved_def\<close>)

lemma push_moved: "h < length (base_table T) \<Longrightarrow> moved T (push_bucket h a T) {#a#}"
  using mset_push [of h T a] by (simp add: moved_def) (simp add: push_bucket_def)

lemma push_placed:
  assumes "placed T" "h < length (base_table T)" "objects T a = Some s" "hmodulo T (hval s) = h"
  shows "placed (push_bucket h a T)"
  using assms by (auto simp: placed_def push_bucket_def nth_list_update hmodulo_def)

lemma string_rehash_chain_ok:
  assumes "placed T" "length (base_table T) = htable_size T" "htable_size T = 2 ^ k" "\<forall>a \<in> set chain. objects T a \<noteq> None"
  shows "\<exists>T'. rehash_string_backwards chain T = Inr T' \<and> moved T T' (mset chain) \<and> placed T'"
proof -
  have "\<exists>T'. fold_result (\<lambda>a T. with_string T a (\<lambda>s. Inr (push_bucket (hmodulo T (hval s)) a T))) as T = Inr T' \<and>
      moved T T' (mset as) \<and> placed T'" if "\<forall>a \<in> set as. objects T a \<noteq> None" for as
    using that assms(1-3)
  proof (induction as arbitrary: T)
    case Nil
    then show ?case
      by (simp add: moved_def)
  next
    case (Cons a as)
    obtain s where s: "objects T a = Some s"
      using Cons.prems(1) by auto
    define T1 where "T1 = push_bucket (hmodulo T (hval s)) a T"
    have h: "hmodulo T (hval s) < length (base_table T)"
      using hmodulo_less [OF Cons.prems(4)] Cons.prems(3) by simp
    have m: "moved T T1 {#a#}" "placed T1"
      unfolding T1_def by (rule push_moved [OF h], rule push_placed [OF Cons.prems(2) h s refl])
    obtain T2 where "fold_result (\<lambda>a T. with_string T a (\<lambda>s. Inr (push_bucket (hmodulo T (hval s)) a T))) as T1 = Inr T2"
        "moved T1 T2 (mset as)" "placed T2"
      using Cons.IH [of T1] Cons.prems m by (auto simp: T1_def)
    then show ?case
      using moved_trans [OF m(1)] s by (auto simp: with_string_def T1_def)
  qed
  from this [of "rev chain"] show ?thesis
    using assms(4) by (simp add: rehash_string_backwards_def)
qed

lemma string_rehash_chains_ok:
  assumes "placed T" "length (base_table T) = htable_size T" "htable_size T = 2 ^ k" "\<forall>a \<in> set (concat bs). objects T a \<noteq> None"
  shows "\<exists>T'. fold_result rehash_string_backwards bs T = Inr T' \<and> moved T T' (mset (concat bs)) \<and> placed T'"
  using assms
proof (induction bs arbitrary: T)
  case Nil
  then show ?case
    by (simp add: moved_def)
next
  case (Cons c cs)
  obtain T1 where T1: "rehash_string_backwards c T = Inr T1" "moved T T1 (mset c)" "placed T1"
    using string_rehash_chain_ok [OF Cons.prems(1-3), of c] Cons.prems(4) by auto
  note f = moved_fields [OF T1(2)]
  obtain T2 where "fold_result rehash_string_backwards cs T1 = Inr T2" "moved T1 T2 (mset (concat cs))" "placed T2"
    using Cons.IH [OF T1(3)] Cons.prems(2-4) f by auto
  then show ?case
    using T1(1) moved_trans [OF T1(2)] by auto
qed


text \<open>A table with the same strings, up to the hash values.\<close>

definition same_strings :: "string_table \<Rightarrow> string_table \<Rightarrow> bool" where
  "same_strings T T' \<longleftrightarrow>
     mset (concat (base_table T')) = mset (concat (base_table T)) \<and> num_strings T' = num_strings T \<and> brk T' = brk T \<and>
     length (base_table T') = htable_size T' \<and> (\<exists>k. htable_size T' = 2 ^ k) \<and>
     (\<forall>a. map_option (hval_update (\<lambda>_. 0)) (objects T' a) = map_option (hval_update (\<lambda>_. 0)) (objects T a))"

definition unshared :: "string_table \<Rightarrow> nat set" where
  "unshared T = dom (objects T) - linked T"

lemma hval_update_eq:
  assumes "hval_update (\<lambda>_. 0) s = hval_update (\<lambda>_. 0) (t :: shared)"
  shows "s = t\<lparr>hval := hval s\<rparr>"
proof -
  have "s = (hval_update (\<lambda>_. 0) s)\<lparr>hval := hval s\<rparr>"
    by simp
  then show ?thesis
    using assms by simp
qed

lemma same_string:
  assumes "same_strings T T'" "objects T a = Some s"
  obtains h where "objects T' a = Some (s\<lparr>hval := h\<rparr>)"
proof -
  have "map_option (hval_update (\<lambda>_. 0)) (objects T' a) = Some (hval_update (\<lambda>_. 0) s)"
    using assms by (simp add: same_strings_def)
  then obtain t where "objects T' a = Some t" "hval_update (\<lambda>_. 0) t = hval_update (\<lambda>_. 0) s"
    by auto
  then show ?thesis
    using that hval_update_eq by metis
qed

lemma same_strings_sym:
  "same_strings T T' \<Longrightarrow> length (base_table T) = htable_size T \<Longrightarrow> htable_size T = 2 ^ k \<Longrightarrow> same_strings T' T"
  by (auto simp: same_strings_def)

lemma same_strings_trans: "same_strings T T' \<Longrightarrow> same_strings T' T'' \<Longrightarrow> same_strings T T''"
  by (auto simp: same_strings_def)

lemma same_chars:
  assumes "same_strings T T'"
  shows "map_option (\<lambda>s. (chars s, srefs s, flags s)) (objects T' a) = map_option (\<lambda>s. (chars s, srefs s, flags s)) (objects T a)"
proof -
  have "map_option (\<lambda>s. (chars s, srefs s, flags s)) (map_option (hval_update (\<lambda>_. 0)) (objects T' a)) =
      map_option (\<lambda>s. (chars s, srefs s, flags s)) (map_option (hval_update (\<lambda>_. 0)) (objects T a))"
    using assms by (simp add: same_strings_def)
  then show ?thesis
    by (simp add: option.map_comp comp_def)
qed

lemma same_objects: "same_strings T T' \<Longrightarrow> objects T' a = None \<longleftrightarrow> objects T a = None"
  using same_chars [of T T' a] by (cases "objects T a"; cases "objects T' a") simp_all

lemma same_view:
  assumes "same_strings T T'"
  shows "linked T' = linked T" "view T' = view T" "unshared T' = unshared T"
proof -
  show l: "linked T' = linked T"
    using assms by (intro mset_linked) (simp add: same_strings_def)
  have "map_option (\<lambda>s. (chars s, srefs s)) (objects T' a) = map_option (\<lambda>s. (chars s, srefs s)) (objects T a)" for a
    using same_chars [OF assms, of a] by (cases "objects T a"; cases "objects T' a") simp_all
  then show "view T' = view T"
    using l by (auto simp: view_def fun_eq_iff)
  have "dom (objects T') = dom (objects T)"
    using same_objects [OF assms] by (auto simp: dom_def)
  then show "unshared T' = unshared T"
    using l by (simp add: unshared_def)
qed

lemma same_core:
  assumes "core_ok T" "same_strings T T'"
  shows "core_ok T'"
proof -
  note f = assms(2) [unfolded same_strings_def]
  have k: "length (base_table T) = htable_size T" "\<exists>k. htable_size T = 2 ^ k"
    using assms(1) by (simp_all add: core_ok_def)
  then have s: "same_strings T' T"
    using same_strings_sym [OF assms(2)] by blast
  have l: "linked T' = linked T"
    by (rule same_view [OF assms(2)])
  have e: "\<exists>s. objects T' a = Some s \<and> string_entry_ok s" if "a \<in> linked T" for a
  proof -
    have "\<exists>s. objects T a = Some s \<and> string_entry_ok s"
      using assms(1) that by (simp add: core_ok_def)
    then obtain s where "objects T a = Some s" "string_entry_ok s"
      by blast
    then show ?thesis
      using same_string [OF assms(2)] by (fastforce simp: string_entry_ok_def)
  qed
  have n: "a \<in> linked T" if as: "objects T' a = Some s" "\<not> not_shared s" for a s
  proof -
    obtain h where "objects T a = Some (s\<lparr>hval := h\<rparr>)"
      using same_string [OF s as(1)] by blast
    then show ?thesis
      using assms(1) as(2) by (simp add: core_ok_def)
  qed
  have c: "map_option chars (objects T' a) = map_option chars (objects T a)" for a
    using same_chars [OF assms(2), of a] by (cases "objects T a"; cases "objects T' a") simp_all
  have d: "distinct (concat (base_table T'))" "length (concat (base_table T')) = length (concat (base_table T))"
    using f assms(1) mset_eq_imp_distinct_iff mset_eq_length unfolding core_ok_def by blast+
  show ?thesis
    using f d e n c l assms(1) same_objects [OF assms(2)] unfolding core_ok_def by auto
qed

lemma same_do_hash:
  "hash_prefix_len T' = hash_prefix_len T \<Longrightarrow> hashkey T' = hashkey T \<Longrightarrow> do_hash lh T' s = do_hash lh T s"
  by (simp add: do_hash_def chars_hash_def low_do_hash_def)

text \<open>An entry of the table is in the bucket of its hash value.\<close>

lemma table_entry:
  assumes "table_ok lh T" "a \<in> linked T"
  obtains s where "objects T a = Some s" "string_entry_ok s" "hval s = do_hash lh T s" "a \<in> set (base_table T ! hmodulo T (hval s))"
    "hmodulo T (hval s) < htable_size T"
proof -
  have l: "length (base_table T) = htable_size T"
    using assms(1) by (simp add: table_ok_def core_ok_def)
  obtain h where h: "h < length (base_table T)" "a \<in> set (base_table T ! h)"
    using linked_bucket [OF assms(2)] .
  have "bucket_ok lh T h"
    using assms(1) h(1) l by (simp add: table_ok_def)
  then obtain s where s: "objects T a = Some s" "hval s = do_hash lh T s" "hmodulo T (hval s) = h"
    using h(2) unfolding bucket_ok_def by blast
  have "\<exists>s. objects T a = Some s \<and> string_entry_ok s"
    using assms unfolding table_ok_def core_ok_def by blast
  then show ?thesis
    using that [of s] s h l by simp
qed

lemma stralloc_rehash_ok:
  assumes "table_ok lh T" "htable_size T < 2 ^ 30"
  shows "\<exists>T'. stralloc_rehash T = Inr T' \<and> same_strings T T' \<and> table_ok lh T'"
proof -
  let ?n = "htable_size T * 2"
  let ?T = "T\<lparr>htable_size := ?n, base_table := replicate ?n [], need_more_hash_prefix_depth := 0\<rparr>"
  have c: "core_ok T" "length (base_table T) = htable_size T"
    using assms by (simp_all add: table_ok_def core_ok_def)
  obtain k where k: "htable_size T = 2 ^ k"
    using c(1) by (auto simp: core_ok_def)
  have o: "objects T a \<noteq> None" if "a \<in> linked T" for a
    using c(1) that by (auto simp: core_ok_def)
  have "\<exists>T'. fold_result rehash_string_backwards (base_table T) ?T = Inr T' \<and> moved ?T T' (mset (concat (base_table T))) \<and> placed T'"
    by (rule string_rehash_chains_ok [of _ "Suc k"]) (use k o in \<open>simp_all add: placed_def linked_def\<close>)
  then obtain T' where r: "fold_result rehash_string_backwards (base_table T) ?T = Inr T'" "moved ?T T' (mset (concat (base_table T)))" "placed T'"
    by blast
  note f = moved_fields [OF r(2), simplified]
  have s: "same_strings T T'"
    unfolding same_strings_def by (intro conjI exI [of _ "Suc k"]) (simp_all add: f k)
  have d: "hval s = do_hash lh T' s" if as: "a \<in> linked T" "objects T a = Some s" for a s
  proof -
    obtain t where "objects T a = Some t" "string_entry_ok t" "hval t = do_hash lh T t" "a \<in> set (base_table T ! hmodulo T (hval t))"
        "hmodulo T (hval t) < htable_size T"
      by (rule table_entry [OF assms(1) as(1)])
    then have "hval s = do_hash lh T s"
      using as(2) by simp
    then show ?thesis
      using f by (simp add: do_hash_def chars_hash_def low_do_hash_def)
  qed
  have "bucket_ok lh T' h" if "h < htable_size T'" for h
    unfolding bucket_ok_def
  proof
    fix a
    assume a: "a \<in> set (base_table T' ! h)"
    have "h < length (base_table T')"
      using that f by simp
    then have "\<exists>s. objects T' a = Some s \<and> hmodulo T' (hval s) = h"
      using r(3) a unfolding placed_def by blast
    then obtain s where s1: "objects T' a = Some s" "hmodulo T' (hval s) = h"
      by blast
    have "a \<in> linked T'"
      using bucket_linked a that f by simp
    then have "a \<in> linked T"
      using same_view [OF s] by simp
    then have "hval s = do_hash lh T' s"
      using d s1(1) f by simp
    then show "\<exists>s. objects T' a = Some s \<and> hval s = do_hash lh T' s \<and> hmodulo T' (hval s) = h"
      using s1 by simp
  qed
  then show ?thesis
    using r(1) s same_core [OF c(1) s] assms(2) by (simp add: stralloc_rehash_def Let_def table_ok_def)
qed


section \<open>A new hash function\<close>

definition rekeyed :: "string_table \<Rightarrow> string_table \<Rightarrow> nat multiset \<Rightarrow> bool" where
  "rekeyed T T' M \<longleftrightarrow>
     mset (concat (base_table T')) = mset (concat (base_table T)) + M \<and> num_strings T' = num_strings T \<and> brk T' = brk T \<and>
     htable_size T' = htable_size T \<and> length (base_table T') = length (base_table T) \<and>
     (\<forall>a. map_option (hval_update (\<lambda>_. 0)) (objects T' a) = map_option (hval_update (\<lambda>_. 0)) (objects T a))"

lemma rekeyed_refl: "rekeyed T T {#}"
  by (simp add: rekeyed_def)

lemma rekeyed_trans: "rekeyed T T' M \<Longrightarrow> rekeyed T' T'' N \<Longrightarrow> rekeyed T T'' (M + N)"
  by (simp add: rekeyed_def)

lemma rekeyed_objects: "rekeyed T T' M \<Longrightarrow> objects T' a = None \<longleftrightarrow> objects T a = None"
  unfolding rekeyed_def by (metis option.map_disc_iff)

lemma rekey_string_eq:
  assumes "objects T a = Some s" "hmodulo T (do_hash lh T s) < length (base_table T)"
  shows "\<exists>T'. rekey_string lh a T = Inr T' \<and> rekeyed T T' {#a#} \<and> hash_prefix_len T' = hash_prefix_len T \<and> hashkey T' = hashkey T \<and>
    (\<forall>b < length (base_table T). a \<notin> linked T \<longrightarrow> bucket_ok lh T b \<longrightarrow> bucket_ok lh T' b)"
proof -
  let ?hv = "do_hash lh T s" and ?T = "put_string a (s\<lparr>hval := do_hash lh T s\<rparr>) T"
  let ?T' = "push_bucket (hmodulo T ?hv) a ?T"
  have r: "rekey_string lh a T = Inr ?T'"
    using assms(1) by (simp add: rekey_string_def with_string_def Let_def hmodulo_def)
  have k: "rekeyed T ?T' {#a#}"
    using mset_push [of "hmodulo T ?hv" ?T a] assms by (simp add: rekeyed_def)
  have b: "bucket_ok lh ?T' b" if bb: "b < length (base_table T)" "a \<notin> linked T" "bucket_ok lh T b" for b
    unfolding bucket_ok_def
  proof
    fix x
    assume "x \<in> set (base_table ?T' ! b)"
    then have "x = a \<and> b = hmodulo T ?hv \<or> x \<in> set (base_table T ! b)"
      using bb(1) by (cases "b = hmodulo T ?hv") (simp_all add: push_bucket_def put_string_def nth_list_update)
    then show "\<exists>s. objects ?T' x = Some s \<and> hval s = do_hash lh ?T' s \<and> hmodulo ?T' (hval s) = b"
    proof
      assume x: "x = a \<and> b = hmodulo T ?hv"
      then have "hmodulo ?T' ?hv = b"
        by (simp add: hmodulo_def)
      then show ?thesis
        using x by (simp add: do_hash_def chars_hash_def low_do_hash_def hmodulo_def)
    next
      assume x: "x \<in> set (base_table T ! b)"
      then obtain t where t: "objects T x = Some t" "hval t = do_hash lh T t" "hmodulo T (hval t) = b"
        using bb(3) unfolding bucket_ok_def by blast
      have "x \<noteq> a"
        using x bb(1,2) bucket_linked by blast
      then show ?thesis
        using t by (simp add: do_hash_def chars_hash_def low_do_hash_def hmodulo_def)
    qed
  qed
  show ?thesis
    using r k b by (intro exI [of _ ?T']) simp
qed

lemma rekey_strings_ok:
  assumes "distinct (concat (base_table T) @ as)" "\<forall>a \<in> set as. objects T a \<noteq> None" "length (base_table T) = htable_size T"
    "htable_size T = 2 ^ k" "\<forall>b < h. bucket_ok lh T b" "h \<le> htable_size T"
  shows "\<exists>T'. fold_result (rekey_string lh) as T = Inr T' \<and> rekeyed T T' (mset as) \<and> hash_prefix_len T' = hash_prefix_len T \<and>
    hashkey T' = hashkey T \<and> (\<forall>b < h. bucket_ok lh T' b)"
  using assms
proof (induction as arbitrary: T)
  case Nil
  then show ?case
    by (simp add: rekeyed_refl)
next
  case (Cons a as)
  obtain s where s: "objects T a = Some s"
    using Cons.prems(2) by auto
  have "hmodulo T (do_hash lh T s) < length (base_table T)"
    using hmodulo_less [OF Cons.prems(4)] Cons.prems(3) by simp
  from rekey_string_eq [OF s this] obtain T1 where T1: "rekey_string lh a T = Inr T1" "rekeyed T T1 {#a#}"
      "hash_prefix_len T1 = hash_prefix_len T" "hashkey T1 = hashkey T"
      "\<And>b. b < length (base_table T) \<Longrightarrow> a \<notin> linked T \<Longrightarrow> bucket_ok lh T b \<Longrightarrow> bucket_ok lh T1 b"
    by blast
  have a: "a \<notin> linked T"
    using Cons.prems(1) by (simp add: linked_def)
  have m: "mset (concat (base_table T1)) = mset (a # concat (base_table T))"
    using T1(2) by (simp add: rekeyed_def)
  have "mset (concat (base_table T1) @ as) = mset (concat (base_table T) @ a # as)"
    using m by simp
  then have d: "distinct (concat (base_table T1) @ as)"
    using Cons.prems(1) mset_eq_imp_distinct_iff by blast
  have o: "\<forall>a \<in> set as. objects T1 a \<noteq> None"
    using Cons.prems(2) rekeyed_objects [OF T1(2)] by simp
  have l: "length (base_table T1) = htable_size T1" "htable_size T1 = 2 ^ k" "h \<le> htable_size T1"
    using T1(2) Cons.prems by (simp_all add: rekeyed_def)
  have b: "\<forall>b < h. bucket_ok lh T1 b"
    using T1(5) a Cons.prems(3,5,6) by simp
  obtain T2 where "fold_result (rekey_string lh) as T1 = Inr T2" "rekeyed T1 T2 (mset as)" "hash_prefix_len T2 = hash_prefix_len T1"
      "hashkey T2 = hashkey T1" "\<forall>b < h. bucket_ok lh T2 b"
    using Cons.IH [OF d o l(1,2) b l(3)] by blast
  then show ?case
    using T1 rekeyed_trans [OF T1(2)] by (intro exI [of _ T2]) simp
qed

lemma rekey_bucket_ok:
  assumes "core_ok T" "\<forall>b < h. bucket_ok lh T b" "h < htable_size T"
  shows "\<exists>T'. rekey_bucket lh h T = Inr T' \<and> same_strings T T' \<and> htable_size T' = htable_size T \<and> (\<forall>b < Suc h. bucket_ok lh T' b)"
proof -
  let ?as = "base_table T ! h" and ?T = "T\<lparr>base_table := (base_table T)[h := []]\<rparr>"
  have l: "length (base_table T) = htable_size T"
    using assms(1) by (simp add: core_ok_def)
  obtain k where k: "htable_size T = 2 ^ k"
    using assms(1) by (auto simp: core_ok_def)
  have m: "mset (concat (base_table ?T)) + mset ?as = mset (concat (base_table T))"
    using mset_concat_update [of h "base_table T" "[]"] assms(3) l by simp
  have "mset (concat (base_table ?T) @ ?as) = mset (concat (base_table T))"
    using m by simp
  then have d: "distinct (concat (base_table ?T) @ ?as)"
    using assms(1) mset_eq_imp_distinct_iff unfolding core_ok_def by blast
  have o: "\<forall>a \<in> set ?as. objects ?T a \<noteq> None"
  proof
    fix a
    assume "a \<in> set ?as"
    then have "a \<in> linked T"
      using bucket_linked assms(3) l by simp
    then show "objects ?T a \<noteq> None"
      using assms(1) by (auto simp: core_ok_def)
  qed
  have b: "\<forall>b < Suc h. bucket_ok lh ?T b"
  proof (intro allI impI)
    fix b
    assume b: "b < Suc h"
    show "bucket_ok lh ?T b"
    proof (cases "b = h")
      case True
      then show ?thesis
        using assms(3) l by (simp add: bucket_ok_def)
    next
      case False
      then show ?thesis
        using assms(2) b by (simp add: bucket_ok_def do_hash_def chars_hash_def low_do_hash_def hmodulo_def)
    qed
  qed
  have "\<exists>T'. fold_result (rekey_string lh) ?as ?T = Inr T' \<and> rekeyed ?T T' (mset ?as) \<and> hash_prefix_len T' = hash_prefix_len ?T \<and>
      hashkey T' = hashkey ?T \<and> (\<forall>b < Suc h. bucket_ok lh T' b)"
    by (rule rekey_strings_ok [OF d o _ _ b, of k]) (use l k assms(3) in simp_all)
  then obtain T' where T': "fold_result (rekey_string lh) ?as ?T = Inr T'" "rekeyed ?T T' (mset ?as)" "\<forall>b < Suc h. bucket_ok lh T' b"
    by blast
  have "same_strings T T'"
    using T'(2) m k l unfolding same_strings_def rekeyed_def by simp
  moreover have "htable_size T' = htable_size T"
    using T'(2) by (simp add: rekeyed_def)
  ultimately show ?thesis
    using T'(1,3) by (simp add: rekey_bucket_def)
qed

lemma rekey_buckets_ok:
  assumes "core_ok T" "h \<le> htable_size T"
  shows "\<exists>T'. fold_result (rekey_bucket lh) [0..<h] T = Inr T' \<and> same_strings T T' \<and> htable_size T' = htable_size T \<and>
    (\<forall>b < h. bucket_ok lh T' b)"
  using assms(2)
proof (induction h)
  case 0
  have "same_strings T T"
    using assms(1) by (simp add: same_strings_def core_ok_def)
  then show ?case
    by simp
next
  case (Suc h)
  then obtain T1 where T1: "fold_result (rekey_bucket lh) [0..<h] T = Inr T1" "same_strings T T1" "htable_size T1 = htable_size T"
      "\<forall>b < h. bucket_ok lh T1 b"
    by auto
  obtain T2 where "rekey_bucket lh h T1 = Inr T2" "same_strings T1 T2" "htable_size T2 = htable_size T1" "\<forall>b < Suc h. bucket_ok lh T2 b"
    using rekey_bucket_ok [OF same_core [OF assms(1) T1(2)] T1(4)] Suc.prems T1(3) by auto
  then show ?case
    using T1 same_strings_trans [OF T1(2)] by (simp add: fold_result_append)
qed

lemma rekey_ok:
  assumes "core_ok T"
  shows "\<exists>T'. fold_result (rekey_bucket lh) [0..<htable_size T] (new_hash T) = Inr T' \<and> same_strings T T' \<and> table_ok lh T'"
proof -
  have e: "objects (new_hash T) = objects T" "base_table (new_hash T) = base_table T" "htable_size (new_hash T) = htable_size T"
    "num_strings (new_hash T) = num_strings T" "brk (new_hash T) = brk T"
    by (simp_all add: new_hash_def Let_def)
  have s: "same_strings T (new_hash T)"
    using assms e by (simp add: same_strings_def core_ok_def)
  obtain T' where T': "fold_result (rekey_bucket lh) [0..<htable_size T] (new_hash T) = Inr T'" "same_strings (new_hash T) T'"
      "htable_size T' = htable_size T" "\<forall>b < htable_size T. bucket_ok lh T' b"
    using rekey_buckets_ok [OF same_core [OF assms s], of "htable_size T" lh] e by auto
  then show ?thesis
    using same_strings_trans [OF s T'(2)] same_core [OF assms] by (auto simp: table_ok_def)
qed


section \<open>Linking\<close>

lemma linked_push: "h < length (base_table T) \<Longrightarrow> linked (push_bucket h a T) = insert a (linked T)"
  using mset_push [of h T a] unfolding linked_def by (metis set_mset_add_mset_insert set_mset_mset)

lemma linked_objects: "table_ok lh T \<Longrightarrow> a \<in> linked T \<Longrightarrow> objects T a \<noteq> None"
  by (auto simp: table_ok_def core_ok_def)

text \<open>The table after the string is put in its bucket.\<close>

definition entered :: "nat \<Rightarrow> shared \<Rightarrow> string_table \<Rightarrow> string_table" where
  "entered a s T = (put_string a s (push_bucket (hmodulo T (hval s)) a T))\<lparr>num_strings := num_strings T + 1\<rparr>"

lemma entered_fields [simp]:
  "objects (entered a s T) = (objects T)(a \<mapsto> s)" "htable_size (entered a s T) = htable_size T" "num_strings (entered a s T) = num_strings T + 1"
  "hash_prefix_len (entered a s T) = hash_prefix_len T" "hashkey (entered a s T) = hashkey T" "brk (entered a s T) = brk T"
  "base_table (entered a s T) = base_table (push_bucket (hmodulo T (hval s)) a T)"
  by (simp_all add: entered_def)

lemma entered_ok:
  assumes ok: "table_ok lh T" and new: "objects T a = None" "a < brk T" and e: "string_entry_ok s" "hval s = do_hash lh T s"
    and fresh: "\<forall>b n. view T b \<noteq> Some (chars s, n)"
  shows "table_ok lh (entered a s T)" "view (entered a s T) = (view T)(a \<mapsto> (chars s, srefs s))" "unshared (entered a s T) = unshared T"
proof -
  let ?T = "entered a s T"
  have c: "core_ok T" "length (base_table T) = htable_size T"
    using ok by (simp_all add: table_ok_def core_ok_def)
  obtain k where k: "htable_size T = 2 ^ k"
    using c(1) by (auto simp: core_ok_def)
  have h: "hmodulo T (hval s) < length (base_table T)"
    using hmodulo_less [OF k] c(2) by simp
  have l: "linked ?T = insert a (linked T)"
    using linked_push [OF h] by (simp add: linked_def)
  have a: "a \<notin> linked T"
    using linked_objects [OF ok] new(1) by blast
  have m: "mset (concat (base_table ?T)) = mset (a # concat (base_table T))"
    using mset_push [OF h] by simp
  have d: "distinct (concat (base_table ?T))"
    using mset_eq_imp_distinct_iff [OF m] a c(1) by (simp add: core_ok_def linked_def)
  have n: "length (concat (base_table ?T)) = num_strings ?T"
    using mset_eq_length [OF m] c(1) by (simp add: core_ok_def)
  have f: "map_option chars (objects T b) \<noteq> Some (chars s)" if "b \<in> linked T" for b
    using fresh [rule_format, of b "case objects T b of Some t \<Rightarrow> srefs t"] that by (cases "objects T b") (auto simp: view_def)
  have u: "x = y" if "x \<in> linked ?T" "y \<in> linked ?T" "map_option chars (objects ?T x) = map_option chars (objects ?T y)" for x y
  proof -
    have "x = a \<or> x \<noteq> a \<and> x \<in> linked T" "y = a \<or> y \<noteq> a \<and> y \<in> linked T"
      using that l a by auto
    moreover have "x = y" if "x \<in> linked T" "y \<in> linked T" "map_option chars (objects T x) = map_option chars (objects T y)" for x y
      using c(1) that unfolding core_ok_def by blast
    ultimately show ?thesis
      using that(3) f [of x] f [of y, symmetric] by (elim disjE) simp_all
  qed
  have ent: "\<exists>s. objects ?T b = Some s \<and> string_entry_ok s" if "b \<in> linked ?T" for b
  proof (cases "b = a")
    case False
    then have "b \<in> linked T"
      using that l by simp
    then show ?thesis
      using c(1) False unfolding core_ok_def by simp
  qed (use e(1) in simp)
  have sh: "b \<in> linked ?T" if "objects ?T b = Some t" "\<not> not_shared t" for b t
    using c(1) that l unfolding core_ok_def by (cases "b = a") simp_all
  have br: "objects ?T b \<noteq> None \<Longrightarrow> b < brk ?T" for b
    using c(1) new(2) unfolding core_ok_def by (cases "b = a") simp_all
  have core: "core_ok ?T"
    unfolding core_ok_def
  proof (intro conjI)
    show "length (base_table ?T) = htable_size ?T" "\<exists>k. htable_size ?T = 2 ^ k"
      using c(2) k by simp_all
    show "distinct (concat (base_table ?T))" "num_strings ?T = length (concat (base_table ?T))"
      by (fact d, fact n [symmetric])
  qed (use ent sh u br in blast)+
  have "bucket_ok lh ?T b" if b: "b < htable_size ?T" for b
    unfolding bucket_ok_def
  proof
    fix x
    assume x: "x \<in> set (base_table ?T ! b)"
    then have "x = a \<and> b = hmodulo T (hval s) \<or> x \<in> set (base_table T ! b)"
      using b c(2) by (cases "b = hmodulo T (hval s)") (simp_all add: push_bucket_def nth_list_update)
    then show "\<exists>s. objects ?T x = Some s \<and> hval s = do_hash lh ?T s \<and> hmodulo ?T (hval s) = b"
    proof
      assume "x = a \<and> b = hmodulo T (hval s)"
      then show ?thesis
        using e(2) by (simp add: do_hash_def chars_hash_def low_do_hash_def hmodulo_def)
    next
      assume y: "x \<in> set (base_table T ! b)"
      have "bucket_ok lh T b"
        using ok b by (simp add: table_ok_def)
      then have "\<exists>t. objects T x = Some t \<and> hval t = do_hash lh T t \<and> hmodulo T (hval t) = b"
        using y unfolding bucket_ok_def by blast
      moreover have "x \<noteq> a"
        using y b c(2) a bucket_linked by auto
      ultimately show ?thesis
        by (simp add: do_hash_def chars_hash_def low_do_hash_def hmodulo_def)
    qed
  qed
  then show "table_ok lh ?T"
    using core by (simp add: table_ok_def)
  show "view ?T = (view T)(a \<mapsto> (chars s, srefs s))"
    using l a by (auto simp: view_def fun_eq_iff)
  show "unshared ?T = unshared T"
    using l a new(1) by (auto simp: unshared_def)
qed

lemma link_eq:
  assumes "s' = s\<lparr>hval := hv, flags := flags s AND NOT (string_not_hashed OR string_not_shared)\<rparr>"
  shows "link_pike_string lh a hv (put_string a s T) =
    bind_result (if num_strings (entered a s' T) > htable_size (entered a s' T) then stralloc_rehash (entered a s' T) else Inr (entered a s' T))
      (\<lambda>T. if need_more_hash_prefix_depth T > 4 \<or> need_new_hashkey_depth T > 128
        then fold_result (rekey_bucket lh) [0..<htable_size T] (new_hash T) else Inr T)"
proof -
  have o: "objects (put_string a s T) a = Some s"
    by simp
  have eq: "put_string a s' (push_bucket (hmodulo (put_string a s T) hv) a (put_string a s T))
      \<lparr>num_strings := num_strings (put_string a s' (push_bucket (hmodulo (put_string a s T) hv) a (put_string a s T))) + 1\<rparr> = entered a s' T"
    using assms by (simp add: entered_def put_string_def push_bucket_def hmodulo_def)
  show ?thesis
    by (simp only: link_pike_string_def with_string_def o option.case Let_def assms [symmetric] eq)
qed

lemma link_ok:
  assumes ok: "table_ok lh T" and new: "objects T a = None" "a < brk T"
    and s: "0 < srefs s" "find_magnitude2 (chars s) = size_shift s" "hv = do_hash lh T s" "\<not> has_flag (flags s) string_convert_surrogates"
    and fresh: "\<forall>b n. view T b \<noteq> Some (chars s, n)" and room: "num_strings T < 2 ^ 30"
  shows "\<exists>T'. link_pike_string lh a hv (put_string a s T) = Inr T' \<and> table_ok lh T' \<and>
    view T' = (view T)(a \<mapsto> (chars s, srefs s)) \<and> unshared T' = unshared T"
proof -
  let ?s = "s\<lparr>hval := hv, flags := flags s AND NOT (string_not_hashed OR string_not_shared)\<rparr>"
  let ?T1 = "entered a ?s T"
  have fl: "\<not> not_shared ?s" "\<not> not_hashed ?s" "\<not> has_flag (flags ?s) string_convert_surrogates"
    using s(4) by (simp_all add: flag_simps)
  then have e: "string_entry_ok ?s"
    using s by (simp add: string_entry_ok_def)
  have hv: "hval ?s = do_hash lh T ?s"
    using s(3) by (simp add: do_hash_def)
  have fresh': "\<forall>b n. view T b \<noteq> Some (chars ?s, n)"
    using fresh by simp
  note ent = entered_ok [OF ok new e hv fresh', simplified]
  have "\<exists>T2. (if num_strings ?T1 > htable_size ?T1 then stralloc_rehash ?T1 else Inr ?T1) = Inr T2 \<and> table_ok lh T2 \<and>
      view T2 = view ?T1 \<and> unshared T2 = unshared ?T1"
  proof (cases "num_strings ?T1 > htable_size ?T1")
    case True
    then have "htable_size ?T1 < 2 ^ 30"
      using room by simp
    then show ?thesis
      using stralloc_rehash_ok [OF ent(1)] same_view True by auto
  qed (use ent(1) in simp)
  then obtain T2 where T2: "(if num_strings ?T1 > htable_size ?T1 then stralloc_rehash ?T1 else Inr ?T1) = Inr T2" "table_ok lh T2"
      "view T2 = view ?T1" "unshared T2 = unshared ?T1"
    by blast
  have "\<exists>T3. fold_result (rekey_bucket lh) [0..<htable_size T2] (new_hash T2) = Inr T3 \<and> table_ok lh T3 \<and> view T3 = view T2 \<and>
      unshared T3 = unshared T2"
    using rekey_ok [of T2 lh] T2(2) same_view unfolding table_ok_def by blast
  then have "\<exists>T3. (if need_more_hash_prefix_depth T2 > 4 \<or> need_new_hashkey_depth T2 > 128
      then fold_result (rekey_bucket lh) [0..<htable_size T2] (new_hash T2) else Inr T2) = Inr T3 \<and>
      table_ok lh T3 \<and> view T3 = view T2 \<and> unshared T3 = unshared T2"
    using T2(2) by auto
  then obtain T3 where T3: "(if need_more_hash_prefix_depth T2 > 4 \<or> need_new_hashkey_depth T2 > 128
      then fold_result (rekey_bucket lh) [0..<htable_size T2] (new_hash T2) else Inr T2) = Inr T3"
      "table_ok lh T3" "view T3 = view T2" "unshared T3 = unshared T2"
    by blast
  have "link_pike_string lh a hv (put_string a s T) = Inr T3"
    unfolding link_eq [OF refl] T2(1) bind_result_simps by (rule T3(1))
  then show ?thesis
    using T3 T2 ent by simp
qed


section \<open>Changes that leave the strings in their buckets\<close>

lemma table_ok_entries:
  assumes ok: "table_ok lh T"
    and same: "base_table T' = base_table T" "htable_size T' = htable_size T" "num_strings T' = num_strings T"
      "hash_prefix_len T' = hash_prefix_len T" "hashkey T' = hashkey T"
    and obs: "\<And>a s. a \<in> linked T \<Longrightarrow> objects T a = Some s \<Longrightarrow> string_entry_ok s \<Longrightarrow>
      \<exists>t. objects T' a = Some t \<and> string_entry_ok t \<and> chars t = chars s \<and> size_shift t = size_shift s \<and> hval t = hval s"
    and priv: "\<And>a s. a \<notin> linked T \<Longrightarrow> objects T' a = Some s \<Longrightarrow> not_shared s"
    and br: "\<And>a. objects T' a \<noteq> None \<Longrightarrow> a < brk T'"
  shows "table_ok lh T'"
proof -
  have l: "linked T' = linked T"
    using same by (simp add: linked_def)
  have c: "core_ok T"
    using ok by (simp add: table_ok_def)
  have ent: "\<exists>s. objects T' a = Some s \<and> string_entry_ok s" if a: "a \<in> linked T" for a
  proof -
    obtain s where s: "objects T a = Some s" "string_entry_ok s"
      using c a unfolding core_ok_def by blast
    then show ?thesis
      using obs [OF a s] by auto
  qed
  have ch: "map_option chars (objects T' a) = map_option chars (objects T a)" if a: "a \<in> linked T" for a
  proof -
    obtain s where "objects T a = Some s" "string_entry_ok s"
      using c a unfolding core_ok_def by blast
    then show ?thesis
      using obs [OF a] by auto
  qed
  have u: "x = y" if "x \<in> linked T" "y \<in> linked T" "map_option chars (objects T' x) = map_option chars (objects T' y)" for x y
    using c that ch unfolding core_ok_def by metis
  have core: "core_ok T'"
    unfolding core_ok_def
  proof (intro conjI)
    show "length (base_table T') = htable_size T'" "\<exists>k. htable_size T' = 2 ^ k" "distinct (concat (base_table T'))"
        "num_strings T' = length (concat (base_table T'))"
      using same c by (simp_all add: core_ok_def)
  qed (use ent u priv br l in blast)+
  have "bucket_ok lh T' h" if h: "h < htable_size T'" for h
    unfolding bucket_ok_def
  proof
    fix a
    assume "a \<in> set (base_table T' ! h)"
    then have a: "a \<in> set (base_table T ! h)"
      using same by simp
    have "bucket_ok lh T h"
      using ok h same by (simp add: table_ok_def)
    then obtain s where s: "objects T a = Some s" "hval s = do_hash lh T s" "hmodulo T (hval s) = h"
      using a unfolding bucket_ok_def by blast
    have l: "a \<in> linked T"
      using a h same c bucket_linked by (simp add: core_ok_def)
    then have "\<exists>s. objects T a = Some s \<and> string_entry_ok s"
      using c unfolding core_ok_def by blast
    then have "string_entry_ok s"
      using s(1) by simp
    from obs [OF l s(1) this] obtain t where "objects T' a = Some t" "chars t = chars s" "size_shift t = size_shift s" "hval t = hval s"
      by blast
    then show "\<exists>s. objects T' a = Some s \<and> hval s = do_hash lh T' s \<and> hmodulo T' (hval s) = h"
      using s(2,3) same by (simp add: do_hash_def chars_hash_def low_do_hash_def hmodulo_def)
  qed
  then show ?thesis
    using core by (simp add: table_ok_def)
qed

lemma table_ok_objects:
  assumes ok: "table_ok lh T"
    and same: "base_table T' = base_table T" "htable_size T' = htable_size T" "num_strings T' = num_strings T"
      "hash_prefix_len T' = hash_prefix_len T" "hashkey T' = hashkey T"
    and obs: "\<And>a s. a \<in> linked T \<Longrightarrow> objects T a = Some s \<Longrightarrow> \<exists>n > 0. objects T' a = Some (s\<lparr>srefs := n\<rparr>)"
    and priv: "\<And>a s. a \<notin> linked T \<Longrightarrow> objects T' a = Some s \<Longrightarrow> not_shared s"
    and br: "\<And>a. objects T' a \<noteq> None \<Longrightarrow> a < brk T'"
  shows "table_ok lh T'"
  by (rule table_ok_entries [OF ok same _ priv br]) (use obs in \<open>fastforce simp: string_entry_ok_def\<close>)+

lemma linked_put [simp]: "linked (put_string a s T) = linked T"
  by (simp add: linked_def)

lemma linked_shared: "table_ok lh T \<Longrightarrow> objects T a = Some s \<Longrightarrow> a \<notin> linked T \<Longrightarrow> not_shared s"
  unfolding table_ok_def core_ok_def by blast

lemma objects_below: "table_ok lh T \<Longrightarrow> objects T a = Some s \<Longrightarrow> a < brk T"
  unfolding table_ok_def core_ok_def by blast

lemma fresh_block: "table_ok lh T \<Longrightarrow> objects T (brk T) = None"
  using objects_below [of lh T "brk T"] by fastforce

lemma view_linked: "view T a = Some (cs, n) \<Longrightarrow> a \<in> linked T \<and> (\<exists>s. objects T a = Some s \<and> chars s = cs \<and> srefs s = n)"
  by (auto simp: view_def split: if_splits)

text \<open>The counters of the search, and the address that is given next.\<close>

definition counted :: "nat \<Rightarrow> nat \<Rightarrow> string_table \<Rightarrow> string_table" where
  "counted d e T = T\<lparr>need_new_hashkey_depth := d, need_more_hash_prefix_depth := e\<rparr>"

definition grown :: "string_table \<Rightarrow> string_table" where
  "grown T = T\<lparr>brk := brk T + 1\<rparr>"

lemma counted_fields [simp]:
  "objects (counted d e T) = objects T" "base_table (counted d e T) = base_table T" "htable_size (counted d e T) = htable_size T"
  "num_strings (counted d e T) = num_strings T" "hash_prefix_len (counted d e T) = hash_prefix_len T" "hashkey (counted d e T) = hashkey T"
  "brk (counted d e T) = brk T"
  by (simp_all add: counted_def)

lemma grown_fields [simp]:
  "objects (grown T) = objects T" "base_table (grown T) = base_table T" "htable_size (grown T) = htable_size T"
  "num_strings (grown T) = num_strings T" "hash_prefix_len (grown T) = hash_prefix_len T" "hashkey (grown T) = hashkey T"
  "brk (grown T) = brk T + 1"
  by (simp_all add: grown_def)

lemma view_cong: "base_table T' = base_table T \<Longrightarrow> objects T' = objects T \<Longrightarrow> view T' = view T \<and> unshared T' = unshared T \<and> linked T' = linked T"
  by (simp add: view_def linked_def unshared_def fun_eq_iff [of "view T'"])

lemma counted_ok:
  assumes "table_ok lh T"
  shows "table_ok lh (counted d e T)"
proof (rule table_ok_objects [OF assms])
  fix a s
  assume "a \<in> linked T" "objects T a = Some s"
  then show "\<exists>n > 0. objects (counted d e T) a = Some (s\<lparr>srefs := n\<rparr>)"
    using assms by (intro exI [of _ "srefs s"]) (auto simp: table_ok_def core_ok_def string_entry_ok_def)
qed (use linked_shared [OF assms] objects_below [OF assms] in auto)

lemma grown_ok:
  assumes "table_ok lh T"
  shows "table_ok lh (grown T)"
proof (rule table_ok_objects [OF assms])
  fix a s
  assume "a \<in> linked T" "objects T a = Some s"
  then show "\<exists>n > 0. objects (grown T) a = Some (s\<lparr>srefs := n\<rparr>)"
    using assms by (intro exI [of _ "srefs s"]) (auto simp: table_ok_def core_ok_def string_entry_ok_def)
qed (use linked_shared [OF assms] objects_below [OF assms] in \<open>auto simp: less_Suc_eq\<close>)

lemma counted_view [simp]: "view (counted d e T) = view T" "unshared (counted d e T) = unshared T" "linked (counted d e T) = linked T"
  using view_cong [of "counted d e T" T] by simp_all

lemma grown_view [simp]: "view (grown T) = view T" "unshared (grown T) = unshared T" "linked (grown T) = linked T"
  using view_cong [of "grown T" T] by simp_all

text \<open>A block that is not in the table.\<close>

lemma put_block_ok:
  assumes ok: "table_ok lh T" and a: "objects T a = None" "a < brk T" and s: "not_shared s"
  shows "table_ok lh (put_string a s T)" "view (put_string a s T) = view T" "unshared (put_string a s T) = insert a (unshared T)"
proof -
  have n: "a \<notin> linked T"
    using linked_objects [OF ok] a(1) by blast
  show "table_ok lh (put_string a s T)"
  proof (rule table_ok_objects [OF ok])
    fix b t
    assume b: "b \<in> linked T" "objects T b = Some t"
    then have "0 < srefs t" "b \<noteq> a"
      using ok n by (auto simp: table_ok_def core_ok_def string_entry_ok_def)
    then show "\<exists>n > 0. objects (put_string a s T) b = Some (t\<lparr>srefs := n\<rparr>)"
      using b by (intro exI [of _ "srefs t"]) simp
  qed (use linked_shared [OF ok] objects_below [OF ok] a s in \<open>auto split: if_splits\<close>)
  show "view (put_string a s T) = view T" "unshared (put_string a s T) = insert a (unshared T)"
    using n by (auto simp: view_def unshared_def fun_eq_iff)
qed

text \<open>The count of references of an entry.\<close>

lemma set_refs_ok:
  assumes ok: "table_ok lh T" and a: "a \<in> linked T" "objects T a = Some s" and n: "0 < n"
  shows "table_ok lh (put_string a (s\<lparr>srefs := n\<rparr>) T)" "view (put_string a (s\<lparr>srefs := n\<rparr>) T) = (view T)(a \<mapsto> (chars s, n))"
    "unshared (put_string a (s\<lparr>srefs := n\<rparr>) T) = unshared T"
proof -
  show "table_ok lh (put_string a (s\<lparr>srefs := n\<rparr>) T)"
  proof (rule table_ok_objects [OF ok])
    fix b t
    assume b: "b \<in> linked T" "objects T b = Some t"
    then have "0 < srefs t"
      using ok by (auto simp: table_ok_def core_ok_def string_entry_ok_def)
    then show "\<exists>m > 0. objects (put_string a (s\<lparr>srefs := n\<rparr>) T) b = Some (t\<lparr>srefs := m\<rparr>)"
      using b a n by (cases "b = a") (auto intro: exI [of _ "srefs t"])
  qed (use linked_shared [OF ok] objects_below [OF ok] a in \<open>auto split: if_splits\<close>)
  show "view (put_string a (s\<lparr>srefs := n\<rparr>) T) = (view T)(a \<mapsto> (chars s, n))" "unshared (put_string a (s\<lparr>srefs := n\<rparr>) T) = unshared T"
    using a by (auto simp: view_def unshared_def fun_eq_iff)
qed


section \<open>Searching\<close>

lemma find_chain_ok:
  assumes "\<forall>a \<in> set as. \<exists>s. objects T a = Some s"
  shows "\<exists>r d e. find_chain T cs shift hv as depth prefix_depth = Inr (r, d, e) \<and>
    (case r of None \<Rightarrow> \<forall>a \<in> set as. \<forall>s. objects T a = Some s \<longrightarrow> \<not> (chars s = cs \<and> size_shift s = shift \<and> hval s = hv)
     | Some a \<Rightarrow> a \<in> set as \<and> (\<exists>s. objects T a = Some s \<and> chars s = cs))"
  using assms
proof (induction as arbitrary: depth prefix_depth)
  case (Cons a as)
  obtain s where s: "objects T a = Some s"
    using Cons.prems by auto
  show ?case
  proof (cases "chars s = cs \<and> size_shift s = shift \<and> hval s = hv")
    case True
    then have "find_chain T cs shift hv (a # as) depth prefix_depth = Inr (Some a, depth, prefix_depth)"
      using s by (auto simp: with_string_def)
    then show ?thesis
      using s True by auto
  next
    case False
    let ?p = "if len s > unat (hash_prefix_len T) then prefix_depth + 1 else prefix_depth"
    have eq: "find_chain T cs shift hv (a # as) depth prefix_depth = find_chain T cs shift hv as (depth + 1) ?p"
    proof -
      have "\<not> (length cs = len s \<and> shift = size_shift s \<and> hv = hval s \<and> chars s = cs)"
        using False by blast
      then show ?thesis
        unfolding find_chain.simps(2) with_string_def s by (simp only: option.case if_False)
    qed
    have "\<forall>a \<in> set as. \<exists>s. objects T a = Some s"
      using Cons.prems by simp
    from Cons.IH [OF this, of "depth + 1" ?p] obtain r d e where r: "find_chain T cs shift hv as (depth + 1) ?p = Inr (r, d, e)"
        "case r of None \<Rightarrow> \<forall>a \<in> set as. \<forall>s. objects T a = Some s \<longrightarrow> \<not> (chars s = cs \<and> size_shift s = shift \<and> hval s = hv)
         | Some a \<Rightarrow> a \<in> set as \<and> (\<exists>s. objects T a = Some s \<and> chars s = cs)"
      by blast
    have "case r of None \<Rightarrow> \<forall>b \<in> set (a # as). \<forall>s. objects T b = Some s \<longrightarrow> \<not> (chars s = cs \<and> size_shift s = shift \<and> hval s = hv)
         | Some b \<Rightarrow> b \<in> set (a # as) \<and> (\<exists>s. objects T b = Some s \<and> chars s = cs)"
      using r(2) s False by (cases r) auto
    then show ?thesis
      unfolding eq r(1) by blast
  qed
qed simp

text \<open>The search finds the string when the table has it; it only counts.\<close>

lemma findstring_ok:
  assumes ok: "table_ok lh T" and cs: "find_magnitude2 cs = shift" "hv = chars_hash lh T shift cs"
  shows "\<exists>r d e. internal_findstring T cs shift hv = Inr (r, counted d e T) \<and>
    (case r of None \<Rightarrow> \<forall>a n. view T a \<noteq> Some (cs, n) | Some a \<Rightarrow> \<exists>n. view T a = Some (cs, n))"
proof -
  have c: "core_ok T" "length (base_table T) = htable_size T"
    using ok by (simp_all add: table_ok_def core_ok_def)
  obtain k where k: "htable_size T = 2 ^ k"
    using c(1) by (auto simp: core_ok_def)
  have h: "hmodulo T hv < length (base_table T)"
    using hmodulo_less [OF k] c(2) by simp
  have o: "\<forall>a \<in> set (base_table T ! hmodulo T hv). \<exists>s. objects T a = Some s"
    using linked_objects [OF ok] bucket_linked [OF h] by auto
  obtain r d e where f: "find_chain T cs shift hv (base_table T ! hmodulo T hv) 0 0 = Inr (r, d, e)"
      "case r of None \<Rightarrow> \<forall>a \<in> set (base_table T ! hmodulo T hv). \<forall>s. objects T a = Some s \<longrightarrow>
         \<not> (chars s = cs \<and> size_shift s = shift \<and> hval s = hv)
       | Some a \<Rightarrow> a \<in> set (base_table T ! hmodulo T hv) \<and> (\<exists>s. objects T a = Some s \<and> chars s = cs)"
    using find_chain_ok [OF o, of cs shift hv 0 0] by blast
  show ?thesis
  proof (cases r)
    case None
    have no: "view T a \<noteq> Some (cs, n)" for a n
    proof
      assume v: "view T a = Some (cs, n)"
      then have a: "a \<in> linked T"
        using view_linked by blast
      obtain s where s: "objects T a = Some s" "string_entry_ok s" "hval s = do_hash lh T s" "a \<in> set (base_table T ! hmodulo T (hval s))"
          "hmodulo T (hval s) < htable_size T"
        by (rule table_entry [OF ok a])
      have "chars s = cs"
        using v a s(1) by (simp add: view_def)
      then have "size_shift s = shift" "hval s = hv"
        using s(2,3) cs by (simp_all add: string_entry_ok_def do_hash_def)
      then show False
        using f(2) None s(1,4) \<open>chars s = cs\<close> by auto
    qed
    let ?d = "if d > need_new_hashkey_depth T then d else need_new_hashkey_depth T"
    let ?e = "if e > need_more_hash_prefix_depth T then e else need_more_hash_prefix_depth T"
    have "internal_findstring T cs shift hv = Inr (None, counted ?d ?e T)"
      using f(1) None by (simp add: internal_findstring_def counted_def)
    then show ?thesis
      using no by (intro exI [of _ None] exI [of _ ?d] exI [of _ ?e]) simp
  next
    case (Some a)
    then obtain s where "a \<in> linked T" "objects T a = Some s" "chars s = cs"
      using f(2) bucket_linked [OF h] by auto
    then have v: "view T a = Some (cs, srefs s)"
      by (simp add: view_def)
    have "internal_findstring T cs shift hv = Inr (Some a, counted (need_new_hashkey_depth T) (need_more_hash_prefix_depth T) T)"
      using f(1) Some by (simp add: internal_findstring_def counted_def)
    then show ?thesis
      using v by (intro exI [of _ "Some a"] exI) auto
  qed
qed

section \<open>Unlinking and release\<close>

lemma unlink_ok:
  assumes ok: "table_ok lh T" and a: "a \<in> linked T" "objects T a = Some s"
  shows "\<exists>T2. unlink_pike_string a T = Inr (put_string a (s\<lparr>flags := flags s OR string_not_shared\<rparr>) T2) \<and>
    (\<forall>t. hval t = hval s \<longrightarrow>
      unlink_pike_string a (put_string a t T) = Inr (put_string a (t\<lparr>flags := flags t OR string_not_shared\<rparr>) T2)) \<and> table_ok lh T2 \<and>
    objects T2 a = None \<and> brk T2 = brk T \<and> view T2 = (view T)(a := None) \<and> unshared T2 = unshared T \<and>
    (\<forall>b. b \<noteq> a \<longrightarrow> objects T2 b = objects T b) \<and> hash_prefix_len T2 = hash_prefix_len T \<and> hashkey T2 = hashkey T"
proof -
  let ?h = "hmodulo T (hval s)"
  let ?b = "(base_table T)[?h := remove1 a (base_table T ! ?h)]"
  let ?T2 = "T\<lparr>base_table := ?b, num_strings := num_strings T - 1, objects := (objects T)(a := None)\<rparr>"
  have c: "core_ok T" "length (base_table T) = htable_size T"
    using ok by (simp_all add: table_ok_def core_ok_def)
  have "\<exists>s'. objects T a = Some s' \<and> a \<in> set (base_table T ! hmodulo T (hval s')) \<and> hmodulo T (hval s') < htable_size T"
    using table_entry [OF ok a(1)] by metis
  then have h: "a \<in> set (base_table T ! ?h)" "?h < length (base_table T)"
    using a(2) c(2) by auto
  have cancel: "add_mset a X = Y" if "X + B = Y + R" "B = add_mset a R" for X B Y R
    using that by simp
  have "mset (concat ?b) + mset (base_table T ! ?h) = mset (concat (base_table T)) + mset (remove1 a (base_table T ! ?h))"
    by (rule mset_concat_update [OF h(2)])
  moreover have "mset (base_table T ! ?h) = add_mset a (mset (remove1 a (base_table T ! ?h)))"
    using h(1) by simp
  ultimately have m: "mset (a # concat ?b) = mset (concat (base_table T))"
    unfolding mset.simps by (rule cancel)
  have d: "distinct (a # concat ?b)"
    using mset_eq_imp_distinct_iff [OF m] c(1) by (simp add: core_ok_def)
  have l: "insert a (linked ?T2) = linked T" "a \<notin> linked ?T2"
    using mset_eq_setD [OF m] d by (simp_all add: linked_def)
  have n: "num_strings ?T2 = length (concat ?b)"
    using mset_eq_length [OF m] c(1) by (simp add: core_ok_def)
  have in_T: "b \<in> linked T \<and> b \<noteq> a" if "b \<in> linked ?T2" for b
    using that l by auto
  have core: "core_ok ?T2"
    unfolding core_ok_def
  proof (intro conjI ballI allI impI)
    show "length (base_table ?T2) = htable_size ?T2" "\<exists>k. htable_size ?T2 = 2 ^ k" "distinct (concat (base_table ?T2))"
        "num_strings ?T2 = length (concat (base_table ?T2))"
      using c d n by (simp_all add: core_ok_def)
    show "\<exists>s. objects ?T2 b = Some s \<and> string_entry_ok s" if "b \<in> linked ?T2" for b
      using in_T [OF that] c(1) by (simp add: core_ok_def)
    show "x = y" if "x \<in> linked ?T2" "y \<in> linked ?T2" "map_option chars (objects ?T2 x) = map_option chars (objects ?T2 y)" for x y
    proof -
      have "map_option chars (objects T x) = map_option chars (objects T y)"
        using in_T [OF that(1)] in_T [OF that(2)] that(3) by simp
      then show ?thesis
        using in_T [OF that(1)] in_T [OF that(2)] c(1) unfolding core_ok_def by blast
    qed
    show "b \<in> linked ?T2" if b: "objects ?T2 b = Some t" "\<not> not_shared t" for b t
    proof -
      have "b \<noteq> a" "objects T b = Some t"
        using b(1) by (auto split: if_splits)
      moreover then have "b \<in> linked T"
        using c(1) b(2) unfolding core_ok_def by blast
      ultimately show ?thesis
        using l(1) by blast
    qed
    show "b < brk ?T2" if "objects ?T2 b \<noteq> None" for b
      using that c(1) by (auto simp: core_ok_def split: if_splits)
  qed
  have bucket: "bucket_ok lh ?T2 b" if b: "b < htable_size T" for b
    unfolding bucket_ok_def
  proof
    fix x
    assume x: "x \<in> set (base_table ?T2 ! b)"
    then have x2: "x \<in> linked ?T2"
      using b c(2) by (intro bucket_linked [of b]) simp_all
    have "x \<in> set (base_table T ! b)"
      using x h(2) by (cases "b = ?h") (auto dest: notin_set_remove1 set_remove1_subset [THEN subsetD])
    moreover have "bucket_ok lh T b"
      using ok b by (simp add: table_ok_def)
    ultimately have "\<exists>s. objects T x = Some s \<and> hval s = do_hash lh T s \<and> hmodulo T (hval s) = b"
      unfolding bucket_ok_def by blast
    then show "\<exists>s. objects ?T2 x = Some s \<and> hval s = do_hash lh ?T2 s \<and> hmodulo ?T2 (hval s) = b"
      using in_T [OF x2] by (simp add: do_hash_def chars_hash_def low_do_hash_def hmodulo_def)
  qed
  have nz: "num_strings T \<noteq> 0"
    using mset_eq_length [OF m] c(1) unfolding core_ok_def by (metis length_0_conv list.distinct(1) length_Cons nat.distinct(1))
  have "unlink_pike_string a T = Inr (put_string a (s\<lparr>flags := flags s OR string_not_shared\<rparr>) ?T2)"
    using h a(2) nz by (simp add: unlink_pike_string_def with_string_def Let_def put_string_def)
  moreover have "unlink_pike_string a (put_string a t T) = Inr (put_string a (t\<lparr>flags := flags t OR string_not_shared\<rparr>) ?T2)"
    if "hval t = hval s" for t
    using h that nz by (simp add: unlink_pike_string_def with_string_def Let_def put_string_def hmodulo_def)
  moreover have "view ?T2 = (view T)(a := None)" "unshared ?T2 = unshared T"
    using l a(2) by (auto simp: view_def unshared_def fun_eq_iff)
  ultimately show ?thesis
    using core bucket by (intro exI [of _ ?T2]) (simp add: table_ok_def)
qed

end
