(* ===== verification/String_Intern.thy ===== *)
theory String_Intern
  imports String_Shared
begin

text \<open>
  Making and releasing shared strings: what each operation of \<open>src/src/stralloc.c\<close> does to the view
  of the table. Every operation ends in \<open>interned\<close>, where a string is entered, or \<open>released\<close>,
  where a reference is dropped.
\<close>

section \<open>Interning and release, on the view\<close>

definition interned :: "(nat \<Rightarrow> (32 word list \<times> nat) option) \<Rightarrow> 32 word list \<Rightarrow> nat \<Rightarrow> (nat \<Rightarrow> (32 word list \<times> nat) option) \<Rightarrow> bool" where
  "interned V cs r V' \<longleftrightarrow>
     (case V r of
        Some (ds, n) \<Rightarrow> ds = cs \<and> V' = V(r \<mapsto> (cs, n + 1))
      | None \<Rightarrow> (\<forall>a n. V a \<noteq> Some (cs, n)) \<and> V' = V(r \<mapsto> (cs, 1)))"

definition released :: "(nat \<Rightarrow> (32 word list \<times> nat) option) \<Rightarrow> nat \<Rightarrow> nat \<Rightarrow> (32 word list \<times> nat) option" where
  "released V a =
     (case V a of
        None \<Rightarrow> V
      | Some (cs, n) \<Rightarrow> if n = 1 then V(a := None) else V(a \<mapsto> (cs, n - 1)))"

lemma internedE:
  assumes "interned V cs r V'"
  obtains n where "V r = Some (cs, n)" "V' = V(r \<mapsto> (cs, n + 1))" | "V r = None" "\<forall>a n. V a \<noteq> Some (cs, n)" "V' = V(r \<mapsto> (cs, 1))"
  using assms by (auto simp: interned_def split: option.splits)

lemma interned_result: "interned V cs r V' \<Longrightarrow> \<exists>n > 0. V' r = Some (cs, n)"
  by (auto elim!: internedE)

lemma interned_others: "interned V cs r V' \<Longrightarrow> a \<noteq> r \<Longrightarrow> V' a = V a"
  by (auto elim!: internedE)

text \<open>The texts of a table that is right are different, and all references are counted.\<close>

lemma view_unique:
  assumes "table_ok lh T" "view T a = Some (cs, n)" "view T b = Some (cs, m)"
  shows "a = b"
proof -
  have "a \<in> linked T" "b \<in> linked T" "map_option chars (objects T a) = map_option chars (objects T b)"
    using view_linked [OF assms(2)] view_linked [OF assms(3)] by auto
  then show ?thesis
    using assms(1) unfolding table_ok_def core_ok_def by blast
qed

lemma view_entry:
  assumes "table_ok lh T" "view T a = Some (cs, n)"
  obtains s where "a \<in> linked T" "objects T a = Some s" "chars s = cs" "srefs s = n" "string_entry_ok s"
proof -
  have a: "a \<in> linked T"
    using view_linked [OF assms(2)] by blast
  obtain s where s: "objects T a = Some s" "chars s = cs" "srefs s = n"
    using view_linked [OF assms(2)] by blast
  have "string_entry_ok s"
    using assms(1) a s(1) unfolding table_ok_def core_ok_def by auto
  then show ?thesis
    using that a s by blast
qed

lemma view_positive: "table_ok lh T \<Longrightarrow> view T a = Some (cs, n) \<Longrightarrow> 0 < n"
  by (erule (1) view_entry) (simp add: string_entry_ok_def)

section \<open>References\<close>

text \<open>Room for \<open>k\<close> more strings and references: at most \<open>2 ^ 30\<close> strings, and counts of
  references that are of type \<open>INT32\<close>.\<close>

definition roomy :: "nat \<Rightarrow> (nat \<Rightarrow> (32 word list \<times> nat) option) \<Rightarrow> bool" where
  "roomy k V \<longleftrightarrow> finite (dom V) \<and> card (dom V) + k \<le> 2 ^ 30 \<and> (\<forall>a cs n. V a = Some (cs, n) \<longrightarrow> n + k < 2 ^ 31)"

lemma roomy_strings:
  assumes "table_ok lh T" "roomy 1 (view T)"
  shows "num_strings T < 2 ^ 30"
proof -
  have c: "core_ok T"
    using assms(1) by (simp add: table_ok_def)
  then have "dom (view T) = linked T"
    using linked_objects [OF assms(1)] by (auto simp: view_def dom_def)
  moreover have "num_strings T = card (linked T)"
    using c distinct_card unfolding core_ok_def linked_def by metis
  ultimately show ?thesis
    using assms(2) by (simp add: roomy_def)
qed

lemma roomy_refs: "roomy k V \<Longrightarrow> V a = Some (cs, n) \<Longrightarrow> n + k < 2 ^ 31"
  unfolding roomy_def by blast

lemma roomy_interned:
  assumes "interned V cs r V'" "roomy (k + 1) V"
  shows "roomy k V'"
proof -
  have d: "dom V' \<subseteq> insert r (dom V)" "finite (dom V)" "card (dom V) + (k + 1) \<le> 2 ^ 30"
    using assms by (auto simp: roomy_def elim!: internedE)
  have "card (dom V') \<le> card (insert r (dom V))"
    using d by (intro card_mono) simp_all
  also have "\<dots> \<le> card (dom V) + 1"
    using card_insert_le_m1 [of "card (dom V) + 1" "dom V" r] by simp
  finally have "card (dom V') + k \<le> 2 ^ 30"
    using d(3) by linarith
  moreover have "finite (dom V')"
    using d finite_subset by auto
  moreover have "n + k < 2 ^ 31" if n: "V' a = Some (ds, n)" for a ds n
  proof (cases "a = r \<and> V r = None")
    case True
    then have "n = 1" "k < 2 ^ 30"
      using assms(1) n d(3) by (auto elim!: internedE)
    then show ?thesis
      by simp
  next
    case False
    then obtain m where "V a = Some (ds, m)" "n \<le> m + 1"
      using assms(1) n by (cases "a = r") (auto elim!: internedE)
    then show ?thesis
      using roomy_refs [OF assms(2)] by fastforce
  qed
  ultimately show ?thesis
    unfolding roomy_def by blast
qed

lemma roomy_released: "roomy k V \<Longrightarrow> roomy k (released V a)"
proof (cases "V a")
  case (Some p)
  assume r: "roomy k V"
  have "dom (released V a) \<subseteq> dom V"
    using Some by (auto simp: released_def split: prod.splits if_splits)
  then have "finite (dom (released V a))" "card (dom (released V a)) \<le> card (dom V)"
    using r card_mono [of "dom V"] finite_subset by (auto simp: roomy_def)
  moreover have "n + k < 2 ^ 31" if "released V a b = Some (cs, n)" for b cs n
  proof (cases "b = a")
    case True
    then have "fst p = cs \<and> n = snd p - 1"
      using that Some by (auto simp: released_def split: prod.splits if_splits)
    moreover have "V a = Some (fst p, snd p)"
      using Some by simp
    ultimately show ?thesis
      using roomy_refs [OF r, of a "fst p" "snd p"] by linarith
  next
    case False
    then have "V b = Some (cs, n)"
      using that Some by (auto simp: released_def split: prod.splits if_splits)
    then show ?thesis
      using roomy_refs [OF r] by blast
  qed
  ultimately show ?thesis
    using r unfolding roomy_def by fastforce
qed (simp add: released_def)

lemma add_ref_ok:
  assumes "table_ok lh T" "view T a = Some (cs, n)" "n + 1 < 2 ^ 31"
  shows "\<exists>T'. add_ref a T = Inr T' \<and> table_ok lh T' \<and> view T' = (view T)(a \<mapsto> (cs, n + 1)) \<and> unshared T' = unshared T"
proof -
  obtain s where s: "a \<in> linked T" "objects T a = Some s" "chars s = cs" "srefs s = n" "string_entry_ok s"
    by (rule view_entry [OF assms(1,2)])
  have "\<not> int (srefs s) + 1 \<ge> 2 ^ 31"
    using s(4) assms(3) by simp
  then have "add_ref a T = Inr (put_string a (s\<lparr>srefs := srefs s + 1\<rparr>) T)"
    using s(2) by (simp add: add_ref_def with_string_def)
  then show ?thesis
    using set_refs_ok [OF assms(1) s(1,2), of "srefs s + 1"] s(3,4) by simp
qed

lemma put_string_twice [simp]: "put_string a t (put_string a s T) = put_string a t T"
  by (simp add: put_string_def)

lemma put_string_commute: "a \<noteq> b \<Longrightarrow> put_string a t (put_string b s T) = put_string b s (put_string a t T)"
  by (simp add: put_string_def fun_upd_twist)

lemma forget_block: "objects T a = None \<Longrightarrow> (put_string a s T)\<lparr>objects := (objects T)(a := None)\<rparr> = T"
  by (simp add: put_string_def) (metis fun_upd_triv string_table.surjective string_table.update_convs(1))

lemma free_block:
  assumes "objects T a = None" "not_shared s" "srefs s = 1"
  shows "free_string a (put_string a s T) = Inr T"
  using assms forget_block [OF assms(1)] by (simp add: free_string_def really_free_string_def with_string_def Let_def)

lemma free_ok:
  assumes "table_ok lh T" "view T a = Some (cs, n)"
  shows "\<exists>T'. free_string a T = Inr T' \<and> table_ok lh T' \<and> view T' = released (view T) a \<and> unshared T' = unshared T \<and> brk T' = brk T \<and>
    (\<forall>b. b \<noteq> a \<longrightarrow> objects T' b = objects T b) \<and> hash_prefix_len T' = hash_prefix_len T \<and> hashkey T' = hashkey T"
proof -
  obtain s where s: "a \<in> linked T" "objects T a = Some s" "chars s = cs" "srefs s = n" "string_entry_ok s"
    by (rule view_entry [OF assms])
  have n: "0 < n"
    using view_positive [OF assms] .
  show ?thesis
  proof (cases "n = 1")
    case False
    have "free_string a T = Inr (put_string a (s\<lparr>srefs := srefs s - 1\<rparr>) T)"
      using s False n by (simp add: free_string_def with_string_def)
    then show ?thesis
      using set_refs_ok [OF assms(1) s(1,2), of "srefs s - 1"] s False n assms(2) by (simp add: released_def)
  next
    case True
    obtain T2 where T2: "unlink_pike_string a T = Inr (put_string a (s\<lparr>flags := flags s OR string_not_shared\<rparr>) T2)"
        "\<And>t. hval t = hval s \<Longrightarrow> unlink_pike_string a (put_string a t T) = Inr (put_string a (t\<lparr>flags := flags t OR string_not_shared\<rparr>) T2)"
        "table_ok lh T2"
        "objects T2 a = None" "brk T2 = brk T" "view T2 = (view T)(a := None)" "unshared T2 = unshared T"
        "\<forall>b. b \<noteq> a \<longrightarrow> objects T2 b = objects T b" "hash_prefix_len T2 = hash_prefix_len T" "hashkey T2 = hashkey T"
      using unlink_ok [OF assms(1) s(1,2)] by blast
    have "unlink_pike_string a (put_string a (s\<lparr>srefs := 0\<rparr>) T) = Inr (put_string a (s\<lparr>srefs := 0, flags := flags s OR string_not_shared\<rparr>) T2)"
      using T2(2) [of "s\<lparr>srefs := 0\<rparr>"] by simp
    then have "free_string a T = Inr T2"
      using s True T2(4) forget_block [OF T2(4)] by (simp add: free_string_def really_free_string_def with_string_def Let_def string_entry_ok_def)
    then show ?thesis
      using T2 True assms(2) by (simp add: released_def)
  qed
qed

text \<open>The release of a string leaves a block alone.\<close>

lemma hmodulo_put [simp]: "hmodulo (put_string a s T) h = hmodulo T h"
  by (simp add: hmodulo_def)

lemma unlink_other: "a \<noteq> b \<Longrightarrow> unlink_pike_string a (put_string b t T) = bind_result (unlink_pike_string a T) (\<lambda>T. Inr (put_string b t T))"
  by (auto simp: unlink_pike_string_def with_string_def Let_def put_string_def hmodulo_def fun_upd_twist split: option.splits)

lemma free_other:
  assumes "a \<noteq> b"
  shows "free_string a (put_string b t T) = bind_result (free_string a T) (\<lambda>T. Inr (put_string b t T))"
proof -
  have d: "(put_string b t T)\<lparr>objects := (objects (put_string b t T))(a := None)\<rparr> = put_string b t (T\<lparr>objects := (objects T)(a := None)\<rparr>)" for T
    using assms by (simp add: put_string_def fun_upd_twist)
  have r: "really_free_string a (put_string b t T) = bind_result (really_free_string a T) (\<lambda>T. Inr (put_string b t T))" for T
    using assms unlink_other [OF assms] d
    by (auto simp: really_free_string_def with_string_def bind_result_def split: option.splits sum.splits)
  show ?thesis
    using assms r put_string_commute [OF assms]
    by (auto simp: free_string_def with_string_def Let_def split: option.splits)
qed

section \<open>Blocks\<close>

definition new_block :: "nat \<Rightarrow> nat \<Rightarrow> shared" where
  "new_block n shift =
     \<lparr>size_shift = shift, chars = replicate n 0, flags = string_not_hashed OR string_not_shared, bmin = 0, bmax = 0, string_is_utf8 = False,
      alloc_type = (if (n + 1) * 2 ^ shift \<le> sizeof_pike_string then String_Alloc_Ba else String_Alloc_Malloc), srefs = 1, hval = 0\<rparr>"

definition block :: "shared \<Rightarrow> bool" where
  "block s \<longleftrightarrow> not_shared s \<and> not_hashed s \<and> srefs s = 1 \<and> \<not> has_flag (flags s) string_convert_surrogates"

lemma new_block_simps [simp]:
  "size_shift (new_block n shift) = shift" "chars (new_block n shift) = replicate n 0" "block (new_block n shift)"
  by (simp add: new_block_def, simp add: new_block_def) (unfold block_def not_shared_bit not_hashed_bit convert_bit, simp add: new_block_def bit_or_iff)

lemma block_update [simp]:
  "block (s\<lparr>chars := cs\<rparr>) = block s" "block (s\<lparr>bmin := lo\<rparr>) = block s" "block (s\<lparr>bmax := hi\<rparr>) = block s" "block (s\<lparr>string_is_utf8 := u\<rparr>) = block s"
  by (simp_all add: block_def)

text \<open>Lengths whose size is representable.\<close>

abbreviation max_chars :: nat where "max_chars \<equiv> 2 ^ 60"

lemma begin_eq:
  assumes "n < max_chars" "shift \<le> 2"
  shows "begin_wide_shared_string n shift T = Inr (brk T, put_string (brk T) (new_block n shift) (grown T))"
proof -
  have "(2 :: nat) ^ shift \<le> 2 ^ 2"
    using assms(2) by (intro power_increasing) simp_all
  then have "(n + 1) * 2 ^ shift \<le> max_chars * 4"
    using assms(1) by (intro mult_mono) simp_all
  then have "\<not> (n \<ge> 2 ^ 63 \<or> (n + 1) * 2 ^ shift \<ge> 2 ^ 64)"
    using assms(1) by simp
  then show ?thesis
    unfolding begin_wide_shared_string_def by (simp add: new_block_def put_string_def grown_def)
qed

lemma write_eq:
  "length cs \<le> len s \<Longrightarrow>
   write_chars a cs (put_string a s T) = Inr (put_string a (s\<lparr>chars := map (store_char (size_shift s)) cs @ drop (length cs) (chars s)\<rparr>) T)"
  by (simp add: write_chars_def with_string_def)

lemma copy_eq:
  "i + length cs \<le> len s \<Longrightarrow>
   copy_chars a i cs (put_string a s T) =
     Inr (put_string a (s\<lparr>chars := take i (chars s) @ map (store_char (size_shift s)) cs @ drop (i + length cs) (chars s)\<rparr>) T)"
  by (simp add: copy_chars_def with_string_def)

lemma min_magnitude_chars: "c \<in> set cs \<Longrightarrow> min_magnitude c \<le> find_magnitude2 cs"
  by (auto simp: min_magnitude_def find_magnitude2_cases)

lemma store_fits:
  assumes "find_magnitude2 cs \<le> shift"
  shows "map (store_char shift) cs = cs"
proof -
  have "store_char shift c = c" if c: "c \<in> set cs" for c
    using store_char_id [of c shift] min_magnitude_chars [OF c] assms by simp
  then show ?thesis
    by (induction cs) simp_all
qed


section \<open>Entering a string\<close>

text \<open>The result of an operation that interns the text \<open>cs\<close> in the strings \<open>V\<close>, when there is room.\<close>

definition interns :: "hash_function \<Rightarrow> string_table \<Rightarrow> (nat \<Rightarrow> (32 word list \<times> nat) option) \<Rightarrow> 32 word list \<Rightarrow> (nat \<times> string_table) result \<Rightarrow> bool" where
  "interns lh T V cs res \<longleftrightarrow>
     (roomy 1 V \<longrightarrow> (\<exists>r T'. res = Inr (r, T') \<and> table_ok lh T' \<and> interned V cs r (view T') \<and> unshared T' = unshared T))"

lemma internsI:
  "res = Inr (r, T') \<Longrightarrow> table_ok lh T' \<Longrightarrow> interned V cs r (view T') \<Longrightarrow> unshared T' = unshared T \<Longrightarrow> interns lh T V cs res"
  by (auto simp: interns_def)

lemma interns_room: "(roomy 1 V \<Longrightarrow> interns lh T V cs res) \<Longrightarrow> interns lh T V cs res"
  by (auto simp: interns_def)

lemma internsE:
  assumes "interns lh T V cs res" "roomy 1 V"
  obtains r T' where "res = Inr (r, T')" "table_ok lh T'" "interned V cs r (view T')" "unshared T' = unshared T"
  using assms by (auto simp: interns_def)

lemma counted_put [simp]: "counted d e (put_string a s T) = put_string a s (counted d e T)"
  by (simp add: counted_def put_string_def)

lemma interned_link: "V a = None \<Longrightarrow> \<forall>b n. V b \<noteq> Some (cs, n) \<Longrightarrow> interned V cs a (V(a \<mapsto> (cs, 1)))"
  by (simp add: interned_def)

lemma interned_add_ref: "V a = Some (cs, n) \<Longrightarrow> interned V cs a (V(a \<mapsto> (cs, n + 1)))"
  by (simp add: interned_def)

lemma view_no_object: "objects T a = None \<Longrightarrow> view T a = None"
  by (simp add: view_def)

lemma do_hash_put [simp]: "do_hash lh (put_string a t T) = do_hash lh T" "do_hash lh (counted d e T) = do_hash lh T"
  by (simp_all add: do_hash_def chars_hash_def low_do_hash_def fun_eq_iff)

lemma chars_hash_put [simp]: "chars_hash lh (put_string a t T) = chars_hash lh T" "chars_hash lh (counted d e T) = chars_hash lh T"
  by (simp_all add: chars_hash_def low_do_hash_def fun_eq_iff)

lemma chars_hash_grown [simp]: "chars_hash lh (grown T) = chars_hash lh T"
  by (simp add: chars_hash_def low_do_hash_def fun_eq_iff)

text \<open>The search for the text of a block, which is released when the text is there and linked otherwise.\<close>

lemma find_or_link_ok:
  assumes ok: "table_ok lh T" and a: "objects T a = None" "a < brk T"
    and s: "not_shared s" "srefs s = 1" "find_magnitude2 (chars s) = size_shift s" "h = do_hash lh T s"
    and t: "chars t = chars s" "size_shift t = size_shift s" "srefs t = 1" "\<not> has_flag (flags t) string_convert_surrogates"
  shows "interns lh T (view T) (chars s)
    (bind_result (internal_findstring (put_string a s T) (chars s) (size_shift s) h) (\<lambda>(s2, T).
       case s2 of
         Some b \<Rightarrow> bind_result (free_string a T) (\<lambda>T. bind_result (add_ref b T) (\<lambda>T. Inr (b, T)))
       | None \<Rightarrow> bind_result (link_pike_string lh a h (put_string a t T)) (\<lambda>T. Inr (a, T))))"
    (is "interns _ _ _ _ ?res")
proof -
  note p = put_block_ok [OF ok a s(1)]
  have hv: "h = chars_hash lh (put_string a s T) (size_shift s) (chars s)"
    unfolding chars_hash_put s(4) by (rule do_hash_def)
  obtain r d e where f: "internal_findstring (put_string a s T) (chars s) (size_shift s) h = Inr (r, counted d e (put_string a s T))"
      "case r of None \<Rightarrow> \<forall>b n. view (put_string a s T) b \<noteq> Some (chars s, n) | Some b \<Rightarrow> \<exists>n. view (put_string a s T) b = Some (chars s, n)"
    using findstring_ok [OF p(1) s(3) hv] by blast
  define T1 where "T1 = counted d e T"
  have ok1: "table_ok lh T1" "view T1 = view T" "unshared T1 = unshared T" "objects T1 a = None" "a < brk T1"
    using counted_ok [OF ok] a by (simp_all add: T1_def)
  have f1: "internal_findstring (put_string a s T) (chars s) (size_shift s) h = Inr (r, put_string a s T1)"
    using f(1) by (simp add: T1_def)
  show ?thesis
  proof (rule interns_room, cases r)
    assume room: "roomy 1 (view T)"
    case (Some c)
    then obtain n where c: "view T1 c = Some (chars s, n)"
      using f(2) p(2) ok1(2) by auto
    obtain T2 where T2: "add_ref c T1 = Inr T2" "table_ok lh T2" "view T2 = (view T1)(c \<mapsto> (chars s, n + 1))" "unshared T2 = unshared T1"
      using add_ref_ok [OF ok1(1) c roomy_refs [OF room c [unfolded ok1(2)]]] by blast
    have r: "?res = Inr (c, T2)"
      unfolding f1 Some bind_result_simps prod.case option.case free_block [OF ok1(4) s(1,2)] T2(1) by (rule refl)
    show ?thesis
      by (rule internsI [OF r T2(2)]) (use T2(3,4) ok1(2,3) interned_add_ref [of "view T1"] c in simp_all)
  next
    assume room: "roomy 1 (view T)"
    case None
    have fresh: "\<forall>b n. view T1 b \<noteq> Some (chars t, n)"
      using f(2) None p(2) ok1(2) t(1) by simp
    have ht: "h = do_hash lh T1 t"
      using t(1,2) s(4) by (simp add: T1_def do_hash_def)
    have "\<exists>T'. link_pike_string lh a h (put_string a t T1) = Inr T' \<and> table_ok lh T' \<and>
        view T' = (view T1)(a \<mapsto> (chars t, srefs t)) \<and> unshared T' = unshared T1"
      by (rule link_ok [OF ok1(1,4,5) _ _ ht t(4) fresh])
        (use t s(3) roomy_strings [OF ok1(1)] room ok1(2) in simp_all)
    then obtain T2 where T2: "link_pike_string lh a h (put_string a t T1) = Inr T2" "table_ok lh T2"
        "view T2 = (view T1)(a \<mapsto> (chars t, srefs t))" "unshared T2 = unshared T1"
      by blast
    have r: "?res = Inr (a, T2)"
      unfolding f1 None bind_result_simps prod.case option.case put_string_twice T2(1) by (rule refl)
    have i: "interned (view T1) (chars t) a (view T2)"
      unfolding T2(3) t(3) by (rule interned_link [OF view_no_object [OF ok1(4)] fresh])
    show ?thesis
      by (rule internsI [OF r T2(2)]) (use i T2(4) ok1(2,3) t(1) in simp_all)
  qed
qed

lemma low_end_ok:
  assumes ok: "table_ok lh T" and a: "objects T a = None" "a < brk T" and s: "block s" "find_magnitude2 (chars s) = size_shift s"
  shows "interns lh T (view T) (chars s) (low_end_shared_string lh a (put_string a s T))"
proof -
  let ?h = "do_hash lh T s"
  let ?s = "s\<lparr>hval := ?h, flags := flags s AND NOT string_not_hashed\<rparr>"
  let ?t = "if len ?s = 0 then ?s\<lparr>string_is_utf8 := True, bmin := 0, bmax := 0, flags := flags ?s OR string_content_checked\<rparr> else ?s"
  have b: "not_shared s" "not_hashed s" "srefs s = 1"
    using s(1) by (simp_all add: block_def)
  have ns: "not_shared ?s" "\<not> has_flag (flags ?t) string_convert_surrogates"
    using s(1) by (simp_all add: block_def flag_simps)
  have h: "do_hash lh (put_string a s T) s = ?h" "?h = do_hash lh T ?s"
    by (simp_all add: do_hash_def)
  have eq: "low_end_shared_string lh a (put_string a s T) =
      bind_result (internal_findstring (put_string a ?s T) (chars ?s) (size_shift ?s) ?h) (\<lambda>(s2, T).
        case s2 of
          Some b \<Rightarrow> bind_result (free_string a T) (\<lambda>T. bind_result (add_ref b T) (\<lambda>T. Inr (b, T)))
        | None \<Rightarrow> bind_result (link_pike_string lh a ?h (put_string a ?t T)) (\<lambda>T. Inr (a, T)))"
    unfolding low_end_shared_string_def with_string_def Let_def using b(2) by (simp add: h(1))
  have "interns lh T (view T) (chars ?s) (low_end_shared_string lh a (put_string a s T))"
    unfolding eq by (rule find_or_link_ok [OF ok a ns(1) _ _ h(2) _ _ _ ns(2)]) (use b s(2) in simp_all)
  then show ?thesis
    by simp
qed

lemma grown_put [simp]: "grown (put_string a s T) = put_string a s (grown T)"
  by (simp add: grown_def put_string_def)

lemma free_block_below:
  assumes "objects T a = None" "not_shared s" "srefs s = 1" "a \<noteq> b"
  shows "free_string a (put_string b t (put_string a s T)) = Inr (put_string b t T)"
  by (simp add: free_other [OF assms(4)] free_block [OF assms(1-3)])

lemma convert_eq:
  assumes a: "objects T a = None" "a < brk T" and s: "block s" "len s < max_chars"
    and sh: "find_magnitude2 (chars s) \<le> shift" "shift \<le> 2"
  shows "convert_string a shift (put_string a s T) =
    Inr (brk T, put_string (brk T) ((new_block (len s) shift)\<lparr>chars := chars s\<rparr>) (grown T))"
proof -
  have b: "begin_wide_shared_string (len s) shift (put_string a s T) =
      Inr (brk T, put_string (brk T) (new_block (len s) shift) (put_string a s (grown T)))"
    by (simp add: begin_eq [OF s(2) sh(2)])
  have w: "write_chars (brk T) (chars s) (put_string (brk T) (new_block (len s) shift) (put_string a s (grown T))) =
      Inr (put_string (brk T) ((new_block (len s) shift)\<lparr>chars := chars s\<rparr>) (put_string a s (grown T)))"
    by (simp add: write_eq store_fits [OF sh(1)])
  have f: "free_string a (put_string (brk T) ((new_block (len s) shift)\<lparr>chars := chars s\<rparr>) (put_string a s (grown T))) =
      Inr (put_string (brk T) ((new_block (len s) shift)\<lparr>chars := chars s\<rparr>) (grown T))"
    by (rule free_block_below) (use a s(1) in \<open>simp_all add: block_def\<close>)
  have "objects (put_string a s T) a = Some s"
    by simp
  then show ?thesis
    unfolding convert_string_def with_string_def by (simp only: option.case b bind_result_simps prod.case w f)
qed

lemma interns_grown: "interns lh (grown T) V cs res = interns lh T V cs res"
  by (simp add: interns_def)

text \<open>The new block of a text, with the width the text needs.\<close>

lemma low_end_new:
  assumes "table_ok lh T" "find_magnitude2 cs = shift"
  shows "interns lh T (view T) cs (low_end_shared_string lh (brk T) (put_string (brk T) ((new_block n shift)\<lparr>chars := cs\<rparr>) (grown T)))"
proof -
  have "interns lh (grown T) (view (grown T)) (chars ((new_block n shift)\<lparr>chars := cs\<rparr>))
      (low_end_shared_string lh (brk T) (put_string (brk T) ((new_block n shift)\<lparr>chars := cs\<rparr>) (grown T)))"
    by (rule low_end_ok [OF grown_ok [OF assms(1)]]) (use assms(2) fresh_block [OF assms(1)] in simp_all)
  then show ?thesis
    by (simp add: interns_grown)
qed

lemma find_magnitude1_2: "find_magnitude2 cs \<le> 1 \<Longrightarrow> find_magnitude1 cs = find_magnitude2 cs"
  using find_magnitude1_zero [of cs] find_magnitude1_le [of cs] by (auto simp: find_magnitude2_cases split: if_splits)

lemma end_ok:
  assumes ok: "table_ok lh T" and a: "objects T a = None" "a < brk T" and s: "block s" "len s < max_chars"
    and m: "find_magnitude2 (chars s) \<le> size_shift s" "size_shift s \<le> 2"
  shows "interns lh T (view T) (chars s) (end_shared_string lh a (put_string a s T))"
proof -
  let ?m = "find_magnitude2 (chars s)"
  have ns: "\<not> has_flag (flags s) string_convert_surrogates"
    using s(1) by (simp add: block_def)
  have o: "objects (put_string a s T) a = Some s"
    by simp
  show ?thesis
  proof (cases "?m = size_shift s")
    case True
    have "size_shift s \<noteq> 0 \<Longrightarrow> size_shift s = 1 \<or> size_shift s = 2"
      using m(2) by linarith
    then have "end_shared_string lh a (put_string a s T) = low_end_shared_string lh a (put_string a s T)"
      unfolding end_shared_string_def with_string_def o option.case
      using True ns find_magnitude1_2 [of "chars s"] by auto
    then show ?thesis
      using low_end_ok [OF ok a s(1) True] by simp
  next
    case False
    note cv = convert_eq [OF a s order.refl order.trans [OF m]]
    let ?n = "(new_block (len s) ?m)\<lparr>chars := chars s\<rparr>"
    have "size_shift s = 2 \<and> ?m < 2 \<or> size_shift s = 1 \<and> ?m = 0"
      using False m by linarith
    then have "end_shared_string lh a (put_string a s T) =
        low_end_shared_string lh (brk T) (put_string (brk T) ?n (grown T))"
    proof
      assume "size_shift s = 2 \<and> ?m < 2"
      then show ?thesis
        unfolding end_shared_string_def with_string_def o option.case by (simp add: cv)
    next
      assume c: "size_shift s = 1 \<and> ?m = 0"
      then have z: "find_magnitude1 (chars s) = 0" "convert_string a 0 (put_string a s T) = Inr (brk T, put_string (brk T) ?n (grown T))"
        using find_magnitude1_2 [of "chars s"] cv by simp_all
      have "\<not> has_flag (flags ?n) string_convert_surrogates"
        using new_block_simps(3) [of "len s" ?m] by (simp add: block_def)
      then show ?thesis
        unfolding end_shared_string_def with_string_def o option.case by (simp add: c z)
    qed
    then show ?thesis
      using low_end_new [OF ok refl] by simp
  qed
qed

section \<open>Making strings\<close>

lemma interns_begin:
  "table_ok lh T \<Longrightarrow> interns lh (grown T) (view (grown T)) cs res \<Longrightarrow> interns lh T (view T) cs res"
  by (simp add: interns_grown)

lemma make_narrowed_ok:
  assumes ok: "table_ok lh T" and cs: "length cs < max_chars" "find_magnitude2 cs \<le> shift" "shift \<le> 2"
  shows "interns lh T (view T) cs (make_narrowed lh cs shift T)"
proof -
  let ?s = "(new_block (length cs) shift)\<lparr>chars := cs\<rparr>"
  have "make_narrowed lh cs shift T = end_shared_string lh (brk T) (put_string (brk T) ?s (grown T))"
    by (simp add: make_narrowed_def begin_eq [OF cs(1,3)] write_eq store_fits [OF cs(2)])
  moreover have "interns lh (grown T) (view (grown T)) (chars ?s) (end_shared_string lh (brk T) (put_string (brk T) ?s (grown T)))"
    by (rule end_ok [OF grown_ok [OF ok]]) (use cs fresh_block [OF ok] in simp_all)
  ultimately show ?thesis
    by (simp add: interns_grown)
qed

lemma make_linked_ok:
  assumes ok: "table_ok lh T" and cs: "length cs < max_chars" "find_magnitude2 cs = shift" "h = chars_hash lh T shift cs"
  shows "interns lh T (view T) cs (make_linked lh cs shift h T)"
proof -
  obtain r d e where f: "internal_findstring T cs shift h = Inr (r, counted d e T)"
      "case r of None \<Rightarrow> \<forall>a n. view T a \<noteq> Some (cs, n) | Some a \<Rightarrow> \<exists>n. view T a = Some (cs, n)"
    using findstring_ok [OF ok cs(2,3)] by blast
  define T1 where "T1 = counted d e T"
  have ok1: "table_ok lh T1" "view T1 = view T" "unshared T1 = unshared T"
    using counted_ok [OF ok] by (simp_all add: T1_def)
  show ?thesis
  proof (rule interns_room, cases r)
    assume room: "roomy 1 (view T)"
    case (Some a)
    then obtain n where a: "view T1 a = Some (cs, n)"
      using f(2) ok1(2) by auto
    obtain T2 where T2: "add_ref a T1 = Inr T2" "table_ok lh T2" "view T2 = (view T1)(a \<mapsto> (cs, n + 1))" "unshared T2 = unshared T1"
      using add_ref_ok [OF ok1(1) a roomy_refs [OF room a [unfolded ok1(2)]]] by blast
    have r: "make_linked lh cs shift h T = Inr (a, T2)"
      by (simp add: make_linked_def f(1) Some T2(1) [unfolded T1_def])
    show ?thesis
      by (rule internsI [OF r T2(2)]) (use T2(3,4) ok1 a interned_add_ref [of "view T1"] in simp_all)
  next
    assume room: "roomy 1 (view T)"
    case None
    let ?s = "(new_block (length cs) shift)\<lparr>chars := cs\<rparr>" and ?a = "brk T1"
    have fresh: "\<forall>b n. view (grown T1) b \<noteq> Some (chars ?s, n)"
      using f(2) None ok1(2) by simp
    have sh: "shift \<le> 2"
      using find_magnitude2_le [of cs] cs(2) by simp
    have n: "objects (grown T1) ?a = None" "?a < brk (grown T1)"
      using fresh_block [OF ok1(1)] by simp_all
    have h: "h = do_hash lh (grown T1) ?s"
      using cs(3) by (simp add: T1_def do_hash_def)
    have "\<exists>T'. link_pike_string lh ?a h (put_string ?a ?s (grown T1)) = Inr T' \<and> table_ok lh T' \<and>
        view T' = (view (grown T1))(?a \<mapsto> (chars ?s, srefs ?s)) \<and> unshared T' = unshared (grown T1)"
      by (rule link_ok [OF grown_ok [OF ok1(1)] n _ _ h _ fresh])
        (use roomy_strings [OF ok1(1)] room ok1(2) cs(2) new_block_simps(3) [of "length cs" shift] in \<open>simp_all add: block_def\<close>)
    then obtain T2 where T2: "link_pike_string lh ?a h (put_string ?a ?s (grown T1)) = Inr T2" "table_ok lh T2"
        "view T2 = (view T1)(?a \<mapsto> (cs, 1))" "unshared T2 = unshared T1"
      by (auto simp: new_block_def)
    have "make_linked lh cs shift h T = bind_result (begin_wide_shared_string (length cs) shift T1) (\<lambda>(a, T).
           bind_result (write_chars a cs T) (\<lambda>T. bind_result (link_pike_string lh a h T) (\<lambda>T. Inr (a, T))))"
      by (simp add: make_linked_def f(1) None T1_def)
    also have "\<dots> = Inr (?a, T2)"
      by (simp add: begin_eq [OF cs(1) sh] write_eq store_fits cs(2) T2(1))
    finally have r: "make_linked lh cs shift h T = Inr (?a, T2)" .
    have i: "interned (view T1) cs ?a (view T2)"
      unfolding T2(3) by (rule interned_link) (use fresh view_no_object fresh_block [OF ok1(1)] in simp_all)
    show ?thesis
      by (rule internsI [OF r T2(2)]) (use i T2(4) ok1 in simp_all)
  qed
qed


lemma make_shared_binary_string_ok:
  assumes "table_ok lh T" "length cs < max_chars" "find_magnitude2 cs = 0"
  shows "interns lh T (view T) cs (make_shared_binary_string lh cs T)"
  unfolding make_shared_binary_string_def by (rule make_linked_ok [OF assms refl])

lemma make_shared_binary_string1_ok:
  assumes "table_ok lh T" "length cs < max_chars" "find_magnitude2 cs \<le> 1"
  shows "interns lh T (view T) cs (make_shared_binary_string1 lh cs T)"
proof (cases "find_magnitude1 cs = 0")
  case True
  then show ?thesis
    using make_narrowed_ok [OF assms(1,2), of 0] find_magnitude1_2 [OF assms(3)] by (simp add: make_shared_binary_string1_def)
next
  case False
  then have "find_magnitude2 cs = 1"
    using assms(3) find_magnitude1_2 [OF assms(3)] by linarith
  then show ?thesis
    using make_linked_ok [OF assms(1,2) _ refl, of 1] False by (simp add: make_shared_binary_string1_def)
qed

lemma make_shared_binary_string2_ok:
  assumes "table_ok lh T" "length cs < max_chars"
  shows "interns lh T (view T) cs (make_shared_binary_string2 lh cs T)"
proof -
  have "find_magnitude2 cs = 0 \<or> find_magnitude2 cs = 1 \<or> find_magnitude2 cs = 2"
    using find_magnitude2_le [of cs] by linarith
  then show ?thesis
    using make_narrowed_ok [OF assms, of 0] make_narrowed_ok [OF assms, of 1] make_linked_ok [OF assms _ refl, of 2]
    by (auto simp: make_shared_binary_string2_def)
qed

lemma make_shared_binary_pcharp_ok:
  assumes "table_ok lh T" "length cs < max_chars" "find_magnitude2 cs \<le> shift"
  shows "interns lh T (view T) cs (make_shared_binary_pcharp lh shift cs T)"
  using assms make_shared_binary_string_ok make_shared_binary_string1_ok make_shared_binary_string2_ok
  by (simp add: make_shared_binary_pcharp_def)

lemma make_shared_wide_string_ok:
  assumes "table_ok lh T" "length cs < max_chars" "find_magnitude2 cs \<le> shift" "shift \<le> 2"
  shows "interns lh T (view T) cs (make_shared_wide_string lh cs shift T)"
  unfolding make_shared_wide_string_def by (rule make_narrowed_ok [OF assms])

section \<open>Sums\<close>

lemma set_flags_fields [simp]:
  "chars (set_flags_for_add s fs lo hi u b) = chars s" "size_shift (set_flags_for_add s fs lo hi u b) = size_shift s"
  by (simp_all add: set_flags_for_add_def Let_def)

lemma srefs_set_flags [simp]: "srefs (set_flags_for_add s fs lo hi u b) = srefs s"
  by (simp add: set_flags_for_add_def Let_def)

lemma block_set_flags: "block s \<Longrightarrow> block (set_flags_for_add s fs lo hi u b)"
  unfolding block_def not_shared_bit not_hashed_bit convert_bit set_flags_for_add_def Let_def
  by (auto simp: bit_or_iff bit_and_iff bit_not_iff)

lemma find_magnitude2_append: "find_magnitude2 (cs @ ds) = max (find_magnitude2 cs) (find_magnitude2 ds)"
  using byte_char by (auto simp: find_magnitude2_cases)

lemma add_shared_strings_ok:
  assumes ok: "table_ok lh T" and a: "view T a = Some (ca, na)" and b: "view T b = Some (cb, nb)" and n: "length ca + length cb < max_chars"
  shows "interns lh T (view T) (ca @ cb) (add_shared_strings lh a b T)"
proof -
  obtain sa where sa: "a \<in> linked T" "objects T a = Some sa" "chars sa = ca" "srefs sa = na" "string_entry_ok sa"
    by (rule view_entry [OF ok a])
  obtain sb where sb: "b \<in> linked T" "objects T b = Some sb" "chars sb = cb" "srefs sb = nb" "string_entry_ok sb"
    by (rule view_entry [OF ok b])
  let ?m = "max (size_shift sa) (size_shift sb)"
  have m: "size_shift sa = find_magnitude2 ca" "size_shift sb = find_magnitude2 cb"
    using sa sb by (auto simp: string_entry_ok_def)
  have le: "?m \<le> 2" "find_magnitude2 ca \<le> ?m" "find_magnitude2 cb \<le> ?m"
    using m find_magnitude2_le by simp_all
  let ?s0 = "new_block (length ca + length cb) ?m"
  let ?s1 = "?s0\<lparr>chars := ca @ replicate (length cb) 0\<rparr>"
  let ?s2 = "?s0\<lparr>chars := ca @ cb\<rparr>"
  let ?s3 = "set_flags_for_add ?s2 (flags sa) (bmin sa) (bmax sa) (string_is_utf8 sa) sb"
  let ?a = "brk T"
  have 1: "begin_wide_shared_string (len sa + len sb) ?m T = Inr (?a, put_string ?a ?s0 (grown T))"
    using begin_eq [OF n le(1), of T] sa sb by simp
  have 2: "copy_chars ?a 0 (chars sa) (put_string ?a ?s0 (grown T)) = Inr (put_string ?a ?s1 (grown T))"
    using sa(3) by (simp add: copy_eq store_fits [OF le(2)])
  have 3: "copy_chars ?a (len sa) (chars sb) (put_string ?a ?s1 (grown T)) = Inr (put_string ?a ?s2 (grown T))"
    using sa(3) sb(3) by (simp add: copy_eq store_fits [OF le(3)])
  have 4: "objects (put_string ?a ?s2 (grown T)) ?a = Some ?s2"
    by simp
  have eq: "add_shared_strings lh a b T = low_end_shared_string lh ?a (put_string ?a ?s3 (grown T))"
    unfolding add_shared_strings_def with_string_def sa(2) sb(2) option.case 1 bind_result_simps prod.case 2 3 4 put_string_twice by (rule refl)
  have "interns lh (grown T) (view (grown T)) (chars ?s3) (low_end_shared_string lh ?a (put_string ?a ?s3 (grown T)))"
    by (rule low_end_ok [OF grown_ok [OF ok] _ _ block_set_flags]) (use m fresh_block [OF ok] find_magnitude2_append [of ca cb] in simp_all)
  then show ?thesis
    by (simp add: eq interns_grown)
qed


text \<open>The release of a string beside a block.\<close>

lemma free_beside:
  assumes ok: "table_ok lh T" and b: "view T b = Some (cs, n)" and a: "objects T a = None"
  shows "\<exists>T'. free_string b (put_string a t T) = Inr (put_string a t T') \<and> table_ok lh T' \<and> view T' = released (view T) b \<and>
    unshared T' = unshared T \<and> objects T' a = None \<and> brk T' = brk T"
proof -
  obtain T' where T': "free_string b T = Inr T'" "table_ok lh T'" "view T' = released (view T) b" "unshared T' = unshared T" "brk T' = brk T"
      "\<forall>c. c \<noteq> b \<longrightarrow> objects T' c = objects T c"
    using free_ok [OF ok b] by blast
  have "a \<noteq> b"
    using a b view_no_object by force
  then have "free_string b (put_string a t T) = Inr (put_string a t T')" "objects T' a = None"
    using T'(1,6) a free_other [of b a t T] by simp_all
  then show ?thesis
    using T' by (intro exI [of _ T']) simp
qed

definition distinct_texts :: "(nat \<Rightarrow> (32 word list \<times> nat) option) \<Rightarrow> bool" where
  "distinct_texts V \<longleftrightarrow> (\<forall>x y c n m. V x = Some (c, n) \<longrightarrow> V y = Some (c, m) \<longrightarrow> x = y)"

lemma view_distinct: "table_ok lh T \<Longrightarrow> distinct_texts (view T)"
  unfolding distinct_texts_def using view_unique by blast

lemma released_at:
  "V a = Some (c, n) \<Longrightarrow> released V a = V(a := if n = 1 then None else Some (c, n - 1))"
  by (simp add: released_def)

lemma distinct_released:
  assumes "distinct_texts V"
  shows "distinct_texts (released V a)"
proof (cases "V a")
  case None
  then show ?thesis
    using assms by (simp add: released_def)
next
  case (Some p)
  obtain c n where "p = (c, n)"
    by (cases p)
  then have v: "V a = Some (c, n)"
    using Some by simp
  have "\<exists>m'. V x = Some (d, m')" if "released V a x = Some (d, m)" for x d m
    using that v by (cases "x = a") (auto simp: released_at [of V a, OF v] split: if_splits)
  then show ?thesis
    using assms unfolding distinct_texts_def by meson
qed

lemma interned_released:
  assumes i: "interned V cs r V'" and a: "V a = Some (ca, na)" "0 < na" and u: "distinct_texts V"
  shows "interned (released V a) cs r (released V' a)"
  using i
proof (cases rule: internedE)
  case (1 n)
  show ?thesis
  proof (cases "a = r")
    case True
    then have e: "ca = cs" "na = n"
      using 1(1) a(1) by simp_all
    have o: "V x \<noteq> Some (cs, m)" if "x \<noteq> r" for x m
      using u 1(1) that unfolding distinct_texts_def by blast
    have "released V' a = V(r \<mapsto> (cs, n))"
      using True 1(2) a(2) e by (simp add: released_def)
    then show ?thesis
      using o True e a(2) by (cases "n = 1") (simp_all add: interned_def released_at [of V r, OF 1(1)])
  next
    case False
    have "V' a = Some (ca, na)"
      using 1(2) False a(1) by simp
    then show ?thesis
      using 1 False by (simp add: interned_def released_at [of V a, OF a(1)] released_at fun_upd_twist)
  qed
next
  case 2
  then have ne: "a \<noteq> r"
    using a(1) by auto
  have "ca \<noteq> cs"
    using a(1) 2(2) by blast
  moreover have "V' a = Some (ca, na)"
    using 2(3) ne a(1) by simp
  ultimately show ?thesis
    using 2 ne by (simp add: interned_def released_at [of V a, OF a(1)] released_at fun_upd_twist)
qed

lemma interned_keeps: "interned V cs r V' \<Longrightarrow> V a = Some (c, n) \<Longrightarrow> \<exists>m. V' a = Some (c, m)"
  by (cases "a = r") (auto elim!: internedE)

lemma update_flags_fields [simp]:
  "chars (update_flags_for_add s b) = chars s" "size_shift (update_flags_for_add s b) = size_shift s"
  by (simp_all add: update_flags_for_add_def Let_def)

lemma srefs_update_flags [simp]: "srefs (update_flags_for_add s b) = srefs s"
  by (simp add: update_flags_for_add_def Let_def)

lemma update_flags_bits:
  assumes "i = 0 \<or> i = 1 \<or> i = 7"
  shows "bit (flags (update_flags_for_add s b)) i \<longleftrightarrow> bit (flags s) i"
  using assms by (auto simp: update_flags_for_add_def Let_def bit_or_iff bit_and_iff bit_not_iff)

text \<open>The last step: the characters of the second string are copied, it is released, and the sum is entered.\<close>

lemma add_tail_ok:
  assumes ok: "table_ok lh T" and a: "objects T a = None" "a < brk T" and b: "view T b = Some (cb, nb)"
    and t: "chars t = ca @ replicate (length cb) 0" "size_shift t = shift" "srefs t = 1" "not_shared t"
      "\<not> has_flag (flags t) string_convert_surrogates"
    and m: "find_magnitude2 ca \<le> shift" "find_magnitude2 cb \<le> shift" "shift \<le> 2" and n: "length ca + length cb < max_chars"
  shows "interns lh T (released (view T) b) (ca @ cb)
    (bind_result (copy_chars a (length ca) cb (put_string a t T)) (\<lambda>T.
     bind_result (free_string b T) (\<lambda>T.
       with_string T a (\<lambda>t. end_shared_string lh a (put_string a (t\<lparr>flags := flags t OR string_not_hashed\<rparr>) T)))))"
proof -
  let ?t1 = "t\<lparr>chars := ca @ cb\<rparr>" and ?t2 = "t\<lparr>chars := ca @ cb, flags := flags t OR string_not_hashed\<rparr>"
  have c: "copy_chars a (length ca) cb (put_string a t T) = Inr (put_string a ?t1 T)"
    using t(1,2) by (simp add: copy_eq store_fits [OF m(2)])
  obtain T' where f: "free_string b (put_string a ?t1 T) = Inr (put_string a ?t1 T')" "table_ok lh T'" "view T' = released (view T) b"
      "unshared T' = unshared T" "objects T' a = None" "brk T' = brk T"
    using free_beside [OF ok b a(1), of ?t1] by blast
  have bl: "block ?t2"
    using t(3-5) unfolding block_def not_shared_bit not_hashed_bit convert_bit by (simp add: bit_or_iff)
  have o: "objects (put_string a ?t1 T') a = Some ?t1"
    by simp
  have "interns lh T' (view T') (chars ?t2) (end_shared_string lh a (put_string a ?t2 T'))"
    by (rule end_ok [OF f(2,5) _ bl]) (use a(2) f(6) n m t(2) in \<open>simp_all add: find_magnitude2_append\<close>)
  then have "interns lh T (released (view T) b) (ca @ cb) (end_shared_string lh a (put_string a ?t2 T'))"
    using f(3,4) by (simp add: interns_def)
  then show ?thesis
    unfolding c bind_result_simps f(1) with_string_def o option.case put_string_twice by simp
qed

text \<open>The sum of two strings of different widths, made first and released after.\<close>

lemma add_then_free:
  assumes ok: "table_ok lh T" and a: "view T a = Some (ca, na)" and b: "view T b = Some (cb, nb)" and ab: "a \<noteq> b"
    and i: "interns lh T (view T) cs res" and room: "roomy 1 (view T)"
  shows "interns lh T (released (released (view T) a) b) cs
    (bind_result res (\<lambda>(ret, T). bind_result (free_string a T) (\<lambda>T. bind_result (free_string b T) (\<lambda>T. Inr (ret, T)))))"
proof -
  obtain r T1 where T1: "res = Inr (r, T1)" "table_ok lh T1" "interned (view T) cs r (view T1)" "unshared T1 = unshared T"
    by (rule internsE [OF i room])
  obtain na1 nb1 where v1: "view T1 a = Some (ca, na1)" "view T1 b = Some (cb, nb1)"
    using interned_keeps [OF T1(3)] a b by blast
  obtain T2 where T2: "free_string a T1 = Inr T2" "table_ok lh T2" "view T2 = released (view T1) a" "unshared T2 = unshared T1"
    using free_ok [OF T1(2) v1(1)] by blast
  have v2: "view T2 b = Some (cb, nb1)"
    using T2(3) v1 ab by (simp add: released_at [of "view T1" a, OF v1(1)])
  obtain T3 where T3: "free_string b T2 = Inr T3" "table_ok lh T3" "view T3 = released (view T2) b" "unshared T3 = unshared T2"
    using free_ok [OF T2(2) v2] by blast
  note u = view_distinct [OF ok]
  have "interned (released (view T) a) cs r (released (view T1) a)"
    by (rule interned_released [OF T1(3) a view_positive [OF ok a] u])
  moreover have "released (view T) a b = Some (cb, nb)"
    using b ab by (simp add: released_at [of "view T" a, OF a])
  ultimately have i3: "interned (released (released (view T) a) b) cs r (view T3)"
    unfolding T3(3) T2(3) by (rule interned_released [OF _ _ view_positive [OF ok b] distinct_released [OF u]])
  have r: "bind_result res (\<lambda>(ret, T). bind_result (free_string a T) (\<lambda>T. bind_result (free_string b T) (\<lambda>T. Inr (ret, T)))) = Inr (r, T3)"
    by (simp add: T1(1) T2(1) T3(1))
  show ?thesis
    by (rule internsI [OF r T3(2) i3]) (simp add: T3(4) T2(4) T1(4))
qed


text \<open>The grown first string, alone or as a copy.\<close>

lemma realloc_ok:
  assumes ok: "table_ok lh T" and a: "view T a = Some (ca, na)" and sa: "objects T a = Some sa" and n: "length ca + m < max_chars"
  shows "\<exists>r t T'. realloc_shared_string a (length ca + m) T = Inr (r, put_string r t T') \<and> table_ok lh T' \<and> objects T' r = None \<and>
    r < brk T' \<and> view T' = released (view T) a \<and> unshared T' = unshared T \<and> chars t = ca @ replicate m 0 \<and>
    size_shift t = size_shift sa \<and> srefs t = 1 \<and> not_shared t \<and> \<not> has_flag (flags t) string_convert_surrogates"
proof -
  have s: "a \<in> linked T" "chars sa = ca" "srefs sa = na" "string_entry_ok sa"
    by (rule view_entry [OF ok a]; use sa in simp)+
  have e: "\<not> has_flag (flags sa) string_convert_surrogates" "size_shift sa = find_magnitude2 ca"
    using s(2,4) by (simp_all add: string_entry_ok_def)
  show ?thesis
  proof (cases "na = 1")
    case True
    obtain T2 where T2: "unlink_pike_string a T = Inr (put_string a (sa\<lparr>flags := flags sa OR string_not_shared\<rparr>) T2)" "table_ok lh T2"
        "objects T2 a = None" "brk T2 = brk T" "view T2 = (view T)(a := None)" "unshared T2 = unshared T"
      using unlink_ok [OF ok s(1) sa] by blast
    let ?t = "sa\<lparr>flags := (flags sa OR string_not_shared) OR string_not_hashed, chars := ca @ replicate m 0, alloc_type := realloc_alloc sa (length ca + m)\<rparr>"
    have al: "realloc_alloc (sa\<lparr>flags := flags sa OR string_not_shared\<rparr>) (length ca + m) = realloc_alloc sa (length ca + m)"
      by (simp add: realloc_alloc_def)
    have "realloc_unlinked_string a (length ca + m) (put_string a (sa\<lparr>flags := flags sa OR string_not_shared\<rparr>) T2) = Inr (put_string a ?t T2)"
      using s(2) al by (simp add: realloc_unlinked_string_def with_string_def)
    then have r: "realloc_shared_string a (length ca + m) T = Inr (a, put_string a ?t T2)"
      using sa s(3) True T2(1) by (simp add: realloc_shared_string_def with_string_def)
    have "not_shared ?t" "\<not> has_flag (flags ?t) string_convert_surrogates"
      using e(1) unfolding not_shared_bit convert_bit by (simp_all add: bit_or_iff)
    moreover have "a < brk T2"
      using objects_below [OF ok sa] T2(4) by simp
    moreover have "view T2 = released (view T) a"
      using T2(5) a True by (simp add: released_def)
    ultimately show ?thesis
      using r T2(2,3,6) s(3) True by (intro exI [of _ a] exI [of _ ?t] exI [of _ T2]) simp
  next
    case False
    let ?r = "brk T" and ?s0 = "new_block (length ca + m) (size_shift sa)"
    let ?t1 = "?s0\<lparr>chars := ca @ replicate m 0\<rparr>"
    let ?t = "?t1\<lparr>flags := flags ?t1 OR (flags sa AND string_checked_mask), bmin := bmin sa, bmax := bmax sa, string_is_utf8 := string_is_utf8 sa\<rparr>"
    have m: "size_shift sa \<le> 2" "find_magnitude2 ca \<le> size_shift sa"
      using e(2) find_magnitude2_le by simp_all
    have 1: "begin_wide_shared_string (length ca + m) (size_shift sa) T = Inr (?r, put_string ?r ?s0 (grown T))"
      by (rule begin_eq [OF n m(1)])
    have 2: "copy_chars ?r 0 (chars sa) (put_string ?r ?s0 (grown T)) = Inr (put_string ?r ?t1 (grown T))"
      using s(2) by (simp add: copy_eq store_fits [OF m(2)])
    have 3: "objects (put_string ?r ?t1 (grown T)) ?r = Some ?t1"
      by simp
    have fr: "objects (grown T) ?r = None" "view (grown T) a = Some (ca, na)"
      using fresh_block [OF ok] a by simp_all
    obtain T2 where T2: "free_string a (put_string ?r ?t (grown T)) = Inr (put_string ?r ?t T2)" "table_ok lh T2"
        "view T2 = released (view T) a" "unshared T2 = unshared T" "objects T2 ?r = None" "brk T2 = brk T + 1"
      using free_beside [OF grown_ok [OF ok] fr(2,1), of ?t] by auto
    have ref: "srefs sa \<noteq> 1"
      using s(3) False by simp
    have r: "realloc_shared_string a (length ca + m) T = Inr (?r, put_string ?r ?t T2)"
      unfolding realloc_shared_string_def with_string_def sa option.case if_not_P [OF ref] 1 bind_result_simps prod.case 2 3 put_string_twice T2(1)
      by (rule refl)
    have "block ?t1"
      by simp
    then have "not_shared ?t" "\<not> has_flag (flags ?t) string_convert_surrogates" "srefs ?t = 1"
      unfolding block_def not_shared_bit convert_bit by (simp_all add: bit_or_iff bit_and_iff)
    then show ?thesis
      using r T2(2-6) by (intro exI [of _ ?r] exI [of _ ?t] exI [of _ T2]) simp
  qed
qed

lemma add_and_free_ok:
  assumes ok: "table_ok lh T" and a: "view T a = Some (ca, na)" and b: "view T b = Some (cb, nb)" and ab: "a = b \<Longrightarrow> 1 < na"
    and n: "length ca + length cb < max_chars" and room: "roomy 1 (view T)"
  shows "interns lh T (released (released (view T) a) b) (ca @ cb) (add_and_free_shared_strings lh a b T)"
proof -
  obtain sa where sa: "a \<in> linked T" "objects T a = Some sa" "chars sa = ca" "srefs sa = na" "string_entry_ok sa"
    by (rule view_entry [OF ok a])
  obtain sb where sb: "b \<in> linked T" "objects T b = Some sb" "chars sb = cb" "srefs sb = nb" "string_entry_ok sb"
    by (rule view_entry [OF ok b])
  show ?thesis
  proof (cases "size_shift sa = size_shift sb")
    case False
    then have ne: "a \<noteq> b"
      using sa(2) sb(2) by auto
    have "add_and_free_shared_strings lh a b T =
        bind_result (add_shared_strings lh a b T) (\<lambda>(ret, T). bind_result (free_string a T) (\<lambda>T. bind_result (free_string b T) (\<lambda>T. Inr (ret, T))))"
      unfolding add_and_free_shared_strings_def with_string_def sa(2) sb(2) option.case if_not_P [OF False] by (rule refl)
    then show ?thesis
      using add_then_free [OF ok a b ne add_shared_strings_ok [OF ok a b n] room] by simp
  next
    case True
    obtain r t T2 where r: "realloc_shared_string a (length ca + length cb) T = Inr (r, put_string r t T2)" "table_ok lh T2" "objects T2 r = None"
        "r < brk T2" "view T2 = released (view T) a" "unshared T2 = unshared T" "chars t = ca @ replicate (length cb) 0"
        "size_shift t = size_shift sa" "srefs t = 1" "not_shared t" "\<not> has_flag (flags t) string_convert_surrogates"
      using realloc_ok [OF ok a sa(2) n] by blast
    let ?t = "update_flags_for_add t sb"
    have bits: "not_shared ?t" "\<not> has_flag (flags ?t) string_convert_surrogates"
      using r(10,11) update_flags_bits [of 1 t sb] update_flags_bits [of 7 t sb] by (simp_all add: not_shared_bit convert_bit)
    obtain nb2 where b2: "view T2 b = Some (cb, nb2)"
      unfolding r(5) released_at [of "view T" a, OF a] using b ab a by (cases "a = b") auto
    have m: "find_magnitude2 ca \<le> size_shift sa" "find_magnitude2 cb \<le> size_shift sa" "size_shift sa \<le> 2"
      using sa(3,5) sb(3,5) True find_magnitude2_le [of ca] by (auto simp: string_entry_ok_def)
    have o: "objects (put_string r t T2) r = Some t"
      by simp
    have "interns lh T2 (released (view T2) b) (ca @ cb)
        (bind_result (copy_chars r (length ca) cb (put_string r ?t T2)) (\<lambda>T.
         bind_result (free_string b T) (\<lambda>T.
           with_string T r (\<lambda>t. end_shared_string lh r (put_string r (t\<lparr>flags := flags t OR string_not_hashed\<rparr>) T)))))"
      by (rule add_tail_ok [OF r(2,3,4) b2 _ _ _ bits m n]) (use r(7-9) in simp_all)
    moreover have "add_and_free_shared_strings lh a b T =
        bind_result (copy_chars r (length ca) cb (put_string r ?t T2)) (\<lambda>T.
         bind_result (free_string b T) (\<lambda>T.
           with_string T r (\<lambda>t. end_shared_string lh r (put_string r (t\<lparr>flags := flags t OR string_not_hashed\<rparr>) T))))"
      unfolding add_and_free_shared_strings_def with_string_def sa(2) sb(2) option.case if_P [OF True] sa(3) sb(3) r(1) bind_result_simps prod.case
        Let_def o put_string_twice by (rule refl)
    ultimately show ?thesis
      using r(5,6) by (simp add: interns_def)
  qed
qed

end
