(* ===== verification/String_Modify.thy ===== *)
theory String_Modify
  imports String_Intern
begin

text \<open>
  The change of a character of a shared string (\<open>modify_shared_string\<close> of \<open>src/src/stralloc.c\<close>), in the
  place of the string when nothing else refers to it. A change that the hash function does not see keeps the
  hash value; what this needs of the hash function is the interface \<open>memory_hash\<close>.
\<close>

section \<open>What the hash function reads\<close>

text \<open>The hash function reads the first \<open>nbytes\<close> bytes of the memory, and perhaps the last eight.\<close>

locale memory_hash =
  fixes low_hashmem :: hash_function
  assumes reads: "length s = n \<Longrightarrow> length t = n \<Longrightarrow> take nbytes s = take nbytes t \<Longrightarrow> drop (n - 8) s = drop (n - 8) t \<Longrightarrow>
    low_hashmem s n nbytes key = low_hashmem t n nbytes key"

lemma char_bytes_length [simp]: "length (char_bytes shift c) = 2 ^ shift"
  by (simp add: char_bytes_def)

lemma memory_append: "memory shift (cs @ ds) = memory shift cs @ memory shift ds"
  by (simp add: memory_def)

lemma memory_length [simp]: "length (memory shift cs) = length cs * 2 ^ shift"
  by (induction cs) (simp_all add: memory_def)

lemma memory_take: "take (k * 2 ^ shift) (memory shift cs) = memory shift (take k cs)"
proof (cases "k \<le> length cs")
  case True
  have "memory shift cs = memory shift (take k cs) @ memory shift (drop k cs)"
    by (simp add: memory_append [symmetric])
  then show ?thesis
    using True by simp
qed simp

lemma memory_drop: "drop (k * 2 ^ shift) (memory shift cs) = memory shift (drop k cs)"
proof (cases "k \<le> length cs")
  case True
  have "memory shift cs = memory shift (take k cs) @ memory shift (drop k cs)"
    by (simp add: memory_append [symmetric])
  then show ?thesis
    using True by simp
next
  case False
  then have "length (memory shift cs) \<le> k * 2 ^ shift"
    by simp
  then show ?thesis
    using False by (simp only: drop_all not_le drop_all [OF less_imp_le]) (simp add: memory_def)
qed

context memory_hash
begin

text \<open>A change behind the prefix and before the last eight characters is not seen.\<close>

lemma change_unseen:
  assumes i: "unat (hash_prefix_len T) \<le> i" "i + 8 < length cs"
  shows "chars_hash low_hashmem T shift (cs[i := c]) = chars_hash low_hashmem T shift cs"
proof -
  let ?n = "length cs * 2 ^ shift" and ?k = "unat (push_bit shift (hash_prefix_len T))"
  have "?k \<le> unat (hash_prefix_len T) * 2 ^ shift"
    unfolding unsigned_push_bit_eq by (simp add: push_bit_eq_mult take_bit_eq_mod)
  then have k: "?k \<le> i * 2 ^ shift"
    using i(1) by (meson order.trans mult_le_mono1)
  have "take (i * 2 ^ shift) (memory shift (cs[i := c])) = take (i * 2 ^ shift) (memory shift cs)"
    by (simp add: memory_take)
  then have "take ?k (take (i * 2 ^ shift) (memory shift (cs[i := c]))) = take ?k (take (i * 2 ^ shift) (memory shift cs))"
    by simp
  then have t: "take ?k (memory shift (cs[i := c])) = take ?k (memory shift cs)"
    using k by (simp add: min_def)
  have d: "drop ((i + 1) * 2 ^ shift) (memory shift (cs[i := c])) = drop ((i + 1) * 2 ^ shift) (memory shift cs)"
    unfolding memory_drop by simp
  have e: "(8 :: nat) \<le> 8 * 2 ^ shift"
    by simp
  have "(i + 1 + 8) * 2 ^ shift \<le> length cs * 2 ^ shift"
    using i(2) by (intro mult_le_mono1) simp
  then have "(i + 1) * 2 ^ shift \<le> ?n - 8"
    unfolding add_mult_distrib [of "i + 1" 8] using e by linarith
  then obtain m where m: "?n - 8 = m + (i + 1) * 2 ^ shift"
    by (metis le_add_diff_inverse2)
  have "drop (?n - 8) (memory shift (cs[i := c])) = drop (?n - 8) (memory shift cs)"
    unfolding m drop_drop [symmetric] d by (rule refl)
  then show ?thesis
    unfolding chars_hash_def low_do_hash_def length_list_update using t by (intro reads) simp_all
qed

end

text \<open>SipHash reads only the prefix.\<close>

lemma siphash_words_cong: "take (8 * n) s = take (8 * n) t \<Longrightarrow> siphash_words n s v = siphash_words n t v"
proof (induction n arbitrary: s t v)
  case (Suc n)
  obtain v0 v1 v2 v3 where v: "v = (v0, v1, v2, v3)"
    by (cases v)
  have "take 8 (take (8 * Suc n) s) = take 8 (take (8 * Suc n) t)"
    using Suc.prems by simp
  then have e: "take 8 s = take 8 t"
    by (simp add: min_def)
  have "drop 8 (take (8 * Suc n) s) = drop 8 (take (8 * Suc n) t)"
    using Suc.prems by simp
  then have "take (8 * n) (drop 8 s) = take (8 * n) (drop 8 t)"
    by (simp add: drop_take)
  then have "siphash_words n (drop 8 s) w = siphash_words n (drop 8 t) w" for w
    by (rule Suc.IH)
  then show ?case
    unfolding v by (simp add: e del: take_drop split: prod.split)
qed simp

lemma siphash_reads:
  assumes "take (min n nbytes) s = take (min n nbytes) t"
  shows "low_hashmem_siphash24 s n nbytes key = low_hashmem_siphash24 t n nbytes key"
proof -
  let ?k = "min n nbytes"
  have c: "take m s = take m t" if "m \<le> ?k" for m
  proof -
    have "take m (take ?k s) = take m (take ?k t)"
      using assms by simp
    then show ?thesis
      using that by (simp add: min_absorb1)
  qed
  have w: "siphash_words (?k div 8) s v = siphash_words (?k div 8) t v" for v
    by (rule siphash_words_cong) (rule c, rule times_div_less_eq_dividend)
  have k: "?k mod 8 + (?k - ?k mod 8) = ?k"
    by simp
  have "take (?k mod 8) (drop (?k - ?k mod 8) s) = drop (?k - ?k mod 8) (take ?k s)"
    unfolding take_drop k by (rule refl)
  also have "\<dots> = take (?k mod 8) (drop (?k - ?k mod 8) t)"
    unfolding c [OF order.refl] take_drop k by (rule refl)
  finally show ?thesis
    unfolding low_hashmem_siphash24_def Let_def w by simp
qed

interpretation siphash: memory_hash low_hashmem_siphash24
proof
  fix s t :: "byte list" and n nbytes key
  assume "length s = n" "length t = n" "take nbytes s = take nbytes t"
  then have "take (min n nbytes) s = take (min n nbytes) t"
    by (cases "nbytes \<le> n") (simp_all add: min_def)
  then show "low_hashmem_siphash24 s n nbytes key = low_hashmem_siphash24 t n nbytes key"
    by (rule siphash_reads)
qed


section \<open>The widths of a changed string\<close>

lemma find_magnitude2_single: "find_magnitude2 [c] = min_magnitude c"
  using byte_char [of c] by (simp add: min_magnitude_def not_less [symmetric])

lemma magnitude_update:
  assumes "i < length cs"
  shows "find_magnitude2 cs = max (max (find_magnitude2 (take i cs)) (min_magnitude (cs ! i))) (find_magnitude2 (drop (i + 1) cs))"
    "find_magnitude2 (cs[i := c]) = max (max (find_magnitude2 (take i cs)) (min_magnitude c)) (find_magnitude2 (drop (i + 1) cs))"
proof -
  have a: "find_magnitude2 (take i cs @ [d] @ drop (i + 1) cs) =
      max (max (find_magnitude2 (take i cs)) (min_magnitude d)) (find_magnitude2 (drop (i + 1) cs))" for d
    unfolding find_magnitude2_append find_magnitude2_single by simp
  show "find_magnitude2 cs = max (max (find_magnitude2 (take i cs)) (min_magnitude (cs ! i))) (find_magnitude2 (drop (i + 1) cs))"
    using a [of "cs ! i"] id_take_nth_drop [OF assms] by simp
  show "find_magnitude2 (cs[i := c]) = max (max (find_magnitude2 (take i cs)) (min_magnitude c)) (find_magnitude2 (drop (i + 1) cs))"
    using a [of c] upd_conv_take_nth_drop [OF assms] by simp
qed

lemma min_magnitude_le: "min_magnitude c \<le> 2"
  by (simp add: min_magnitude_def)

text \<open>The shrinking test is exact.\<close>

lemma shrunk_size_exact:
  assumes i: "i < len s" and e: "find_magnitude2 (chars s) = size_shift s"
    and c: "min_magnitude (chars s ! i) = size_shift s" "min_magnitude c < size_shift s"
  shows "shrunk_size s i c = (if find_magnitude2 ((chars s)[i := c]) < size_shift s then Some (find_magnitude2 ((chars s)[i := c])) else None)"
proof -
  define b a where "b = find_magnitude2 (take i (chars s))" and "a = find_magnitude2 (drop (i + 1) (chars s))"
  have n: "size_shift s = max (max b (size_shift s)) a" "find_magnitude2 ((chars s)[i := c]) = max (max b (min_magnitude c)) a"
    using magnitude_update(1) [OF i] magnitude_update(2) [OF i, of c] e c(1) by (simp_all add: a_def b_def)
  have "size_shift s = 1 \<or> size_shift s = 2"
    using c(2) e find_magnitude2_le [of "chars s"] by linarith
  then show ?thesis
  proof
    assume sh: "size_shift s = 1"
    then have "b \<le> 1" "a \<le> 1" "min_magnitude c = 0"
      using n(1) c(2) by simp_all
    moreover then have "find_magnitude1 (take i (chars s)) = b" "find_magnitude1 (drop (i + 1) (chars s)) = a"
      using find_magnitude1_2 by (simp_all add: a_def b_def)
    ultimately show ?thesis
      unfolding shrunk_size_def Let_def n(2) using sh by auto
  next
    assume sh: "size_shift s = 2"
    have "b \<le> 2" "a \<le> 2"
      using find_magnitude2_le by (simp_all add: a_def b_def)
    then show ?thesis
      unfolding shrunk_size_def Let_def n(2) a_def [symmetric] b_def [symmetric] using sh c(2) by auto
  qed
qed

text \<open>The width the changed string gets in the three ways of \<open>modify_shared_string\<close> is the one it needs.\<close>

lemma kept_width:
  assumes i: "i < len s" and e: "find_magnitude2 (chars s) = size_shift s" and c: "\<not> min_magnitude c > size_shift s"
    and k: "(if min_magnitude (chars s ! i) = size_shift s \<and> min_magnitude c < min_magnitude (chars s ! i) then shrunk_size s i c else None) = None"
  shows "find_magnitude2 ((chars s)[i := c]) = size_shift s"
proof (cases "min_magnitude (chars s ! i) = size_shift s \<and> min_magnitude c < min_magnitude (chars s ! i)")
  case True
  then have "shrunk_size s i c = None"
    using k by simp
  then have "\<not> find_magnitude2 ((chars s)[i := c]) < size_shift s"
    using shrunk_size_exact [OF i e] True by (simp split: if_splits)
  moreover have "max (max b m) a \<le> (w :: nat)" if "w = max (max b v) a" "\<not> m > w" for b m a v w
    using that by auto
  then have "find_magnitude2 ((chars s)[i := c]) \<le> size_shift s"
    unfolding magnitude_update(2) [OF i, of c] using magnitude_update(1) [OF i] e c by metis
  ultimately show ?thesis
    by simp
next
  case False
  then show ?thesis
    using magnitude_update(1) [OF i] magnitude_update(2) [OF i, of c] e c by (simp add: max_def split: if_splits)
qed

section \<open>Modifying\<close>

lemma low_set_index_put:
  "i \<le> len s \<Longrightarrow> low_set_index a i c (put_string a s T) =
   Inr (put_string a (s\<lparr>flags := flags s OR string_not_hashed, chars := (chars s)[i := store_char (size_shift s) c]\<rparr>) T)"
  by (simp add: low_set_index_def with_string_def)

lemma modified_copy_ok:
  assumes ok: "table_ok lh T" and a: "view T a = Some (ca, na)" and n: "length ca < max_chars" and i: "i < length ca"
    and m: "find_magnitude2 (ca[i := c]) \<le> shift" "shift \<le> 2"
  shows "interns lh T (released (view T) a) (ca[i := c]) (modified_copy lh a shift i c T)"
proof -
  obtain sa where sa: "a \<in> linked T" "objects T a = Some sa" "chars sa = ca" "srefs sa = na" "string_entry_ok sa"
    by (rule view_entry [OF ok a])
  let ?b = "brk T" and ?s0 = "new_block (length ca) shift"
  let ?s1 = "?s0\<lparr>chars := map (store_char shift) ca\<rparr>"
  let ?s2 = "?s1\<lparr>flags := flags ?s1 OR string_not_hashed, chars := ca[i := c]\<rparr>"
  have 1: "begin_wide_shared_string (len sa) shift T = Inr (?b, put_string ?b ?s0 (grown T))"
    using begin_eq [OF n m(2)] sa(3) by simp
  have 2: "write_chars ?b (chars sa) (put_string ?b ?s0 (grown T)) = Inr (put_string ?b ?s1 (grown T))"
    using sa(3) by (simp add: write_eq)
  have "(map (store_char shift) ca)[i := store_char shift c] = map (store_char shift) (ca[i := c])"
    by (simp add: map_update)
  then have 3: "low_set_index ?b i c (put_string ?b ?s1 (grown T)) = Inr (put_string ?b ?s2 (grown T))"
    using i by (simp add: low_set_index_put store_fits [OF m(1)])
  have fr: "objects (grown T) ?b = None" "view (grown T) a = Some (ca, na)"
    using fresh_block [OF ok] a by simp_all
  obtain T2 where T2: "free_string a (put_string ?b ?s2 (grown T)) = Inr (put_string ?b ?s2 T2)" "table_ok lh T2"
      "view T2 = released (view T) a" "unshared T2 = unshared T" "objects T2 ?b = None" "brk T2 = brk T + 1"
    using free_beside [OF grown_ok [OF ok] fr(2,1), of ?s2] by auto
  have eq: "modified_copy lh a shift i c T = end_shared_string lh ?b (put_string ?b ?s2 T2)"
    unfolding modified_copy_def with_string_def sa(2) option.case 1 bind_result_simps prod.case 2 3 T2(1) by (rule refl)
  have "block ?s1"
    by simp
  then have bl: "block ?s2"
    unfolding block_def not_shared_bit not_hashed_bit convert_bit by (simp add: bit_or_iff)
  have "interns lh T2 (view T2) (chars ?s2) (end_shared_string lh ?b (put_string ?b ?s2 T2))"
    by (rule end_ok [OF T2(2,5) _ bl]) (use T2(6) n m in simp_all)
  then show ?thesis
    using T2(3,4) by (simp add: eq interns_def)
qed

lemma modify_in_place_ok:
  assumes ok: "table_ok lh T" and lh: "memory_hash lh" and a: "view T a = Some (ca, 1)" and sa: "objects T a = Some sa"
    and n: "length ca < max_chars" and m: "find_magnitude2 (ca[i := c]) = size_shift sa"
    and i: "i < length ca"
  shows "interns lh T (released (view T) a) (ca[i := c]) (modify_in_place lh a i c T)"
proof -
  have s: "a \<in> linked T" "chars sa = ca" "srefs sa = 1" "string_entry_ok sa"
    by (rule view_entry [OF ok a]; use sa in simp)+
  have e: "size_shift sa = find_magnitude2 ca" "\<not> has_flag (flags sa) string_convert_surrogates"
    using s(2,4) by (simp_all add: string_entry_ok_def)
  obtain T2 where T2: "unlink_pike_string a T = Inr (put_string a (sa\<lparr>flags := flags sa OR string_not_shared\<rparr>) T2)" "table_ok lh T2"
      "objects T2 a = None" "brk T2 = brk T" "view T2 = (view T)(a := None)" "unshared T2 = unshared T"
      "hash_prefix_len T2 = hash_prefix_len T" "hashkey T2 = hashkey T"
    using unlink_ok [OF ok s(1) sa] by blast
  have v: "view T2 = released (view T) a"
    using T2(5) a by (simp add: released_def)
  have lt: "a < brk T2"
    using objects_below [OF ok sa] T2(4) by simp
  let ?s1 = "sa\<lparr>flags := flags sa OR string_not_shared\<rparr>"
  let ?s2 = "?s1\<lparr>flags := flags ?s1 OR string_not_hashed, chars := ca[i := c]\<rparr>"
  let ?s3 = "?s2\<lparr>flags := flags ?s2 AND NOT string_checked_mask\<rparr>"
  have "c \<in> set (ca[i := c])"
    using i by (simp add: set_update_memI)
  then have "store_char (size_shift sa) c = c"
    using min_magnitude_chars store_char_id m by metis
  then have 2: "low_set_index a i c (put_string a ?s1 T2) = Inr (put_string a ?s2 T2)"
    using s(2) i by (simp add: low_set_index_put)
  have o: "objects (put_string a ?s2 T2) a = Some ?s2"
    by simp
  have bl: "block ?s3"
    using s(3) e(2) unfolding block_def not_shared_bit not_hashed_bit convert_bit by (simp add: bit_or_iff bit_and_iff bit_not_iff)
  have ns: "not_shared ?s3" "\<not> has_flag (flags ?s3) string_convert_surrogates"
    using bl by (simp_all only: block_def simp_thms)
  have eq: "modify_in_place lh a i c T =
      (if i \<ge> unat (hash_prefix_len (put_string a ?s3 T2)) \<and> int i < int (len ?s3) - 8 then
         bind_result (internal_findstring (put_string a ?s3 T2) (chars ?s3) (size_shift ?s3) (hval ?s3)) (\<lambda>(old, T).
           case old of
             Some b \<Rightarrow> bind_result (free_string a T) (\<lambda>T. bind_result (add_ref b T) (\<lambda>T. Inr (b, T)))
           | None \<Rightarrow> bind_result (link_pike_string lh a (hval ?s3) T) (\<lambda>T. Inr (a, T)))
       else end_shared_string lh a (put_string a ?s3 T2))"
    unfolding modify_in_place_def with_string_def T2(1) bind_result_simps 2 o option.case Let_def put_string_twice by (rule refl)
  show ?thesis
  proof (cases "i \<ge> unat (hash_prefix_len (put_string a ?s3 T2)) \<and> int i < int (len ?s3) - 8")
    case True
    then have h: "unat (hash_prefix_len T) \<le> i" "i + 8 < length ca"
      using T2(7) by simp_all
    obtain s' where "objects T a = Some s'" "string_entry_ok s'" "hval s' = do_hash lh T s'" "a \<in> set (base_table T ! hmodulo T (hval s'))"
        "hmodulo T (hval s') < htable_size T"
      by (rule table_entry [OF ok s(1)])
    then have "hval sa = chars_hash lh T (size_shift sa) ca"
      using sa s(2) by (simp add: do_hash_def)
    also have "\<dots> = chars_hash lh T (size_shift sa) (ca[i := c])"
      by (rule memory_hash.change_unseen [OF lh h, symmetric])
    finally have hv: "hval ?s3 = do_hash lh T2 ?s3"
      using T2(7,8) by (simp add: do_hash_def chars_hash_def low_do_hash_def)
    have res: "interns lh T2 (view T2) (chars ?s3)
        (bind_result (internal_findstring (put_string a ?s3 T2) (chars ?s3) (size_shift ?s3) (hval ?s3)) (\<lambda>(s2, T).
           case s2 of
             Some b \<Rightarrow> bind_result (free_string a T) (\<lambda>T. bind_result (add_ref b T) (\<lambda>T. Inr (b, T)))
           | None \<Rightarrow> bind_result (link_pike_string lh a (hval ?s3) (put_string a ?s3 T)) (\<lambda>T. Inr (a, T))))"
      by (rule find_or_link_ok [OF T2(2,3) lt ns(1) _ _ hv refl refl _ ns(2)]) (use s(3) m in simp_all)
    obtain r d e where f: "internal_findstring (put_string a ?s3 T2) (chars ?s3) (size_shift ?s3) (hval ?s3) =
        Inr (r, counted d e (put_string a ?s3 T2))"
    proof -
      have hv3: "hval ?s3 = chars_hash lh (put_string a ?s3 T2) (size_shift ?s3) (chars ?s3)"
        using hv unfolding chars_hash_put do_hash_def .
      have "find_magnitude2 (chars ?s3) = size_shift ?s3"
        using m by simp
      from findstring_ok [OF put_block_ok(1) [OF T2(2,3) lt ns(1)] this hv3] show ?thesis
        using that by blast
    qed
    have "modify_in_place lh a i c T =
        bind_result (internal_findstring (put_string a ?s3 T2) (chars ?s3) (size_shift ?s3) (hval ?s3)) (\<lambda>(s2, T).
           case s2 of
             Some b \<Rightarrow> bind_result (free_string a T) (\<lambda>T. bind_result (add_ref b T) (\<lambda>T. Inr (b, T)))
           | None \<Rightarrow> bind_result (link_pike_string lh a (hval ?s3) (put_string a ?s3 T)) (\<lambda>T. Inr (a, T)))"
      unfolding eq if_P [OF True] f bind_result_simps prod.case counted_put put_string_twice by (rule refl)
    then show ?thesis
      using res v T2(6) by (simp add: interns_def)
  next
    case False
    have "interns lh T2 (view T2) (chars ?s3) (end_shared_string lh a (put_string a ?s3 T2))"
      by (rule end_ok [OF T2(2,3) lt bl]) (use n m e(1) find_magnitude2_le [of ca] in simp_all)
    then show ?thesis
      unfolding eq if_not_P [OF False] using v T2(6) by (simp add: interns_def)
  qed
qed

lemma modify_ok:
  assumes ok: "table_ok lh T" and lh: "memory_hash lh" and a: "view T a = Some (ca, na)" and n: "length ca < max_chars" and i: "i < length ca"
  shows "interns lh T (released (view T) a) (ca[i := c]) (modify_shared_string lh a i c T)"
proof -
  obtain sa where sa: "a \<in> linked T" "objects T a = Some sa" "chars sa = ca" "srefs sa = na" "string_entry_ok sa"
    by (rule view_entry [OF ok a])
  have e: "find_magnitude2 (chars sa) = size_shift sa"
    using sa(5) by (simp add: string_entry_ok_def)
  have i': "i < len sa"
    using i sa(3) by simp
  let ?k = "if min_magnitude (chars sa ! i) = size_shift sa \<and> min_magnitude c < min_magnitude (chars sa ! i) then shrunk_size sa i c else None"
  note d = modify_shared_string_def with_string_def sa(2) option.case Let_def
  consider (same) "chars sa ! i = c" | (grow) "chars sa ! i \<noteq> c" "min_magnitude c > size_shift sa"
    | (shrink) sh where "chars sa ! i \<noteq> c" "\<not> min_magnitude c > size_shift sa" "?k = Some sh"
    | (keep) "chars sa ! i \<noteq> c" "\<not> min_magnitude c > size_shift sa" "?k = None"
    by (cases ?k) blast+
  then show ?thesis
  proof cases
    case same
    then have r: "modify_shared_string lh a i c T = Inr (a, T)"
      unfolding d using i' by simp
    have "ca[i := c] = ca"
      using same sa(3) by (simp add: list_update_same_conv i)
    moreover have "interned (released (view T) a) ca a (view T)"
    proof (cases "na = 1")
      case True
      have "view T b \<noteq> Some (ca, m)" if "b \<noteq> a" for b m
        using view_unique [OF ok a] that by blast
      then show ?thesis
        using True a by (simp add: interned_def released_at [of "view T" a, OF a] fun_upd_idem)
    next
      case False
      then show ?thesis
        using a view_positive [OF ok a] by (simp add: interned_def released_at [of "view T" a, OF a] fun_upd_idem)
    qed
    ultimately show ?thesis
      using r ok by (simp add: interns_def)
  next
    case grow
    then have "modify_shared_string lh a i c T = modified_copy lh a (min_magnitude c) i c T"
      unfolding d using i' by simp
    moreover have "find_magnitude2 (ca[i := c]) \<le> min_magnitude c"
      using magnitude_update(1) [OF i'] magnitude_update(2) [OF i', of c] grow(2) e sa(3) by simp
    ultimately show ?thesis
      using modified_copy_ok [OF ok a n i _ min_magnitude_le] by simp
  next
    case shrink
    then have b: "min_magnitude (chars sa ! i) = size_shift sa" "min_magnitude c < size_shift sa" "shrunk_size sa i c = Some sh"
      by (simp_all split: if_splits)
    then have "find_magnitude2 (ca[i := c]) = sh"
      using shrunk_size_exact [OF i' e b(1,2)] sa(3) by (simp split: if_splits)
    moreover have "modify_shared_string lh a i c T = modified_copy lh a sh i c T"
      unfolding d using shrink i' by (simp only: if_False option.case not_le [symmetric] simp_thms)
    ultimately show ?thesis
      using modified_copy_ok [OF ok a n i, of c sh] find_magnitude2_le [of "ca[i := c]"] by simp
  next
    case keep
    have m: "find_magnitude2 (ca[i := c]) = size_shift sa"
      using kept_width [OF i' e keep(2,3)] sa(3) by simp
    have eq: "modify_shared_string lh a i c T =
        (if string_may_modify sa then modify_in_place lh a i c T else modified_copy lh a (size_shift sa) i c T)"
      unfolding d using keep i' by (simp only: if_False option.case not_le [symmetric] simp_thms)
    show ?thesis
    proof (cases "string_may_modify sa")
      case True
      then have "view T a = Some (ca, 1)"
        using a sa(4) by (simp add: string_may_modify_def)
      then show ?thesis
        using eq True modify_in_place_ok [OF ok lh _ sa(2) n m i] by simp
    next
      case False
      then show ?thesis
        using eq modified_copy_ok [OF ok a n i, of c "size_shift sa"] m find_magnitude2_le [of "ca[i := c]"] by simp
    qed
  qed
qed

end
