(* ===== verification/String_Pool.thy ===== *)
theory String_Pool
  imports String_Modify
begin

text \<open>
  The table of shared strings as its users see it: a handle is an address, and a sequence of operations
  on handles gives what the same operations on the texts give. Handles are equal exactly when
  their texts are, and the table keeps no string that nobody holds.
\<close>

section \<open>The interface of a pool of texts\<close>

lemma roomy_less: "roomy k V \<Longrightarrow> j \<le> k \<Longrightarrow> roomy j V"
  unfolding roomy_def by (meson add_left_mono le_less_trans order_trans)

locale text_pool =
  fixes ok :: "'t \<Rightarrow> bool" and view :: "'t \<Rightarrow> nat \<Rightarrow> (32 word list \<times> nat) option"
    and make :: "32 word list \<Rightarrow> 't \<Rightarrow> (nat \<times> 't) result" and release :: "nat \<Rightarrow> 't \<Rightarrow> 't result" and fits :: "32 word list \<Rightarrow> bool"
  assumes make_law: "ok T \<Longrightarrow> fits cs \<Longrightarrow> roomy 1 (view T) \<Longrightarrow> \<exists>r T'. make cs T = Inr (r, T') \<and> ok T' \<and> interned (view T) cs r (view T')"
    and release_law: "ok T \<Longrightarrow> view T a = Some (cs, n) \<Longrightarrow> \<exists>T'. release a T = Inr T' \<and> ok T' \<and> view T' = released (view T) a"
    and distinct_law: "ok T \<Longrightarrow> distinct_texts (view T)"
    and positive_law: "ok T \<Longrightarrow> view T a = Some (cs, n) \<Longrightarrow> 0 < n"
begin

text \<open>A text that is made and released leaves the pool as it was.\<close>

lemma make_release:
  assumes "ok T" "fits cs" "roomy 1 (view T)"
  shows "\<exists>r T1 T2. make cs T = Inr (r, T1) \<and> release r T1 = Inr T2 \<and> ok T2 \<and> view T2 = view T"
proof -
  obtain r T1 where T1: "make cs T = Inr (r, T1)" "ok T1" "interned (view T) cs r (view T1)"
    using make_law [OF assms] by blast
  obtain n where n: "view T1 r = Some (cs, n)"
    using interned_result [OF T1(3)] by blast
  obtain T2 where T2: "release r T1 = Inr T2" "ok T2" "view T2 = released (view T1) r"
    using release_law [OF T1(2) n] by blast
  from T1(3) have "released (view T1) r = view T"
  proof (cases rule: internedE)
    case (1 m)
    then show ?thesis
      using positive_law [OF assms(1) 1(1)] by (auto simp: released_def fun_upd_idem)
  next
    case 2
    then show ?thesis
      by (auto simp: released_def fun_upd_idem)
  qed
  then show ?thesis
    using T1(1) T2 by auto
qed

text \<open>Two texts get the same handle exactly when they are equal.\<close>

lemma make_make:
  assumes "ok T" "fits cs" "fits ds" "roomy 2 (view T)"
  shows "\<exists>r T1 r' T2. make cs T = Inr (r, T1) \<and> make ds T1 = Inr (r', T2) \<and> ok T2 \<and> (r = r' \<longleftrightarrow> cs = ds)"
proof -
  obtain r T1 where T1: "make cs T = Inr (r, T1)" "ok T1" "interned (view T) cs r (view T1)"
    using make_law [OF assms(1,2) roomy_less [OF assms(4)]] by auto
  have "roomy 1 (view T1)"
    by (rule roomy_interned [OF T1(3)]) (use assms(4) in \<open>simp add: numeral_2_eq_2\<close>)
  then obtain r' T2 where T2: "make ds T1 = Inr (r', T2)" "ok T2" "interned (view T1) ds r' (view T2)"
    using make_law [OF T1(2) assms(3)] by blast
  obtain n where n: "view T1 r = Some (cs, n)"
    using interned_result [OF T1(3)] by blast
  have "r = r' \<longleftrightarrow> cs = ds"
    using T2(3)
  proof (cases rule: internedE)
    case (1 m)
    then show ?thesis
      using n distinct_law [OF T1(2)] unfolding distinct_texts_def by (metis option.inject prod.inject)
  next
    case 2
    then show ?thesis
      using n by auto
  qed
  then show ?thesis
    using T1(1) T2 by blast
qed

end

interpretation shared: text_pool "table_ok lh" view "make_shared_binary_string2 lh" free_string "\<lambda>cs. length cs < max_chars" for lh
proof
  fix T and cs :: "32 word list"
  assume "table_ok lh T" "length cs < max_chars" "roomy 1 (view T)"
  then show "\<exists>r T'. make_shared_binary_string2 lh cs T = Inr (r, T') \<and> table_ok lh T' \<and> interned (view T) cs r (view T')"
    using make_shared_binary_string2_ok [of lh T cs] by (auto simp: interns_def)
next
  fix T a cs n
  assume "table_ok lh T" "view T a = Some (cs, n)"
  then show "\<exists>T'. free_string a T = Inr T' \<and> table_ok lh T' \<and> view T' = released (view T) a" "0 < n"
    using free_ok [of lh T a cs n] view_positive [of lh T a cs n] by blast+
next
  fix T
  assume "table_ok lh T"
  then show "distinct_texts (view T)"
    by (rule view_distinct)
qed

section \<open>Counting the holders\<close>

text \<open>The view of a table whose strings are held as the multiset of handles and texts says.\<close>

definition held_by :: "(nat \<Rightarrow> (32 word list \<times> nat) option) \<Rightarrow> (nat \<times> 32 word list) multiset \<Rightarrow> bool" where
  "held_by V M \<longleftrightarrow>
     (\<forall>a c. (a, c) \<in># M \<longrightarrow> (\<exists>n. V a = Some (c, n))) \<and>
     (\<forall>a c n. V a = Some (c, n) \<longrightarrow> n = count (image_mset fst M) a \<and> 0 < n)"

lemma held_member: "held_by V M \<Longrightarrow> (a, c) \<in># M \<Longrightarrow> V a = Some (c, count (image_mset fst M) a)"
  unfolding held_by_def by metis

lemma held_none: "held_by V M \<Longrightarrow> V a = None \<Longrightarrow> count (image_mset fst M) a = 0"
  unfolding held_by_def count_eq_zero_iff by force

lemma held_interned:
  assumes h: "held_by V M" and i: "interned V cs r V'"
  shows "held_by V' (add_mset (r, cs) M)"
  using i
proof (cases rule: internedE)
  case (1 n)
  have "c = cs" if "(r, c) \<in># M" for c
    using held_member [OF h that] 1(1) by simp
  then show ?thesis
    using h 1 unfolding held_by_def by auto
next
  case 2
  have z: "count (image_mset fst M) r = 0"
    by (rule held_none [OF h 2(1)])
  have "(r, c) \<notin># M" for c
    using h 2(1) unfolding held_by_def by force
  then show ?thesis
    using h 2 z unfolding held_by_def by auto
qed

lemma held_released:
  assumes h: "held_by V (add_mset (a, c) M)"
  shows "held_by (released V a) M"
proof -
  have v: "V a = Some (c, count (image_mset fst M) a + 1)"
    using held_member [OF h, of a c] by simp
  have r: "released V a = V(a := if count (image_mset fst M) a = 0 then None else Some (c, count (image_mset fst M) a))"
    unfolding released_at [of V a, OF v] by (cases "count (image_mset fst M) a") (simp_all only: add_0_left One_nat_def add_Suc_right add_0_right
        diff_Suc_Suc diff_zero diff_self_eq_0 nat.inject nat.distinct simp_thms if_True if_False)
  have m: "\<exists>n. released V a b = Some (d, n)" if "(b, d) \<in># M" for b d
  proof (cases "b = a")
    case True
    then have "V a = Some (d, count (image_mset fst M) a + 1)"
      using held_member [OF h, of b d] that by simp
    moreover have "count (image_mset fst M) a \<noteq> 0"
      using that True by (force simp: count_eq_zero_iff)
    ultimately show ?thesis
      using r v True by simp
  next
    case False
    then show ?thesis
      using held_member [OF h, of b d] that r by auto
  qed
  have n: "n = count (image_mset fst M) b \<and> 0 < n" if "released V a b = Some (d, n)" for b d n
  proof (cases "b = a")
    case True
    define k where "k = count (image_mset fst M) a"
    have "released V a a = (if k = 0 then None else Some (c, k))"
      unfolding r k_def by (rule fun_upd_same)
    then show ?thesis
      using that unfolding True k_def [symmetric] by (auto split: if_splits)
  next
    case False
    then have "V b = Some (d, n)"
      using that r by simp
    then have "n = count (image_mset fst (add_mset (a, c) M)) b \<and> 0 < n"
      using h unfolding held_by_def by blast
    then show ?thesis
      using False by (simp del: count_greater_zero_iff)
  qed
  show ?thesis
    unfolding held_by_def using m n by blast
qed


section \<open>Sequences of operations\<close>

text \<open>What a program does with strings: it keeps handles in a list, from which an operation takes its arguments.\<close>

datatype string_op = Make nat "32 word list" | Share nat | Release nat | Add nat nat | Append nat nat | Modify nat nat "32 word"

definition remove_register :: "nat \<Rightarrow> 'a list \<Rightarrow> 'a list" where
  "remove_register i xs = take i xs @ drop (i + 1) xs"

definition at_register :: "'a list \<Rightarrow> nat \<Rightarrow> ('a \<Rightarrow> 'b result) \<Rightarrow> 'b result" where
  "at_register xs i f = (if i < length xs then f (xs ! i) else Inl Bad_Memory_Access)"

fun string_step :: "hash_function \<Rightarrow> string_op \<Rightarrow> nat list \<times> string_table \<Rightarrow> (nat list \<times> string_table) result" where
  "string_step lh (Make shift cs) (rs, T) = bind_result (make_shared_binary_pcharp lh shift cs T) (\<lambda>(r, T). Inr (rs @ [r], T))"
| "string_step lh (Share i) (rs, T) = at_register rs i (\<lambda>a. bind_result (add_ref a T) (\<lambda>T. Inr (rs @ [a], T)))"
| "string_step lh (Release i) (rs, T) = at_register rs i (\<lambda>a. bind_result (free_string a T) (\<lambda>T. Inr (remove_register i rs, T)))"
| "string_step lh (Add i j) (rs, T) =
     at_register rs i (\<lambda>a. at_register rs j (\<lambda>b. bind_result (add_shared_strings lh a b T) (\<lambda>(r, T). Inr (rs @ [r], T))))"
| "string_step lh (Append i j) (rs, T) =
     at_register rs i (\<lambda>a. at_register rs j (\<lambda>b. bind_result (add_and_free_shared_strings lh a b T) (\<lambda>(r, T). Inr (remove_register j (rs[i := r]), T))))"
| "string_step lh (Modify i k c) (rs, T) =
     at_register rs i (\<lambda>a. bind_result (modify_shared_string lh a k c T) (\<lambda>(r, T). Inr (rs[i := r], T)))"

text \<open>The same on texts; \<open>None\<close> for arguments that no caller may give.\<close>

fun text_step :: "string_op \<Rightarrow> 32 word list list \<Rightarrow> 32 word list list option" where
  "text_step (Make shift cs) ts = (if length cs < max_chars \<and> find_magnitude2 cs \<le> shift then Some (ts @ [cs]) else None)"
| "text_step (Share i) ts = (if i < length ts then Some (ts @ [ts ! i]) else None)"
| "text_step (Release i) ts = (if i < length ts then Some (remove_register i ts) else None)"
| "text_step (Add i j) ts =
     (if i < length ts \<and> j < length ts \<and> length (ts ! i) + length (ts ! j) < max_chars then Some (ts @ [ts ! i @ ts ! j]) else None)"
| "text_step (Append i j) ts =
     (if i < length ts \<and> j < length ts \<and> i \<noteq> j \<and> length (ts ! i) + length (ts ! j) < max_chars
      then Some (remove_register j (ts[i := ts ! i @ ts ! j])) else None)"
| "text_step (Modify i k c) ts =
     (if i < length ts \<and> k < length (ts ! i) \<and> k < 2 ^ 31 then Some (ts[i := (ts ! i)[k := c]]) else None)"

fun string_steps :: "hash_function \<Rightarrow> string_op list \<Rightarrow> nat list \<times> string_table \<Rightarrow> (nat list \<times> string_table) result" where
  "string_steps lh [] S = Inr S"
| "string_steps lh (x # xs) S = bind_result (string_step lh x S) (string_steps lh xs)"

fun text_steps :: "string_op list \<Rightarrow> 32 word list list \<Rightarrow> 32 word list list option" where
  "text_steps [] ts = Some ts"
| "text_steps (x # xs) ts = (case text_step x ts of None \<Rightarrow> None | Some ts \<Rightarrow> text_steps xs ts)"

definition represents :: "hash_function \<Rightarrow> nat list \<times> string_table \<Rightarrow> 32 word list list \<Rightarrow> bool" where
  "represents lh S ts \<longleftrightarrow>
     table_ok lh (snd S) \<and> unshared (snd S) = {} \<and> length (fst S) = length ts \<and> (\<forall>t \<in> set ts. length t < max_chars) \<and>
     held_by (view (snd S)) (mset (zip (fst S) ts))"

lemma zip_remove_at: "length xs = length ys \<Longrightarrow> zip (remove_register i xs) (remove_register i ys) = remove_register i (zip xs ys)"
  by (simp add: remove_register_def take_zip drop_zip)

lemma mset_remove_at: "i < length xs \<Longrightarrow> mset xs = add_mset (xs ! i) (mset (remove_register i xs))"
  by (subst id_take_nth_drop [of i xs]) (simp_all add: remove_register_def)

lemma mset_update_at: "i < length xs \<Longrightarrow> mset (xs[i := x]) = add_mset x (mset (remove_register i xs))"
  by (simp add: upd_conv_take_nth_drop remove_register_def)

lemma length_remove_at: "i < length xs \<Longrightarrow> length (remove_register i xs) = length xs - 1"
  by (simp add: remove_register_def)

lemma set_remove_at: "set (remove_register i xs) \<subseteq> set xs"
  by (auto simp: remove_register_def dest: in_set_takeD in_set_dropD)


text \<open>What an operation takes and gives: the handles it uses up, and the one it makes.\<close>

text \<open>A table whose strings are held by few handles has room.\<close>

lemma held_roomy:
  assumes "held_by V M" "size M + k \<le> 2 ^ 30"
  shows "roomy k V"
proof -
  have d: "dom V \<subseteq> set_mset (image_mset fst M)"
  proof
    fix a assume "a \<in> dom V"
    then obtain c n where "V a = Some (c, n)"
      by auto
    then have "0 < count (image_mset fst M) a"
      using assms(1) unfolding held_by_def by metis
    then show "a \<in> set_mset (image_mset fst M)"
      by simp
  qed
  then have "card (dom V) \<le> card (set_mset (image_mset fst M))"
    by (intro card_mono) simp_all
  also have "\<dots> \<le> size (image_mset fst M)"
    using size_mset_mono [OF mset_set_set_mset_msubset [of "image_mset fst M"]] by simp
  finally have "card (dom V) + k \<le> 2 ^ 30"
    using assms(2) by simp
  moreover have "n + k < 2 ^ 31" if n: "V a = Some (c, n)" for a c n
  proof -
    have "n = count (image_mset fst M) a"
      using assms(1) n unfolding held_by_def by blast
    also have "\<dots> \<le> size (image_mset fst M)"
      by (rule count_le_size)
    finally show ?thesis
      using assms(2) by simp
  qed
  moreover have "finite (dom V)"
    by (rule finite_subset [OF d]) simp
  ultimately show ?thesis
    unfolding roomy_def by blast
qed

lemma interns_held:
  assumes i: "interns lh T V cs res" and h: "held_by V M" and u: "unshared T = {}" and room: "roomy 1 V"
  obtains r T' where "res = Inr (r, T')" "table_ok lh T'" "unshared T' = {}" "held_by (view T') (add_mset (r, cs) M)"
  using i u room held_interned [OF h] by (auto simp: interns_def)

lemma represents_handle:
  assumes "represents lh (rs, T) ts" "i < length ts"
  obtains n where "i < length rs" "view T (rs ! i) = Some (ts ! i, n)"
proof -
  have l: "length rs = length ts"
    using assms(1) by (simp add: represents_def)
  then have "(rs ! i, ts ! i) \<in># mset (zip rs ts)"
    using assms(2) by (auto simp: set_zip)
  then have "\<exists>n. view T (rs ! i) = Some (ts ! i, n)"
    using assms(1) unfolding represents_def held_by_def by auto
  then show ?thesis
    using that l assms(2) by auto
qed

text \<open>The multisets of handles after a step.\<close>

lemma held_append: "length rs = length ts \<Longrightarrow> mset (zip (rs @ [r]) (ts @ [t])) = add_mset (r, t) (mset (zip rs ts))"
  by simp

lemma held_remove:
  "length rs = length ts \<Longrightarrow> i < length ts \<Longrightarrow> mset (zip rs ts) = add_mset (rs ! i, ts ! i) (mset (zip (remove_register i rs) (remove_register i ts)))"
  using mset_remove_at [of i "zip rs ts"] by (simp add: zip_remove_at)

lemma held_update:
  "length rs = length ts \<Longrightarrow> i < length ts \<Longrightarrow> mset (zip (rs[i := r]) (ts[i := t])) = add_mset (r, t) (mset (zip (remove_register i rs) (remove_register i ts)))"
  by (simp add: zip_update mset_update_at zip_remove_at)

lemma represents_parts:
  assumes "represents lh (rs, T) ts"
  shows "table_ok lh T" "unshared T = {}" "length rs = length ts" "\<forall>t \<in> set ts. length t < max_chars" "held_by (view T) (mset (zip rs ts))"
  using assms by (simp_all add: represents_def)

lemma represents_room: "represents lh (rs, T) ts \<Longrightarrow> length ts < 2 ^ 30 \<Longrightarrow> roomy 1 (view T)"
  by (rule held_roomy [where M = "mset (zip rs ts)"]) (auto simp: represents_def)

lemma representsI:
  "table_ok lh T \<Longrightarrow> unshared T = {} \<Longrightarrow> length rs = length ts \<Longrightarrow> \<forall>t \<in> set ts. length t < max_chars \<Longrightarrow>
   held_by (view T) (mset (zip rs ts)) \<Longrightarrow> represents lh (rs, T) ts"
  by (simp add: represents_def)

lemma step_make:
  assumes r: "represents lh (rs, T) ts" and l: "length ts < 2 ^ 30" and x: "length cs < max_chars" "find_magnitude2 cs \<le> shift"
  shows "\<exists>S. string_step lh (Make shift cs) (rs, T) = Inr S \<and> represents lh S (ts @ [cs])"
proof -
  note p = represents_parts [OF r]
  obtain a T' where "make_shared_binary_pcharp lh shift cs T = Inr (a, T')" "table_ok lh T'" "unshared T' = {}"
      "held_by (view T') (add_mset (a, cs) (mset (zip rs ts)))"
    by (rule interns_held [OF make_shared_binary_pcharp_ok [OF p(1) x] p(5,2) represents_room [OF r l]])
  then show ?thesis
    using p x by (simp add: represents_def)
qed

lemma step_share:
  assumes r: "represents lh (rs, T) ts" and l: "length ts < 2 ^ 30" and i: "i < length ts"
  shows "\<exists>S. string_step lh (Share i) (rs, T) = Inr S \<and> represents lh S (ts @ [ts ! i])"
proof -
  note p = represents_parts [OF r]
  obtain n where n: "i < length rs" "view T (rs ! i) = Some (ts ! i, n)"
    by (rule represents_handle [OF r i])
  obtain T' where T': "add_ref (rs ! i) T = Inr T'" "table_ok lh T'" "view T' = (view T)(rs ! i \<mapsto> (ts ! i, n + 1))" "unshared T' = unshared T"
    using add_ref_ok [OF p(1) n(2) roomy_refs [OF represents_room [OF r l] n(2)]] by blast
  have "held_by (view T') (add_mset (rs ! i, ts ! i) (mset (zip rs ts)))"
    unfolding T'(3) by (rule held_interned [OF p(5) interned_add_ref [of "view T", OF n(2)]])
  then show ?thesis
    using p T' n(1) i by (simp add: represents_def at_register_def)
qed

lemma step_release:
  assumes r: "represents lh (rs, T) ts" and i: "i < length ts"
  shows "\<exists>S. string_step lh (Release i) (rs, T) = Inr S \<and> represents lh S (remove_register i ts)"
proof -
  note p = represents_parts [OF r]
  obtain n where n: "i < length rs" "view T (rs ! i) = Some (ts ! i, n)"
    by (rule represents_handle [OF r i])
  obtain T' where T': "free_string (rs ! i) T = Inr T'" "table_ok lh T'" "view T' = released (view T) (rs ! i)" "unshared T' = unshared T"
    using free_ok [OF p(1) n(2)] by blast
  have "held_by (view T') (mset (zip (remove_register i rs) (remove_register i ts)))"
    unfolding T'(3) by (rule held_released) (use p(5) held_remove [OF p(3) i] in simp)
  then have "represents lh (remove_register i rs, T') (remove_register i ts)"
    using p T' n(1) i set_remove_at [of i ts] by (intro representsI) (auto simp: length_remove_at)
  then show ?thesis
    using T'(1) n(1) by (simp add: at_register_def)
qed

lemma step_add:
  assumes r: "represents lh (rs, T) ts" and l: "length ts < 2 ^ 30" and i: "i < length ts" "j < length ts" "length (ts ! i) + length (ts ! j) < max_chars"
  shows "\<exists>S. string_step lh (Add i j) (rs, T) = Inr S \<and> represents lh S (ts @ [ts ! i @ ts ! j])"
proof -
  note p = represents_parts [OF r]
  obtain n where n: "i < length rs" "view T (rs ! i) = Some (ts ! i, n)"
    by (rule represents_handle [OF r i(1)])
  obtain m where m: "j < length rs" "view T (rs ! j) = Some (ts ! j, m)"
    by (rule represents_handle [OF r i(2)])
  obtain a T' where "add_shared_strings lh (rs ! i) (rs ! j) T = Inr (a, T')" "table_ok lh T'" "unshared T' = {}"
      "held_by (view T') (add_mset (a, ts ! i @ ts ! j) (mset (zip rs ts)))"
    by (rule interns_held [OF add_shared_strings_ok [OF p(1) n(2) m(2) i(3)] p(5,2) represents_room [OF r l]])
  then show ?thesis
    using p n(1) m(1) i(3) by (simp add: represents_def at_register_def)
qed

lemma step_modify:
  assumes r: "represents lh (rs, T) ts" and ln: "length ts < 2 ^ 30" and lh: "memory_hash lh" and i: "i < length ts" "k < length (ts ! i)"
  shows "\<exists>S. string_step lh (Modify i k c) (rs, T) = Inr S \<and> represents lh S (ts[i := (ts ! i)[k := c]])"
proof -
  note p = represents_parts [OF r]
  obtain n where n: "i < length rs" "view T (rs ! i) = Some (ts ! i, n)"
    by (rule represents_handle [OF r i(1)])
  have l: "length (ts ! i) < max_chars"
    using p(4) i(1) by simp
  have h: "held_by (released (view T) (rs ! i)) (mset (zip (remove_register i rs) (remove_register i ts)))"
    by (rule held_released) (use p(5) held_remove [OF p(3) i(1)] in simp)
  obtain a T' where T': "modify_shared_string lh (rs ! i) k c T = Inr (a, T')" "table_ok lh T'" "unshared T' = {}"
      "held_by (view T') (add_mset (a, (ts ! i)[k := c]) (mset (zip (remove_register i rs) (remove_register i ts))))"
    by (rule interns_held [OF modify_ok [OF p(1) lh n(2) l i(2)] h p(2) roomy_released [OF represents_room [OF r ln]]])
  have "represents lh (rs[i := a], T') (ts[i := (ts ! i)[k := c]])"
    using T' p(3,4) l set_update_subset_insert [of ts i "(ts ! i)[k := c]"]
    by (intro representsI) (auto simp: held_update [OF p(3) i(1)])
  then show ?thesis
    using T'(1) n(1) by (simp add: at_register_def)
qed


lemma remove_at_other:
  assumes "i \<noteq> j" "j < length xs"
  shows "xs ! j \<in> set (remove_register i xs)"
proof (cases "j < i")
  case True
  then have "take i xs ! j = xs ! j" "j < length (take i xs)"
    using assms by simp_all
  then show ?thesis
    unfolding remove_register_def by (metis UnCI nth_mem set_append)
next
  case False
  then have "drop (i + 1) xs ! (j - (i + 1)) = xs ! j" "j - (i + 1) < length (drop (i + 1) xs)"
    using assms by simp_all
  then show ?thesis
    unfolding remove_register_def by (metis UnCI nth_mem set_append)
qed

lemma held_count: "held_by V (add_mset (a, c) M) \<Longrightarrow> V a = Some (c, count (image_mset fst M) a + 1)"
  using held_member [of V "add_mset (a, c) M" a c] by simp

lemma step_append:
  assumes r: "represents lh (rs, T) ts" and l: "length ts < 2 ^ 30" and i: "i < length ts" "j < length ts" "i \<noteq> j" "length (ts ! i) + length (ts ! j) < max_chars"
  shows "\<exists>S. string_step lh (Append i j) (rs, T) = Inr S \<and> represents lh S (remove_register j (ts[i := ts ! i @ ts ! j]))"
proof -
  note p = represents_parts [OF r]
  let ?a = "rs ! i" and ?b = "rs ! j" and ?t = "ts ! i @ ts ! j"
  obtain n where n: "i < length rs" "view T ?a = Some (ts ! i, n)"
    by (rule represents_handle [OF r i(1)])
  obtain m where m: "j < length rs" "view T ?b = Some (ts ! j, m)"
    by (rule represents_handle [OF r i(2)])
  let ?R = "mset (zip (remove_register i rs) (remove_register i ts))"
  have "zip rs ts ! j \<in> set (remove_register i (zip rs ts))"
    by (rule remove_at_other) (use i p(3) in simp_all)
  then have "(?b, ts ! j) \<in># ?R"
    using i(2) p(3) by (simp add: zip_remove_at)
  then obtain M where M: "?R = add_mset (?b, ts ! j) M"
    by (metis mset_add)
  have h0: "held_by (view T) (add_mset (?a, ts ! i) (add_mset (?b, ts ! j) M))"
    using p(5) unfolding held_remove [OF p(3) i(1)] M .
  then have two: "1 < n" if "?a = ?b"
    using held_count [OF h0] n(2) that by simp
  have h: "held_by (released (released (view T) ?a) ?b) M"
    by (rule held_released [OF held_released [OF h0]])
  obtain c T' where T': "add_and_free_shared_strings lh ?a ?b T = Inr (c, T')" "table_ok lh T'" "unshared T' = {}"
      "held_by (view T') (add_mset (c, ?t) M)"
    by (rule interns_held [OF add_and_free_ok [OF p(1) n(2) m(2) two i(4) represents_room [OF r l]] h p(2)
          roomy_released [OF roomy_released [OF represents_room [OF r l]]]])
  have "add_mset (rs[i := c] ! j, ts[i := ?t] ! j) (mset (zip (remove_register j (rs[i := c])) (remove_register j (ts[i := ?t])))) =
      mset (zip (rs[i := c]) (ts[i := ?t]))"
    by (rule held_remove [symmetric]) (use p(3) i in simp_all)
  also have "\<dots> = add_mset (c, ?t) ?R"
    by (rule held_update [OF p(3) i(1)])
  finally have z: "mset (zip (remove_register j (rs[i := c])) (remove_register j (ts[i := ?t]))) = add_mset (c, ?t) M"
    using i(3) M by simp
  have "represents lh (remove_register j (rs[i := c]), T') (remove_register j (ts[i := ?t]))"
  proof (rule representsI [OF T'(2,3)])
    show "length (remove_register j (rs[i := c])) = length (remove_register j (ts[i := ?t]))"
      using p(3) i by (simp add: length_remove_at)
    show "held_by (view T') (mset (zip (remove_register j (rs[i := c])) (remove_register j (ts[i := ?t]))))"
      unfolding z by (rule T'(4))
    have "set (remove_register j (ts[i := ?t])) \<subseteq> insert ?t (set ts)"
      using set_remove_at set_update_subset_insert by (rule subset_trans)
    then show "\<forall>t \<in> set (remove_register j (ts[i := ?t])). length t < max_chars"
      using p(4) i(4) by auto
  qed
  then show ?thesis
    using T'(1) n(1) m(1) by (simp add: at_register_def)
qed

lemma string_step_ok:
  assumes r: "represents lh S ts" and l: "length ts < 2 ^ 30" and lh: "memory_hash lh" and t: "text_step x ts = Some us"
  shows "\<exists>S'. string_step lh x S = Inr S' \<and> represents lh S' us"
proof -
  obtain rs T where S: "S = (rs, T)"
    by (cases S)
  note q = r [unfolded S]
  show ?thesis
    unfolding S using t step_make [OF q l] step_share [OF q l] step_release [OF q] step_add [OF q l] step_append [OF q l] step_modify [OF q l lh]
    by (cases x) (auto simp del: string_step.simps split: if_splits)
qed

lemma text_step_length: "text_step x ts = Some us \<Longrightarrow> length us \<le> length ts + 1"
  by (cases x) (auto simp: remove_register_def split: if_splits)

lemma string_steps_ok:
  assumes "memory_hash lh"
  shows "represents lh S ts \<Longrightarrow> length ts + length xs \<le> 2 ^ 30 \<Longrightarrow> text_steps xs ts = Some us \<Longrightarrow> \<exists>S'. string_steps lh xs S = Inr S' \<and> represents lh S' us"
proof (induction xs arbitrary: S ts)
  case (Cons x xs)
  then obtain vs where vs: "text_step x ts = Some vs" "text_steps xs vs = Some us"
    by (auto split: option.splits)
  obtain S1 where "string_step lh x S = Inr S1" "represents lh S1 vs"
    using string_step_ok [OF Cons.prems(1) _ assms vs(1)] Cons.prems(2) by auto
  then show ?case
    using Cons.IH [OF _ _ vs(2)] Cons.prems(2) text_step_length [OF vs(1)] by simp
qed simp

section \<open>The first table\<close>

lemma empty_table_ok: "table_ok lh (empty_table now)" "view (empty_table now) a = None" "unshared (empty_table now) = {}"
proof -
  have l: "linked (empty_table now) = {}"
    by (simp add: linked_def empty_table_def)
  have "\<exists>k. (1024 :: nat) = 2 ^ k"
    by (rule exI [of _ 10]) simp
  then show "table_ok lh (empty_table now)"
    using l by (simp add: table_ok_def core_ok_def bucket_ok_def empty_table_def)
  show "view (empty_table now) a = None" "unshared (empty_table now) = {}"
    by (simp_all add: view_def unshared_def empty_table_def)
qed

text \<open>The flags that do not belong to the table.\<close>

lemma flag_entry_ok:
  assumes ok: "table_ok lh T" and v: "view T a = Some (cs, n)" and s: "objects T a = Some s"
  shows "table_ok lh (put_string a (s\<lparr>flags := flags s OR string_is_lowercase OR string_is_uppercase\<rparr>) T)"
    "view (put_string a (s\<lparr>flags := flags s OR string_is_lowercase OR string_is_uppercase\<rparr>) T) = view T"
    "unshared (put_string a (s\<lparr>flags := flags s OR string_is_lowercase OR string_is_uppercase\<rparr>) T) = unshared T"
proof -
  let ?s = "s\<lparr>flags := flags s OR string_is_lowercase OR string_is_uppercase\<rparr>"
  have a: "a \<in> linked T"
    using view_linked [OF v] by blast
  have e: "string_entry_ok ?s \<longleftrightarrow> string_entry_ok s"
    by (simp add: string_entry_ok_def flag_simps)
  show "table_ok lh (put_string a ?s T)"
  proof (rule table_ok_entries [OF ok])
    fix b t
    assume "b \<in> linked T" "objects T b = Some t" "string_entry_ok t"
    then show "\<exists>u. objects (put_string a ?s T) b = Some u \<and> string_entry_ok u \<and> chars u = chars t \<and> size_shift u = size_shift t \<and> hval u = hval t"
      using s e by (cases "b = a") auto
  qed (use linked_shared [OF ok] objects_below [OF ok] a s in \<open>auto split: if_splits\<close>)
  show "view (put_string a ?s T) = view T" "unshared (put_string a ?s T) = unshared T"
    using a s by (auto simp: view_def unshared_def fun_eq_iff)
qed

lemma init_ok:
  obtains a T where "init_shared_string_table lh now = Inr (a, T)" "represents lh ([a], T) [[]]"
proof -
  have "interns lh (empty_table now) (view (empty_table now)) [] (make_shared_binary_string lh [] (empty_table now))"
    by (rule make_shared_binary_string_ok [OF empty_table_ok(1)]) simp_all
  then obtain a T where T: "make_shared_binary_string lh [] (empty_table now) = Inr (a, T)" "table_ok lh T"
      "interned (view (empty_table now)) [] a (view T)" "unshared T = {}"
    by (rule internsE) (simp_all add: roomy_def dom_def empty_table_ok)
  have h: "held_by (view T) {#(a, [])#}"
    by (rule held_interned [OF _ T(3)]) (simp add: held_by_def empty_table_ok)
  then have v: "view T a = Some ([], 1)"
    using held_count [of "view T" a "[]" "{#}"] by simp
  obtain s where s: "objects T a = Some s"
    using view_linked [OF v] by blast
  have "represents lh ([a], put_string a (s\<lparr>flags := flags s OR string_is_lowercase OR string_is_uppercase\<rparr>) T) [[]]"
    by (rule representsI) (use flag_entry_ok [OF T(2) v s] T(4) h in simp_all)
  then show ?thesis
    using that T(1) s by (simp add: init_shared_string_table_def with_string_def)
qed

section \<open>Properties\<close>

text \<open>What a table and its handles show of the texts.\<close>

lemma represents_shows:
  assumes "represents lh (rs, U) ts"
  shows "i < length ts \<Longrightarrow> view U (rs ! i) = Some (ts ! i, count_list rs (rs ! i))"
    "i < length ts \<Longrightarrow> j < length ts \<Longrightarrow> rs ! i = rs ! j \<longleftrightarrow> ts ! i = ts ! j" "dom (objects U) = set rs"
proof -
  note p = represents_parts [OF assms]
  have m: "image_mset fst (mset (zip rs ts)) = mset rs"
    using p(3) by (simp flip: mset_map)
  show v: "view U (rs ! i) = Some (ts ! i, count_list rs (rs ! i))" if i: "i < length ts" for i
  proof -
    obtain n where n: "view U (rs ! i) = Some (ts ! i, n)"
      by (rule represents_handle [OF assms i])
    then have "n = count (mset rs) (rs ! i)"
      using p(5) unfolding held_by_def m by blast
    then show ?thesis
      using n by (simp add: count_mset)
  qed
  show "rs ! i = rs ! j \<longleftrightarrow> ts ! i = ts ! j" if "i < length ts" "j < length ts"
    using v [OF that(1)] v [OF that(2)] view_unique [OF p(1)] by auto
  have "dom (objects U) = linked U"
    using p(2) linked_objects [OF p(1)] by (auto simp: unshared_def)
  also have "\<dots> = dom (view U)"
    using linked_objects [OF p(1)] by (auto simp: view_def dom_def)
  also have "\<dots> = set rs"
  proof
    show "dom (view U) \<subseteq> set rs"
    proof
      fix a assume "a \<in> dom (view U)"
      then obtain c n where "view U a = Some (c, n)"
        by auto
      then have "0 < count (mset rs) a"
        using p(5) unfolding held_by_def m by blast
      then show "a \<in> set rs"
        by simp
    qed
    show "set rs \<subseteq> dom (view U)"
      using v p(3) by (auto simp: in_set_conv_nth)
  qed
  finally show "dom (objects U) = set rs" .
qed

text \<open>C15: Programs of fewer than \<open>2 ^ 30\<close> operations that make strings (of any width), share and release
  them, add and append them and change their characters see texts: no operation fails, the handles refer
  to strings with the characters the operations on texts give, two handles are equal exactly when
  their texts are, every string counts the handles that refer to it, and no other string is in memory.
  \<open>memory_hash\<close> says what the hash function reads; it is proved of SipHash.\<close>

theorem string_pool_refines:
  assumes "memory_hash lh" "text_steps xs [[]] = Some ts" "length xs < 2 ^ 30"
  shows "\<exists>a T rs U. init_shared_string_table lh now = Inr (a, T) \<and> string_steps lh xs ([a], T) = Inr (rs, U) \<and>
    length rs = length ts \<and> (\<forall>i < length ts. view U (rs ! i) = Some (ts ! i, count_list rs (rs ! i))) \<and>
    (\<forall>i < length ts. \<forall>j < length ts. rs ! i = rs ! j \<longleftrightarrow> ts ! i = ts ! j) \<and> dom (objects U) = set rs"
proof -
  obtain a T where T: "init_shared_string_table lh now = Inr (a, T)" "represents lh ([a], T) [[]]"
    by (rule init_ok)
  obtain S where S: "string_steps lh xs ([a], T) = Inr S" "represents lh S ts"
    using string_steps_ok [OF assms(1) T(2) _ assms(2)] assms(3) by auto
  obtain rs U where e: "S = (rs, U)"
    by (cases S)
  note r = S(2) [unfolded e]
  have "length rs = length ts"
    using represents_parts [OF r] by blast
  then show ?thesis
    using T(1) S(1) e represents_shows [OF r] by blast
qed

theorem string_pool_refines_witness:
  "\<exists>a T rs U. init_shared_string_table low_hashmem_siphash24 7 = Inr (a, T) \<and>
    string_steps low_hashmem_siphash24 [Make 1 [97, 98], Make 2 [97, 0x3b1], Modify 2 1 98] ([a], T) = Inr (rs, U) \<and> rs ! 1 = rs ! 2"
proof -
  let ?xs = "[Make 1 [97, 98], Make 2 [97, 0x3b1], Modify 2 1 98]" and ?ts = "[[], [97, 98], [97, 98 :: 32 word]]"
  have t: "text_steps ?xs [[]] = Some ?ts"
    by (simp add: find_magnitude2_cases)
  have l: "length ?xs < 2 ^ 30"
    by simp
  obtain a T rs U where s: "init_shared_string_table low_hashmem_siphash24 7 = Inr (a, T)"
    "string_steps low_hashmem_siphash24 ?xs ([a], T) = Inr (rs, U)"
    "\<forall>i < length ?ts. \<forall>j < length ?ts. rs ! i = rs ! j \<longleftrightarrow> ?ts ! i = ?ts ! j"
    using string_pool_refines [OF siphash.memory_hash_axioms t l, of 7] by blast
  have "rs ! 1 = rs ! 2"
    using s(3) [rule_format, of 1 2] by simp
  then show ?thesis
    using s(1,2) by blast
qed

text \<open>C16: Changing a character of a string in a table that is right: the caller's reference is exchanged for one to the
  string with the changed text, which is entered in the table unless it is there, whatever way is taken: as
  it is, wider, narrower, in place with or without a new hash value, or copied. In particular a change in
  place that keeps the hash value leaves the string where a search finds it.\<close>

theorem modify_shared_string_spec:
  assumes "table_ok lh T" "memory_hash lh" "view T a = Some (cs, n)" "length cs < 2 ^ 60" "i < length cs" "roomy 1 (view T)"
  shows "\<exists>r T'. modify_shared_string lh a i c T = Inr (r, T') \<and> table_ok lh T' \<and> unshared T' = unshared T \<and>
    interned (released (view T) a) (cs[i := c]) r (view T')"
  by (rule internsE [OF modify_ok [OF assms(1-5)] roomy_released [OF assms(6)]]) blast

theorem modify_shared_string_spec_witness:
  "\<exists>a T r U n. modify_shared_string low_hashmem_siphash24 a 1 99 T = Inr (r, U) \<and> view U r = Some ([97, 99], n)"
proof -
  let ?lh = low_hashmem_siphash24
  obtain a T where T: "represents ?lh ([a], T) [[]]"
    using init_ok by blast
  have "\<exists>S. string_step ?lh (Make 0 [97, 98]) ([a], T) = Inr S \<and> represents ?lh S ([[]] @ [[97, 98]])"
    by (rule step_make [OF T]) (simp_all add: find_magnitude2_cases)
  then obtain rs U where U: "represents ?lh (rs, U) [[], [97, 98]]"
    by force
  obtain n where n: "view U (rs ! 1) = Some ([97, 98], n)"
    using represents_shows(1) [OF U, of 1] by auto
  have "roomy 1 (view U)"
    by (rule represents_room [OF U]) simp
  then obtain r U' where "modify_shared_string ?lh (rs ! 1) 1 99 U = Inr (r, U')"
      "interned (released (view U) (rs ! 1)) ([97, 98][1 := 99]) r (view U')"
    using modify_shared_string_spec [OF represents_parts(1) [OF U] siphash.memory_hash_axioms n, of 1 99] by auto
  then show ?thesis
    using interned_result by fastforce
qed

end
