(* ===== verification/Spec2Isabelle.thy ===== *)
theory Spec2Isabelle
  imports Mime_Base64 Mime_Base32 Mime_Crypt64 Mime_QP Mime_UUE Mime_Quote Svalue Array_Ops Mapping_Ops
    Queue Seq_Ops Array_Merge Utf8_Valid String_Pool
begin

text \<open>
  Verification library for the Pike interpreter (\<open>src/src\<close>) and its built-in modules.

  \<^bold>\<open>The program.\<close> Pike compiles programs to instructions of a stack machine (\<open>program.c\<close>, \<open>peep.c\<close>,
  \<open>docode.c\<close>, \<open>interpret.c\<close>) that work on tagged values (\<open>svalue.c\<close>). Strings are shared and immutable
  (\<open>stralloc.c\<close>); arrays, mappings and multisets (\<open>array.c\<close>, \<open>mapping.c\<close>, \<open>multiset.c\<close>) are counted
  references to containers in C memory; the operators of the language (\<open>operators.c\<close>) dispatch on
  the tags, and the garbage collector (\<open>gc.c\<close>) visits the containers through queues of calls
  (\<open>queue.c\<close>). Modules written in C (\<open>modules/\<close>) add functions on these values.

  \<^bold>\<open>What is modelled, and where.\<close>

  \<^item> \<open>Prelude\<close>: bytes, Pike strings as C functions of the modules see them (the characters with their
    size shift), the errors, results as sums with their composition, and the lemmas on lists and
    bits that the other theories share.

  \<^item> \<open>Mime_Base64\<close>, \<open>Mime_Base32\<close>, \<open>Mime_Crypt64\<close>, \<open>Mime_QP\<close>, \<open>Mime_UUE\<close>: the encoders and decoders of
    \<open>modules/MIME/mime.c\<close>, with their tables, argument checks and allocations. The state of every C
    loop (the accumulator, the bits pending, the position) is an argument of a recursive function.
    The locales \<open>alphabet\<close>, \<open>sextets\<close> and \<open>quintets\<close> hold what the codecs need of an alphabet and its
    reverse table; they are interpreted on the tables of the module, so that the two alphabets of
    base64 and of base32 share their proofs.

  \<^item> \<open>Mime_Tokenize\<close>, \<open>Mime_Quote\<close>: the tokenizer of mail headers (\<open>low_tokenize\<close>: one definition for each
    kind of token, \<open>token_step\<close> for the body of its loop) and its inverse (\<open>f_quote\<close>, \<open>f_quote_labled\<close>).
    Reads of the source are explicit, so that a read outside of it is an error of the model, and so is
    an overflow of the \<open>INT32\<close> indices of the scans (\<open>next_index\<close>). \<open>short\<close> bounds the length.

  \<^item> \<open>Svalue\<close>: \<open>struct svalue\<close> as a datatype, with \<open>is_eq\<close>, \<open>is_identical\<close>, truth, destructedness and
    \<open>hash_svalue\<close>. What is behind a pointer (the program of an object, the operators it overloads) is a
    record \<open>world\<close>, an argument of these functions.

  \<^item> \<open>Array_Block\<close>: \<open>struct array\<close> as a record of a block of cells and the range of it in use; the
    invariant \<open>array_ok\<close> includes the type field, which must hold the type of every element. Allocation,
    insertion, removal, resizing and slices work on the block as the code does (\<open>memmove\<close> is
    \<open>mem_copy\<close>) and refine the operations on lists. \<open>Array_Ops\<close> holds the searches, the
    subtraction of a value, the reversal and the binary search.

  \<^item> \<open>Sort\<close>: the sorting template (\<open>fsort_template.h\<close>), a quicksort that falls back to a heap sort. It returns
    for every comparison function; the locale \<open>preorder_cmp\<close> is what it needs to sort.
    \<open>Array_Sort\<close>: the comparison functions of \<open>array.c\<close>, stable orders and the rearranging of arrays;
    the locale \<open>order_cmp\<close>, which gives \<open>preorder_cmp\<close>, is interpreted on the order of sets and that of
    integers. \<open>Array_Merge\<close>: the operators on arrays as multisets (\<open>merge_array_with_order\<close>): sort both,
    merge by an operation code, sort the list of indices back.

  \<^item> \<open>Mapping_Data\<close>: the hash table of a mapping, chains of key pairs, the search in a chain (the variant
    without \<open>PROPAGATE\<close>, which is switched off in the source: the pair found stays where it is), linking,
    unlinking and the two rehashings. \<open>Mapping_Heap\<close>: the tables
    in a heap with the counters of references, value locks and hard links, and the operations that
    copy a shared table before they change it. \<open>Mapping_Steps\<close>: programs over mappings as sequences of
    steps; they refine programs over finite maps (\<open>mappings_refine_finite_maps\<close>), and the debug
    checks of \<open>check_mapping\<close> pass in every state they reach. \<open>Mapping_Ops\<close>: sums and set operators,
    with their destructive cases. \<open>hashed_keys\<close> is what a table needs of equality and hash, \<open>map_store\<close>
    and \<open>map_store_delete\<close> are the contract of insertion, lookup and deletion that the operators
    rest on; they are interpreted on the values of \<open>Svalue\<close> and the heap of \<open>Mapping_Heap\<close>.

  \<^item> \<open>Queue\<close>: \<open>struct pike_queue\<close> with its blocks in a store of addresses. \<open>call_queue\<close> is the contract of a
    queue whose calls may add further calls; it is interpreted for the queue and for the stack.
    The loops are partial functions: that they return is proved (when the calls asked for end).

  \<^item> \<open>Int_Ops\<close>: the operators on \<open>INT_TYPE\<close>, words of 64 bits, with the tests for overflows of \<open>bignum.h\<close>.
    The methods of the numbers of the Gmp module are a parameter \<open>big\<close>; the theorems assume that they
    compute exactly, and \<open>gmp\<close> is such a parameter. A sum that overflows is computed again in pairs
    (\<open>pairwise_add\<close>, \<open>pair_add\<close>), with the methods for \<open>+\<close> and \<open>+=\<close> of the parameter. \<open>Seq_Ops\<close>: subranges of strings, division into pieces,
    and repetition, with the lengths at the widths the code computes them in.

  \<^item> \<open>Strings\<close>: \<open>struct pike_string\<close> with its width, the flags and the bytes \<open>min\<close> and \<open>max\<close> that tell what
    range of characters it may hold (\<open>check_string_range\<close>), the invariant \<open>string_ok\<close> on them, the tests
    that rest on the range, and the comparison of strings of different widths. \<open>Utf8\<close>: the encoder, the
    decoder and the validation of UTF-8 (\<open>builtin_functions.c\<close>), one definition for each kind of first byte,
    and the round trip. \<open>Utf8_Inv\<close>: the converse, by inversion of every test of the decoder.
    \<open>Utf8_Valid\<close>: the validation, with its masks that grow with each byte, agrees with the decoder.

  \<^item> \<open>String_Table\<close>: the table of shared strings, a hash table of objects at addresses (an address is not used
    again), with SipHash; the variants of the hash function that use special instructions are the
    parameter \<open>low_hashmem\<close>. \<open>String_Shared\<close>: the invariant \<open>table_ok\<close> (each string once, in the bucket of
    its hash value) and the operations that keep it: search, linking with its two kinds of rehashing,
    unlinking. \<open>String_Intern\<close>: what making, adding and releasing strings does to the \<open>view\<close> of
    the table (which address holds which text, how often referred to). \<open>String_Modify\<close>: the change of a
    character; the locale \<open>memory_hash\<close> is what it relies on, the bytes that the hash function reads, and is
    interpreted on SipHash. \<open>String_Pool\<close>: the locale \<open>text_pool\<close>, the contract of an interned
    collection of texts, interpreted on the table, and programs over handles, which refine programs over
    texts (\<open>string_pool_refines\<close>).

  \<^bold>\<open>What the theorems show.\<close> Round trips of every MIME codec, of UTF-8 and of the header tokenizer; that the
  tokenizer and the decoders stay inside their strings; the refinement of arrays by lists, of
  mappings by finite maps and of shared strings by texts, with the invariants the debug mode tests; that the sort returns and sorts;
  set operators, sums and repetition as functions of the abstract values; the exactness of integer arithmetic; the order and
  the end of the runs of a queue of calls. Some theorems show where the code fails: they are the
  findings of the manifest.

  \<^bold>\<open>Bounds.\<close> A machine word has 64 bits, as on the common platforms. Sizes of tables that the code
  computes as \<open>INT32\<close> are the error \<open>Int_Overflow\<close> when they do not fit: a mapping has a hash size of at
  most \<open>2 ^ 28\<close>, and the theorems on mappings are for at most \<open>2 ^ 30\<close> entries and \<open>2 ^ 30\<close>
  operations. The counters of a table are natural numbers; they are shown not to exceed the number
  of operations by more than one, so that they fit the 32 bits they have in the code. The table of
  strings has an error for references and sizes that leave their 32 bits; \<open>roomy\<close> is the room an
  operation needs, and programs of fewer than \<open>2 ^ 30\<close> operations have it. Loops of C that the source bounds by
  a length are structural or have a measure; where a loop may not end the model is a
  \<open>partial_function\<close> and its result \<open>None\<close> is that it does not return. No fuel is used.

  \<^bold>\<open>Not modelled.\<close> Counts of references of elements, except where an operation tests them; floating point
  arithmetic; the calls of overloaded operators, which are arguments of the model; the interpreter, the
  compiler, the collector itself, strings that share their characters with another string, multisets, threads, the
  serialisation, the formatted output and the modules other than MIME.
\<close>

end
